(* ===== verification/Prelude.thy ===== *)
theory Prelude
  imports Main "HOL-Library.Word" "HOL-Library.List_Lexorder" "HOL-Library.Sublist"
begin

text \<open>
  The shared ground of the development: Rust strings as lists of Unicode scalar values, the
  operations of \<open>str\<close> the program uses, saturating machine arithmetic, and the contract of a
  bounded history (a buffer that drops its oldest entries), which several components share.
\<close>

named_theorems str_simps \<open>equations that evaluate string operations on closed terms\<close>
named_theorems window_intros \<open>membership and length facts of bounded buffers\<close>

section \<open>Strings\<close>

text \<open>
  A Rust \<open>char\<close> is a Unicode scalar value and a \<open>str\<close> a sequence of them. Offsets that Rust
  counts in bytes only ever come from a search in the same string, so they always fall on
  character boundaries; the model slices by characters and \<open>utf8_len\<close> gives the byte length where
  the code uses it. Comparing two lists of scalar values lexicographically is the order of their
  UTF-8 bytes, which is Rust's \<open>Ord\<close> on \<open>String\<close>. \<open>lit\<close> turns an ASCII literal of the logic into
  such a string.
\<close>

type_synonym uchar = int
type_synonym ustr = "uchar list"

definition lit :: "string \<Rightarrow> ustr" where
  "lit s = map of_char s"

lemma lit_Nil [simp, str_simps]: "lit [] = []"
  by (simp add: lit_def)

lemma lit_Cons [str_simps]: "lit (c # s) = of_char c # lit s"
  by (simp add: lit_def)

lemma lit_append [str_simps]: "lit (s @ t) = lit s @ lit t"
  by (simp add: lit_def)

lemma lit_eq_iff [simp]: "lit s = lit t \<longleftrightarrow> s = t"
proof -
  have "inj (of_char :: char \<Rightarrow> int)"
    by (rule injI) simp
  then show ?thesis
    by (simp add: lit_def inj_map_eq_map)
qed

lemma lit_eq_Nil [simp]: "lit s = [] \<longleftrightarrow> s = []"
  using lit_eq_iff [of s "[]"] by simp

lemma length_lit [simp]: "length (lit s) = length s"
  by (simp add: lit_def)

text \<open>A \<open>matches!\<close> on string literals.\<close>

definition one_of :: "ustr \<Rightarrow> string list \<Rightarrow> bool" where
  "one_of s ls \<longleftrightarrow> s \<in> set (map lit ls)"

lemma one_of_simps [simp]:
  "one_of s [] \<longleftrightarrow> False"
  "one_of s (l # ls) \<longleftrightarrow> s = lit l \<or> one_of s ls"
  by (simp_all add: one_of_def)

definition ch :: "char \<Rightarrow> uchar" where
  "ch c = of_char c"

text \<open>Decimal \<open>Display\<close> of an unsigned number.\<close>

fun show_nat :: "nat \<Rightarrow> ustr" where
  "show_nat n = (if n < 10 then [48 + int n] else show_nat (n div 10) @ [48 + int (n mod 10)])"

declare show_nat.simps [simp del]

text \<open>\<open>char::is_whitespace\<close>: the Unicode property White\_Space.\<close>

definition is_whitespace :: "uchar \<Rightarrow> bool" where
  "is_whitespace c \<longleftrightarrow>
     (9 \<le> c \<and> c \<le> 13) \<or> c = 32 \<or> c = 133 \<or> c = 160 \<or> c = 5760 \<or>
     (8192 \<le> c \<and> c \<le> 8202) \<or> c = 8232 \<or> c = 8233 \<or> c = 8239 \<or> c = 8287 \<or> c = 12288"

definition is_ascii_digit :: "uchar \<Rightarrow> bool" where
  "is_ascii_digit c \<longleftrightarrow> 48 \<le> c \<and> c \<le> 57"

text \<open>\<open>to_ascii_lowercase\<close>.\<close>

definition ascii_lower :: "ustr \<Rightarrow> ustr" where
  "ascii_lower s = map (\<lambda>c. if 65 \<le> c \<and> c \<le> 90 then c + 32 else c) s"

text \<open>\<open>char::len_utf8\<close> and \<open>str::len\<close>.\<close>

definition utf8_width :: "uchar \<Rightarrow> nat" where
  "utf8_width c = (if c < 128 then 1 else if c < 2048 then 2 else if c < 65536 then 3 else 4)"

definition utf8_len :: "ustr \<Rightarrow> nat" where
  "utf8_len s = sum_list (map utf8_width s)"

lemma utf8_len_Nil [simp]: "utf8_len [] = 0"
  by (simp add: utf8_len_def)

lemma utf8_len_append [simp]: "utf8_len (s @ t) = utf8_len s + utf8_len t"
  by (simp add: utf8_len_def)

lemma utf8_width_pos: "0 < utf8_width c"
  by (simp add: utf8_width_def)

lemma length_le_utf8_len: "length s \<le> utf8_len s"
proof (induction s)
  case (Cons c s)
  then show ?case
    using utf8_width_pos [of c] by (simp add: utf8_len_def)
qed simp

lemma set_map_filter: "set (List.map_filter f xs) = {y. \<exists>x \<in> set xs. f x = Some y}"
  by (force simp: List.map_filter_def)

section \<open>Trimming, searching, splitting\<close>

definition trim_start_matches :: "(uchar \<Rightarrow> bool) \<Rightarrow> ustr \<Rightarrow> ustr" where
  "trim_start_matches p s = dropWhile p s"

definition trim_end_matches :: "(uchar \<Rightarrow> bool) \<Rightarrow> ustr \<Rightarrow> ustr" where
  "trim_end_matches p s = rev (dropWhile p (rev s))"

definition trim_matches :: "(uchar \<Rightarrow> bool) \<Rightarrow> ustr \<Rightarrow> ustr" where
  "trim_matches p s = trim_end_matches p (trim_start_matches p s)"

definition trim :: "ustr \<Rightarrow> ustr" where
  "trim s = trim_matches is_whitespace s"

lemma length_trim_end_matches: "length (trim_end_matches p s) \<le> length s"
  unfolding trim_end_matches_def by (metis length_dropWhile_le length_rev)

lemma length_trim: "length (trim s) \<le> length s"
  unfolding trim_def trim_matches_def trim_start_matches_def
  by (meson length_dropWhile_le length_trim_end_matches order_trans)

lemma trim_Nil [simp]: "trim [] = []"
  by (simp add: trim_def trim_matches_def trim_start_matches_def trim_end_matches_def)

lemma trim_end_matches_id: "s = [] \<or> \<not> p (last s) \<Longrightarrow> trim_end_matches p s = s"
  by (cases s rule: rev_cases) (auto simp: trim_end_matches_def)

lemma trim_end_matches_last:
  "trim_end_matches p s \<noteq> [] \<Longrightarrow> \<not> p (last (trim_end_matches p s))"
proof -
  assume ne: "trim_end_matches p s \<noteq> []"
  then have "dropWhile p (rev s) \<noteq> []"
    by (simp add: trim_end_matches_def)
  then have "\<not> p (hd (dropWhile p (rev s)))"
    by (rule hd_dropWhile)
  with ne show ?thesis
    by (simp add: trim_end_matches_def last_rev)
qed

lemma trim_end_matches_prefix: "\<exists>w. s = trim_end_matches p s @ w"
proof
  show "s = trim_end_matches p s @ rev (takeWhile p (rev s))"
    unfolding trim_end_matches_def
    by (metis rev_append rev_rev_ident takeWhile_dropWhile_id)
qed

lemma hd_trim:
  assumes "trim s \<noteq> []"
  shows "\<not> is_whitespace (hd (trim s))"
proof -
  let ?t = "dropWhile is_whitespace s"
  have t: "trim s = trim_end_matches is_whitespace ?t"
    by (simp add: trim_def trim_matches_def trim_start_matches_def)
  obtain w where w: "?t = trim s @ w"
    using trim_end_matches_prefix [of ?t is_whitespace] t by auto
  with assms have "?t \<noteq> []" and "hd ?t = hd (trim s)"
    by auto
  then show ?thesis
    using hd_dropWhile [of is_whitespace s] by simp
qed

lemma trim_idem [simp]: "trim (trim s) = trim s"
proof (cases "trim s = []")
  case False
  then have "dropWhile is_whitespace (trim s) = trim s"
    using hd_trim [of s] by (cases "trim s") auto
  moreover have "trim_end_matches is_whitespace (trim s) = trim s"
    using trim_end_matches_last [of is_whitespace "dropWhile is_whitespace s"] False
    by (intro trim_end_matches_id)
       (auto simp: trim_def trim_matches_def trim_start_matches_def)
  ultimately show ?thesis
    by (simp add: trim_def trim_matches_def trim_start_matches_def)
qed simp

definition starts_with :: "'a list \<Rightarrow> 'a list \<Rightarrow> bool" where
  "starts_with s p \<longleftrightarrow> take (length p) s = p"

definition ends_with :: "'a list \<Rightarrow> 'a list \<Rightarrow> bool" where
  "ends_with s p \<longleftrightarrow> starts_with (rev s) (rev p)"

definition strip_prefix :: "'a list \<Rightarrow> 'a list \<Rightarrow> 'a list option" where
  "strip_prefix p s = (if starts_with s p then Some (drop (length p) s) else None)"

lemma starts_with_iff: "starts_with s p \<longleftrightarrow> (\<exists>t. s = p @ t)"
  unfolding starts_with_def by (metis append_eq_conv_conj append_take_drop_id)

lemma starts_with_append [simp]: "starts_with (p @ t) p"
  by (simp add: starts_with_def)

lemma starts_with_Nil [simp]: "starts_with s []"
  by (simp add: starts_with_def)

lemma starts_with_Cons [str_simps]:
  "starts_with [] (p # ps) \<longleftrightarrow> False"
  "starts_with (x # xs) (p # ps) \<longleftrightarrow> x = p \<and> starts_with xs ps"
  by (auto simp: starts_with_def)

lemma strip_prefix_Some: "strip_prefix p s = Some t \<longleftrightarrow> s = p @ t"
  by (auto simp: strip_prefix_def starts_with_iff)

text \<open>\<open>str::find\<close> of a substring: the offset of its first occurrence.\<close>

fun str_find :: "'a list \<Rightarrow> 'a list \<Rightarrow> nat option" where
  "str_find pat s =
     (if starts_with s pat then Some 0
      else case s of [] \<Rightarrow> None | _ # t \<Rightarrow> map_option Suc (str_find pat t))"

declare str_find.simps [simp del]

definition str_contains :: "'a list \<Rightarrow> 'a list \<Rightarrow> bool" where
  "str_contains s pat \<longleftrightarrow> str_find pat s \<noteq> None"

lemma str_find_Some: "str_find pat s = Some i \<Longrightarrow> i + length pat \<le> length s \<and> s = take i s @ pat @ drop (i + length pat) s"
proof (induction s arbitrary: i)
  case Nil
  then show ?case
    by (auto simp: str_find.simps [of pat "[]"] starts_with_def split: if_splits)
next
  case (Cons x s)
  show ?case
  proof (cases "starts_with (x # s) pat")
    case True
    with Cons.prems have "i = 0"
      by (simp add: str_find.simps [of pat "x # s"])
    moreover from True obtain t where "x # s = pat @ t"
      by (auto simp: starts_with_iff)
    moreover from this have "length (x # s) = length pat + length t" by simp
    ultimately show ?thesis
      by simp
  next
    case False
    with Cons.prems obtain j where j: "str_find pat s = Some j" "i = Suc j"
      by (auto simp: str_find.simps [of pat "x # s"])
    with Cons.IH [of j] show ?thesis
      by auto
  qed
qed

lemma str_find_None: "str_find pat s = None \<longleftrightarrow> (\<forall>u v. s \<noteq> u @ pat @ v)"
proof (induction s)
  case Nil
  show ?case
    by (auto simp: str_find.simps [of pat "[]"] starts_with_def)
next
  case (Cons x s)
  show ?case
  proof
    assume n: "str_find pat (x # s) = None"
    then have a: "\<not> starts_with (x # s) pat" and b: "str_find pat s = None"
      by (auto simp: str_find.simps [of pat "x # s"] split: if_splits)
    show "\<forall>u v. x # s \<noteq> u @ pat @ v"
    proof (intro allI notI)
      fix u v assume eq: "x # s = u @ pat @ v"
      show False
      proof (cases u)
        case Nil
        with eq have "x # s = pat @ v" by simp
        with a show False by (simp only: starts_with_append) simp
      next
        case (Cons y u')
        with eq have "s = u' @ pat @ v" by simp
        with b Cons.IH show False by blast
      qed
    qed
  next
    assume n: "\<forall>u v. x # s \<noteq> u @ pat @ v"
    have "\<not> starts_with (x # s) pat"
    proof
      assume "starts_with (x # s) pat"
      then obtain t where "x # s = [] @ pat @ t" by (auto simp: starts_with_iff)
      with n show False by blast
    qed
    moreover have "str_find pat s = None"
    proof -
      have "\<forall>u v. s \<noteq> u @ pat @ v"
      proof (intro allI notI)
        fix u v assume "s = u @ pat @ v"
        then have "x # s = (x # u) @ pat @ v" by simp
        with n show False by blast
      qed
      with Cons.IH show ?thesis by simp
    qed
    ultimately show "str_find pat (x # s) = None"
      by (simp add: str_find.simps [of pat "x # s"])
  qed
qed

lemma str_contains_iff: "str_contains s pat \<longleftrightarrow> (\<exists>u v. s = u @ pat @ v)"
  by (simp add: str_contains_def str_find_None)

text \<open>An occurrence of a pattern at an offset; \<open>str\_find\<close> gives the least.\<close>

definition occurs_at :: "'a list \<Rightarrow> 'a list \<Rightarrow> nat \<Rightarrow> bool" where
  "occurs_at p s i \<longleftrightarrow> i \<le> length s \<and> starts_with (drop i s) p"

lemma str_find_least:
  "str_find p s = Some i \<longleftrightarrow> occurs_at p s i \<and> (\<forall>j < i. \<not> occurs_at p s j)"
proof (induction s arbitrary: i)
  case Nil
  then show ?case
    by (auto simp: str_find.simps [of p "[]"] occurs_at_def)
next
  case (Cons x s)
  show ?case
  proof (cases "starts_with (x # s) p")
    case True
    then have "occurs_at p (x # s) 0" by (simp add: occurs_at_def)
    with True show ?thesis
      by (auto simp: str_find.simps [of p "x # s"] intro: ccontr [of "i = 0" for i])
  next
    case False
    then have z: "\<not> occurs_at p (x # s) 0" by (simp add: occurs_at_def)
    have s: "occurs_at p (x # s) (Suc j) = occurs_at p s j" for j
      by (simp add: occurs_at_def)
    from False z show ?thesis
      by (cases i) (auto simp: str_find.simps [of p "x # s"] s Cons.IH less_Suc_eq_0_disj)
  qed
qed

lemma str_find_None_occurs: "str_find p s = None \<longleftrightarrow> (\<forall>i. \<not> occurs_at p s i)"
proof
  assume "str_find p s = None"
  then show "\<forall>i. \<not> occurs_at p s i"
    unfolding str_find_None occurs_at_def starts_with_iff by (metis append_take_drop_id)
next
  assume "\<forall>i. \<not> occurs_at p s i"
  then show "str_find p s = None"
    using str_find_least [of p s] by (cases "str_find p s") auto
qed

text \<open>\<open>str::split\<close> on a character predicate: the pieces between separators, empty ones included.\<close>

fun str_split :: "('a \<Rightarrow> bool) \<Rightarrow> 'a list \<Rightarrow> 'a list list" where
  "str_split p [] = [[]]"
| "str_split p (c # s) =
     (if p c then [] # str_split p s
      else case str_split p s of [] \<Rightarrow> [[c]] | w # ws \<Rightarrow> (c # w) # ws)"

lemma str_split_ne [simp]: "str_split p s \<noteq> []"
  by (induction s) (auto split: list.splits)

text \<open>\<open>str::replace\<close>: non-overlapping occurrences, left to right.\<close>

function str_replace :: "'a list \<Rightarrow> 'a list \<Rightarrow> 'a list \<Rightarrow> 'a list" where
  "str_replace pat new s =
     (if pat \<noteq> [] \<and> starts_with s pat then new @ str_replace pat new (drop (length pat) s)
      else case s of [] \<Rightarrow> [] | c # t \<Rightarrow> c # str_replace pat new t)"
  by pat_completeness auto
termination
  by (relation "measure (\<lambda>(pat, new, s). length s)") (auto simp: starts_with_iff)

declare str_replace.simps [simp del]

text \<open>\<open>str::lines\<close>: split at newlines, drop one carriage return before each newline, no last empty line.\<close>

definition strip_cr :: "ustr \<Rightarrow> ustr" where
  "strip_cr l = (if l \<noteq> [] \<and> last l = 13 then butlast l else l)"

definition split_whitespace :: "ustr \<Rightarrow> ustr list" where
  "split_whitespace s = filter (\<lambda>w. w \<noteq> []) (str_split is_whitespace s)"

definition str_lines :: "ustr \<Rightarrow> ustr list" where
  "str_lines s =
     (let ps = str_split (\<lambda>c. c = 10) s
      in map strip_cr (butlast ps) @ (if last ps = [] then [] else [last ps]))"

text \<open>\<open>[_]::join\<close>.\<close>

fun str_join :: "ustr \<Rightarrow> ustr list \<Rightarrow> ustr" where
  "str_join sep [] = []"
| "str_join sep [x] = x"
| "str_join sep (x # y # xs) = x @ sep @ str_join sep (y # xs)"

text \<open>
  \<open>str::parse\<close> of an unsigned integer below \<open>bound\<close>: an optional plus sign and at least one ASCII
  digit; an overflow is an error.
\<close>

fun parse_digits :: "nat \<Rightarrow> nat \<Rightarrow> ustr \<Rightarrow> nat option" where
  "parse_digits bound acc [] = Some acc"
| "parse_digits bound acc (c # cs) =
     (if \<not> is_ascii_digit c then None
      else let v = 10 * acc + nat (c - 48) in if v < bound then parse_digits bound v cs else None)"

definition parse_uint :: "nat \<Rightarrow> ustr \<Rightarrow> nat option" where
  "parse_uint bound s =
     (let digits = (case s of c # t \<Rightarrow> if c = 43 then t else s | [] \<Rightarrow> [])
      in if digits = [] then None else parse_digits bound 0 digits)"

lemma parse_digits_less: "parse_digits bound acc s = Some n \<Longrightarrow> acc < bound \<Longrightarrow> n < bound"
  by (induction bound acc s rule: parse_digits.induct) (auto simp: Let_def split: if_splits)

lemma parse_uint_less: "parse_uint bound s = Some n \<Longrightarrow> 0 < bound \<Longrightarrow> n < bound"
  by (auto simp: parse_uint_def Let_def intro: parse_digits_less split: if_splits list.splits)

text \<open>The longest prefix of at most \<open>n\<close> bytes that ends on a character boundary.\<close>

fun utf8_take :: "nat \<Rightarrow> ustr \<Rightarrow> ustr" where
  "utf8_take n [] = []"
| "utf8_take n (c # s) = (if utf8_width c \<le> n then c # utf8_take (n - utf8_width c) s else [])"

section \<open>Machine arithmetic\<close>

type_synonym u32 = "32 word"
type_synonym u64 = "64 word"

definition sat_add :: "'a::len word \<Rightarrow> 'a word \<Rightarrow> 'a word" where
  "sat_add x y = (if unat x + unat y < 2 ^ LENGTH('a) then x + y else - 1)"

definition sat_mul :: "'a::len word \<Rightarrow> 'a word \<Rightarrow> 'a word" where
  "sat_mul x y = (if unat x * unat y < 2 ^ LENGTH('a) then x * y else - 1)"

lemma unat_minus_1: "unat (- 1 :: 'a::len word) = 2 ^ LENGTH('a) - 1"
  by (simp add: unsigned_minus_1_eq_mask mask_eq_exp_minus_1)

lemma unat_bound: "unat x < 2 ^ LENGTH('a)" for x :: "'a::len word"
  by (rule unsigned_less)

lemma unat_sat_add: "unat (sat_add x y) = min (unat x + unat y) (2 ^ LENGTH('a) - 1)"
  for x y :: "'a::len word"
  by (auto simp: sat_add_def unat_word_ariths unat_minus_1 min_def)

lemma unat_sat_mul: "unat (sat_mul x y) = min (unat x * unat y) (2 ^ LENGTH('a) - 1)"
  for x y :: "'a::len word"
proof (cases "unat x * unat y < 2 ^ LENGTH('a)")
  case True
  then show ?thesis by (simp add: sat_mul_def unat_word_ariths)
next
  case False
  then show ?thesis by (simp add: sat_mul_def unat_minus_1 min_absorb2)
qed

lemma sat_add_mono: "x \<le> sat_add x y" for x y :: "'a::len word"
proof -
  have "unat x \<le> 2 ^ LENGTH('a) - 1" using unat_bound [of x] by linarith
  then show ?thesis
    by (simp add: word_le_nat_alt unat_sat_add)
qed

lemma sat_add_max: "x = - 1 \<Longrightarrow> sat_add x y = - 1" for x y :: "'a::len word"
  using sat_add_mono [of x y] by (simp add: word_order.extremum_unique)

section \<open>Bounded histories\<close>

text \<open>\<open>keep_last n xs\<close> is what is left of a buffer after its oldest entries beyond \<open>n\<close> are dropped.\<close>

definition keep_last :: "nat \<Rightarrow> 'a list \<Rightarrow> 'a list" where
  "keep_last n xs = drop (length xs - n) xs"

lemma length_keep_last [simp]: "length (keep_last n xs) = min n (length xs)"
  by (simp add: keep_last_def)

lemma keep_last_id [simp]: "length xs \<le> n \<Longrightarrow> keep_last n xs = xs"
  by (simp add: keep_last_def)

lemma keep_last_keep_last:
  assumes "m \<le> n"
  shows "keep_last m (keep_last n xs) = keep_last m xs"
proof (cases "length xs \<le> n")
  case False
  with assms have "n - m + (length xs - n) = length xs - m" by simp
  with False show ?thesis by (simp add: keep_last_def)
qed simp

lemma keep_last_append: "keep_last n (keep_last n xs @ ys) = keep_last n (xs @ ys)"
proof (cases "length xs \<le> n")
  case False
  then have "length ys + (length xs - n) = length xs + length ys - n" by simp
  with False show ?thesis
    by (simp add: keep_last_def drop_append)
qed simp

lemma set_keep_last [window_intros]: "x \<in> set (keep_last n xs) \<Longrightarrow> x \<in> set xs"
  by (auto simp: keep_last_def dest: in_set_dropD)

text \<open>
  The contract of a bounded history: pushing a batch of entries and trimming to the capacity.
  The client's lemma is that the buffer always holds exactly the most recent \<open>cap\<close> entries of
  everything ever pushed.
\<close>

locale bounded_history =
  fixes entries :: "'s \<Rightarrow> 'a list"
    and push :: "'b \<Rightarrow> 's \<Rightarrow> 's"
    and added :: "'b \<Rightarrow> 's \<Rightarrow> 'a list"
    and cap :: nat
  assumes entries_push:
    "length (entries s) \<le> cap \<Longrightarrow> entries (push b s) = keep_last cap (entries s @ added b s)"
begin

lemma length_push: "length (entries s) \<le> cap \<Longrightarrow> length (entries (push b s)) \<le> cap"
  by (simp add: entries_push)

fun run :: "'b list \<Rightarrow> 's \<Rightarrow> 's" where
  "run [] s = s"
| "run (b # bs) s = run bs (push b s)"

fun pushed :: "'b list \<Rightarrow> 's \<Rightarrow> 'a list" where
  "pushed [] s = []"
| "pushed (b # bs) s = added b s @ pushed bs (push b s)"

lemma entries_run:
  "length (entries s) \<le> cap \<Longrightarrow> entries (run bs s) = keep_last cap (entries s @ pushed bs s)"
proof (induction bs arbitrary: s)
  case Nil
  then show ?case by simp
next
  case (Cons b bs)
  have "length (entries (push b s)) \<le> cap"
    using Cons.prems by (rule length_push)
  then have "entries (run bs (push b s)) = keep_last cap (entries (push b s) @ pushed bs (push b s))"
    by (rule Cons.IH)
  then show ?case
    using Cons.prems by (simp add: entries_push keep_last_append)
qed

lemma length_run: "length (entries s) \<le> cap \<Longrightarrow> length (entries (run bs s)) \<le> cap"
  by (simp add: entries_run)

end

end
