(* ===== verification/Json.thy ===== *)
theory Json
  imports Prelude
begin

text \<open>
  The JSON values every tool call carries (\<open>serde_json::Value\<close>) with the accessors the program
  uses, and the argument readers of \<open>tools/src/args.rs\<close>.

  An object is its list of members with distinct keys; a key lookup is \<open>map_of\<close>. \<open>JInt\<close> holds the
  integers \<open>serde_json\<close> keeps exactly (from \<open>i64::MIN\<close> to \<open>u64::MAX\<close>); a float is kept as the text
  of its literal, since no modelled code reads its value.
\<close>

named_theorems json_simps \<open>equations of the JSON accessors\<close>

datatype json =
    JNull
  | JBool bool
  | JInt int
  | JFloat ustr
  | JStr ustr
  | JArr "json list"
  | JObj "(ustr \<times> json) list"

section \<open>Accessors of serde\_json\<close>

fun jget :: "json \<Rightarrow> string \<Rightarrow> json option" where
  "jget (JObj kvs) k = map_of kvs (lit k)"
| "jget _ _ = None"

fun as_str :: "json \<Rightarrow> ustr option" where
  "as_str (JStr s) = Some s"
| "as_str _ = None"

fun as_bool :: "json \<Rightarrow> bool option" where
  "as_bool (JBool b) = Some b"
| "as_bool _ = None"

fun as_u64 :: "json \<Rightarrow> u64 option" where
  "as_u64 (JInt i) = (if 0 \<le> i \<and> i < 2 ^ 64 then Some (word_of_int i) else None)"
| "as_u64 _ = None"

fun as_i64 :: "json \<Rightarrow> int option" where
  "as_i64 (JInt i) = (if - (2 ^ 63) \<le> i \<and> i < 2 ^ 63 then Some i else None)"
| "as_i64 _ = None"

fun as_array :: "json \<Rightarrow> json list option" where
  "as_array (JArr xs) = Some xs"
| "as_array _ = None"

fun is_null :: "json \<Rightarrow> bool" where
  "is_null JNull = True"
| "is_null _ = False"

text \<open>The value of a \<open>u32\<close> or \<open>u64\<close> written by \<open>json!\<close>.\<close>

definition jword :: "'a::len word \<Rightarrow> json" where
  "jword w = JInt (uint w)"

lemma as_u64_jword: "LENGTH('a) \<le> 64 \<Longrightarrow> as_u64 (jword w) = Some (ucast w)"
  for w :: "'a::len word"
proof -
  assume "LENGTH('a) \<le> 64"
  then have "(2::int) ^ LENGTH('a) \<le> 2 ^ 64" by (rule power_increasing) simp
  with uint_lt2p [of w] have "uint w < 2 ^ 64" by linarith
  then show ?thesis
    by (simp add: jword_def)
qed

lemma as_u64_jword_simps [json_simps]:
  "as_u64 (jword (w :: u32)) = Some (ucast w)"
  "as_u64 (jword (v :: u64)) = Some v"
  by (simp_all add: as_u64_jword)

section \<open>args.rs\<close>

definition str_arg :: "json \<Rightarrow> string \<Rightarrow> ustr option" where
  "str_arg args key = Option.bind (jget args key) as_str"

definition str_or :: "json \<Rightarrow> string \<Rightarrow> ustr \<Rightarrow> ustr" where
  "str_or args key d = (case str_arg args key of None \<Rightarrow> d | Some s \<Rightarrow> s)"

definition req_str :: "json \<Rightarrow> string \<Rightarrow> ustr + ustr" where
  "req_str args key =
     (case str_arg args key of None \<Rightarrow> Inl (lit (key @ '' required'')) | Some s \<Rightarrow> Inr s)"

definition req_string :: "json \<Rightarrow> string \<Rightarrow> ustr + ustr" where
  "req_string args key = req_str args key"

definition bool_or :: "json \<Rightarrow> string \<Rightarrow> bool \<Rightarrow> bool" where
  "bool_or args key d = (case Option.bind (jget args key) as_bool of None \<Rightarrow> d | Some b \<Rightarrow> b)"

text \<open>\<open>Ord::clamp\<close> panics (\<open>None\<close>) when the bounds are inverted; it is reached only with a number.\<close>

definition clamped_usize :: "json \<Rightarrow> string \<Rightarrow> nat \<Rightarrow> nat \<Rightarrow> nat \<Rightarrow> nat option" where
  "clamped_usize args key lo hi d =
     (case Option.bind (jget args key) as_u64 of
        None \<Rightarrow> Some d
      | Some n \<Rightarrow>
          if lo > hi then None
          else Some (if unat n < lo then lo else if unat n > hi then hi else unat n))"

definition str_vec :: "json \<Rightarrow> string \<Rightarrow> ustr list" where
  "str_vec args key =
     (case Option.bind (jget args key) as_array of
        None \<Rightarrow> []
      | Some arr \<Rightarrow> List.map_filter as_str arr)"

definition pattern_arg :: "json \<Rightarrow> string \<Rightarrow> ustr option" where
  "pattern_arg args key = str_arg args key"

lemma clamped_usize_bounds:
  "clamped_usize args key lo hi d = Some n \<Longrightarrow> lo \<le> d \<Longrightarrow> d \<le> hi \<Longrightarrow> lo \<le> n \<and> n \<le> hi"
  by (auto simp: clamped_usize_def split: option.splits if_splits)

end
