(* ===== verification/Permission.thy ===== *)
theory Permission
  imports Json "HOL-Library.AList"
begin

text \<open>
  Permission rules and approval prompts: \<open>tools/src/permission.rs\<close>, \<open>tools/src/approval.rs\<close> and the
  executor of \<open>tools/src/execute.rs\<close>. The tables \<open>permission_rules\<close> and \<open>approvals\<close> are association
  lists by id. Parameters: \<open>glob\<close>, the \<open>glob\<close> crate's \<open>Pattern::new\<close> with the matcher it returns;
  \<open>parse_uuid\<close> and \<open>show_uuid\<close> of the \<open>uuid\<close> crate; and the text of the current time. The field
  \<open>updated_at\<close> of a rule is written but never read, and is left out.
\<close>

section \<open>Rules\<close>

datatype decision = Allow | Ask | Deny

datatype rule_scope = Global | Workspace | Session

definition scope_parse :: "ustr \<Rightarrow> rule_scope" where
  "scope_parse v =
     (if one_of v [''global'', ''always''] then Global
      else if v = lit ''session'' then Session else Workspace)"

definition scope_as_str :: "rule_scope \<Rightarrow> string" where
  "scope_as_str s = (case s of Global \<Rightarrow> ''global'' | Workspace \<Rightarrow> ''workspace'' | Session \<Rightarrow> ''session'')"

type_synonym uuid = nat

record perm_rule =
  pr_tool_id :: ustr
  pr_scope :: rule_scope
  pr_decision :: decision
  pr_pattern :: "ustr option"
  pr_workspace_id :: "ustr option"

definition precedence_bucket :: "perm_rule \<Rightarrow> nat" where
  "precedence_bucket r =
     (case (pr_scope r, pr_pattern r \<noteq> None) of
        (Session, True) \<Rightarrow> 0
      | (Session, False) \<Rightarrow> 1
      | (Workspace, True) \<Rightarrow> 2
      | (Workspace, False) \<Rightarrow> 3
      | (Global, True) \<Rightarrow> 4
      | (Global, False) \<Rightarrow> 5)"

record perm_context =
  cx_workspace_id :: "uuid option"
  cx_pattern_target :: "ustr option"

definition non_empty :: "ustr option \<Rightarrow> ustr option" where
  "non_empty s = (case s of Some t \<Rightarrow> if t = [] then None else Some t | None \<Rightarrow> None)"

definition parse_decision :: "ustr option \<Rightarrow> decision option" where
  "parse_decision s =
     (if s = Some (lit ''allow'') then Some Allow
      else if s = Some (lit ''deny'') then Some Deny
      else if s = Some (lit ''ask'') then Some Ask
      else None)"

definition parse_rule :: "json \<Rightarrow> perm_rule option" where
  "parse_rule data =
     (case str_arg data ''toolId'' of
        None \<Rightarrow> None
      | Some tool_id \<Rightarrow>
          (case parse_decision (str_arg data ''decision'') of
             None \<Rightarrow> None
           | Some d \<Rightarrow> Some
               \<lparr>pr_tool_id = tool_id,
                pr_scope = (case str_arg data ''scope'' of Some s \<Rightarrow> scope_parse s | None \<Rightarrow> Workspace),
                pr_decision = d,
                pr_pattern = non_empty (str_arg data ''pattern''),
                pr_workspace_id = non_empty (str_arg data ''workspaceId'')\<rparr>))"

type_synonym glob_fn = "ustr \<Rightarrow> (ustr \<Rightarrow> bool) option"

definition is_valid_pattern :: "glob_fn \<Rightarrow> ustr \<Rightarrow> bool" where
  "is_valid_pattern glob pattern \<longleftrightarrow> glob pattern \<noteq> None"

definition pattern_matches :: "glob_fn \<Rightarrow> ustr \<Rightarrow> ustr \<Rightarrow> bool" where
  "pattern_matches glob pattern target =
     (case glob pattern of Some matcher \<Rightarrow> matcher target | None \<Rightarrow> str_contains target pattern)"

definition scope_matches :: "(ustr \<Rightarrow> uuid option) \<Rightarrow> perm_rule \<Rightarrow> perm_context \<Rightarrow> bool" where
  "scope_matches parse_uuid rule ctx =
     (case pr_scope rule of
        Session \<Rightarrow>
          (case pr_workspace_id rule of
             None \<Rightarrow> True
           | Some raw \<Rightarrow>
               (case cx_workspace_id ctx of
                  None \<Rightarrow> False
                | Some call_workspace \<Rightarrow> parse_uuid raw = Some call_workspace))
      | Workspace \<Rightarrow>
          (case cx_workspace_id ctx of
             None \<Rightarrow> False
           | Some call_workspace \<Rightarrow>
               (case Option.bind (pr_workspace_id rule) parse_uuid of
                  None \<Rightarrow> True
                | Some rule_workspace \<Rightarrow> rule_workspace = call_workspace))
      | Global \<Rightarrow> True)"

definition rule_matches :: "glob_fn \<Rightarrow> (ustr \<Rightarrow> uuid option) \<Rightarrow> perm_rule \<Rightarrow> perm_context \<Rightarrow> bool" where
  "rule_matches glob parse_uuid rule ctx =
     (if \<not> scope_matches parse_uuid rule ctx then False
      else case pr_pattern rule of
        None \<Rightarrow> True
      | Some pattern \<Rightarrow>
          (case cx_pattern_target ctx of
             None \<Rightarrow> False
           | Some target \<Rightarrow> pattern_matches glob pattern target))"

section \<open>The executor\<close>

type_synonym instant_ns = nat

definition APPROVAL_TTL_NS :: nat where "APPROVAL_TTL_NS = 900 * 1000000000"

record pending_approval =
  pa_approval_id :: ustr
  pa_run_id :: uuid
  pa_tool_call_id :: ustr
  pa_tool_name :: ustr
  pa_arguments :: json
  pa_created_at :: instant_ns
  pa_expires_at :: instant_ns
  pa_remember :: bool

datatype approval_outcome = Approve bool bool | DenyCall

record approval_row =
  ar_data :: json
  ar_run_id :: uuid
  ar_tool_call_id :: ustr
  ar_status :: string

record executor =
  session_rules :: "perm_rule list"
  rules_table :: "(ustr \<times> json) list"
  prompts :: "pending_approval list"
  waiters :: "(ustr \<times> instant_ns) list"
  approvals :: "(ustr \<times> approval_row) list"
  woken :: "(ustr \<times> approval_outcome) list"
  store_up :: bool

text \<open>
  \<open>load_rules\<close>: the \<open>ORDER BY\<close> is a stable descending sort on \<open>updatedAt\<close> inside an ascending
  one on the bucket, over rows in id order. \<open>json_extract\<close> of a missing member or of a JSON null is
  SQL's \<open>NULL\<close>.
\<close>

definition json_extract :: "json \<Rightarrow> string \<Rightarrow> json option" where
  "json_extract data key = (case jget data key of Some v \<Rightarrow> if is_null v then None else Some v | None \<Rightarrow> None)"

definition sql_bucket :: "json \<Rightarrow> nat" where
  "sql_bucket data =
     (if json_extract data ''scope'' = Some (JStr (lit ''workspace'')) \<and> json_extract data ''pattern'' \<noteq> None
      then 0
      else if json_extract data ''scope'' = Some (JStr (lit ''workspace'')) then 1
      else if json_extract data ''scope'' = Some (JStr (lit ''global'')) \<and> json_extract data ''pattern'' \<noteq> None
      then 2 else 3)"

definition updated_key :: "json \<Rightarrow> ustr" where
  "updated_key data = str_or data ''updatedAt'' []"

definition order_rows :: "(ustr \<times> json) list \<Rightarrow> (ustr \<times> json) list" where
  "order_rows rs =
     sort_key (sql_bucket \<circ> snd) (rev (sort_key (updated_key \<circ> snd) (rev (sort_key fst rs))))"

definition load_rules :: "executor \<Rightarrow> ustr \<Rightarrow> perm_rule list option" where
  "load_rules ex tool_id =
     (if \<not> store_up ex then None
      else Some (List.map_filter (\<lambda>row. parse_rule (snd row))
        (order_rows (filter (\<lambda>row. json_extract (snd row) ''toolId'' = Some (JStr tool_id)) (rules_table ex)))))"

definition first_of :: "decision \<Rightarrow> perm_rule list \<Rightarrow> perm_rule option" where
  "first_of d rules = find (\<lambda>r. pr_decision r = d) rules"

definition resolve_permission ::
    "glob_fn \<Rightarrow> (ustr \<Rightarrow> uuid option) \<Rightarrow> executor \<Rightarrow> ustr \<Rightarrow> perm_context \<Rightarrow> decision \<Rightarrow> decision" where
  "resolve_permission glob parse_uuid ex tool_id ctx dflt =
     (let mine = filter (\<lambda>r. pr_tool_id r = tool_id) (session_rules ex)
      in case load_rules ex tool_id of
           None \<Rightarrow> Ask
         | Some stored \<Rightarrow>
             (let rules = mine @ stored
              in if rules = [] then dflt
                 else (let matching = filter (\<lambda>r. rule_matches glob parse_uuid r ctx) rules
                       in if first_of Deny matching \<noteq> None then Deny
                          else if first_of Allow matching \<noteq> None then Allow
                          else if first_of Ask matching \<noteq> None then Ask
                          else dflt)))"

section \<open>Remembering a decision\<close>

definition decision_as_str :: "decision \<Rightarrow> string" where
  "decision_as_str d = (case d of Allow \<Rightarrow> ''allow'' | Ask \<Rightarrow> ''ask'' | Deny \<Rightarrow> ''deny'')"

definition jopt :: "ustr option \<Rightarrow> json" where
  "jopt s = (case s of None \<Rightarrow> JNull | Some t \<Rightarrow> JStr t)"

definition trimmed_pattern :: "ustr option \<Rightarrow> ustr option" where
  "trimmed_pattern p = non_empty (map_option trim p)"

definition rule_json :: "(uuid \<Rightarrow> ustr) \<Rightarrow> ustr \<Rightarrow> ustr \<Rightarrow> decision \<Rightarrow> rule_scope \<Rightarrow> uuid option \<Rightarrow> ustr option \<Rightarrow> json" where
  "rule_json show_uuid now_text tool_id d scope ws pattern =
     JObj [(lit ''toolId'', JStr tool_id), (lit ''scope'', JStr (lit (scope_as_str scope))),
           (lit ''decision'', JStr (lit (decision_as_str d))), (lit ''pattern'', jopt pattern),
           (lit ''workspaceId'', jopt (map_option show_uuid ws)), (lit ''updatedAt'', JStr now_text)]"

definition prompt_rule_id :: "(uuid \<Rightarrow> ustr) \<Rightarrow> ustr \<Rightarrow> uuid option \<Rightarrow> ustr option \<Rightarrow> ustr" where
  "prompt_rule_id show_uuid tool_id ws pattern =
     (case (ws, pattern) of
        (Some w, Some p) \<Rightarrow> lit ''prompt:'' @ tool_id @ lit '':'' @ show_uuid w @ lit '':'' @ p
      | (Some w, None) \<Rightarrow> lit ''prompt:'' @ tool_id @ lit '':'' @ show_uuid w
      | (None, Some p) \<Rightarrow> lit ''prompt:'' @ tool_id @ lit ''::'' @ p
      | (None, None) \<Rightarrow> lit ''prompt:'' @ tool_id)"

definition normal_scope :: "rule_scope \<Rightarrow> uuid option \<Rightarrow> rule_scope \<times> uuid option" where
  "normal_scope scope ws =
     (case (scope, ws) of (Workspace, Some w) \<Rightarrow> (Workspace, Some w) | _ \<Rightarrow> (Global, None))"

definition remember_rule ::
    "(uuid \<Rightarrow> ustr) \<Rightarrow> ustr \<Rightarrow> ustr \<Rightarrow> decision \<Rightarrow> rule_scope \<Rightarrow> uuid option \<Rightarrow> ustr option \<Rightarrow> executor
     \<Rightarrow> bool \<times> executor" where
  "remember_rule show_uuid now_text tool_id d scope ws pattern ex =
     (let (scope, ws) = normal_scope scope ws;
          pattern = trimmed_pattern pattern
      in if \<not> store_up ex then (False, ex)
         else (True, ex\<lparr>rules_table := AList.update (prompt_rule_id show_uuid tool_id ws pattern)
           (rule_json show_uuid now_text tool_id d scope ws pattern) (rules_table ex)\<rparr>))"

definition remember_session_rule ::
    "(uuid \<Rightarrow> ustr) \<Rightarrow> ustr \<Rightarrow> decision \<Rightarrow> uuid option \<Rightarrow> ustr option \<Rightarrow> executor \<Rightarrow> executor" where
  "remember_session_rule show_uuid tool_id d ws pattern ex =
     (let pattern = trimmed_pattern pattern;
          kept = filter (\<lambda>r. \<not> (pr_tool_id r = tool_id \<and> pr_workspace_id r = map_option show_uuid ws
                              \<and> pr_pattern r = pattern)) (session_rules ex)
      in ex\<lparr>session_rules := kept @ [\<lparr>pr_tool_id = tool_id, pr_scope = Session, pr_decision = d,
            pr_pattern = pattern, pr_workspace_id = map_option show_uuid ws\<rparr>]\<rparr>)"

section \<open>Prompts\<close>

definition approval_scope :: "(ustr \<Rightarrow> uuid option) \<Rightarrow> ustr \<Rightarrow> executor \<Rightarrow> uuid option \<times> ustr option" where
  "approval_scope parse_uuid approval_id ex =
     (case (if store_up ex then map_of (approvals ex) approval_id else None) of
        None \<Rightarrow> (None, None)
      | Some row \<Rightarrow>
          (Option.bind (str_arg (ar_data row) ''workspaceId'') parse_uuid,
           non_empty (str_arg (ar_data row) ''patternTarget'')))"

fun json_set :: "json \<Rightarrow> string \<Rightarrow> json \<Rightarrow> json" where
  "json_set (JObj kvs) key v = JObj (AList.update (lit key) v kvs)"
| "json_set j key v = j"

definition resolve_approval ::
    "(ustr \<Rightarrow> uuid option) \<Rightarrow> (uuid \<Rightarrow> ustr) \<Rightarrow> ustr \<Rightarrow> ustr \<Rightarrow> ustr \<Rightarrow> approval_outcome \<Rightarrow> executor
     \<Rightarrow> bool \<times> executor" where
  "resolve_approval parse_uuid show_uuid now_text approval_id tool_id outcome ex =
     (let decision = (case outcome of Approve _ _ \<Rightarrow> Allow | DenyCall \<Rightarrow> Deny);
          remember = (case outcome of Approve r _ \<Rightarrow> r | DenyCall \<Rightarrow> False);
          remember_session = (case outcome of Approve _ s \<Rightarrow> s | DenyCall \<Rightarrow> False);
          (ws, pattern) = approval_scope parse_uuid approval_id ex;
          (ok, ex) = (if remember then
              remember_rule show_uuid now_text tool_id decision
                (if ws \<noteq> None then Workspace else Global) ws pattern ex
            else (True, ex))
      in if \<not> ok then (False, ex)
         else (let ex = (if remember_session then remember_session_rule show_uuid tool_id decision ws pattern ex else ex)
               in if \<not> store_up ex then (False, ex)
                  else (True,
                    ex\<lparr>approvals := map (\<lambda>(i, row). (i, if i = approval_id then
                           row\<lparr>ar_status := (case outcome of Approve _ _ \<Rightarrow> ''approved'' | DenyCall \<Rightarrow> ''denied''),
                               ar_data := json_set (ar_data row) ''grantedAt'' (JStr now_text)\<rparr> else row))
                         (approvals ex),
                       prompts := filter (\<lambda>p. pa_approval_id p \<noteq> approval_id) (prompts ex),
                       waiters := AList.delete approval_id (waiters ex),
                       woken := (if map_of (waiters ex) approval_id = None then woken ex
                                 else woken ex @ [(approval_id, outcome)])\<rparr>)))"

definition tool_name_for_approval :: "ustr \<Rightarrow> executor \<Rightarrow> ustr option" where
  "tool_name_for_approval approval_id ex =
     (case find (\<lambda>p. pa_approval_id p = approval_id) (prompts ex) of
        Some p \<Rightarrow> Some (pa_tool_name p)
      | None \<Rightarrow>
          Option.bind (if store_up ex then map_of (approvals ex) approval_id else None)
            (\<lambda>row. str_arg (ar_data row) ''toolName''))"

definition open_waiters :: "executor \<Rightarrow> nat" where
  "open_waiters ex = length (waiters ex)"

definition sweep_expired :: "instant_ns \<Rightarrow> executor \<Rightarrow> ustr list \<times> executor" where
  "sweep_expired now ex =
     (let expired = map pa_approval_id (filter (\<lambda>p. pa_expires_at p \<le> now) (prompts ex));
          ids = map fst (filter (\<lambda>(i, w). w \<le> now \<or> i \<in> set expired) (waiters ex));
          all = expired @ filter (\<lambda>i. i \<notin> set expired) ids;
          ex = ex\<lparr>prompts := filter (\<lambda>p. pa_expires_at p > now) (prompts ex),
                  waiters := filter (\<lambda>(i, w). i \<notin> set ids) (waiters ex)\<rparr>
      in (all,
          if store_up ex then
            ex\<lparr>approvals := map (\<lambda>(i, row). (i, if i \<in> set all \<and> ar_status row = ''pending''
                 then row\<lparr>ar_status := ''expired''\<rparr> else row)) (approvals ex)\<rparr>
          else ex))"

definition list_pending :: "instant_ns \<Rightarrow> executor \<Rightarrow> pending_approval list \<times> executor" where
  "list_pending now ex = (let ex = snd (sweep_expired now ex) in (prompts ex, ex))"

definition approval_data :: "(uuid \<Rightarrow> ustr) \<Rightarrow> ustr \<Rightarrow> json \<Rightarrow> uuid option \<Rightarrow> ustr option \<Rightarrow> json" where
  "approval_data show_uuid tool_name arguments ws pattern_target =
     JObj [(lit ''toolName'', JStr tool_name), (lit ''arguments'', arguments), (lit ''grantedAt'', JNull),
           (lit ''remember'', JBool False), (lit ''workspaceId'', jopt (map_option show_uuid ws)),
           (lit ''patternTarget'', jopt pattern_target)]"

text \<open>\<open>fresh\<close> is the new approval id; the row is refused when the id exists or the store is down.\<close>

definition request_approval ::
    "(uuid \<Rightarrow> ustr) \<Rightarrow> ustr \<Rightarrow> instant_ns \<Rightarrow> uuid \<Rightarrow> ustr \<Rightarrow> ustr \<Rightarrow> json \<Rightarrow> uuid option \<Rightarrow> ustr option
     \<Rightarrow> executor \<Rightarrow> instant_ns option \<times> executor" where
  "request_approval show_uuid fresh now run_id tool_call_id tool_name arguments ws pattern_target ex =
     (let expires = now + APPROVAL_TTL_NS;
          approval = \<lparr>pa_approval_id = fresh, pa_run_id = run_id, pa_tool_call_id = tool_call_id,
            pa_tool_name = tool_name, pa_arguments = arguments, pa_created_at = now,
            pa_expires_at = expires, pa_remember = False\<rparr>
      in if \<not> store_up ex \<or> map_of (approvals ex) fresh \<noteq> None then (None, ex)
         else (Some expires,
           ex\<lparr>approvals := approvals ex @ [(fresh,
                \<lparr>ar_data = approval_data show_uuid tool_name arguments ws pattern_target,
                 ar_run_id = run_id, ar_tool_call_id = tool_call_id, ar_status = ''pending''\<rparr>)],
              waiters := AList.update fresh expires (waiters ex),
              prompts := prompts ex @ [approval]\<rparr>))"

section \<open>Resolution depends only on which decisions match\<close>

definition applicable :: "glob_fn \<Rightarrow> (ustr \<Rightarrow> uuid option) \<Rightarrow> executor \<Rightarrow> ustr \<Rightarrow> perm_context \<Rightarrow> perm_rule set" where
  "applicable glob parse_uuid ex tool_id ctx =
     {r \<in> set (session_rules ex) \<union> (\<lambda>row. the (parse_rule (snd row))) `
            {row \<in> set (rules_table ex). parse_rule (snd row) \<noteq> None}.
        pr_tool_id r = tool_id \<and> rule_matches glob parse_uuid r ctx}"

lemma first_of_None: "first_of d rules = None \<longleftrightarrow> (\<forall>r \<in> set rules. pr_decision r \<noteq> d)"
  by (auto simp: first_of_def find_None_iff)

lemma set_order_rows [simp]: "set (order_rows rs) = set rs"
  by (simp add: order_rows_def)

lemma parse_rule_tool: "parse_rule data = Some r \<Longrightarrow> str_arg data ''toolId'' = Some (pr_tool_id r)"
  by (auto simp: parse_rule_def split: option.splits)

lemma str_arg_extract: "json_extract data key = Some (JStr s) \<longleftrightarrow> str_arg data key = Some s"
  by (auto simp: json_extract_def str_arg_def split: option.splits elim: as_str.elims)

lemma load_rules_set:
  "load_rules ex tool_id = Some rs \<Longrightarrow>
     set rs = {r. pr_tool_id r = tool_id \<and> (\<exists>row \<in> set (rules_table ex). parse_rule (snd row) = Some r)}"
proof -
  assume "load_rules ex tool_id = Some rs"
  then have "set rs = {r. \<exists>row \<in> set (rules_table ex).
      str_arg (snd row) ''toolId'' = Some tool_id \<and> parse_rule (snd row) = Some r}"
    by (auto simp: load_rules_def set_map_filter str_arg_extract split: if_splits) force+
  also have "\<dots> = {r. pr_tool_id r = tool_id \<and> (\<exists>row \<in> set (rules_table ex). parse_rule (snd row) = Some r)}"
    using parse_rule_tool by fastforce
  finally show ?thesis .
qed

lemma applicable_eq:
  assumes "load_rules ex tool_id = Some rs"
  shows "set (filter (\<lambda>r. rule_matches glob parse_uuid r ctx)
      (filter (\<lambda>r. pr_tool_id r = tool_id) (session_rules ex) @ rs)) =
    applicable glob parse_uuid ex tool_id ctx"
  unfolding applicable_def using load_rules_set [OF assms] by (auto simp: image_iff) force+

lemma resolve_permission_set:
  "resolve_permission glob parse_uuid ex tool_id ctx dflt =
     (let ds = pr_decision ` applicable glob parse_uuid ex tool_id ctx
      in if \<not> store_up ex then Ask
         else if Deny \<in> ds then Deny
         else if Allow \<in> ds then Allow
         else if Ask \<in> ds then Ask
         else dflt)"
proof (cases "load_rules ex tool_id")
  case None
  then show ?thesis by (auto simp: resolve_permission_def load_rules_def split: if_splits)
next
  case (Some rs)
  let ?rules = "filter (\<lambda>r. pr_tool_id r = tool_id) (session_rules ex) @ rs"
  let ?m = "filter (\<lambda>r. rule_matches glob parse_uuid r ctx) ?rules"
  have up: "store_up ex" using Some by (auto simp: load_rules_def split: if_splits)
  have f: "first_of d ?m \<noteq> None \<longleftrightarrow> d \<in> pr_decision ` applicable glob parse_uuid ex tool_id ctx" for d
    unfolding first_of_None using applicable_eq [OF Some, of glob parse_uuid ctx] by blast
  have e: "?rules = [] \<Longrightarrow> applicable glob parse_uuid ex tool_id ctx = {}"
    using applicable_eq [OF Some, of glob parse_uuid ctx] by simp
  show ?thesis
    unfolding resolve_permission_def Some option.case Let_def f using up e by auto
qed

text \<open>
  The decision depends only on the set of decisions of the matching rules, not on
  their buckets, order or age: an unreadable store asks, any matching deny denies, otherwise any
  matching allow allows, otherwise a matching ask asks, otherwise the tool's default holds.
\<close>

theorem resolve_permission_spec:
  "resolve_permission glob parse_uuid ex tool_id ctx dflt =
     (let ds = pr_decision ` applicable glob parse_uuid ex tool_id ctx
      in if \<not> store_up ex then Ask
         else if Deny \<in> ds then Deny
         else if Allow \<in> ds then Allow
         else if Ask \<in> ds then Ask
         else dflt)"
  by (rule resolve_permission_set)

section \<open>Remembered decisions\<close>

lemma str_arg_simps [json_simps]:
  "str_arg (JObj ((k, v) # kvs)) key = (if k = lit key then as_str v else str_arg (JObj kvs) key)"
  "str_arg (JObj []) key = None"
  by (simp_all add: str_arg_def)

lemma parse_decision_as_str [simp]: "parse_decision (Some (lit (decision_as_str d))) = Some d"
  by (cases d) (simp_all add: parse_decision_def decision_as_str_def)

lemma scope_parse_as_str [simp]: "scope_parse (lit (scope_as_str s)) = s"
  by (cases s) (simp_all add: scope_parse_def scope_as_str_def)

lemma as_str_jopt [simp]: "as_str (jopt s) = s"
  by (cases s) (simp_all add: jopt_def)

lemma non_empty_idem [simp]: "non_empty (non_empty p) = non_empty p"
  by (auto simp: non_empty_def split: option.splits)

lemma non_empty_trimmed [simp]: "non_empty (trimmed_pattern p) = trimmed_pattern p"
  by (simp add: trimmed_pattern_def)

lemma non_empty_Some: "p \<noteq> [] \<Longrightarrow> non_empty (Some p) = Some p"
  by (simp add: non_empty_def)

text \<open>A stored rule is read back as it was remembered.\<close>

lemma parse_rule_json:
  "parse_rule (rule_json show_uuid now_text tool_id d scope ws pattern) =
     Some \<lparr>pr_tool_id = tool_id, pr_scope = scope, pr_decision = d, pr_pattern = non_empty pattern,
       pr_workspace_id = non_empty (map_option show_uuid ws)\<rparr>"
  by (simp add: parse_rule_def rule_json_def json_simps)

definition remembered :: "(uuid \<Rightarrow> ustr) \<Rightarrow> ustr \<Rightarrow> decision \<Rightarrow> rule_scope \<Rightarrow> uuid option \<Rightarrow> ustr option \<Rightarrow> perm_rule" where
  "remembered show_uuid tool_id d scope ws pattern =
     \<lparr>pr_tool_id = tool_id, pr_scope = scope, pr_decision = d, pr_pattern = pattern,
      pr_workspace_id = non_empty (map_option show_uuid ws)\<rparr>"

definition table_rules :: "executor \<Rightarrow> perm_rule set" where
  "table_rules ex = {r. \<exists>row \<in> set (rules_table ex). parse_rule (snd row) = Some r}"

lemma applicable_alt:
  "applicable glob parse_uuid ex tool_id ctx =
     {r \<in> set (session_rules ex) \<union> table_rules ex. pr_tool_id r = tool_id \<and> rule_matches glob parse_uuid r ctx}"
  by (auto simp: applicable_def table_rules_def image_iff) force+

lemma table_rules_update:
  "table_rules (ex\<lparr>rules_table := AList.update k (rule_json sh now tool d scope ws (trimmed_pattern p)) (rules_table ex)\<rparr>)
     \<subseteq> insert (remembered sh tool d scope ws (trimmed_pattern p)) (table_rules ex)"
  "remembered sh tool d scope ws (trimmed_pattern p) \<in>
     table_rules (ex\<lparr>rules_table := AList.update k (rule_json sh now tool d scope ws (trimmed_pattern p)) (rules_table ex)\<rparr>)"
proof -
  have sub: "set (AList.update k v xs) \<subseteq> insert (k, v) (set xs)" for k :: ustr and v :: json and xs
    by (induction xs) auto
  have mem: "(k, v) \<in> set (AList.update k v xs)" for k :: ustr and v :: json and xs
    by (induction xs) auto
  show "table_rules (ex\<lparr>rules_table := AList.update k (rule_json sh now tool d scope ws (trimmed_pattern p)) (rules_table ex)\<rparr>)
     \<subseteq> insert (remembered sh tool d scope ws (trimmed_pattern p)) (table_rules ex)"
    using sub by (fastforce simp: table_rules_def remembered_def parse_rule_json)
  show "remembered sh tool d scope ws (trimmed_pattern p) \<in>
     table_rules (ex\<lparr>rules_table := AList.update k (rule_json sh now tool d scope ws (trimmed_pattern p)) (rules_table ex)\<rparr>)"
    using mem by (force simp: table_rules_def remembered_def parse_rule_json)
qed

lemma update_absent: "map_of xs k = None \<Longrightarrow> AList.update k v xs = xs @ [(k, v)]"
  by (induction xs) (auto split: if_splits)

lemma table_rules_fresh:
  "map_of (rules_table ex) k = None \<Longrightarrow>
   table_rules (ex\<lparr>rules_table := AList.update k (rule_json sh now tool d scope ws (trimmed_pattern p)) (rules_table ex)\<rparr>) =
     insert (remembered sh tool d scope ws (trimmed_pattern p)) (table_rules ex)"
proof -
  assume "map_of (rules_table ex) k = None"
  then have "AList.update k v (rules_table ex) = rules_table ex @ [(k, v)]" for v
    by (rule update_absent)
  then show ?thesis by (auto simp: table_rules_def remembered_def parse_rule_json)
qed

text \<open>The prompt row a request writes gives back the scope it was opened for.\<close>

definition uuid_text_ok :: "(ustr \<Rightarrow> uuid option) \<Rightarrow> (uuid \<Rightarrow> ustr) \<Rightarrow> bool" where
  "uuid_text_ok parse_uuid show_uuid \<longleftrightarrow> (\<forall>w. parse_uuid (show_uuid w) = Some w \<and> show_uuid w \<noteq> [])"

lemma approval_scope_row:
  assumes "uuid_text_ok parse_uuid show_uuid" and "store_up ex"
    and "map_of (approvals ex) aid = Some row"
    and "ar_data row = approval_data show_uuid tool args ws target"
  shows "approval_scope parse_uuid aid ex = (ws, non_empty target)"
  using assms by (cases ws) (simp_all add: approval_scope_def approval_data_def json_simps uuid_text_ok_def)

lemma remembered_matches:
  assumes "uuid_text_ok parse_uuid show_uuid"
  shows "rule_matches glob parse_uuid
      (remembered show_uuid tool d (if ws \<noteq> None then Workspace else Global) ws pattern)
      \<lparr>cx_workspace_id = ws', cx_pattern_target = target\<rparr> \<longleftrightarrow>
    (ws = None \<or> ws = ws') \<and>
    (case pattern of None \<Rightarrow> True
     | Some p \<Rightarrow> (case target of None \<Rightarrow> False | Some t \<Rightarrow> pattern_matches glob p t))"
  using assms
  by (auto simp: rule_matches_def scope_matches_def remembered_def uuid_text_ok_def non_empty_def
      split: option.splits)

lemma resolve_approval_once:
  fixes show_uuid :: "uuid \<Rightarrow> ustr" and now_text tool :: ustr
  assumes "store_up ex" and "approval_scope parse_uuid aid ex = (ws, target)"
  defines "ex' \<equiv> snd (resolve_approval parse_uuid show_uuid now_text aid tool (Approve True False) ex)"
  shows "store_up ex'" and "session_rules ex' = session_rules ex"
    and "rules_table ex' = AList.update (prompt_rule_id show_uuid tool ws (trimmed_pattern target))
        (rule_json show_uuid now_text tool Allow (if ws \<noteq> None then Workspace else Global) ws
          (trimmed_pattern target)) (rules_table ex)"
  using assms(1,2) unfolding ex'_def
  by (cases ws; simp add: resolve_approval_def remember_rule_def normal_scope_def Let_def)+

text \<open>
  "Always Allow" holds for the call that was prompted: once the user answers it so,
  the same tool called with the same target in the same workspace is allowed, unless a stored or
  session rule denies it.
\<close>

theorem always_allow_allows:
  assumes "uuid_text_ok parse_uuid show_uuid" and "store_up ex"
    and "map_of (approvals ex) aid = Some row"
    and "ar_data row = approval_data show_uuid tool args ws (Some target)"
    and "trim target \<noteq> []" and "pattern_matches glob (trim target) target"
    and "Deny \<notin> pr_decision ` applicable glob parse_uuid ex tool \<lparr>cx_workspace_id = ws, cx_pattern_target = Some target\<rparr>"
  shows "resolve_permission glob parse_uuid
      (snd (resolve_approval parse_uuid show_uuid now_text aid tool (Approve True False) ex)) tool
      \<lparr>cx_workspace_id = ws, cx_pattern_target = Some target\<rparr> dflt = Allow"
proof -
  let ?ctx = "\<lparr>cx_workspace_id = ws, cx_pattern_target = Some target\<rparr>"
  have "target \<noteq> []" using assms(5) by auto
  then have sc: "approval_scope parse_uuid aid ex = (ws, Some target)"
    using approval_scope_row [OF assms(1-4)] by (simp add: non_empty_Some)
  have tp: "trimmed_pattern (Some target) = Some (trim target)"
    using assms(5) by (simp add: trimmed_pattern_def non_empty_Some)
  let ?r = "remembered show_uuid tool Allow (if ws \<noteq> None then Workspace else Global) ws (Some (trim target))"
  let ?ex = "snd (resolve_approval parse_uuid show_uuid now_text aid tool (Approve True False) ex)"
  note once = resolve_approval_once [OF assms(2) sc, of show_uuid now_text tool]
  have tab: "table_rules (ex\<lparr>rules_table := rules_table ?ex\<rparr>) = table_rules ?ex"
    by (simp add: table_rules_def)
  have "table_rules ?ex \<subseteq> insert ?r (table_rules ex)" "?r \<in> table_rules ?ex"
    using table_rules_update [where p = "Some target" and ex = ex, folded once(3)]
    unfolding tab [symmetric] once(3) tp by blast+
  then obtain ex' where ex': "?ex = ex'" "store_up ex'" "session_rules ex' = session_rules ex"
      "table_rules ex' \<subseteq> insert ?r (table_rules ex)" "?r \<in> table_rules ex'"
    using once(1,2) by blast
  have m: "rule_matches glob parse_uuid ?r ?ctx"
    unfolding remembered_matches [OF assms(1)] using assms(6) by simp
  have t: "pr_tool_id ?r = tool" "pr_decision ?r = Allow" by (simp_all add: remembered_def)
  have "?r \<in> applicable glob parse_uuid ex' tool ?ctx"
    using ex'(5) m t by (simp add: applicable_alt)
  then have "Allow \<in> pr_decision ` applicable glob parse_uuid ex' tool ?ctx"
    using t(2) by (metis image_eqI)
  moreover have "applicable glob parse_uuid ex' tool ?ctx \<subseteq> insert ?r (applicable glob parse_uuid ex tool ?ctx)"
    using ex'(3,4) by (auto simp: applicable_alt)
  then have "Deny \<notin> pr_decision ` applicable glob parse_uuid ex' tool ?ctx"
    using assms(7) t(2) by auto
  ultimately show ?thesis
    using ex'(2) by (simp add: ex'(1) resolve_permission_set Let_def)
qed

definition sample_glob :: glob_fn where
  "sample_glob p = Some (\<lambda>t. t = p)"

definition sample_parse :: "ustr \<Rightarrow> uuid option" where
  "sample_parse s = (if s \<noteq> [] \<and> list_all (\<lambda>c. c = 97) s then Some (length s - 1) else None)"

definition sample_show :: "uuid \<Rightarrow> ustr" where
  "sample_show n = replicate (Suc n) 97"

lemma sample_uuid_ok: "uuid_text_ok sample_parse sample_show"
  by (simp add: uuid_text_ok_def sample_parse_def sample_show_def list_all_iff)

definition sample_executor :: executor where
  "sample_executor =
     snd (request_approval sample_show (lit ''a1'') 0 1 (lit ''c1'') (lit ''terminal'') JNull (Some 3)
       (Some (lit ''ls''))
       \<lparr>session_rules = [], rules_table = [], prompts = [], waiters = [], approvals = [], woken = [],
        store_up = True\<rparr>)"

theorem always_allow_allows_witness:
  "resolve_permission sample_glob sample_parse
      (snd (resolve_approval sample_parse sample_show [] (lit ''a1'') (lit ''terminal'') (Approve True False)
        sample_executor)) (lit ''terminal'')
      \<lparr>cx_workspace_id = Some 3, cx_pattern_target = Some (lit ''ls'')\<rparr> Ask = Allow"
proof -
  have t: "trim (lit ''ls'') = lit ''ls''" by code_simp
  have m: "map_of (approvals sample_executor) (lit ''a1'') =
      Some \<lparr>ar_data = approval_data sample_show (lit ''terminal'') JNull (Some 3) (Some (lit ''ls'')),
        ar_run_id = 1, ar_tool_call_id = lit ''c1'', ar_status = ''pending''\<rparr>"
    by (simp add: sample_executor_def request_approval_def Let_def)
  show ?thesis
    by (rule always_allow_allows [OF sample_uuid_ok _ m])
       (simp_all add: t sample_executor_def request_approval_def Let_def pattern_matches_def
         sample_glob_def applicable_def)
qed

text \<open>
  "Always Allow" widens nothing else: a call of another tool, in another workspace or
  with a target the remembered pattern does not match gets the decision it got before, when the
  answer did not overwrite an earlier remembered rule.
\<close>

theorem always_allow_scoped:
  assumes "uuid_text_ok parse_uuid show_uuid" and "store_up ex"
    and "map_of (approvals ex) aid = Some row"
    and "ar_data row = approval_data show_uuid tool args ws (Some target)" and "trim target \<noteq> []"
    and "map_of (rules_table ex) (prompt_rule_id show_uuid tool ws (Some (trim target))) = None"
    and "tool' \<noteq> tool \<or> (ws \<noteq> None \<and> ws' \<noteq> ws) \<or> \<not> pattern_matches glob (trim target) target'"
  shows "resolve_permission glob parse_uuid
      (snd (resolve_approval parse_uuid show_uuid now_text aid tool (Approve True False) ex)) tool'
      \<lparr>cx_workspace_id = ws', cx_pattern_target = Some target'\<rparr> dflt =
    resolve_permission glob parse_uuid ex tool'
      \<lparr>cx_workspace_id = ws', cx_pattern_target = Some target'\<rparr> dflt"
proof -
  let ?ctx = "\<lparr>cx_workspace_id = ws', cx_pattern_target = Some target'\<rparr>"
  let ?ex = "snd (resolve_approval parse_uuid show_uuid now_text aid tool (Approve True False) ex)"
  let ?r = "remembered show_uuid tool Allow (if ws \<noteq> None then Workspace else Global) ws (Some (trim target))"
  have "target \<noteq> []" using assms(5) by auto
  then have sc: "approval_scope parse_uuid aid ex = (ws, Some target)"
    using approval_scope_row [OF assms(1-4)] by (simp add: non_empty_Some)
  have tp: "trimmed_pattern (Some target) = Some (trim target)"
    using assms(5) by (simp add: trimmed_pattern_def non_empty_Some)
  note once = resolve_approval_once [OF assms(2) sc, of show_uuid now_text tool]
  have tab: "table_rules (ex\<lparr>rules_table := rules_table ?ex\<rparr>) = table_rules ?ex"
    by (simp add: table_rules_def)
  have t: "table_rules ?ex = insert ?r (table_rules ex)"
    using table_rules_fresh [OF assms(6), where p = "Some target", unfolded tp]
    unfolding tab [symmetric] once(3) tp by blast
  have "\<not> (pr_tool_id ?r = tool' \<and> rule_matches glob parse_uuid ?r ?ctx)"
    unfolding remembered_matches [OF assms(1)] using assms(7) by (auto simp: remembered_def)
  then have "applicable glob parse_uuid ?ex tool' ?ctx = applicable glob parse_uuid ex tool' ?ctx"
    unfolding applicable_alt t once(2) by blast
  then show ?thesis
    using once(1) assms(2) by (simp add: resolve_permission_set)
qed

theorem always_allow_scoped_witness:
  "resolve_permission sample_glob sample_parse
      (snd (resolve_approval sample_parse sample_show [] (lit ''a1'') (lit ''terminal'') (Approve True False)
        sample_executor)) (lit ''terminal'')
      \<lparr>cx_workspace_id = Some 4, cx_pattern_target = Some (lit ''ls'')\<rparr> Ask =
   resolve_permission sample_glob sample_parse sample_executor (lit ''terminal'')
      \<lparr>cx_workspace_id = Some 4, cx_pattern_target = Some (lit ''ls'')\<rparr> Ask"
proof -
  have t: "trim (lit ''ls'') = lit ''ls''" by code_simp
  have m: "map_of (approvals sample_executor) (lit ''a1'') =
      Some \<lparr>ar_data = approval_data sample_show (lit ''terminal'') JNull (Some 3) (Some (lit ''ls'')),
        ar_run_id = 1, ar_tool_call_id = lit ''c1'', ar_status = ''pending''\<rparr>"
    by (simp add: sample_executor_def request_approval_def Let_def)
  show ?thesis
    by (rule always_allow_scoped [OF sample_uuid_ok _ m, where target = "lit ''ls''" and ws = "Some 3"
          and args = JNull])
       (simp_all add: t sample_executor_def request_approval_def Let_def)
qed

section \<open>Expiry\<close>

text \<open>
  Sweeping closes exactly the expired prompts: no expired prompt or wake-up channel is
  left, live ones stay, and an answer that was already recorded is never overwritten.
\<close>

theorem sweep_expired_ok:
  "list_all (\<lambda>p. now < pa_expires_at p) (prompts (snd (sweep_expired now ex))) \<and>
   list_all (\<lambda>w. now < snd w) (waiters (snd (sweep_expired now ex))) \<and>
   set (prompts (snd (sweep_expired now ex))) = {p \<in> set (prompts ex). now < pa_expires_at p} \<and>
   list_all2 (\<lambda>r r'. fst r' = fst r \<and>
       (snd r' = snd r \<or> ar_status (snd r) = ''pending'' \<and> ar_status (snd r') = ''expired'' \<and>
          fst r \<in> set (fst (sweep_expired now ex))))
     (approvals ex) (approvals (snd (sweep_expired now ex)))"
proof -
  have w: "now < b" if "(a, b) \<in> set (waiters ex)"
    and "a \<notin> fst ` {x \<in> set (waiters ex). snd x \<le> now \<or> fst x \<in> E}" for a b E
    using that by force
  show ?thesis
    by (auto simp: sweep_expired_def Let_def list_all_iff list_all2_map2 list_all2_same split_beta intro: w)
qed

end
