(* ===== verification/Stagnation.thy ===== *)
theory Stagnation
  imports Json
begin

text \<open>
  Stagnation detection (\<open>core/src/runs/stagnation.rs\<close>): the sliding window of turn signals and
  the rules that judge it, and the classification of tool calls into reads, mutations and failures.
\<close>

section \<open>Signals and the detector\<close>

definition WINDOW :: nat where "WINDOW = 12"
definition MIN_SIGNALS :: nat where "MIN_SIGNALS = WINDOW div 2"

lemmas window_consts = WINDOW_def MIN_SIGNALS_def

datatype stagnation_kind = RepeatedFailure | ReadLoop | ProviderUnstable

record stagnation_report =
  sr_kind :: stagnation_kind
  sr_hint :: string

datatype turn_signal = Progress | ToolCall | Mutation | ToolFailure | RepeatedRead | ProviderError

record detector =
  window :: "turn_signal list"
  seen_reads :: "ustr set"

definition detector_new :: detector where
  "detector_new = \<lparr>window = [], seen_reads = {}\<rparr>"

definition note_read :: "detector \<Rightarrow> ustr \<Rightarrow> bool \<times> detector" where
  "note_read d key = (key \<in> seen_reads d, d\<lparr>seen_reads := insert key (seen_reads d)\<rparr>)"

text \<open>The rules, in the order they are tried on the most recent \<open>WINDOW\<close> signals.\<close>

definition judge :: "turn_signal list \<Rightarrow> stagnation_report option" where
  "judge recent =
     (let failures = count_list recent ToolFailure;
          provider_errors = count_list recent ProviderError;
          repeated_reads = count_list recent RepeatedRead;
          progress = count_list recent Progress + count_list recent Mutation
      in if failures \<ge> MIN_SIGNALS then Some \<lparr>sr_kind = RepeatedFailure, sr_hint =
           ''the same operation keeps failing; read the error text and change the approach''\<rparr>
         else if provider_errors \<ge> 3 then Some \<lparr>sr_kind = ProviderUnstable, sr_hint =
           ''the provider is unstable; retry once, then fall back to a smaller request''\<rparr>
         else if repeated_reads \<ge> MIN_SIGNALS then Some \<lparr>sr_kind = ReadLoop, sr_hint =
           ''the same resource is being re-read without progress; act on what you already read''\<rparr>
         else if length recent \<ge> WINDOW \<and> progress = 0 \<and> failures = 0 \<and> repeated_reads = 0
              \<and> (\<forall>s \<in> set recent. s = ToolCall \<or> s = Mutation) then Some \<lparr>sr_kind = ReadLoop, sr_hint =
           ''tools are being called repeatedly without producing a conclusion; summarise what you learned''\<rparr>
         else None)"

definition observe :: "detector \<Rightarrow> turn_signal list \<Rightarrow> stagnation_report option \<times> detector" where
  "observe d signals =
     (let w = window d @ signals;
          w' = (if length w > WINDOW * 2 then drop (length w - WINDOW * 2) w else w);
          d' = d\<lparr>window := w'\<rparr>
      in if length w' < MIN_SIGNALS then (None, d')
         else (let span = min (length w') WINDOW
               in (judge (drop (length w' - span) w'), d')))"

section \<open>Classification of tool calls\<close>

definition action_or :: "json \<Rightarrow> string \<Rightarrow> ustr" where
  "action_or args d = str_or args ''action'' (lit d)"

definition is_mutating :: "ustr \<Rightarrow> json \<Rightarrow> bool" where
  "is_mutating name args =
     (if name = lit ''files'' then
        one_of (action_or args '''') [''write'', ''delete'', ''create'', ''append'']
      else if one_of name [''edit'', ''terminal'', ''agent''] then True
      else if one_of name [''todo'', ''user_plan''] then False
      else if name = lit ''git'' then
        \<not> one_of (action_or args ''status'') [''status'', ''diff'', ''log'', ''show'', ''blame'']
      else if name = lit ''memory'' then
        \<not> one_of (action_or args '''') [''recall'', ''search'', ''search_knowledge'']
      else if name = lit ''knowledge'' then \<not> one_of (action_or args '''') [''search'']
      else if one_of name [''glob'', ''grep'', ''symbols'', ''lsp'', ''skill'', ''skill_resource'',
                ''web_fetch'', ''web_fetch_pdf'', ''web_search'', ''network'', ''image_vision'',
                ''browser'', ''workspace_check''] then False
      else True)"

definition classify_tool_call :: "ustr \<Rightarrow> json \<Rightarrow> bool \<Rightarrow> turn_signal" where
  "classify_tool_call name args is_error =
     (if is_error then ToolFailure
      else if is_mutating name args then Mutation
      else ToolCall)"

definition is_read_only :: "ustr \<Rightarrow> json \<Rightarrow> bool" where
  "is_read_only name args =
     (if name = lit ''files'' then one_of (action_or args '''') [''read'', ''list'']
      else if name = lit ''knowledge'' then one_of (action_or args '''') [''search'']
      else if name = lit ''git'' then
        one_of (action_or args ''status'') [''status'', ''diff'', ''log'', ''show'', ''blame'']
      else one_of name [''glob'', ''grep'', ''symbols'', ''lsp'', ''skill'', ''skill_resource'',
             ''web_fetch'', ''web_fetch_pdf'', ''web_search'', ''image_vision'', ''network'',
             ''workspace_check''])"

text \<open>
  The identity of a read. \<open>show_json\<close> is \<open>serde_json\<close>'s \<open>Display\<close> of a value, a parameter.
\<close>

definition num_or0 :: "json \<Rightarrow> string \<Rightarrow> ustr" where
  "num_or0 args key =
     show_nat (case Option.bind (jget args key) as_u64 of None \<Rightarrow> 0 | Some n \<Rightarrow> unat n)"

definition read_key :: "(json \<Rightarrow> ustr) \<Rightarrow> ustr \<Rightarrow> json \<Rightarrow> ustr" where
  "read_key show_json name args =
     (let path = str_or args ''path'' [];
          colon = lit '':''
      in if name = lit ''files'' then
           lit ''files:'' @ action_or args '''' @ colon @ path @ colon @
             show_json (case jget args ''offset'' of None \<Rightarrow> JNull | Some v \<Rightarrow> v)
         else if name = lit ''glob'' then lit ''glob:'' @ str_or args ''pattern'' []
         else if name = lit ''grep'' then
           lit ''grep:'' @ str_or args ''pattern'' [] @ colon @ str_or args ''path'' []
         else if name = lit ''symbols'' then
           lit ''symbols:'' @ action_or args ''outline'' @ colon @ path @ colon @ str_or args ''symbol'' []
         else if name = lit ''lsp'' then
           lit ''lsp:'' @ action_or args ''diagnostics'' @ colon @ path @ colon @
             num_or0 args ''line'' @ colon @ num_or0 args ''column''
         else if one_of name [''skill'', ''skill_resource''] then
           name @ colon @ str_or args ''skill'' [] @ colon @ path
         else if name = lit ''git'' then
           lit ''git:'' @ action_or args ''status'' @ colon @ str_or args ''scope'' [] @ colon @ path
         else if name = lit ''workspace_check'' then
           lit ''workspace_check:'' @ str_or args ''kind'' [] @ colon @ path
         else (let target = (case str_arg args ''query'' of
                   Some q \<Rightarrow> q
                 | None \<Rightarrow> (case str_arg args ''url'' of Some u \<Rightarrow> u | None \<Rightarrow> path))
               in name @ colon @ target))"

section \<open>Lemmas\<close>

lemma read_only_not_mutating: "is_read_only name args \<Longrightarrow> \<not> is_mutating name args"
  by (auto simp: is_read_only_def is_mutating_def split: if_splits)

lemma window_observe: "window (snd (observe d signals)) = keep_last (WINDOW * 2) (window d @ signals)"
  by (simp add: observe_def Let_def keep_last_def)

lemma seen_reads_observe [simp]: "seen_reads (snd (observe d signals)) = seen_reads d"
  by (simp add: observe_def Let_def)

lemma report_observe:
  "fst (observe d signals) =
     (let w = keep_last (WINDOW * 2) (window d @ signals)
      in if length w < MIN_SIGNALS then None else judge (keep_last WINDOW w))"
proof -
  have d: "length xs - min (length xs) WINDOW = length xs - WINDOW" for xs :: "turn_signal list"
    by simp
  show ?thesis
    unfolding observe_def Let_def
    by (simp add: keep_last_def d)
qed

interpretation detector_window: bounded_history window "\<lambda>signals d. snd (observe d signals)"
    "\<lambda>signals d. signals" "WINDOW * 2"
  by unfold_locales (rule window_observe)

lemma pushed_detector [simp]: "detector_window.pushed bs d = concat bs"
  by (induction bs arbitrary: d) simp_all

lemma judge_needs:
  "judge recent = Some r \<Longrightarrow>
     MIN_SIGNALS \<le> count_list recent ToolFailure \<or>
     3 \<le> count_list recent ProviderError \<or>
     MIN_SIGNALS \<le> count_list recent RepeatedRead \<or>
     (WINDOW \<le> length recent \<and> set recent \<subseteq> {ToolCall})"
  by (auto simp: judge_def Let_def count_list_0_iff split: if_splits)

lemma judge_failures:
  "MIN_SIGNALS \<le> count_list recent ToolFailure \<Longrightarrow>
     \<exists>r. judge recent = Some r \<and> sr_kind r = RepeatedFailure"
  by (simp add: judge_def Let_def)

end
