(* ===== verification/History.thy ===== *)
theory History
  imports Stagnation
begin

text \<open>
  Conversation messages: \<open>Message\<close>, \<open>AssistantToolCall\<close> and \<open>resolved_history_indices\<close> of
  \<open>providers/src/lib.rs\<close>, the stored form \<open>HistoryMessage\<close> and \<open>wire_model_for\<close> of
  \<open>runs/engine.rs\<close>, and the helpers of \<open>runs/engine/helpers.rs\<close> that read them.
\<close>

section \<open>Messages\<close>

record tool_call =
  tc_id :: ustr
  tc_kind :: ustr
  tc_name :: ustr
  tc_arguments :: ustr

record message =
  m_role :: ustr
  m_content :: ustr
  m_tool_calls :: "tool_call list"
  m_tool_call_id :: "ustr option"
  m_name :: "ustr option"
  m_is_error :: bool
  m_native :: "json list"

definition message_text :: "ustr \<Rightarrow> ustr \<Rightarrow> message" where
  "message_text role content =
     \<lparr>m_role = role, m_content = content, m_tool_calls = [], m_tool_call_id = None,
      m_name = None, m_is_error = False, m_native = []\<rparr>"

definition assistant_with_tools :: "ustr \<Rightarrow> tool_call list \<Rightarrow> message" where
  "assistant_with_tools text calls =
     \<lparr>m_role = lit ''assistant'', m_content = text, m_tool_calls = calls, m_tool_call_id = None,
      m_name = None, m_is_error = False, m_native = []\<rparr>"

definition with_native :: "message \<Rightarrow> json list \<Rightarrow> message" where
  "with_native m native = m\<lparr>m_native := native\<rparr>"

definition tool_result :: "tool_call \<Rightarrow> ustr \<Rightarrow> bool \<Rightarrow> message" where
  "tool_result call content is_error =
     \<lparr>m_role = lit ''tool'', m_content = content, m_tool_calls = [],
      m_tool_call_id = Some (tc_id call), m_name = Some (tc_name call),
      m_is_error = is_error, m_native = []\<rparr>"

section \<open>Matching tool results to their calls\<close>

definition is_role :: "message \<Rightarrow> string \<Rightarrow> bool" where
  "is_role m r \<longleftrightarrow> m_role m = lit r"

definition answers :: "message \<Rightarrow> ustr list \<Rightarrow> ustr list \<Rightarrow> bool" where
  "answers m ids names \<longleftrightarrow>
     (case m_tool_call_id m of None \<Rightarrow> False | Some i \<Rightarrow> i \<in> set ids) \<or>
     (case m_name m of None \<Rightarrow> False | Some n \<Rightarrow> n \<in> set names)"

fun resolve_from :: "nat \<Rightarrow> ustr list \<Rightarrow> ustr list \<Rightarrow> message list \<Rightarrow> nat list" where
  "resolve_from idx ids names [] = []"
| "resolve_from idx ids names (m # ms) =
     (if is_role m ''assistant'' then
        idx # resolve_from (Suc idx) (map tc_id (m_tool_calls m)) (map tc_name (m_tool_calls m)) ms
      else if is_role m ''tool'' then
        (if answers m ids names then idx # resolve_from (Suc idx) ids names ms
         else resolve_from (Suc idx) ids names ms)
      else if is_role m ''system'' then idx # resolve_from (Suc idx) ids names ms
      else idx # resolve_from (Suc idx) [] [] ms)"

definition resolved_history_indices :: "message list \<Rightarrow> nat list" where
  "resolved_history_indices ms = resolve_from 0 [] [] ms"

text \<open>
  The reference: the turn a tool message at \<open>i\<close> answers is the last message before it that is
  neither a tool result nor a system message, and that message must be an assistant turn.
\<close>

definition transparent :: "message \<Rightarrow> bool" where
  "transparent m \<longleftrightarrow> is_role m ''tool'' \<or> is_role m ''system''"

fun last_turn :: "message list \<Rightarrow> message option" where
  "last_turn [] = None"
| "last_turn (m # ms) =
     (case last_turn ms of Some t \<Rightarrow> Some t | None \<Rightarrow> if transparent m then None else Some m)"

definition kept :: "message list \<Rightarrow> message \<Rightarrow> bool" where
  "kept before m \<longleftrightarrow>
     (if is_role m ''tool'' then
        (case last_turn before of
           None \<Rightarrow> False
         | Some t \<Rightarrow> is_role t ''assistant'' \<and>
             answers m (map tc_id (m_tool_calls t)) (map tc_name (m_tool_calls t)))
      else True)"

definition awaited :: "message list \<Rightarrow> ustr list \<times> ustr list" where
  "awaited before =
     (case last_turn before of
        None \<Rightarrow> ([], [])
      | Some t \<Rightarrow> if is_role t ''assistant'' then (map tc_id (m_tool_calls t), map tc_name (m_tool_calls t))
                 else ([], []))"

lemma is_role_excl: "is_role m a \<Longrightarrow> a \<noteq> b \<Longrightarrow> \<not> is_role m b"
  by (simp add: is_role_def)

lemma last_turn_snoc:
  "last_turn (ms @ [m]) = (if transparent m then last_turn ms else Some m)"
  by (induction ms) (auto split: option.splits)

lemma answers_Nil [simp]: "\<not> answers m [] []"
  by (simp add: answers_def split: option.splits)

lemma kept_awaited:
  "is_role m ''tool'' \<Longrightarrow> kept before m \<longleftrightarrow> answers m (fst (awaited before)) (snd (awaited before))"
  by (simp add: kept_def awaited_def split: option.splits)

lemma awaited_snoc:
  "awaited (before @ [m]) =
     (if transparent m then awaited before
      else if is_role m ''assistant'' then (map tc_id (m_tool_calls m), map tc_name (m_tool_calls m))
      else ([], []))"
  by (simp add: awaited_def last_turn_snoc)

lemma kept_role: "\<not> is_role m ''tool'' \<Longrightarrow> kept before m"
  by (simp add: kept_def)

lemma resolve_step:
  assumes "awaited before = (ids, names)" and "awaited (before @ [m]) = (ids', names')"
  shows "resolve_from n ids names (m # ms) =
    (if kept before m then [n] else []) @ resolve_from (Suc n) ids' names' ms"
proof (cases "is_role m ''tool''")
  case True
  then have "transparent m" "\<not> is_role m ''assistant''"
    by (auto simp: transparent_def is_role_def)
  with True assms show ?thesis
    by (simp add: awaited_snoc kept_awaited)
next
  case False
  with assms show ?thesis
    by (cases "is_role m ''assistant''")
       (auto simp: awaited_snoc kept_role transparent_def is_role_excl [of m "''assistant''" "''system''"])
qed

lemma resolve_from_kept:
  "awaited before = (ids, names) \<Longrightarrow>
   resolve_from (length before) ids names ms =
     filter (\<lambda>i. kept (take i (before @ ms)) ((before @ ms) ! i)) [length before..<length (before @ ms)]"
proof (induction ms arbitrary: before ids names)
  case (Cons m ms)
  let ?P = "\<lambda>i. kept (take i (before @ m # ms)) ((before @ m # ms) ! i)"
  obtain i n where a: "awaited (before @ [m]) = (i, n)" by fastforce
  have IH: "resolve_from (Suc (length before)) i n ms =
        filter ?P [Suc (length before)..<length (before @ m # ms)]"
    using Cons.IH [OF a] by simp
  have up: "[length before..<length (before @ m # ms)] =
      length before # [Suc (length before)..<length (before @ m # ms)]"
    by (simp add: upt_conv_Cons del: upt_Suc)
  have P: "?P (length before) = kept before m" by simp
  show ?case
    unfolding up filter.simps P resolve_step [OF Cons.prems a] IH by simp
qed simp

text \<open>
  C23 (equivalence). The one-pass filter keeps exactly the messages whose pairing is valid: every
  non-tool message, and a tool message whose last preceding turn is an assistant turn that
  requested a call with its id or its name.
\<close>

theorem resolved_history_indices_eq:
  "resolved_history_indices ms = filter (\<lambda>i. kept (take i ms) (ms ! i)) [0..<length ms]"
  using resolve_from_kept [of "[]" "[]" "[]" ms]
  by (simp add: resolved_history_indices_def awaited_def)

section \<open>Model names and the run's helpers\<close>

definition wire_model_for :: "ustr \<Rightarrow> ustr \<Rightarrow> ustr" where
  "wire_model_for model_id provider_id =
     (if provider_id = [] then model_id
      else case strip_prefix provider_id model_id of
        Some rest \<Rightarrow> (case strip_prefix (lit '':'') rest of Some m \<Rightarrow> m | None \<Rightarrow> model_id)
      | None \<Rightarrow> model_id)"

definition can_run_concurrently :: "ustr \<Rightarrow> json \<Rightarrow> bool" where
  "can_run_concurrently name args =
     (let action = action_or args ''''
      in if name = lit ''files'' then one_of action [''read'', ''list'']
         else if one_of name [''glob'', ''grep'', ''symbols'', ''lsp'', ''skill'', ''skill_resource''] then True
         else if name = lit ''git'' then one_of action [''status'', ''diff'', ''log'', ''show'', ''blame'']
         else if name = lit ''knowledge'' then action = lit ''search''
         else False)"

definition MAX_EVENT_TEXT :: nat where "MAX_EVENT_TEXT = 4000"

text \<open>The characters whose byte offset is below the limit.\<close>

fun take_bytes :: "nat \<Rightarrow> nat \<Rightarrow> ustr \<Rightarrow> ustr" where
  "take_bytes limit index [] = []"
| "take_bytes limit index (c # cs) =
     (if index < limit then c # take_bytes limit (index + utf8_width c) cs else [])"

definition truncate_event_text :: "ustr \<Rightarrow> ustr" where
  "truncate_event_text text =
     (if utf8_len text \<le> MAX_EVENT_TEXT then text
      else take_bytes MAX_EVENT_TEXT 0 text @ [8230])"

definition is_head :: "message \<Rightarrow> bool" where
  "is_head m \<longleftrightarrow> is_role m ''system'' \<and>
     (starts_with (m_content m) (lit ''<task_state>'') \<or>
      starts_with (m_content m) (lit ''<compressed_history>''))"

definition strip_head :: "message list \<Rightarrow> message list" where
  "strip_head ms = dropWhile is_head ms"

text \<open>
  \<open>HistoryMessage\<close> has the fields of \<open>Message\<close>. \<open>encoded_len\<close> is the length of the JSON text
  of the native items, or \<open>None\<close> when it cannot be encoded.
\<close>

type_synonym history_message = message

definition NATIVE_HISTORY_MAX_BYTES :: nat where "NATIVE_HISTORY_MAX_BYTES = 256 * 1024"

definition history_to_message :: "history_message \<Rightarrow> message" where
  "history_to_message h =
     \<lparr>m_role = m_role h, m_content = m_content h, m_tool_calls = m_tool_calls h,
      m_tool_call_id = m_tool_call_id h, m_name = m_name h, m_is_error = m_is_error h,
      m_native = m_native h\<rparr>"

definition message_to_history :: "(json list \<Rightarrow> nat option) \<Rightarrow> message \<Rightarrow> history_message" where
  "message_to_history encoded_len m =
     (let native = (if m_native m = [] then []
         else case encoded_len (m_native m) of
           Some n \<Rightarrow> if n \<le> NATIVE_HISTORY_MAX_BYTES then m_native m else []
         | None \<Rightarrow> [])
      in m\<lparr>m_native := native\<rparr>)"

lemma history_to_message_id [simp]: "history_to_message h = h"
  by (simp add: history_to_message_def)

lemma action_or_default: "one_of (action_or args '''') (l # ls) \<Longrightarrow> l \<noteq> '''' \<Longrightarrow> '''' \<notin> set ls \<Longrightarrow>
    action_or args d = action_or args ''''"
  using lit_eq_Nil by (auto simp: action_or_def str_or_def one_of_def split: option.splits)
    (metis lit_eq_Nil)+

lemma concurrent_read_only: "can_run_concurrently name args \<Longrightarrow> is_read_only name args"
  using action_or_default [of args "''status''" "[''diff'', ''log'', ''show'', ''blame'']" "''status''"]
  by (auto simp: can_run_concurrently_def is_read_only_def Let_def split: if_splits)

lemma take_bytes_len:
  "utf8_len (take_bytes limit index cs) \<le> limit + 3 - index \<or> take_bytes limit index cs = []"
proof (induction cs arbitrary: index)
  case (Cons c cs)
  have w: "0 < utf8_width c" "utf8_width c \<le> 4" by (auto simp: utf8_width_def)
  show ?case
    using Cons.IH [of "index + utf8_width c"] w by (auto simp: utf8_len_def)
qed simp

lemma take_bytes_prefix: "\<exists>r. cs = take_bytes limit index cs @ r"
proof (induction cs arbitrary: index)
  case (Cons c cs)
  from Cons.IH [of "index + utf8_width c"] show ?case by auto
qed simp

lemma message_to_history_resolved:
  "resolved_history_indices (map (message_to_history enc) ms) = resolved_history_indices ms"
proof -
  have f: "m_tool_calls (message_to_history enc m) = m_tool_calls m"
      "is_role (message_to_history enc m) r = is_role m r"
      "answers (message_to_history enc m) ids names = answers m ids names" for m r ids names
    by (simp_all add: message_to_history_def Let_def is_role_def answers_def)
  have "resolve_from n ids names (map (message_to_history enc) ms) = resolve_from n ids names ms"
    for n ids names
    by (induction ms arbitrary: n ids names) (simp_all add: f)
  then show ?thesis by (simp add: resolved_history_indices_def)
qed

end
