(* ===== verification/Tool_Gate.thy ===== *)
theory Tool_Gate
  imports Permission History
begin

text \<open>
  Dispatching one tool call (\<open>runs/engine/execute_tools.rs\<close>): the malformed-argument check, the
  permission gate, the approval wait and the run of the tool itself. The registry, the tool and the
  redaction are parameters, collected in the record \<open>tool_env\<close>; \<open>answer\<close> is how the wait ended, with
  \<open>None\<close> for the deadline or a cancelled run. Emitted events are kept by their kind.
\<close>

section \<open>Records\<close>

record tool_record =
  r_id :: ustr
  r_name :: ustr
  r_arguments :: json
  r_result :: "json option"
  r_error :: "ustr option"
  r_approval_id :: "ustr option"

record tool_output =
  o_ok :: bool
  o_content :: json
  o_error :: "ustr option"

record tool_env =
  decision_for :: "ustr \<Rightarrow> json \<Rightarrow> decision option"
  pattern_target_for :: "ustr \<Rightarrow> json \<Rightarrow> ustr option"
  redact_args :: "json \<Rightarrow> json"
  redact_output :: "tool_output \<Rightarrow> tool_output"
  invoke :: "ustr \<Rightarrow> json \<Rightarrow> ustr + tool_output"
  te_glob :: glob_fn
  te_parse_uuid :: "ustr \<Rightarrow> uuid option"
  te_show_uuid :: "uuid \<Rightarrow> ustr"
  fresh_id :: ustr
  te_now :: nat
  answer :: "approval_outcome option"

definition not_run :: "tool_record \<Rightarrow> ustr \<Rightarrow> tool_record" where
  "not_run r reason =
     r\<lparr>r_error := Some (lit ''Tool `'' @ r_name r @ lit ''` was not run: '' @ reason)\<rparr>"

definition fail_tool :: "tool_record \<Rightarrow> ustr \<Rightarrow> tool_record \<times> string list" where
  "fail_tool r reason = (not_run r reason, [''tool_result''])"

definition deny_tool :: "tool_record \<Rightarrow> ustr \<Rightarrow> tool_record \<times> string list" where
  "deny_tool r reason = (not_run r reason, [''tool_denied'', ''tool_result''])"

definition blank_record :: "tool_call \<Rightarrow> json \<Rightarrow> tool_record" where
  "blank_record call args =
     \<lparr>r_id = tc_id call, r_name = tc_name call, r_arguments = args, r_result = None,
      r_error = None, r_approval_id = None\<rparr>"

definition malformed :: "tool_call \<Rightarrow> json \<Rightarrow> bool" where
  "malformed call args \<longleftrightarrow>
     is_null args \<and> trim (tc_arguments call) \<noteq> [] \<and> trim (tc_arguments call) \<noteq> lit ''null''"

definition call_decision :: "tool_env \<Rightarrow> executor \<Rightarrow> uuid \<Rightarrow> tool_call \<Rightarrow> json \<Rightarrow> decision" where
  "call_decision env ex ws call args =
     resolve_permission (te_glob env) (te_parse_uuid env) ex (tc_name call)
       \<lparr>cx_workspace_id = Some ws, cx_pattern_target = pattern_target_for env (tc_name call) args\<rparr>
       (case decision_for env (tc_name call) args of Some d \<Rightarrow> d | None \<Rightarrow> Ask)"

definition is_approve :: "approval_outcome option \<Rightarrow> bool" where
  "is_approve a \<longleftrightarrow> (case a of Some (Approve _ _) \<Rightarrow> True | _ \<Rightarrow> False)"

section \<open>Dispatch\<close>

text \<open>The tool itself runs, and its masked outcome goes into the record.\<close>

definition run_tool :: "tool_env \<Rightarrow> tool_call \<Rightarrow> json \<Rightarrow> tool_record \<Rightarrow> tool_record \<times> string list" where
  "run_tool env call args r =
     (case invoke env (tc_name call) args of
        Inr out \<Rightarrow>
          (let out = redact_output env out
           in (r\<lparr>r_result := Some (o_content out), r_error := o_error out\<rparr>, [''tool_started'', ''tool_result'']))
      | Inl err \<Rightarrow> (r\<lparr>r_error := Some err\<rparr>, [''tool_started'', ''tool_result'']))"

definition dispatch_tool ::
    "tool_env \<Rightarrow> uuid \<Rightarrow> uuid \<Rightarrow> tool_call \<Rightarrow> json \<Rightarrow> executor \<Rightarrow> tool_record \<times> executor \<times> string list" where
  "dispatch_tool env run_id ws call args ex =
     (let display = redact_args env args;
          r = blank_record call display
      in if malformed call args then
           (let (r, ev) = fail_tool r (lit ''arguments are not valid JSON: '' @
               truncate_event_text (trim (tc_arguments call)))
            in (r, ex, ev))
         else case call_decision env ex ws call args of
           Deny \<Rightarrow> (let (r, ev) = deny_tool r (lit ''permission denied by rule'') in (r, ex, ev))
         | Allow \<Rightarrow> (let (r, ev) = run_tool env call args r in (r, ex, ev))
         | Ask \<Rightarrow>
             (case request_approval (te_show_uuid env) (fresh_id env) (te_now env) run_id (tc_id call)
                     (tc_name call) display (Some ws) (pattern_target_for env (tc_name call) args) ex of
                (None, ex) \<Rightarrow>
                  (let (r, ev) = deny_tool r (lit ''could not open approval prompt'') in (r, ex, ev))
              | (Some expires, ex) \<Rightarrow>
                  (let approval = map_option pa_approval_id
                         (find (\<lambda>p. pa_tool_call_id p = tc_id call) (prompts ex));
                       r = r\<lparr>r_approval_id := approval\<rparr>;
                       asked = [''tool_approval_requested'', ''tool_approval_resolved'']
                   in if \<not> is_approve (answer env) then
                        (let (r, ev) = deny_tool r (lit ''denied by user'') in (r, ex, asked @ ev))
                      else (let (r, ev) = run_tool env call args r in (r, ex, asked @ ev)))))"

definition ran :: "tool_record \<times> executor \<times> string list \<Rightarrow> bool" where
  "ran d \<longleftrightarrow> ''tool_started'' \<in> set (snd (snd d))"

lemma not_run_simps [simp]:
  "r_error (not_run r reason) \<noteq> None" "r_result (not_run r reason) = r_result r"
  by (simp_all add: not_run_def)

lemmas dispatch_defs = dispatch_tool_def fail_tool_def deny_tool_def run_tool_def ran_def Let_def

lemma run_tool_events: "snd (run_tool env call args r) = [''tool_started'', ''tool_result'']"
  by (simp add: run_tool_def Let_def split: sum.splits)

lemma request_approval_opens:
  "fst (request_approval sh fresh now run_id cid name args ws target ex) \<noteq> None \<longleftrightarrow>
     store_up ex \<and> map_of (approvals ex) fresh = None"
  by (auto simp: request_approval_def Let_def)

lemma ran_iff:
  "ran (dispatch_tool env run_id ws call args ex) \<longleftrightarrow>
     \<not> malformed call args \<and>
     (call_decision env ex ws call args = Allow \<or>
      call_decision env ex ws call args = Ask \<and> store_up ex \<and> map_of (approvals ex) (fresh_id env) = None \<and>
        is_approve (answer env))"
proof -
  let ?req = "request_approval (te_show_uuid env) (fresh_id env) (te_now env) run_id (tc_id call)
     (tc_name call) (redact_args env args) (Some ws) (pattern_target_for env (tc_name call) args) ex"
  note o = request_approval_opens [of "te_show_uuid env" "fresh_id env" "te_now env" run_id "tc_id call"
     "tc_name call" "redact_args env args" "Some ws" "pattern_target_for env (tc_name call) args" ex]
  show ?thesis
  proof (cases "malformed call args")
    case True
    then show ?thesis by (simp add: dispatch_tool_def ran_def Let_def fail_tool_def)
  next
    case False
    then show ?thesis
      using o
      by (cases "call_decision env ex ws call args"; cases ?req; cases "fst ?req")
         (auto simp: dispatch_tool_def ran_def Let_def deny_tool_def split_beta run_tool_events)
  qed
qed

lemma not_ran_error:
  "\<not> ran (dispatch_tool env run_id ws call args ex) \<Longrightarrow>
     r_error (fst (dispatch_tool env run_id ws call args ex)) \<noteq> None \<and>
     r_result (fst (dispatch_tool env run_id ws call args ex)) = None"
proof -
  let ?req = "request_approval (te_show_uuid env) (fresh_id env) (te_now env) run_id (tc_id call)
     (tc_name call) (redact_args env args) (Some ws) (pattern_target_for env (tc_name call) args) ex"
  assume "\<not> ran (dispatch_tool env run_id ws call args ex)"
  then show ?thesis
    by (cases "call_decision env ex ws call args"; cases ?req; cases "fst ?req"; cases "malformed call args")
       (auto simp: dispatch_tool_def ran_def Let_def deny_tool_def fail_tool_def split_beta run_tool_events
         blank_record_def not_run_def)
qed

text \<open>
  C5 (safety). A tool runs only through the gate: exactly when its arguments parsed and the rules
  allow it, or they ask and the prompt could be opened and was approved. Every other call comes back
  with an error and no result.
\<close>

theorem dispatch_gate:
  "(ran (dispatch_tool env run_id ws call args ex) \<longleftrightarrow>
     \<not> malformed call args \<and>
     (call_decision env ex ws call args = Allow \<or>
      call_decision env ex ws call args = Ask \<and> store_up ex \<and> map_of (approvals ex) (fresh_id env) = None \<and>
        is_approve (answer env))) \<and>
   (ran (dispatch_tool env run_id ws call args ex) \<or>
      r_error (fst (dispatch_tool env run_id ws call args ex)) \<noteq> None \<and>
      r_result (fst (dispatch_tool env run_id ws call args ex)) = None)"
  using ran_iff [of env run_id ws call args ex] not_ran_error [of env run_id ws call args ex] by blast

text \<open>
  A matching deny rule is final: with the store readable, no answer to any prompt and
  no other rule makes the call run.
\<close>

theorem deny_is_final:
  assumes "store_up ex"
    and "Deny \<in> pr_decision ` applicable (te_glob env) (te_parse_uuid env) ex (tc_name call)
      \<lparr>cx_workspace_id = Some ws, cx_pattern_target = pattern_target_for env (tc_name call) args\<rparr>"
  shows "\<not> ran (dispatch_tool env run_id ws call args ex)"
  using assms by (simp add: ran_iff call_decision_def resolve_permission_set Let_def)

definition sample_env :: tool_env where
  "sample_env =
     \<lparr>decision_for = (\<lambda>_ _. Some Allow), pattern_target_for = (\<lambda>_ _. None), redact_args = (\<lambda>a. a),
      redact_output = (\<lambda>out. out), invoke = (\<lambda>_ _. Inr \<lparr>o_ok = True, o_content = JNull, o_error = None\<rparr>),
      te_glob = sample_glob, te_parse_uuid = sample_parse, te_show_uuid = sample_show,
      fresh_id = lit ''a2'', te_now = 0, answer = Some (Approve True True)\<rparr>"

definition locked_executor :: executor where
  "locked_executor =
     \<lparr>session_rules = [\<lparr>pr_tool_id = lit ''terminal'', pr_scope = Session, pr_decision = Deny,
        pr_pattern = None, pr_workspace_id = None\<rparr>],
      rules_table = [], prompts = [], waiters = [], approvals = [], woken = [], store_up = True\<rparr>"

theorem deny_is_final_witness:
  "\<not> ran (dispatch_tool sample_env 1 3
     \<lparr>tc_id = lit ''c1'', tc_kind = lit ''function'', tc_name = lit ''terminal'', tc_arguments = []\<rparr> JNull
     locked_executor)"
proof (rule deny_is_final)
  let ?r = "\<lparr>pr_tool_id = lit ''terminal'', pr_scope = Session, pr_decision = Deny,
        pr_pattern = None, pr_workspace_id = None\<rparr>"
  let ?call = "\<lparr>tc_id = lit ''c1'', tc_kind = lit ''function'', tc_name = lit ''terminal'', tc_arguments = []\<rparr>"
  show "store_up locked_executor" by (simp add: locked_executor_def)
  have "?r \<in> applicable (te_glob sample_env) (te_parse_uuid sample_env) locked_executor (tc_name ?call)
      \<lparr>cx_workspace_id = Some 3, cx_pattern_target = pattern_target_for sample_env (tc_name ?call) JNull\<rparr>"
    by (simp add: applicable_def locked_executor_def rule_matches_def scope_matches_def)
  then show "Deny \<in> pr_decision ` applicable (te_glob sample_env) (te_parse_uuid sample_env) locked_executor
      (tc_name ?call) \<lparr>cx_workspace_id = Some 3,
        cx_pattern_target = pattern_target_for sample_env (tc_name ?call) JNull\<rparr>"
    by (rule image_eqI [rotated]) simp
qed

end
