(* ===== verification/Shell_Audit.thy ===== *)
theory Shell_Audit
  imports Json "HOL-Library.AList"
begin

text \<open>
  The lexical audit of shell commands in \<open>core/src/runs/verification.rs\<close>: destructive commands,
  privilege escalation, matching a command against the configured check, and writes outside the
  workspace root. Everything here reads the command text only, as the code does.
\<close>

section \<open>Character classes and tokens\<close>

definition in_chars :: "string \<Rightarrow> uchar \<Rightarrow> bool" where
  "in_chars s c \<longleftrightarrow> c \<in> set (lit s)"

definition SQUOTE :: uchar where "SQUOTE = 39"
definition DQUOTE :: uchar where "DQUOTE = 34"

lemmas quote_consts = SQUOTE_def DQUOTE_def

definition token_sep :: "uchar \<Rightarrow> bool" where
  "token_sep c \<longleftrightarrow> is_whitespace c \<or> in_chars '';|&(){}'' c"

definition DESTRUCTIVE_COMMANDS :: "string list" where
  "DESTRUCTIVE_COMMANDS =
     [''rm'', ''rmdir'', ''mv'', ''dd'', ''mkfs'', ''chmod'', ''chown'', ''chgrp'', ''kill'', ''pkill'',
      ''killall'', ''truncate'', ''shred'', ''tee'', ''unlink'']"

definition DESTRUCTIVE_GIT :: "string list" where
  "DESTRUCTIVE_GIT =
     [''git reset'', ''git clean'', ''git checkout'', ''git restore'', ''git branch -d'',
      ''git branch -D'', ''git push --force'', ''git push -f'']"

definition ESCALATION_COMMANDS :: "string list" where
  "ESCALATION_COMMANDS = [''sudo'', ''doas'', ''pkexec'', ''su'']"

text \<open>One pass over the tokens of the scrubbed command; the first hit decides.\<close>

fun destructive_token :: "ustr list \<Rightarrow> ustr option" where
  "destructive_token [] = None"
| "destructive_token (raw # rest) =
     (let token = trim_matches (\<lambda>c. c = SQUOTE \<or> c = DQUOTE \<or> in_chars ''`$()'' c) raw
      in if token = [] then destructive_token rest
         else if one_of token DESTRUCTIVE_COMMANDS then
           Some (lit ''destructive command ('' @ token @ lit '')'')
         else if one_of token [''-delete'', ''--delete''] then Some (lit ''find -delete'')
         else destructive_token rest)"

definition shell_destructive_reason :: "ustr \<Rightarrow> ustr option" where
  "shell_destructive_reason command =
     (let scrubbed = str_replace (lit ''&>'') (lit '' '') (str_replace (lit ''2>&1'') (lit '' '') command)
      in if str_contains scrubbed (lit ''>>'') \<or> str_contains scrubbed (lit ''>'') then
           Some (lit ''shell output redirection'')
         else case find (\<lambda>p. str_contains command (lit p)) DESTRUCTIVE_GIT of
           Some p \<Rightarrow> Some (lit ''destructive git command ('' @ lit p @ lit '')'')
         | None \<Rightarrow> destructive_token (str_split token_sep scrubbed))"

fun escalation_token :: "ustr list \<Rightarrow> ustr option" where
  "escalation_token [] = None"
| "escalation_token (raw # rest) =
     (let token = trim_matches (\<lambda>c. c = SQUOTE \<or> c = DQUOTE \<or> in_chars ''`$'' c) raw
      in if one_of token ESCALATION_COMMANDS then Some token else escalation_token rest)"

definition shell_escalation :: "ustr \<Rightarrow> ustr option" where
  "shell_escalation command = escalation_token (str_split token_sep command)"

section \<open>Matching the configured check\<close>

definition check_boundary :: "ustr \<Rightarrow> bool" where
  "check_boundary rest =
     (case rest of
        [] \<Rightarrow> True
      | c # _ \<Rightarrow> is_whitespace c \<or> in_chars '';|&)'' c \<or> c = DQUOTE \<or> c = SQUOTE)"

text \<open>The search loop; \<open>rest\<close> is \<open>command[from..]\<close>, and \<open>configured\<close> is not empty where it is called.\<close>

function match_from :: "ustr \<Rightarrow> ustr \<Rightarrow> bool" where
  "match_from configured rest =
     (if configured = [] then False
      else case str_find configured rest of
        None \<Rightarrow> False
      | Some offset \<Rightarrow>
          (let after = drop (offset + length configured) rest
           in if check_boundary after then True else match_from configured after))"
  by pat_completeness auto
termination
proof (relation "measure (\<lambda>(configured, rest). length rest)", goal_cases)
  case (2 configured rest offset after)
  then show ?case
    using str_find_Some [of configured rest offset] by (cases configured) auto
qed simp

declare match_from.simps [simp del]

definition command_matches_variant :: "ustr \<Rightarrow> ustr \<Rightarrow> bool" where
  "command_matches_variant command configured =
     (let configured = trim configured
      in if configured = [] then False else match_from configured (trim command))"

lemma match_from_sound:
  "match_from configured rest \<Longrightarrow>
     \<exists>pre post. rest = pre @ configured @ post \<and> check_boundary post"
proof (induction configured rest rule: match_from.induct)
  case (1 configured rest)
  from "1.prems" obtain i where ne: "configured \<noteq> []" and i: "str_find configured rest = Some i"
    by (subst (asm) match_from.simps) (auto split: if_splits option.splits)
  let ?after = "drop (i + length configured) rest"
  have split: "rest = take i rest @ configured @ ?after"
    using str_find_Some [OF i] by simp
  show ?case
  proof (cases "check_boundary ?after")
    case True
    with split show ?thesis by blast
  next
    case False
    with "1.prems" ne i have "match_from configured ?after"
      by (subst (asm) match_from.simps) (auto simp: Let_def)
    then obtain pre post where *: "?after = pre @ configured @ post" "check_boundary post"
      using "1.IH" [OF ne i refl False] by blast
    from split * have "rest = (take i rest @ configured @ pre) @ configured @ post" by simp
    with *(2) show ?thesis by blast
  qed
qed

section \<open>Paths\<close>

text \<open>
  Unix path components (\<open>std::path::Component\<close>; the Windows prefix is not modelled). A path is the
  list \<open>Path::components\<close> yields: separators collapse, and an inner or trailing dot disappears.
\<close>

datatype pcomp = RootDir | CurDir | ParentDir | Normal ustr

type_synonym path = "pcomp list"

definition comp_of :: "ustr \<Rightarrow> pcomp" where
  "comp_of w = (if w = lit ''..'' then ParentDir else Normal w)"

definition components :: "ustr \<Rightarrow> path" where
  "components s =
     (let ws = str_split (\<lambda>c. c = ch (CHR ''/'')) s;
          body = map comp_of (filter (\<lambda>w. w \<noteq> [] \<and> w \<noteq> lit ''.'') ws)
      in if starts_with s (lit ''/'') then RootDir # body
         else if hd ws = lit ''.'' then CurDir # body
         else body)"

definition is_absolute :: "path \<Rightarrow> bool" where
  "is_absolute p \<longleftrightarrow> (case p of RootDir # _ \<Rightarrow> True | _ \<Rightarrow> False)"

definition path_join :: "path \<Rightarrow> path \<Rightarrow> path" where
  "path_join root p =
     (if is_absolute p then p else root @ filter (\<lambda>c. c \<noteq> CurDir) p)"

text \<open>\<open>PathBuf::pop\<close>: nothing happens at the root or on the empty path.\<close>

definition path_pop :: "path \<Rightarrow> path" where
  "path_pop p = (if p = [] \<or> last p = RootDir then p else butlast p)"

fun path_push :: "path \<Rightarrow> pcomp \<Rightarrow> path" where
  "path_push p RootDir = [RootDir]"
| "path_push p c = p @ [c]"

fun clean_step :: "path \<Rightarrow> pcomp \<Rightarrow> path" where
  "clean_step out CurDir = out"
| "clean_step out ParentDir = path_pop out"
| "clean_step out c = path_push out c"

definition lexical_clean :: "path \<Rightarrow> path" where
  "lexical_clean p = foldl clean_step [] p"

text \<open>A cleaned absolute path is the root followed by ordinary names.\<close>

fun is_normal :: "pcomp \<Rightarrow> bool" where
  "is_normal (Normal w) = True"
| "is_normal _ = False"

definition clean_absolute :: "path \<Rightarrow> bool" where
  "clean_absolute p \<longleftrightarrow> (\<exists>ns. p = RootDir # ns \<and> list_all is_normal ns)"

lemma clean_step_absolute: "clean_absolute p \<Longrightarrow> clean_absolute (clean_step p c)"
proof -
  assume "clean_absolute p"
  then obtain ns where p: "p = RootDir # ns" and n: "list_all is_normal ns"
    by (auto simp: clean_absolute_def)
  show ?thesis
  proof (cases c)
    case ParentDir
    have "list_all is_normal (butlast ns)"
      using n by (auto simp: list_all_iff dest: in_set_butlastD)
    with ParentDir p n show ?thesis
      by (cases ns rule: rev_cases) (auto simp: path_pop_def clean_absolute_def)
  qed (use p n in \<open>auto simp: clean_absolute_def\<close>)
qed

lemma foldl_clean_absolute: "clean_absolute p \<Longrightarrow> clean_absolute (foldl clean_step p cs)"
  by (induction cs arbitrary: p) (auto simp: clean_step_absolute)

lemma lexical_clean_absolute: "is_absolute p \<Longrightarrow> clean_absolute (lexical_clean p)"
proof -
  assume "is_absolute p"
  then obtain cs where "p = RootDir # cs"
    by (auto simp: is_absolute_def split: list.splits pcomp.splits)
  moreover have "clean_absolute [RootDir]"
    by (simp add: clean_absolute_def)
  ultimately show ?thesis
    by (simp add: lexical_clean_def foldl_clean_absolute)
qed

section \<open>Writes outside the workspace\<close>

text \<open>The target after a redirection: characters up to the next white space or separator.\<close>

fun take_target :: "ustr \<Rightarrow> ustr \<Rightarrow> ustr \<times> ustr" where
  "take_target target [] = (target, [])"
| "take_target target (c # cs) =
     (if is_whitespace c then (if target \<noteq> [] then (target, cs) else take_target target cs)
      else if in_chars '';|&'' c \<and> target \<noteq> [] then (target, cs)
      else take_target (target @ [c]) cs)"

lemma take_target_length: "length (snd (take_target t cs)) \<le> length cs"
proof (induction cs arbitrary: t)
  case (Cons c cs)
  from Cons.IH [of t] Cons.IH [of "t @ [c]"] show ?case by auto
qed simp

definition tee_arg :: "bool \<Rightarrow> ustr \<Rightarrow> ustr list" where
  "tee_arg after_tee token =
     (if after_tee \<and> token \<noteq> [] \<and> \<not> starts_with token (lit ''-'') then [token] else [])"

definition skip_gt :: "ustr \<Rightarrow> ustr" where
  "skip_gt cs = (case cs of c # r \<Rightarrow> if c = ch (CHR ''>'') then r else cs | [] \<Rightarrow> [])"

lemma length_skip_gt: "length (skip_gt cs) \<le> length cs"
  by (auto simp: skip_gt_def split: list.splits)

function scan_targets :: "ustr list \<Rightarrow> ustr \<Rightarrow> bool \<Rightarrow> ustr \<Rightarrow> ustr list" where
  "scan_targets targets token after_tee [] = targets @ tee_arg after_tee token"
| "scan_targets targets token after_tee (c # cs) =
     (if c = ch (CHR ''>'') then
        (let (target, rest) = take_target [] (skip_gt cs)
         in scan_targets (if target \<noteq> [] then targets @ [target] else targets) [] after_tee rest)
      else if is_whitespace c \<or> in_chars '';|&'' c then
        scan_targets (targets @ tee_arg after_tee token) []
          (token = lit ''tee'' \<or> ends_with token (lit ''/tee'')) cs
      else scan_targets targets (token @ [c]) after_tee cs)"
  by pat_completeness auto
termination
proof (relation "measure (\<lambda>(targets, token, after_tee, cs). length cs)", goal_cases)
  case (2 targets token after_tee c cs p target rest)
  have "length rest \<le> length (skip_gt cs)"
    using take_target_length [of "[]" "skip_gt cs"] 2 by (metis snd_conv)
  with length_skip_gt [of cs] show ?case by simp
qed auto

definition write_targets :: "ustr \<Rightarrow> ustr list" where
  "write_targets command = scan_targets [] [] False command"

definition resolve_shell_path :: "ustr \<Rightarrow> path \<Rightarrow> path option" where
  "resolve_shell_path target root =
     (let target = trim_matches (\<lambda>c. c = SQUOTE \<or> c = DQUOTE) (trim target)
      in if target = [] \<or> starts_with target (lit ''~'') \<or> starts_with target (lit ''$'') then None
         else if one_of target [''&1'', ''&2'', ''-'', ''/dev/null'', ''/dev/stdout'', ''/dev/stderr'']
           then None
         else (let p = components target
               in Some (lexical_clean (if is_absolute p then p else path_join root p))))"

text \<open>\<open>canonicalize\<close> asks the file system, a parameter.\<close>

definition shell_writes_outside :: "(path \<Rightarrow> path option) \<Rightarrow> ustr \<Rightarrow> path \<Rightarrow> ustr option" where
  "shell_writes_outside canonicalize command root =
     (let root = (case canonicalize root of Some r \<Rightarrow> r | None \<Rightarrow> lexical_clean root);
          scrubbed = str_replace (lit ''2>&'') (lit '' '') (str_replace (lit ''2>&1'') (lit '' '') command)
      in find (\<lambda>target. case resolve_shell_path target root of
                 Some p \<Rightarrow> \<not> starts_with p root
               | None \<Rightarrow> False)
           (write_targets scrubbed))"

lemma resolve_shell_path_clean:
  "is_absolute root \<Longrightarrow> resolve_shell_path target root = Some p \<Longrightarrow> clean_absolute p"
proof -
  assume abs: "is_absolute root" and r: "resolve_shell_path target root = Some p"
  have j: "is_absolute (path_join root q)" for q
    using abs by (auto simp: path_join_def is_absolute_def split: list.splits pcomp.splits)
  from r j show ?thesis
    by (auto simp: resolve_shell_path_def Let_def intro!: lexical_clean_absolute split: if_splits)
qed

end
