(* ===== verification/Verification.thy ===== *)
theory Verification
  imports Shell_Audit Stagnation
begin

text \<open>
  The verification ledger of \<open>core/src/runs/verification.rs\<close>: which destructive effects still need
  a confirming read, and which changed paths still need the project's own check. Both gates are
  instances of one contract, the locale \<open>effect_gate\<close>: calls arm targets, later calls cover them.
\<close>

section \<open>The gate contract\<close>

datatype 'c gate_event = Arm 'c | Cover 'c

locale effect_gate =
  fixes ok :: "'s \<Rightarrow> bool"
    and targets :: "'s \<Rightarrow> 'k set"
    and arm :: "'c \<Rightarrow> 's \<Rightarrow> 's"
    and cover :: "'c \<Rightarrow> 's \<Rightarrow> 's"
    and armed :: "'c \<Rightarrow> 'k set"
    and covers :: "'c \<Rightarrow> 'k set"
  assumes ok_arm: "ok s \<Longrightarrow> ok (arm c s)"
    and ok_cover: "ok s \<Longrightarrow> ok (cover c s)"
    and targets_arm: "ok s \<Longrightarrow> targets (arm c s) = targets s \<union> armed c"
    and targets_cover: "ok s \<Longrightarrow> targets (cover c s) = targets s - covers c"
begin

fun step :: "'c gate_event \<Rightarrow> 's \<Rightarrow> 's" where
  "step (Arm c) s = arm c s"
| "step (Cover c) s = cover c s"

definition uncovered :: "'k \<Rightarrow> 'c gate_event list \<Rightarrow> bool" where
  "uncovered k es \<longleftrightarrow> (\<forall>c. Cover c \<in> set es \<longrightarrow> k \<notin> covers c)"

lemma ok_step: "ok s \<Longrightarrow> ok (step e s)"
  by (cases e) (simp_all add: ok_arm ok_cover)

lemma ok_run: "ok s \<Longrightarrow> ok (fold step es s)"
  by (induction es arbitrary: s) (simp_all add: ok_step)

text \<open>A target is open at the end iff some call armed it and no later call covered it.\<close>

lemma targets_run:
  "ok s \<Longrightarrow> k \<in> targets (fold step es s) \<longleftrightarrow>
     (k \<in> targets s \<and> uncovered k es) \<or>
     (\<exists>pre c post. es = pre @ Arm c # post \<and> k \<in> armed c \<and> uncovered k post)"
proof (induction es rule: rev_induct)
  case Nil
  show ?case by (simp add: uncovered_def)
next
  case (snoc e es)
  have okr: "ok (fold step es s)"
    using snoc.prems by (rule ok_run)
  note IH = snoc.IH [OF snoc.prems]
  show ?case
  proof (cases e)
    case (Arm c)
    have "k \<in> targets (fold step (es @ [e]) s) \<longleftrightarrow> k \<in> targets (fold step es s) \<or> k \<in> armed c"
      using Arm okr by (simp add: targets_arm)
    also have "\<dots> \<longleftrightarrow> (k \<in> targets s \<and> uncovered k (es @ [e])) \<or>
        (\<exists>pre c post. es @ [e] = pre @ Arm c # post \<and> k \<in> armed c \<and> uncovered k post)"
      (is "?l \<longleftrightarrow> ?r1 \<or> ?r2")
    proof
      assume ?l
      then consider "k \<in> armed c" | "k \<in> targets s" "uncovered k es"
        | pre d post where "es = pre @ Arm d # post" "k \<in> armed d" "uncovered k post"
        using IH by blast
      then show "?r1 \<or> ?r2"
      proof cases
        case 1
        then have "es @ [e] = es @ Arm c # [] \<and> k \<in> armed c \<and> uncovered k []"
          using Arm by (simp add: uncovered_def)
        then show ?thesis by blast
      next
        case 2
        then show ?thesis using Arm by (simp add: uncovered_def)
      next
        case (3 pre d post)
        then have "es @ [e] = pre @ Arm d # (post @ [e]) \<and> k \<in> armed d \<and> uncovered k (post @ [e])"
          using Arm by (simp add: uncovered_def)
        then show ?thesis by blast
      qed
    next
      assume "?r1 \<or> ?r2"
      then show ?l
      proof
        assume ?r1
        then show ?l using IH by (simp add: uncovered_def)
      next
        assume ?r2
        then obtain pre d post where
          *: "es @ [e] = pre @ Arm d # post" "k \<in> armed d" "uncovered k post" by blast
        show ?l
        proof (cases post rule: rev_cases)
          case Nil
          with * Arm show ?thesis by simp
        next
          case (snoc ps p)
          with * have "es = pre @ Arm d # ps \<and> k \<in> armed d \<and> uncovered k ps"
            by (simp add: uncovered_def)
          then show ?thesis using IH by blast
        qed
      qed
    qed
    finally show ?thesis .
  next
    case (Cover c)
    have "k \<in> targets (fold step (es @ [e]) s) \<longleftrightarrow> k \<in> targets (fold step es s) \<and> k \<notin> covers c"
      using Cover okr by (simp add: targets_cover)
    also have "\<dots> \<longleftrightarrow> (k \<in> targets s \<and> uncovered k (es @ [e])) \<or>
        (\<exists>pre c post. es @ [e] = pre @ Arm c # post \<and> k \<in> armed c \<and> uncovered k post)"
      (is "?l \<longleftrightarrow> ?r1 \<or> ?r2")
    proof
      assume l: ?l
      then consider "k \<in> targets s" "uncovered k es"
        | pre d post where "es = pre @ Arm d # post" "k \<in> armed d" "uncovered k post"
        using IH by blast
      then show "?r1 \<or> ?r2"
      proof cases
        case 1
        then show ?thesis using Cover l by (simp add: uncovered_def)
      next
        case (2 pre d post)
        then have "es @ [e] = pre @ Arm d # (post @ [e]) \<and> k \<in> armed d \<and> uncovered k (post @ [e])"
          using Cover l by (simp add: uncovered_def)
        then show ?thesis by blast
      qed
    next
      assume "?r1 \<or> ?r2"
      then show ?l
      proof
        assume ?r1
        then show ?l using IH Cover by (simp add: uncovered_def)
      next
        assume ?r2
        then obtain pre d post where
          *: "es @ [e] = pre @ Arm d # post" "k \<in> armed d" "uncovered k post" by blast
        with Cover obtain ps where "post = ps @ [e]"
          by (cases post rule: rev_cases) auto
        with * have "es = pre @ Arm d # ps \<and> k \<in> armed d \<and> uncovered k ps"
          by (simp add: uncovered_def)
        moreover have "k \<notin> covers c"
          using * \<open>post = ps @ [e]\<close> Cover by (simp add: uncovered_def)
        ultimately show ?l using IH by blast
      qed
    qed
    finally show ?thesis .
  qed
qed

lemma closed_run:
  "ok s \<Longrightarrow> targets s = {} \<Longrightarrow> targets (fold step es s) = {} \<longleftrightarrow>
     (\<forall>pre c post. es = pre @ Arm c # post \<longrightarrow> (\<forall>k\<in>armed c. \<not> uncovered k post))"
  using targets_run by blast

end

section \<open>What a call changes\<close>

definition path_arg :: "json \<Rightarrow> ustr option" where
  "path_arg args = str_arg args ''path''"

definition command_arg :: "json \<Rightarrow> ustr option" where
  "command_arg args = str_arg args ''command''"

definition terminal_input :: "json \<Rightarrow> ustr" where
  "terminal_input args =
     (if str_arg args ''action'' = Some (lit ''send'') then str_or args ''input'' []
      else case command_arg args of None \<Rightarrow> [] | Some c \<Rightarrow> c)"

definition effect_key :: "ustr \<Rightarrow> json \<Rightarrow> ustr" where
  "effect_key tool args =
     (if tool = lit ''terminal'' then lit ''cmd:'' @ terminal_input args
      else lit ''path:'' @ (case path_arg args of None \<Rightarrow> [] | Some p \<Rightarrow> p))"

definition option_list :: "'a option \<Rightarrow> 'a list" where
  "option_list x = (case x of None \<Rightarrow> [] | Some y \<Rightarrow> [y])"

definition mutated_paths :: "ustr \<Rightarrow> json \<Rightarrow> ustr list" where
  "mutated_paths tool args =
     (if tool = lit ''edit'' then
        (case Option.bind (jget args ''edits'') as_array of
           Some batch \<Rightarrow> List.map_filter (\<lambda>entry. str_arg entry ''path'') batch
         | None \<Rightarrow> option_list (path_arg args))
      else if tool = lit ''files'' then
        (if one_of (action_or args '''') [''write'', ''create'', ''delete'', ''append'']
         then option_list (path_arg args) else [])
      else [])"

definition exit_code_of :: "json \<Rightarrow> int option" where
  "exit_code_of result = Option.bind (jget result ''exit_code'') as_i64"

definition destructive_reason :: "ustr \<Rightarrow> json \<Rightarrow> ustr option" where
  "destructive_reason tool args =
     (if tool = lit ''files'' then
        (if action_or args '''' = lit ''delete'' then Some (lit ''files.delete removed content'')
         else if action_or args '''' = lit ''write'' then Some (lit ''files.write replaced a whole file'')
         else None)
      else if tool = lit ''edit'' then Some (lit ''edit changed a file on disk'')
      else if tool = lit ''terminal'' then shell_destructive_reason (terminal_input args)
      else None)"

section \<open>The ledger\<close>

text \<open>
  The hash map is an association list without duplicate keys, and the ordered set is its sorted
  list, as iteration yields it.
\<close>

record ledger =
  outstanding_map :: "(ustr \<times> ustr) list"
  last_reason_of :: "ustr option"
  verify_command :: "ustr option"
  unverified_set :: "ustr list"

definition ledger_new :: "ustr option \<Rightarrow> ledger" where
  "ledger_new cmd =
     \<lparr>outstanding_map = [], last_reason_of = None,
      verify_command = (case cmd of Some c \<Rightarrow> if trim c = [] then None else Some c | None \<Rightarrow> None),
      unverified_set = []\<rparr>"

definition note_mutation :: "ustr \<Rightarrow> ledger \<Rightarrow> ledger" where
  "note_mutation p l =
     (if verify_command l = None \<or> p = [] then l
      else l\<lparr>unverified_set :=
        (if p \<in> set (unverified_set l) then unverified_set l else insort p (unverified_set l))\<rparr>)"

definition note_command :: "ustr \<Rightarrow> bool \<Rightarrow> ledger \<Rightarrow> ledger" where
  "note_command command exit_ok l =
     (if \<not> exit_ok then l
      else case verify_command l of
        None \<Rightarrow> l
      | Some configured \<Rightarrow>
          if command_matches_variant command configured then l\<lparr>unverified_set := []\<rparr> else l)"

definition needs_verification :: "ledger \<Rightarrow> bool" where
  "needs_verification l \<longleftrightarrow> verify_command l \<noteq> None \<and> unverified_set l \<noteq> []"

definition unverified :: "ledger \<Rightarrow> ustr list" where
  "unverified l = unverified_set l"

definition insert_outstanding :: "ustr \<Rightarrow> ustr \<Rightarrow> ledger \<Rightarrow> ledger" where
  "insert_outstanding reason key l =
     l\<lparr>outstanding_map := AList.update key reason (outstanding_map l)\<rparr>"

definition requires_confirmation :: "ustr \<Rightarrow> json \<Rightarrow> ledger \<Rightarrow> bool \<times> ledger" where
  "requires_confirmation tool args l =
     (case destructive_reason tool args of
        None \<Rightarrow> (False, l)
      | Some reason \<Rightarrow>
          (let targets = mutated_paths tool args;
               keys = (if targets = [] then [effect_key tool args]
                       else map (\<lambda>p. lit ''path:'' @ p) targets)
           in (True, (fold (insert_outstanding reason) keys l)\<lparr>last_reason_of := Some reason\<rparr>)))"

definition clear_outstanding :: "ledger \<Rightarrow> ledger" where
  "clear_outstanding l = l\<lparr>outstanding_map := []\<rparr>"

definition confirm :: "ustr \<Rightarrow> json \<Rightarrow> ledger \<Rightarrow> ledger" where
  "confirm tool args l =
     (if tool = lit ''files'' then
        (if one_of (action_or args '''') [''read'', ''list''] then
           (case path_arg args of
              Some p \<Rightarrow> l\<lparr>outstanding_map := AList.delete (lit ''path:'' @ p) (outstanding_map l)\<rparr>
            | None \<Rightarrow> clear_outstanding l)
         else l)
      else if one_of tool [''glob'', ''grep'', ''lsp'', ''web_fetch'', ''web_fetch_pdf'',
                ''web_search'', ''network'', ''image_vision'', ''workspace_check''] then clear_outstanding l
      else if tool = lit ''knowledge'' \<and> str_arg args ''action'' = Some (lit ''search'') then
        clear_outstanding l
      else l)"

definition is_blocked :: "ledger \<Rightarrow> bool" where
  "is_blocked l \<longleftrightarrow> outstanding_map l \<noteq> []"

definition outstanding :: "ledger \<Rightarrow> ustr list" where
  "outstanding l = sort (map fst (outstanding_map l))"

definition last_reason :: "ledger \<Rightarrow> ustr option" where
  "last_reason l = last_reason_of l"

section \<open>Both gates meet the contract\<close>

definition armed_keys :: "ustr \<times> json \<Rightarrow> ustr set" where
  "armed_keys call =
     (case call of (tool, args) \<Rightarrow>
        if destructive_reason tool args = None then {}
        else if mutated_paths tool args = [] then {effect_key tool args}
        else (\<lambda>p. lit ''path:'' @ p) ` set (mutated_paths tool args))"

definition covered_keys :: "ustr \<times> json \<Rightarrow> ustr set" where
  "covered_keys call =
     (case call of (tool, args) \<Rightarrow>
        if tool = lit ''files'' then
          (if one_of (action_or args '''') [''read'', ''list''] then
             (case path_arg args of Some p \<Rightarrow> {lit ''path:'' @ p} | None \<Rightarrow> UNIV)
           else {})
        else if one_of tool [''glob'', ''grep'', ''lsp'', ''web_fetch'', ''web_fetch_pdf'',
                  ''web_search'', ''network'', ''image_vision'', ''workspace_check''] then UNIV
        else if tool = lit ''knowledge'' \<and> str_arg args ''action'' = Some (lit ''search'') then UNIV
        else {})"

definition open_keys :: "ledger \<Rightarrow> ustr set" where
  "open_keys l = fst ` set (outstanding_map l)"

lemma fold_insert_outstanding:
  "open_keys (fold (insert_outstanding r) ks l) = open_keys l \<union> set ks"
  "verify_command (fold (insert_outstanding r) ks l) = verify_command l"
  "unverified_set (fold (insert_outstanding r) ks l) = unverified_set l"
  by (induction ks arbitrary: l)
     (auto simp: insert_outstanding_def open_keys_def dom_update)

lemma open_keys_requires:
  "open_keys (snd (requires_confirmation tool args l)) = open_keys l \<union> armed_keys (tool, args)"
proof -
  have frame: "open_keys (l'\<lparr>last_reason_of := r\<rparr>) = open_keys l'" for l' r
    by (simp add: open_keys_def)
  show ?thesis
    by (cases "destructive_reason tool args")
       (auto simp: requires_confirmation_def armed_keys_def frame fold_insert_outstanding Let_def)
qed

lemma open_keys_clear [simp]: "open_keys (clear_outstanding l) = {}"
  by (simp add: open_keys_def clear_outstanding_def)

lemma open_keys_delete: "open_keys (l\<lparr>outstanding_map := AList.delete k (outstanding_map l)\<rparr>) = open_keys l - {k}"
  by (simp add: open_keys_def) (metis delete_keys image_set set_removeAll)

lemma open_keys_confirm: "open_keys (confirm tool args l) = open_keys l - covered_keys (tool, args)"
  by (simp add: confirm_def covered_keys_def open_keys_delete split: option.split)

lemma verify_command_frame [simp]:
  "verify_command (snd (requires_confirmation tool args l)) = verify_command l"
  "verify_command (confirm tool args l) = verify_command l"
  "verify_command (note_mutation p l) = verify_command l"
  "verify_command (note_command c ok l) = verify_command l"
  by (auto simp: requires_confirmation_def confirm_def clear_outstanding_def note_mutation_def
        note_command_def Let_def fold_insert_outstanding split: option.splits)

lemma unverified_frame [simp]:
  "unverified_set (snd (requires_confirmation tool args l)) = unverified_set l"
  "unverified_set (confirm tool args l) = unverified_set l"
  by (auto simp: requires_confirmation_def confirm_def clear_outstanding_def
        Let_def fold_insert_outstanding split: option.splits)

lemma open_keys_frame [simp]:
  "open_keys (note_mutation p l) = open_keys l"
  "open_keys (note_command c ok l) = open_keys l"
  by (auto simp: note_mutation_def note_command_def open_keys_def split: option.splits)

lemma is_blocked_open_keys: "is_blocked l \<longleftrightarrow> open_keys l \<noteq> {}"
  by (auto simp: is_blocked_def open_keys_def)

lemma set_outstanding: "set (outstanding l) = open_keys l"
  by (simp add: outstanding_def open_keys_def)

text \<open>The engine feeds the ledger calls that may arm it and calls that may confirm it.\<close>

fun effect_step :: "(ustr \<times> json) gate_event \<Rightarrow> ledger \<Rightarrow> ledger" where
  "effect_step (Arm (tool, args)) l = snd (requires_confirmation tool args l)"
| "effect_step (Cover (tool, args)) l = confirm tool args l"

interpretation effects: effect_gate "\<lambda>_. True" open_keys
  "\<lambda>call. effect_step (Arm call)" "\<lambda>call. effect_step (Cover call)" armed_keys covered_keys
  by unfold_locales (auto simp: open_keys_requires open_keys_confirm)

lemma effect_step_eq: "effects.step = effect_step"
proof (intro ext)
  show "effects.step e l = effect_step e l" for e l by (cases e) simp_all
qed

text \<open>The second gate: paths the agent changed, and commands that ran with their outcome.\<close>

datatype check_call = Changed ustr | Command ustr bool

fun check_step :: "check_call \<Rightarrow> ledger \<Rightarrow> ledger" where
  "check_step (Changed p) l = note_mutation p l"
| "check_step (Command c ok) l = note_command c ok l"

fun check_armed :: "check_call \<Rightarrow> ustr set" where
  "check_armed (Changed p) = (if p = [] then {} else {p})"
| "check_armed (Command c ok) = {}"

fun check_covers :: "ustr \<Rightarrow> check_call \<Rightarrow> ustr set" where
  "check_covers cmd (Changed p) = {}"
| "check_covers cmd (Command c ok) = (if ok \<and> command_matches_variant c cmd then UNIV else {})"

fun check_arm :: "check_call \<Rightarrow> ledger \<Rightarrow> ledger" where
  "check_arm (Changed p) l = note_mutation p l"
| "check_arm (Command c ok) l = l"

fun check_cover :: "check_call \<Rightarrow> ledger \<Rightarrow> ledger" where
  "check_cover (Changed p) l = l"
| "check_cover (Command c ok) l = note_command c ok l"

interpretation checks: effect_gate "\<lambda>l. verify_command l = Some cmd" "\<lambda>l. set (unverified_set l)"
  check_arm check_cover check_armed "check_covers cmd" for cmd
proof (unfold_locales, goal_cases)
  case (1 s c) then show ?case by (cases c) simp_all
next
  case (2 s c) then show ?case by (cases c) simp_all
next
  case (3 s c) then show ?case
    by (cases c) (auto simp: note_mutation_def set_insort_key)
next
  case (4 s c) then show ?case
    by (cases c) (auto simp: note_command_def)
qed

definition check_event :: "check_call \<Rightarrow> check_call gate_event" where
  "check_event c = (case c of Changed p \<Rightarrow> Arm c | Command x ok \<Rightarrow> Cover c)"

lemma check_event_step: "fold checks.step (map check_event cs) l = fold check_step cs l"
  by (induction cs arbitrary: l) (auto simp: check_event_def split: check_call.splits)

section \<open>Facts the engine relies on\<close>

lemma destructive_is_mutating: "destructive_reason tool args \<noteq> None \<Longrightarrow> is_mutating tool args"
  by (auto simp: destructive_reason_def is_mutating_def split: if_splits)

lemma mutated_is_mutating: "mutated_paths tool args \<noteq> [] \<Longrightarrow> is_mutating tool args"
  by (auto simp: mutated_paths_def is_mutating_def split: if_splits)

lemma ledger_new_simps [simp]:
  "open_keys (ledger_new cmd) = {}"
  "unverified_set (ledger_new cmd) = []"
  "last_reason_of (ledger_new cmd) = None"
  by (simp_all add: ledger_new_def open_keys_def)

definition read_back :: "ustr \<Rightarrow> (ustr \<times> json) gate_event list \<Rightarrow> bool" where
  "read_back k es \<longleftrightarrow> (\<exists>c. Cover c \<in> set es \<and> k \<in> covered_keys c)"

lemma uncovered_read_back: "effects.uncovered k es \<longleftrightarrow> \<not> read_back k es"
  by (auto simp: effects.uncovered_def read_back_def)

lemma open_keys_events:
  "k \<in> open_keys (fold effect_step es (ledger_new cmd)) \<longleftrightarrow>
     (\<exists>pre call post. es = pre @ Arm call # post \<and> k \<in> armed_keys call \<and> \<not> read_back k post)"
  using effects.targets_run [where s = "ledger_new cmd" and k = k and es = es]
  unfolding effect_step_eq uncovered_read_back by simp

lemma open_keys_step:
  "open_keys (effect_step e l) = (case e of Arm c \<Rightarrow> open_keys l \<union> armed_keys c | Cover c \<Rightarrow> open_keys l - covered_keys c)"
  by (cases e) (auto simp: open_keys_requires open_keys_confirm)

lemma open_keys_fold_cong:
  "open_keys l = open_keys l' \<Longrightarrow> open_keys (fold effect_step es l) = open_keys (fold effect_step es l')"
  by (induction es arbitrary: l l') (simp_all add: open_keys_step split: gate_event.split)

text \<open>
  C20 (safety). The confirming-read gate: at the end of a run the ledger blocks the conclusion
  exactly when some destructive call armed a target that no later call read back.
\<close>

theorem ledger_blocked_iff:
  "is_blocked (fold effect_step es (ledger_new cmd)) \<longleftrightarrow>
     (\<exists>pre call post. es = pre @ Arm call # post \<and> (\<exists>k \<in> armed_keys call. \<not> read_back k post))"
  using effects.closed_run [of "ledger_new cmd" es]
  unfolding is_blocked_open_keys effect_step_eq uncovered_read_back by simp

lemma check_event_Arm: "check_event c = Arm d \<longleftrightarrow> (\<exists>q. c = Changed q \<and> d = Changed q)"
  by (cases c) (auto simp: check_event_def)

lemma check_event_Cover: "Cover d = check_event c \<longleftrightarrow> (\<exists>x ok. c = Command x ok \<and> d = Command x ok)"
  by (cases c) (auto simp: check_event_def)

lemma uncovered_commands:
  "checks.uncovered cmd p (map check_event cs) \<longleftrightarrow>
     \<not> (\<exists>x. Command x True \<in> set cs \<and> command_matches_variant x cmd)"
proof -
  have "checks.uncovered cmd p (map check_event cs) \<longleftrightarrow>
      (\<forall>x ok. Command x ok \<in> set cs \<longrightarrow> p \<notin> check_covers cmd (Command x ok))"
    unfolding checks.uncovered_def set_map image_iff check_event_Cover by blast
  also have "\<dots> \<longleftrightarrow> (\<forall>x ok. Command x ok \<in> set cs \<longrightarrow> \<not> (ok \<and> command_matches_variant x cmd))"
  proof -
    have "p \<notin> check_covers cmd (Command x ok) \<longleftrightarrow> \<not> (ok \<and> command_matches_variant x cmd)" for x ok
      by simp
    then show ?thesis by (simp only:)
  qed
  finally show ?thesis by (metis (full_types))
qed

lemma armed_change:
  "(\<exists>pre d post. map check_event cs = pre @ Arm d # post \<and> p \<in> check_armed d \<and>
       checks.uncovered cmd p post) \<longleftrightarrow>
   (\<exists>pre post. cs = pre @ Changed p # post \<and> p \<noteq> [] \<and>
       checks.uncovered cmd p (map check_event post))" (is "?l \<longleftrightarrow> ?r")
proof
  assume ?l
  then obtain pre d post where
    *: "map check_event cs = pre @ Arm d # post" "p \<in> check_armed d" "checks.uncovered cmd p post"
    by blast
  from *(1) obtain us e vs where cs: "cs = us @ e # vs" and e: "check_event e = Arm d"
    and vs: "map check_event vs = post"
    by (auto simp: map_eq_append_conv Cons_eq_map_conv)
  from e *(2) have "e = Changed p \<and> p \<noteq> []"
    by (auto simp: check_event_Arm split: if_splits)
  with cs vs *(3) show ?r by blast
next
  assume ?r
  then obtain pre post where
    *: "cs = pre @ Changed p # post" "p \<noteq> []" "checks.uncovered cmd p (map check_event post)"
    by blast
  then have "map check_event cs = map check_event pre @ Arm (Changed p) # map check_event post"
    by (simp add: check_event_def)
  with * show ?l by fastforce
qed

lemma unverified_events:
  assumes "verify_command (ledger_new cmd) = Some c"
  shows "p \<in> set (unverified_set (fold check_step cs (ledger_new cmd))) \<longleftrightarrow>
     (\<exists>pre post. cs = pre @ Changed p # post \<and> p \<noteq> [] \<and>
        \<not> (\<exists>x. Command x True \<in> set post \<and> command_matches_variant x c))"
  using checks.targets_run [OF assms, of p "map check_event cs"]
  by (simp add: check_event_step armed_change uncovered_commands)

lemma check_step_cong:
  "unverified_set l = unverified_set l' \<Longrightarrow> verify_command l = verify_command l' \<Longrightarrow>
     unverified_set (check_step e l) = unverified_set (check_step e l') \<and>
     verify_command (check_step e l) = verify_command (check_step e l')"
  by (cases e) (auto simp: note_mutation_def note_command_def split: option.split)

lemma check_fold_cong:
  "unverified_set l = unverified_set l' \<Longrightarrow> verify_command l = verify_command l' \<Longrightarrow>
     unverified_set (fold check_step es l) = unverified_set (fold check_step es l') \<and>
     verify_command (fold check_step es l) = verify_command (fold check_step es l')"
proof (induction es arbitrary: l l')
  case (Cons e es)
  note c = check_step_cong [OF Cons.prems, of e]
  show ?case
    using Cons.IH [OF c [THEN conjunct1] c [THEN conjunct2]] by (simp only: fold_simps)
qed simp

lemma matching_command:
  "command_matches_variant x c \<Longrightarrow> \<exists>before after. trim x = before @ trim c @ after \<and> check_boundary after"
  by (auto simp: command_matches_variant_def Let_def split: if_splits dest!: match_from_sound)



end
