(* ===== verification/Run_Mode.thy ===== *)
theory Run_Mode
  imports Json
begin

text \<open>
  The run modes of \<open>core/src/mode.rs\<close> with their per-mode limits, and the lifecycle states and
  usage totals of \<open>core/src/runs/state.rs\<close>.
\<close>

section \<open>Modes\<close>

datatype mode = Chat | Thinking | Plan | Agent

definition mode_as_str :: "mode \<Rightarrow> string" where
  "mode_as_str m =
     (case m of Chat \<Rightarrow> ''chat'' | Thinking \<Rightarrow> ''thinking'' | Plan \<Rightarrow> ''plan'' | Agent \<Rightarrow> ''agent'')"

definition mode_parse :: "string \<Rightarrow> mode option" where
  "mode_parse v =
     (if v = ''chat'' then Some Chat
      else if v = ''thinking'' then Some Thinking
      else if v = ''plan'' then Some Plan
      else if v = ''agent'' then Some Agent
      else None)"

definition mode_from_str :: "string \<Rightarrow> string + mode" where
  "mode_from_str v =
     (case mode_parse v of
        None \<Rightarrow> Inl (''unknown mode: '' @ v @ '' (expected chat|thinking|plan|agent)'')
      | Some m \<Rightarrow> Inr m)"

definition mode_is_read_only :: "mode \<Rightarrow> bool" where
  "mode_is_read_only m \<longleftrightarrow> m = Plan"

definition default_step_limit :: "mode \<Rightarrow> u32" where
  "default_step_limit m = (case m of Chat \<Rightarrow> 12 | Thinking \<Rightarrow> 24 | Plan \<Rightarrow> 60 | Agent \<Rightarrow> 300)"

definition default_tool_call_limit :: "mode \<Rightarrow> u32" where
  "default_tool_call_limit m = (case m of Chat \<Rightarrow> 12 | Thinking \<Rightarrow> 24 | Plan \<Rightarrow> 150 | Agent \<Rightarrow> 750)"

definition default_wall_clock_minutes :: "mode \<Rightarrow> u32" where
  "default_wall_clock_minutes m = (case m of Chat \<Rightarrow> 20 | Thinking \<Rightarrow> 45 | Plan \<Rightarrow> 45 | Agent \<Rightarrow> 90)"

definition default_token_limit :: "mode \<Rightarrow> u32" where
  "default_token_limit m =
     (case m of Chat \<Rightarrow> 0 | Thinking \<Rightarrow> 500000 | Plan \<Rightarrow> 800000 | Agent \<Rightarrow> 4000000)"

lemma mode_parse_as_str [simp]: "mode_parse (mode_as_str m) = Some m"
  by (cases m) (simp_all add: mode_parse_def mode_as_str_def)

lemma mode_parse_Some: "mode_parse v = Some m \<Longrightarrow> v = mode_as_str m"
  by (auto simp: mode_parse_def mode_as_str_def split: if_splits)

lemma default_step_limit_pos: "0 < unat (default_step_limit m)"
  by (cases m) (simp_all add: default_step_limit_def)

section \<open>Run status\<close>

datatype run_status =
    Queued | Running | WaitingApproval | BudgetExtensionPending
  | Interrupted | Failed | Cancelled | Completed

definition status_as_str :: "run_status \<Rightarrow> string" where
  "status_as_str s =
     (case s of
        Queued \<Rightarrow> ''queued''
      | Running \<Rightarrow> ''running''
      | WaitingApproval \<Rightarrow> ''waiting_approval''
      | BudgetExtensionPending \<Rightarrow> ''budget_extension_pending''
      | Interrupted \<Rightarrow> ''interrupted''
      | Failed \<Rightarrow> ''failed''
      | Cancelled \<Rightarrow> ''cancelled''
      | Completed \<Rightarrow> ''completed'')"

definition status_is_terminal :: "run_status \<Rightarrow> bool" where
  "status_is_terminal s \<longleftrightarrow> s \<in> {Completed, Failed, Cancelled, Interrupted}"

text \<open>\<open>parse_status\<close> of \<open>runs/engine.rs\<close>, which reads the column back.\<close>

definition parse_status :: "string \<Rightarrow> run_status option" where
  "parse_status v =
     (if v = ''queued'' then Some Queued
      else if v = ''running'' then Some Running
      else if v = ''waiting_approval'' then Some WaitingApproval
      else if v = ''budget_extension_pending'' then Some BudgetExtensionPending
      else if v = ''interrupted'' then Some Interrupted
      else if v = ''failed'' then Some Failed
      else if v = ''cancelled'' then Some Cancelled
      else if v = ''completed'' then Some Completed
      else None)"

lemma parse_status_as_str [simp]: "parse_status (status_as_str s) = Some s"
  by (cases s) (simp_all add: parse_status_def status_as_str_def)

section \<open>Token usage\<close>

text \<open>\<open>Usage\<close> of \<open>providers/src/lib.rs\<close>: what one turn reported.\<close>

record usage =
  u_input :: u64
  u_output :: u64
  u_cache_read :: u64
  u_cache_write :: u64
  u_context :: "u64 option"

text \<open>
  \<open>RunUsage\<close>: the running totals. The cost estimate is a float computed from a price table by
  \<open>pricing.rs\<close>, which is not modelled; the field is left out.
\<close>

record run_usage =
  ru_input :: u64
  ru_output :: u64
  ru_cache_read :: u64
  ru_cache_write :: u64
  ru_context :: u64
  ru_window :: u32

definition run_usage_default :: run_usage where
  "run_usage_default =
     \<lparr>ru_input = 0, ru_output = 0, ru_cache_read = 0, ru_cache_write = 0,
      ru_context = 0, ru_window = 0\<rparr>"

definition usage_record :: "run_usage \<Rightarrow> usage \<Rightarrow> run_usage" where
  "usage_record t u =
     t\<lparr>ru_input := sat_add (ru_input t) (u_input u),
       ru_output := sat_add (ru_output t) (u_output u),
       ru_cache_read := sat_add (ru_cache_read t) (u_cache_read u),
       ru_cache_write := sat_add (ru_cache_write t) (u_cache_write u),
       ru_context := (case u_context u of
           Some c \<Rightarrow> c
         | None \<Rightarrow> sat_add (sat_add (u_input u) (u_cache_read u)) (u_cache_write u))\<rparr>"

definition usage_as_usage :: "run_usage \<Rightarrow> usage" where
  "usage_as_usage t =
     \<lparr>u_input = ru_input t, u_output = ru_output t, u_cache_read = ru_cache_read t,
      u_cache_write = ru_cache_write t, u_context = Some (ru_context t)\<rparr>"

definition total_tokens :: "run_usage \<Rightarrow> u64" where
  "total_tokens t =
     sat_add (sat_add (sat_add (ru_input t) (ru_output t)) (ru_cache_read t)) (ru_cache_write t)"

text \<open>Folding a run's turns gives the saturated sum of each bucket, whatever the order.\<close>

lemma usage_record_input:
  "unat (ru_input (foldl usage_record t us)) =
     min (unat (ru_input t) + (\<Sum>u\<leftarrow>us. unat (u_input u))) (2 ^ 64 - 1)"
proof (induction us arbitrary: t)
  case Nil
  then show ?case using unat_bound [of "ru_input t"] by (simp add: min_absorb1)
next
  case (Cons u us)
  then show ?case by (simp add: usage_record_def unat_sat_add min_def)
qed

lemma usage_record_output:
  "unat (ru_output (foldl usage_record t us)) =
     min (unat (ru_output t) + (\<Sum>u\<leftarrow>us. unat (u_output u))) (2 ^ 64 - 1)"
proof (induction us arbitrary: t)
  case Nil
  then show ?case using unat_bound [of "ru_output t"] by (simp add: min_absorb1)
next
  case (Cons u us)
  then show ?case by (simp add: usage_record_def unat_sat_add min_def)
qed

lemma total_tokens_eq:
  "unat (total_tokens t) =
     min (unat (ru_input t) + unat (ru_output t) + unat (ru_cache_read t) + unat (ru_cache_write t))
       (2 ^ 64 - 1)"
  by (simp add: total_tokens_def unat_sat_add min_def)

end
