(* ===== verification/Context_Summary.thy ===== *)
theory Context_Summary
  imports History
begin

text \<open>
  Context compression (\<open>core/src/context.rs\<close>): the threshold derived from the context window,
  the eviction of oversized tool results, the tiered summary and the compression pass. The
  summariser is a provider call, a parameter.
\<close>

section \<open>Constants and threshold\<close>

definition ACTIVE_SUMMARY_CHAR_BUDGET :: nat where "ACTIVE_SUMMARY_CHAR_BUDGET = 4000"
definition ARCHIVE_ROW_LIMIT :: nat where "ARCHIVE_ROW_LIMIT = 12"
definition COMPRESS_THRESHOLD_CHARS :: nat where "COMPRESS_THRESHOLD_CHARS = 120000"
definition CHARS_PER_TOKEN :: nat where "CHARS_PER_TOKEN = 4"
definition PROMPT_BUDGET_PERCENT :: nat where "PROMPT_BUDGET_PERCENT = 60"
definition MIN_COMPRESS_THRESHOLD_CHARS :: nat where "MIN_COMPRESS_THRESHOLD_CHARS = 16000"
definition TOOL_RESULT_CHAR_BUDGET :: nat where "TOOL_RESULT_CHAR_BUDGET = 60000"

lemmas context_consts =
  ACTIVE_SUMMARY_CHAR_BUDGET_def ARCHIVE_ROW_LIMIT_def COMPRESS_THRESHOLD_CHARS_def
  CHARS_PER_TOKEN_def PROMPT_BUDGET_PERCENT_def MIN_COMPRESS_THRESHOLD_CHARS_def
  TOOL_RESULT_CHAR_BUDGET_def

text \<open>The product is at most \<open>2^32 * 240\<close>, so it does not overflow a 64-bit \<open>usize\<close>.\<close>

definition compress_threshold_chars :: "u32 \<Rightarrow> nat" where
  "compress_threshold_chars window_tokens =
     (if window_tokens = 0 then COMPRESS_THRESHOLD_CHARS
      else max (unat window_tokens * CHARS_PER_TOKEN * PROMPT_BUDGET_PERCENT div 100)
             MIN_COMPRESS_THRESHOLD_CHARS)"

section \<open>Evicting tool results\<close>

definition is_tool_result :: "message \<Rightarrow> bool" where
  "is_tool_result m \<longleftrightarrow> is_role m ''tool''"

definition tool_chars :: "message list \<Rightarrow> nat" where
  "tool_chars ms = sum_list (map (\<lambda>m. length (m_content m)) (filter is_tool_result ms))"

definition elided :: "nat \<Rightarrow> ustr" where
  "elided len =
     lit ''[tool result elided: '' @ show_nat len @ lit '' chars, re-run the call if you still need it]''"

text \<open>\<open>remaining - len + placeholder\_len\<close> never underflows: \<open>len\<close> is part of \<open>remaining\<close>.\<close>

fun evict_loop :: "nat \<Rightarrow> nat \<Rightarrow> nat \<Rightarrow> message list \<Rightarrow> message list \<times> nat" where
  "evict_loop budget remaining evicted [] = ([], evicted)"
| "evict_loop budget remaining evicted (m # ms) =
     (if remaining \<le> budget then (m # ms, evicted)
      else if \<not> is_tool_result m then
        (let (r, e) = evict_loop budget remaining evicted ms in (m # r, e))
      else
        (let len = length (m_content m);
             placeholder = elided len;
             placeholder_len = length placeholder
         in if placeholder_len \<ge> len then
              (let (r, e) = evict_loop budget remaining evicted ms in (m # r, e))
            else
              (let (r, e) = evict_loop budget (remaining - len + placeholder_len) (evicted + 1) ms
               in (m\<lparr>m_content := placeholder\<rparr> # r, e))))"

definition evict_tool_results :: "message list \<Rightarrow> nat \<Rightarrow> message list \<times> nat" where
  "evict_tool_results messages budget =
     (let total = tool_chars messages
      in if total \<le> budget then (messages, 0) else evict_loop budget total 0 messages)"

section \<open>Task state\<close>

record task_state =
  goal :: ustr
  plan :: "ustr list"
  pending :: "ustr list"
  important_facts :: "ustr list"
  artifacts :: "ustr list"
  open_questions :: "ustr list"

definition nl :: ustr where "nl = [10]"

definition task_section :: "string \<times> ustr list \<Rightarrow> ustr" where
  "task_section s =
     (case s of (label, items) \<Rightarrow>
        if items = [] then []
        else lit label @ lit '':'' @ nl @ concat (map (\<lambda>i. lit ''  - '' @ i @ nl) items))"

definition render_task_state :: "task_state \<Rightarrow> ustr" where
  "render_task_state t =
     lit ''<task_state>'' @ nl
     @ (if goal t \<noteq> [] then lit ''goal: '' @ goal t @ nl else [])
     @ concat (map task_section
         [(''plan'', plan t), (''pending'', pending t), (''important_facts'', important_facts t),
          (''artifacts'', artifacts t), (''open_questions'', open_questions t)])
     @ lit ''</task_state>'' @ nl"

definition task_state_is_empty :: "task_state \<Rightarrow> bool" where
  "task_state_is_empty t \<longleftrightarrow>
     goal t = [] \<and> plan t = [] \<and> pending t = [] \<and> important_facts t = [] \<and> artifacts t = []
     \<and> open_questions t = []"

section \<open>The tiered summary\<close>

record tiered_summary =
  active :: ustr
  archive :: "ustr list"

definition tiered_new :: tiered_summary where
  "tiered_new = \<lparr>active = [], archive = []\<rparr>"

fun trim_rows :: "ustr list \<Rightarrow> ustr list" where
  "trim_rows rows = (if length rows > ARCHIVE_ROW_LIMIT then trim_rows (tl rows) else rows)"

declare trim_rows.simps [simp del]

definition absorb :: "ustr \<Rightarrow> tiered_summary \<Rightarrow> tiered_summary" where
  "absorb text s =
     (let candidate = (if active s \<noteq> [] then active s @ nl @ nl else []) @ trim text
      in if length candidate > ACTIVE_SUMMARY_CHAR_BUDGET then
           s\<lparr>active := take ACTIVE_SUMMARY_CHAR_BUDGET (trim text),
             archive := trim_rows (if active s \<noteq> [] then archive s @ [active s] else archive s)\<rparr>
         else s\<lparr>active := candidate\<rparr>)"

definition render_summary :: "tiered_summary \<Rightarrow> ustr" where
  "render_summary s = concat (map (\<lambda>row. row @ nl @ nl) (archive s)) @ active s"

definition summary_char_count :: "tiered_summary \<Rightarrow> nat" where
  "summary_char_count s = length (render_summary s)"

section \<open>Compression\<close>

record compression_outcome =
  co_messages :: "message list"
  co_summary :: tiered_summary
  co_skipped :: bool
  co_evicted :: nat

definition estimate_chars :: "message list \<Rightarrow> nat" where
  "estimate_chars ms = sum_list (map (\<lambda>m. length (m_content m) + length (m_role m) + 16) ms)"

function split_from :: "message list \<Rightarrow> nat \<Rightarrow> nat" where
  "split_from ms split =
     (if split < length ms \<and> is_tool_result (ms ! split) then split_from ms (Suc split) else split)"
  by pat_completeness auto
termination
  by (relation "measure (\<lambda>(ms, split). length ms - split)") auto

declare split_from.simps [simp del]

definition safe_split :: "message list \<Rightarrow> nat" where
  "safe_split ms =
     (let keep = max (length ms div 3) 4;
          split = split_from ms (length ms - keep)
      in if split \<ge> length ms then length ms else split)"

definition compressed_head :: "tiered_summary \<Rightarrow> message" where
  "compressed_head s =
     message_text (lit ''system'')
       (lit ''<compressed_history>'' @ nl @ active s @ nl @ lit ''</compressed_history>'')"

definition compress_with_budget ::
    "(message list \<Rightarrow> ustr option) \<Rightarrow> message list \<Rightarrow> tiered_summary \<Rightarrow> u32 \<Rightarrow> compression_outcome" where
  "compress_with_budget summarize messages summary window_tokens =
     (let (messages, evicted) = evict_tool_results messages TOOL_RESULT_CHAR_BUDGET;
          unchanged = \<lparr>co_messages = messages, co_summary = summary, co_skipped = True, co_evicted = evicted\<rparr>
      in if estimate_chars messages < compress_threshold_chars window_tokens then unchanged
         else (let split = safe_split messages
               in if split = 0 then unchanged
                  else case summarize (take split messages) of
                    Some text \<Rightarrow>
                      if trim text \<noteq> [] then
                        (let summary = absorb text summary;
                             head = (if active summary \<noteq> [] then [compressed_head summary] else [])
                         in \<lparr>co_messages = head @ drop split messages, co_summary = summary,
                             co_skipped = False, co_evicted = evicted\<rparr>)
                      else unchanged
                  | None \<Rightarrow> unchanged))"

definition compress :: "(message list \<Rightarrow> ustr option) \<Rightarrow> message list \<Rightarrow> tiered_summary \<Rightarrow> compression_outcome" where
  "compress summarize messages summary = compress_with_budget summarize messages summary 0"

section \<open>Eviction\<close>

definition same_but_content :: "message \<Rightarrow> message \<Rightarrow> bool" where
  "same_but_content m m' \<longleftrightarrow>
     m' = m \<or> (is_tool_result m \<and> m' = m\<lparr>m_content := elided (length (m_content m))\<rparr> \<and>
               length (m_content m') < length (m_content m))"

lemma same_refl [simp]: "same_but_content m m"
  by (simp add: same_but_content_def)

lemma same_list_refl [simp]: "list_all2 same_but_content xs xs"
  by (simp add: list_all2_same)

lemma evict_loop_rel: "list_all2 same_but_content ms (fst (evict_loop budget remaining e ms))"
proof (induction ms arbitrary: remaining e)
  case (Cons m ms)
  have el: "is_tool_result m \<Longrightarrow> length (elided (length (m_content m))) < length (m_content m) \<Longrightarrow>
      same_but_content m (m\<lparr>m_content := elided (length (m_content m))\<rparr>)"
    by (simp add: same_but_content_def)
  show ?case
    using Cons.IH el by (auto simp: Let_def split_beta not_le)
qed simp

lemma evict_rel: "list_all2 same_but_content ms (fst (evict_tool_results ms budget))"
  by (simp add: evict_tool_results_def Let_def evict_loop_rel)

lemma tool_chars_Nil [simp]: "tool_chars [] = 0"
  by (simp add: tool_chars_def)

lemma tool_chars_Cons:
  "tool_chars (m # ms) = (if is_tool_result m then length (m_content m) else 0) + tool_chars ms"
  by (simp add: tool_chars_def)

lemma is_tool_result_update [simp]: "is_tool_result (m\<lparr>m_content := c\<rparr>) = is_tool_result m"
  by (simp add: is_tool_result_def is_role_def)

text \<open>With \<open>remaining\<close> the true total, the loop ends under budget or with every tool result small.\<close>

definition cannot_shrink :: "message \<Rightarrow> bool" where
  "cannot_shrink m \<longleftrightarrow> \<not> is_tool_result m \<or> length (m_content m) \<le> length (elided (length (m_content m)))
     \<or> (\<exists>n. m_content m = elided n)"

lemma evict_loop_budget:
  "remaining = acc + tool_chars ms \<Longrightarrow>
     acc + tool_chars (fst (evict_loop budget remaining e ms)) \<le> budget \<or>
     list_all cannot_shrink (fst (evict_loop budget remaining e ms))"
proof (induction ms arbitrary: acc remaining e)
  case (Cons m ms)
  let ?p = "elided (length (m_content m))" and ?n = "length (m_content m)"
  let ?IH = "\<lambda>acc rem e. acc + tool_chars (fst (evict_loop budget rem e ms)) \<le> budget \<or>
     list_all cannot_shrink (fst (evict_loop budget rem e ms))"
  consider "remaining \<le> budget" | "remaining > budget" "\<not> is_tool_result m"
    | "remaining > budget" "is_tool_result m" "?n \<le> length ?p"
    | "remaining > budget" "is_tool_result m" "length ?p < ?n" by linarith
  then show ?case
  proof cases
    case 1
    with Cons.prems show ?thesis by simp
  next
    case 2
    then have "?IH acc remaining e" using Cons.IH [of remaining acc e] Cons.prems
      by (simp add: tool_chars_Cons)
    moreover from 2 have "cannot_shrink m" by (simp add: cannot_shrink_def)
    ultimately show ?thesis using 2 by (auto simp: tool_chars_Cons split_beta)
  next
    case 3
    then have "?IH (acc + ?n) remaining e" using Cons.IH [of remaining "acc + ?n" e] Cons.prems
      by (simp add: tool_chars_Cons)
    moreover from 3 have "cannot_shrink m" by (simp add: cannot_shrink_def)
    ultimately show ?thesis using 3 by (auto simp: Let_def tool_chars_Cons split_beta)
  next
    case 4
    let ?rem = "remaining - ?n + length ?p"
    have "?IH (acc + length ?p) ?rem (e + 1)"
      using Cons.IH [of ?rem "acc + length ?p" "e + 1"] Cons.prems 4
      by (simp add: tool_chars_Cons)
    moreover have "cannot_shrink (m\<lparr>m_content := ?p\<rparr>)" by (auto simp: cannot_shrink_def)
    ultimately show ?thesis using 4 by (auto simp: Let_def tool_chars_Cons split_beta)
  qed
qed simp

text \<open>
  Eviction keeps the message list paired: it never adds, drops or reorders a message
  and only replaces the body of a tool result by a strictly shorter pointer; and it ends within
  the budget or with no tool result left that a pointer would shorten.
\<close>

theorem evict_tool_results_ok:
  "list_all2 same_but_content ms (fst (evict_tool_results ms budget)) \<and>
   (tool_chars (fst (evict_tool_results ms budget)) \<le> budget \<or>
    list_all cannot_shrink (fst (evict_tool_results ms budget)))"
  using evict_loop_budget [of "tool_chars ms" 0 ms budget 0]
  by (simp add: evict_rel) (simp add: evict_tool_results_def Let_def)

section \<open>The summary stays bounded\<close>

lemma trim_rows_keep_last: "trim_rows rows = keep_last ARCHIVE_ROW_LIMIT rows"
proof (induction rows rule: trim_rows.induct)
  case (1 rows)
  show ?case
  proof (cases "length rows > ARCHIVE_ROW_LIMIT")
    case True
    then obtain r rs where rows: "rows = r # rs" by (cases rows) auto
    with True have "keep_last ARCHIVE_ROW_LIMIT rows = keep_last ARCHIVE_ROW_LIMIT rs"
      by (simp add: keep_last_def Suc_diff_le)
    with True rows 1 show ?thesis by (simp add: trim_rows.simps [of "r # rs"])
  next
    case False
    then show ?thesis by (simp add: trim_rows.simps [of rows])
  qed
qed

definition overflows :: "ustr \<Rightarrow> tiered_summary \<Rightarrow> bool" where
  "overflows text s \<longleftrightarrow>
     length ((if active s \<noteq> [] then active s @ nl @ nl else []) @ trim text) > ACTIVE_SUMMARY_CHAR_BUDGET"

definition archived :: "ustr \<Rightarrow> tiered_summary \<Rightarrow> ustr list" where
  "archived text s = (if overflows text s \<and> active s \<noteq> [] then [active s] else [])"

lemma archive_absorb:
  "length (archive s) \<le> ARCHIVE_ROW_LIMIT \<Longrightarrow>
     archive (absorb text s) = keep_last ARCHIVE_ROW_LIMIT (archive s @ archived text s)"
  by (auto simp: absorb_def archived_def overflows_def Let_def trim_rows_keep_last)

interpretation summary_archive: bounded_history archive absorb archived ARCHIVE_ROW_LIMIT
  by unfold_locales (rule archive_absorb)

lemma run_absorb: "summary_archive.run ts s = fold absorb ts s"
  by (induction ts arbitrary: s) simp_all

lemma active_absorb: "length (active (absorb text s)) \<le> ACTIVE_SUMMARY_CHAR_BUDGET"
  by (simp add: absorb_def Let_def)

lemma length_concat_rows:
  "list_all (\<lambda>r. length r \<le> n) rows \<Longrightarrow> length (concat (map (\<lambda>r. r @ nl @ nl) rows)) \<le> length rows * (n + 2)"
  by (induction rows) (auto simp: nl_def)

definition summary_ok :: "tiered_summary \<Rightarrow> bool" where
  "summary_ok s \<longleftrightarrow>
     length (active s) \<le> ACTIVE_SUMMARY_CHAR_BUDGET \<and>
     length (archive s) \<le> ARCHIVE_ROW_LIMIT \<and>
     list_all (\<lambda>r. length r \<le> ACTIVE_SUMMARY_CHAR_BUDGET) (archive s)"

lemma summary_ok_absorb: "summary_ok s \<Longrightarrow> summary_ok (absorb text s)"
  by (auto simp: summary_ok_def active_absorb archive_absorb archived_def list_all_iff
      dest!: set_keep_last)

lemma summary_ok_run: "summary_ok s \<Longrightarrow> summary_ok (fold absorb ts s)"
  by (induction ts arbitrary: s) (simp_all add: summary_ok_absorb)

lemma summary_ok_new: "summary_ok tiered_new"
  by (simp add: summary_ok_def tiered_new_def)

lemma summary_ok_chars: "summary_ok s \<Longrightarrow> summary_char_count s \<le> 52024"
proof -
  assume ok: "summary_ok s"
  then have "length (concat (map (\<lambda>r. r @ nl @ nl) (archive s))) \<le> length (archive s) * (4000 + 2)"
    by (intro length_concat_rows) (simp add: summary_ok_def ACTIVE_SUMMARY_CHAR_BUDGET_def)
  also have "\<dots> \<le> 12 * 4002"
    using ok by (simp add: summary_ok_def ARCHIVE_ROW_LIMIT_def)
  finally show ?thesis
    using ok by (simp add: summary_char_count_def render_summary_def summary_ok_def
        ACTIVE_SUMMARY_CHAR_BUDGET_def)
qed

text \<open>
  However many summaries a run absorbs, the archive holds exactly the last twelve
  rows pushed out of the active slot, the active summary keeps its character budget, and the whole
  rendered summary stays below a fixed size.
\<close>

theorem absorb_bounded:
  "archive (fold absorb texts tiered_new) =
     keep_last ARCHIVE_ROW_LIMIT (summary_archive.pushed texts tiered_new) \<and>
   length (active (fold absorb texts tiered_new)) \<le> ACTIVE_SUMMARY_CHAR_BUDGET \<and>
   summary_char_count (fold absorb texts tiered_new) \<le> 52024"
proof (intro conjI)
  have "archive (summary_archive.run texts tiered_new) =
      keep_last ARCHIVE_ROW_LIMIT (archive tiered_new @ summary_archive.pushed texts tiered_new)"
    by (rule summary_archive.entries_run) (simp add: tiered_new_def)
  then show "archive (fold absorb texts tiered_new) =
      keep_last ARCHIVE_ROW_LIMIT (summary_archive.pushed texts tiered_new)"
    by (simp add: run_absorb tiered_new_def)
qed (use summary_ok_run [OF summary_ok_new, of texts] in \<open>simp_all add: summary_ok_def summary_ok_chars\<close>)

section \<open>Compression keeps the transcript valid\<close>

lemma split_from_spec:
  "split \<le> split_from ms split \<and>
   (\<forall>i. split \<le> i \<and> i < split_from ms split \<longrightarrow> i < length ms \<and> is_tool_result (ms ! i)) \<and>
   (split_from ms split < length ms \<longrightarrow> \<not> is_tool_result (ms ! split_from ms split))"
proof (induction ms split rule: split_from.induct)
  case (1 ms split)
  show ?case
  proof (cases "split < length ms \<and> is_tool_result (ms ! split)")
    case True
    then have "split_from ms split = split_from ms (Suc split)"
      by (simp add: split_from.simps [of ms split])
    with 1 [OF True] True show ?thesis by (metis Suc_leD not_less_eq_eq le_antisym)
  next
    case False
    have "split_from ms split = split"
      by (subst split_from.simps) (rule if_not_P [OF False])
    with False show ?thesis by auto
  qed
qed

lemma safe_split_le: "safe_split ms \<le> length ms"
  by (simp add: safe_split_def Let_def)

lemma safe_split_not_tool: "safe_split ms < length ms \<Longrightarrow> \<not> is_tool_result (ms ! safe_split ms)"
  using split_from_spec [where ms = ms] by (auto simp: safe_split_def Let_def split: if_splits)

text \<open>A list is paired when every tool result in it still answers a call of the list.\<close>

definition paired :: "message list \<Rightarrow> bool" where
  "paired ms \<longleftrightarrow> list_all (\<lambda>i. kept (take i ms) (ms ! i)) [0..<length ms]"

lemma paired_iff: "paired ms \<longleftrightarrow> (\<forall>pre m post. ms = pre @ m # post \<longrightarrow> kept pre m)"
proof
  assume p: "paired ms"
  show "\<forall>pre m post. ms = pre @ m # post \<longrightarrow> kept pre m"
  proof (intro allI impI)
    fix pre m post assume "ms = pre @ m # post"
    then have *: "length pre < length ms" "take (length pre) ms = pre" "ms ! length pre = m" by auto
    then have "kept (take (length pre) ms) (ms ! length pre)"
      using p unfolding paired_def list_all_iff by (metis atLeastLessThan_iff le0 set_upt)
    with * show "kept pre m" by simp
  qed
next
  assume a: "\<forall>pre m post. ms = pre @ m # post \<longrightarrow> kept pre m"
  show "paired ms"
    unfolding paired_def list_all_iff
    using a id_take_nth_drop by (metis atLeastLessThan_iff set_upt)
qed

lemma last_turn_append:
  "last_turn (a @ b) = (case last_turn b of Some t \<Rightarrow> Some t | None \<Rightarrow> last_turn a)"
  by (induction a) (auto split: option.splits)

lemma last_turn_ne: "x \<in> set ms \<Longrightarrow> \<not> transparent x \<Longrightarrow> last_turn ms \<noteq> None"
  by (induction ms) (auto split: option.splits)

lemma kept_append: "last_turn pre \<noteq> None \<Longrightarrow> kept (a @ pre) m = kept (b @ pre) m"
  by (auto simp: kept_def last_turn_append split: option.splits)

text \<open>
  Dropping a prefix keeps the list paired when no tool result comes before the first ordinary turn
  of what is left.
\<close>

lemma paired_cut:
  assumes "paired (old @ tail)" and "list_all (\<lambda>m. \<not> is_tool_result m) (takeWhile transparent tail)"
    and "list_all (\<lambda>m. \<not> is_tool_result m) new"
  shows "paired (new @ tail)"
  unfolding paired_iff
proof (intro allI impI)
  fix pre m post assume eq: "new @ tail = pre @ m # post"
  show "kept pre m"
  proof (cases "is_tool_result m")
    case False
    then show ?thesis by (simp add: is_tool_result_def kept_role)
  next
    case tool: True
    with assms(3) eq obtain pre' where pre: "pre = new @ pre'" "tail = pre' @ m # post"
      by (auto simp: append_eq_append_conv2 append_eq_Cons_conv Cons_eq_append_conv list_all_iff)
    have "\<not> list_all transparent pre'"
    proof
      assume "list_all transparent pre'"
      then have "takeWhile transparent tail = pre' @ takeWhile transparent (m # post)"
        unfolding pre(2) by (subst takeWhile_append2) (auto simp: list_all_iff)
      moreover have "transparent m" using tool by (simp add: transparent_def is_tool_result_def)
      ultimately show False using assms(2) tool by simp
    qed
    then obtain x where "x \<in> set pre'" "\<not> transparent x" by (auto simp: list_all_iff)
    then have "last_turn pre' \<noteq> None" by (rule last_turn_ne)
    moreover have "kept (old @ pre') m" using assms(1) pre(2) by (auto simp: paired_iff)
    ultimately show ?thesis using pre(1) kept_append by blast
  qed
qed

text \<open>No system message stands directly before a tool result.\<close>

fun calls_adjacent :: "message list \<Rightarrow> bool" where
  "calls_adjacent (a # b # ms) \<longleftrightarrow>
     \<not> (is_role a ''system'' \<and> is_tool_result b) \<and> calls_adjacent (b # ms)"
| "calls_adjacent [a] = True"
| "calls_adjacent [] = True"

lemma calls_adjacent_prefix:
  "calls_adjacent tail \<Longrightarrow> (tail \<noteq> [] \<Longrightarrow> \<not> is_tool_result (hd tail)) \<Longrightarrow>
     list_all (\<lambda>m. \<not> is_tool_result m) (takeWhile transparent tail)"
proof (induction tail rule: calls_adjacent.induct)
  case (1 a b ms)
  then have "\<not> is_tool_result a" by simp
  moreover have "\<not> is_tool_result b" if "transparent a"
    using 1 that \<open>\<not> is_tool_result a\<close> by (auto simp: transparent_def is_tool_result_def)
  ultimately show ?case using 1 by auto
qed auto

lemma calls_adjacent_drop: "calls_adjacent ms \<Longrightarrow> calls_adjacent (drop n ms)"
proof (induction ms arbitrary: n rule: calls_adjacent.induct)
  case (1 a b ms)
  then show ?case by (cases n) auto
next
  case (2 v)
  then show ?case by (cases n) auto
qed simp

lemma same_but_content_frame:
  "same_but_content m m' \<Longrightarrow> m_role m' = m_role m \<and> m_tool_calls m' = m_tool_calls m \<and>
     m_tool_call_id m' = m_tool_call_id m \<and> m_name m' = m_name m"
  by (auto simp: same_but_content_def)

lemma last_turn_rel:
  "list_all2 same_but_content ms ms' \<Longrightarrow> rel_option same_but_content (last_turn ms) (last_turn ms')"
  by (induction rule: list_all2_induct)
     (auto simp: transparent_def is_role_def dest: same_but_content_frame split: option.splits)

lemma kept_rel:
  assumes "list_all2 same_but_content pre pre'" and "same_but_content m m'"
  shows "kept pre' m' = kept pre m"
proof -
  have f: "is_role b r = is_role a r" "answers b ids names = answers a ids names"
      "m_tool_calls b = m_tool_calls a" if "same_but_content a b" for a b r ids names
    using same_but_content_frame [OF that] by (simp_all add: is_role_def answers_def)
  from assms(1) have "rel_option same_but_content (last_turn pre) (last_turn pre')"
    by (rule last_turn_rel)
  then consider "last_turn pre = None" "last_turn pre' = None"
    | a b where "last_turn pre = Some a" "last_turn pre' = Some b" "same_but_content a b"
    by (cases "last_turn pre"; cases "last_turn pre'") auto
  then show ?thesis
    by cases (simp_all add: kept_def f f [OF assms(2)])
qed

lemma paired_evict: "paired (fst (evict_tool_results ms budget)) = paired ms"
proof -
  let ?ms = "fst (evict_tool_results ms budget)"
  have r: "list_all2 same_but_content ms ?ms" by (rule evict_rel)
  then have "kept (take i ?ms) (?ms ! i) = kept (take i ms) (ms ! i)" if "i < length ms" for i
    using that by (intro kept_rel) (auto simp: list_all2_conv_all_nth)
  moreover have "length ?ms = length ms"
    using r by (simp add: list_all2_lengthD)
  ultimately show ?thesis by (simp add: paired_def list_all_iff)
qed

lemma roles_rel: "list_all2 same_but_content ms ms' \<Longrightarrow> map m_role ms' = map m_role ms"
  by (induction rule: list_all2_induct) (auto dest: same_but_content_frame)

lemma roles_evict: "map m_role (fst (evict_tool_results ms budget)) = map m_role ms"
  by (rule roles_rel [OF evict_rel])

lemma calls_adjacent_roles:
  "map m_role ms = map m_role ms' \<Longrightarrow> calls_adjacent ms = calls_adjacent ms'"
proof (induction ms arbitrary: ms' rule: calls_adjacent.induct)
  case (1 a b ms)
  then obtain a' b' ns where ms': "ms' = a' # b' # ns" by (auto simp: map_eq_Cons_conv Cons_eq_map_conv)
  moreover from 1 ms' have "calls_adjacent (b # ms) = calls_adjacent (b' # ns)" by simp
  ultimately show ?case using "1.prems" by (simp add: is_role_def is_tool_result_def)
next
  case (2 v)
  then show ?case by (auto simp: Cons_eq_map_conv)
qed auto

text \<open>What every transcript satisfies: paired, and no system message right before a tool result.\<close>

definition valid_transcript :: "message list \<Rightarrow> bool" where
  "valid_transcript ms \<longleftrightarrow> paired ms \<and> calls_adjacent ms"

lemma calls_adjacent_Cons:
  "calls_adjacent (a # ms) \<longleftrightarrow> calls_adjacent ms \<and> (ms = [] \<or> \<not> (is_role a ''system'' \<and> is_tool_result (hd ms)))"
  by (cases ms) auto

lemma calls_adjacent_append:
  "calls_adjacent xs \<Longrightarrow> calls_adjacent ys \<Longrightarrow>
     xs = [] \<or> ys = [] \<or> \<not> (is_role (last xs) ''system'' \<and> is_tool_result (hd ys)) \<Longrightarrow>
     calls_adjacent (xs @ ys)"
proof (induction xs)
  case (Cons x xs)
  then show ?case by (cases xs) (auto simp: calls_adjacent_Cons)
qed simp

lemma paired_append:
  "paired (ms @ [m]) \<longleftrightarrow> paired ms \<and> kept ms m"
proof -
  have "[0..<length (ms @ [m])] = [0..<length ms] @ [length ms]" by simp
  then show ?thesis
    unfolding paired_def by (auto simp: list_all_iff nth_append)
qed

lemma last_turn_transparent: "list_all transparent xs \<Longrightarrow> last_turn xs = None"
  by (induction xs) auto

lemma paired_hd_not_tool:
  assumes "paired (xs @ tail)" and "list_all transparent xs" and "tail \<noteq> []"
  shows "\<not> is_tool_result (hd tail)"
proof -
  have "kept xs (hd tail)" using assms(1,3) unfolding paired_iff by (metis list.collapse)
  with last_turn_transparent [OF assms(2)] show ?thesis
    by (auto simp: kept_def is_tool_result_def)
qed

lemma no_leading_tools:
  assumes "paired (xs @ tail)" and "list_all transparent xs" and "calls_adjacent tail"
  shows "list_all (\<lambda>m. \<not> is_tool_result m) (takeWhile transparent tail)"
  using assms(3) paired_hd_not_tool [OF assms(1,2)] by (rule calls_adjacent_prefix)

lemma valid_snoc: "valid_transcript ms \<Longrightarrow> \<not> is_tool_result m \<Longrightarrow> valid_transcript (ms @ [m])"
  by (auto simp: valid_transcript_def paired_append is_tool_result_def kept_role intro!: calls_adjacent_append)

lemma valid_head:
  assumes "valid_transcript ms" and "is_role h ''system''"
  shows "valid_transcript (h # ms)"
proof -
  have p: "paired ([] @ ms)" and c: "calls_adjacent ms" using assms(1) by (simp_all add: valid_transcript_def)
  have h: "\<not> is_tool_result h" using assms(2) by (simp add: is_tool_result_def is_role_def)
  have "paired ([h] @ ms)"
    using paired_cut [OF p no_leading_tools [OF p _ c], of "[h]"] h by simp
  moreover have "calls_adjacent (h # ms)"
    using c paired_hd_not_tool [OF p] by (auto simp: calls_adjacent_Cons)
  ultimately show ?thesis by (simp add: valid_transcript_def)
qed

lemma valid_strip_head:
  assumes "valid_transcript ms"
  shows "valid_transcript (strip_head ms)"
proof -
  let ?xs = "takeWhile is_head ms"
  have ms: "ms = ?xs @ strip_head ms" by (simp add: strip_head_def)
  have t: "list_all transparent ?xs"
    by (auto simp: list_all_iff transparent_def is_head_def dest: set_takeWhileD)
  have p: "paired (?xs @ strip_head ms)" using assms ms by (simp add: valid_transcript_def)
  have "strip_head ms = drop (length ?xs) ms" by (simp add: strip_head_def dropWhile_eq_drop)
  then have c: "calls_adjacent (strip_head ms)"
    using assms by (simp add: valid_transcript_def calls_adjacent_drop)
  from paired_cut [OF p no_leading_tools [OF p t c], of "[]"] c show ?thesis
    by (simp add: valid_transcript_def)
qed

lemma valid_evict: "valid_transcript (fst (evict_tool_results ms budget)) = valid_transcript ms"
  using calls_adjacent_roles [OF roles_evict] by (simp add: valid_transcript_def paired_evict)

lemma valid_tail:
  assumes "valid_transcript ms"
  shows "valid_transcript (drop (safe_split ms) ms)"
proof -
  let ?k = "safe_split ms"
  have p: "paired (take ?k ms @ drop ?k ms)" and c: "calls_adjacent (drop ?k ms)"
    using assms by (simp_all add: valid_transcript_def calls_adjacent_drop)
  have "\<not> is_tool_result (hd (drop ?k ms))" if "drop ?k ms \<noteq> []"
    using safe_split_not_tool [of ms] that by (simp add: hd_drop_conv_nth)
  then have "list_all (\<lambda>m. \<not> is_tool_result m) (takeWhile transparent (drop ?k ms))"
    using c by (intro calls_adjacent_prefix)
  from paired_cut [OF p this, of "[]"] c show ?thesis by (simp add: valid_transcript_def)
qed

lemma compressed_head_system: "is_role (compressed_head s) ''system''"
  by (simp add: compressed_head_def message_text_def is_role_def)

lemma valid_compress:
  assumes "valid_transcript ms"
  shows "valid_transcript (co_messages (compress_with_budget summarize ms s w))"
proof -
  let ?ms = "fst (evict_tool_results ms TOOL_RESULT_CHAR_BUDGET)"
  have v: "valid_transcript ?ms" using assms by (simp add: valid_evict)
  then show ?thesis
    using valid_tail [OF v] valid_head [OF valid_tail [OF v] compressed_head_system]
    by (auto simp: compress_with_budget_def Let_def split_beta split: option.splits)
qed

text \<open>
  C22 (invariant). Compression never orphans a tool result: when the conversation is paired and no
  system message stands right before a tool result, the list handed to the provider has both
  properties too.
\<close>

theorem compress_paired:
  assumes "paired ms" and "calls_adjacent ms"
  shows "paired (co_messages (compress_with_budget summarize ms s w)) \<and>
    calls_adjacent (co_messages (compress_with_budget summarize ms s w))"
  using valid_compress [of ms summarize s w] assms by (simp add: valid_transcript_def)

definition sample_history :: "message list" where
  "sample_history =
     (let call = \<lparr>tc_id = lit ''c1'', tc_kind = lit ''function'', tc_name = lit ''files'', tc_arguments = []\<rparr>
      in [message_text (lit ''user'') (replicate 16000 97),
          message_text (lit ''user'') (lit ''and''),
          assistant_with_tools (lit ''reading'') [call],
          tool_result call (lit ''text'') False,
          message_text (lit ''user'') (lit ''go on''),
          message_text (lit ''assistant'') (lit ''done''),
          message_text (lit ''user'') (lit ''again'')])"

lemmas sample_simps = sample_history_def message_text_def assistant_with_tools_def tool_result_def
  is_role_def is_tool_result_def

lemma sample_ok:
  "paired sample_history" "calls_adjacent sample_history"
  by (simp_all add: sample_simps Let_def paired_def kept_def upt_rec transparent_def answers_def)

lemma sample_compressed:
  "co_messages (compress_with_budget (\<lambda>_. Some (lit ''sum'')) sample_history tiered_new 2000) =
     compressed_head \<lparr>active = lit ''sum'', archive = []\<rparr> # drop 4 sample_history"
proof -
  have t: "trim (lit ''sum'') = lit ''sum''" by code_simp
  have tc: "tool_chars sample_history = 4"
    by (simp add: sample_simps Let_def tool_chars_def)
  have sp: "safe_split sample_history = 4"
    by (simp add: sample_simps Let_def safe_split_def split_from.simps)
  have es: "16000 \<le> estimate_chars sample_history"
    by (simp add: sample_simps Let_def estimate_chars_def)
  show ?thesis
    using es by (simp add: compress_with_budget_def evict_tool_results_def tc sp t Let_def absorb_def
        context_consts compress_threshold_chars_def tiered_new_def)
qed

theorem compress_paired_witness:
  "paired (compressed_head \<lparr>active = lit ''sum'', archive = []\<rparr> # drop 4 sample_history) \<and>
   calls_adjacent (compressed_head \<lparr>active = lit ''sum'', archive = []\<rparr> # drop 4 sample_history)"
  using compress_paired [OF sample_ok, of "\<lambda>_. Some (lit ''sum'')" tiered_new 2000]
  by (simp only: sample_compressed)

text \<open>
  A list that ends in four or more tool results has no turn to keep: the code then
  summarises everything and the request carries the summary alone.
\<close>

theorem safe_split_tool_tail:
  assumes "4 \<le> length ms" and "list_all is_tool_result (drop (length ms - max (length ms div 3) 4) ms)"
  shows "drop (safe_split ms) ms = []"
proof -
  let ?k = "length ms - max (length ms div 3) 4"
  have "\<not> split_from ms ?k < length ms"
  proof
    assume lt: "split_from ms ?k < length ms"
    have "?k \<le> split_from ms ?k" "\<not> is_tool_result (ms ! split_from ms ?k)"
      using split_from_spec [of ?k ms] lt by auto
    then have "\<not> is_tool_result (drop ?k ms ! (split_from ms ?k - ?k))"
      by simp
    moreover have "split_from ms ?k - ?k < length (drop ?k ms)"
      using lt \<open>?k \<le> split_from ms ?k\<close> by (metis diff_less_mono length_drop)
    ultimately show False using assms(2) by (simp add: list_all_length)
  qed
  then show ?thesis by (simp add: safe_split_def Let_def)
qed

theorem safe_split_tool_tail_witness:
  "drop (safe_split (replicate 5 (tool_result
      \<lparr>tc_id = [], tc_kind = [], tc_name = [], tc_arguments = []\<rparr> [] False))) (replicate 5 (tool_result
      \<lparr>tc_id = [], tc_kind = [], tc_name = [], tc_arguments = []\<rparr> [] False)) = []"
  by (rule safe_split_tool_tail) (simp_all add: list_all_iff sample_simps)

end
