(* ===== verification/Tool_Batch.thy ===== *)
theory Tool_Batch
  imports Tool_Gate Verification Run_Mode Context_Summary
begin

text \<open>
  The scheduling pass over the tool calls of one turn (\<open>runs/engine/execute.rs\<close>), which runs local
  reads in concurrent groups and everything else alone. What the outside decides is in the record
  \<open>sched_env\<close>: the cancellation flag as observed at each point, the answer of the staleness check,
  and the record \<open>dispatch_tool\<close> returned for each call.
\<close>

section \<open>Scheduling\<close>

definition MAX_CONCURRENT_READS :: nat where "MAX_CONCURRENT_READS = 4"

record sched_env =
  at_call :: "nat \<Rightarrow> bool"
  mid_call :: "nat \<Rightarrow> bool"
  at_chunk :: "nat \<Rightarrow> bool"
  lost :: "nat \<Rightarrow> bool"
  stale :: "nat \<Rightarrow> ustr option"
  outcome :: "nat \<Rightarrow> tool_record"

text \<open>
  \<open>s_groups\<close> lists the calls handed to \<open>dispatch_tool\<close>, a group being what is in flight together;
  \<open>s_snapshots\<close> the paths captured for undo.
\<close>

record sched =
  s_total :: u32
  s_detector :: detector
  s_signals :: "turn_signal list"
  s_results :: "tool_record option list"
  s_destructive :: "ustr option list"
  s_pending :: "nat list"
  s_groups :: "nat list list"
  s_snapshots :: "ustr list list"
  s_events :: "string list"

function chunks :: "nat \<Rightarrow> 'a list \<Rightarrow> 'a list list" where
  "chunks n xs = (if xs = [] \<or> n = 0 then [] else take n xs # chunks n (drop n xs))"
  by pat_completeness auto
termination
  by (relation "measure (\<lambda>(n, xs). length xs)") auto

declare chunks.simps [simp del]

lemma chunks_small [simp]: "chunks n [] = []" "0 < n \<Longrightarrow> chunks n [x] = [[x]]"
  by (simp_all add: chunks.simps [of n "[]"] chunks.simps [of n "[x]"] chunks.simps [of n "drop n [x]"])

definition store_results :: "sched_env \<Rightarrow> nat list \<Rightarrow> sched \<Rightarrow> sched" where
  "store_results env is st =
     fold (\<lambda>i st. if lost env i then st
            else st\<lparr>s_results := (s_results st)[i := Some (outcome env i)]\<rparr>) is st"

fun flush_chunks :: "sched_env \<Rightarrow> nat list list \<Rightarrow> sched \<Rightarrow> sched" where
  "flush_chunks env [] st = st"
| "flush_chunks env (c # cs) st =
     (if at_chunk env (hd c) then st
      else flush_chunks env cs (store_results env c (st\<lparr>s_groups := s_groups st @ [c]\<rparr>)))"

definition flush_concurrent_reads :: "sched_env \<Rightarrow> sched \<Rightarrow> sched" where
  "flush_concurrent_reads env st =
     flush_chunks env (chunks MAX_CONCURRENT_READS (s_pending st)) (st\<lparr>s_pending := []\<rparr>)"

definition put_result :: "nat \<Rightarrow> tool_record \<times> string list \<Rightarrow> sched \<Rightarrow> sched" where
  "put_result i r st =
     st\<lparr>s_results := (s_results st)[i := Some (fst r)], s_events := s_events st @ snd r\<rparr>"

definition plan_refusal :: ustr where
  "plan_refusal = lit ''plan mode is read-only; describe the change and present it with `user_plan` instead of making it''"

text \<open>The bookkeeping every call gets before anything can refuse it.\<close>

definition note_call :: "(json \<Rightarrow> ustr) \<Rightarrow> bool \<Rightarrow> nat \<Rightarrow> tool_call \<Rightarrow> json \<Rightarrow> sched \<Rightarrow> sched" where
  "note_call show_json strict i call args st =
     (let st = st\<lparr>s_total := s_total st + 1\<rparr>;
          st = (if is_read_only (tc_name call) args then
                  (let (seen, d) = note_read (s_detector st) (read_key show_json (tc_name call) args)
                   in st\<lparr>s_detector := d,
                         s_signals := s_signals st @ (if seen then [RepeatedRead] else [])\<rparr>)
                else st);
          effect = destructive_reason (tc_name call) args;
          st = st\<lparr>s_destructive := (s_destructive st)[i := effect]\<rparr>
      in if strict \<and> effect \<noteq> None then st\<lparr>s_events := s_events st @ [''destructive_tool_called'']\<rparr> else st)"

definition schedule_call ::
    "(json \<Rightarrow> ustr) \<Rightarrow> sched_env \<Rightarrow> bool \<Rightarrow> bool \<Rightarrow> nat \<Rightarrow> tool_call \<Rightarrow> json \<Rightarrow> sched \<Rightarrow> bool \<times> sched" where
  "schedule_call show_json env strict read_only_mode i call args st =
     (if at_call env i then (True, st)
      else (let st = note_call show_json strict i call args st
            in if read_only_mode \<and> is_mutating (tc_name call) args then
                 (False, put_result i (deny_tool (blank_record call args) plan_refusal) st)
               else case stale env i of
                 Some reason \<Rightarrow> (False, put_result i (fail_tool (blank_record call args) reason) st)
               | None \<Rightarrow>
                   (let paths = mutated_paths (tc_name call) args;
                        st = (if paths \<noteq> [] then st\<lparr>s_snapshots := s_snapshots st @ [paths]\<rparr> else st)
                    in if can_run_concurrently (tc_name call) args then
                         (False, st\<lparr>s_pending := s_pending st @ [i]\<rparr>)
                       else (let st = flush_concurrent_reads env st
                             in if mid_call env i then (True, st\<lparr>s_groups := s_groups st @ [[i]]\<rparr>)
                                else (False, st\<lparr>s_groups := s_groups st @ [[i]],
                                                s_results := (s_results st)[i := Some (outcome env i)]\<rparr>)))))"

fun schedule_loop ::
    "(json \<Rightarrow> ustr) \<Rightarrow> sched_env \<Rightarrow> bool \<Rightarrow> bool \<Rightarrow> nat \<Rightarrow> (tool_call \<times> json) list \<Rightarrow> sched \<Rightarrow> sched" where
  "schedule_loop show_json env strict ro i [] st = st"
| "schedule_loop show_json env strict ro i ((call, args) # cs) st =
     (let (stop, st') = schedule_call show_json env strict ro i call args st
      in if stop then st' else schedule_loop show_json env strict ro (Suc i) cs st')"

definition sched_new :: "u32 \<Rightarrow> detector \<Rightarrow> turn_signal list \<Rightarrow> nat \<Rightarrow> sched" where
  "sched_new count d signals n =
     \<lparr>s_total = count, s_detector = d, s_signals = signals, s_results = replicate n None,
      s_destructive = replicate n None, s_pending = [], s_groups = [], s_snapshots = [], s_events = []\<rparr>"

definition schedule ::
    "(json \<Rightarrow> ustr) \<Rightarrow> sched_env \<Rightarrow> bool \<Rightarrow> bool \<Rightarrow> (tool_call \<times> json) list \<Rightarrow> u32 \<Rightarrow> detector \<Rightarrow> turn_signal list \<Rightarrow> sched" where
  "schedule show_json env strict ro calls count d signals =
     flush_concurrent_reads env
       (schedule_loop show_json env strict ro 0 calls (sched_new count d signals (length calls)))"

section \<open>Ordering and isolation of dispatches\<close>

abbreviation call_name :: "(tool_call \<times> json) list \<Rightarrow> nat \<Rightarrow> ustr" where
  "call_name calls i \<equiv> tc_name (fst (calls ! i))"

abbreviation call_args :: "(tool_call \<times> json) list \<Rightarrow> nat \<Rightarrow> json" where
  "call_args calls i \<equiv> snd (calls ! i)"

definition concurrent_at :: "(tool_call \<times> json) list \<Rightarrow> nat \<Rightarrow> bool" where
  "concurrent_at calls i \<longleftrightarrow> can_run_concurrently (call_name calls i) (call_args calls i)"

definition mutating_at :: "(tool_call \<times> json) list \<Rightarrow> nat \<Rightarrow> bool" where
  "mutating_at calls i \<longleftrightarrow> is_mutating (call_name calls i) (call_args calls i)"

definition group_ok :: "(tool_call \<times> json) list \<Rightarrow> nat list \<Rightarrow> bool" where
  "group_ok calls g \<longleftrightarrow> g \<noteq> [] \<and> (length g = 1 \<or> length g \<le> MAX_CONCURRENT_READS \<and> list_all (concurrent_at calls) g)"

text \<open>What holds of the schedule once the first \<open>n\<close> calls have been passed.\<close>

definition sched_ok :: "(tool_call \<times> json) list \<Rightarrow> bool \<Rightarrow> nat \<Rightarrow> sched \<Rightarrow> bool" where
  "sched_ok calls ro n st \<longleftrightarrow>
     list_all (group_ok calls) (s_groups st) \<and>
     sorted_wrt (<) (concat (s_groups st) @ s_pending st) \<and>
     list_all (\<lambda>i. i < n) (concat (s_groups st) @ s_pending st) \<and>
     list_all (concurrent_at calls) (s_pending st) \<and>
     (ro \<longrightarrow> list_all (\<lambda>i. \<not> mutating_at calls i) (concat (s_groups st) @ s_pending st)) \<and>
     length (s_results st) = length calls"

lemma store_results_frame [simp]:
  "s_groups (store_results env is st) = s_groups st"
  "s_pending (store_results env is st) = s_pending st"
  "length (s_results (store_results env is st)) = length (s_results st)"
  "s_destructive (store_results env is st) = s_destructive st"
  by (induction "is" arbitrary: st) (simp_all add: store_results_def)

lemma concat_chunks: "0 < n \<Longrightarrow> concat (chunks n xs) = xs"
proof (induction n xs rule: chunks.induct)
  case (1 n xs)
  then show ?case by (subst chunks.simps) auto
qed

lemma chunks_ok:
  "0 < n \<Longrightarrow> c \<in> set (chunks n xs) \<Longrightarrow> c \<noteq> [] \<and> length c \<le> n \<and> set c \<subseteq> set xs"
proof (induction n xs rule: chunks.induct)
  case (1 n xs)
  show ?case
  proof (cases "xs = []")
    case False
    with 1 have "c = take n xs \<or> c \<in> set (chunks n (drop n xs))"
      by (simp add: chunks.simps [of n xs])
    then show ?thesis
    proof
      assume "c = take n xs"
      with 1 False show ?thesis by (auto dest: in_set_takeD)
    next
      assume "c \<in> set (chunks n (drop n xs))"
      with 1 False have "c \<noteq> [] \<and> length c \<le> n \<and> set c \<subseteq> set (drop n xs)" by simp
      then show ?thesis by (auto dest: in_set_dropD)
    qed
  qed (use 1 in \<open>simp add: chunks.simps\<close>)
qed

lemma flush_chunks_groups:
  "\<exists>done. (\<exists>rest. cs = done @ rest) \<and> s_groups (flush_chunks env cs st) = s_groups st @ done \<and>
     s_pending (flush_chunks env cs st) = s_pending st \<and>
     length (s_results (flush_chunks env cs st)) = length (s_results st) \<and>
     s_destructive (flush_chunks env cs st) = s_destructive st"
proof (induction cs arbitrary: st)
  case (Cons c cs)
  show ?case
  proof (cases "at_chunk env (hd c)")
    case False
    let ?st = "store_results env c (st\<lparr>s_groups := s_groups st @ [c]\<rparr>)"
    from Cons.IH [of ?st] obtain dn rest where "cs = dn @ rest"
      "s_groups (flush_chunks env cs ?st) = s_groups st @ c # dn"
      "s_pending (flush_chunks env cs ?st) = s_pending st"
      "length (s_results (flush_chunks env cs ?st)) = length (s_results st)"
      "s_destructive (flush_chunks env cs ?st) = s_destructive st"
      by auto
    with False show ?thesis by (intro exI [of _ "c # dn"]) auto
  qed simp
qed simp

lemma flush_ok:
  assumes "sched_ok calls ro n st"
  shows "sched_ok calls ro n (flush_concurrent_reads env st)" and "s_pending (flush_concurrent_reads env st) = []"
    and "s_destructive (flush_concurrent_reads env st) = s_destructive st"
proof -
  let ?cs = "chunks MAX_CONCURRENT_READS (s_pending st)"
  let ?st = "flush_concurrent_reads env st"
  obtain dn rest where cs: "?cs = dn @ rest" and g: "s_groups ?st = s_groups st @ dn"
    and p: "s_pending ?st = []" "length (s_results ?st) = length (s_results st)"
      "s_destructive ?st = s_destructive st"
    using flush_chunks_groups [of ?cs env "st\<lparr>s_pending := []\<rparr>"]
    by (auto simp: flush_concurrent_reads_def)
  have "concat ?cs = s_pending st"
    by (rule concat_chunks) (simp add: MAX_CONCURRENT_READS_def)
  then have pend: "s_pending st = concat dn @ concat rest" by (simp add: cs)
  have "group_ok calls c" if "c \<in> set dn" for c
  proof -
    have "c \<in> set ?cs" using that cs by simp
    then have "c \<noteq> [] \<and> length c \<le> MAX_CONCURRENT_READS \<and> set c \<subseteq> set (s_pending st)"
      by (intro chunks_ok) (simp_all add: MAX_CONCURRENT_READS_def)
    with assms show ?thesis by (auto simp: group_ok_def sched_ok_def list_all_iff)
  qed
  moreover have o: "concat (s_groups st) @ s_pending st = (concat (s_groups st) @ concat dn) @ concat rest"
    by (simp add: pend)
  moreover have "sorted_wrt (<) ((concat (s_groups st) @ concat dn) @ concat rest)"
    using assms unfolding sched_ok_def o by blast
  then have "sorted_wrt (<) (concat (s_groups st) @ concat dn)"
    unfolding sorted_wrt_append [of _ "concat (s_groups st) @ concat dn"] by blast
  ultimately show "sched_ok calls ro n ?st"
    using assms unfolding sched_ok_def g p o by (auto simp: list_all_iff)
  show "s_pending ?st = []" "s_destructive ?st = s_destructive st" by (rule p)+
qed

lemma note_call_frame [simp]:
  "s_groups (note_call sj strict i call args st) = s_groups st"
  "s_pending (note_call sj strict i call args st) = s_pending st"
  "s_results (note_call sj strict i call args st) = s_results st"
  "s_destructive (note_call sj strict i call args st) =
     (s_destructive st)[i := destructive_reason (tc_name call) args]"
  by (simp_all add: note_call_def Let_def split_beta)

lemma put_result_frame [simp]:
  "s_groups (put_result i r st) = s_groups st" "s_pending (put_result i r st) = s_pending st"
  "length (s_results (put_result i r st)) = length (s_results st)"
  "s_destructive (put_result i r st) = s_destructive st"
  by (simp_all add: put_result_def)

lemma sched_ok_cong:
  "s_groups st' = s_groups st \<Longrightarrow> s_pending st' = s_pending st \<Longrightarrow>
     length (s_results st') = length (s_results st) \<Longrightarrow> sched_ok calls ro n st' = sched_ok calls ro n st"
  by (simp add: sched_ok_def)

lemma sched_ok_Suc: "sched_ok calls ro n st \<Longrightarrow> sched_ok calls ro (Suc n) st"
  by (auto simp: sched_ok_def list_all_iff less_SucI)

lemma sched_ok_pending:
  "sched_ok calls ro n st \<Longrightarrow> concurrent_at calls n \<Longrightarrow> (ro \<Longrightarrow> \<not> mutating_at calls n) \<Longrightarrow>
     sched_ok calls ro (Suc n) (st\<lparr>s_pending := s_pending st @ [n]\<rparr>)"
  by (auto simp: sched_ok_def list_all_iff sorted_wrt_append less_SucI)

lemma sched_ok_alone:
  "sched_ok calls ro n st \<Longrightarrow> s_pending st = [] \<Longrightarrow> (ro \<Longrightarrow> \<not> mutating_at calls n) \<Longrightarrow>
     s_groups st' = s_groups st @ [[n]] \<Longrightarrow> s_pending st' = [] \<Longrightarrow>
     length (s_results st') = length (s_results st) \<Longrightarrow> sched_ok calls ro (Suc n) st'"
  by (auto simp: sched_ok_def group_ok_def list_all_iff sorted_wrt_append less_SucI)

lemma schedule_call_ok:
  assumes "sched_ok calls ro n st" and "calls ! n = (call, args)"
  shows "sched_ok calls ro (Suc n) (snd (schedule_call sj env strict ro n call args st))"
proof -
  let ?st = "note_call sj strict n call args st"
  have ok: "sched_ok calls ro n ?st"
    by (rule sched_ok_cong [THEN iffD2, rotated 3, OF assms(1)]) simp_all
  let ?sn = "if mutated_paths (tc_name call) args \<noteq> []
    then ?st\<lparr>s_snapshots := s_snapshots ?st @ [mutated_paths (tc_name call) args]\<rparr> else ?st"
  have sn: "sched_ok calls ro n ?sn"
    using ok by (rule sched_ok_cong [THEN iffD2, rotated 3]) simp_all
  have put: "sched_ok calls ro (Suc n) (put_result i r ?st)" for i r
    by (rule sched_ok_cong [THEN iffD2, rotated 3, OF sched_ok_Suc [OF ok]]) simp_all
  have mut: "\<not> mutating_at calls n" if "\<not> is_mutating (tc_name call) args"
    using that assms(2) by (simp add: mutating_at_def)
  consider "at_call env n" | "\<not> at_call env n" "ro \<and> is_mutating (tc_name call) args"
    | r where "\<not> at_call env n" "\<not> (ro \<and> is_mutating (tc_name call) args)" "stale env n = Some r"
    | "\<not> at_call env n" "\<not> (ro \<and> is_mutating (tc_name call) args)" "stale env n = None"
      "can_run_concurrently (tc_name call) args"
    | "\<not> at_call env n" "\<not> (ro \<and> is_mutating (tc_name call) args)" "stale env n = None"
      "\<not> can_run_concurrently (tc_name call) args" by fastforce
  then show ?thesis
  proof cases
    case 1
    with assms(1) show ?thesis by (simp add: schedule_call_def sched_ok_Suc)
  next
    case 2
    then show ?thesis
      using put by (simp add: schedule_call_def Let_def)
  next
    case 3
    then show ?thesis
      using put by (auto simp: schedule_call_def Let_def)
  next
    case 4
    have "sched_ok calls ro (Suc n) (?sn\<lparr>s_pending := s_pending ?sn @ [n]\<rparr>)"
      using sn 4 mut assms(2) by (intro sched_ok_pending) (auto simp: concurrent_at_def)
    with 4 show ?thesis by (auto simp: schedule_call_def Let_def)
  next
    case 5
    let ?f = "flush_concurrent_reads env ?sn"
    have "snd (schedule_call sj env strict ro n call args st) =
        (if mid_call env n then ?f\<lparr>s_groups := s_groups ?f @ [[n]]\<rparr>
         else ?f\<lparr>s_groups := s_groups ?f @ [[n]], s_results := (s_results ?f)[n := Some (outcome env n)]\<rparr>)"
      using 5 by (auto simp: schedule_call_def Let_def)
    moreover note f = flush_ok(1) [OF sn, of env] flush_ok(2) [OF sn, of env]
    moreover have "ro \<Longrightarrow> \<not> mutating_at calls n" using 5 mut by blast
    ultimately show ?thesis
      using sched_ok_alone [OF f] by simp
  qed
qed

lemma schedule_loop_ok:
  "sched_ok calls ro n st \<Longrightarrow> drop n calls = cs \<Longrightarrow>
     \<exists>m. sched_ok calls ro m (schedule_loop sj env strict ro n cs st)"
proof (induction cs arbitrary: n st)
  case (Cons c cs)
  obtain call args where c: "c = (call, args)" by fastforce
  have "calls ! n = c"
    using Cons.prems(2) by (metis drop_eq_Nil hd_drop_conv_nth leI list.sel(1) list.distinct(1))
  then have ok: "sched_ok calls ro (Suc n) (snd (schedule_call sj env strict ro n call args st))"
    using schedule_call_ok [OF Cons.prems(1)] c by simp
  have "drop (Suc n) calls = cs"
    using Cons.prems(2) by (metis drop_Suc drop_tl list.sel(3) tl_drop)
  from Cons.IH [OF ok this] ok show ?case by (auto simp: c split_beta Let_def)
qed auto

text \<open>
  C21 (safety). Dispatch order is call order: calls start in the order the model made them, only
  local reads ever share a group and at most four of them, every other call is alone in flight, and
  in plan mode nothing that changes the workspace is dispatched at all.
\<close>

theorem schedule_safe:
  "list_all (group_ok calls) (s_groups (schedule sj env strict ro calls count d signals)) \<and>
   sorted_wrt (<) (concat (s_groups (schedule sj env strict ro calls count d signals))) \<and>
   \<not> (ro \<and> (\<exists>i \<in> set (concat (s_groups (schedule sj env strict ro calls count d signals))). mutating_at calls i)) \<and>
   length (s_results (schedule sj env strict ro calls count d signals)) = length calls"
proof -
  have "sched_ok calls ro 0 (sched_new count d signals (length calls))"
    by (simp add: sched_ok_def sched_new_def)
  from schedule_loop_ok [OF this, of calls sj env strict]
  obtain m where "sched_ok calls ro m (schedule_loop sj env strict ro 0 calls (sched_new count d signals (length calls)))"
    by auto
  from flush_ok(1,2) [OF this, of env] show ?thesis
    by (auto simp: schedule_def sched_ok_def list_all_iff)
qed

text \<open>Without a cancellation every call ends with a record.\<close>

definition undisturbed :: "sched_env \<Rightarrow> bool" where
  "undisturbed env \<longleftrightarrow> (\<forall>i. \<not> at_call env i \<and> \<not> mid_call env i \<and> \<not> at_chunk env i \<and> \<not> lost env i)"

definition answered :: "nat \<Rightarrow> sched \<Rightarrow> bool" where
  "answered i st \<longleftrightarrow> i \<in> set (s_pending st) \<or> s_results st ! i \<noteq> None"

definition all_answered :: "nat \<Rightarrow> sched \<Rightarrow> bool" where
  "all_answered n st \<longleftrightarrow> (\<forall>i<n. answered i st) \<and> (\<forall>i \<in> set (s_pending st). i < length (s_results st))"

lemma store_results_nth:
  "(\<And>i. \<not> lost env i) \<Longrightarrow> j < length (s_results st) \<Longrightarrow>
     s_results (store_results env is st) ! j = (if j \<in> set is then Some (outcome env j) else s_results st ! j)"
proof (induction "is" arbitrary: st)
  case (Cons i "is")
  let ?st = "st\<lparr>s_results := (s_results st)[i := Some (outcome env i)]\<rparr>"
  have "s_results (store_results env (i # is) st) ! j = s_results (store_results env is ?st) ! j"
    using Cons.prems(1) by (simp add: store_results_def)
  also have "\<dots> = (if j \<in> set is then Some (outcome env j) else s_results ?st ! j)"
    using Cons.prems by (intro Cons.IH) simp_all
  finally show ?case using Cons.prems(2) by (auto simp: nth_list_update)
qed (simp add: store_results_def)

lemma flush_chunks_nth:
  "undisturbed env \<Longrightarrow> j < length (s_results st) \<Longrightarrow>
     s_results (flush_chunks env cs st) ! j =
       (if j \<in> set (concat cs) then Some (outcome env j) else s_results st ! j)"
proof (induction cs arbitrary: st)
  case (Cons c cs)
  let ?st = "store_results env c (st\<lparr>s_groups := s_groups st @ [c]\<rparr>)"
  have "s_results (flush_chunks env (c # cs) st) ! j = s_results (flush_chunks env cs ?st) ! j"
    using Cons.prems(1) by (simp add: undisturbed_def)
  also have "\<dots> = (if j \<in> set (concat cs) then Some (outcome env j) else s_results ?st ! j)"
    using Cons.prems by (intro Cons.IH) simp_all
  finally show ?case using Cons.prems by (simp add: store_results_nth undisturbed_def)
qed simp

lemma flush_answered:
  assumes "undisturbed env" and "all_answered n st" and "n \<le> length (s_results st)"
  shows "\<forall>i<n. s_results (flush_concurrent_reads env st) ! i \<noteq> None"
    and "length (s_results (flush_concurrent_reads env st)) = length (s_results st)"
    and "s_pending (flush_concurrent_reads env st) = []"
proof -
  let ?cs = "chunks MAX_CONCURRENT_READS (s_pending st)"
  have c: "concat ?cs = s_pending st" by (rule concat_chunks) (simp add: MAX_CONCURRENT_READS_def)
  show "\<forall>i<n. s_results (flush_concurrent_reads env st) ! i \<noteq> None"
    using assms flush_chunks_nth [OF assms(1), of _ "st\<lparr>s_pending := []\<rparr>" ?cs]
    by (auto simp: flush_concurrent_reads_def c all_answered_def answered_def)
  show "length (s_results (flush_concurrent_reads env st)) = length (s_results st)"
    "s_pending (flush_concurrent_reads env st) = []"
    using flush_chunks_groups [of ?cs env "st\<lparr>s_pending := []\<rparr>"]
    by (auto simp: flush_concurrent_reads_def)
qed

lemma schedule_call_answered:
  assumes "undisturbed env" and "all_answered n st" and "n < length (s_results st)"
  shows "\<not> fst (schedule_call sj env strict ro n call args st) \<and>
    all_answered (Suc n) (snd (schedule_call sj env strict ro n call args st)) \<and>
    length (s_results (snd (schedule_call sj env strict ro n call args st))) = length (s_results st)"
proof -
  let ?st = "note_call sj strict n call args st"
  let ?sn = "if mutated_paths (tc_name call) args \<noteq> []
    then ?st\<lparr>s_snapshots := s_snapshots ?st @ [mutated_paths (tc_name call) args]\<rparr> else ?st"
  have st: "all_answered n ?st" "length (s_results ?st) = length (s_results st)"
    using assms(2) by (simp_all add: all_answered_def answered_def)
  have sn: "all_answered n ?sn" "length (s_results ?sn) = length (s_results st)"
    using st by (simp_all add: all_answered_def answered_def)
  have put: "all_answered (Suc n) (put_result n r ?st)" for r
    using st assms(3) by (auto simp: all_answered_def answered_def put_result_def less_Suc_eq nth_list_update)
  have pend: "all_answered (Suc n) (?sn\<lparr>s_pending := s_pending ?sn @ [n]\<rparr>)"
    using sn assms(3) by (auto simp: all_answered_def answered_def less_Suc_eq)
  let ?f = "flush_concurrent_reads env ?sn"
  have f: "\<forall>i<n. s_results ?f ! i \<noteq> None" "length (s_results ?f) = length (s_results st)" "s_pending ?f = []"
    using flush_answered [OF assms(1) sn(1)] sn(2) assms(3) by simp_all
  have alone: "all_answered (Suc n) (?f\<lparr>s_groups := s_groups ?f @ [[n]], s_results := (s_results ?f)[n := Some (outcome env n)]\<rparr>)"
    using f assms(3) by (auto simp: all_answered_def answered_def less_Suc_eq nth_list_update)
  have u: "\<not> at_call env n" "\<not> mid_call env n" using assms(1) by (simp_all add: undisturbed_def)
  show ?thesis
    using u put pend alone f(2) st(2) sn(2)
    by (simp add: schedule_call_def Let_def split: option.split)
qed

lemma schedule_loop_answered:
  "undisturbed env \<Longrightarrow> all_answered n st \<Longrightarrow> n + length cs = length (s_results st) \<Longrightarrow>
     all_answered (n + length cs) (schedule_loop sj env strict ro n cs st) \<and>
     length (s_results (schedule_loop sj env strict ro n cs st)) = length (s_results st)"
proof (induction cs arbitrary: n st)
  case (Cons c cs)
  obtain call args where c: "c = (call, args)" by fastforce
  have s: "\<not> fst (schedule_call sj env strict ro n call args st) \<and>
    all_answered (Suc n) (snd (schedule_call sj env strict ro n call args st)) \<and>
    length (s_results (snd (schedule_call sj env strict ro n call args st))) = length (s_results st)"
    using Cons.prems by (intro schedule_call_answered) simp_all
  then show ?case
    using Cons.IH [of "Suc n" "snd (schedule_call sj env strict ro n call args st)"] Cons.prems
    by (simp add: c split_beta Let_def)
qed simp

text \<open>
  A turn that is not cancelled leaves no call unanswered: after both flushes every
  call the model made has a record, whichever path it took.
\<close>

theorem schedule_complete:
  assumes "undisturbed env" and "i < length calls"
  shows "s_results (schedule sj env strict ro calls count d signals) ! i \<noteq> None"
proof -
  let ?s0 = "sched_new count d signals (length calls)"
  have "all_answered 0 ?s0" by (simp add: all_answered_def sched_new_def)
  from schedule_loop_answered [OF assms(1) this, of calls sj strict ro]
  have "all_answered (length calls) (schedule_loop sj env strict ro 0 calls ?s0)"
    "length (s_results (schedule_loop sj env strict ro 0 calls ?s0)) = length calls"
    by (simp_all add: sched_new_def)
  from flush_answered(1) [OF assms(1) this(1)] this(2) assms(2) show ?thesis
    by (simp add: schedule_def)
qed

definition calm_env :: sched_env where
  "calm_env =
     \<lparr>at_call = (\<lambda>_. False), mid_call = (\<lambda>_. False), at_chunk = (\<lambda>_. False), lost = (\<lambda>_. False),
      stale = (\<lambda>_. None), outcome = (\<lambda>_. blank_record \<lparr>tc_id = [], tc_kind = [], tc_name = [], tc_arguments = []\<rparr> JNull)\<rparr>"

definition grep_call :: tool_call where
  "grep_call = \<lparr>tc_id = lit ''c1'', tc_kind = lit ''function'', tc_name = lit ''grep'', tc_arguments = []\<rparr>"

theorem schedule_complete_witness:
  "s_results (schedule (\<lambda>_. []) calm_env True True (replicate 6 (grep_call, JNull)) 0 detector_new []) ! 5 \<noteq> None"
  by (rule schedule_complete) (simp_all add: undisturbed_def calm_env_def)

end
