(* ===== verification/Tool_Results.thy ===== *)
theory Tool_Results
  imports Tool_Batch
begin

text \<open>
  Post-processing of a turn's tool calls (\<open>runs/engine/execute.rs\<close>), in call order: what each result
  does to the verification ledger, the signals, the read fingerprints and the transcript; the two
  gates as histories of calls; and the transcript's validity after a tool turn.
\<close>

section \<open>Post-processing\<close>

text \<open>
  \<open>normalize\<close> is \<open>normalize_tool_path\<close> on the run's root, a file-system question; \<open>show_json\<close> the
  text of a JSON value.
\<close>

record post =
  p_ledger :: ledger
  p_signals :: "turn_signal list"
  p_all_calls :: "tool_record list"
  p_fingerprints :: "(ustr \<times> u64) list"
  p_plan_approved :: bool
  p_plan_handoff :: bool
  p_step_mutated :: bool
  p_messages :: "message list"

record post_env =
  normalize :: "ustr \<Rightarrow> ustr option"
  pe_show_json :: "json \<Rightarrow> ustr"
  pe_strict :: bool
  pe_mode :: mode

definition read_fingerprint :: "post_env \<Rightarrow> tool_call \<Rightarrow> json \<Rightarrow> tool_record \<Rightarrow> (ustr \<times> u64) option" where
  "read_fingerprint env call args r =
     (if r_error r = None \<and> tc_name call = lit ''files'' \<and> str_arg args ''action'' = Some (lit ''read'') then
        (case (str_arg args ''path'', Option.bind (Option.bind (r_result r) (\<lambda>v. jget v ''fingerprint'')) as_u64) of
           (Some path, Some fp) \<Rightarrow> if fp \<noteq> 0 then map_option (\<lambda>k. (k, fp)) (normalize env path) else None
         | _ \<Rightarrow> None)
      else None)"

text \<open>What a successful call does to the two gates.\<close>

definition ledger_call :: "bool \<Rightarrow> tool_call \<Rightarrow> json \<Rightarrow> bool \<Rightarrow> tool_record \<Rightarrow> ledger \<Rightarrow> ledger" where
  "ledger_call strict call args destructive r l =
     (let l = (if destructive then (if strict then snd (requires_confirmation (tc_name call) args l) else l)
               else confirm (tc_name call) args l);
          l = fold note_mutation (mutated_paths (tc_name call) args) l
      in if tc_name call = lit ''terminal'' then
           note_command (str_or args ''command'' [])
             (case Option.bind (r_result r) exit_code_of of Some code \<Rightarrow> code = 0 | None \<Rightarrow> False) l
         else l)"

definition result_text :: "(json \<Rightarrow> ustr) \<Rightarrow> tool_record \<Rightarrow> ustr" where
  "result_text show_json r =
     (case r_error r of
        Some err \<Rightarrow> lit ''Error: '' @ err
      | None \<Rightarrow> (case r_result r of Some v \<Rightarrow> show_json v | None \<Rightarrow> lit ''ok''))"

definition post_call ::
    "post_env \<Rightarrow> tool_call \<Rightarrow> json \<Rightarrow> ustr option \<Rightarrow> tool_record option \<Rightarrow> post \<Rightarrow> post" where
  "post_call env call args destructive result p =
     (case result of
        None \<Rightarrow> p\<lparr>p_messages := p_messages p @ [tool_result call (lit ''Error: run cancelled'') True]\<rparr>
      | Some r \<Rightarrow>
          (let is_error = (r_error r \<noteq> None);
               fps = (case read_fingerprint env call args r of
                  Some (k, fp) \<Rightarrow> AList.update k fp (p_fingerprints p) | None \<Rightarrow> p_fingerprints p);
               handoff = (pe_mode env = Plan \<and> tc_name call = lit ''user_plan'' \<and> \<not> is_error);
               l = (if is_error then p_ledger p
                    else ledger_call (pe_strict env) call args (destructive \<noteq> None) r (p_ledger p))
           in p\<lparr>p_all_calls := p_all_calls p @ [r],
                p_fingerprints := fps,
                p_plan_approved := p_plan_approved p \<or> handoff,
                p_plan_handoff := p_plan_handoff p \<or> handoff,
                p_ledger := l,
                p_step_mutated := p_step_mutated p \<or> (\<not> is_error \<and> mutated_paths (tc_name call) args \<noteq> []),
                p_signals := p_signals p @ [classify_tool_call (tc_name call) args is_error],
                p_messages := p_messages p @ [tool_result call (result_text (pe_show_json env) r) is_error]\<rparr>))"

fun post_loop ::
    "post_env \<Rightarrow> ((tool_call \<times> json) \<times> (ustr option \<times> tool_record option)) list \<Rightarrow> post \<Rightarrow> post" where
  "post_loop env [] p = p"
| "post_loop env (((call, args), (destructive, result)) # cs) p =
     post_loop env cs (post_call env call args destructive result p)"

text \<open>
  The two gates as histories. What a call that ran without error means to the confirming-read gate,
  and to the check gate; \<open>batch\_effects\<close> and \<open>batch\_checks\<close> list this for the calls of a turn,
  in call order.
\<close>

definition call_effects :: "(tool_call \<times> json) \<times> tool_record option \<Rightarrow> (ustr \<times> json) gate_event list" where
  "call_effects x =
     (case x of ((call, args), Some r) \<Rightarrow>
        if r_error r \<noteq> None then []
        else if destructive_reason (tc_name call) args \<noteq> None then [Arm (tc_name call, args)]
        else [Cover (tc_name call, args)]
      | _ \<Rightarrow> [])"

definition call_checks :: "(tool_call \<times> json) \<times> tool_record option \<Rightarrow> check_call list" where
  "call_checks x =
     (case x of ((call, args), Some r) \<Rightarrow>
        if r_error r \<noteq> None then []
        else map Changed (mutated_paths (tc_name call) args) @
          (if tc_name call = lit ''terminal'' then
             [Command (str_or args ''command'' [])
               (case Option.bind (r_result r) exit_code_of of Some code \<Rightarrow> code = 0 | None \<Rightarrow> False)]
           else [])
      | _ \<Rightarrow> [])"

definition batch_effects :: "(tool_call \<times> json) list \<Rightarrow> tool_record option list \<Rightarrow> (ustr \<times> json) gate_event list" where
  "batch_effects calls results = concat (map call_effects (zip calls results))"

definition batch_checks :: "(tool_call \<times> json) list \<Rightarrow> tool_record option list \<Rightarrow> check_call list" where
  "batch_checks calls results = concat (map call_checks (zip calls results))"

lemma ledger_frames [simp]:
  "open_keys (fold note_mutation ps l) = open_keys l"
  "verify_command (fold note_mutation ps l) = verify_command l"
  by (induction ps arbitrary: l) simp_all

lemma fold_changed: "fold note_mutation ps l = fold check_step (map Changed ps) l"
  by (induction ps arbitrary: l) simp_all

lemma ledger_call_keys:
  "open_keys (ledger_call True call args d r l) =
     open_keys (effect_step (if d then Arm (tc_name call, args) else Cover (tc_name call, args)) l)"
  by (simp add: ledger_call_def Let_def)

lemma ledger_call_checks:
  assumes "r_error r = None"
  shows "unverified_set (ledger_call strict call args d r l) =
      unverified_set (fold check_step (call_checks ((call, args), Some r)) l) \<and>
    verify_command (ledger_call strict call args d r l) =
      verify_command (fold check_step (call_checks ((call, args), Some r)) l)"
proof -
  let ?l = "if d then (if strict then snd (requires_confirmation (tc_name call) args l) else l)
               else confirm (tc_name call) args l"
  have l: "unverified_set ?l = unverified_set l" "verify_command ?l = verify_command l" by simp_all
  have e: "ledger_call strict call args d r l = fold check_step (call_checks ((call, args), Some r)) ?l"
    using assms by (auto simp: ledger_call_def call_checks_def Let_def fold_changed)
  show ?thesis unfolding e by (rule check_fold_cong [OF l])
qed

definition post_input ::
    "(tool_call \<times> json) list \<Rightarrow> sched \<Rightarrow> ((tool_call \<times> json) \<times> (ustr option \<times> tool_record option)) list" where
  "post_input calls s = zip calls (zip (s_destructive s) (s_results s))"

text \<open>The classification made while scheduling is the one of the call itself, for every call with a result.\<close>

definition classified :: "(tool_call \<times> json) \<times> (ustr option \<times> tool_record option) \<Rightarrow> bool" where
  "classified x \<longleftrightarrow>
     (case x of ((call, args), (d, res)) \<Rightarrow> res = None \<or> d = destructive_reason (tc_name call) args)"

lemma post_loop_keys:
  "pe_strict env \<Longrightarrow> list_all classified cs \<Longrightarrow>
     open_keys (p_ledger (post_loop env cs p)) =
       open_keys (fold effect_step (concat (map call_effects (map (\<lambda>(c, d, r). (c, r)) cs))) (p_ledger p))"
proof (induction cs arbitrary: p)
  case (Cons c cs)
  obtain call args d res where c: "c = ((call, args), (d, res))" by (metis surj_pair)
  let ?p = "post_call env call args d res p"
  have "open_keys (p_ledger ?p) = open_keys (fold effect_step (call_effects ((call, args), res)) (p_ledger p))"
    using Cons.prems c
    by (cases res) (auto simp: post_call_def call_effects_def classified_def Let_def ledger_call_keys simp del: effect_step.simps)
  then have "open_keys (fold effect_step es (p_ledger ?p)) =
      open_keys (fold effect_step es (fold effect_step (call_effects ((call, args), res)) (p_ledger p)))" for es
    by (rule open_keys_fold_cong)
  with Cons c show ?case by simp
qed simp

lemma post_loop_checks:
  "unverified_set (p_ledger (post_loop env cs p)) =
       unverified_set (fold check_step (concat (map call_checks (map (\<lambda>(c, d, r). (c, r)) cs))) (p_ledger p)) \<and>
   verify_command (p_ledger (post_loop env cs p)) =
       verify_command (fold check_step (concat (map call_checks (map (\<lambda>(c, d, r). (c, r)) cs))) (p_ledger p))"
proof (induction cs arbitrary: p)
  case (Cons c cs)
  obtain call args d res where c: "c = ((call, args), (d, res))" by (metis surj_pair)
  let ?p = "post_call env call args d res p"
  have "unverified_set (p_ledger ?p) = unverified_set (fold check_step (call_checks ((call, args), res)) (p_ledger p)) \<and>
      verify_command (p_ledger ?p) = verify_command (fold check_step (call_checks ((call, args), res)) (p_ledger p))"
  proof (cases res)
    case (Some r)
    then show ?thesis
      using ledger_call_checks [of r "pe_strict env" call args "d \<noteq> None" "p_ledger p"]
      by (cases "r_error r") (auto simp: post_call_def call_checks_def Let_def)
  qed (simp add: post_call_def call_checks_def)
  from check_fold_cong [OF this [THEN conjunct1] this [THEN conjunct2]] Cons.IH [of ?p] c show ?case by simp
qed simp

text \<open>
  What the schedule knows of the first \<open>n\<close> calls: their classification is on record, and the later
  ones have no result.
\<close>

definition traced :: "(tool_call \<times> json) list \<Rightarrow> nat \<Rightarrow> sched \<Rightarrow> bool" where
  "traced calls n st \<longleftrightarrow>
     length (s_results st) = length calls \<and> length (s_destructive st) = length calls \<and>
     (\<forall>i < length calls. i < n \<longrightarrow> s_destructive st ! i = destructive_reason (call_name calls i) (call_args calls i)) \<and>
     (\<forall>i < length calls. n \<le> i \<longrightarrow> s_results st ! i = None) \<and> (\<forall>i \<in> set (s_pending st). i < n)"

lemma store_results_other:
  "j \<notin> set is \<Longrightarrow> s_results (store_results env is st) ! j = s_results st ! j"
proof (induction "is" arbitrary: st)
  case (Cons i "is")
  then have "j \<noteq> i" "j \<notin> set is" by auto
  have "s_results (store_results env (i # is) st) ! j =
      s_results (store_results env is (if lost env i then st
            else st\<lparr>s_results := (s_results st)[i := Some (outcome env i)]\<rparr>)) ! j"
    by (simp add: store_results_def)
  also have "\<dots> = s_results st ! j"
    using Cons.IH [OF \<open>j \<notin> set is\<close>] \<open>j \<noteq> i\<close> by simp
  finally show ?case .
qed (simp add: store_results_def)

lemma flush_chunks_other:
  "j \<notin> set (concat cs) \<Longrightarrow> s_results (flush_chunks env cs st) ! j = s_results st ! j"
  by (induction env cs st rule: flush_chunks.induct) (auto simp: store_results_other)

lemma flush_frame:
  "s_pending (flush_concurrent_reads env st) = []"
  "length (s_results (flush_concurrent_reads env st)) = length (s_results st)"
  "s_destructive (flush_concurrent_reads env st) = s_destructive st"
  using flush_chunks_groups [of "chunks MAX_CONCURRENT_READS (s_pending st)" env "st\<lparr>s_pending := []\<rparr>"]
  by (auto simp: flush_concurrent_reads_def)

lemma flush_other:
  "j \<notin> set (s_pending st) \<Longrightarrow> s_results (flush_concurrent_reads env st) ! j = s_results st ! j"
  by (simp add: flush_concurrent_reads_def flush_chunks_other concat_chunks MAX_CONCURRENT_READS_def flip: set_concat)

lemma traced_flush:
  assumes "traced calls n st"
  shows "traced calls n (flush_concurrent_reads env st)"
proof -
  have "s_results (flush_concurrent_reads env st) ! i = s_results st ! i" if "n \<le> i" for i
    by (rule flush_other) (use assms that in \<open>auto simp: traced_def\<close>)
  with assms show ?thesis by (simp add: traced_def flush_frame)
qed

lemma traced_note:
  "traced calls n st \<Longrightarrow> n < length calls \<Longrightarrow> calls ! n = (call, args) \<Longrightarrow>
     traced calls (Suc n) (note_call sj strict n call args st)"
  by (auto simp: traced_def nth_list_update less_Suc_eq)

lemma traced_step:
  assumes "traced calls (Suc n) st" and "length (s_results st') = length (s_results st)"
    and "s_destructive st' = s_destructive st" and "\<forall>j > n. s_results st' ! j = s_results st ! j"
    and "set (s_pending st') \<subseteq> insert n (set (s_pending st))"
  shows "traced calls (Suc n) st'"
  using assms by (auto simp: traced_def)

lemma schedule_call_traced:
  assumes "traced calls n st" and "n < length calls" and "calls ! n = (call, args)"
  shows "traced calls (if at_call env n then n else Suc n) (snd (schedule_call sj env strict ro n call args st))"
proof -
  let ?st = "note_call sj strict n call args st"
  have t: "traced calls (Suc n) ?st" by (rule traced_note [OF assms])
  let ?sn = "if mutated_paths (tc_name call) args \<noteq> []
    then ?st\<lparr>s_snapshots := s_snapshots ?st @ [mutated_paths (tc_name call) args]\<rparr> else ?st"
  have sn: "traced calls (Suc n) ?sn" by (rule traced_step [OF t]) auto
  have put: "traced calls (Suc n) (put_result n r ?st)" for r
    by (rule traced_step [OF t]) (auto simp: put_result_def)
  have pend: "traced calls (Suc n) (?sn\<lparr>s_pending := s_pending ?sn @ [n]\<rparr>)"
    by (rule traced_step [OF sn]) auto
  let ?f = "flush_concurrent_reads env ?sn"
  have f: "traced calls (Suc n) ?f" by (rule traced_flush [OF sn])
  have stop: "traced calls (Suc n) (?f\<lparr>s_groups := gs\<rparr>)" for gs
    by (rule traced_step [OF f]) auto
  have alone: "traced calls (Suc n) (?f\<lparr>s_groups := gs, s_results := (s_results ?f)[n := r]\<rparr>)" for gs r
    by (rule traced_step [OF f]) auto
  show ?thesis
    using assms(1) put pend stop alone by (simp add: schedule_call_def Let_def split: option.split)
qed

lemma schedule_loop_traced:
  "traced calls n st \<Longrightarrow> drop n calls = cs \<Longrightarrow>
     \<exists>m. traced calls m (schedule_loop sj env strict ro n cs st)"
proof (induction cs arbitrary: n st)
  case (Cons c cs)
  obtain call args where c: "c = (call, args)" by fastforce
  have n: "n < length calls" "calls ! n = (call, args)" "drop (Suc n) calls = cs"
    using Cons.prems(2) c
    by (metis drop_eq_Nil leI list.distinct(1), metis hd_drop_conv_nth drop_eq_Nil leI list.distinct(1) list.sel(1),
        metis drop_Suc drop_tl list.sel(3))
  note t = schedule_call_traced [OF Cons.prems(1) n(1,2), of env sj strict ro]
  show ?case
  proof (cases "fst (schedule_call sj env strict ro n call args st)")
    case False
    then have "\<not> at_call env n" by (auto simp: schedule_call_def)
    with t Cons.IH [OF _ n(3), of "snd (schedule_call sj env strict ro n call args st)"] False c
    show ?thesis by (simp add: split_beta Let_def)
  qed (use t c in \<open>auto simp: split_beta Let_def\<close>)
qed auto

lemma schedule_classified:
  "list_all classified (post_input calls (schedule sj env strict ro calls count d signals))"
proof -
  let ?s = "schedule sj env strict ro calls count d signals"
  have "traced calls 0 (sched_new count d signals (length calls))"
    by (simp add: traced_def sched_new_def)
  from schedule_loop_traced [OF this, of calls sj env strict ro]
  obtain m where "traced calls m ?s" by (auto simp: schedule_def intro: traced_flush)
  then show ?thesis
    unfolding post_input_def list_all_length classified_def traced_def
    by (auto simp: split_beta prod_eq_iff not_le dest!: spec)
qed

lemma schedule_lengths:
  "length (s_results (schedule sj env strict ro calls count d signals)) = length calls"
  "length (s_destructive (schedule sj env strict ro calls count d signals)) = length calls"
proof -
  have "traced calls 0 (sched_new count d signals (length calls))"
    by (simp add: traced_def sched_new_def)
  from schedule_loop_traced [OF this, of calls sj env strict ro]
  obtain m where "traced calls m (schedule sj env strict ro calls count d signals)"
    by (auto simp: schedule_def intro: traced_flush)
  then show "length (s_results (schedule sj env strict ro calls count d signals)) = length calls"
    "length (s_destructive (schedule sj env strict ro calls count d signals)) = length calls"
    by (simp_all add: traced_def)
qed

lemma post_input_results:
  "length (s_destructive s) = length calls \<Longrightarrow> length (s_results s) = length calls \<Longrightarrow>
     map (\<lambda>(c, d, r). (c, r)) (post_input calls s) = zip calls (s_results s)"
  unfolding post_input_def by (rule nth_equalityI) simp_all

text \<open>Each call contributes exactly one tool message that answers it.\<close>

definition answers_call :: "tool_call \<Rightarrow> message \<Rightarrow> bool" where
  "answers_call call m \<longleftrightarrow> is_role m ''tool'' \<and> m_tool_call_id m = Some (tc_id call) \<and> m_name m = Some (tc_name call)"

lemma post_call_messages:
  "\<exists>m. p_messages (post_call env call args d r p) = p_messages p @ [m] \<and> answers_call call m"
  by (auto simp: post_call_def Let_def answers_call_def tool_result_def is_role_def split: option.split)

lemma post_loop_messages:
  "\<exists>ms. p_messages (post_loop env cs p) = p_messages p @ ms \<and> list_all2 answers_call (map (\<lambda>c. fst (fst c)) cs) ms"
proof (induction cs arbitrary: p)
  case (Cons c cs)
  obtain call args d r where c: "c = ((call, args), (d, r))" by (metis surj_pair)
  obtain m where m: "p_messages (post_call env call args d r p) = p_messages p @ [m]" "answers_call call m"
    using post_call_messages by blast
  obtain ms where "p_messages (post_loop env cs (post_call env call args d r p)) =
      p_messages (post_call env call args d r p) @ ms" "list_all2 answers_call (map (\<lambda>c. fst (fst c)) cs) ms"
    using Cons.IH by blast
  with c m show ?case by (intro exI [of _ "m # ms"]) simp
qed simp

lemma last_turn_tools: "(\<And>t. t \<in> set ts \<Longrightarrow> is_role t ''tool'') \<Longrightarrow> last_turn (ms @ ts) = last_turn ms"
  by (induction ts rule: rev_induct) (simp_all add: last_turn_snoc transparent_def flip: append_assoc)

lemma paired_tool_messages:
  assumes "paired ms" and a: "is_role a ''assistant''"
    and "\<And>t. t \<in> set tms \<Longrightarrow> \<exists>c \<in> set (m_tool_calls a). answers_call c t"
  shows "paired (ms @ a # tms)"
  using assms(3)
proof (induction tms rule: rev_induct)
  case Nil
  have "\<not> is_role a ''tool''" using a by (simp add: is_role_def)
  with assms(1) show ?case by (simp add: paired_append kept_role)
next
  case (snoc t ts)
  have p: "paired (ms @ a # ts)" using snoc by simp
  have "last_turn ((ms @ [a]) @ ts) = last_turn (ms @ [a])"
    using snoc.prems by (intro last_turn_tools) (auto simp: answers_call_def)
  also have "\<dots> = Some a" using a by (simp add: last_turn_snoc transparent_def is_role_def)
  finally have l: "last_turn (ms @ a # ts) = Some a" by simp
  obtain c where c: "c \<in> set (m_tool_calls a)" "answers_call c t" using snoc.prems [of t] by auto
  then have "kept (ms @ a # ts) t"
    using l a by (auto simp: kept_def answers_call_def answers_def)
  with p show ?case using paired_append [of "ms @ a # ts" t] by simp
qed

lemma valid_tool_messages:
  assumes "valid_transcript ms" and a: "is_role a ''assistant''"
    and t: "\<And>t. t \<in> set tms \<Longrightarrow> \<exists>c \<in> set (m_tool_calls a). answers_call c t"
  shows "valid_transcript (ms @ a # tms)"
proof -
  have tool: "is_role t ''tool''" if "t \<in> set tms" for t
    using t [OF that] by (auto simp: answers_call_def)
  have "calls_adjacent tms"
    using tool by (induction tms) (auto simp: calls_adjacent_Cons is_role_def)
  moreover have "\<not> is_role a ''system''" "\<not> is_tool_result a"
    using a by (simp_all add: is_role_def is_tool_result_def)
  ultimately have "calls_adjacent (ms @ a # tms)"
    using assms(1) by (intro calls_adjacent_append) (auto simp: calls_adjacent_Cons valid_transcript_def)
  with paired_tool_messages [OF _ a t] assms(1) show ?thesis by (simp add: valid_transcript_def)
qed

lemma valid_tool_turn:
  assumes "valid_transcript ms" and "p_messages p = []"
  shows "valid_transcript (ms @ with_native (assistant_with_tools text (map (\<lambda>c. fst (fst c)) cs)) items #
      p_messages (post_loop env cs p))"
proof (rule valid_tool_messages [OF assms(1)])
  let ?a = "with_native (assistant_with_tools text (map (\<lambda>c. fst (fst c)) cs)) items"
  show "is_role ?a ''assistant''"
    by (simp add: with_native_def assistant_with_tools_def is_role_def)
  fix t assume t: "t \<in> set (p_messages (post_loop env cs p))"
  have "list_all2 answers_call (map (\<lambda>c. fst (fst c)) cs) (p_messages (post_loop env cs p))"
    using post_loop_messages [of env cs p] assms(2) by auto
  then obtain i where "i < length cs" "answers_call (fst (fst (cs ! i))) t"
    using t by (auto simp: in_set_conv_nth list_all2_conv_all_nth)
  then show "\<exists>c \<in> set (m_tool_calls ?a). answers_call c t"
    by (auto simp: with_native_def assistant_with_tools_def intro: bexI [OF _ nth_mem])
qed

lemma post_loop_errors:
  "map m_is_error (p_messages (post_loop env cs p)) = map m_is_error (p_messages p) @
     map (\<lambda>c. case snd (snd c) of None \<Rightarrow> True | Some r \<Rightarrow> r_error r \<noteq> None) cs"
proof (induction cs arbitrary: p)
  case (Cons c cs)
  obtain call args d r where c: "c = ((call, args), (d, r))" by (metis surj_pair)
  have "map m_is_error (p_messages (post_call env call args d r p)) = map m_is_error (p_messages p) @
      [case r of None \<Rightarrow> True | Some r \<Rightarrow> r_error r \<noteq> None]"
    by (simp add: post_call_def Let_def tool_result_def split: option.split)
  with Cons.IH [of "post_call env call args d r p"] show ?case by (simp add: c)
qed simp

text \<open>
  C25 (invariant). A tool turn answers every call: post-processing appends exactly one result per
  call, in the order of the calls, with the id and the name of its call, also when the run was
  cancelled before some calls ran. A result is marked as an error exactly when its call failed or
  never ran. The assistant message followed by these results keeps a valid transcript valid.
\<close>

theorem tool_turn_paired:
  assumes "valid_transcript ms" and "p_messages p = []"
  shows "list_all2 answers_call (map (\<lambda>c. fst (fst c)) cs) (p_messages (post_loop env cs p)) \<and>
    map m_is_error (p_messages (post_loop env cs p)) =
      map (\<lambda>c. case snd (snd c) of None \<Rightarrow> True | Some r \<Rightarrow> r_error r \<noteq> None) cs \<and>
    valid_transcript (ms @ with_native (assistant_with_tools content (map (\<lambda>c. fst (fst c)) cs)) items #
      p_messages (post_loop env cs p))"
  using post_loop_messages [of env cs p] post_loop_errors [of env cs p] valid_tool_turn [OF assms] assms(2)
  by auto

definition post_new :: post where
  "post_new = \<lparr>p_ledger = ledger_new None, p_signals = [], p_all_calls = [], p_fingerprints = [],
     p_plan_approved = False, p_plan_handoff = False, p_step_mutated = False, p_messages = []\<rparr>"

definition plain_post_env :: post_env where
  "plain_post_env = \<lparr>normalize = Some, pe_show_json = (\<lambda>_. []), pe_strict = True, pe_mode = Agent\<rparr>"

definition second_call :: tool_call where
  "second_call = grep_call\<lparr>tc_id := lit ''c2''\<rparr>"

theorem tool_turn_paired_witness:
  "list_all2 answers_call [grep_call, second_call]
     (p_messages (post_loop plain_post_env [((grep_call, JNull), (None, None)), ((second_call, JNull), (None, None))] post_new)) \<and>
   map m_is_error
     (p_messages (post_loop plain_post_env [((grep_call, JNull), (None, None)), ((second_call, JNull), (None, None))] post_new)) =
     [True, True]"
proof -
  let ?cs = "[((grep_call, JNull), (None, None)), ((second_call, JNull), (None, None))]"
  have "valid_transcript [message_text (lit ''user'') (lit ''go'')]" "p_messages post_new = []"
    by (simp_all add: post_new_def valid_transcript_def paired_def kept_def message_text_def is_role_def)
  from tool_turn_paired [OF this, of ?cs plain_post_env "[]" "[]"] show ?thesis by simp
qed

end
