(* ===== verification/Run_Budget.thy ===== *)
theory Run_Budget
  imports Run_Mode
begin

text \<open>
  The execution budget of \<open>core/src/runs/budget.rs\<close>: its JSON form, the gate that is checked
  before every provider turn, and the extension handshake.
\<close>

section \<open>State\<close>

text \<open>Instants are nanoseconds of a monotonic clock; the current one is an argument.\<close>

type_synonym instant = nat

record budget =
  step_limit :: u32
  tool_call_limit :: u32
  wall_clock_minutes :: u32
  token_limit :: u32
  tokens_used :: u32
  grants_used :: u32
  max_grants :: u32
  started_at :: instant
  extension_timeout_secs :: u64

datatype budget_verdict = Ok | Exhausted string

definition budget_default :: "instant \<Rightarrow> budget" where
  "budget_default now =
     \<lparr>step_limit = 12, tool_call_limit = 12, wall_clock_minutes = 20, token_limit = 0,
      tokens_used = 0, grants_used = 0, max_grants = 2, started_at = now,
      extension_timeout_secs = 300\<rparr>"

definition budget_for_mode :: "mode \<Rightarrow> instant \<Rightarrow> budget" where
  "budget_for_mode m now =
     (budget_default now)\<lparr>step_limit := default_step_limit m,
       tool_call_limit := default_tool_call_limit m,
       wall_clock_minutes := default_wall_clock_minutes m,
       token_limit := default_token_limit m\<rparr>"

section \<open>JSON form\<close>

text \<open>\<open>as u32\<close> keeps the low 32 bits of the stored number.\<close>

definition pick :: "json \<Rightarrow> string \<Rightarrow> u32 \<Rightarrow> u32" where
  "pick v key fallback =
     (case Option.bind (jget v key) as_u64 of None \<Rightarrow> fallback | Some n \<Rightarrow> ucast n)"

definition from_json_with_base :: "json \<Rightarrow> budget \<Rightarrow> instant \<Rightarrow> budget" where
  "from_json_with_base v base now =
     \<lparr>step_limit = pick v ''stepLimit'' (step_limit base),
      tool_call_limit = pick v ''toolCallLimit'' (tool_call_limit base),
      wall_clock_minutes = pick v ''wallClockMinutes'' (wall_clock_minutes base),
      token_limit = pick v ''tokenLimit'' (token_limit base),
      tokens_used = pick v ''tokensUsed'' 0,
      grants_used = pick v ''grantsUsed'' 0,
      max_grants = pick v ''maxGrants'' (max_grants base),
      started_at = now,
      extension_timeout_secs = extension_timeout_secs base\<rparr>"

definition from_json :: "json \<Rightarrow> instant \<Rightarrow> budget" where
  "from_json v now = from_json_with_base v (budget_default now) now"

definition to_json :: "budget \<Rightarrow> json" where
  "to_json b = JObj
     [(lit ''stepLimit'', jword (step_limit b)),
      (lit ''toolCallLimit'', jword (tool_call_limit b)),
      (lit ''wallClockMinutes'', jword (wall_clock_minutes b)),
      (lit ''tokenLimit'', jword (token_limit b)),
      (lit ''tokensUsed'', jword (tokens_used b)),
      (lit ''grantsUsed'', jword (grants_used b)),
      (lit ''maxGrants'', jword (max_grants b))]"

section \<open>Operations\<close>

definition record_usage :: "budget \<Rightarrow> u64 \<Rightarrow> u64 \<Rightarrow> budget" where
  "record_usage b input_tokens output_tokens =
     (let spent = sat_add input_tokens output_tokens
      in b\<lparr>tokens_used := sat_add (tokens_used b) (ucast (min spent 0xFFFFFFFF))\<rparr>)"

definition nanos_per_minute :: nat where
  "nanos_per_minute = 60 * 1000000000"

definition budget_check :: "budget \<Rightarrow> instant \<Rightarrow> u32 \<Rightarrow> u32 \<Rightarrow> budget_verdict" where
  "budget_check b now steps tool_calls =
     (if step_limit b \<le> steps then Exhausted ''step_limit''
      else if tool_call_limit b \<le> tool_calls then Exhausted ''tool_call_limit''
      else if 0 < token_limit b \<and> token_limit b \<le> tokens_used b then Exhausted ''token_limit''
      else if unat (wall_clock_minutes b) * nanos_per_minute \<le> now - started_at b
        then Exhausted ''wall_clock''
      else Ok)"

definition can_extend :: "budget \<Rightarrow> bool" where
  "can_extend b \<longleftrightarrow> grants_used b < max_grants b"

definition budget_extend :: "budget \<Rightarrow> instant \<Rightarrow> bool \<times> budget" where
  "budget_extend b now =
     (if \<not> can_extend b then (False, b)
      else (True,
        b\<lparr>grants_used := sat_add (grants_used b) 1,
          step_limit := sat_mul (step_limit b) 2,
          tool_call_limit := sat_mul (tool_call_limit b) 2,
          token_limit := (if 0 < token_limit b then sat_mul (token_limit b) 2 else token_limit b),
          wall_clock_minutes := sat_add (wall_clock_minutes b) 30,
          started_at := now\<rparr>))"

section \<open>Lemmas\<close>

lemma ucast_ucast_u32: "(ucast (ucast (w :: u32) :: u64) :: u32) = w"
  by transfer simp

lemma pick_to_json [json_simps]:
  "pick (to_json b) ''stepLimit'' x = step_limit b"
  "pick (to_json b) ''toolCallLimit'' x = tool_call_limit b"
  "pick (to_json b) ''wallClockMinutes'' x = wall_clock_minutes b"
  "pick (to_json b) ''tokenLimit'' x = token_limit b"
  "pick (to_json b) ''tokensUsed'' x = tokens_used b"
  "pick (to_json b) ''grantsUsed'' x = grants_used b"
  "pick (to_json b) ''maxGrants'' x = max_grants b"
  by (simp_all add: pick_def to_json_def as_u64_jword_simps ucast_ucast_u32)

definition grants_left :: "budget \<Rightarrow> nat" where
  "grants_left b = unat (max_grants b) - unat (grants_used b)"

lemma can_extend_grants: "can_extend b \<longleftrightarrow> 0 < grants_left b"
  by (simp add: can_extend_def grants_left_def word_less_nat_alt)

lemma grants_left_extend:
  "budget_extend b now = (True, b') \<Longrightarrow> Suc (grants_left b') = grants_left b"
proof -
  assume e: "budget_extend b now = (True, b')"
  then have c: "can_extend b" by (auto simp: budget_extend_def split: if_splits)
  then have "unat (grants_used b) < unat (max_grants b)"
    by (simp add: can_extend_def word_less_nat_alt)
  with unat_bound [of "max_grants b"]
  have "unat (sat_add (grants_used b) 1) = Suc (unat (grants_used b))"
    by (simp add: unat_sat_add)
  with e c \<open>unat (grants_used b) < unat (max_grants b)\<close> show ?thesis
    by (auto simp: budget_extend_def grants_left_def)
qed

lemma extend_refused: "budget_extend b now = (False, b') \<Longrightarrow> b' = b \<and> grants_left b = 0"
  by (auto simp: budget_extend_def can_extend_grants split: if_splits)

lemma budget_check_Ok:
  "budget_check b now steps calls = Ok \<longleftrightarrow>
     steps < step_limit b \<and> calls < tool_call_limit b \<and>
     (token_limit b = 0 \<or> tokens_used b < token_limit b) \<and>
     now - started_at b < unat (wall_clock_minutes b) * nanos_per_minute"
  by (auto simp: budget_check_def not_le word_gt_0)

lemma record_usage_frame [simp]:
  "step_limit (record_usage b i out) = step_limit b"
  "tool_call_limit (record_usage b i out) = tool_call_limit b"
  "token_limit (record_usage b i out) = token_limit b"
  "wall_clock_minutes (record_usage b i out) = wall_clock_minutes b"
  "grants_used (record_usage b i out) = grants_used b"
  "max_grants (record_usage b i out) = max_grants b"
  "started_at (record_usage b i out) = started_at b"
  "grants_left (record_usage b i out) = grants_left b"
  by (simp_all add: record_usage_def Let_def grants_left_def)

lemma record_usage_mono: "tokens_used b \<le> tokens_used (record_usage b i out)"
  by (simp add: record_usage_def Let_def sat_add_mono)

end
