(* ===== verification/Run_Turn.thy ===== *)
theory Run_Turn
  imports History Run_Mode "HOL-Library.AList"
begin

text \<open>
  One provider turn (\<open>runs/engine/execute_turn.rs\<close>): the stream events are folded into the turn's
  text, reasoning, tool calls and outcome. The provider is a parameter: what it answers is either
  an error, or a list of stream inputs, where \<open>Cancelled\<close> says the cancellation signal won the race
  and the end of the list that the stream closed. The DSML repair of \<open>providers/src/dsml.rs\<close> is a
  parameter as well.
\<close>

section \<open>Stream events\<close>

datatype stream_event =
    TextDelta ustr
  | ReasoningDelta ustr
  | ToolCallStart ustr ustr
  | ToolCallArgumentDelta ustr ustr
  | ToolCallFinish ustr ustr ustr
  | NativeOutput "json list"
  | Finished ustr "usage option"
  | StreamError ustr

datatype stream_input = Cancelled_Signal | Next stream_event

record turn_result =
  t_text :: ustr
  t_reasoning :: ustr
  t_tool_calls :: "tool_call list"
  t_native :: "json list"
  t_usage :: "usage option"
  t_finish :: "ustr option"
  t_error :: "ustr option"

text \<open>The loop's variables; \<open>a_deltas\<close> are the streamed events it emits.\<close>

record turn_acc =
  a_text :: ustr
  a_reasoning :: ustr
  a_usage :: "usage option"
  a_finish :: "ustr option"
  a_error :: "ustr option"
  a_native :: "json list"
  a_pending :: "(ustr \<times> (ustr \<times> ustr)) list"
  a_order :: "ustr list"
  a_deltas :: "(string \<times> ustr) list"

definition acc_new :: turn_acc where
  "acc_new = \<lparr>a_text = [], a_reasoning = [], a_usage = None, a_finish = None, a_error = None,
     a_native = [], a_pending = [], a_order = [], a_deltas = []\<rparr>"

definition or_insert :: "'k \<Rightarrow> 'v \<Rightarrow> ('k \<times> 'v) list \<Rightarrow> ('k \<times> 'v) list" where
  "or_insert k v xs = (if map_of xs k = None then xs @ [(k, v)] else xs)"

definition push_order :: "ustr \<Rightarrow> ustr list \<Rightarrow> ustr list" where
  "push_order i order = (if i \<in> set order then order else order @ [i])"

definition call_start :: "ustr \<Rightarrow> ustr \<Rightarrow> turn_acc \<Rightarrow> turn_acc" where
  "call_start i name a =
     a\<lparr>a_pending := or_insert i (name, []) (a_pending a), a_order := push_order i (a_order a)\<rparr>"

definition call_delta :: "ustr \<Rightarrow> ustr \<Rightarrow> turn_acc \<Rightarrow> turn_acc" where
  "call_delta i delta a =
     (case map_of (a_pending a) i of
        Some (name, args) \<Rightarrow> a\<lparr>a_pending := AList.update i (name, args @ delta) (a_pending a)\<rparr>
      | None \<Rightarrow> a)"

definition call_finish :: "ustr \<Rightarrow> ustr \<Rightarrow> ustr \<Rightarrow> turn_acc \<Rightarrow> turn_acc" where
  "call_finish i name args a =
     (let p = or_insert i (name, []) (a_pending a);
          p = (if args \<noteq> [] then AList.update i (fst (the (map_of p i)), args) p else p)
      in a\<lparr>a_pending := p, a_order := push_order i (a_order a)\<rparr>)"

text \<open>One pass of the loop; \<open>True\<close> when it breaks.\<close>

fun turn_step :: "stream_input \<Rightarrow> turn_acc \<Rightarrow> bool \<times> turn_acc" where
  "turn_step Cancelled_Signal a = (True, a\<lparr>a_error := Some (lit ''run cancelled'')\<rparr>)"
| "turn_step (Next (TextDelta d)) a =
     (False, a\<lparr>a_text := a_text a @ d, a_deltas := a_deltas a @ [(''text'', d)]\<rparr>)"
| "turn_step (Next (ReasoningDelta d)) a =
     (False, a\<lparr>a_reasoning := a_reasoning a @ d, a_deltas := a_deltas a @ [(''reasoning'', d)]\<rparr>)"
| "turn_step (Next (ToolCallStart i name)) a = (False, call_start i name a)"
| "turn_step (Next (ToolCallArgumentDelta i d)) a = (False, call_delta i d a)"
| "turn_step (Next (ToolCallFinish i name args)) a = (False, call_finish i name args a)"
| "turn_step (Next (NativeOutput items)) a = (False, a\<lparr>a_native := items\<rparr>)"
| "turn_step (Next (Finished reason u)) a = (True, a\<lparr>a_finish := Some reason, a_usage := u\<rparr>)"
| "turn_step (Next (StreamError err)) a = (True, a\<lparr>a_error := Some err\<rparr>)"

fun turn_loop :: "stream_input list \<Rightarrow> turn_acc \<Rightarrow> turn_acc" where
  "turn_loop [] a = a"
| "turn_loop (e # es) a = (let (stop, a') = turn_step e a in if stop then a' else turn_loop es a')"

definition pending_calls :: "turn_acc \<Rightarrow> tool_call list" where
  "pending_calls a = List.map_filter (\<lambda>i. case map_of (a_pending a) i of
       Some (name, args) \<Rightarrow> Some \<lparr>tc_id = i, tc_kind = lit ''function'', tc_name = name, tc_arguments = args\<rparr>
     | None \<Rightarrow> None) (a_order a)"

text \<open>
  \<open>heal\<close> is \<open>sanitize_assistant_text\<close> guarded by \<open>contains_dsml\<close>: \<open>None\<close> when the text carries no
  markup, otherwise the cleaned text and the recovered calls with their synthesised ids.
\<close>

definition run_turn ::
    "(ustr \<Rightarrow> (ustr \<times> tool_call list) option) \<Rightarrow> ustr + stream_input list \<Rightarrow> turn_result \<times> (string \<times> ustr) list" where
  "run_turn heal stream =
     (case stream of
        Inl err \<Rightarrow>
          (\<lparr>t_text = [], t_reasoning = [], t_tool_calls = [], t_native = [], t_usage = None,
            t_finish = None, t_error = Some err\<rparr>, [])
      | Inr events \<Rightarrow>
          (let a = turn_loop events acc_new;
               error = (if a_error a = None \<and> a_finish a = None
                 then Some (lit ''the provider stream ended without a completion signal'') else a_error a);
               calls = pending_calls a;
               (text, calls) = (if error = None then
                   (case heal (a_text a) of
                      Some (cleaned, healed) \<Rightarrow> (cleaned, calls @ healed)
                    | None \<Rightarrow> (a_text a, calls))
                 else (a_text a, calls))
           in (\<lparr>t_text = text, t_reasoning = a_reasoning a, t_tool_calls = calls, t_native = a_native a,
                t_usage = a_usage a, t_finish = a_finish a, t_error = error\<rparr>, a_deltas a)))"

section \<open>Tool calls keep their first-seen order\<close>

definition acc_ok :: "turn_acc \<Rightarrow> bool" where
  "acc_ok a \<longleftrightarrow> distinct (a_order a) \<and> distinct (map fst (a_pending a)) \<and>
     map fst (a_pending a) = a_order a \<and>
     a_text a = concat (map snd (filter (\<lambda>d. fst d = ''text'') (a_deltas a))) \<and>
     a_reasoning a = concat (map snd (filter (\<lambda>d. fst d = ''reasoning'') (a_deltas a)))"

lemma or_insert_keys:
  "map fst (or_insert k v xs) = (if k \<in> fst ` set xs then map fst xs else map fst xs @ [k])"
  by (auto simp: or_insert_def map_of_eq_None_iff)

lemma update_keys_present: "k \<in> fst ` set xs \<Longrightarrow> map fst (AList.update k v xs) = map fst xs"
  by (simp add: update_keys)

lemma acc_ok_start: "acc_ok a \<Longrightarrow> acc_ok (call_start i name a)"
  by (auto simp: acc_ok_def call_start_def or_insert_keys push_order_def image_iff
      simp flip: set_map)

lemma acc_ok_delta: "acc_ok a \<Longrightarrow> acc_ok (call_delta i d a)"
proof (cases "map_of (a_pending a) i")
  case (Some p)
  assume ok: "acc_ok a"
  have "i \<in> fst ` set (a_pending a)"
    using map_of_SomeD [OF Some] by (auto intro: rev_image_eqI)
  then have "map fst (AList.update i v (a_pending a)) = map fst (a_pending a)" for v
    by (rule update_keys_present)
  with ok Some show ?thesis by (auto simp: acc_ok_def call_delta_def split: prod.splits)
qed (simp add: call_delta_def)

lemma acc_ok_finish: "acc_ok a \<Longrightarrow> acc_ok (call_finish i name args a)"
proof -
  assume ok: "acc_ok a"
  let ?p = "or_insert i (name, []) (a_pending a)"
  have s: "acc_ok (call_start i name a)" by (rule acc_ok_start [OF ok])
  have "i \<in> fst ` set ?p" by (force simp: or_insert_def map_of_eq_None_iff)
  then have "map fst (AList.update i v ?p) = map fst ?p" for v by (rule update_keys_present)
  with s show ?thesis by (simp add: acc_ok_def call_finish_def call_start_def Let_def)
qed

lemma turn_step_ok: "acc_ok a \<Longrightarrow> acc_ok (snd (turn_step e a))"
  by (induction e a rule: turn_step.induct)
     (simp_all add: acc_ok_start acc_ok_delta acc_ok_finish, simp_all add: acc_ok_def)

lemma turn_loop_ok: "acc_ok a \<Longrightarrow> acc_ok (turn_loop es a)"
proof (induction es arbitrary: a)
  case (Cons e es)
  have "acc_ok (snd (turn_step e a))" by (rule turn_step_ok [OF Cons.prems])
  with Cons.IH show ?case by (simp add: split_beta Let_def)
qed simp

lemma acc_ok_new: "acc_ok acc_new"
  by (simp add: acc_ok_def acc_new_def)

lemma map_filter_calls:
  "set is \<subseteq> fst ` set ps \<Longrightarrow>
   map (\<lambda>c. (tc_id c, (tc_name c, tc_arguments c)))
     (List.map_filter (\<lambda>i. case map_of ps i of
       Some (name, args) \<Rightarrow> Some \<lparr>tc_id = i, tc_kind = k, tc_name = name, tc_arguments = args\<rparr>
     | None \<Rightarrow> None) is) = map (\<lambda>i. (i, the (map_of ps i))) is"
proof (induction "is")
  case (Cons i "is")
  then obtain nm ar where "map_of ps i = Some (nm, ar)"
    by (metis insert_subset list.simps(15) map_of_eq_None_iff not_None_eq surj_pair)
  with Cons show ?case by (simp add: List.map_filter_simps)
qed (simp add: List.map_filter_simps)

lemma pending_calls_entries:
  "acc_ok a \<Longrightarrow> map (\<lambda>c. (tc_id c, (tc_name c, tc_arguments c))) (pending_calls a) =
     map (\<lambda>i. (i, the (map_of (a_pending a) i))) (a_order a)"
  unfolding pending_calls_def
  by (rule map_filter_calls) (metis acc_ok_def order_refl set_map)

lemma pending_calls_ids: "acc_ok a \<Longrightarrow> map tc_id (pending_calls a) = a_order a"
  using arg_cong [OF pending_calls_entries, of a "map fst"] by (simp add: comp_def)

lemma pending_calls_map:
  assumes "acc_ok a"
  shows "map_of (map (\<lambda>c. (tc_id c, (tc_name c, tc_arguments c))) (pending_calls a)) i = map_of (a_pending a) i"
proof (cases "i \<in> set (a_order a)")
  case True
  then have "map_of (a_pending a) i \<noteq> None"
    using assms by (metis acc_ok_def map_of_eq_None_iff set_map)
  with True show ?thesis
    unfolding pending_calls_entries [OF assms] by (auto simp: map_of_map_restrict restrict_map_def)
next
  case False
  then have "map_of (a_pending a) i = None"
    using assms by (metis acc_ok_def map_of_eq_None_iff set_map)
  with False show ?thesis
    unfolding pending_calls_entries [OF assms] by (auto simp: map_of_map_restrict restrict_map_def)
qed

section \<open>Each call is assembled from its own events\<close>

definition is_stop :: "stream_input \<Rightarrow> bool" where
  "is_stop e = (case e of
      Cancelled_Signal \<Rightarrow> True
    | Next (Finished r u) \<Rightarrow> True
    | Next (StreamError err) \<Rightarrow> True
    | _ \<Rightarrow> False)"

text \<open>What the events addressed to one id amount to, whatever is interleaved with them.\<close>

definition call_spec :: "ustr \<Rightarrow> (ustr \<times> ustr) option \<Rightarrow> stream_input \<Rightarrow> (ustr \<times> ustr) option" where
  "call_spec i c e =
     (case e of
        Next (ToolCallStart j name) \<Rightarrow> if j = i \<and> c = None then Some (name, []) else c
      | Next (ToolCallArgumentDelta j d) \<Rightarrow>
          if j = i then map_option (\<lambda>(n, args). (n, args @ d)) c else c
      | Next (ToolCallFinish j name args) \<Rightarrow>
          if j = i then
            (let (n, old) = (case c of None \<Rightarrow> (name, []) | Some p \<Rightarrow> p)
             in Some (n, if args \<noteq> [] then args else old))
          else c
      | _ \<Rightarrow> c)"

lemma map_of_or_insert:
  "map_of (or_insert k v xs) i = (if i = k \<and> map_of xs k = None then Some v else map_of xs i)"
  by (auto simp: or_insert_def map_add_def split: option.splits)

lemma turn_step_spec:
  "map_of (a_pending (snd (turn_step e a))) i = call_spec i (map_of (a_pending a) i) e"
  by (induction e a rule: turn_step.induct)
     (auto simp: call_spec_def call_start_def call_delta_def call_finish_def Let_def map_of_or_insert
       update_conv' split: option.splits prod.splits)

lemma turn_step_stop: "fst (turn_step e a) = is_stop e"
  by (induction e a rule: turn_step.induct) (simp_all add: is_stop_def)

lemma call_spec_stop: "is_stop e \<Longrightarrow> call_spec i c e = c"
  by (auto simp: is_stop_def call_spec_def split: stream_input.splits stream_event.splits)

lemma turn_loop_spec:
  "map_of (a_pending (turn_loop es a)) i =
     foldl (call_spec i) (map_of (a_pending a) i) (takeWhile (\<lambda>e. \<not> is_stop e) es)"
proof (induction es arbitrary: a)
  case (Cons e es)
  show ?case
  proof (cases "is_stop e")
    case True
    then have "turn_loop (e # es) a = snd (turn_step e a)"
      using turn_step_stop [of e a] by (simp add: split_beta Let_def)
    with True show ?thesis by (simp add: turn_step_spec call_spec_stop)
  next
    case False
    then have "turn_loop (e # es) a = turn_loop es (snd (turn_step e a))"
      using turn_step_stop [of e a] by (simp add: split_beta Let_def)
    with False Cons.IH show ?thesis by (simp add: turn_step_spec)
  qed
qed simp

lemma turn_loop_outcome:
  "a_error a = None \<Longrightarrow> a_finish a = None \<Longrightarrow>
   (a_error (turn_loop es a), a_finish (turn_loop es a)) =
     (case find is_stop es of
        None \<Rightarrow> (None, None)
      | Some Cancelled_Signal \<Rightarrow> (Some (lit ''run cancelled''), None)
      | Some (Next (Finished r u)) \<Rightarrow> (None, Some r)
      | Some (Next (StreamError err)) \<Rightarrow> (Some err, None)
      | Some _ \<Rightarrow> (None, None))"
proof (induction es arbitrary: a)
  case (Cons e es)
  show ?case
  proof (cases "is_stop e")
    case True
    then show ?thesis
      using Cons.prems by (auto simp: is_stop_def split: stream_input.splits stream_event.splits)
  next
    case False
    have "turn_loop (e # es) a = turn_loop es (snd (turn_step e a))"
      using False turn_step_stop [of e a] by (simp add: split_beta Let_def)
    moreover have "a_error (snd (turn_step e a)) = None" "a_finish (snd (turn_step e a)) = None"
      using False Cons.prems
      by (induction e a rule: turn_step.induct)
         (simp_all add: is_stop_def call_start_def call_delta_def call_finish_def Let_def split: option.splits prod.splits)
    ultimately show ?thesis using False Cons.IH by simp
  qed
qed simp

text \<open>
  A turn is complete only if the provider said so: it carries no error exactly when
  the first event that ends the stream is \<open>Finished\<close>. A dropped connection, an error event or a
  cancellation never passes for a finished answer.
\<close>

theorem run_turn_complete_iff:
  "t_error (fst (run_turn heal (Inr events))) = None \<longleftrightarrow>
     (\<exists>reason u. find is_stop events = Some (Next (Finished reason u)))"
proof -
  have "(a_error (turn_loop events acc_new), a_finish (turn_loop events acc_new)) =
     (case find is_stop events of
        None \<Rightarrow> (None, None)
      | Some Cancelled_Signal \<Rightarrow> (Some (lit ''run cancelled''), None)
      | Some (Next (Finished r u)) \<Rightarrow> (None, Some r)
      | Some (Next (StreamError err)) \<Rightarrow> (Some err, None)
      | Some _ \<Rightarrow> (None, None))"
    by (rule turn_loop_outcome) (simp_all add: acc_new_def)
  then show ?thesis
    by (auto simp: run_turn_def Let_def split: option.splits stream_input.splits stream_event.splits)
qed

text \<open>
  Interleaved tool calls never mix: the calls come out with distinct ids, in the
  order they were first seen, and the name and arguments of each depend only on the events that
  carry its own id before the stream ends.
\<close>

theorem tool_calls_independent:
  "distinct (map tc_id (pending_calls (turn_loop events acc_new))) \<and>
   map_of (map (\<lambda>c. (tc_id c, (tc_name c, tc_arguments c))) (pending_calls (turn_loop events acc_new))) i =
     foldl (call_spec i) None (takeWhile (\<lambda>e. \<not> is_stop e) events)"
  using turn_loop_ok [OF acc_ok_new, of events] turn_loop_spec [of events acc_new i]
  by (simp add: pending_calls_map pending_calls_ids) (simp add: acc_ok_def acc_new_def)

end
