(* ===== verification/Todo_List.thy ===== *)
theory Todo_List
  imports Tool_Gate Context_Summary "HOL-Library.Multiset"
begin

text \<open>
  The run's checklist (\<open>tools/src/todo.rs\<close>): parsing the model's list, giving ids to the items that
  have none, keeping one item in progress, and the rendering that heads every request
  (\<open>render_head\<close> of \<open>runs/engine/helpers.rs\<close>). A \<open>BTreeMap\<close> is the list of its values in key
  order; \<open>usize\<close> has 64 bits.
\<close>

definition MAX_ITEMS :: nat where "MAX_ITEMS = 60"
definition MAX_ACTIVE_ITEMS :: nat where "MAX_ACTIVE_ITEMS = 1"
definition MAX_TODO_ID :: nat where "MAX_TODO_ID = 2 ^ 32 - 1"
definition USIZE_MAX :: nat where "USIZE_MAX = 2 ^ 64 - 1"

datatype todo_status = Todo_Pending | Todo_InProgress | Todo_Completed

record todo_item =
  ti_id :: nat
  ti_content :: ustr
  ti_status :: todo_status

record 'r todo_store =
  td_runs :: "'r \<Rightarrow> todo_item list option"
  td_next_ids :: "'r \<Rightarrow> nat option"

definition todo_snapshot :: "'r todo_store \<Rightarrow> 'r \<Rightarrow> todo_item list" where
  "todo_snapshot s run = (case td_runs s run of Some items \<Rightarrow> items | None \<Rightarrow> [])"

definition todo_mark :: "todo_status \<Rightarrow> string" where
  "todo_mark st = (case st of Todo_Pending \<Rightarrow> ''[ ]'' | Todo_InProgress \<Rightarrow> ''[~]'' | Todo_Completed \<Rightarrow> ''[x]'')"

definition todo_render :: "todo_item list \<Rightarrow> ustr" where
  "todo_render items =
     (if items = [] then []
      else lit ''<task_list>'' @ nl
        @ concat (map (\<lambda>i. lit (todo_mark (ti_status i)) @ lit '' '' @ show_nat (ti_id i) @ lit '': '' @ ti_content i @ nl) items)
        @ lit ''</task_list>'')"

definition todo_clear :: "'r \<Rightarrow> 'r todo_store \<Rightarrow> 'r todo_store" where
  "todo_clear run s = s\<lparr>td_runs := (td_runs s)(run := None), td_next_ids := (td_next_ids s)(run := None)\<rparr>"

definition render_head :: "task_state \<Rightarrow> todo_item list \<Rightarrow> ustr" where
  "render_head t items =
     (let checklist = todo_render items
      in render_task_state t @ (if checklist \<noteq> [] then nl @ checklist @ nl else []))"

section \<open>Parsing the list\<close>

definition todo_content :: "json \<Rightarrow> ustr option" where
  "todo_content entry =
     (case map_option trim (Option.bind (jget entry ''content'') as_str) of
        Some s \<Rightarrow> if s \<noteq> [] then Some s else None
      | None \<Rightarrow> None)"

definition todo_parse_status :: "json \<Rightarrow> todo_status" where
  "todo_parse_status entry =
     (case Option.bind (jget entry ''status'') as_str of
        Some s \<Rightarrow> if s = lit ''completed'' then Todo_Completed
                  else if s = lit ''in_progress'' then Todo_InProgress else Todo_Pending
      | None \<Rightarrow> Todo_Pending)"

definition explicit_id :: "json \<Rightarrow> nat option" where
  "explicit_id entry =
     (case Option.bind (jget entry ''id'') as_u64 of
        Some raw \<Rightarrow> if raw > 0 \<and> unat raw \<le> MAX_TODO_ID then Some (unat raw) else None
      | None \<Rightarrow> None)"

definition sat_suc :: "nat \<Rightarrow> nat" where
  "sat_suc n = min (n + 1) USIZE_MAX"

type_synonym parsed_todo = "nat option \<times> ustr \<times> todo_status"

fun todo_parse :: "nat set \<Rightarrow> nat \<Rightarrow> json list \<Rightarrow> ustr + nat set \<times> nat \<times> parsed_todo list" where
  "todo_parse used next [] = Inr (used, next, [])"
| "todo_parse used next (e # es) =
     (case todo_content e of
        None \<Rightarrow> Inl (lit ''each todo needs a non-empty content'')
      | Some content \<Rightarrow>
          (case explicit_id e of
             Some tid \<Rightarrow>
               if tid \<in> used then Inl (lit ''duplicate todo id '' @ show_nat tid)
               else (case todo_parse (insert tid used) (max next (sat_suc tid)) es of
                       Inl err \<Rightarrow> Inl err
                     | Inr (used, next, ps) \<Rightarrow> Inr (used, next, (Some tid, content, todo_parse_status e) # ps))
           | None \<Rightarrow>
               (case todo_parse used next es of
                  Inl err \<Rightarrow> Inl err
                | Inr (used, next, ps) \<Rightarrow> Inr (used, next, (None, content, todo_parse_status e) # ps))))"

section \<open>Giving ids\<close>

text \<open>\<open>while !used.insert(next\_id)\<close>, with the checked increment.\<close>

function free_id :: "nat set \<Rightarrow> nat \<Rightarrow> nat option" where
  "free_id used n =
     (if n \<in> used then (if n \<ge> USIZE_MAX then None else free_id used (n + 1)) else Some n)"
  by pat_completeness auto
termination
  by (relation "measure (\<lambda>(used, n). USIZE_MAX - n)") auto

declare free_id.simps [simp del]

fun todo_insert :: "todo_item \<Rightarrow> todo_item list \<Rightarrow> todo_item list" where
  "todo_insert i [] = [i]"
| "todo_insert i (j # js) =
     (if ti_id i < ti_id j then i # j # js
      else if ti_id i = ti_id j then i # js
      else j # todo_insert i js)"

fun todo_assign :: "nat set \<Rightarrow> nat \<Rightarrow> todo_item list \<Rightarrow> parsed_todo list \<Rightarrow> ustr + nat \<times> todo_item list" where
  "todo_assign used next items [] = Inr (next, items)"
| "todo_assign used next items ((Some tid, content, st) # ps) =
     todo_assign used next (todo_insert \<lparr>ti_id = tid, ti_content = content, ti_status = st\<rparr> items) ps"
| "todo_assign used next items ((None, content, st) # ps) =
     (case free_id used next of
        None \<Rightarrow> Inl (lit ''todo ids are exhausted'')
      | Some tid \<Rightarrow> todo_assign (insert tid used) (sat_suc tid)
          (todo_insert \<lparr>ti_id = tid, ti_content = content, ti_status = st\<rparr> items) ps)"

fun demote :: "bool \<Rightarrow> todo_item list \<Rightarrow> todo_item list" where
  "demote promoted [] = []"
| "demote promoted (i # is) =
     (if ti_status i = Todo_InProgress then
        (if promoted then i\<lparr>ti_status := Todo_Pending\<rparr> # demote True is else i # demote True is)
      else i # demote promoted is)"

definition todo_plan :: "nat \<Rightarrow> json list \<Rightarrow> ustr + nat \<times> todo_item list" where
  "todo_plan next entries =
     (case todo_parse {} next entries of
        Inl err \<Rightarrow> Inl err
      | Inr (used, next, ps) \<Rightarrow>
          (case todo_assign used next [] ps of
             Inl err \<Rightarrow> Inl err
           | Inr (next, items) \<Rightarrow> Inr (next, demote False items)))"

section \<open>The tool\<close>

definition todo_status_str :: "todo_status \<Rightarrow> string" where
  "todo_status_str st =
     (case st of Todo_Pending \<Rightarrow> ''pending'' | Todo_InProgress \<Rightarrow> ''in_progress'' | Todo_Completed \<Rightarrow> ''completed'')"

definition todo_json :: "todo_item \<Rightarrow> json" where
  "todo_json i = JObj [(lit ''id'', JInt (int (ti_id i))), (lit ''content'', JStr (ti_content i)),
     (lit ''status'', JStr (lit (todo_status_str (ti_status i))))]"

definition tool_fail :: "ustr \<Rightarrow> tool_output" where
  "tool_fail m = \<lparr>o_ok = False, o_content = JObj [], o_error = Some m\<rparr>"

definition tool_success :: "json \<Rightarrow> tool_output" where
  "tool_success v = \<lparr>o_ok = True, o_content = v, o_error = None\<rparr>"

definition todo_reply :: "todo_item list \<Rightarrow> tool_output" where
  "todo_reply items = tool_success (JObj
     [(lit ''todos'', JArr (map todo_json items)),
      (lit ''remaining'', JInt (int (length (filter (\<lambda>i. ti_status i \<noteq> Todo_Completed) items)))),
      (lit ''in_progress_cap'', JInt (int MAX_ACTIVE_ITEMS))])"

definition todo_invoke :: "'r \<Rightarrow> json \<Rightarrow> 'r todo_store \<Rightarrow> (ustr + tool_output) \<times> 'r todo_store" where
  "todo_invoke run args s =
     (case Option.bind (jget args ''todos'') as_array of
        None \<Rightarrow> (Inl (lit ''todos must be an array''), s)
      | Some entries \<Rightarrow>
          if length entries > MAX_ITEMS then
            (Inr (tool_fail (lit ''at most '' @ show_nat MAX_ITEMS @ lit '' items are allowed, got '' @
               show_nat (length entries))), s)
          else
            (case todo_plan (case td_next_ids s run of Some n \<Rightarrow> n | None \<Rightarrow> 1) entries of
               Inl err \<Rightarrow> (Inl err, s)
             | Inr (next, items) \<Rightarrow>
                 (Inr (todo_reply items),
                  if items = [] then todo_clear run s
                  else s\<lparr>td_next_ids := (td_next_ids s)(run \<mapsto> next), td_runs := (td_runs s)(run \<mapsto> items)\<rparr>)))"

section \<open>Lemmas\<close>

definition ids_of :: "todo_item list \<Rightarrow> nat set" where
  "ids_of items = ti_id ` set items"

definition by_id :: "todo_item list \<Rightarrow> bool" where
  "by_id items \<longleftrightarrow> sorted_wrt (\<lambda>a b. ti_id a < ti_id b) items"

lemma by_id_simps [simp]: "by_id []" "by_id (i # is) \<longleftrightarrow> (\<forall>j \<in> set is. ti_id i < ti_id j) \<and> by_id is"
  by (simp_all add: by_id_def)

lemma ids_simps [simp]: "ids_of [] = {}" "ids_of (i # is) = insert (ti_id i) (ids_of is)"
  by (simp_all add: ids_of_def)

lemma set_todo_insert: "set (todo_insert i js) \<subseteq> insert i (set js)"
  by (induction js) auto

lemma by_id_insert: "by_id js \<Longrightarrow> by_id (todo_insert i js)"
proof (induction js)
  case (Cons j js)
  then show ?case using set_todo_insert [of i js] by fastforce
qed simp

lemma ids_insert: "ids_of (todo_insert i js) = insert (ti_id i) (ids_of js)"
  by (induction js) auto

lemma mset_insert: "ti_id i \<notin> ids_of js \<Longrightarrow> mset (todo_insert i js) = add_mset i (mset js)"
  by (induction js) auto

lemma free_id_Some: "free_id used n = Some i \<Longrightarrow> i \<notin> used \<and> n \<le> i"
proof (induction used n rule: free_id.induct)
  case (1 used n)
  then show ?case
    by (cases "n \<in> used"; cases "n \<ge> USIZE_MAX")
       (fastforce simp: free_id.simps [of used n])+
qed

text \<open>What the item shows of its entry, apart from the id: its text and whether it is done.\<close>

definition item_facts :: "todo_item \<Rightarrow> ustr \<times> bool" where
  "item_facts i = (ti_content i, ti_status i = Todo_Completed)"

definition entry_facts :: "json \<Rightarrow> ustr \<times> bool" where
  "entry_facts e = ((case todo_content e of Some c \<Rightarrow> c | None \<Rightarrow> []), todo_parse_status e = Todo_Completed)"

definition parsed_facts :: "parsed_todo \<Rightarrow> ustr \<times> bool" where
  "parsed_facts p = (fst (snd p), snd (snd p) = Todo_Completed)"

lemma facts_simps [simp]:
  "item_facts \<lparr>ti_id = i, ti_content = c, ti_status = st\<rparr> = (c, st = Todo_Completed)"
  "parsed_facts (i', c, st) = (c, st = Todo_Completed)"
  by (simp_all add: item_facts_def parsed_facts_def)

definition explicit_ids :: "parsed_todo list \<Rightarrow> nat list" where
  "explicit_ids ps = List.map_filter fst ps"

lemma explicit_ids_simps [simp]:
  "explicit_ids [] = []" "explicit_ids ((Some i, x) # ps) = i # explicit_ids ps"
  "explicit_ids ((None, x) # ps) = explicit_ids ps"
  by (simp_all add: explicit_ids_def List.map_filter_simps)

lemma todo_parse_spec:
  "todo_parse used next es = Inr (used', next', ps) \<Longrightarrow>
     map parsed_facts ps = map entry_facts es \<and> map fst ps = map explicit_id es \<and>
     used' = used \<union> set (explicit_ids ps) \<and> distinct (explicit_ids ps) \<and> used \<inter> set (explicit_ids ps) = {}"
proof (induction es arbitrary: used "next" used' next' ps)
  case (Cons e es)
  show ?case
  proof (cases "explicit_id e")
    case None
    with Cons.prems Cons.IH [of used "next"] show ?thesis
      by (auto simp: parsed_facts_def entry_facts_def split: option.splits sum.splits)
  next
    case (Some i)
    with Cons.prems obtain c ps0 where c: "todo_content e = Some c" "i \<notin> used"
      "todo_parse (insert i used) (max next (sat_suc i)) es = Inr (used', next', ps0)"
      "ps = (Some i, c, todo_parse_status e) # ps0"
      by (auto split: option.splits sum.splits if_splits)
    with Cons.IH [OF c(3)] Some show ?thesis
      by (auto simp: parsed_facts_def entry_facts_def)
  qed
qed simp

lemma todo_assign_spec:
  assumes "todo_assign used next items ps = Inr (next', items')" and "by_id items"
    and "ids_of items \<subseteq> used" and "set (explicit_ids ps) \<subseteq> used"
    and "distinct (explicit_ids ps)" and "ids_of items \<inter> set (explicit_ids ps) = {}"
  shows "by_id items' \<and> mset (map item_facts items') = mset (map item_facts items) + mset (map parsed_facts ps) \<and>
    ids_of items \<union> set (explicit_ids ps) \<subseteq> ids_of items'"
  using assms
proof (induction used "next" items ps arbitrary: items' rule: todo_assign.induct)
  case (2 used "next" items tid content st ps)
  have "by_id items' \<and> mset (map item_facts items') =
      mset (map item_facts (todo_insert \<lparr>ti_id = tid, ti_content = content, ti_status = st\<rparr> items)) +
      mset (map parsed_facts ps) \<and>
      ids_of (todo_insert \<lparr>ti_id = tid, ti_content = content, ti_status = st\<rparr> items) \<union> set (explicit_ids ps) \<subseteq> ids_of items'"
    using 2 by (intro "2.IH") (auto simp: by_id_insert ids_insert)
  then show ?case
    using "2.prems" by (simp add: mset_insert ids_insert)
next
  case (3 used "next" items content st ps)
  then obtain t where t: "free_id used next = Some t" by (auto split: option.splits)
  then have new: "t \<notin> used" by (simp add: free_id_Some)
  let ?i = "\<lparr>ti_id = t, ti_content = content, ti_status = st\<rparr>"
  have "by_id items' \<and> mset (map item_facts items') =
      mset (map item_facts (todo_insert ?i items)) + mset (map parsed_facts ps) \<and>
      ids_of (todo_insert ?i items) \<union> set (explicit_ids ps) \<subseteq> ids_of items'"
    using "3.prems" t new by (intro "3.IH" [OF t]) (auto simp: by_id_insert ids_insert)
  moreover have "t \<notin> ids_of items" using new "3.prems" by auto
  ultimately show ?case
    by (simp add: mset_insert ids_insert)
qed simp

lemma demote_frame [simp]:
  "map item_facts (demote b is) = map item_facts is" "ids_of (demote b is) = ids_of is"
  "map ti_id (demote b is) = map ti_id is"
  by (induction b "is" rule: demote.induct) (auto simp: item_facts_def)

lemma by_id_ids: "by_id is \<longleftrightarrow> sorted_wrt (<) (map ti_id is)"
  by (simp add: by_id_def sorted_wrt_map)

lemma demote_one:
  "length (filter (\<lambda>i. ti_status i = Todo_InProgress) (demote b is)) \<le> (if b then 0 else 1)"
proof (induction b "is" rule: demote.induct)
  case (2 b i "is")
  then show ?case by (cases b) (auto split: if_splits)
qed simp

text \<open>
  Saving a checklist loses nothing: the stored list is in strictly increasing id
  order, holds exactly the texts and the completions of the entries sent, keeps every id the model
  supplied (so an automatic id never overwrites a sibling), and has at most one item in progress.
\<close>

theorem todo_plan_keeps:
  assumes "todo_plan next entries = Inr (next', items)"
  shows "sorted_wrt (<) (map ti_id items) \<and>
    mset (map item_facts items) = mset (map entry_facts entries) \<and>
    set (List.map_filter explicit_id entries) \<subseteq> ti_id ` set items \<and>
    length (filter (\<lambda>i. ti_status i = Todo_InProgress) items) \<le> MAX_ACTIVE_ITEMS"
proof -
  from assms obtain used n ps raw where p: "todo_parse {} next entries = Inr (used, n, ps)"
    and a: "todo_assign used n [] ps = Inr (next', raw)" and i: "items = demote False raw"
    by (auto simp: todo_plan_def split: sum.splits)
  from todo_parse_spec [OF p] have ps: "map parsed_facts ps = map entry_facts entries"
    "map fst ps = map explicit_id entries" "used = set (explicit_ids ps)" "distinct (explicit_ids ps)"
    by auto
  from todo_assign_spec [OF a] ps(3,4) have r: "by_id raw"
    "mset (map item_facts raw) = mset (map parsed_facts ps)" "set (explicit_ids ps) \<subseteq> ids_of raw"
    by auto
  have "explicit_ids ps = List.map_filter explicit_id entries"
    using arg_cong [OF ps(2), of "List.map_filter (\<lambda>x. x)"]
    by (simp add: explicit_ids_def List.map_filter_def filter_map o_def)
  with r ps(1) show ?thesis
    using demote_one [of False raw]
    by (simp add: i by_id_ids MAX_ACTIVE_ITEMS_def flip: ids_of_def del: mset_map)
qed

theorem todo_plan_keeps_witness:
  "let items = [\<lparr>ti_id = 2, ti_content = lit ''b'', ti_status = Todo_InProgress\<rparr>,
                \<lparr>ti_id = 3, ti_content = lit ''a'', ti_status = Todo_Pending\<rparr>]
   in length (filter (\<lambda>i. ti_status i = Todo_InProgress) items) \<le> MAX_ACTIVE_ITEMS"
proof -
  have "todo_plan 1 [JObj [(lit ''content'', JStr (lit ''a'')), (lit ''status'', JStr (lit ''in_progress''))],
      JObj [(lit ''id'', JInt 2), (lit ''content'', JStr (lit ''b'')), (lit ''status'', JStr (lit ''in_progress''))]] =
    Inr (4, [\<lparr>ti_id = 2, ti_content = lit ''b'', ti_status = Todo_InProgress\<rparr>,
             \<lparr>ti_id = 3, ti_content = lit ''a'', ti_status = Todo_Pending\<rparr>])"
  proof -
    have t: "trim (lit ''a'') = lit ''a''" "trim (lit ''b'') = lit ''b''" by code_simp+
    show ?thesis
      by (simp add: todo_plan_def todo_content_def todo_parse_status_def explicit_id_def t
          MAX_TODO_ID_def sat_suc_def USIZE_MAX_def free_id.simps)
  qed
  from todo_plan_keeps [OF this] show ?thesis by (simp add: Let_def)
qed

end
