(* ===== verification/Run_Loop.thy ===== *)
theory Run_Loop
  imports Tool_Results Run_Budget Run_Turn Todo_List Retrieval
begin

text \<open>
  The agent loop (\<open>runs/engine/execute.rs\<close>) with \<open>AgentModePolicy\<close>, the budget handshake of
  \<open>execute_budget.rs\<close> and the exits of \<open>finish.rs\<close>. One pass of the loop is \<open>run_iter\<close>, a function
  of the loop's variables and of what the outside answers in that pass (the record \<open>iter\<close>); the
  loop runs it over an arbitrary infinite sequence of such answers. Emitted events are kept by
  kind, messages persisted to the conversation in \<open>x_stored\<close>, checkpoints in \<open>x_checkpoints\<close>, the
  message lists sent to the provider in \<open>x_requests\<close>. \<open>x_effects\<close> and \<open>x_checks\<close> are history variables
  the code does not have: what the calls that succeeded so far mean to the two verification gates.
\<close>

section \<open>Inputs\<close>

record policy =
  checkpointing :: bool
  checkpoint_every_steps :: u32
  stagnation_detection :: bool
  strict_verification :: bool
  budget_extension :: bool
  background_processes :: bool
  persistent_browser :: bool
  context_tiered_summary :: bool

definition policy_default :: policy where
  "policy_default = \<lparr>checkpointing = True, checkpoint_every_steps = 10, stagnation_detection = True,
     strict_verification = True, budget_extension = True, background_processes = True,
     persistent_browser = True, context_tiered_summary = True\<rparr>"

record checkpoint =
  ck_step :: u32
  ck_tool_calls :: u32
  ck_messages :: "history_message list"

record request =
  q_mode :: mode
  q_verify_command :: "ustr option"
  q_format_command :: "ustr option"
  q_context_window :: u32
  q_temporary :: bool
  q_user_message :: ustr
  q_history :: "history_message list"
  q_resume :: "checkpoint option"

text \<open>Fixed for a run: the JSON library, the DSML repair, and path normalisation on the run's root.\<close>

record world =
  parse_json :: "ustr \<Rightarrow> json option"
  show_json :: "json \<Rightarrow> ustr"
  encoded_len :: "json list \<Rightarrow> nat option"
  heal :: "ustr \<Rightarrow> (ustr \<times> tool_call list) option"
  normal_path :: "ustr \<Rightarrow> ustr option"

text \<open>
  One pass: the cancellation flag at the head and after the turn, queued steering, the clock, the
  answer of \<open>await_budget_extension\<close>, the checklist as the todo tool left it, the summariser, the provider's stream, what retrieval found (\<open>None\<close> when it failed), the dispatches, and the outcomes of the
  formatter and of the project's check.
\<close>

record iter =
  it_cancelled :: bool
  it_steering :: "ustr list"
  it_now :: instant
  it_grant :: "bool option"
  it_grant_now :: instant
  it_todos :: "todo_item list"
  it_summarize :: "message list \<Rightarrow> ustr option"
  it_stream :: "ustr + stream_input list"
  it_cancelled_turn :: bool
  it_retrieved_hint :: "retrieved_block option"
  it_retrieved_check :: "retrieved_block option"
  it_sched :: sched_env
  it_format :: "ustr + tool_output"
  it_check :: "ustr + tool_output"

section \<open>State and outcome\<close>

record run =
  x_messages :: "message list"
  x_steps :: u32
  x_total_calls :: u32
  x_all_calls :: "tool_record list"
  x_final_text :: ustr
  x_final_reasoning :: ustr
  x_last_usage :: "usage option"
  x_totals :: run_usage
  x_last_finish :: "ustr option"
  x_detector :: detector
  x_ledger :: ledger
  x_signals :: "turn_signal list"
  x_repair_turns :: u32
  x_auto_verified :: bool
  x_plan_approved :: bool
  x_summary :: tiered_summary
  x_budget :: budget
  x_fingerprints :: "(ustr \<times> u64) list"
  x_stored :: "history_message list"
  x_checkpoints :: "checkpoint list"
  x_last_todos :: "todo_item list"
  x_extractions :: "(ustr \<times> ustr) list"
  x_requests :: "message list list"
  x_effects :: "(ustr \<times> json) gate_event list"
  x_checks :: "check_call list"
  x_events :: "string list"

datatype run_end = Concluded | Unverified | Stopped string | WasCancelled | TurnFailed ustr

record run_result =
  res_end :: run_end
  res_status :: run_status
  res_text :: ustr
  res_reasoning :: ustr
  res_state :: run

definition MAX_UNVERIFIED_REPAIR_TURNS :: u32 where "MAX_UNVERIFIED_REPAIR_TURNS = 2"
definition GOAL_PREVIEW_CHARS :: nat where "GOAL_PREVIEW_CHARS = 200"

definition say :: "string \<Rightarrow> run \<Rightarrow> run" where
  "say kind st = st\<lparr>x_events := x_events st @ [kind]\<rparr>"

definition push_message :: "message \<Rightarrow> run \<Rightarrow> run" where
  "push_message m st = st\<lparr>x_messages := x_messages st @ [m]\<rparr>"

definition append_message :: "world \<Rightarrow> message \<Rightarrow> run \<Rightarrow> run" where
  "append_message w m st = st\<lparr>x_stored := x_stored st @ [message_to_history (encoded_len w) m]\<rparr>"

definition user_note :: "ustr \<Rightarrow> message" where
  "user_note text = message_text (lit ''user'') text"

section \<open>Exits\<close>

definition finish_run :: "run_end \<Rightarrow> run_status \<Rightarrow> ustr \<Rightarrow> ustr \<Rightarrow> run \<Rightarrow> run_result" where
  "finish_run e status text reasoning st =
     \<lparr>res_end = e, res_status = status, res_text = text, res_reasoning = reasoning,
      res_state = say ''status'' st\<rparr>"

definition finish_cancelled :: "world \<Rightarrow> ustr \<Rightarrow> ustr \<Rightarrow> run \<Rightarrow> run_result" where
  "finish_cancelled w text reasoning st =
     finish_run WasCancelled Cancelled text reasoning
       (if text \<noteq> [] \<or> reasoning \<noteq> []
        then append_message w (message_text (lit ''assistant'') text) st else st)"

section \<open>The head of a pass\<close>

definition steer_one :: "world \<Rightarrow> ustr \<Rightarrow> run \<Rightarrow> run" where
  "steer_one w text st =
     (let m = user_note (lit ''[user interjection] '' @ text)
      in say ''steering_applied'' (push_message m (append_message w m st)))"

definition apply_steering :: "world \<Rightarrow> ustr list \<Rightarrow> run \<Rightarrow> run" where
  "apply_steering w texts st = fold (steer_one w) texts st"

text \<open>The budget gate: pass, go on after a granted extension, or leave.\<close>

definition budget_gate :: "world \<Rightarrow> iter \<Rightarrow> run \<Rightarrow> run_result + run" where
  "budget_gate w it st =
     (case budget_check (x_budget st) (it_now it) (x_steps st) (x_total_calls st) of
        Ok \<Rightarrow> Inr st
      | Exhausted reason \<Rightarrow>
          (let st = say ''budget_extension_requested'' st
           in case it_grant it of
                None \<Rightarrow> Inl (finish_cancelled w (x_final_text st) (x_final_reasoning st) st)
              | Some grant \<Rightarrow>
                  (let (extended, b) = (if grant then budget_extend (x_budget st) (it_grant_now it) else (False, x_budget st));
                       stop_reason = (if \<not> grant then ''budget_declined'' else ''budget_grants_exhausted'')
                   in if extended then Inr (st\<lparr>x_budget := b\<rparr>)
                      else Inl (finish_run (Stopped stop_reason) Completed (x_final_text st) (x_final_reasoning st) st))))"

text \<open>Head block, compression, and the request the provider gets.\<close>

definition task_state_for :: "request \<Rightarrow> task_state" where
  "task_state_for req =
     \<lparr>goal = take GOAL_PREVIEW_CHARS (q_user_message req), plan = [], pending = [], important_facts = [],
      artifacts = [], open_questions = []\<rparr>"

definition with_head :: "ustr \<Rightarrow> message list \<Rightarrow> message list" where
  "with_head head ms = (if trim head = [] then ms else message_text (lit ''system'') head # ms)"

definition head_of :: "policy \<Rightarrow> request \<Rightarrow> iter \<Rightarrow> ustr" where
  "head_of pol req it =
     (if context_tiered_summary pol then render_head (task_state_for req) (it_todos it) else [])"

definition prepare_request :: "policy \<Rightarrow> request \<Rightarrow> iter \<Rightarrow> run \<Rightarrow> run \<times> message list" where
  "prepare_request pol req it st =
     (let st = (if it_todos it \<noteq> x_last_todos st then say ''todo_list'' (st\<lparr>x_last_todos := it_todos it\<rparr>) else st);
          current = with_head (head_of pol req it) (x_messages st)
      in if context_tiered_summary pol then
           (let out = compress_with_budget (it_summarize it) current (x_summary st) (q_context_window req);
                st = st\<lparr>x_summary := co_summary out\<rparr>
            in if \<not> co_skipped out \<or> co_evicted out > 0
               then (say ''context_summary'' (st\<lparr>x_messages := strip_head (co_messages out)\<rparr>), co_messages out)
               else (st, co_messages out))
         else (st, current))"

section \<open>After the turn\<close>

definition note_usage :: "turn_result \<Rightarrow> run \<Rightarrow> run" where
  "note_usage t st =
     (let st = (case t_usage t of
           Some u \<Rightarrow> say ''usage'' (st\<lparr>x_budget := record_usage (x_budget st) (u_input u) (u_output u),
                        x_totals := usage_record (x_totals st) u\<rparr>)
         | None \<Rightarrow> st)
      in st\<lparr>x_last_usage := t_usage t, x_last_finish := t_finish t,
            x_final_reasoning := (if t_reasoning t \<noteq> [] then t_reasoning t else x_final_reasoning st)\<rparr>)"

definition push_retrieved :: "bool \<Rightarrow> retrieved_block option \<Rightarrow> run \<Rightarrow> run" where
  "push_retrieved temporary block st =
     (if temporary then st
      else case Option.bind block to_message of Some m \<Rightarrow> push_message m st | None \<Rightarrow> st)"

definition repair_hint :: "string \<Rightarrow> ustr" where
  "repair_hint hint = lit ''[self-repair hint] '' @ lit hint @ lit '' '' @ [8212] @ lit '' adjust the approach before retrying.''"

definition detect_stagnation :: "policy \<Rightarrow> request \<Rightarrow> iter \<Rightarrow> turn_result \<Rightarrow> run \<Rightarrow> run" where
  "detect_stagnation pol req it t st =
     (let signals = (if t_tool_calls t = [] \<and> t_error t = None then [Progress] else x_signals st);
          st = st\<lparr>x_signals := []\<rparr>
      in if stagnation_detection pol then
           (let (report, d) = observe (x_detector st) signals;
                st = st\<lparr>x_detector := d\<rparr>
            in case report of
                 Some r \<Rightarrow> push_message (user_note (repair_hint (sr_hint r)))
                   (push_retrieved (q_temporary req) (it_retrieved_hint it) (say ''stagnation_detected'' st))
               | None \<Rightarrow> st)
         else st)"

section \<open>Concluding\<close>

definition gate_open :: "policy \<Rightarrow> ledger \<Rightarrow> bool" where
  "gate_open pol l \<longleftrightarrow> \<not> (strict_verification pol \<and> (is_blocked l \<or> needs_verification l))"

definition verification_hint :: "request \<Rightarrow> ledger \<Rightarrow> ustr" where
  "verification_hint req l =
     (let out = outstanding l; un = unverified l;
          read_back = (if is_blocked l then
            [lit ''You have not confirmed the effect of '' @ str_join (lit '', '') out @
             lit ''. Read the affected path back and state what is actually there before you conclude. Outstanding: '' @
             (case last_reason l of Some r \<Rightarrow> r | None \<Rightarrow> lit ''unconfirmed change'') @ lit ''.''] else []);
          check = (if needs_verification l then
            [lit ''You changed '' @ show_nat (length un) @
             lit '' file(s) but have not run the project check. Run `'' @
             (case verify_command l of Some c \<Rightarrow> c | None \<Rightarrow> []) @
             lit ''` and report what it actually said before you conclude.'' @
             (case q_format_command req of Some c \<Rightarrow> lit '' Run `'' @ c @ lit ''` first if you have not.'' | None \<Rightarrow> []) @
             [10] @ lit ''Unverified: '' @ str_join (lit '', '') un @ lit ''.''] else [])
      in lit ''[verification] '' @ str_join (lit '' '') (read_back @ check))"

definition spawn_memory_extraction :: "request \<Rightarrow> run \<Rightarrow> run" where
  "spawn_memory_extraction req st =
     (if q_temporary req then st
      else st\<lparr>x_extractions := x_extractions st @ [(q_user_message req, x_final_text st)]\<rparr>)"

definition conclude :: "world \<Rightarrow> request \<Rightarrow> run_end \<Rightarrow> turn_result \<Rightarrow> run \<Rightarrow> run_result" where
  "conclude w req e t st =
     (let m = message_text (lit ''assistant'') (t_text t);
          st = push_message m (append_message w m (st\<lparr>x_final_text := t_text t\<rparr>));
          st = spawn_memory_extraction req (if t_text t \<noteq> [] then say ''message'' st else st)
      in finish_run e Completed (x_final_text st) (x_final_reasoning st) st)"

definition no_tools :: "world \<Rightarrow> policy \<Rightarrow> request \<Rightarrow> iter \<Rightarrow> turn_result \<Rightarrow> run \<Rightarrow> run_result + run" where
  "no_tools w pol req it t st =
     (if \<not> gate_open pol (x_ledger st) then
        (if x_repair_turns st \<ge> MAX_UNVERIFIED_REPAIR_TURNS then
           Inl (conclude w req Unverified t (say ''verification_failed'' st))
         else
           (let st = say ''verification_required'' (st\<lparr>x_repair_turns := x_repair_turns st + 1\<rparr>);
                st = push_retrieved (q_temporary req) (it_retrieved_check it) st
            in Inr (push_message (user_note (verification_hint req (x_ledger st))) st)))
      else Inl (conclude w req Concluded t st))"

section \<open>Running the calls of a turn\<close>

definition decode_args :: "world \<Rightarrow> tool_call \<Rightarrow> json" where
  "decode_args w c = (case parse_json w (tc_arguments c) of Some v \<Rightarrow> v | None \<Rightarrow> JNull)"

definition command_outcome :: "world \<Rightarrow> ustr + tool_output \<Rightarrow> bool \<times> ustr" where
  "command_outcome w r =
     (case r of
        Inr out \<Rightarrow> (o_ok out \<and> exit_code_of (o_content out) = Some 0, show_json w (o_content out))
      | Inl e \<Rightarrow> (False, lit ''Error: '' @ e))"

definition auto_format :: "world \<Rightarrow> request \<Rightarrow> iter \<Rightarrow> bool \<Rightarrow> run \<Rightarrow> run" where
  "auto_format w req it step_mutated st =
     (case (if step_mutated then Option.bind (q_format_command req) (\<lambda>c. if trim c = [] then None else Some (trim c))
            else None) of
        None \<Rightarrow> st
      | Some command \<Rightarrow>
          (let (ok, output) = command_outcome w (it_format it); st = say ''format_applied'' st
           in if ok then st
              else push_message (user_note (lit ''[auto-format] `'' @ command @
                lit ''` failed. Fix the cause before you conclude:'' @ [10] @ output)) st))"

definition auto_verify :: "world \<Rightarrow> policy \<Rightarrow> iter \<Rightarrow> run \<Rightarrow> run" where
  "auto_verify w pol it st =
     (if strict_verification pol \<and> needs_verification (x_ledger st) \<and> \<not> x_auto_verified st then
        (case verify_command (x_ledger st) of
           None \<Rightarrow> st
         | Some command \<Rightarrow>
             (let (ok, output) = command_outcome w (it_check it);
                  st = st\<lparr>x_auto_verified := True, x_ledger := note_command command ok (x_ledger st),
                           x_checks := x_checks st @ [Command command ok]\<rparr>
              in push_message (user_note
                   (if ok then lit ''[auto-verify] `'' @ command @ lit ''` passed.''
                    else lit ''[auto-verify] `'' @ command @ lit ''` failed:'' @ [10] @ output)) st))
      else st)"

definition reset_repairs :: "run \<Rightarrow> run" where
  "reset_repairs st =
     (if \<not> is_blocked (x_ledger st) \<and> \<not> needs_verification (x_ledger st)
      then st\<lparr>x_repair_turns := 0\<rparr> else st)"

definition save_checkpoint :: "world \<Rightarrow> policy \<Rightarrow> run \<Rightarrow> run" where
  "save_checkpoint w pol st =
     (if checkpointing pol \<and> checkpoint_every_steps pol > 0
         \<and> x_steps st mod checkpoint_every_steps pol = 0
      then say ''checkpoint_saved'' (st\<lparr>x_checkpoints := x_checkpoints st @
        [\<lparr>ck_step = x_steps st, ck_tool_calls = x_total_calls st,
          ck_messages = map (message_to_history (encoded_len w)) (x_messages st)\<rparr>]\<rparr>)
      else st)"

definition plan_note :: ustr where
  "plan_note = lit ''[plan approved] The user approved this plan. Plan mode is lifted for the rest of this Run: make the changes now, run the project's check, and report what you actually verified.''"

definition post_start :: "run \<Rightarrow> sched \<Rightarrow> post" where
  "post_start st s =
     \<lparr>p_ledger = x_ledger st, p_signals = s_signals s, p_all_calls = x_all_calls st,
      p_fingerprints = x_fingerprints st, p_plan_approved = x_plan_approved st,
      p_plan_handoff = False, p_step_mutated = False, p_messages = []\<rparr>"

definition announce_calls :: "world \<Rightarrow> turn_result \<Rightarrow> run \<Rightarrow> run" where
  "announce_calls w t st =
     (let m = with_native (assistant_with_tools (t_text t) (t_tool_calls t)) (t_native t);
          st = push_message m (append_message w m st)
      in if t_text t \<noteq> [] then say ''message'' st else st)"

definition turn_calls :: "world \<Rightarrow> turn_result \<Rightarrow> (tool_call \<times> json) list" where
  "turn_calls w t = map (\<lambda>c. (c, decode_args w c)) (t_tool_calls t)"

definition scheduled :: "world \<Rightarrow> policy \<Rightarrow> request \<Rightarrow> iter \<Rightarrow> turn_result \<Rightarrow> run \<Rightarrow> sched" where
  "scheduled w pol req it t st =
     schedule (show_json w) (it_sched it) (strict_verification pol)
       (mode_is_read_only (q_mode req) \<and> \<not> x_plan_approved st) (turn_calls w t)
       (x_total_calls st) (x_detector st) (x_signals st)"

definition processed :: "world \<Rightarrow> policy \<Rightarrow> request \<Rightarrow> turn_result \<Rightarrow> sched \<Rightarrow> run \<Rightarrow> post" where
  "processed w pol req t s st =
     post_loop \<lparr>normalize = normal_path w, pe_show_json = show_json w,
                pe_strict = strict_verification pol, pe_mode = q_mode req\<rparr>
       (post_input (turn_calls w t) s) (post_start st s)"

definition take_results :: "world \<Rightarrow> turn_result \<Rightarrow> sched \<Rightarrow> post \<Rightarrow> run \<Rightarrow> run" where
  "take_results w t s p st =
     (let st = fold (append_message w) (p_messages p) st;
          st = st\<lparr>x_total_calls := s_total s, x_detector := s_detector s, x_signals := p_signals p,
                 x_all_calls := p_all_calls p, x_fingerprints := p_fingerprints p,
                 x_plan_approved := p_plan_approved p, x_ledger := p_ledger p,
                 x_effects := x_effects st @ batch_effects (turn_calls w t) (s_results s),
                 x_checks := x_checks st @ batch_checks (turn_calls w t) (s_results s),
                 x_events := x_events st @ s_events s, x_messages := x_messages st @ p_messages p\<rparr>
      in if p_plan_handoff p then push_message (user_note plan_note) st else st)"

definition with_tools :: "world \<Rightarrow> policy \<Rightarrow> request \<Rightarrow> iter \<Rightarrow> turn_result \<Rightarrow> run \<Rightarrow> run" where
  "with_tools w pol req it t st =
     (let st = announce_calls w t st;
          s = scheduled w pol req it t st;
          p = processed w pol req t s st;
          st = take_results w t s p st
      in save_checkpoint w pol (reset_repairs (auto_verify w pol it (auto_format w req it (p_step_mutated p) st))))"

section \<open>One pass and the loop\<close>

definition run_iter :: "world \<Rightarrow> policy \<Rightarrow> request \<Rightarrow> iter \<Rightarrow> run \<Rightarrow> run_result + run" where
  "run_iter w pol req it st =
     (if it_cancelled it then Inl (finish_cancelled w (x_final_text st) (x_final_reasoning st) st)
      else case budget_gate w it (apply_steering w (it_steering it) st) of
        Inl r \<Rightarrow> Inl r
      | Inr st \<Rightarrow>
          (let (st, current) = prepare_request pol req it (st\<lparr>x_steps := x_steps st + 1\<rparr>);
               st = st\<lparr>x_requests := x_requests st @ [current]\<rparr>;
               t = fst (run_turn (heal w) (it_stream it))
           in if it_cancelled_turn it then Inl (finish_cancelled w (t_text t) (t_reasoning t) st)
              else case t_error t of
                Some err \<Rightarrow> Inl (finish_run (TurnFailed err) Failed (x_final_text st) (x_final_reasoning st) (say ''error'' st))
              | None \<Rightarrow>
                  (let st = detect_stagnation pol req it t (note_usage t st)
                   in if t_tool_calls t = [] then no_tools w pol req it t st
                      else Inr (with_tools w pol req it t st))))"

section \<open>The start of a run\<close>

text \<open>
  What the start reads: whether the provider is configured, the clock, the stored budget of the run
  row, the retrieved block (\<open>None\<close> when retrieval failed), the latest recorded usage.
\<close>

record start =
  so_configured :: bool
  so_now :: instant
  so_stored :: "json option"
  so_block :: "retrieved_block option"
  so_usage :: "run_usage option"

definition start_budget :: "request \<Rightarrow> start \<Rightarrow> budget" where
  "start_budget req so =
     (let base = budget_for_mode (q_mode req) (so_now so)
      in case so_stored so of Some v \<Rightarrow> from_json_with_base v base (so_now so) | None \<Rightarrow> base)"

definition start_messages :: "request \<Rightarrow> start \<Rightarrow> message list \<times> string list" where
  "start_messages req so =
     (case q_resume req of
        Some ck \<Rightarrow> (map history_to_message (ck_messages ck), [])
      | None \<Rightarrow>
          (let ms = map history_to_message (q_history req) @ [user_note (q_user_message req)]
           in case (if q_temporary req then None else Option.bind (so_block so) to_message) of
                Some m \<Rightarrow> (m # ms, [''message'', ''context_summary''])
              | None \<Rightarrow> (ms, [''message''])))"

definition start_totals :: "request \<Rightarrow> start \<Rightarrow> run_usage" where
  "start_totals req so =
     (case (if q_resume req \<noteq> None then so_usage so else None) of
        Some previous \<Rightarrow> previous\<lparr>ru_window := q_context_window req\<rparr>
      | None \<Rightarrow> run_usage_default\<lparr>ru_window := q_context_window req\<rparr>)"

definition run_init :: "request \<Rightarrow> start \<Rightarrow> run" where
  "run_init req so =
     \<lparr>x_messages = fst (start_messages req so),
      x_steps = (case q_resume req of Some ck \<Rightarrow> ck_step ck | None \<Rightarrow> 0),
      x_total_calls = (case q_resume req of Some ck \<Rightarrow> ck_tool_calls ck | None \<Rightarrow> 0),
      x_all_calls = [], x_final_text = [], x_final_reasoning = [], x_last_usage = None,
      x_totals = start_totals req so, x_last_finish = None, x_detector = detector_new,
      x_ledger = ledger_new (q_verify_command req), x_signals = [], x_repair_turns = 0,
      x_auto_verified = False, x_plan_approved = False, x_summary = tiered_new,
      x_budget = start_budget req so, x_fingerprints = [], x_stored = [], x_checkpoints = [],
      x_last_todos = [], x_extractions = [], x_requests = [], x_effects = [], x_checks = [],
      x_events = snd (start_messages req so) @ [''status'', ''model_selected'']\<rparr>"

section \<open>The loop ends\<close>

text \<open>
  The contract of a metered loop: a pass that goes on either consumes one of the remaining grants,
  or leaves grants and limit alone and advances the counter below the limit.
\<close>

locale metered_loop =
  fixes pass :: "'i \<Rightarrow> 's \<Rightarrow> 'r + 's"
    and grants :: "'s \<Rightarrow> nat" and limit :: "'s \<Rightarrow> nat" and used :: "'s \<Rightarrow> nat"
  assumes pass_used: "pass i s = Inr s' \<Longrightarrow> used s' \<le> Suc (used s)"
    and pass_metered: "pass i s = Inr s' \<Longrightarrow>
      (Suc (grants s') = grants s \<and> limit s' \<le> 2 * limit s) \<or>
      (grants s' = grants s \<and> limit s' = limit s \<and> used s < limit s \<and> used s' = Suc (used s))"
begin

lemma decreases: "pass i s = Inr s' \<Longrightarrow> (s', s) \<in> measures [grants, \<lambda>s. limit s - used s]"
  using pass_metered [of i s s'] by auto

text \<open>What the counter can ever reach: the limit doubled once per grant, or where it started.\<close>

definition ceiling :: "'s \<Rightarrow> nat" where
  "ceiling s = max (used s) (limit s * 2 ^ grants s) + grants s"

lemma ceiling_pass:
  assumes "pass i s = Inr s'"
  shows "ceiling s' \<le> ceiling s"
  using pass_metered [OF assms]
proof
  assume g: "Suc (grants s') = grants s \<and> limit s' \<le> 2 * limit s"
  then have "limit s' * 2 ^ grants s' \<le> 2 * limit s * 2 ^ grants s'" by simp
  also have "\<dots> = limit s * 2 ^ grants s" using g by (simp flip: g [THEN conjunct1])
  finally show ?thesis
    using g pass_used [OF assms] by (auto simp: ceiling_def max_def)
next
  assume g: "grants s' = grants s \<and> limit s' = limit s \<and> used s < limit s \<and> used s' = Suc (used s)"
  moreover have "limit s \<le> limit s * 2 ^ grants s" by simp
  ultimately have "Suc (used s) \<le> limit s * 2 ^ grants s" by linarith
  with g show ?thesis by (simp add: ceiling_def)
qed

end

definition run_grants :: "run \<Rightarrow> nat" where "run_grants st = grants_left (x_budget st)"
definition run_limit :: "run \<Rightarrow> nat" where "run_limit st = unat (step_limit (x_budget st))"
definition run_used :: "run \<Rightarrow> nat" where "run_used st = unat (x_steps st)"

lemmas run_meters = run_grants_def run_limit_def run_used_def

definition same_meter :: "run \<Rightarrow> run \<Rightarrow> bool" where
  "same_meter st st' \<longleftrightarrow> x_steps st' = x_steps st \<and> step_limit (x_budget st') = step_limit (x_budget st) \<and>
     grants_left (x_budget st') = grants_left (x_budget st)"

lemma same_meter_refl [simp]: "same_meter st st"
  by (simp add: same_meter_def)

lemma same_meter_trans: "same_meter a b \<Longrightarrow> same_meter b c \<Longrightarrow> same_meter a c"
  by (simp add: same_meter_def)

lemma frame_simps [simp]:
  "x_steps (say k st) = x_steps st" "x_budget (say k st) = x_budget st"
  "x_steps (push_message m st) = x_steps st" "x_budget (push_message m st) = x_budget st"
  "x_steps (append_message w m st) = x_steps st" "x_budget (append_message w m st) = x_budget st"
  "x_steps (push_retrieved b mo st) = x_steps st" "x_budget (push_retrieved b mo st) = x_budget st"
  "x_steps (steer_one w text st) = x_steps st" "x_budget (steer_one w text st) = x_budget st"
  by (simp_all add: say_def push_message_def append_message_def push_retrieved_def steer_one_def Let_def
      split: option.split)

lemma frame_fold [simp]:
  "x_steps (fold (append_message w) ms st) = x_steps st" "x_budget (fold (append_message w) ms st) = x_budget st"
  "x_steps (apply_steering w texts st) = x_steps st" "x_budget (apply_steering w texts st) = x_budget st"
proof -
  show "x_steps (fold (append_message w) ms st) = x_steps st" "x_budget (fold (append_message w) ms st) = x_budget st"
    by (induction ms arbitrary: st) simp_all
  show "x_steps (apply_steering w texts st) = x_steps st" "x_budget (apply_steering w texts st) = x_budget st"
    unfolding apply_steering_def by (induction texts arbitrary: st) simp_all
qed

lemma frame_steps [simp]:
  "x_steps (fst (prepare_request pol req it st)) = x_steps st"
  "x_budget (fst (prepare_request pol req it st)) = x_budget st"
  "x_steps (detect_stagnation pol req it t st) = x_steps st"
  "x_budget (detect_stagnation pol req it t st) = x_budget st"
  "x_steps (note_usage t st) = x_steps st"
  by (simp_all add: prepare_request_def detect_stagnation_def note_usage_def Let_def split_beta
      split: option.split)

lemma note_usage_meter: "same_meter st (note_usage t st)"
  by (simp add: note_usage_def same_meter_def Let_def split: option.split)

lemma frame_tools [simp]:
  "x_steps (auto_format w req it b st) = x_steps st" "x_budget (auto_format w req it b st) = x_budget st"
  "x_steps (auto_verify w pol it st) = x_steps st" "x_budget (auto_verify w pol it st) = x_budget st"
  "x_steps (reset_repairs st) = x_steps st" "x_budget (reset_repairs st) = x_budget st"
  "x_steps (save_checkpoint w pol st) = x_steps st" "x_budget (save_checkpoint w pol st) = x_budget st"
  by (simp_all add: auto_format_def auto_verify_def reset_repairs_def save_checkpoint_def Let_def split_beta
      split: option.split)

lemma frame_calls [simp]:
  "x_steps (announce_calls w t st) = x_steps st" "x_budget (announce_calls w t st) = x_budget st"
  "x_steps (take_results w t s p st) = x_steps st" "x_budget (take_results w t s p st) = x_budget st"
  by (simp_all add: announce_calls_def take_results_def Let_def)

lemma with_tools_frame [simp]:
  "x_steps (with_tools w pol req it t st) = x_steps st"
  "x_budget (with_tools w pol req it t st) = x_budget st"
  by (simp_all add: with_tools_def Let_def)

lemma no_tools_frame:
  "no_tools w pol req it t st = Inr st' \<Longrightarrow> x_steps st' = x_steps st \<and> x_budget st' = x_budget st"
  by (auto simp: no_tools_def Let_def split: if_splits)

text \<open>One pass that goes on, taken apart.\<close>

definition turn_of :: "world \<Rightarrow> iter \<Rightarrow> turn_result" where
  "turn_of w it = fst (run_turn (heal w) (it_stream it))"

definition before_turn :: "policy \<Rightarrow> request \<Rightarrow> iter \<Rightarrow> run \<Rightarrow> run" where
  "before_turn pol req it g =
     (let (st, current) = prepare_request pol req it (g\<lparr>x_steps := x_steps g + 1\<rparr>)
      in st\<lparr>x_requests := x_requests st @ [current]\<rparr>)"

definition after_turn :: "world \<Rightarrow> policy \<Rightarrow> request \<Rightarrow> iter \<Rightarrow> run \<Rightarrow> run" where
  "after_turn w pol req it g =
     detect_stagnation pol req it (turn_of w it) (note_usage (turn_of w it) (before_turn pol req it g))"

lemma run_iter_Inr:
  assumes "run_iter w pol req it st = Inr st'"
  shows "\<exists>g. budget_gate w it (apply_steering w (it_steering it) st) = Inr g \<and> t_error (turn_of w it) = None \<and>
     (if t_tool_calls (turn_of w it) = []
      then no_tools w pol req it (turn_of w it) (after_turn w pol req it g) = Inr st'
      else st' = with_tools w pol req it (turn_of w it) (after_turn w pol req it g))"
  using assms
  by (auto simp: run_iter_def turn_of_def after_turn_def before_turn_def Let_def split_beta
      split: if_splits sum.splits option.splits)

lemma after_turn_meter: "same_meter (g\<lparr>x_steps := x_steps g + 1\<rparr>) (after_turn w pol req it g)"
  using note_usage_meter [of "before_turn pol req it g" "turn_of w it"]
  by (simp add: same_meter_def after_turn_def before_turn_def split_beta)

lemma budget_gate_Inr:
  assumes "budget_gate w it st = Inr g"
  shows "(g = st \<and> budget_check (x_budget st) (it_now it) (x_steps st) (x_total_calls st) = Ok) \<or>
    (\<exists>b. budget_extend (x_budget st) (it_grant_now it) = (True, b) \<and>
       g = (say ''budget_extension_requested'' st)\<lparr>x_budget := b\<rparr>)"
  using assms
  by (auto simp: budget_gate_def Let_def split: budget_verdict.splits option.splits if_splits prod.splits)

lemma unat_sat_mul_2: "unat (sat_mul x (2 :: u32)) \<le> 2 * unat x"
  by (simp add: unat_sat_mul)

lemma unat_suc_le: "unat (x + 1 :: u32) \<le> Suc (unat x)"
  by (simp add: unat_word_ariths)

lemma unat_suc_below: "x < y \<Longrightarrow> unat (x + 1 :: u32) = Suc (unat x)"
  using unat_bound [of y] by (simp add: unat_word_ariths word_less_nat_alt)

lemma run_iter_meter:
  assumes "run_iter w pol req it st = Inr st'"
  shows "x_steps st' = x_steps st + 1 \<and>
    ((step_limit (x_budget st') = step_limit (x_budget st) \<and> run_grants st' = run_grants st \<and> x_steps st < step_limit (x_budget st)) \<or>
     (Suc (run_grants st') = run_grants st \<and> step_limit (x_budget st') = sat_mul (step_limit (x_budget st)) 2))"
proof -
  from run_iter_Inr [OF assms] obtain g where
    g: "budget_gate w it (apply_steering w (it_steering it) st) = Inr g" and
    e: "if t_tool_calls (turn_of w it) = []
      then no_tools w pol req it (turn_of w it) (after_turn w pol req it g) = Inr st'
      else st' = with_tools w pol req it (turn_of w it) (after_turn w pol req it g)" by blast
  have "x_steps st' = x_steps g + 1 \<and> step_limit (x_budget st') = step_limit (x_budget g) \<and>
      grants_left (x_budget st') = grants_left (x_budget g)"
    using e after_turn_meter [of g w pol req it] no_tools_frame [of w pol req it "turn_of w it"]
    by (auto simp: same_meter_def split: if_splits)
  moreover have "x_steps g = x_steps st \<and>
      ((x_budget g = x_budget st \<and> x_steps st < step_limit (x_budget st)) \<or>
       (Suc (grants_left (x_budget g)) = grants_left (x_budget st) \<and>
        step_limit (x_budget g) = sat_mul (step_limit (x_budget st)) 2))"
    using budget_gate_Inr [OF g] grants_left_extend [of "x_budget st"]
    by (auto simp: budget_check_Ok budget_extend_def split: if_splits)
  ultimately show ?thesis by (auto simp: run_meters)
qed

interpretation agent_loop: metered_loop "run_iter w pol req" run_grants run_limit run_used for w pol req
proof
  fix it :: iter and st st'
  assume r: "run_iter w pol req it st = Inr st'"
  show "run_used st' \<le> Suc (run_used st)"
    using run_iter_meter [OF r] unat_suc_le [of "x_steps st"] by (simp add: run_used_def)
  show "Suc (run_grants st') = run_grants st \<and> run_limit st' \<le> 2 * run_limit st \<or>
      run_grants st' = run_grants st \<and> run_limit st' = run_limit st \<and> run_used st < run_limit st \<and>
      run_used st' = Suc (run_used st)"
  proof -
    have "unat (x_steps st + 1) = Suc (unat (x_steps st))" if "x_steps st < step_limit (x_budget st)"
      using that by (rule unat_suc_below)
    with run_iter_meter [OF r] unat_sat_mul_2 [of "step_limit (x_budget st)"] show ?thesis
      by (auto simp: run_meters word_less_nat_alt)
  qed
qed

function run_loop :: "world \<Rightarrow> policy \<Rightarrow> request \<Rightarrow> (nat \<Rightarrow> iter) \<Rightarrow> nat \<Rightarrow> run \<Rightarrow> run_result" where
  "run_loop w pol req its i st =
     (case run_iter w pol req (its i) st of
        Inl r \<Rightarrow> r
      | Inr st' \<Rightarrow> run_loop w pol req its (Suc i) st')"
  by pat_completeness auto
termination
proof (relation "inv_image (measures [run_grants, \<lambda>s. run_limit s - run_used s]) (\<lambda>(w, pol, req, its, i, st). st)", goal_cases)
  case 1
  show ?case by (intro wf_inv_image wf_measures)
next
  case (2 w pol req its i st st')
  then show ?case using agent_loop.decreases [of w pol req "its i" st st'] by (simp add: in_inv_image)
qed

declare run_loop.simps [simp del]

text \<open>A whole run, from the request to its outcome.\<close>

definition execute ::
    "world \<Rightarrow> policy \<Rightarrow> request \<Rightarrow> start \<Rightarrow> (nat \<Rightarrow> iter) \<Rightarrow> ustr + run_result" where
  "execute w pol req so its =
     (if so_configured so then Inr (run_loop w pol req its 0 (run_init req so))
      else Inl (lit ''provider not configured''))"

text \<open>Rule for the loop: what every pass keeps and every exit gives holds of the result.\<close>

lemma run_loop_rule:
  assumes "I st" and "\<And>it s s'. I s \<Longrightarrow> run_iter w pol req it s = Inr s' \<Longrightarrow> I s'"
    and "\<And>it s r. I s \<Longrightarrow> run_iter w pol req it s = Inl r \<Longrightarrow> P r"
  shows "P (run_loop w pol req its i st)"
  using assms
proof (induction w pol req its i st rule: run_loop.induct)
  case (1 w pol req its i st)
  show ?case
  proof (cases "run_iter w pol req (its i) st")
    case (Inl r)
    with "1.prems"(3) [OF "1.prems"(1) Inl] show ?thesis by (simp add: run_loop.simps [of w pol req its i st])
  next
    case (Inr st')
    have "P (run_loop w pol req its (Suc i) st')"
      using "1.prems"(2) [OF "1.prems"(1) Inr] by (rule "1.IH" [OF Inr]) (use "1.prems"(2,3) in blast)+
    with Inr show ?thesis by (simp add: run_loop.simps [of w pol req its i st])
  qed
qed

text \<open>Where the meter stands when a pass leaves the loop.\<close>

lemma finish_frame [simp]:
  "res_state (finish_run e s text reasoning st) = say ''status'' st"
  "res_end (finish_run e s text reasoning st) = e"
  "res_status (finish_run e s text reasoning st) = s"
  by (simp_all add: finish_run_def)

lemma finish_cancelled_frame [simp]:
  "x_steps (res_state (finish_cancelled w text reasoning st)) = x_steps st"
  "x_budget (res_state (finish_cancelled w text reasoning st)) = x_budget st"
  "res_end (finish_cancelled w text reasoning st) = WasCancelled"
  "res_status (finish_cancelled w text reasoning st) = Cancelled"
  by (simp_all add: finish_cancelled_def)

lemma conclude_frame [simp]:
  "x_steps (res_state (conclude w req e t st)) = x_steps st"
  "x_budget (res_state (conclude w req e t st)) = x_budget st"
  "x_ledger (res_state (conclude w req e t st)) = x_ledger st"
  "res_end (conclude w req e t st) = e" "res_status (conclude w req e t st) = Completed"
  by (simp_all add: conclude_def Let_def spawn_memory_extraction_def push_message_def append_message_def say_def)

lemma run_iter_Inl:
  assumes "run_iter w pol req it st = Inl r"
  shows "(it_cancelled it \<and> r = finish_cancelled w (x_final_text st) (x_final_reasoning st) st) \<or>
    budget_gate w it (apply_steering w (it_steering it) st) = Inl r \<or>
    (\<exists>g. budget_gate w it (apply_steering w (it_steering it) st) = Inr g \<and>
      (r = finish_cancelled w (t_text (turn_of w it)) (t_reasoning (turn_of w it)) (before_turn pol req it g) \<or>
       (\<exists>err. t_error (turn_of w it) = Some err \<and>
          r = finish_run (TurnFailed err) Failed (x_final_text (before_turn pol req it g))
            (x_final_reasoning (before_turn pol req it g)) (say ''error'' (before_turn pol req it g))) \<or>
       t_error (turn_of w it) = None \<and> t_tool_calls (turn_of w it) = [] \<and>
         no_tools w pol req it (turn_of w it) (after_turn w pol req it g) = Inl r))"
  using assms
  by (auto simp: run_iter_def turn_of_def after_turn_def before_turn_def Let_def split_beta
      split: if_splits sum.splits option.splits)

lemma budget_gate_Inl:
  "budget_gate w it st = Inl r \<Longrightarrow>
     (res_end r = WasCancelled \<or> res_end r = Stopped ''budget_declined'' \<or> res_end r = Stopped ''budget_grants_exhausted'') \<and>
     x_steps (res_state r) = x_steps st \<and> x_budget (res_state r) = x_budget st"
  by (auto simp: budget_gate_def Let_def split: budget_verdict.splits option.splits if_splits prod.splits)

lemma no_tools_Inl:
  "no_tools w pol req it t st = Inl r \<Longrightarrow>
     (res_end r = Concluded \<and> gate_open pol (x_ledger st) \<or>
      res_end r = Unverified \<and> x_repair_turns st \<ge> MAX_UNVERIFIED_REPAIR_TURNS) \<and>
     x_ledger (res_state r) = x_ledger st \<and> x_steps (res_state r) = x_steps st \<and>
     res_status r = Completed"
  by (auto simp: no_tools_def Let_def say_def split: if_splits)

text \<open>The last pass of a run stays below the ceiling too: it went through the gate as every other.\<close>

lemma last_pass_below:
  assumes "run_iter w pol req it s = Inl r"
  shows "run_used (res_state r) \<le> agent_loop.ceiling s"
proof -
  let ?s = "apply_steering w (it_steering it) s"
  have b: "x_budget ?s = x_budget s" "x_steps ?s = x_steps s" by simp_all
  consider (same) "x_steps (res_state r) = x_steps s"
    | (step) g where "budget_gate w it ?s = Inr g" "x_steps (res_state r) = x_steps g + 1"
    using run_iter_Inl [OF assms] budget_gate_Inl [of w it ?s r] budget_gate_Inr [of w it ?s]
      after_turn_meter [of _ w pol req it] no_tools_Inl [of w pol req it "turn_of w it" _ r]
    by (auto simp: same_meter_def before_turn_def split_beta)
  then show ?thesis
  proof cases
    case same
    then show ?thesis by (simp add: run_used_def agent_loop.ceiling_def)
  next
    case step
    then have "run_used (res_state r) \<le> Suc (run_used s) \<and> (run_used s < run_limit s \<or> 0 < run_grants s)"
      using budget_gate_Inr [OF step(1)] grants_left_extend [of "x_budget s"] unat_suc_le [of "x_steps s"] b
      by (fastforce simp: run_meters budget_check_Ok word_less_nat_alt)
    moreover have "run_limit s \<le> run_limit s * 2 ^ run_grants s" by simp
    ultimately show ?thesis unfolding agent_loop.ceiling_def by linarith
  qed
qed

text \<open>
  C1 (termination). Whatever the provider, the tools and the user do, a run ends, after at most as many
  passes as the budget ever allows: the step counter of the outcome never exceeds the larger of
  where it started and the step limit doubled once per remaining grant, plus one step per grant.
\<close>

theorem run_loop_bounded:
  "unat (x_steps (res_state (run_loop w pol req its i st))) \<le>
     max (unat (x_steps st)) (unat (step_limit (x_budget st)) * 2 ^ grants_left (x_budget st)) + grants_left (x_budget st)"
proof -
  let ?B = "agent_loop.ceiling st"
  have "run_used (res_state (run_loop w pol req its i st)) \<le> ?B"
  proof (rule run_loop_rule [where I = "\<lambda>s. agent_loop.ceiling s \<le> ?B"])
    fix it s s' assume "agent_loop.ceiling s \<le> ?B" and r: "run_iter w pol req it s = Inr s'"
    with agent_loop.ceiling_pass [OF r] show "agent_loop.ceiling s' \<le> ?B" by linarith
  next
    fix it s r assume "agent_loop.ceiling s \<le> ?B" and "run_iter w pol req it s = Inl r"
    then show "run_used (res_state r) \<le> ?B" using last_pass_below le_trans by blast
  qed simp
  then show ?thesis by (simp add: agent_loop.ceiling_def run_meters)
qed

end
