(* ===== verification/Run_Safety.thy ===== *)
theory Run_Safety
  imports Run_Loop
begin

text \<open>
  How a run may end: the status of every exit, the bound on repair turns, and what a normal
  conclusion guarantees about the calls the run made.
\<close>

section \<open>A run concludes only with its gates closed\<close>

definition exit_sound :: "policy \<Rightarrow> run_result \<Rightarrow> bool" where
  "exit_sound pol r \<longleftrightarrow>
     (case res_end r of
        Concluded \<Rightarrow> res_status r = Completed \<and> gate_open pol (x_ledger (res_state r))
      | Unverified \<Rightarrow> res_status r = Completed \<and> \<not> gate_open pol (x_ledger (res_state r)) \<and>
          x_repair_turns (res_state r) = MAX_UNVERIFIED_REPAIR_TURNS
      | Stopped reason \<Rightarrow> res_status r = Completed \<and> reason \<in> {''budget_declined'', ''budget_grants_exhausted''}
      | WasCancelled \<Rightarrow> res_status r = Cancelled
      | TurnFailed err \<Rightarrow> res_status r = Failed)"

lemma repairs_simps [simp]:
  "x_repair_turns (say k st) = x_repair_turns st"
  "x_repair_turns (push_message m st) = x_repair_turns st"
  "x_repair_turns (append_message w m st) = x_repair_turns st"
  "x_repair_turns (push_retrieved b mo st) = x_repair_turns st"
  "x_repair_turns (steer_one w text st) = x_repair_turns st"
  "x_repair_turns (spawn_memory_extraction req st) = x_repair_turns st"
  "x_ledger (say k st) = x_ledger st"
  by (simp_all add: say_def push_message_def append_message_def push_retrieved_def steer_one_def
      spawn_memory_extraction_def Let_def split: option.split)

lemma repairs_steering [simp]: "x_repair_turns (apply_steering w texts st) = x_repair_turns st"
  unfolding apply_steering_def by (induction texts arbitrary: st) simp_all

lemma repairs_fold [simp]: "x_repair_turns (fold (append_message w) ms st) = x_repair_turns st"
  by (induction ms arbitrary: st) simp_all

lemma repairs_steps [simp]:
  "x_repair_turns (fst (prepare_request pol req it st)) = x_repair_turns st"
  "x_repair_turns (detect_stagnation pol req it t st) = x_repair_turns st"
  "x_repair_turns (note_usage t st) = x_repair_turns st"
  "x_repair_turns (auto_format w req it b st) = x_repair_turns st"
  "x_repair_turns (auto_verify w pol it st) = x_repair_turns st"
  "x_repair_turns (save_checkpoint w pol st) = x_repair_turns st"
  by (simp_all add: prepare_request_def detect_stagnation_def note_usage_def auto_format_def auto_verify_def
      save_checkpoint_def Let_def split_beta split: option.split)

lemma repairs_calls [simp]:
  "x_repair_turns (announce_calls w t st) = x_repair_turns st"
  "x_repair_turns (take_results w t s p st) = x_repair_turns st"
  by (simp_all add: announce_calls_def take_results_def Let_def)

lemma repairs_after_turn [simp]: "x_repair_turns (after_turn w pol req it g) = x_repair_turns g"
  by (simp add: after_turn_def before_turn_def split_beta)

lemma repairs_budget: "budget_gate w it st = Inr g \<Longrightarrow> x_repair_turns g = x_repair_turns st"
  using budget_gate_Inr [of w it st g] by auto

lemma repairs_with_tools:
  "x_repair_turns st \<le> MAX_UNVERIFIED_REPAIR_TURNS \<Longrightarrow>
     x_repair_turns (with_tools w pol req it t st) \<le> MAX_UNVERIFIED_REPAIR_TURNS"
  by (simp add: with_tools_def reset_repairs_def Let_def)

lemma repairs_no_tools:
  "no_tools w pol req it t st = Inr st' \<Longrightarrow> x_repair_turns st \<le> MAX_UNVERIFIED_REPAIR_TURNS \<Longrightarrow>
     x_repair_turns st' \<le> MAX_UNVERIFIED_REPAIR_TURNS"
  by (auto simp: no_tools_def Let_def not_le order.strict_iff_order intro!: inc_le split: if_splits)

lemma repairs_iter:
  assumes "run_iter w pol req it st = Inr st'" and "x_repair_turns st \<le> MAX_UNVERIFIED_REPAIR_TURNS"
  shows "x_repair_turns st' \<le> MAX_UNVERIFIED_REPAIR_TURNS"
proof -
  from run_iter_Inr [OF assms(1)] obtain g where
    g: "budget_gate w it (apply_steering w (it_steering it) st) = Inr g" and
    e: "if t_tool_calls (turn_of w it) = []
      then no_tools w pol req it (turn_of w it) (after_turn w pol req it g) = Inr st'
      else st' = with_tools w pol req it (turn_of w it) (after_turn w pol req it g)" by blast
  have "x_repair_turns (after_turn w pol req it g) \<le> MAX_UNVERIFIED_REPAIR_TURNS"
    using repairs_budget [OF g] assms(2) by simp
  then show ?thesis
    using e repairs_no_tools repairs_with_tools by (auto split: if_splits)
qed

lemma no_tools_sound:
  "no_tools w pol req it t st = Inl r \<Longrightarrow> x_repair_turns st \<le> MAX_UNVERIFIED_REPAIR_TURNS \<Longrightarrow> exit_sound pol r"
  by (auto simp: no_tools_def exit_sound_def conclude_def Let_def spawn_memory_extraction_def push_message_def append_message_def
      say_def split: if_splits)

lemma budget_gate_sound: "budget_gate w it st = Inl r \<Longrightarrow> exit_sound pol r"
  by (auto simp: budget_gate_def exit_sound_def Let_def split: budget_verdict.splits option.splits if_splits prod.splits)

lemma run_iter_sound:
  assumes "run_iter w pol req it st = Inl r" and "x_repair_turns st \<le> MAX_UNVERIFIED_REPAIR_TURNS"
  shows "exit_sound pol r"
  using run_iter_Inl [OF assms(1)]
proof (elim disjE exE conjE)
  assume "budget_gate w it (apply_steering w (it_steering it) st) = Inl r"
  then show ?thesis by (rule budget_gate_sound)
next
  fix g assume g: "budget_gate w it (apply_steering w (it_steering it) st) = Inr g"
    and n: "no_tools w pol req it (turn_of w it) (after_turn w pol req it g) = Inl r"
  show ?thesis using repairs_budget [OF g] assms(2) by (intro no_tools_sound [OF n]) simp
qed (simp_all add: exit_sound_def)

text \<open>
  However a run goes, it ends in one of the exits of the loop with the status of that exit. With
  strict verification a normal conclusion leaves the gate open, and the exit with a closed gate is
  taken only with the repair counter at its limit.
\<close>

theorem execute_exit_sound:
  "case execute w pol req so its of Inl err \<Rightarrow> \<not> so_configured so | Inr r \<Rightarrow> exit_sound pol r"
proof -
  have "exit_sound pol (run_loop w pol req its 0 (run_init req so))"
  proof (rule run_loop_rule [where I = "\<lambda>s. x_repair_turns s \<le> MAX_UNVERIFIED_REPAIR_TURNS"])
    show "x_repair_turns (run_init req so) \<le> MAX_UNVERIFIED_REPAIR_TURNS" by (simp add: run_init_def)
  qed (erule (1) repairs_iter [rotated], erule (1) run_iter_sound [rotated])
  then show ?thesis by (simp add: execute_def)
qed

section \<open>What a normal conclusion guarantees\<close>

text \<open>The ledger together with the histories it is the outcome of.\<close>

definition gates :: "run \<Rightarrow> ledger \<times> (ustr \<times> json) gate_event list \<times> check_call list" where
  "gates st = (x_ledger st, x_effects st, x_checks st)"

lemma gates_iff: "gates st = gates st' \<longleftrightarrow> x_ledger st = x_ledger st' \<and> x_effects st = x_effects st' \<and> x_checks st = x_checks st'"
  by (simp add: gates_def)

lemma gates_frame [simp]:
  "gates (say k st) = gates st" "gates (push_message m st) = gates st" "gates (append_message w m st) = gates st"
  "gates (push_retrieved b mo st) = gates st" "gates (steer_one w t st) = gates st"
  "gates (spawn_memory_extraction req st) = gates st"
  by (simp_all add: gates_iff say_def push_message_def append_message_def push_retrieved_def steer_one_def
      spawn_memory_extraction_def Let_def split: option.split)

lemma gates_fold [simp]: "gates (fold (append_message w) ms st) = gates st"
  by (induction ms arbitrary: st) simp_all

lemma gates_steering [simp]: "gates (apply_steering w ts st) = gates st"
  unfolding apply_steering_def by (induction ts arbitrary: st) simp_all

lemma gates_update [simp]:
  "gates (st\<lparr>x_messages := a1\<rparr>) = gates st" "gates (st\<lparr>x_budget := a2\<rparr>) = gates st"
  "gates (st\<lparr>x_steps := a3\<rparr>) = gates st" "gates (st\<lparr>x_summary := a4\<rparr>) = gates st"
  "gates (st\<lparr>x_last_todos := a5\<rparr>) = gates st" "gates (st\<lparr>x_requests := a6\<rparr>) = gates st"
  "gates (st\<lparr>x_signals := a7\<rparr>) = gates st" "gates (st\<lparr>x_detector := a8\<rparr>) = gates st"
  "gates (st\<lparr>x_repair_turns := a9\<rparr>) = gates st" "gates (st\<lparr>x_checkpoints := a10\<rparr>) = gates st"
  "gates (st\<lparr>x_totals := a11\<rparr>) = gates st" "gates (st\<lparr>x_final_text := a12\<rparr>) = gates st"
  by (simp_all add: gates_def)

lemma gates_steps [simp]:
  "gates (fst (prepare_request pol req it st)) = gates st"
  "gates (detect_stagnation pol req it t st) = gates st"
  "gates (auto_format w req it b st) = gates st"
  "gates (reset_repairs st) = gates st" "gates (save_checkpoint w pol st) = gates st"
  by (simp_all add: prepare_request_def detect_stagnation_def auto_format_def reset_repairs_def
      save_checkpoint_def Let_def split_beta split: option.split)

lemma gates_usage [simp]: "gates (note_usage t st) = gates st"
  by (simp add: note_usage_def gates_def say_def Let_def split: option.split)

lemma gates_after_turn [simp]: "gates (after_turn w pol req it g) = gates g" "gates (before_turn pol req it g) = gates g"
  by (simp_all add: after_turn_def before_turn_def split_beta)

lemma gates_budget: "budget_gate w it st = Inr g \<Longrightarrow> gates g = gates st"
  using budget_gate_Inr [of w it st g] by auto

lemma gates_no_tools: "no_tools w pol req it t st = Inr st' \<Longrightarrow> gates st' = gates st"
  by (auto simp: no_tools_def Let_def split: if_splits)

definition gates_ok :: "ustr option \<Rightarrow> run \<Rightarrow> bool" where
  "gates_ok cmd st \<longleftrightarrow>
     open_keys (x_ledger st) = open_keys (fold effect_step (x_effects st) (ledger_new cmd)) \<and>
     unverified_set (x_ledger st) = unverified_set (fold check_step (x_checks st) (ledger_new cmd)) \<and>
     verify_command (x_ledger st) = verify_command (fold check_step (x_checks st) (ledger_new cmd))"

lemma gates_ok_cong: "gates st' = gates st \<Longrightarrow> gates_ok cmd st' = gates_ok cmd st"
  by (simp add: gates_ok_def gates_iff)

lemma gates_ok_append:
  assumes "gates_ok cmd st" and "open_keys l = open_keys (fold effect_step es (x_ledger st))"
    and "unverified_set l = unverified_set (fold check_step cs (x_ledger st))"
    and "verify_command l = verify_command (fold check_step cs (x_ledger st))"
    and "gates st' = (l, x_effects st @ es, x_checks st @ cs)"
  shows "gates_ok cmd st'"
proof -
  have s: "x_ledger st' = l" "x_effects st' = x_effects st @ es" "x_checks st' = x_checks st @ cs"
    using assms(5) by (simp_all add: gates_def)
  have "open_keys (fold effect_step es (x_ledger st)) = open_keys (fold effect_step es (fold effect_step (x_effects st) (ledger_new cmd)))"
    using assms(1) by (intro open_keys_fold_cong) (simp add: gates_ok_def)
  moreover have "unverified_set (fold check_step cs (x_ledger st)) = unverified_set (fold check_step cs (fold check_step (x_checks st) (ledger_new cmd))) \<and>
      verify_command (fold check_step cs (x_ledger st)) = verify_command (fold check_step cs (fold check_step (x_checks st) (ledger_new cmd)))"
    using assms(1) by (intro check_fold_cong) (simp_all add: gates_ok_def)
  ultimately show ?thesis using assms(2-4) by (simp add: gates_ok_def s)
qed

lemma gates_ok_auto_verify: "gates_ok cmd st \<Longrightarrow> gates_ok cmd (auto_verify w pol it st)"
proof -
  assume ok: "gates_ok cmd st"
  have "gates_ok cmd st'" if "gates st' = (note_command c b (x_ledger st), x_effects st @ [], x_checks st @ [Command c b])" for st' c b
    by (rule gates_ok_append [OF ok _ _ _ that]) simp_all
  with ok show ?thesis
    by (auto simp: auto_verify_def Let_def split_beta gates_def push_message_def split: option.split)
qed

lemma processed_gates:
  assumes "strict_verification pol"
  shows "open_keys (p_ledger (processed w pol req t (scheduled w pol req it t st) st)) =
      open_keys (fold effect_step (batch_effects (turn_calls w t) (s_results (scheduled w pol req it t st))) (x_ledger st))"
    and "unverified_set (p_ledger (processed w pol req t (scheduled w pol req it t st) st)) =
      unverified_set (fold check_step (batch_checks (turn_calls w t) (s_results (scheduled w pol req it t st))) (x_ledger st))"
    and "verify_command (p_ledger (processed w pol req t (scheduled w pol req it t st) st)) =
      verify_command (fold check_step (batch_checks (turn_calls w t) (s_results (scheduled w pol req it t st))) (x_ledger st))"
proof -
  let ?s = "scheduled w pol req it t st" and ?c = "turn_calls w t"
  have results: "map (\<lambda>(c, d, r). (c, r)) (post_input ?c ?s) = zip ?c (s_results ?s)"
    by (rule post_input_results) (simp_all add: scheduled_def schedule_lengths)
  have "list_all classified (post_input ?c ?s)" by (simp only: scheduled_def schedule_classified)
  with assms show "open_keys (p_ledger (processed w pol req t ?s st)) =
      open_keys (fold effect_step (batch_effects ?c (s_results ?s)) (x_ledger st))"
    by (simp add: processed_def post_loop_keys results batch_effects_def post_start_def)
  show "unverified_set (p_ledger (processed w pol req t ?s st)) =
      unverified_set (fold check_step (batch_checks ?c (s_results ?s)) (x_ledger st))"
    "verify_command (p_ledger (processed w pol req t ?s st)) =
      verify_command (fold check_step (batch_checks ?c (s_results ?s)) (x_ledger st))"
    by (simp_all add: processed_def post_loop_checks results batch_checks_def post_start_def)
qed

lemma gates_take_results:
  "gates (take_results w t s p st) =
     (p_ledger p, x_effects st @ batch_effects (turn_calls w t) (s_results s),
      x_checks st @ batch_checks (turn_calls w t) (s_results s))"
proof -
  obtain st' where st': "st' = fold (append_message w) (p_messages p) st" by blast
  have "gates st' = gates st" by (simp add: st')
  then show ?thesis
    unfolding take_results_def Let_def st' [symmetric] by (simp add: gates_def push_message_def)
qed

lemma gates_announce [simp]: "gates (announce_calls w t st) = gates st"
  by (simp add: announce_calls_def Let_def)

lemma gates_ok_with_tools:
  assumes "strict_verification pol" and "gates_ok cmd st"
  shows "gates_ok cmd (with_tools w pol req it t st)"
proof -
  let ?st = "announce_calls w t st"
  have "gates_ok cmd ?st" using assms(2) gates_ok_cong [of ?st st] by simp
  then have "gates_ok cmd (take_results w t (scheduled w pol req it t ?st)
      (processed w pol req t (scheduled w pol req it t ?st) ?st) ?st)"
    by (rule gates_ok_append [OF _ processed_gates [OF assms(1)] gates_take_results])
  then have "gates_ok cmd (auto_verify w pol it (auto_format w req it b
      (take_results w t (scheduled w pol req it t ?st) (processed w pol req t (scheduled w pol req it t ?st) ?st) ?st)))" for b
    by (intro gates_ok_auto_verify) (simp add: gates_ok_cong [OF gates_steps(3)])
  then show ?thesis
    by (simp add: with_tools_def Let_def gates_ok_cong [OF gates_steps(4)] gates_ok_cong [OF gates_steps(5)])
qed

lemma gates_ok_iter:
  assumes "strict_verification pol" and "run_iter w pol req it st = Inr st'" and "gates_ok cmd st"
  shows "gates_ok cmd st'"
proof -
  from run_iter_Inr [OF assms(2)] obtain g where
    g: "budget_gate w it (apply_steering w (it_steering it) st) = Inr g" and
    e: "if t_tool_calls (turn_of w it) = []
      then no_tools w pol req it (turn_of w it) (after_turn w pol req it g) = Inr st'
      else st' = with_tools w pol req it (turn_of w it) (after_turn w pol req it g)" by blast
  let ?a = "after_turn w pol req it g"
  have ok: "gates_ok cmd ?a" using assms(3) gates_budget [OF g] gates_ok_cong [of ?a st] by simp
  show ?thesis
  proof (cases "t_tool_calls (turn_of w it) = []")
    case True
    with e have "no_tools w pol req it (turn_of w it) ?a = Inr st'" by simp
    from gates_ok_cong [OF gates_no_tools [OF this]] ok show ?thesis by blast
  next
    case False
    with e ok gates_ok_with_tools [OF assms(1)] show ?thesis by simp
  qed
qed

lemma conclude_gates [simp]: "gates (res_state (conclude w req e t st)) = gates st"
  by (simp add: conclude_def Let_def)

lemma no_tools_concluded:
  "no_tools w pol req it t st = Inl r \<Longrightarrow> res_end r = Concluded \<Longrightarrow>
     gate_open pol (x_ledger st) \<and> gates (res_state r) = gates st"
  by (auto simp: no_tools_def Let_def split: if_splits)

text \<open>What a concluded run owes: nothing destructive left unread, no change left unchecked.\<close>

definition all_read_back :: "run \<Rightarrow> bool" where
  "all_read_back st \<longleftrightarrow>
     \<not> (\<exists>pre call post k. x_effects st = pre @ Arm call # post \<and> k \<in> armed_keys call \<and> \<not> read_back k post)"

definition all_checked :: "ustr \<Rightarrow> run \<Rightarrow> bool" where
  "all_checked c st \<longleftrightarrow>
     \<not> (\<exists>pre p post. x_checks st = pre @ Changed p # post \<and> p \<noteq> [] \<and>
          \<not> (\<exists>x. Command x True \<in> set post \<and> command_matches_variant x c))"

lemma gates_ok_verified:
  assumes "gates_ok cmd st" and "strict_verification pol" and "gate_open pol (x_ledger st)"
  shows "all_read_back st \<and>
    (case verify_command (ledger_new cmd) of Some c \<Rightarrow> all_checked c st | None \<Rightarrow> True)"
proof
  have o: "\<not> is_blocked (x_ledger st)" "\<not> needs_verification (x_ledger st)"
    using assms(2,3) by (simp_all add: gate_open_def)
  then have "open_keys (fold effect_step (x_effects st) (ledger_new cmd)) = {}"
    using assms(1) by (simp add: is_blocked_open_keys gates_ok_def)
  then show "all_read_back st"
    unfolding all_read_back_def using open_keys_events [of _ "x_effects st" cmd] by blast
  show "case verify_command (ledger_new cmd) of Some c \<Rightarrow> all_checked c st | None \<Rightarrow> True"
  proof (cases "verify_command (ledger_new cmd)")
    case (Some c)
    have v: "verify_command (fold check_step cs l) = verify_command l" for cs l
    proof (induction cs arbitrary: l)
      case (Cons e cs)
      then show ?case by (cases e) simp_all
    qed simp
    have "set (unverified_set (fold check_step (x_checks st) (ledger_new cmd))) = {}"
      using o(2) assms(1) Some by (simp add: needs_verification_def gates_ok_def v)
    then show ?thesis
      unfolding Some using unverified_events [OF Some, of _ "x_checks st"] by (simp add: all_checked_def)
  qed simp
qed

lemma run_iter_concluded:
  assumes "run_iter w pol req it st = Inl r" and "res_end r = Concluded" and "gates_ok cmd st"
  shows "gate_open pol (x_ledger (res_state r)) \<and> gates_ok cmd (res_state r)"
  using run_iter_Inl [OF assms(1)]
proof (elim disjE exE conjE)
  fix g assume g: "budget_gate w it (apply_steering w (it_steering it) st) = Inr g"
    and n: "no_tools w pol req it (turn_of w it) (after_turn w pol req it g) = Inl r"
  let ?a = "after_turn w pol req it g"
  from no_tools_concluded [OF n assms(2)]
  have o: "gate_open pol (x_ledger ?a)" and ra: "gates (res_state r) = gates ?a" by blast+
  from ra have "x_ledger (res_state r) = x_ledger ?a" unfolding gates_iff by blast
  moreover have "gates (res_state r) = gates st" using ra gates_budget [OF g] by simp
  ultimately show ?thesis using o assms(3) gates_ok_cong [of "res_state r" st cmd] by simp
qed (use assms(2) budget_gate_Inl [of w it "apply_steering w (it_steering it) st" r] in auto)


text \<open>A run of three passes: write a file, read it back, conclude.\<close>

definition demo_args :: "string \<Rightarrow> json" where
  "demo_args action = JObj [(lit ''action'', JStr (lit action)), (lit ''path'', JStr (lit ''a.rs''))]"

definition demo_world :: world where
  "demo_world =
     \<lparr>parse_json = (\<lambda>s. Some (if s = [1] then demo_args ''write'' else demo_args ''read'')),
      show_json = (\<lambda>_. []), encoded_len = (\<lambda>_. Some 0), heal = (\<lambda>_. None), normal_path = Some\<rparr>"

definition demo_record :: "string \<Rightarrow> tool_record" where
  "demo_record action =
     \<lparr>r_id = [9], r_name = lit ''files'', r_arguments = demo_args action, r_result = Some JNull,
      r_error = None, r_approval_id = None\<rparr>"

definition demo_iter :: "stream_event \<Rightarrow> tool_record \<Rightarrow> iter" where
  "demo_iter e r =
     \<lparr>it_cancelled = False, it_steering = [], it_now = 0, it_grant = None, it_grant_now = 0, it_todos = [],
      it_summarize = (\<lambda>_. None), it_stream = Inr [Next e, Next (Finished [7] None)],
      it_cancelled_turn = False, it_retrieved_hint = None, it_retrieved_check = None,
      it_sched = \<lparr>at_call = (\<lambda>_. False), mid_call = (\<lambda>_. False), at_chunk = (\<lambda>_. False), lost = (\<lambda>_. False),
        stale = (\<lambda>_. None), outcome = (\<lambda>_. r)\<rparr>,
      it_format = Inl [], it_check = Inl []\<rparr>"

definition demo_iters :: "nat \<Rightarrow> iter" where
  "demo_iters i =
     (if i = 0 then demo_iter (ToolCallFinish [9] (lit ''files'') [1]) (demo_record ''write'')
      else if i = 1 then demo_iter (ToolCallFinish [9] (lit ''files'') [2]) (demo_record ''read'')
      else demo_iter (TextDelta [5]) (demo_record ''read''))"

definition demo_policy :: policy where
  "demo_policy = policy_default\<lparr>checkpointing := False, stagnation_detection := False, context_tiered_summary := False\<rparr>"

definition demo_request :: request where
  "demo_request =
     \<lparr>q_mode = Agent, q_verify_command = None, q_format_command = None, q_context_window = 0,
      q_temporary = True, q_user_message = [4], q_history = [], q_resume = None\<rparr>"

definition demo_start :: start where
  "demo_start = \<lparr>so_configured = True, so_now = 0, so_stored = None, so_block = None, so_usage = None\<rparr>"

lemmas demo_defs = demo_world_def demo_record_def demo_iter_def demo_iters_def demo_policy_def policy_default_def
  demo_request_def demo_start_def demo_args_def

lemma demo_budget: "budget_check (start_budget demo_request demo_start) 0 s c = Ok \<longleftrightarrow> s < 300 \<and> c < 750"
  by (simp add: budget_check_Ok start_budget_def demo_defs budget_for_mode_def budget_default_def
      default_step_limit_def default_tool_call_limit_def default_wall_clock_minutes_def default_token_limit_def
      nanos_per_minute_def)

lemma demo_turn:
  "fst (run_turn (heal demo_world) (it_stream (demo_iter (ToolCallFinish [9] (lit ''files'') a) r))) =
     \<lparr>t_text = [], t_reasoning = [], t_tool_calls = [\<lparr>tc_id = [9], tc_kind = lit ''function'', tc_name = lit ''files'', tc_arguments = a\<rparr>],
      t_native = [], t_usage = None, t_finish = Some [7], t_error = None\<rparr>"
  by (simp add: demo_defs run_turn_def acc_new_def call_finish_def or_insert_def push_order_def pending_calls_def
      List.map_filter_def Let_def)

lemma demo_fields [simp]:
  "it_cancelled (demo_iter e r) = False" "it_steering (demo_iter e r) = []" "it_now (demo_iter e r) = 0"
  "it_cancelled_turn (demo_iter e r) = False" "it_todos (demo_iter e r) = []"
  "it_sched (demo_iter e r) = \<lparr>at_call = (\<lambda>_. False), mid_call = (\<lambda>_. False), at_chunk = (\<lambda>_. False), lost = (\<lambda>_. False),
        stale = (\<lambda>_. None), outcome = (\<lambda>_. r)\<rparr>"
  "strict_verification demo_policy" "\<not> checkpointing demo_policy" "\<not> stagnation_detection demo_policy"
  "\<not> context_tiered_summary demo_policy" "q_mode demo_request = Agent" "q_format_command demo_request = None"
  "q_verify_command demo_request = None"
  by (simp_all add: demo_defs)

lemma demo_gate:
  assumes "x_budget st = start_budget demo_request demo_start" and "x_steps st < 300" and "x_total_calls st < 750"
  shows "budget_gate demo_world (demo_iter e r) (apply_steering demo_world (it_steering (demo_iter e r)) st) = Inr st"
proof -
  have "budget_check (x_budget st) 0 (x_steps st) (x_total_calls st) = Ok"
    using assms by (simp add: demo_budget)
  then show ?thesis by (simp add: budget_gate_def apply_steering_def)
qed

definition demo_turn_result :: "uchar \<Rightarrow> turn_result" where
  "demo_turn_result k =
     \<lparr>t_text = [], t_reasoning = [], t_tool_calls = [\<lparr>tc_id = [9], tc_kind = lit ''function'', tc_name = lit ''files'', tc_arguments = [k]\<rparr>],
      t_native = [], t_usage = None, t_finish = Some [7], t_error = None\<rparr>"

lemma demo_pass:
  assumes "x_budget st = start_budget demo_request demo_start" and "x_steps st < 300" and "x_total_calls st < 750"
    and "x_last_todos st = []"
  shows "run_iter demo_world demo_policy demo_request (demo_iter (ToolCallFinish [9] (lit ''files'') [k]) r) st =
    Inr (with_tools demo_world demo_policy demo_request (demo_iter (ToolCallFinish [9] (lit ''files'') [k]) r) (demo_turn_result k)
      (st\<lparr>x_steps := x_steps st + 1, x_requests := x_requests st @ [x_messages st], x_last_usage := None,
          x_last_finish := Some [7], x_signals := []\<rparr>))"
  using assms(4) unfolding run_iter_def demo_gate [OF assms(1-3)]
  by (simp add: demo_turn Let_def prepare_request_def with_head_def head_of_def
       detect_stagnation_def note_usage_def demo_turn_result_def)

lemma demo_class:
  "action_or (demo_args a) d = lit a" "path_arg (demo_args a) = Some (lit ''a.rs'')"
  by (simp_all add: demo_args_def action_or_def str_or_def str_arg_def path_arg_def)

lemmas class_defs = is_read_only_def is_mutating_def can_run_concurrently_def mutated_paths_def destructive_reason_def
  demo_class option_list_def

lemma demo_facts:
  "is_read_only (lit ''files'') (demo_args ''write'') = False" "is_read_only (lit ''files'') (demo_args ''read'') = True"
  "can_run_concurrently (lit ''files'') (demo_args ''write'') = False"
  "can_run_concurrently (lit ''files'') (demo_args ''read'') = True"
  "mutated_paths (lit ''files'') (demo_args ''write'') = [lit ''a.rs'']"
  "mutated_paths (lit ''files'') (demo_args ''read'') = []"
  "destructive_reason (lit ''files'') (demo_args ''write'') = Some (lit ''files.write replaced a whole file'')"
  "destructive_reason (lit ''files'') (demo_args ''read'') = None"
  by (simp_all add: class_defs Let_def)

lemma demo_calls:
  "turn_calls demo_world (demo_turn_result 1) =
     [(\<lparr>tc_id = [9], tc_kind = lit ''function'', tc_name = lit ''files'', tc_arguments = [1]\<rparr>, demo_args ''write'')]"
  "turn_calls demo_world (demo_turn_result 2) =
     [(\<lparr>tc_id = [9], tc_kind = lit ''function'', tc_name = lit ''files'', tc_arguments = [2]\<rparr>, demo_args ''read'')]"
  by (simp_all add: turn_calls_def demo_turn_result_def decode_args_def demo_world_def)

lemma demo_schedule:
  "s_results (scheduled demo_world demo_policy demo_request (demo_iter e r) (demo_turn_result 1) st) = [Some r]"
  "s_results (scheduled demo_world demo_policy demo_request (demo_iter e r) (demo_turn_result 2) st) = [Some r]"
  "s_total (scheduled demo_world demo_policy demo_request (demo_iter e r) (demo_turn_result 1) st) = x_total_calls st + 1"
  "s_total (scheduled demo_world demo_policy demo_request (demo_iter e r) (demo_turn_result 2) st) = x_total_calls st + 1"
  unfolding scheduled_def demo_calls
  by (simp_all add: schedule_def schedule_call_def note_call_def sched_new_def Let_def split_beta mode_is_read_only_def
        flush_concurrent_reads_def store_results_def MAX_CONCURRENT_READS_def demo_facts)

lemma counts_frame [simp]:
  "x_total_calls (save_checkpoint w pol st) = x_total_calls st" "x_last_todos (save_checkpoint w pol st) = x_last_todos st"
  "x_total_calls (reset_repairs st) = x_total_calls st" "x_last_todos (reset_repairs st) = x_last_todos st"
  "x_total_calls (auto_verify w pol it st) = x_total_calls st" "x_last_todos (auto_verify w pol it st) = x_last_todos st"
  "x_total_calls (auto_format w req it b st) = x_total_calls st" "x_last_todos (auto_format w req it b st) = x_last_todos st"
  "x_total_calls (announce_calls w t st) = x_total_calls st" "x_last_todos (announce_calls w t st) = x_last_todos st"
  "x_last_todos (append_message w m st) = x_last_todos st"
  by (simp_all add: save_checkpoint_def reset_repairs_def auto_verify_def auto_format_def announce_calls_def
      append_message_def push_message_def say_def Let_def split_beta split: option.split)

lemma counts_take [simp]:
  "x_total_calls (take_results w t s p st) = s_total s" "x_last_todos (take_results w t s p st) = x_last_todos st"
proof -
  have "x_last_todos (fold (append_message w) ms st) = x_last_todos st" for ms
    by (induction ms arbitrary: st) simp_all
  then show "x_total_calls (take_results w t s p st) = s_total s" "x_last_todos (take_results w t s p st) = x_last_todos st"
    by (simp_all add: take_results_def push_message_def Let_def)
qed

lemma effects_verify: "x_effects (auto_verify w pol it st) = x_effects st"
  by (simp add: auto_verify_def push_message_def Let_def split_beta split: option.split)

lemma with_tools_meters:
  assumes s: "scheduled w pol req it t (announce_calls w t st) = s"
  shows "x_total_calls (with_tools w pol req it t st) = s_total s"
    and "x_last_todos (with_tools w pol req it t st) = x_last_todos st"
    and "x_effects (with_tools w pol req it t st) = x_effects st @ batch_effects (turn_calls w t) (s_results s)"
proof -
  show "x_total_calls (with_tools w pol req it t st) = s_total s" "x_last_todos (with_tools w pol req it t st) = x_last_todos st"
    by (simp_all add: with_tools_def s Let_def)
  have e: "gates (save_checkpoint w pol (reset_repairs st')) = gates st'" "gates (auto_format w req it b st') = gates st'" for st' b
    by simp_all
  show "x_effects (with_tools w pol req it t st) = x_effects st @ batch_effects (turn_calls w t) (s_results s)"
    using e gates_take_results [of w t s "processed w pol req t s (announce_calls w t st)" "announce_calls w t st"] gates_announce [of w t st]
    by (simp add: with_tools_def s Let_def gates_def effects_verify)
qed

lemma demo_effects:
  assumes "r_error r = None"
  shows "batch_effects (turn_calls demo_world (demo_turn_result 1)) [Some r] = [Arm (lit ''files'', demo_args ''write'')]"
    and "batch_effects (turn_calls demo_world (demo_turn_result 2)) [Some r] = [Cover (lit ''files'', demo_args ''read'')]"
  using assms by (simp_all add: demo_calls batch_effects_def call_effects_def demo_facts)

definition demo_ready :: "(ustr \<times> json) gate_event list \<Rightarrow> u32 \<Rightarrow> run \<Rightarrow> bool" where
  "demo_ready es n st \<longleftrightarrow>
     x_budget st = start_budget demo_request demo_start \<and> x_steps st = n \<and> x_total_calls st = n \<and>
     x_last_todos st = [] \<and> x_effects st = es \<and> gates_ok None st"

lemma demo_tool_pass:
  assumes "demo_ready es n st" and "n < 300" and "r_error r = None"
    and "k = 1 \<and> e = Arm (lit ''files'', demo_args ''write'') \<or> k = 2 \<and> e = Cover (lit ''files'', demo_args ''read'')"
  shows "\<exists>st'. run_iter demo_world demo_policy demo_request (demo_iter (ToolCallFinish [9] (lit ''files'') [k]) r) st = Inr st' \<and>
    demo_ready (es @ [e]) (n + 1) st'"
proof -
  let ?i = "demo_iter (ToolCallFinish [9] (lit ''files'') [k]) r"
  have "x_total_calls st < 750"
    using assms(1,2) by (simp add: demo_ready_def order.strict_trans)
  then obtain st' where st': "run_iter demo_world demo_policy demo_request ?i st = Inr st'" and
    w: "st' = with_tools demo_world demo_policy demo_request ?i (demo_turn_result k)
      (st\<lparr>x_steps := x_steps st + 1, x_requests := x_requests st @ [x_messages st], x_last_usage := None,
          x_last_finish := Some [7], x_signals := []\<rparr>)"
    using demo_pass [of st k r] assms(1,2) by (auto simp: demo_ready_def)
  have "gates_ok None st'"
    using gates_ok_iter [OF _ st', of None] assms(1) by (simp add: demo_ready_def)
  moreover have "x_total_calls st' = n + 1" "x_last_todos st' = []" "x_effects st' = es @ [e]"
    using assms with_tools_meters [OF refl, of demo_world demo_policy demo_request ?i "demo_turn_result k"]
    by (auto simp: w demo_ready_def demo_schedule demo_effects)
  ultimately show ?thesis
    using assms(1) st' by (intro exI [of _ st'] conjI) (simp_all add: demo_ready_def, simp_all add: w)
qed

lemma demo_last_pass:
  assumes "demo_ready [Arm (lit ''files'', demo_args ''write''), Cover (lit ''files'', demo_args ''read'')] n st" and "n < 300"
  shows "\<exists>r. run_iter demo_world demo_policy demo_request (demo_iter (TextDelta [5]) rec) st = Inl r \<and> res_end r = Concluded \<and>
    x_effects (res_state r) = x_effects st"
proof -
  have "x_total_calls st < 750"
    using assms by (simp add: demo_ready_def order.strict_trans)
  then have g: "budget_gate demo_world (demo_iter (TextDelta [5]) rec)
      (apply_steering demo_world (it_steering (demo_iter (TextDelta [5]) rec)) st) = Inr st"
    using assms by (intro demo_gate) (simp_all add: demo_ready_def)
  have k: "open_keys (x_ledger st) = {}"
    using assms(1) by (simp add: demo_ready_def gates_ok_def open_keys_requires open_keys_confirm armed_keys_def covered_keys_def demo_facts demo_class)
  have v: "verify_command (fold check_step cs l) = verify_command l" for cs l
  proof (induction cs arbitrary: l)
    case (Cons e cs)
    then show ?case by (cases e) simp_all
  qed simp
  have "gate_open demo_policy (x_ledger st)"
    using assms(1) k by (simp add: gate_open_def is_blocked_open_keys needs_verification_def demo_ready_def gates_ok_def v ledger_new_def)
  moreover have "fst (run_turn (heal demo_world) (it_stream (demo_iter (TextDelta [5]) rec))) =
     \<lparr>t_text = [5], t_reasoning = [], t_tool_calls = [], t_native = [], t_usage = None, t_finish = Some [7], t_error = None\<rparr>"
    by (simp add: demo_defs run_turn_def acc_new_def pending_calls_def List.map_filter_def Let_def)
  ultimately show ?thesis
    using assms(1) unfolding run_iter_def g
    by (simp add: Let_def prepare_request_def with_head_def head_of_def detect_stagnation_def note_usage_def no_tools_def demo_ready_def)
       (simp add: conclude_def finish_run_def say_def push_message_def append_message_def spawn_memory_extraction_def Let_def)
qed

lemma demo_run:
  "\<exists>r. execute demo_world demo_policy demo_request demo_start demo_iters = Inr r \<and> res_end r = Concluded \<and>
     x_effects (res_state r) = [Arm (lit ''files'', demo_args ''write''), Cover (lit ''files'', demo_args ''read'')]"
proof -
  let ?w = "Arm (lit ''files'', demo_args ''write'')" and ?r = "Cover (lit ''files'', demo_args ''read'')"
  let ?iter = "run_iter demo_world demo_policy demo_request"
  have i: "demo_iters 0 = demo_iter (ToolCallFinish [9] (lit ''files'') [1]) (demo_record ''write'')"
    "demo_iters 1 = demo_iter (ToolCallFinish [9] (lit ''files'') [2]) (demo_record ''read'')"
    "demo_iters 2 = demo_iter (TextDelta [5]) (demo_record ''read'')"
    by (simp_all add: demo_iters_def)
  have e: "r_error (demo_record a) = None" for a by (simp add: demo_record_def)
  have "demo_ready [] 0 (run_init demo_request demo_start)"
    by (simp add: demo_ready_def run_init_def gates_ok_def) (simp add: demo_request_def)
  from demo_tool_pass [OF this _ e, of 1 ?w] obtain st1 where
    1: "?iter (demo_iters 0) (run_init demo_request demo_start) = Inr st1" "demo_ready [?w] 1 st1"
    unfolding i by auto
  from demo_tool_pass [OF this(2) _ e, of 2 ?r] obtain st2 where
    2: "?iter (demo_iters 1) st1 = Inr st2" "demo_ready [?w, ?r] 2 st2"
    unfolding i by auto
  from demo_last_pass [OF this(2)] obtain r where
    3: "?iter (demo_iters 2) st2 = Inl r" "res_end r = Concluded" "x_effects (res_state r) = x_effects st2"
    unfolding i by auto
  have "run_loop demo_world demo_policy demo_request demo_iters 0 (run_init demo_request demo_start) = r"
    using 1(1) 2(1) 3(1)
    by (simp add: run_loop.simps [of demo_world demo_policy demo_request demo_iters 0]
        run_loop.simps [of demo_world demo_policy demo_request demo_iters "Suc 0"]
        run_loop.simps [of demo_world demo_policy demo_request demo_iters "Suc (Suc 0)"] numeral_2_eq_2)
  moreover have "so_configured demo_start" by (simp add: demo_start_def)
  ultimately show ?thesis
    using 2(2) 3(2,3) by (simp add: execute_def demo_ready_def)
qed


end
