(* ===== verification/Orphans.thy ===== *)
theory Orphans
  imports Tool_Results
begin

text \<open>
  How many messages of a list the adapters' filter (\<open>resolved\_history\_indices\<close>) drops, for lists that
  already hold orphans: a conversation read back from storage or from a checkpoint may. No step of a
  run adds one, as long as no system message stands between a turn and the results it is answered by.
\<close>

section \<open>Counting\<close>

fun orphans_after :: "message list \<Rightarrow> message list \<Rightarrow> nat" where
  "orphans_after pre [] = 0"
| "orphans_after pre (m # ms) = (if kept pre m then 0 else 1) + orphans_after (pre @ [m]) ms"

text \<open>Only tool results stand between the last turn of \<open>pre\<close> and its end.\<close>

definition results_only :: "message list \<Rightarrow> bool" where
  "results_only pre \<longleftrightarrow> list_all (\<lambda>m. is_role m ''tool'') (takeWhile transparent (rev pre))"

fun close_after :: "message list \<Rightarrow> message list \<Rightarrow> bool" where
  "close_after pre [] = True"
| "close_after pre (m # ms) = ((is_tool_result m \<and> kept pre m \<longrightarrow> results_only pre) \<and> close_after (pre @ [m]) ms)"

abbreviation "orphans \<equiv> orphans_after []"
abbreviation "close_results \<equiv> close_after []"

definition dropped :: "message list \<Rightarrow> nat" where
  "dropped ms = length ms - length (resolved_history_indices ms)"

lemma resolve_orphans:
  "awaited pre = (ids, names) \<Longrightarrow> length (resolve_from n ids names ms) + orphans_after pre ms = length ms"
proof (induction ms arbitrary: pre ids names n)
  case (Cons m ms)
  obtain i ns where a: "awaited (pre @ [m]) = (i, ns)" by fastforce
  from Cons.IH [OF a, of "Suc n"] show ?case
    unfolding resolve_step [OF Cons.prems a] orphans_after.simps by (simp del: resolve_from.simps)
qed simp

lemma dropped_orphans: "dropped ms = orphans ms"
  using resolve_orphans [of "[]" "[]" "[]" 0 ms] by (simp add: dropped_def resolved_history_indices_def awaited_def)

lemma orphans_append: "orphans_after pre (xs @ ys) = orphans_after pre xs + orphans_after (pre @ xs) ys"
  by (induction xs arbitrary: pre) simp_all

lemma close_append: "close_after pre (xs @ ys) \<longleftrightarrow> close_after pre xs \<and> close_after (pre @ xs) ys"
  by (induction xs arbitrary: pre) auto

text \<open>Two prefixes a message cannot tell apart.\<close>

definition alike :: "message list \<Rightarrow> message list \<Rightarrow> bool" where
  "alike p q \<longleftrightarrow> last_turn p = last_turn q \<and> (last_turn p \<noteq> None \<longrightarrow> results_only p = results_only q)"

lemma kept_alike: "last_turn p = last_turn q \<Longrightarrow> kept p m = kept q m"
  by (simp add: kept_def)

lemma kept_tool_turn: "kept p m \<Longrightarrow> is_tool_result m \<Longrightarrow> last_turn p \<noteq> None"
  by (auto simp: kept_def is_tool_result_def split: option.splits)

lemma results_only_snoc: "results_only (p @ [m]) \<longleftrightarrow> (transparent m \<longrightarrow> is_role m ''tool'' \<and> results_only p)"
  by (auto simp: results_only_def)

lemma alike_snoc: "alike p q \<Longrightarrow> alike (p @ [m]) (q @ [m])"
  by (auto simp: alike_def last_turn_snoc results_only_snoc)

lemma alike_after: "alike p q \<Longrightarrow> orphans_after p ms = orphans_after q ms \<and> close_after p ms = close_after q ms"
proof (induction ms arbitrary: p q)
  case (Cons m ms)
  have l: "last_turn p = last_turn q" and r: "last_turn p \<noteq> None \<Longrightarrow> results_only p = results_only q"
    using Cons.prems by (simp_all add: alike_def)
  have k: "kept p m = kept q m" using l by (rule kept_alike)
  have "(is_tool_result m \<and> kept p m \<longrightarrow> results_only p) = (is_tool_result m \<and> kept q m \<longrightarrow> results_only q)"
    using r kept_tool_turn [of p m] k by blast
  then show ?case
    unfolding orphans_after.simps close_after.simps using Cons.IH [OF alike_snoc [OF Cons.prems]] k by (simp only: simp_thms)
qed simp

section \<open>A list with at most so many orphans\<close>

definition within :: "nat \<Rightarrow> message list \<Rightarrow> bool" where
  "within n ms \<longleftrightarrow> orphans ms \<le> n \<and> close_results ms"

lemma plain_after: "\<not> is_tool_result m \<Longrightarrow> orphans_after pre [m] = 0 \<and> close_after pre [m]"
  by (simp add: is_tool_result_def kept_role)

lemma within_snoc: "within n ms \<Longrightarrow> \<not> is_tool_result m \<Longrightarrow> within n (ms @ [m])"
  using plain_after by (auto simp: within_def orphans_append close_append)

lemma systems_after: "list_all (\<lambda>m. is_role m ''system'') xs \<Longrightarrow>
    orphans_after pre xs = 0 \<and> close_after pre xs \<and> last_turn (pre @ xs) = last_turn pre"
proof (induction xs arbitrary: pre)
  case (Cons x xs)
  have "\<not> is_role x ''tool''" using Cons.prems by (simp add: is_role_def)
  then show ?case
    using Cons.IH [of "pre @ [x]"] Cons.prems by (simp add: kept_role is_tool_result_def last_turn_snoc transparent_def)
qed simp

lemma alike_systems: "list_all (\<lambda>m. is_role m ''system'') xs \<Longrightarrow> alike xs []"
  using systems_after [of xs "[]"] by (simp add: alike_def)

lemma within_systems:
  assumes "list_all (\<lambda>m. is_role m ''system'') xs"
  shows "within n (xs @ ms) = within n ms"
  using systems_after [OF assms, of "[]"] alike_after [OF alike_systems [OF assms], of ms]
  by (simp add: within_def orphans_append close_append)

lemma within_head: "is_role h ''system'' \<Longrightarrow> within n (h # ms) = within n ms"
  using within_systems [of "[h]"] by simp

lemma within_strip_head: "within n (strip_head ms) = within n ms"
proof -
  have "list_all (\<lambda>m. is_role m ''system'') (takeWhile is_head ms)"
    by (auto simp: list_all_iff is_head_def dest: set_takeWhileD)
  from within_systems [OF this, of n "strip_head ms"] show ?thesis by (simp add: strip_head_def)
qed

text \<open>A list may be cut before a message that is no tool result.\<close>

lemma cut_after:
  assumes "last_turn p = None" "list_ex (\<lambda>m. is_role m ''system'') p \<or> p = [] \<and> (ys = [] \<or> \<not> is_tool_result (hd ys))"
    "close_after (xs @ p) ys"
  shows "orphans_after p ys = orphans_after (xs @ p) ys \<and> close_after p ys"
  using assms
proof (induction ys arbitrary: p)
  case (Cons m ys)
  have tp: "list_all transparent p"
    using Cons.prems(1) last_turn_ne by (fastforce simp: list_all_iff)
  consider (tool) "is_tool_result m" | (system) "is_role m ''system''" | (turn) "\<not> transparent m"
    by (auto simp: transparent_def is_tool_result_def)
  then show ?case
  proof cases
    case tool
    with Cons.prems(2) have sys: "list_ex (\<lambda>m. is_role m ''system'') p" by auto
    have "takeWhile transparent (rev (xs @ p)) = rev p @ takeWhile transparent (rev xs)"
      unfolding rev_append by (rule takeWhile_append2) (use tp in \<open>simp add: list_all_iff\<close>)
    then have "\<not> results_only (xs @ p)"
      using sys by (fastforce simp: results_only_def list_all_iff list_ex_iff is_role_def)
    then have "\<not> kept (xs @ p) m" "\<not> kept p m"
      using Cons.prems(1,3) tool kept_tool_turn [of p m] by auto
    moreover have "last_turn (p @ [m]) = None"
      using Cons.prems(1) tool by (simp add: last_turn_snoc transparent_def is_tool_result_def)
    ultimately show ?thesis using Cons.IH [of "p @ [m]"] Cons.prems(3) sys by simp
  next
    case system
    then have plain: "\<not> is_role m ''tool''" by (simp add: is_role_def)
    have "last_turn (p @ [m]) = None" using Cons.prems(1) system by (simp add: last_turn_snoc transparent_def)
    then show ?thesis
      using Cons.IH [of "p @ [m]"] Cons.prems(3) system plain by (simp add: kept_role is_tool_result_def)
  next
    case turn
    then have plain: "\<not> is_role m ''tool''" by (simp add: transparent_def)
    have "alike (p @ [m]) ((xs @ p) @ [m])" using turn by (simp add: alike_def last_turn_snoc results_only_snoc del: append_assoc)
    from alike_after [OF this, of ys] show ?thesis
      using Cons.prems(3) plain by (simp add: kept_role is_tool_result_def)
  qed
qed simp

lemma within_tail:
  assumes "within n ms"
  shows "within n (drop (safe_split ms) ms)"
proof -
  let ?k = "safe_split ms"
  have "drop ?k ms = [] \<or> \<not> is_tool_result (hd (drop ?k ms))"
    using safe_split_not_tool [of ms] by (auto simp: hd_drop_conv_nth)
  moreover have "close_after (take ?k ms) (drop ?k ms)" "orphans (take ?k ms) + orphans_after (take ?k ms) (drop ?k ms) \<le> n"
    using assms close_append [of "[]" "take ?k ms" "drop ?k ms"] orphans_append [of "[]" "take ?k ms" "drop ?k ms"]
    by (simp_all add: within_def)
  ultimately show ?thesis
    using cut_after [of "[]" "drop ?k ms" "take ?k ms"] by (simp add: within_def)
qed

lemma same_after:
  "list_all2 same_but_content pre pre' \<Longrightarrow> list_all2 same_but_content ms ms' \<Longrightarrow>
    orphans_after pre' ms' = orphans_after pre ms \<and> close_after pre' ms' = close_after pre ms"
proof (induction ms arbitrary: pre pre' ms')
  case (Cons m ms)
  then obtain m' ns where ms': "ms' = m' # ns" "same_but_content m m'" "list_all2 same_but_content ms ns"
    by (auto simp: list_all2_Cons1)
  have r: "map m_role pre' = map m_role pre" by (rule roles_rel [OF Cons.prems(1)])
  have t: "is_role a' x = is_role a x" if "m_role a' = m_role a" for a a' x using that by (simp add: is_role_def)
  have "results_only xs' = results_only xs" if "map m_role xs' = map m_role xs" for xs xs'
    using that
  proof (induction xs arbitrary: xs' rule: rev_induct)
    case (snoc x xs)
    then obtain x' ys where x: "xs' = ys @ [x']" "map m_role ys = map m_role xs" "m_role x' = m_role x"
      by (cases xs' rule: rev_cases) auto
    have "transparent x' = transparent x" "is_role x' ''tool'' = is_role x ''tool''"
      using t [OF x(3)] by (simp_all add: transparent_def)
    then show ?case unfolding x(1) results_only_snoc using snoc.IH [OF x(2)] by simp
  qed (simp add: results_only_def)
  then have "results_only pre' = results_only pre" using r by blast
  moreover have "kept pre' m' = kept pre m" by (rule kept_rel [OF Cons.prems(1) ms'(2)])
  moreover have "is_tool_result m' = is_tool_result m"
    using same_but_content_frame [OF ms'(2)] by (simp add: is_tool_result_def is_role_def)
  moreover have "list_all2 same_but_content (pre @ [m]) (pre' @ [m'])"
    using Cons.prems(1) ms'(2) by (intro list_all2_appendI) simp_all
  ultimately show ?case using Cons.IH [of "pre @ [m]" "pre' @ [m']" ns] ms' by simp
qed simp

lemma within_evict: "within n (fst (evict_tool_results ms budget)) = within n ms"
  using same_after [of "[]" "[]" ms "fst (evict_tool_results ms budget)"] evict_rel by (simp add: within_def)

lemma within_compress:
  assumes "within n ms"
  shows "within n (co_messages (compress_with_budget summarize ms s w))"
proof -
  let ?ms = "fst (evict_tool_results ms TOOL_RESULT_CHAR_BUDGET)"
  have v: "within n ?ms" using assms by (simp add: within_evict)
  then show ?thesis
    using within_tail [OF v] within_head [OF compressed_head_system]
    by (auto simp: compress_with_budget_def Let_def split_beta split: option.splits)
qed

section \<open>A tool turn\<close>

lemma results_after:
  assumes "last_turn pre = Some a" "is_role a ''assistant''" "results_only pre"
    "list_all (\<lambda>t. \<exists>c \<in> set (m_tool_calls a). answers_call c t) ts"
  shows "orphans_after pre ts = 0 \<and> close_after pre ts"
  using assms
proof (induction ts arbitrary: pre)
  case (Cons t ts)
  then obtain c where c: "c \<in> set (m_tool_calls a)" "answers_call c t" by auto
  then have k: "kept pre t" using Cons.prems(1,2) by (auto simp: kept_def answers_call_def answers_def)
  have "transparent t" "is_role t ''tool''" using c(2) by (simp_all add: answers_call_def transparent_def)
  then show ?case
    using Cons.IH [of "pre @ [t]"] Cons.prems k by (simp add: last_turn_snoc results_only_snoc)
qed simp

lemma within_tool_turn:
  assumes "within n ms" and "p_messages p = []"
  shows "within n (ms @ with_native (assistant_with_tools text (map (\<lambda>c. fst (fst c)) cs)) items #
      p_messages (post_loop env cs p))"
proof -
  let ?a = "with_native (assistant_with_tools text (map (\<lambda>c. fst (fst c)) cs)) items"
  let ?ts = "p_messages (post_loop env cs p)"
  have a: "is_role ?a ''assistant''" "m_tool_calls ?a = map (\<lambda>c. fst (fst c)) cs"
    by (simp_all add: with_native_def assistant_with_tools_def is_role_def)
  then have plain: "\<not> transparent ?a" "\<not> is_tool_result ?a" by (simp_all add: transparent_def is_role_def is_tool_result_def)
  have "list_all2 answers_call (m_tool_calls ?a) ?ts"
    using post_loop_messages [of env cs p] assms(2) a(2) by auto
  then have ans: "list_all (\<lambda>t. \<exists>c \<in> set (m_tool_calls ?a). answers_call c t) ?ts"
    by (auto simp: list_all2_conv_all_nth list_all_length intro!: bexI [OF _ nth_mem])
  have "orphans_after (ms @ [?a]) ?ts = 0 \<and> close_after (ms @ [?a]) ?ts"
    by (rule results_after [OF _ a(1) _ ans]) (use plain(1) in \<open>simp_all add: last_turn_snoc results_only_snoc\<close>)
  with within_snoc [OF assms(1) plain(2)] show ?thesis
    using orphans_append [of "[]" "ms @ [?a]" ?ts] close_append [of "[]" "ms @ [?a]" ?ts] by (simp add: within_def)
qed

text \<open>A valid transcript has no orphan.\<close>

lemma calls_adjacent_take: "calls_adjacent (xs @ ys) \<Longrightarrow> calls_adjacent xs"
proof (induction xs rule: calls_adjacent.induct)
  case (1 a b ms)
  then show ?case by simp
qed simp_all

lemma adjacent_close: "calls_adjacent (pre @ ms) \<Longrightarrow> close_after pre ms"
proof (induction ms arbitrary: pre)
  case (Cons m ms)
  have "results_only pre" if "is_tool_result m" "calls_adjacent (pre @ [m])" for pre m
    using that
  proof (induction pre arbitrary: m rule: rev_induct)
    case (snoc x pre)
    have x: "calls_adjacent (pre @ [x])" "\<not> is_role x ''system''"
      using snoc.prems calls_adjacent_drop [OF snoc.prems(2), of "length pre"]
      by (auto simp: calls_adjacent_take)
    show ?case
      using snoc.IH [of x] x by (auto simp: results_only_snoc transparent_def is_tool_result_def)
  qed (simp add: results_only_def)
  moreover have "calls_adjacent (pre @ [m])" using Cons.prems calls_adjacent_take [of "pre @ [m]" ms] by simp
  ultimately have "is_tool_result m \<Longrightarrow> results_only pre" by blast
  then show ?case using Cons.IH [of "pre @ [m]"] Cons.prems by simp
qed simp

end
