(* ===== verification/Run_Transcript.thy ===== *)
theory Run_Transcript
  imports Run_Safety Orphans
begin

text \<open>
  The conversation of a run: every list sent to the provider is a valid transcript, what becomes of
  a summary after the request it was made for, and resuming from a checkpoint.
\<close>

section \<open>Every request is valid\<close>

definition transcript_ok :: "nat \<Rightarrow> run \<Rightarrow> bool" where
  "transcript_ok n st \<longleftrightarrow> within n (x_messages st) \<and> list_all (within n) (x_requests st)"

definition talk :: "run \<Rightarrow> message list \<times> message list list" where
  "talk st = (x_messages st, x_requests st)"

lemma talk_iff: "talk st = talk st' \<longleftrightarrow> x_messages st = x_messages st' \<and> x_requests st = x_requests st'"
  by (simp add: talk_def)

lemma transcript_ok_talk: "transcript_ok n st \<longleftrightarrow> within n (fst (talk st)) \<and> list_all (within n) (snd (talk st))"
  by (simp add: transcript_ok_def talk_def)

lemma talk_frame [simp]:
  "talk (say k st) = talk st" "talk (append_message w m st) = talk st"
  "talk (spawn_memory_extraction req st) = talk st" "talk (note_usage t st) = talk st"
  "talk (reset_repairs st) = talk st" "talk (save_checkpoint w pol st) = talk st"
  by (simp_all add: talk_iff say_def append_message_def spawn_memory_extraction_def note_usage_def reset_repairs_def
      save_checkpoint_def Let_def split: option.split)

lemma talk_update [simp]:
  "talk (st\<lparr>x_steps := a1\<rparr>) = talk st" "talk (st\<lparr>x_budget := a2\<rparr>) = talk st" "talk (st\<lparr>x_signals := a3\<rparr>) = talk st"
  "talk (st\<lparr>x_detector := a4\<rparr>) = talk st" "talk (st\<lparr>x_summary := a5\<rparr>) = talk st"
  "talk (st\<lparr>x_last_todos := a6\<rparr>) = talk st" "talk (st\<lparr>x_repair_turns := a7\<rparr>) = talk st"
  "talk (st\<lparr>x_final_text := a8\<rparr>) = talk st"
  by (simp_all add: talk_def)

lemma talk_fold [simp]: "talk (fold (append_message w) ms st) = talk st"
  by (induction ms arbitrary: st) simp_all

lemma talk_push [simp]: "talk (push_message m st) = (x_messages st @ [m], x_requests st)"
  by (simp add: talk_def push_message_def)

lemma ok_cong: "talk st' = talk st \<Longrightarrow> transcript_ok n st \<Longrightarrow> transcript_ok n st'"
  by (simp add: transcript_ok_talk)

lemma ok_push: "transcript_ok n st \<Longrightarrow> \<not> is_tool_result m \<Longrightarrow> transcript_ok n (push_message m st)"
  unfolding transcript_ok_talk talk_push by (simp add: talk_def within_snoc)

lemma plain_message [simp]:
  "\<not> is_tool_result (user_note t)" "\<not> is_tool_result (message_text (lit ''assistant'') t)"
  by (simp_all add: user_note_def message_text_def is_tool_result_def is_role_def)

lemma to_message_plain: "to_message b = Some m \<Longrightarrow> \<not> is_tool_result m"
  by (auto simp: to_message_def message_text_def is_tool_result_def is_role_def split: if_splits)

lemma ok_retrieved: "transcript_ok n st \<Longrightarrow> transcript_ok n (push_retrieved b mo st)"
  by (cases mo) (auto simp: push_retrieved_def intro: ok_push dest: to_message_plain split: option.split)

lemma ok_steering: "transcript_ok n st \<Longrightarrow> transcript_ok n (apply_steering w ts st)"
  unfolding apply_steering_def
proof (induction ts arbitrary: st)
  case (Cons t ts)
  have "transcript_ok n (steer_one w t st)"
    unfolding steer_one_def Let_def
    by (rule ok_cong [OF talk_frame(1)], rule ok_push [OF ok_cong [OF talk_frame(2) Cons.prems]]) simp
  with Cons.IH show ?case by simp
qed simp

lemma ok_budget: "budget_gate w it st = Inr g \<Longrightarrow> transcript_ok n st \<Longrightarrow> transcript_ok n g"
  using budget_gate_Inr [of w it st g] ok_cong [of g st n] by auto

text \<open>The request is valid, and so is what stays in memory when compression replaces the history.\<close>

lemma within_with_head: "within n ms \<Longrightarrow> within n (with_head h ms)"
  by (simp add: with_head_def within_head message_text_def is_role_def)

lemma prepare_ok:
  assumes "transcript_ok n st"
  shows "transcript_ok n (fst (prepare_request pol req it st)) \<and> within n (snd (prepare_request pol req it st))"
proof -
  obtain st1 where st1: "st1 = (if it_todos it \<noteq> x_last_todos st then say ''todo_list'' (st\<lparr>x_last_todos := it_todos it\<rparr>) else st)"
    by blast
  obtain cur where cur: "cur = with_head (head_of pol req it) (x_messages st1)" by blast
  have t1: "talk st1 = talk st" by (simp add: st1)
  then have ok1: "transcript_ok n st1" using assms by (rule ok_cong)
  then have vc: "within n cur" by (simp add: cur transcript_ok_def within_with_head)
  obtain out where out: "out = compress_with_budget (it_summarize it) cur (x_summary st1) (q_context_window req)" by blast
  have vo: "within n (co_messages out)" unfolding out by (rule within_compress [OF vc])
  have "transcript_ok n (say k ((st1\<lparr>x_summary := s\<rparr>)\<lparr>x_messages := strip_head (co_messages out)\<rparr>))" for k s
    using ok1 vo by (simp add: transcript_ok_def say_def within_strip_head)
  moreover have "transcript_ok n (st1\<lparr>x_summary := s\<rparr>)" for s
    using ok1 by (simp add: transcript_ok_def)
  ultimately show ?thesis
    using ok1 vc vo
    by (simp add: prepare_request_def Let_def flip: st1 cur out)
qed

lemma ok_before_turn: "transcript_ok n g \<Longrightarrow> transcript_ok n (before_turn pol req it g)"
  using prepare_ok [of n "g\<lparr>x_steps := x_steps g + 1\<rparr>" pol req it] ok_cong [of "g\<lparr>x_steps := x_steps g + 1\<rparr>" g n]
  by (simp add: before_turn_def split_beta transcript_ok_def)

lemma ok_stagnation: "transcript_ok n st \<Longrightarrow> transcript_ok n (detect_stagnation pol req it t st)"
proof -
  assume ok: "transcript_ok n st"
  have "transcript_ok n (push_message (user_note h) (push_retrieved b mo (say k (st\<lparr>x_signals := [], x_detector := d\<rparr>))))" for h b mo k d
    by (intro ok_push ok_retrieved plain_message) (rule ok_cong [OF _ ok], simp)
  moreover have "transcript_ok n (st\<lparr>x_signals := [], x_detector := d\<rparr>)" "transcript_ok n (st\<lparr>x_signals := []\<rparr>)" for d
    by (rule ok_cong [OF _ ok], simp)+
  ultimately show ?thesis
    by (simp add: detect_stagnation_def Let_def split_beta split: option.split)
qed

lemma ok_after_turn: "transcript_ok n g \<Longrightarrow> transcript_ok n (after_turn w pol req it g)"
  unfolding after_turn_def by (intro ok_stagnation) (rule ok_cong [OF talk_frame(4)], rule ok_before_turn)

lemma ok_no_tools: "no_tools w pol req it t st = Inr st' \<Longrightarrow> transcript_ok n st \<Longrightarrow> transcript_ok n st'"
proof -
  assume n: "no_tools w pol req it t st = Inr st'" and ok: "transcript_ok n st"
  have "transcript_ok n (push_message (user_note h) (push_retrieved b mo (say k (st\<lparr>x_repair_turns := a\<rparr>))))" for h b mo k a
    by (intro ok_push ok_retrieved plain_message) (rule ok_cong [OF _ ok], simp)
  with n show ?thesis by (auto simp: no_tools_def Let_def split: if_splits)
qed

lemma talk_announce:
  "talk (announce_calls w t st) =
     (x_messages st @ [with_native (assistant_with_tools (t_text t) (t_tool_calls t)) (t_native t)], x_requests st)"
  by (simp add: announce_calls_def Let_def append_message_def)

lemma ok_take_results:
  assumes ok: "transcript_ok n st"
  shows "transcript_ok n (take_results w t (scheduled w pol req it t (announce_calls w t st))
    (processed w pol req t (scheduled w pol req it t (announce_calls w t st)) (announce_calls w t st)) (announce_calls w t st))"
proof -
  let ?a = "announce_calls w t st" and ?c = "turn_calls w t"
  let ?s = "scheduled w pol req it t ?a"
  obtain p where p: "p = processed w pol req t ?s ?a" by blast
  have "map (\<lambda>c. fst (fst c)) (post_input ?c ?s) = map fst ?c"
    unfolding post_input_def by (rule nth_equalityI) (simp_all add: scheduled_def schedule_lengths)
  also have "\<dots> = t_tool_calls t" by (simp add: turn_calls_def o_def)
  finally have names: "map (\<lambda>c. fst (fst c)) (post_input ?c ?s) = t_tool_calls t" .
  have "within n (x_messages st @ with_native (assistant_with_tools (t_text t) (t_tool_calls t)) (t_native t) # p_messages p)"
    using within_tool_turn [of n "x_messages st" "post_start ?a ?s" "t_text t" "post_input ?c ?s" "t_native t"] ok
    by (simp add: names p processed_def transcript_ok_def post_start_def)
  moreover have m: "x_messages ?a = x_messages st @ [with_native (assistant_with_tools (t_text t) (t_tool_calls t)) (t_native t)]"
    "x_requests ?a = x_requests st"
    using talk_announce [of w t st] by (simp_all add: talk_def)
  ultimately have v: "within n (x_messages ?a @ p_messages p)" by simp
  obtain f where f: "f = fold (append_message w) (p_messages p) ?a" by blast
  have "talk f = talk ?a" by (simp add: f)
  then have fm: "x_messages f = x_messages ?a" "x_requests f = x_requests st" using m by (simp_all add: talk_def)
  have ok': "transcript_ok n st'" if "talk st' = (x_messages f @ p_messages p, x_requests f)" for st'
    using that v ok by (simp add: transcript_ok_def talk_def fm)
  show ?thesis
    unfolding take_results_def Let_def p [symmetric] f [symmetric]
    using ok' by (auto intro!: ok_push simp: talk_def)
qed

lemma ok_auto_format: "transcript_ok n st \<Longrightarrow> transcript_ok n (auto_format w req it b st)"
  by (auto simp: auto_format_def Let_def split_beta intro!: ok_push intro: ok_cong [OF talk_frame(1)] split: option.split)

lemma ok_auto_verify: "transcript_ok n st \<Longrightarrow> transcript_ok n (auto_verify w pol it st)"
proof -
  assume ok: "transcript_ok n st"
  have "transcript_ok n (push_message (user_note t) (st\<lparr>x_auto_verified := True, x_ledger := l, x_checks := c\<rparr>))" for t l c
    by (rule ok_push [OF ok_cong [OF _ ok]]) (simp_all add: talk_def)
  with ok show ?thesis by (auto simp: auto_verify_def Let_def split_beta split: option.split)
qed

lemma ok_with_tools: "transcript_ok n st \<Longrightarrow> transcript_ok n (with_tools w pol req it t st)"
  unfolding with_tools_def Let_def
  by (rule ok_cong [OF talk_frame(6)], rule ok_cong [OF talk_frame(5)], intro ok_auto_verify ok_auto_format ok_take_results)

lemma ok_iter:
  assumes "run_iter w pol req it st = Inr st'" and "transcript_ok n st"
  shows "transcript_ok n st'"
proof -
  from run_iter_Inr [OF assms(1)] obtain g where
    g: "budget_gate w it (apply_steering w (it_steering it) st) = Inr g" and
    e: "if t_tool_calls (turn_of w it) = []
      then no_tools w pol req it (turn_of w it) (after_turn w pol req it g) = Inr st'
      else st' = with_tools w pol req it (turn_of w it) (after_turn w pol req it g)" by blast
  have "transcript_ok n (after_turn w pol req it g)"
    by (intro ok_after_turn ok_budget [OF g] ok_steering assms(2))
  with e show ?thesis by (auto intro: ok_no_tools ok_with_tools split: if_splits)
qed

lemma ok_exit: "talk (res_state r) = talk st \<Longrightarrow> transcript_ok n st \<Longrightarrow> transcript_ok n (res_state r)"
  by (rule ok_cong)

lemma talk_finish [simp]: "talk (res_state (finish_run e s text reasoning st)) = talk st"
  "talk (res_state (finish_cancelled w text reasoning st)) = talk st"
  by (simp_all add: finish_cancelled_def)

lemma talk_budget_gate: "budget_gate w it st = Inl r \<Longrightarrow> talk (res_state r) = talk st"
  by (auto simp: budget_gate_def Let_def split: budget_verdict.splits option.splits if_splits prod.splits)

lemma ok_conclude: "transcript_ok n st \<Longrightarrow> transcript_ok n (res_state (conclude w req e t st))"
proof -
  assume ok: "transcript_ok n st"
  have "transcript_ok n (push_message (message_text (lit ''assistant'') (t_text t))
      (append_message w (message_text (lit ''assistant'') (t_text t)) (st\<lparr>x_final_text := t_text t\<rparr>)))"
    by (rule ok_push [OF ok_cong [OF _ ok]]) simp_all
  then show ?thesis
    unfolding conclude_def Let_def by (rule ok_cong [rotated]) (simp add: talk_iff)
qed

lemma ok_iter_exit:
  assumes "run_iter w pol req it st = Inl r" and "transcript_ok n st"
  shows "transcript_ok n (res_state r)"
  using run_iter_Inl [OF assms(1)]
proof (elim disjE exE conjE)
  assume "r = finish_cancelled w (x_final_text st) (x_final_reasoning st) st"
  then show ?thesis using ok_exit [OF _ assms(2), of r] by simp
next
  assume "budget_gate w it (apply_steering w (it_steering it) st) = Inl r"
  from ok_exit [OF talk_budget_gate [OF this] ok_steering [OF assms(2)]] show ?thesis .
next
  fix g assume g: "budget_gate w it (apply_steering w (it_steering it) st) = Inr g"
    and r: "r = finish_cancelled w (t_text (turn_of w it)) (t_reasoning (turn_of w it)) (before_turn pol req it g)"
  have "transcript_ok n (before_turn pol req it g)" by (intro ok_before_turn ok_budget [OF g] ok_steering assms(2))
  then show ?thesis using ok_exit [of r] r by simp
next
  fix g err assume g: "budget_gate w it (apply_steering w (it_steering it) st) = Inr g"
    and r: "r = finish_run (TurnFailed err) Failed (x_final_text (before_turn pol req it g))
            (x_final_reasoning (before_turn pol req it g)) (say ''error'' (before_turn pol req it g))"
  have "transcript_ok n (before_turn pol req it g)" by (intro ok_before_turn ok_budget [OF g] ok_steering assms(2))
  then show ?thesis using ok_exit [of r] r by simp
next
  fix g assume g: "budget_gate w it (apply_steering w (it_steering it) st) = Inr g"
    and n: "no_tools w pol req it (turn_of w it) (after_turn w pol req it g) = Inl r"
  have ok: "transcript_ok n (after_turn w pol req it g)"
    by (intro ok_after_turn ok_budget [OF g] ok_steering assms(2))
  have "transcript_ok n (say k (after_turn w pol req it g))" for k by (rule ok_cong [OF talk_frame(1) ok])
  with n ok show ?thesis by (auto simp: no_tools_def Let_def intro: ok_conclude split: if_splits)
qed

lemma undropped: "dropped ms = 0 \<Longrightarrow> resolved_history_indices ms = [0..<length ms]"
proof -
  assume "dropped ms = 0"
  then have "length [0..<length ms] \<le> length (resolved_history_indices ms)" by (simp add: dropped_def)
  moreover have r: "resolved_history_indices ms = filter (\<lambda>i. kept (take i ms) (ms ! i)) [0..<length ms]"
    using resolve_from_kept [of "[]" "[]" "[]" ms] by (simp add: resolved_history_indices_def awaited_def)
  ultimately have "\<forall>i \<in> set [0..<length ms]. kept (take i ms) (ms ! i)"
    by (metis length_filter_less not_le)
  then show ?thesis unfolding r by (rule filter_True)
qed

text \<open>
  C4 (invariant). A run adds no orphan: whatever was evicted, summarised, injected, interrupted or cancelled,
  the adapters' filter drops from no list the run sends more messages than from the conversation the
  run started from, which may hold orphans when it was read back from storage or a checkpoint; a
  start without orphans gives requests without any. The start has no system message between a turn
  and the results that answer it, where a cut could separate them.
\<close>

theorem requests_valid:
  assumes "close_results (fst (start_messages req so))" and "execute w pol req so its = Inr r"
  shows "list_all (\<lambda>ms. dropped ms \<le> dropped (fst (start_messages req so))) (x_requests (res_state r)) \<and>
    (dropped (fst (start_messages req so)) = 0 \<longrightarrow>
      list_all (\<lambda>ms. resolved_history_indices ms = [0..<length ms]) (x_requests (res_state r)))"
proof -
  let ?n = "dropped (fst (start_messages req so))"
  have r: "r = run_loop w pol req its 0 (run_init req so)"
    using assms(2) by (simp add: execute_def split: if_splits)
  have "transcript_ok ?n (res_state (run_loop w pol req its 0 (run_init req so)))"
  proof (rule run_loop_rule [where I = "transcript_ok ?n"])
    show "transcript_ok ?n (run_init req so)"
      using assms(1) by (simp add: transcript_ok_def run_init_def within_def dropped_orphans)
  qed (erule (1) ok_iter [rotated], erule (1) ok_iter_exit [rotated])
  then have d: "list_all (\<lambda>ms. dropped ms \<le> ?n) (x_requests (res_state r))"
    by (auto simp: r transcript_ok_def list_all_iff within_def dropped_orphans)
  moreover have "list_all (\<lambda>ms. resolved_history_indices ms = [0..<length ms]) (x_requests (res_state r))" if "?n = 0"
    using d unfolding that by (simp add: list_all_iff undropped)
  ultimately show ?thesis by blast
qed

text \<open>A resumed run whose checkpoint begins with a result that answers nothing.\<close>

definition orphan_request :: request where
  "orphan_request = demo_request\<lparr>q_resume := Some \<lparr>ck_step = 0, ck_tool_calls = 0,
     ck_messages = [tool_result \<lparr>tc_id = [1], tc_kind = [], tc_name = [2], tc_arguments = []\<rparr> [] False, user_note [4]]\<rparr>\<rparr>"

theorem requests_valid_witness:
  "dropped (fst (start_messages orphan_request demo_start)) = 1 \<and>
   (case execute demo_world demo_policy orphan_request demo_start demo_iters of
      Inr r \<Rightarrow> list_all (\<lambda>ms. dropped ms \<le> 1) (x_requests (res_state r)) | Inl _ \<Rightarrow> False)"
proof -
  have s: "fst (start_messages orphan_request demo_start) =
      [tool_result \<lparr>tc_id = [1], tc_kind = [], tc_name = [2], tc_arguments = []\<rparr> [] False, user_note [4]]"
    by (simp add: start_messages_def orphan_request_def)
  have d: "dropped (fst (start_messages orphan_request demo_start)) = 1" and c: "close_results (fst (start_messages orphan_request demo_start))"
    unfolding s dropped_orphans
    by (simp_all add: kept_def tool_result_def user_note_def message_text_def is_role_def is_tool_result_def)
  obtain r where r: "execute demo_world demo_policy orphan_request demo_start demo_iters = Inr r"
    by (simp add: execute_def demo_start_def)
  from requests_valid [OF c r] d r show ?thesis by simp
qed

section \<open>What becomes of a summary\<close>

definition compression_of :: "policy \<Rightarrow> request \<Rightarrow> iter \<Rightarrow> run \<Rightarrow> compression_outcome" where
  "compression_of pol req it st =
     compress_with_budget (it_summarize it) (with_head (head_of pol req it) (x_messages st)) (x_summary st) (q_context_window req)"

lemma compress_shape:
  assumes "\<not> co_skipped (compress_with_budget summarize ms s w)"
  shows "\<exists>n s'. co_messages (compress_with_budget summarize ms s w) =
    compressed_head s' # drop n (fst (evict_tool_results ms TOOL_RESULT_CHAR_BUDGET)) \<and> 0 < n"
proof -
  have a: "active (absorb t s) \<noteq> []" if "trim t \<noteq> []" for t
    using that by (simp add: absorb_def Let_def ACTIVE_SUMMARY_CHAR_BUDGET_def)
  let ?ms = "fst (evict_tool_results ms TOOL_RESULT_CHAR_BUDGET)"
  obtain t where "safe_split ?ms \<noteq> 0" "trim t \<noteq> []"
    "co_messages (compress_with_budget summarize ms s w) =
      (if active (absorb t s) \<noteq> [] then [compressed_head (absorb t s)] else []) @ drop (safe_split ?ms) ?ms"
    using assms by (auto simp: compress_with_budget_def Let_def split_beta split: if_splits option.splits)
  with a [of t] show ?thesis
    by (intro exI [of _ "safe_split ?ms"] exI [of _ "absorb t s"]) simp
qed

lemma compressed_head_is_head: "is_head (compressed_head s)"
  unfolding is_head_def compressed_head_def message_text_def is_role_def by (simp add: starts_with_def)

text \<open>
  A compression's summary reaches one request only. In the pass that compresses, the
  request starts with the summary, but the history kept for all later passes is what followed it in
  that request, without the summary and without the head block; the summarised messages are gone.
\<close>

theorem summary_reaches_one_request:
  assumes "context_tiered_summary pol" and "\<not> co_skipped (compression_of pol req it st)"
  shows "\<exists>s tail. snd (prepare_request pol req it st) = compressed_head s # tail \<and>
    x_messages (fst (prepare_request pol req it st)) = strip_head tail \<and>
    length tail \<le> length (x_messages st)"
proof -
  let ?cur = "with_head (head_of pol req it) (x_messages st)"
  obtain n s where n: "co_messages (compression_of pol req it st) =
      compressed_head s # drop n (fst (evict_tool_results ?cur TOOL_RESULT_CHAR_BUDGET))" "0 < n"
    using compress_shape [of "it_summarize it" ?cur] assms(2) unfolding compression_of_def by blast
  obtain st1 where st1: "st1 = (if it_todos it \<noteq> x_last_todos st then say ''todo_list'' (st\<lparr>x_last_todos := it_todos it\<rparr>) else st)"
    by blast
  have f: "x_messages st1 = x_messages st" "x_summary st1 = x_summary st" by (simp_all add: st1 say_def)
  have "length (fst (evict_tool_results ?cur TOOL_RESULT_CHAR_BUDGET)) = length ?cur"
    using evict_rel [of ?cur TOOL_RESULT_CHAR_BUDGET] by (simp add: list_all2_lengthD)
  also have "\<dots> \<le> Suc (length (x_messages st))" by (simp add: with_head_def)
  finally have l: "length (drop n (fst (evict_tool_results ?cur TOOL_RESULT_CHAR_BUDGET))) \<le> length (x_messages st)"
    using n(2) by simp
  have "snd (prepare_request pol req it st) = co_messages (compression_of pol req it st) \<and>
      x_messages (fst (prepare_request pol req it st)) = strip_head (co_messages (compression_of pol req it st))"
    using assms unfolding prepare_request_def Let_def st1 [symmetric]
    by (simp add: f compression_of_def say_def)
  then show ?thesis
    using n l compressed_head_is_head [of s]
    by (intro exI [of _ s] exI [of _ "drop n (fst (evict_tool_results ?cur TOOL_RESULT_CHAR_BUDGET))"])
       (simp add: strip_head_def)
qed

definition long_request :: request where
  "long_request = demo_request\<lparr>q_context_window := 2000\<rparr>"

definition long_iter :: iter where
  "long_iter = (demo_iter (TextDelta [5]) (demo_record ''read''))\<lparr>it_summarize := (\<lambda>_. Some (lit ''sum''))\<rparr>"

definition long_run :: run where
  "long_run = (run_init demo_request demo_start)\<lparr>x_messages := sample_history\<rparr>"

lemma long_head: "head_of policy_default long_request long_iter =
    lit ''<task_state>'' @ [10] @ lit ''goal: '' @ [4, 10] @ lit ''</task_state>'' @ [10]"
  by (simp add: head_of_def policy_default_def long_request_def long_iter_def render_head_def task_state_for_def
      demo_defs render_task_state_def task_section_def nl_def todo_render_def GOAL_PREVIEW_CHARS_def)

lemma long_compressed: "\<not> co_skipped (compression_of policy_default long_request long_iter long_run)"
proof -
  let ?h = "message_text (lit ''system'') (head_of policy_default long_request long_iter)"
  let ?ms = "?h # sample_history"
  have "trim (head_of policy_default long_request long_iter) \<noteq> []"
    unfolding long_head by code_simp
  then have c: "with_head (head_of policy_default long_request long_iter) (x_messages long_run) = ?ms"
    by (simp add: with_head_def long_run_def)
  have t: "trim (lit ''sum'') = lit ''sum''" by code_simp
  have tc: "tool_chars ?ms = 4" by (simp add: sample_simps Let_def tool_chars_def)
  have sp: "safe_split ?ms = 5" by (simp add: sample_simps Let_def safe_split_def split_from.simps)
  have es: "16000 \<le> estimate_chars ?ms" by (simp add: sample_simps Let_def estimate_chars_def)
  have q: "q_context_window long_request = 2000" "it_summarize long_iter = (\<lambda>_. Some (lit ''sum''))"
    by (simp_all add: long_request_def long_iter_def)
  show ?thesis
    using es unfolding compression_of_def c q
    by (simp add: compress_with_budget_def evict_tool_results_def tc sp t Let_def context_consts compress_threshold_chars_def)
qed

theorem summary_reaches_one_request_witness:
  "\<exists>s tail. snd (prepare_request policy_default long_request long_iter long_run) = compressed_head s # tail \<and>
     x_messages (fst (prepare_request policy_default long_request long_iter long_run)) = strip_head tail \<and>
     length tail \<le> length (x_messages long_run)"
  by (rule summary_reaches_one_request [OF _ long_compressed]) (simp add: policy_default_def)

section \<open>Resuming\<close>

lemma stored_message:
  "message_to_history e m = (if \<exists>n. e (m_native m) = Some n \<and> n \<le> 262144 then m else m\<lparr>m_native := []\<rparr>)"
  by (auto simp: message_to_history_def NATIVE_HISTORY_MAX_BYTES_def Let_def split: option.split)

text \<open>
  C24 (roundtrip). A checkpoint puts a resumed run back where it was: same step and call counters, and
  the same transcript, message by message, with the native provider items of every message whose
  encoding is at most 256 KiB; larger items are left out, and the adapters keep exactly the same
  messages either way. What a checkpoint does not hold is the ledger: the resumed run starts with a
  new one and owes no verification for what was done before.
\<close>

theorem resume_restores:
  assumes "x_checkpoints (save_checkpoint w pol st) = x_checkpoints st @ [ck]" and "q_resume req = Some ck"
  shows "x_steps (run_init req so) = x_steps st \<and> x_total_calls (run_init req so) = x_total_calls st \<and>
    x_messages (run_init req so) =
      map (\<lambda>m. if \<exists>n. encoded_len w (m_native m) = Some n \<and> n \<le> 262144 then m else m\<lparr>m_native := []\<rparr>)
        (x_messages st) \<and>
    resolved_history_indices (x_messages (run_init req so)) = resolved_history_indices (x_messages st) \<and>
    x_ledger (run_init req so) = ledger_new (q_verify_command req)"
proof -
  have ck: "ck_step ck = x_steps st" "ck_tool_calls ck = x_total_calls st"
    "ck_messages ck = map (message_to_history (encoded_len w)) (x_messages st)"
    using assms(1) by (auto simp: save_checkpoint_def say_def split: if_splits)
  have h: "map history_to_message ms = ms" for ms by (simp add: map_idI)
  have m: "x_messages (run_init req so) = map (message_to_history (encoded_len w)) (x_messages st)"
    by (simp add: run_init_def start_messages_def assms(2) ck h)
  have "resolved_history_indices (x_messages (run_init req so)) = resolved_history_indices (x_messages st)"
    unfolding m by (rule message_to_history_resolved)
  then show ?thesis
    using m by (simp add: stored_message) (simp add: run_init_def assms(2) ck)
qed

definition native_note :: message where
  "native_note = (user_note [4])\<lparr>m_native := [JNull]\<rparr>"

definition resume_request :: request where
  "resume_request = demo_request\<lparr>q_resume := Some \<lparr>ck_step = 10, ck_tool_calls = 0,
     ck_messages = map (message_to_history (encoded_len demo_world)) [native_note]\<rparr>\<rparr>"

theorem resume_restores_witness:
  "x_steps (run_init resume_request demo_start) = 10 \<and> x_messages (run_init resume_request demo_start) = [native_note]"
proof -
  let ?st = "(run_init demo_request demo_start)\<lparr>x_steps := 10, x_messages := [native_note]\<rparr>"
  let ?ck = "\<lparr>ck_step = 10, ck_tool_calls = 0,
     ck_messages = map (message_to_history (encoded_len demo_world)) [native_note]\<rparr>"
  have "x_checkpoints (save_checkpoint demo_world policy_default ?st) = x_checkpoints ?st @ [?ck]"
    by (simp add: save_checkpoint_def say_def policy_default_def run_init_def demo_request_def)
  moreover have "q_resume resume_request = Some ?ck" by (simp add: resume_request_def)
  ultimately show ?thesis
    using resume_restores [of demo_world policy_default ?st ?ck resume_request demo_start]
    by (simp add: demo_world_def)
qed

end
