(* ===== verification/Event_Log.thy ===== *)
theory Event_Log
  imports Json
begin

text \<open>
  The run event log: \<open>runs/engine/event_bus.rs\<close> (sequence numbers, buffering, coalescing and
  persistence of run events) and the replay window of \<open>runs/events.rs\<close>. The table \<open>run_events\<close> is
  the list of its rows in insertion order, with \<open>UNIQUE(run_id, sequence)\<close>; \<open>db_up\<close> says whether
  the database answers. Sequence numbers are unbounded integers (the code uses \<open>i64\<close>, which a
  counter starting at the number of stored events cannot overflow). Timestamps are left out.
\<close>

section \<open>Events and the bus\<close>

type_synonym run_id = nat

record run_event =
  ev_run :: run_id
  ev_seq :: int
  ev_kind :: ustr
  ev_data :: json

record bus =
  sequences :: "run_id \<Rightarrow> int option"
  event_buffer :: "run_id \<Rightarrow> run_event list"
  flush_scheduled :: "run_id set"
  receivers :: nat
  sent :: "run_event list"
  rows :: "run_event list"
  db_up :: bool

definition STREAM_KINDS :: "string list" where "STREAM_KINDS = [''text'', ''reasoning'']"
definition EVENT_FLUSH_BATCH :: nat where "EVENT_FLUSH_BATCH = 64"
definition MAX_COALESCED_STREAM_BYTES :: nat where "MAX_COALESCED_STREAM_BYTES = 64 * 1024"

definition is_stream :: "ustr \<Rightarrow> bool" where
  "is_stream kind \<longleftrightarrow> one_of kind STREAM_KINDS"

section \<open>The database\<close>

datatype db_error = UniqueViolation | DbUnavailable

definition event_key :: "run_event \<Rightarrow> run_id \<times> int" where
  "event_key e = (ev_run e, ev_seq e)"

text \<open>One \<open>INSERT\<close> statement: atomic, rejected as a whole on a key collision.\<close>

definition insert_rows :: "run_event list \<Rightarrow> bus \<Rightarrow> db_error option \<times> bus" where
  "insert_rows chunk b =
     (if \<not> db_up b then (Some DbUnavailable, b)
      else if distinct (map event_key (rows b @ chunk)) then (None, b\<lparr>rows := rows b @ chunk\<rparr>)
      else (Some UniqueViolation, b))"

definition insert_event :: "run_event \<Rightarrow> bus \<Rightarrow> db_error option \<times> bus" where
  "insert_event e b = insert_rows [e] b"

function insert_events :: "run_event list \<Rightarrow> bus \<Rightarrow> db_error option \<times> bus" where
  "insert_events batch b =
     (if batch = [] then (None, b)
      else case insert_rows (take EVENT_FLUSH_BATCH batch) b of
        (Some err, b') \<Rightarrow> (Some err, b')
      | (None, b') \<Rightarrow> insert_events (drop EVENT_FLUSH_BATCH batch) b')"
  by pat_completeness auto
termination
  by (relation "measure (\<lambda>(batch, b). length batch)") (auto simp: EVENT_FLUSH_BATCH_def)

declare insert_events.simps [simp del]

definition run_rows :: "bus \<Rightarrow> run_id \<Rightarrow> run_event list" where
  "run_rows b r = filter (\<lambda>e. ev_run e = r) (rows b)"

text \<open>\<open>COALESCE(MAX(sequence), 0)\<close>; both attempts fail when the database is down.\<close>

definition persisted_sequence_base :: "run_id \<Rightarrow> bus \<Rightarrow> int" where
  "persisted_sequence_base r b =
     (if db_up b then (case map ev_seq (run_rows b r) of [] \<Rightarrow> 0 | x # xs \<Rightarrow> fold max xs x) else 0)"

section \<open>Sequence numbers\<close>

text \<open>
  The two critical sections of \<open>next_sequence\<close>: the fast path on an existing counter, and seeding
  it from a base that was read without the lock.
\<close>

definition bump_sequence :: "run_id \<Rightarrow> bus \<Rightarrow> int option \<times> bus" where
  "bump_sequence r b =
     (case sequences b r of
        Some n \<Rightarrow> (Some (n + 1), b\<lparr>sequences := (sequences b)(r := Some (n + 1))\<rparr>)
      | None \<Rightarrow> (None, b))"

definition seed_sequence :: "run_id \<Rightarrow> int \<Rightarrow> bus \<Rightarrow> int \<times> bus" where
  "seed_sequence r base b =
     (case bump_sequence r b of
        (Some n, b') \<Rightarrow> (n, b')
      | (None, b') \<Rightarrow> (base + 1, b\<lparr>sequences := (sequences b)(r := Some (base + 1))\<rparr>))"

definition next_sequence :: "run_id \<Rightarrow> bus \<Rightarrow> int \<times> bus" where
  "next_sequence r b =
     (case bump_sequence r b of
        (Some n, b') \<Rightarrow> (n, b')
      | (None, b') \<Rightarrow> seed_sequence r (persisted_sequence_base r b') b')"

section \<open>Persisting\<close>

definition persist_event :: "run_event \<Rightarrow> bus \<Rightarrow> db_error option \<times> bus" where
  "persist_event evt b =
     (case insert_event evt b of
        (None, b') \<Rightarrow> (None, b')
      | (Some DbUnavailable, b') \<Rightarrow> (Some DbUnavailable, b')
      | (Some UniqueViolation, b') \<Rightarrow>
          (let renumbered = persisted_sequence_base (ev_run evt) b' + 1;
               entry = (case sequences b' (ev_run evt) of None \<Rightarrow> renumbered | Some n \<Rightarrow> max n renumbered);
               b'' = b'\<lparr>sequences := (sequences b')(ev_run evt := Some entry)\<rparr>
           in insert_event (evt\<lparr>ev_seq := renumbered\<rparr>) b''))"

definition delta_of :: "run_event \<Rightarrow> ustr" where
  "delta_of e = str_or (ev_data e) ''delta'' []"

definition with_delta :: "run_event \<Rightarrow> ustr \<Rightarrow> run_event" where
  "with_delta e d = e\<lparr>ev_data := JObj [(lit ''delta'', JStr d)]\<rparr>"

definition mergeable :: "run_event \<Rightarrow> run_event \<Rightarrow> bool" where
  "mergeable prev evt \<longleftrightarrow> one_of (ev_kind evt) [''text'', ''reasoning''] \<and>
     ev_kind prev = ev_kind evt \<and> ev_run prev = ev_run evt \<and>
     utf8_len (delta_of prev) + utf8_len (delta_of evt) \<le> MAX_COALESCED_STREAM_BYTES"

definition coalesce_step :: "run_event list \<Rightarrow> run_event \<Rightarrow> run_event list" where
  "coalesce_step out evt =
     (if out \<noteq> [] \<and> mergeable (last out) evt then
        butlast out @ [with_delta (last out) (delta_of (last out) @ delta_of evt)]
      else out @ [evt])"

definition coalesce_stream_events :: "run_event list \<Rightarrow> run_event list" where
  "coalesce_stream_events batch = foldl coalesce_step [] batch"

definition persist_batch :: "run_event list \<Rightarrow> bus \<Rightarrow> bus" where
  "persist_batch batch b =
     (if batch = [] then b
      else (let batch = coalesce_stream_events batch
            in case insert_events batch b of
                 (None, b') \<Rightarrow> b'
               | (Some _, b') \<Rightarrow> fold (\<lambda>evt b. snd (persist_event evt b)) batch b'))"

section \<open>Buffering and emitting\<close>

definition flush_events :: "run_id \<Rightarrow> bus \<Rightarrow> bus" where
  "flush_events r b =
     persist_batch (event_buffer b r) (b\<lparr>event_buffer := (event_buffer b)(r := [])\<rparr>)"

text \<open>\<open>order\<close> lists the runs in the order the hash map yields them.\<close>

definition flush_all_events :: "run_id list \<Rightarrow> bus \<Rightarrow> bus" where
  "flush_all_events order b =
     fold (\<lambda>r. persist_batch (event_buffer b r)) order (b\<lparr>event_buffer := (\<lambda>_. [])\<rparr>)"

definition buffer_event :: "run_event \<Rightarrow> bus \<Rightarrow> bus" where
  "buffer_event evt b =
     (let r = ev_run evt;
          slot = event_buffer b r @ [evt];
          b' = b\<lparr>event_buffer := (event_buffer b)(r := slot)\<rparr>
      in if length slot \<ge> EVENT_FLUSH_BATCH then flush_events r b'
         else b'\<lparr>flush_scheduled := insert r (flush_scheduled b')\<rparr>)"

text \<open>The timer task: disarm first, then drain.\<close>

definition timer_fires :: "run_id \<Rightarrow> bus \<Rightarrow> bus" where
  "timer_fires r b =
     (if r \<in> flush_scheduled b
      then flush_events r (b\<lparr>flush_scheduled := flush_scheduled b - {r}\<rparr>) else b)"

definition emit :: "run_id \<Rightarrow> ustr \<Rightarrow> json \<Rightarrow> bus \<Rightarrow> bus" where
  "emit r kind payload b =
     (let (seq, b) = next_sequence r b;
          evt = \<lparr>ev_run = r, ev_seq = seq, ev_kind = kind, ev_data = payload\<rparr>;
          b = (if receivers b > 0 then b\<lparr>sent := sent b @ [evt]\<rparr> else b)
      in if is_stream kind then buffer_event evt b
         else snd (persist_event evt (flush_events r b)))"

section \<open>Replay\<close>

definition sorted_rows :: "run_id \<Rightarrow> run_event list \<Rightarrow> run_event list" where
  "sorted_rows r rs = sort_key ev_seq (filter (\<lambda>e. ev_run e = r) rs)"

text \<open>Integer division of two positive numbers; the result is the rows and the total count.\<close>

definition load_replay_window :: "run_event list \<Rightarrow> run_id \<Rightarrow> int \<Rightarrow> run_event list \<times> int" where
  "load_replay_window rs r limit =
     (if limit \<le> 0 then ([], 0)
      else (let all = sorted_rows r rs; total = int (length all)
            in if total \<le> limit then (take (nat limit) all, total)
               else (let tail_limit = max (limit div 2) 1;
                         head_limit = limit - tail_limit;
                         head = (if head_limit > 0 then take (nat head_limit) all else []);
                         tail = rev (take (nat tail_limit) (rev all))
                     in (head @ tail, total))))"

definition omitted :: "run_event list \<times> int \<Rightarrow> int \<Rightarrow> int" where
  "omitted w limit = max (snd w - limit) 0"

section \<open>Coalescing is invisible to a delta reducer\<close>

text \<open>
  What the log promises its readers is stated for any reader that appends stream deltas: merging
  two adjacent deltas into one event must not change what it computes.
\<close>

locale delta_reducer =
  fixes apply_event :: "'s \<Rightarrow> run_event \<Rightarrow> 's"
  assumes apply_merge:
    "mergeable p e \<Longrightarrow> apply_event (apply_event s p) e = apply_event s (with_delta p (delta_of p @ delta_of e))"
begin

definition replay :: "'s \<Rightarrow> run_event list \<Rightarrow> 's" where
  "replay s es = foldl apply_event s es"

lemma replay_append: "replay s (xs @ ys) = replay (replay s xs) ys"
  by (simp add: replay_def)

lemma replay_step: "replay s (coalesce_step out e) = apply_event (replay s out) e"
proof (cases "out \<noteq> [] \<and> mergeable (last out) e")
  case True
  then have "replay s out = apply_event (replay s (butlast out)) (last out)"
    by (metis append_butlast_last_id foldl_Cons foldl_Nil replay_append replay_def)
  with True show ?thesis
    by (simp add: coalesce_step_def replay_append) (simp add: replay_def apply_merge)
next
  case False
  then show ?thesis by (auto simp: coalesce_step_def replay_def)
qed

lemma replay_foldl: "replay s (foldl coalesce_step out es) = replay (replay s out) es"
proof (induction es arbitrary: out)
  case (Cons e es)
  then show ?case by (simp add: replay_step) (simp add: replay_def)
qed (simp add: replay_def)

lemma replay_coalesce: "replay s (coalesce_stream_events es) = replay s es"
  by (simp add: coalesce_stream_events_def replay_foldl) (simp add: replay_def)

end

text \<open>
  The transcript a reader shows: stream deltas of one kind grow the last segment of that kind,
  every other event is a segment of its own.
\<close>

datatype segment = Stream run_id ustr ustr | Milestone run_id ustr json

definition show_event :: "segment list \<Rightarrow> run_event \<Rightarrow> segment list" where
  "show_event tr e =
     (if is_stream (ev_kind e) then
        (case (if tr = [] then None else Some (last tr)) of
           Some (Stream r k d) \<Rightarrow>
             if r = ev_run e \<and> k = ev_kind e then butlast tr @ [Stream r k (d @ delta_of e)]
             else tr @ [Stream (ev_run e) (ev_kind e) (delta_of e)]
         | _ \<Rightarrow> tr @ [Stream (ev_run e) (ev_kind e) (delta_of e)])
      else tr @ [Milestone (ev_run e) (ev_kind e) (ev_data e)])"

definition transcript :: "run_event list \<Rightarrow> segment list" where
  "transcript es = foldl show_event [] es"

lemma delta_with_delta [simp]: "delta_of (with_delta e d) = d"
  by (simp add: delta_of_def with_delta_def str_or_def str_arg_def)

lemma with_delta_simps [simp]:
  "ev_run (with_delta e d) = ev_run e" "ev_seq (with_delta e d) = ev_seq e"
  "ev_kind (with_delta e d) = ev_kind e" "event_key (with_delta e d) = event_key e"
  by (simp_all add: with_delta_def event_key_def)

lemma show_event_merge:
  "mergeable p e \<Longrightarrow> show_event (show_event tr p) e = show_event tr (with_delta p (delta_of p @ delta_of e))"
proof -
  assume "mergeable p e"
  then have "is_stream (ev_kind p)" "ev_kind e = ev_kind p" "ev_run e = ev_run p"
    by (auto simp: mergeable_def is_stream_def STREAM_KINDS_def)
  then show ?thesis
    by (cases tr rule: rev_cases) (auto simp: show_event_def butlast_append split: segment.splits)
qed

interpretation shown: delta_reducer show_event
  by unfold_locales (rule show_event_merge)

lemma transcript_eq: "transcript es = shown.replay [] es"
  by (simp add: transcript_def shown.replay_def)

text \<open>Coalescing keeps the order and the numbers: its keys are a subsequence of the batch's.\<close>

lemma coalesce_step_keys:
  "subseq (map event_key out) ks \<Longrightarrow> subseq (map event_key (coalesce_step out e)) (ks @ [event_key e])"
proof (cases "out \<noteq> [] \<and> mergeable (last out) e")
  case True
  assume "subseq (map event_key out) ks"
  moreover have "map event_key (coalesce_step out e) = map event_key out"
    using True by (cases out rule: rev_cases) (simp_all add: coalesce_step_def)
  ultimately show ?thesis by (simp add: list_emb_prefix)
next
  case False
  assume "subseq (map event_key out) ks"
  with False show ?thesis by (auto simp: coalesce_step_def)
qed

lemma coalesce_foldl_keys:
  "subseq (map event_key out) ks \<Longrightarrow> subseq (map event_key (foldl coalesce_step out es)) (ks @ map event_key es)"
proof (induction es arbitrary: out ks)
  case (Cons e es)
  from Cons.IH [OF coalesce_step_keys [OF Cons.prems]] show ?case by simp
qed simp

lemma coalesce_keys: "subseq (map event_key (coalesce_stream_events es)) (map event_key es)"
  using coalesce_foldl_keys [of "[]" "[]" es] by (simp add: coalesce_stream_events_def)

text \<open>
  Coalescing a batch before it is stored never changes what a replay shows, and
  the stored rows keep the original sequence numbers in their order.
\<close>

theorem coalesce_invisible:
  "transcript (coalesce_stream_events es) = transcript es \<and>
   subseq (map event_key (coalesce_stream_events es)) (map event_key es)"
  by (simp add: transcript_eq shown.replay_coalesce coalesce_keys)

section \<open>The bus keeps the log complete and ordered\<close>

definition view_of :: "bus \<Rightarrow> run_id \<Rightarrow> run_event list" where
  "view_of b r = run_rows b r @ event_buffer b r"

definition run_ok :: "bus \<Rightarrow> run_id \<Rightarrow> bool" where
  "run_ok b r \<longleftrightarrow>
     sorted_wrt (<) (map ev_seq (view_of b r)) \<and>
     list_all (\<lambda>e. ev_run e = r) (event_buffer b r) \<and>
     (case sequences b r of
        Some n \<Rightarrow> list_all (\<lambda>e. ev_seq e \<le> n) (view_of b r)
      | None \<Rightarrow> event_buffer b r = [])"

definition bus_ok :: "bus \<Rightarrow> bool" where
  "bus_ok b \<longleftrightarrow> db_up b \<and> (\<forall>r. run_ok b r)"

lemma distinct_keys:
  "(\<And>r. distinct (map ev_seq (filter (\<lambda>e. ev_run e = r) xs))) \<Longrightarrow> distinct (map event_key xs)"
proof (induction xs)
  case (Cons x xs)
  have d: "distinct (map ev_seq (filter (\<lambda>e. ev_run e = r) xs))" for r
    using Cons.prems [of r] by (simp split: if_splits)
  have "event_key x \<notin> event_key ` set xs"
    using Cons.prems [of "ev_run x"] by (auto simp: event_key_def)
  with Cons.IH d show ?case by simp
qed simp

lemma run_rows_append [simp]:
  "run_rows (b\<lparr>rows := xs @ ys\<rparr>) r = filter (\<lambda>e. ev_run e = r) xs @ filter (\<lambda>e. ev_run e = r) ys"
  by (simp add: run_rows_def)

lemma filter_run: "list_all (\<lambda>e. ev_run e = r) xs \<Longrightarrow> filter (\<lambda>e. ev_run e = q) xs = (if q = r then xs else [])"
  by (induction xs) auto

lemma sorted_distinct: "sorted_wrt (<) (xs :: int list) \<Longrightarrow> distinct xs"
  by (induction xs) auto

text \<open>A batch of one run whose numbers continue that run's rows is always accepted.\<close>

lemma insert_rows_accepts:
  assumes "db_up b" and "\<And>q. sorted_wrt (<) (map ev_seq (run_rows b q))"
    and "list_all (\<lambda>e. ev_run e = r) chunk"
    and "sorted_wrt (<) (map ev_seq (run_rows b r @ chunk))"
  shows "insert_rows chunk b = (None, b\<lparr>rows := rows b @ chunk\<rparr>)"
proof -
  have "distinct (map event_key (rows b @ chunk))"
  proof (rule distinct_keys)
    fix q
    have "filter (\<lambda>e. ev_run e = q) (rows b @ chunk) = (if q = r then run_rows b r @ chunk else run_rows b q)"
      using filter_run [OF assms(3), of q] by (simp add: run_rows_def)
    with assms(2) [of q] assms(4)
    show "distinct (map ev_seq (filter (\<lambda>e. ev_run e = q) (rows b @ chunk)))"
      using sorted_distinct by (simp split: if_splits del: map_append)
  qed
  with assms(1) show ?thesis by (simp add: insert_rows_def)
qed

lemma insert_events_accepts:
  assumes "db_up b" and "\<And>q. sorted_wrt (<) (map ev_seq (run_rows b q))"
    and "list_all (\<lambda>e. ev_run e = r) batch"
    and "sorted_wrt (<) (map ev_seq (run_rows b r @ batch))"
  shows "insert_events batch b = (None, b\<lparr>rows := rows b @ batch\<rparr>)"
  using assms
proof (induction batch b rule: insert_events.induct)
  case (1 batch b)
  show ?case
  proof (cases "batch = []")
    case False
    let ?t = "take EVENT_FLUSH_BATCH batch" and ?d = "drop EVENT_FLUSH_BATCH batch"
    let ?b = "b\<lparr>rows := rows b @ ?t\<rparr>"
    have all: "list_all (\<lambda>e. ev_run e = r) ?t" "list_all (\<lambda>e. ev_run e = r) ?d"
      using "1.prems"(3) by (auto simp: list_all_iff dest: in_set_takeD in_set_dropD)
    have s: "sorted_wrt (<) (map ev_seq ((run_rows b r @ ?t) @ ?d))"
      using "1.prems"(4) by simp
    then have "sorted_wrt (<) (map ev_seq (run_rows b r @ ?t) @ map ev_seq ?d)"
      by (simp only: map_append)
    then have st: "sorted_wrt (<) (map ev_seq (run_rows b r @ ?t))"
      by (simp only: sorted_wrt_append)
    have ins: "insert_rows ?t b = (None, ?b)"
      by (rule insert_rows_accepts [OF "1.prems"(1,2) all(1) st])
    have rr: "run_rows ?b q = (if q = r then run_rows b r @ ?t else run_rows b q)" for q
      using filter_run [OF all(1), of q] by (simp add: run_rows_def)
    have "insert_events ?d ?b = (None, ?b\<lparr>rows := rows ?b @ ?d\<rparr>)"
    proof (rule "1.IH" [OF False ins [symmetric] refl])
      show "db_up ?b" using "1.prems"(1) by simp
      show "sorted_wrt (<) (map ev_seq (run_rows ?b q))" for q
        using st "1.prems"(2) [of q] unfolding rr by (simp del: map_append)
      show "list_all (\<lambda>e. ev_run e = r) ?d" by (rule all(2))
      show "sorted_wrt (<) (map ev_seq (run_rows ?b r @ ?d))"
        using s unfolding rr by simp
    qed
    with ins False show ?thesis by (simp add: insert_events.simps [of batch])
  qed (simp add: insert_events.simps)
qed

lemma sorted_wrt_subseq: "subseq xs ys \<Longrightarrow> sorted_wrt P ys \<Longrightarrow> sorted_wrt P xs"
proof (induction rule: list_emb.induct)
  case (list_emb_Cons2 x y xs ys)
  then show ?case by (auto dest: list_emb_set)
qed auto

lemma coalesce_seqs: "subseq (map ev_seq (coalesce_stream_events es)) (map ev_seq es)"
  using subseq_map [OF coalesce_keys [of es], of snd]
  by (simp add: comp_def event_key_def)

lemma coalesce_set:
  "e \<in> set (coalesce_stream_events es) \<Longrightarrow> \<exists>e' \<in> set es. ev_run e = ev_run e' \<and> ev_seq e = ev_seq e'"
proof -
  assume "e \<in> set (coalesce_stream_events es)"
  then have "event_key e \<in> set (map event_key (coalesce_stream_events es))" by simp
  then have "event_key e \<in> set (map event_key es)"
    using coalesce_keys [of es] by (elim list_emb_set) (assumption, simp)
  then show ?thesis by (auto simp: event_key_def)
qed

lemma bus_ok_run: "bus_ok b \<Longrightarrow> run_ok b r"
  by (simp add: bus_ok_def)

lemma bus_ok_rows: "bus_ok b \<Longrightarrow> sorted_wrt (<) (map ev_seq (run_rows b q))"
  using bus_ok_run [of b q] by (simp add: run_ok_def view_of_def sorted_wrt_append)

lemma replace_tail_sorted:
  "sorted_wrt (<) (map ev_seq (xs @ ys)) \<Longrightarrow>
     sorted_wrt (<) (map ev_seq (xs @ coalesce_stream_events ys))"
proof -
  assume "sorted_wrt (<) (map ev_seq (xs @ ys))"
  moreover have "subseq (map ev_seq (xs @ coalesce_stream_events ys)) (map ev_seq (xs @ ys))"
    by (simp add: subseq_append' list_emb_append_mono coalesce_seqs)
  ultimately show ?thesis by (rule sorted_wrt_subseq [rotated])
qed

lemma flush_events_eq:
  assumes "bus_ok b"
  shows "flush_events r b =
    b\<lparr>event_buffer := (event_buffer b)(r := []),
      rows := rows b @ coalesce_stream_events (event_buffer b r)\<rparr>"
proof -
  let ?b = "b\<lparr>event_buffer := (event_buffer b)(r := [])\<rparr>"
  let ?c = "coalesce_stream_events (event_buffer b r)"
  have v: "sorted_wrt (<) (map ev_seq (run_rows b r @ event_buffer b r))"
    and l: "list_all (\<lambda>e. ev_run e = r) (event_buffer b r)"
    using bus_ok_run [OF assms, of r] by (simp_all add: run_ok_def view_of_def)
  have rr: "run_rows ?b q = run_rows b q" for q by (simp add: run_rows_def)
  have "insert_events ?c ?b = (None, ?b\<lparr>rows := rows ?b @ ?c\<rparr>)"
  proof (rule insert_events_accepts)
    show "db_up ?b" using assms by (simp add: bus_ok_def)
    show "sorted_wrt (<) (map ev_seq (run_rows ?b q))" for q
      unfolding rr by (rule bus_ok_rows [OF assms])
    show "list_all (\<lambda>e. ev_run e = r) ?c"
      using l coalesce_set by (fastforce simp: list_all_iff)
    show "sorted_wrt (<) (map ev_seq (run_rows ?b r @ ?c))"
      unfolding rr by (rule replace_tail_sorted [OF v])
  qed
  then show ?thesis
    by (simp add: flush_events_def persist_batch_def Let_def coalesce_stream_events_def)
qed

lemma run_rows_flush:
  "bus_ok b \<Longrightarrow> run_rows (flush_events r b) q =
     run_rows b q @ (if q = r then coalesce_stream_events (event_buffer b r) else [])"
proof -
  assume ok: "bus_ok b"
  then have "list_all (\<lambda>e. ev_run e = r) (coalesce_stream_events (event_buffer b r))"
    using bus_ok_run [OF ok, of r] coalesce_set by (fastforce simp: run_ok_def list_all_iff)
  from filter_run [OF this, of q] ok show ?thesis
    by (simp add: flush_events_eq run_rows_def)
qed

lemma flush_events_ok: "bus_ok b \<Longrightarrow> bus_ok (flush_events r b)"
proof -
  assume ok: "bus_ok b"
  have "run_ok (flush_events r b) q" for q
  proof (cases "q = r")
    case False
    then have "view_of (flush_events r b) q = view_of b q"
      "event_buffer (flush_events r b) q = event_buffer b q"
      "sequences (flush_events r b) q = sequences b q"
      using ok by (simp_all add: view_of_def run_rows_flush) (simp_all add: flush_events_eq)
    with bus_ok_run [OF ok, of q] show ?thesis
      unfolding run_ok_def by (simp only:)
  next
    case True
    let ?c = "coalesce_stream_events (event_buffer b r)"
    have v: "view_of (flush_events r b) r = run_rows b r @ ?c"
      "event_buffer (flush_events r b) r = []" "sequences (flush_events r b) r = sequences b r"
      using ok by (simp_all add: view_of_def run_rows_flush) (simp_all add: flush_events_eq)
    have "sorted_wrt (<) (map ev_seq (run_rows b r @ ?c))"
      using bus_ok_run [OF ok, of r] by (intro replace_tail_sorted) (simp add: run_ok_def view_of_def)
    moreover have "list_all (\<lambda>e. ev_seq e \<le> n) (run_rows b r @ ?c)" if "sequences b r = Some n" for n
      using bus_ok_run [OF ok, of r] that coalesce_set
      by (fastforce simp: run_ok_def view_of_def list_all_iff)
    ultimately show ?thesis
      unfolding True run_ok_def v by (auto split: option.splits)
  qed
  moreover have "db_up (flush_events r b)" using ok by (simp add: flush_events_eq) (simp add: bus_ok_def)
  ultimately show ?thesis by (simp add: bus_ok_def)
qed

lemma transcript_cong_tail:
  "transcript ys = transcript zs \<Longrightarrow> transcript (ys @ xs) = transcript (zs @ xs)"
  by (simp add: transcript_def)

lemma transcript_coalesce_tail: "transcript (xs @ coalesce_stream_events ys) = transcript (xs @ ys)"
  unfolding transcript_eq shown.replay_append by (rule shown.replay_coalesce)

lemma transcript_flush: "bus_ok b \<Longrightarrow> transcript (view_of (flush_events r b) q) = transcript (view_of b q)"
  by (simp add: view_of_def run_rows_flush) (simp add: flush_events_eq transcript_coalesce_tail)

lemma fold_max_ge: "x \<le> fold max xs (x :: int) \<and> (\<forall>y \<in> set xs. y \<le> fold max xs x)"
proof (induction xs arbitrary: x)
  case (Cons y ys)
  from Cons.IH [of "max y x"] show ?case by auto
qed simp

lemma base_ge: "db_up b \<Longrightarrow> e \<in> set (run_rows b r) \<Longrightarrow> ev_seq e \<le> persisted_sequence_base r b"
  using fold_max_ge by (auto simp: persisted_sequence_base_def split: list.splits)

lemma next_sequence_fresh:
  assumes "bus_ok b" and "next_sequence r b = (n, b')"
  shows "b' = b\<lparr>sequences := (sequences b)(r := Some n)\<rparr> \<and> list_all (\<lambda>e. ev_seq e < n) (view_of b r)"
proof (cases "sequences b r")
  case None
  with assms have n: "n = persisted_sequence_base r b + 1"
    and b': "b' = b\<lparr>sequences := (sequences b)(r := Some n)\<rparr>"
    by (auto simp: next_sequence_def bump_sequence_def seed_sequence_def)
  have "view_of b r = run_rows b r"
    using bus_ok_run [OF assms(1), of r] None by (simp add: run_ok_def view_of_def)
  with n b' base_ge [of b _ r] assms(1) show ?thesis
    by (auto simp: list_all_iff bus_ok_def zle_add1_eq_le intro: le_less_trans)
next
  case (Some m)
  then have "list_all (\<lambda>e. ev_seq e \<le> m) (view_of b r)"
    using bus_ok_run [OF assms(1), of r] by (simp add: run_ok_def)
  with Some assms(2) show ?thesis
    by (auto simp: next_sequence_def bump_sequence_def list_all_iff)
qed

text \<open>Appending an event with a fresh number, at the end of the buffer or of the table.\<close>

definition numbered :: "run_id \<Rightarrow> int \<Rightarrow> bus \<Rightarrow> bus" where
  "numbered r n b = b\<lparr>sequences := (sequences b)(r := Some n)\<rparr>"

lemma run_ok_other:
  "view_of b' q = view_of b q \<Longrightarrow> event_buffer b' q = event_buffer b q \<Longrightarrow>
     sequences b' q = sequences b q \<Longrightarrow> run_ok b' q = run_ok b q"
  unfolding run_ok_def by (simp only:)

lemma bus_ok_append:
  assumes ok: "bus_ok b" and fresh: "list_all (\<lambda>e. ev_seq e < n) (view_of b (ev_run evt))"
    and seq: "ev_seq evt = n"
    and v: "\<And>q. view_of b' q = view_of b q @ (if q = ev_run evt then [evt] else [])"
    and buf: "\<And>q. list_all (\<lambda>e. ev_run e = q) (event_buffer b' q)"
    and buf': "\<And>q. q \<noteq> ev_run evt \<Longrightarrow> event_buffer b' q = event_buffer b q"
    and sq: "sequences b' = (sequences b)(ev_run evt := Some n)" and up: "db_up b'"
  shows "bus_ok b'"
proof -
  have "run_ok b' q" for q
  proof (cases "q = ev_run evt")
    case False
    with bus_ok_run [OF ok, of q] v [of q] buf' [of q] sq show ?thesis
      by (simp add: run_ok_other [of b' q b])
  next
    case True
    have "sorted_wrt (<) (map ev_seq (view_of b q))"
      using bus_ok_run [OF ok, of q] by (simp add: run_ok_def)
    with fresh seq v [of q] True have "sorted_wrt (<) (map ev_seq (view_of b' q))"
      by (simp add: sorted_wrt_append list_all_iff)
    moreover have "list_all (\<lambda>e. ev_seq e \<le> n) (view_of b' q)"
      using fresh seq v [of q] True by (simp add: list_all_iff less_imp_le)
    ultimately show ?thesis
      using buf [of q] sq True by (simp add: run_ok_def)
  qed
  with up show ?thesis by (simp add: bus_ok_def)
qed

lemma bus_ok_sent [simp]:
  "bus_ok (b\<lparr>sent := x\<rparr>) = bus_ok b" "bus_ok (b\<lparr>flush_scheduled := y\<rparr>) = bus_ok b"
  "view_of (b\<lparr>sent := x\<rparr>) = view_of b" "view_of (b\<lparr>flush_scheduled := y\<rparr>) = view_of b"
proof -
  show v: "view_of (b\<lparr>sent := x\<rparr>) = view_of b" "view_of (b\<lparr>flush_scheduled := y\<rparr>) = view_of b"
    by (simp_all add: view_of_def run_rows_def fun_eq_iff)
  then show "bus_ok (b\<lparr>sent := x\<rparr>) = bus_ok b" "bus_ok (b\<lparr>flush_scheduled := y\<rparr>) = bus_ok b"
    using run_ok_other [of "b\<lparr>sent := x\<rparr>" _ b] run_ok_other [of "b\<lparr>flush_scheduled := y\<rparr>" _ b]
    by (simp_all add: bus_ok_def)
qed

lemma buffer_push:
  assumes ok: "bus_ok b" and fresh: "list_all (\<lambda>e. ev_seq e < n) (view_of b r)"
    and evt: "ev_run evt = r" "ev_seq evt = n"
  defines "b' \<equiv> (numbered r n b)\<lparr>event_buffer := (event_buffer b)(r := event_buffer b r @ [evt])\<rparr>"
  shows "bus_ok b'" and "view_of b' q = view_of b q @ (if q = r then [evt] else [])"
proof -
  show v: "view_of b' q = view_of b q @ (if q = r then [evt] else [])" for q
    by (simp add: b'_def view_of_def run_rows_def numbered_def)
  show "bus_ok b'"
  proof (rule bus_ok_append [OF ok, of n evt])
    show "list_all (\<lambda>e. ev_run e = q) (event_buffer b' q)" for q
      using bus_ok_run [OF ok, of q] evt by (auto simp: b'_def run_ok_def)
  qed (use fresh evt v ok in \<open>auto simp: b'_def numbered_def bus_ok_def\<close>)
qed

lemma persist_push:
  assumes ok: "bus_ok b" and fresh: "list_all (\<lambda>e. ev_seq e < n) (view_of b r)"
    and evt: "ev_run evt = r" "ev_seq evt = n" and empty: "event_buffer b r = []"
  shows "persist_event evt (numbered r n b) = (None, (numbered r n b)\<lparr>rows := rows b @ [evt]\<rparr>)"
    and "bus_ok ((numbered r n b)\<lparr>rows := rows b @ [evt]\<rparr>)"
    and "view_of ((numbered r n b)\<lparr>rows := rows b @ [evt]\<rparr>) q = view_of b q @ (if q = r then [evt] else [])"
proof -
  let ?b = "(numbered r n b)\<lparr>rows := rows b @ [evt]\<rparr>"
  have rr: "run_rows (numbered r n b) q = run_rows b q" for q
    by (simp add: run_rows_def numbered_def)
  have vr: "view_of b r = run_rows b r" using empty by (simp add: view_of_def)
  have "insert_rows [evt] (numbered r n b) = (None, (numbered r n b)\<lparr>rows := rows (numbered r n b) @ [evt]\<rparr>)"
  proof (rule insert_rows_accepts [where r = r])
    show "sorted_wrt (<) (map ev_seq (run_rows (numbered r n b) q))" for q
      unfolding rr by (rule bus_ok_rows [OF ok])
    show "sorted_wrt (<) (map ev_seq (run_rows (numbered r n b) r @ [evt]))"
      unfolding rr using bus_ok_rows [OF ok, of r] fresh evt
      by (auto simp: sorted_wrt_append vr list_all_iff)
  qed (use ok evt in \<open>simp_all add: numbered_def bus_ok_def\<close>)
  then show "persist_event evt (numbered r n b) = (None, ?b)"
    by (simp add: persist_event_def insert_event_def) (simp add: numbered_def)
  show v: "view_of ?b q = view_of b q @ (if q = r then [evt] else [])" for q
    using evt empty by (auto simp: view_of_def run_rows_def numbered_def)
  show "bus_ok ?b"
  proof (rule bus_ok_append [OF ok, of n evt])
    show "list_all (\<lambda>e. ev_run e = q) (event_buffer ?b q)" for q
      using bus_ok_run [OF ok, of q] by (simp add: run_ok_def numbered_def)
  qed (use fresh evt v ok in \<open>auto simp: numbered_def bus_ok_def\<close>)
qed

lemma transcript_push: "transcript (xs @ [e]) = show_event (transcript xs) e"
  by (simp add: transcript_def)

lemma show_event_seq: "show_event tr (e\<lparr>ev_seq := n\<rparr>) = show_event tr e"
  by (auto simp: show_event_def delta_of_def split: segment.splits)

text \<open>What one emitted event does to the bus, whichever path it takes.\<close>

lemma emit_step:
  assumes "bus_ok b"
  shows "bus_ok (emit r kind payload b) \<and>
    transcript (view_of (emit r kind payload b) q) =
      (if q = r then show_event (transcript (view_of b r))
          \<lparr>ev_run = r, ev_seq = 0, ev_kind = kind, ev_data = payload\<rparr>
       else transcript (view_of b q)) \<and>
    (\<not> is_stream kind \<longrightarrow> event_buffer (emit r kind payload b) r = [])"
proof -
  obtain n b1 where n: "next_sequence r b = (n, b1)" by fastforce
  let ?e = "\<lparr>ev_run = r, ev_seq = n, ev_kind = kind, ev_data = payload\<rparr>"
  have e0: "show_event tr ?e = show_event tr \<lparr>ev_run = r, ev_seq = 0, ev_kind = kind, ev_data = payload\<rparr>" for tr
    using show_event_seq [of tr 0 ?e] by simp
  define b0 where "b0 = (if receivers b > 0 then b\<lparr>sent := sent b @ [?e]\<rparr> else b)"
  have ok0: "bus_ok b0" and v0: "view_of b0 = view_of b"
    using assms by (simp_all add: b0_def)
  have fresh: "list_all (\<lambda>e. ev_seq e < n) (view_of b0 r)" and b1: "b1 = numbered r n b"
    using next_sequence_fresh [OF assms n] by (simp_all add: v0 numbered_def)
  have b2: "(if receivers b1 > 0 then b1\<lparr>sent := sent b1 @ [?e]\<rparr> else b1) = numbered r n b0"
    by (simp add: b1 b0_def numbered_def)
  show ?thesis
  proof (cases "is_stream kind")
    case True
    let ?b' = "(numbered r n b0)\<lparr>event_buffer := (event_buffer b0)(r := event_buffer b0 r @ [?e])\<rparr>"
    have p: "bus_ok ?b'" "view_of ?b' q = view_of b0 q @ (if q = r then [?e] else [])" for q
      using buffer_push [OF ok0 fresh, of ?e] by simp_all
    have "emit r kind payload b = flush_events r ?b' \<or>
        emit r kind payload b = ?b'\<lparr>flush_scheduled := insert r (flush_scheduled ?b')\<rparr>"
      using True n b2 by (simp add: emit_def buffer_event_def Let_def) (simp add: numbered_def)
    with p True show ?thesis
      by (auto simp: flush_events_ok transcript_flush transcript_push e0 v0)
  next
    case False
    let ?f = "flush_events r b0"
    have okf: "bus_ok ?f" by (rule flush_events_ok [OF ok0])
    have emp: "event_buffer ?f r = []" by (simp add: flush_events_eq [OF ok0])
    have freshf: "list_all (\<lambda>e. ev_seq e < n) (view_of ?f r)"
      using fresh coalesce_set
      by (fastforce simp: view_of_def run_rows_flush [OF ok0] emp list_all_iff)
    have fn: "flush_events r (numbered r n b0) = numbered r n ?f"
    proof -
      have "bus_ok (numbered r n b0)"
      proof -
        have "run_ok (numbered r n b0) q" for q
          using bus_ok_run [OF ok0, of q] fresh
          by (cases "q = r")
             (auto simp: run_ok_def view_of_def run_rows_def numbered_def list_all_iff less_imp_le
               split: option.splits)
        with ok0 show ?thesis by (simp add: bus_ok_def numbered_def)
      qed
      then show ?thesis
        by (simp add: flush_events_eq ok0) (simp add: numbered_def)
    qed
    note p = persist_push [OF okf freshf, of ?e, simplified, OF emp]
    have "emit r kind payload b = (numbered r n ?f)\<lparr>rows := rows ?f @ [?e]\<rparr>"
      using False n b2 p(1) by (simp add: emit_def Let_def fn)
    moreover have "event_buffer ((numbered r n ?f)\<lparr>rows := rows ?f @ [?e]\<rparr>) r = []"
      using emp by (simp add: numbered_def)
    ultimately show ?thesis
      using p(2,3) by (simp add: transcript_push transcript_flush [OF ok0] e0 v0)
  qed
qed

section \<open>Losses, restarts and outages\<close>

text \<open>
  The engine dies and starts again over the same table: what was only in memory is gone, and the
  counters are seeded from the table when they are next needed.
\<close>

definition engine_restart :: "bus \<Rightarrow> bus" where
  "engine_restart b =
     b\<lparr>sequences := (\<lambda>_. None), event_buffer := (\<lambda>_. []), flush_scheduled := {}, receivers := 0\<rparr>"

text \<open>A history without the last \<open>k r\<close> events of every run \<open>r\<close>.\<close>

fun forget_first :: "(run_id \<Rightarrow> nat) \<Rightarrow> run_event list \<Rightarrow> run_event list" where
  "forget_first k [] = []"
| "forget_first k (e # es) =
     (if 0 < k (ev_run e) then forget_first (k(ev_run e := k (ev_run e) - 1)) es else e # forget_first k es)"

definition without_last :: "(run_id \<Rightarrow> nat) \<Rightarrow> run_event list \<Rightarrow> run_event list" where
  "without_last k h = rev (forget_first k (rev h))"

lemma forget_first_run: "filter (\<lambda>e. ev_run e = r) (forget_first k h) = drop (k r) (filter (\<lambda>e. ev_run e = r) h)"
proof (induction h arbitrary: k)
  case (Cons e h)
  then show ?case by (cases "k r") (auto simp: Cons.IH)
qed simp

lemma without_last_run:
  "filter (\<lambda>e. ev_run e = r) h = pre @ suf \<Longrightarrow> length suf = k r \<Longrightarrow> filter (\<lambda>e. ev_run e = r) (without_last k h) = pre"
  by (simp add: without_last_def rev_filter [symmetric] forget_first_run)

definition unnumbered :: "run_event \<Rightarrow> run_event" where
  "unnumbered e = e\<lparr>ev_seq := 0\<rparr>"

text \<open>
  Of the history of a run the stored rows show everything but its last events, which are the ones in
  the buffer: text deltas, fewer than one flush batch.
\<close>

definition accounted :: "run_event list \<Rightarrow> bus \<Rightarrow> run_id \<Rightarrow> bool" where
  "accounted h b r \<longleftrightarrow> (\<exists>pre. filter (\<lambda>e. ev_run e = r) h = pre @ map unnumbered (event_buffer b r) \<and>
     transcript (run_rows b r) = transcript pre) \<and>
     length (event_buffer b r) < EVENT_FLUSH_BATCH \<and> list_all (\<lambda>e. is_stream (ev_kind e)) (event_buffer b r)"

lemma transcript_unnumbered:
  "transcript xs = transcript ys \<Longrightarrow> transcript (xs @ zs) = transcript (ys @ map unnumbered zs)"
proof (induction zs arbitrary: xs ys)
  case (Cons z zs)
  have "transcript (xs @ [z]) = transcript (ys @ [unnumbered z])"
    using Cons.prems by (simp add: transcript_push unnumbered_def show_event_seq)
  from Cons.IH [OF this] show ?case by simp
qed simp

lemma accounted_cong:
  "run_rows b' r = run_rows b r \<Longrightarrow> event_buffer b' r = event_buffer b r \<Longrightarrow>
     filter (\<lambda>e. ev_run e = r) h' = filter (\<lambda>e. ev_run e = r) h \<Longrightarrow> accounted h' b' r = accounted h b r"
  by (simp add: accounted_def)

lemma accounted_stored:
  assumes "accounted h b r" "event_buffer b' r = []"
    "transcript (run_rows b' r) = transcript (run_rows b r @ event_buffer b r @ new)"
    "filter (\<lambda>e. ev_run e = r) h' = filter (\<lambda>e. ev_run e = r) h @ map unnumbered new"
  shows "accounted h' b' r"
proof -
  obtain pre where p: "filter (\<lambda>e. ev_run e = r) h = pre @ map unnumbered (event_buffer b r)"
    "transcript (run_rows b r) = transcript pre" using assms(1) by (auto simp: accounted_def)
  have "transcript (run_rows b' r) = transcript (pre @ map unnumbered (event_buffer b r @ new))"
    unfolding assms(3) by (rule transcript_unnumbered [OF p(2)])
  with assms(2,4) p(1) show ?thesis by (simp add: accounted_def EVENT_FLUSH_BATCH_def)
qed

lemma accounted_lost:
  assumes "accounted h b r" "event_buffer b' r = []" "run_rows b' r = run_rows b r"
    "\<And>pre. filter (\<lambda>e. ev_run e = r) h = pre @ map unnumbered (event_buffer b r) \<Longrightarrow> filter (\<lambda>e. ev_run e = r) h' = pre"
  shows "accounted h' b' r"
  using assms by (auto simp: accounted_def EVENT_FLUSH_BATCH_def)

lemma run_rows_update [simp]:
  "run_rows (b\<lparr>sequences := x1\<rparr>) r = run_rows b r" "run_rows (b\<lparr>event_buffer := x2\<rparr>) r = run_rows b r"
  "run_rows (b\<lparr>flush_scheduled := x3\<rparr>) r = run_rows b r" "run_rows (b\<lparr>receivers := x4\<rparr>) r = run_rows b r"
  "run_rows (b\<lparr>sent := x5\<rparr>) r = run_rows b r" "run_rows (b\<lparr>db_up := x6\<rparr>) r = run_rows b r"
  "run_rows (numbered q n b) r = run_rows b r"
  by (simp_all add: run_rows_def numbered_def)

definition announced :: "run_event \<Rightarrow> bus \<Rightarrow> bus" where
  "announced e b = (if receivers b > 0 then b\<lparr>sent := sent b @ [e]\<rparr> else b)"

lemma announced_simps [simp]:
  "run_rows (announced e b) r = run_rows b r" "rows (announced e b) = rows b"
  "event_buffer (announced e b) = event_buffer b" "sequences (announced e b) = sequences b"
  "bus_ok (announced e b) = bus_ok b" "view_of (announced e b) = view_of b" "db_up (announced e b) = db_up b"
  by (simp_all add: announced_def)

text \<open>What one emit does to the table and to the buffer, while the database answers.\<close>

lemma emit_parts:
  assumes ok: "bus_ok b"
  obtains n where
    "is_stream kind" "Suc (length (event_buffer b r)) < EVENT_FLUSH_BATCH"
    "\<And>q. run_rows (emit r kind payload b) q = run_rows b q"
    "event_buffer (emit r kind payload b) =
      (event_buffer b)(r := event_buffer b r @ [\<lparr>ev_run = r, ev_seq = n, ev_kind = kind, ev_data = payload\<rparr>])"
  | n where
    "event_buffer (emit r kind payload b) = (event_buffer b)(r := [])"
    "\<And>q. q \<noteq> r \<Longrightarrow> run_rows (emit r kind payload b) q = run_rows b q"
    "transcript (run_rows (emit r kind payload b) r) =
      transcript (run_rows b r @ event_buffer b r @ [\<lparr>ev_run = r, ev_seq = n, ev_kind = kind, ev_data = payload\<rparr>])"
proof -
  obtain n b1 where n: "next_sequence r b = (n, b1)" by fastforce
  let ?e = "\<lparr>ev_run = r, ev_seq = n, ev_kind = kind, ev_data = payload\<rparr>"
  let ?b0 = "announced ?e b"
  have b1: "b1 = numbered r n b" and fresh: "list_all (\<lambda>e. ev_seq e < n) (view_of b r)"
    using next_sequence_fresh [OF ok n] by (simp_all add: numbered_def)
  have b2: "(if receivers b1 > 0 then b1\<lparr>sent := sent b1 @ [?e]\<rparr> else b1) = numbered r n ?b0"
    by (simp add: b1 announced_def numbered_def)
  have e: "emit r kind payload b = (if is_stream kind then buffer_event ?e (numbered r n ?b0)
      else snd (persist_event ?e (flush_events r (numbered r n ?b0))))"
    by (simp add: emit_def n b2 Let_def del: announced_simps)
  have ok0: "bus_ok ?b0" using ok by simp
  let ?b' = "(numbered r n ?b0)\<lparr>event_buffer := (event_buffer ?b0)(r := event_buffer ?b0 r @ [?e])\<rparr>"
  have okp: "bus_ok ?b'" using buffer_push(1) [OF ok0, of n r ?e] fresh by simp
  show thesis
  proof (cases "is_stream kind")
    case True
    have s: "emit r kind payload b = (if EVENT_FLUSH_BATCH \<le> Suc (length (event_buffer b r)) then flush_events r ?b'
        else ?b'\<lparr>flush_scheduled := insert r (flush_scheduled ?b')\<rparr>)"
      using True by (simp add: e buffer_event_def Let_def numbered_def)
    show thesis
    proof (cases "EVENT_FLUSH_BATCH \<le> Suc (length (event_buffer b r))")
      case over: True
      have f: "emit r kind payload b = flush_events r ?b'" using s over by simp
      show thesis
      proof (rule that(2) [of n])
        show "event_buffer (emit r kind payload b) = (event_buffer b)(r := [])"
          unfolding f flush_events_eq [OF okp] by simp
        show "run_rows (emit r kind payload b) q = run_rows b q" if "q \<noteq> r" for q
          using that unfolding f run_rows_flush [OF okp] by simp
        show "transcript (run_rows (emit r kind payload b) r) = transcript (run_rows b r @ event_buffer b r @ [?e])"
          unfolding f run_rows_flush [OF okp] by (simp add: transcript_coalesce_tail)
      qed
    next
      case False
      then show thesis using that(1) [of n] True by (simp add: s)
    qed
  next
    case False
    let ?f = "flush_events r ?b0"
    have okf: "bus_ok ?f" by (rule flush_events_ok [OF ok0])
    have emp: "event_buffer ?f r = []" by (simp add: flush_events_eq [OF ok0])
    have freshf: "list_all (\<lambda>e. ev_seq e < n) (view_of ?f r)"
      using fresh coalesce_set by (fastforce simp: view_of_def run_rows_flush [OF ok0] emp list_all_iff)
    have okn: "bus_ok (numbered r n ?b0)"
    proof -
      have "run_ok (numbered r n ?b0) q" for q
        using bus_ok_run [OF ok0, of q] fresh
        by (cases "q = r")
           (auto simp: run_ok_def view_of_def numbered_def list_all_iff less_imp_le split: option.splits)
      with ok0 show ?thesis by (simp add: bus_ok_def numbered_def)
    qed
    have fn: "flush_events r (numbered r n ?b0) = numbered r n ?f"
      by (simp add: flush_events_eq [OF okn] flush_events_eq [OF ok0]) (simp add: numbered_def)
    have m: "emit r kind payload b = (numbered r n ?f)\<lparr>rows := rows ?f @ [?e]\<rparr>"
      using False persist_push(1) [OF okf freshf, of ?e] emp by (simp add: e fn)
    show thesis
    proof (rule that(2) [of n])
      show "event_buffer (emit r kind payload b) = (event_buffer b)(r := [])"
        unfolding m by (simp add: numbered_def flush_events_eq [OF ok0])
      have "run_rows (emit r kind payload b) q = run_rows ?f q @ (if q = r then [?e] else [])" for q
        unfolding m by (simp add: run_rows_def)
      note parts = this run_rows_flush [OF ok0]
      show "run_rows (emit r kind payload b) q = run_rows b q" if "q \<noteq> r" for q
        using that by (simp add: parts)
      show "transcript (run_rows (emit r kind payload b) r) = transcript (run_rows b r @ event_buffer b r @ [?e])"
        unfolding parts by (simp add: transcript_push transcript_coalesce_tail flip: append_assoc)
    qed
  qed
qed

text \<open>While the database is away every write fails, and a drained buffer is lost.\<close>

lemma insert_events_down: "\<not> db_up b \<Longrightarrow> insert_events batch b = ((if batch = [] then None else Some DbUnavailable), b)"
  by (simp add: insert_events.simps [of batch] insert_rows_def)

lemma persist_event_down: "\<not> db_up b \<Longrightarrow> persist_event e b = (Some DbUnavailable, b)"
  by (simp add: persist_event_def insert_event_def insert_rows_def)

lemma persist_batch_down: "\<not> db_up b \<Longrightarrow> persist_batch batch b = b"
proof -
  assume d: "\<not> db_up b"
  have "fold (\<lambda>evt b. snd (persist_event evt b)) es b = b" for es
    by (induction es) (simp_all add: persist_event_down [OF d])
  then show ?thesis by (simp add: persist_batch_def Let_def insert_events_down [OF d])
qed

lemma flush_events_down: "\<not> db_up b \<Longrightarrow> flush_events r b = b\<lparr>event_buffer := (event_buffer b)(r := [])\<rparr>"
  by (simp add: flush_events_def persist_batch_down)

lemma emit_down:
  assumes "\<not> db_up b" "sequences b r = Some m"
  shows "emit r kind payload b =
    (let e = \<lparr>ev_run = r, ev_seq = m + 1, ev_kind = kind, ev_data = payload\<rparr>;
         b' = numbered r (m + 1) (announced e b)
     in if is_stream kind \<and> Suc (length (event_buffer b r)) < EVENT_FLUSH_BATCH
        then b'\<lparr>event_buffer := (event_buffer b)(r := event_buffer b r @ [e]), flush_scheduled := insert r (flush_scheduled b')\<rparr>
        else b'\<lparr>event_buffer := (event_buffer b)(r := [])\<rparr>)"
proof -
  let ?e = "\<lparr>ev_run = r, ev_seq = m + 1, ev_kind = kind, ev_data = payload\<rparr>"
  have n: "next_sequence r b = (m + 1, numbered r (m + 1) b)"
    using assms(2) by (simp add: next_sequence_def bump_sequence_def numbered_def)
  have a: "(if receivers (numbered r (m + 1) b) > 0
      then (numbered r (m + 1) b)\<lparr>sent := sent (numbered r (m + 1) b) @ [?e]\<rparr> else numbered r (m + 1) b) =
      numbered r (m + 1) (announced ?e b)"
    by (simp add: announced_def numbered_def)
  let ?b = "numbered r (m + 1) (announced ?e b)"
  have d: "\<not> db_up ?b" "event_buffer ?b = event_buffer b" using assms(1) by (simp_all add: numbered_def)
  have e: "emit r kind payload b = (if is_stream kind then buffer_event ?e ?b else snd (persist_event ?e (flush_events r ?b)))"
    by (simp add: emit_def n a Let_def del: announced_simps)
  show ?thesis
    using d(1) by (auto simp: e buffer_event_def d(2) Let_def flush_events_down persist_event_down)
qed

text \<open>
  The bus as a state machine: an engine started over an ordered table, then any sequence of emits,
  timer ticks, flushes, released runs, restarts, and of times at which the database does not answer.
  The history is what the table held at the start followed by what was emitted and not lost: a
  restart loses what is in the buffers, and a flush while the database is away loses what it drains,
  with the event that caused it. The counter of a run is only ever seeded from a database that answers.
\<close>

definition restarted :: "bus \<Rightarrow> bool" where
  "restarted b \<longleftrightarrow> db_up b \<and> sequences b = (\<lambda>_. None) \<and> event_buffer b = (\<lambda>_. []) \<and>
     (\<forall>r. sorted_wrt (<) (map ev_seq (run_rows b r)))"

definition drained :: "run_id \<Rightarrow> nat \<Rightarrow> run_event list \<Rightarrow> run_event list" where
  "drained r n h = without_last ((\<lambda>_. 0)(r := n)) h"

inductive reaches :: "run_event list \<Rightarrow> bus \<Rightarrow> bool" where
  start: "restarted b \<Longrightarrow> reaches (rows b) b"
| emitted: "reaches (h @ [\<lparr>ev_run = r, ev_seq = 0, ev_kind = kind, ev_data = payload\<rparr>]) (emit r kind payload b)"
    if "reaches h b" and "db_up b"
| emitted_down: "reaches
      (if is_stream kind \<and> Suc (length (event_buffer b r)) < EVENT_FLUSH_BATCH
       then h @ [\<lparr>ev_run = r, ev_seq = 0, ev_kind = kind, ev_data = payload\<rparr>]
       else drained r (length (event_buffer b r)) h) (emit r kind payload b)"
    if "reaches h b" and "\<not> db_up b" and "sequences b r = Some m"
| flushed: "reaches (if db_up b then h else drained r (length (event_buffer b r)) h) (flush_events r b)"
    if "reaches h b"
| timer: "reaches (if db_up b \<or> r \<notin> flush_scheduled b then h else drained r (length (event_buffer b r)) h) (timer_fires r b)"
    if "reaches h b"
| released: "reaches h (b\<lparr>sequences := (sequences b)(r := None), flush_scheduled := flush_scheduled b - {r}\<rparr>)"
    if "reaches h b" and "event_buffer b r = []"
| crashed: "reaches (without_last (\<lambda>r. length (event_buffer b r)) h) (engine_restart b)"
    if "reaches h b"
| outage: "reaches h (b\<lparr>db_up := up\<rparr>)"
    if "reaches h b"

definition log_inv :: "run_event list \<Rightarrow> bus \<Rightarrow> bool" where
  "log_inv h b \<longleftrightarrow> bus_ok (b\<lparr>db_up := True\<rparr>) \<and> (\<forall>r. accounted h b r)"

lemma restarted_ok: "restarted b \<Longrightarrow> bus_ok b"
  by (simp add: restarted_def bus_ok_def run_ok_def view_of_def)

lemma view_of_update [simp]:
  "view_of (b\<lparr>sequences := x1\<rparr>) r = view_of b r" "view_of (b\<lparr>db_up := x6\<rparr>) r = view_of b r"
  "view_of (b\<lparr>flush_scheduled := x2\<rparr>) r = view_of b r" "view_of (b\<lparr>receivers := x3\<rparr>) r = view_of b r"
  by (simp_all add: view_of_def)

lemma up_id: "db_up b \<Longrightarrow> b\<lparr>db_up := True\<rparr> = b"
  by simp

lemma log_inv_ok: "log_inv h b \<Longrightarrow> db_up b \<Longrightarrow> bus_ok b"
  by (metis log_inv_def up_id)

text \<open>Emptying a buffer and advancing a counter keep the order of the log.\<close>

lemma run_ok_cleared:
  assumes "run_ok b r" "run_rows b' r = run_rows b r" "event_buffer b' r = []"
    "sequences b' r = None \<or> (\<exists>n m. sequences b' r = Some m \<and> sequences b r = Some n \<and> n \<le> m)"
  shows "run_ok b' r"
proof -
  have v: "view_of b' r = run_rows b r" using assms(2,3) by (simp add: view_of_def)
  have "list_all (\<lambda>e. ev_seq e \<le> m) (run_rows b r)" if m: "sequences b' r = Some m" for m
  proof -
    obtain n where n: "sequences b r = Some n" "n \<le> m" using assms(4) m by auto
    then have "\<forall>e \<in> set (run_rows b r). ev_seq e \<le> n"
      using assms(1) by (simp add: run_ok_def view_of_def list_all_iff)
    with n(2) show ?thesis by (meson list_all_iff order_trans)
  qed
  moreover have "sorted_wrt (<) (map ev_seq (run_rows b r))"
    using assms(1) by (simp add: run_ok_def view_of_def sorted_wrt_append)
  ultimately show ?thesis
    unfolding run_ok_def v assms(3) by (auto split: option.split)
qed

lemma run_ok_same:
  "run_ok b r \<Longrightarrow> run_rows b' r = run_rows b r \<Longrightarrow> event_buffer b' r = event_buffer b r \<Longrightarrow>
     sequences b' r = sequences b r \<Longrightarrow> run_ok b' r"
  by (subst run_ok_other [of b' r b]) (simp_all add: view_of_def)

lemma bus_ok_up: "bus_ok (b\<lparr>db_up := True\<rparr>) \<longleftrightarrow> (\<forall>r. run_ok b r)"
  by (auto simp: bus_ok_def intro: run_ok_same)

lemma log_inv_drained:
  assumes "log_inv h b" "event_buffer b' = (event_buffer b)(r := [])" "\<And>q. run_rows b' q = run_rows b q"
    "sequences b' = sequences b \<or> (\<exists>m. sequences b r = Some m \<and> sequences b' = (sequences b)(r := Some (m + 1)))"
  shows "log_inv (drained r (length (event_buffer b r)) h) b'"
proof -
  have "run_ok b' q" for q
  proof (cases "q = r")
    case True
    have "run_ok b r" using assms(1) by (simp add: log_inv_def bus_ok_up)
    then show ?thesis unfolding True
      using assms(2-4) by (intro run_ok_cleared [of b r b']) (cases "sequences b r"; auto)+
  next
    case False
    have "run_ok b q" using assms(1) by (simp add: log_inv_def bus_ok_up)
    then show ?thesis by (rule run_ok_same) (use assms(2-4) False in auto)
  qed
  moreover have "accounted (drained r (length (event_buffer b r)) h) b' q" for q
  proof -
    have a: "accounted h b q" using assms(1) by (simp add: log_inv_def)
    show ?thesis
    proof (cases "q = r")
      case True
      show ?thesis unfolding True
      proof (rule accounted_lost [OF a [unfolded True]])
        fix pre assume "filter (\<lambda>e. ev_run e = r) h = pre @ map unnumbered (event_buffer b r)"
        then show "filter (\<lambda>e. ev_run e = r) (drained r (length (event_buffer b r)) h) = pre"
          unfolding drained_def by (rule without_last_run) simp
      qed (use assms(2,3) in simp_all)
    next
      case False
      have "filter (\<lambda>e. ev_run e = q) (drained r (length (event_buffer b r)) h) = filter (\<lambda>e. ev_run e = q) h"
        unfolding drained_def by (rule without_last_run [of _ _ _ "[]"]) (use False in simp_all)
      with a False assms(2,3) show ?thesis using accounted_cong [of b' q b] by simp
    qed
  qed
  ultimately show ?thesis by (simp add: log_inv_def bus_ok_up)
qed

lemma log_inv_buffered:
  assumes "log_inv h b" "ev_run e = r" "is_stream (ev_kind e)" "Suc (length (event_buffer b r)) < EVENT_FLUSH_BATCH"
    "event_buffer b' = (event_buffer b)(r := event_buffer b r @ [e])" "\<And>q. run_rows b' q = run_rows b q"
    "bus_ok (b'\<lparr>db_up := True\<rparr>)"
  shows "log_inv (h @ [unnumbered e]) b'"
proof -
  have "accounted (h @ [unnumbered e]) b' q" for q
  proof -
    have a: "accounted h b q" using assms(1) by (simp add: log_inv_def)
    then obtain pre where "filter (\<lambda>e. ev_run e = q) h = pre @ map unnumbered (event_buffer b q)"
      "transcript (run_rows b q) = transcript pre" by (auto simp: accounted_def)
    moreover have "ev_run (unnumbered e) = r" using assms(2) by (simp add: unnumbered_def)
    ultimately show ?thesis using a assms(3-6) by (cases "q = r") (auto simp: accounted_def)
  qed
  with assms(7) show ?thesis by (simp add: log_inv_def)
qed

lemma log_inv_emit:
  assumes i: "log_inv h b" and up: "db_up b"
  shows "log_inv (h @ [\<lparr>ev_run = r, ev_seq = 0, ev_kind = kind, ev_data = payload\<rparr>]) (emit r kind payload b)"
proof -
  have ok: "bus_ok b" by (rule log_inv_ok [OF i up])
  have ok': "bus_ok (emit r kind payload b)" using emit_step [OF ok] by blast
  then have up': "(emit r kind payload b)\<lparr>db_up := True\<rparr> = emit r kind payload b" by (intro up_id) (simp add: bus_ok_def)
  have un: "unnumbered \<lparr>ev_run = r, ev_seq = n, ev_kind = kind, ev_data = payload\<rparr> =
      \<lparr>ev_run = r, ev_seq = 0, ev_kind = kind, ev_data = payload\<rparr>" for n
    by (simp add: unnumbered_def)
  show ?thesis
  proof (rule emit_parts [OF ok, of kind r payload], goal_cases)
    case (1 n)
    from log_inv_buffered [OF i _ _ 1(2) 1(4) 1(3)] 1(1) ok' show ?case by (simp add: up' un)
  next
    case (2 n)
    have "accounted (h @ [\<lparr>ev_run = r, ev_seq = 0, ev_kind = kind, ev_data = payload\<rparr>]) (emit r kind payload b) q" for q
    proof (cases "q = r")
      case True
      have "accounted h b r" using i by (simp add: log_inv_def)
      then show ?thesis unfolding True by (rule accounted_stored [OF _ _ 2(3)]) (simp_all add: 2(1) un)
    next
      case False
      have "accounted h b q" using i by (simp add: log_inv_def)
      then show ?thesis using False 2(1,2) accounted_cong [of "emit r kind payload b" q b] by simp
    qed
    then show ?case using ok' by (simp add: log_inv_def up')
  qed
qed

lemma log_inv_flush: "log_inv h b \<Longrightarrow> db_up b \<Longrightarrow> log_inv h (flush_events r b)"
proof -
  assume i: "log_inv h b" and up: "db_up b"
  have ok: "bus_ok b" by (rule log_inv_ok [OF i up])
  have ok': "bus_ok (flush_events r b)" by (rule flush_events_ok [OF ok])
  then have "bus_ok ((flush_events r b)\<lparr>db_up := True\<rparr>)" by (subst up_id) (simp_all add: bus_ok_def)
  moreover have "accounted h (flush_events r b) q" for q
  proof -
    have a: "accounted h b q" using i by (simp add: log_inv_def)
    show ?thesis
    proof (cases "q = r")
      case True
      have e: "event_buffer (flush_events r b) r = []" by (simp add: flush_events_eq [OF ok])
      show ?thesis unfolding True
        by (rule accounted_stored [OF a [unfolded True] e, of "[]"]) (simp_all add: run_rows_flush [OF ok] transcript_coalesce_tail)
    next
      case False
      then have "run_rows (flush_events r b) q = run_rows b q" "event_buffer (flush_events r b) q = event_buffer b q"
        by (simp_all add: run_rows_flush [OF ok]) (simp add: flush_events_eq [OF ok])
      then show ?thesis using a accounted_cong [of "flush_events r b" q b h h] by simp
    qed
  qed
  ultimately show ?thesis by (simp add: log_inv_def)
qed

lemma log_inv_flush_down:
  assumes "log_inv h b" "\<not> db_up b"
  shows "log_inv (drained r (length (event_buffer b r)) h) (flush_events r b)"
  by (rule log_inv_drained [OF assms(1)]) (simp_all add: flush_events_down [OF assms(2)])

lemma log_inv_frame:
  "log_inv h b \<Longrightarrow> event_buffer b' = event_buffer b \<Longrightarrow> (\<And>q. run_rows b' q = run_rows b q) \<Longrightarrow>
     (\<And>q. sequences b' q = sequences b q \<or> sequences b' q = None \<and> event_buffer b q = []) \<Longrightarrow> log_inv h b'"
proof -
  assume i: "log_inv h b" and e: "event_buffer b' = event_buffer b" and r: "\<And>q. run_rows b' q = run_rows b q"
    and s: "\<And>q. sequences b' q = sequences b q \<or> sequences b' q = None \<and> event_buffer b q = []"
  have "run_ok b' q" for q
  proof -
    have ok: "run_ok b q" using i by (simp add: log_inv_def bus_ok_up)
    from s [of q] show ?thesis
      by (elim disjE conjE) (auto intro: run_ok_same [OF ok] run_ok_cleared [OF ok] simp: e r)
  qed
  moreover have "accounted h b' q" for q
    using i accounted_cong [of b' q b h h] e r by (simp add: log_inv_def)
  ultimately show ?thesis by (simp add: log_inv_def bus_ok_up)
qed

lemma log_inv_crash: "log_inv h b \<Longrightarrow> log_inv (without_last (\<lambda>r. length (event_buffer b r)) h) (engine_restart b)"
proof -
  assume i: "log_inv h b"
  have "run_ok (engine_restart b) q" for q
  proof -
    have "run_ok b q" using i by (simp add: log_inv_def bus_ok_up)
    then show ?thesis by (rule run_ok_cleared) (simp_all add: engine_restart_def)
  qed
  moreover have "accounted (without_last (\<lambda>r. length (event_buffer b r)) h) (engine_restart b) q" for q
  proof -
    have a: "accounted h b q" using i by (simp add: log_inv_def)
    show ?thesis
    proof (rule accounted_lost [OF a])
      fix pre assume "filter (\<lambda>e. ev_run e = q) h = pre @ map unnumbered (event_buffer b q)"
      then show "filter (\<lambda>e. ev_run e = q) (without_last (\<lambda>r. length (event_buffer b r)) h) = pre"
        by (rule without_last_run) simp
    qed (simp_all add: engine_restart_def)
  qed
  ultimately show ?thesis by (simp add: log_inv_def bus_ok_up)
qed

lemma log_inv_emit_down:
  assumes i: "log_inv h b" and d: "\<not> db_up b" and m: "sequences b r = Some m"
  shows "log_inv (if is_stream kind \<and> Suc (length (event_buffer b r)) < EVENT_FLUSH_BATCH
       then h @ [\<lparr>ev_run = r, ev_seq = 0, ev_kind = kind, ev_data = payload\<rparr>]
       else drained r (length (event_buffer b r)) h) (emit r kind payload b)"
proof (cases "is_stream kind \<and> Suc (length (event_buffer b r)) < EVENT_FLUSH_BATCH")
  case True
  let ?e = "\<lparr>ev_run = r, ev_seq = m + 1, ev_kind = kind, ev_data = payload\<rparr>"
  let ?b = "b\<lparr>db_up := True\<rparr>"
  have "bus_ok ?b" using i by (simp add: log_inv_def)
  moreover have "list_all (\<lambda>e. ev_seq e < m + 1) (view_of ?b r)"
    using bus_ok_run [OF calculation, of r] m by (auto simp: run_ok_def list_all_iff)
  ultimately have "bus_ok ((numbered r (m + 1) ?b)\<lparr>event_buffer := (event_buffer ?b)(r := event_buffer ?b r @ [?e])\<rparr>)"
    by (rule buffer_push(1)) simp_all
  then have "run_ok ((numbered r (m + 1) ?b)\<lparr>event_buffer := (event_buffer ?b)(r := event_buffer ?b r @ [?e])\<rparr>) q" for q
    by (rule bus_ok_run)
  then have "run_ok (emit r kind payload b) q" for q
    by (rule run_ok_same) (use True in \<open>simp_all add: emit_down [OF d m] Let_def numbered_def\<close>)
  then have "bus_ok ((emit r kind payload b)\<lparr>db_up := True\<rparr>)" by (simp add: bus_ok_up)
  moreover have "event_buffer (emit r kind payload b) = (event_buffer b)(r := event_buffer b r @ [?e])"
    "run_rows (emit r kind payload b) q = run_rows b q" for q
    using True by (simp_all add: emit_down [OF d m] Let_def)
  ultimately have "log_inv (h @ [unnumbered ?e]) (emit r kind payload b)"
    using True by (intro log_inv_buffered [OF i]) simp_all
  with True show ?thesis by (simp add: unnumbered_def)
next
  case False
  have "event_buffer (emit r kind payload b) = (event_buffer b)(r := [])"
    "run_rows (emit r kind payload b) q = run_rows b q"
    "sequences (emit r kind payload b) = (sequences b)(r := Some (m + 1))" for q
    using False by (auto simp: emit_down [OF d m] Let_def) (simp_all add: numbered_def)
  then have "log_inv (drained r (length (event_buffer b r)) h) (emit r kind payload b)"
    using m by (intro log_inv_drained [OF i]) auto
  with False show ?thesis by auto
qed

lemma reaches_inv: "reaches h b \<Longrightarrow> log_inv h b"
proof (induction rule: reaches.induct)
  case (start b)
  have "bus_ok (b\<lparr>db_up := True\<rparr>)" by (metis restarted_def restarted_ok start up_id)
  moreover have "accounted (rows b) b r" for r
    using start by (simp add: accounted_def restarted_def EVENT_FLUSH_BATCH_def run_rows_def)
  ultimately show ?case by (simp add: log_inv_def)
next
  case (emitted h b r kind payload)
  then show ?case by (intro log_inv_emit)
next
  case (emitted_down h b r m kind payload)
  then show ?case by (intro log_inv_emit_down)
next
  case (flushed h b r)
  then show ?case using log_inv_flush log_inv_flush_down by auto
next
  case (timer h b r)
  let ?b = "b\<lparr>flush_scheduled := flush_scheduled b - {r}\<rparr>"
  have "log_inv h ?b" by (rule log_inv_frame [OF timer.IH]) simp_all
  then show ?case
    using timer.IH log_inv_flush [of h ?b r] log_inv_flush_down [of h ?b r] by (auto simp: timer_fires_def)
next
  case (released h b r)
  show ?case by (rule log_inv_frame [OF released.IH]) (use released.hyps in auto)
next
  case (crashed h b)
  then show ?case by (intro log_inv_crash)
next
  case (outage h b up)
  show ?case by (rule log_inv_frame [OF outage.IH]) simp_all
qed

lemma sorted_rows_eq: "log_inv h b \<Longrightarrow> sorted_rows r (rows b) = run_rows b r \<and> sorted_wrt (<) (map ev_seq (run_rows b r))"
proof -
  assume i: "log_inv h b"
  have "run_ok b r" using i by (simp add: log_inv_def bus_ok_up)
  then have s: "sorted_wrt (<) (map ev_seq (run_rows b r))" by (simp add: run_ok_def view_of_def sorted_wrt_append)
  then have "sorted (map ev_seq (run_rows b r))"
    by (rule sorted_wrt_mono_rel [rotated]) simp
  with s show ?thesis
    by (simp add: sorted_rows_def run_rows_def sorted_sort_id sort_key_id_if_sorted)
qed

text \<open>
  C8 (invariant). In every reachable state, over any interleaving of emits, timer ticks, flushes, released
  runs, restarts and times at which the database is away, the stored rows of a run, read back in
  sequence order, followed by its buffered events, show exactly what was emitted for that run and not
  lost, with no duplicate and in order, and the stored sequence numbers strictly increase. What can be
  lost is small and last: the buffer holds the very last events of the history, all of them text
  deltas and fewer than one flush batch, and the stored rows show everything before them.
\<close>

theorem event_log_complete:
  assumes "reaches h b"
  shows "transcript (sorted_rows r (rows b) @ event_buffer b r) = transcript (filter (\<lambda>e. ev_run e = r) h) \<and>
    sorted_wrt (<) (map ev_seq (sorted_rows r (rows b))) \<and>
    length (event_buffer b r) < EVENT_FLUSH_BATCH \<and> list_all (\<lambda>e. is_stream (ev_kind e)) (event_buffer b r) \<and>
    (\<exists>pre. filter (\<lambda>e. ev_run e = r) h = pre @ map unnumbered (event_buffer b r) \<and>
       transcript (sorted_rows r (rows b)) = transcript pre)"
proof -
  have i: "log_inv h b" by (rule reaches_inv [OF assms])
  then have "accounted h b r" by (simp add: log_inv_def)
  then obtain pre where p: "filter (\<lambda>e. ev_run e = r) h = pre @ map unnumbered (event_buffer b r)"
    "transcript (run_rows b r) = transcript pre" "length (event_buffer b r) < EVENT_FLUSH_BATCH"
    "list_all (\<lambda>e. is_stream (ev_kind e)) (event_buffer b r)" by (auto simp: accounted_def)
  from transcript_unnumbered [OF p(2)] have "transcript (run_rows b r @ event_buffer b r) = transcript (filter (\<lambda>e. ev_run e = r) h)"
    by (simp add: p(1))
  with p sorted_rows_eq [OF i] show ?thesis by auto
qed

text \<open>
  A milestone is never stored ahead of the text streamed before it: once it has been
  emitted with the database answering, the stored rows alone replay everything, the milestone last.
\<close>

theorem milestone_durable:
  assumes "reaches h b" and "db_up b" and "\<not> is_stream kind"
  shows "transcript (sorted_rows r (rows (emit r kind payload b))) =
    transcript (filter (\<lambda>e. ev_run e = r) h) @ [Milestone r kind payload]"
proof -
  let ?e = "\<lparr>ev_run = r, ev_seq = 0, ev_kind = kind, ev_data = payload\<rparr>"
  have ok: "bus_ok b" by (rule log_inv_ok [OF reaches_inv [OF assms(1)] assms(2)])
  have i: "log_inv (h @ [?e]) (emit r kind payload b)" by (rule log_inv_emit [OF reaches_inv [OF assms(1)] assms(2)])
  have "event_buffer (emit r kind payload b) r = []"
    using emit_step [OF ok, of r kind payload r] assms(3) by simp
  moreover have "accounted (h @ [?e]) (emit r kind payload b) r" using i by (simp add: log_inv_def)
  ultimately have "transcript (run_rows (emit r kind payload b) r) = transcript (filter (\<lambda>e. ev_run e = r) h @ [?e])"
    by (auto simp: accounted_def)
  then show ?thesis
    using sorted_rows_eq [OF i, of r] assms(3) by (simp add: transcript_push) (simp add: show_event_def)
qed

definition bus_new :: bus where
  "bus_new = \<lparr>sequences = (\<lambda>_. None), event_buffer = (\<lambda>_. []), flush_scheduled = {}, receivers = 0,
     sent = [], rows = [], db_up = True\<rparr>"

lemma reaches_new: "reaches [] bus_new"
  using reaches.start [of bus_new] by (simp add: restarted_def bus_new_def run_rows_def)

lemma emit_up: "reaches h b \<Longrightarrow> db_up b \<Longrightarrow> db_up (emit r kind payload b)"
  using emit_step log_inv_ok [OF reaches_inv] by (auto simp: bus_ok_def)

definition text_payload :: "string \<Rightarrow> json" where
  "text_payload s = JObj [(lit ''delta'', JStr (lit s))]"

definition hello_bus :: bus where
  "hello_bus = emit 1 (lit ''text'') (text_payload ''lo'') (emit 1 (lit ''text'') (text_payload ''hel'') bus_new)"

definition text_event :: "string \<Rightarrow> run_event" where
  "text_event s = \<lparr>ev_run = 1, ev_seq = 0, ev_kind = lit ''text'', ev_data = text_payload s\<rparr>"

lemma reaches_hello: "reaches [text_event ''hel'', text_event ''lo''] hello_bus"
  using reaches.emitted [OF reaches.emitted [OF reaches_new]] emit_up [OF reaches_new] by (simp add: hello_bus_def text_event_def bus_new_def)

lemma hello_up: "db_up hello_bus"
proof -
  have "db_up bus_new" by (simp add: bus_new_def)
  then show ?thesis
    unfolding hello_bus_def by (intro emit_up [OF reaches.emitted [OF reaches_new]] emit_up [OF reaches_new])
qed

lemma transcript_hello:
  "transcript (filter (\<lambda>e. ev_run e = 1) [text_event ''hel'', text_event ''lo'']) =
     [Stream 1 (lit ''text'') (lit ''hello'')]"
  by (simp add: transcript_def show_event_def is_stream_def STREAM_KINDS_def delta_of_def
      text_payload_def text_event_def str_or_def str_arg_def lit_def)

text \<open>Streamed text that was flushed survives a crash.\<close>

theorem event_log_complete_witness:
  "transcript (sorted_rows 1 (rows (engine_restart (flush_events 1 hello_bus)))) = [Stream 1 (lit ''text'') (lit ''hello'')]"
proof -
  let ?b = "flush_events 1 hello_bus"
  let ?h = "if db_up hello_bus then [text_event ''hel'', text_event ''lo'']
    else drained 1 (length (event_buffer hello_bus 1)) [text_event ''hel'', text_event ''lo'']"
  have up: "db_up hello_bus" by (rule hello_up)
  have "event_buffer ?b 1 = []"
    by (simp add: flush_events_eq [OF log_inv_ok [OF reaches_inv [OF reaches_hello] up]])
  then have f: "filter (\<lambda>e. ev_run e = 1) (without_last (\<lambda>r. length (event_buffer ?b r)) ?h) =
      filter (\<lambda>e. ev_run e = 1) [text_event ''hel'', text_event ''lo'']"
    using up by (intro without_last_run [of _ _ _ "[]"]) simp_all
  show ?thesis
    using event_log_complete [OF reaches.crashed [OF reaches.flushed [OF reaches_hello, of 1]], of 1]
    unfolding f transcript_hello by (simp add: engine_restart_def)
qed

theorem milestone_durable_witness:
  "transcript (sorted_rows 1 (rows (emit 1 (lit ''status'') JNull hello_bus))) =
   [Stream 1 (lit ''text'') (lit ''hello''), Milestone 1 (lit ''status'') JNull]"
proof -
  have "\<not> is_stream (lit ''status'')" by (simp add: is_stream_def STREAM_KINDS_def)
  from milestone_durable [OF reaches_hello hello_up this, of 1 JNull] show ?thesis
    unfolding transcript_hello by simp
qed

text \<open>
  A run whose counter is seeded while the database is away starts again at one: its next text is
  stored below the rows it follows and is replayed before them.
\<close>

lemma insert_events_one: "insert_events [e] b = insert_rows [e] b"
proof -
  have "insert_events [] b' = (None, b')" for b' by (simp add: insert_events.simps [of "[]"])
  then show ?thesis
    by (simp add: insert_events.simps [of "[e]"] EVENT_FLUSH_BATCH_def split: prod.split option.split)
qed

lemma outage_at_start_reorders:
  "(let old = \<lparr>ev_run = 1, ev_seq = 5, ev_kind = lit ''text'', ev_data = text_payload ''old''\<rparr>;
        b = emit 1 (lit ''text'') (text_payload ''new'') (bus_new\<lparr>rows := [old], db_up := False\<rparr>)
    in map ev_data (sorted_rows 1 (rows (flush_events 1 (b\<lparr>db_up := True\<rparr>)))) = [text_payload ''new'', text_payload ''old''])"
proof -
  have s: "is_stream (lit ''text'')" by (simp add: is_stream_def STREAM_KINDS_def)
  show ?thesis
    by (simp add: Let_def emit_def s next_sequence_def bump_sequence_def seed_sequence_def persisted_sequence_base_def
        buffer_event_def bus_new_def EVENT_FLUSH_BATCH_def flush_events_def persist_batch_def coalesce_stream_events_def
        coalesce_step_def insert_events_one insert_rows_def event_key_def sorted_rows_def)
qed

section \<open>The replay window\<close>

lemma subseq_take_drop: "h \<le> k \<Longrightarrow> subseq (take h xs @ drop k xs) xs"
proof -
  assume "h \<le> k"
  then have "drop k xs = drop (k - h) (drop h xs)" by simp
  then have "subseq (drop k xs) (drop h xs)"
    by (metis append_take_drop_id list_emb_append2 subseq_order.order_refl)
  then have "subseq (take h xs @ drop k xs) (take h xs @ drop h xs)"
    by (intro list_emb_append_mono) simp_all
  then show ?thesis by simp
qed

lemma window_shape:
  "h + t = n \<Longrightarrow> 0 < t \<Longrightarrow> n < length xs \<Longrightarrow>
     length (take h xs @ drop (length xs - t) xs) = n \<and>
     last (take h xs @ drop (length xs - t) xs) = last xs"
  by (auto simp: last_append)

text \<open>
  The window holds at most \<open>limit\<close> rows, each at most once and in order; it reports
  the true total, so the omitted count is exact; and the newest row is always in it.
\<close>

theorem load_replay_window_ok:
  assumes "0 < limit"
  shows "subseq (fst (load_replay_window rs r limit)) (sorted_rows r rs) \<and>
    int (length (fst (load_replay_window rs r limit))) = min limit (int (length (sorted_rows r rs))) \<and>
    omitted (load_replay_window rs r limit) limit =
      int (length (sorted_rows r rs)) - int (length (fst (load_replay_window rs r limit))) \<and>
    (sorted_rows r rs \<noteq> [] \<longrightarrow> last (fst (load_replay_window rs r limit)) = last (sorted_rows r rs))"
proof (cases "int (length (sorted_rows r rs)) \<le> limit")
  case True
  with assms show ?thesis by (simp add: load_replay_window_def Let_def omitted_def)
next
  case False
  let ?all = "sorted_rows r rs"
  let ?t = "nat (max (limit div 2) 1)" and ?h = "nat (limit - max (limit div 2) 1)"
  have sum: "?h + ?t = nat limit" "0 < ?t" using assms by auto
  have len: "nat limit < length ?all" using False assms by linarith
  have w: "load_replay_window rs r limit = (take ?h ?all @ drop (length ?all - ?t) ?all, int (length ?all))"
    using False assms by (auto simp: load_replay_window_def Let_def rev_take)
  have hd: "?h \<le> length ?all - ?t" using sum len by linarith
  have "subseq (take ?h ?all @ drop (length ?all - ?t) ?all) ?all"
    using hd by (rule subseq_take_drop)
  moreover have "length (take ?h ?all @ drop (length ?all - ?t) ?all) = nat limit \<and>
      last (take ?h ?all @ drop (length ?all - ?t) ?all) = last ?all"
    using sum len by (rule window_shape)
  ultimately obtain W where W: "subseq W ?all" "length W = nat limit" "last W = last ?all"
      "load_replay_window rs r limit = (W, int (length ?all))"
    using w by blast
  have "int (length W) = limit" using W(2) assms by simp
  with W(1,3) False show ?thesis
    unfolding W(4) omitted_def fst_conv snd_conv by simp
qed

theorem load_replay_window_ok_witness:
  "int (length (fst (load_replay_window [\<lparr>ev_run = 1, ev_seq = 2, ev_kind = [], ev_data = JNull\<rparr>,
      \<lparr>ev_run = 1, ev_seq = 1, ev_kind = [], ev_data = JNull\<rparr>] 1 1))) = 1"
  using load_replay_window_ok [of 1 "[\<lparr>ev_run = 1, ev_seq = 2, ev_kind = [], ev_data = JNull\<rparr>,
      \<lparr>ev_run = 1, ev_seq = 1, ev_kind = [], ev_data = JNull\<rparr>]" 1]
  by (simp add: sorted_rows_def)

section \<open>Concurrent tasks never share a number\<close>

text \<open>
  Tasks of one run that call \<open>next_sequence\<close> concurrently. Each locked section is one step; the
  base a task read between them may be stale, so it is any integer.
\<close>

datatype seq_phase = Idle | Seeding int | Got int

inductive seq_step :: "run_id \<Rightarrow> (nat \<Rightarrow> seq_phase) \<times> bus \<Rightarrow> (nat \<Rightarrow> seq_phase) \<times> bus \<Rightarrow> bool"
  for r :: run_id where
  fast: "ph t = Idle \<Longrightarrow> bump_sequence r b = (Some n, b') \<Longrightarrow> seq_step r (ph, b) (ph(t := Got n), b')"
| slow: "ph t = Idle \<Longrightarrow> bump_sequence r b = (None, b') \<Longrightarrow> seq_step r (ph, b) (ph(t := Seeding base), b')"
| seed: "ph t = Seeding base \<Longrightarrow> seed_sequence r base b = (n, b') \<Longrightarrow> seq_step r (ph, b) (ph(t := Got n), b')"

definition seq_inv :: "run_id \<Rightarrow> (nat \<Rightarrow> seq_phase) \<times> bus \<Rightarrow> bool" where
  "seq_inv r s \<longleftrightarrow>
     (\<forall>t n. fst s t = Got n \<longrightarrow> (\<exists>m. sequences (snd s) r = Some m \<and> n \<le> m)) \<and>
     (\<forall>t u n. fst s t = Got n \<longrightarrow> fst s u = Got n \<longrightarrow> t = u)"

lemma seq_alloc:
  assumes "seq_inv r (ph, b)" and "sequences b' r = Some n"
    and "\<And>m. sequences b r = Some m \<Longrightarrow> m < n"
  shows "seq_inv r (ph(t := Got n), b')"
  using assms by (fastforce simp: seq_inv_def)

lemma seq_step_inv: "seq_step r s s' \<Longrightarrow> seq_inv r s \<Longrightarrow> seq_inv r s'"
proof (induction rule: seq_step.induct)
  case (fast ph t b n b')
  show ?case
    by (rule seq_alloc [OF fast.prems]) (use fast.hyps in \<open>auto simp: bump_sequence_def split: option.splits\<close>)
next
  case (slow ph t b b' base)
  then show ?case
    by (auto simp: seq_inv_def bump_sequence_def split: option.splits)
next
  case (seed ph t base b n b')
  show ?case
    by (rule seq_alloc [OF seed.prems])
       (use seed.hyps in \<open>auto simp: seed_sequence_def bump_sequence_def split: option.splits\<close>)
qed

text \<open>
  However the locked sections of concurrent tasks interleave and whatever stale base
  they read, no two of them are given the same sequence number.
\<close>

theorem concurrent_sequences_unique:
  assumes "(seq_step r)\<^sup>*\<^sup>* ((\<lambda>_. Idle), b) (ph, b')" and "ph t = Got n" and "ph u = Got m" and "t \<noteq> u"
  shows "n \<noteq> m"
proof -
  have "seq_inv r s" if "(seq_step r)\<^sup>*\<^sup>* ((\<lambda>_. Idle), b) s" for s
    using that
  proof (induction rule: rtranclp_induct)
    case base
    show ?case by (simp add: seq_inv_def)
  next
    case (step s s')
    then show ?case by (blast intro: seq_step_inv)
  qed
  from this [OF assms(1)] assms(2-4) show ?thesis by (auto simp: seq_inv_def)
qed

theorem concurrent_sequences_unique_witness: "(1::int) \<noteq> 2"
proof -
  let ?s0 = "(\<lambda>_. Idle, bus_new)"
  let ?p1 = "(\<lambda>_. Idle)(0 := Seeding 0)" and ?p2 = "(\<lambda>_. Idle)(0 := Seeding 0, 1 := Seeding 0)"
  let ?b1 = "bus_new\<lparr>sequences := (sequences bus_new)(1 := Some 1)\<rparr>"
  have "seq_step 1 ?s0 (?p1, bus_new)"
    by (rule seq_step.slow [where b' = bus_new]) (simp_all add: bump_sequence_def bus_new_def)
  moreover have "seq_step 1 (?p1, bus_new) (?p2, bus_new)"
    by (rule seq_step.slow [where b' = bus_new]) (simp_all add: bump_sequence_def bus_new_def)
  moreover have "seq_step 1 (?p2, bus_new) (?p2(0 := Got 1), ?b1)"
    by (rule seq_step.seed [where base = 0]) (simp_all add: seed_sequence_def bump_sequence_def bus_new_def)
  moreover have "seq_step 1 (?p2(0 := Got 1), ?b1)
      (?p2(0 := Got 1, 1 := Got 2), ?b1\<lparr>sequences := (sequences ?b1)(1 := Some 2)\<rparr>)"
    by (rule seq_step.seed [where base = 0]) (simp_all add: seed_sequence_def bump_sequence_def)
  ultimately have "(seq_step 1)\<^sup>*\<^sup>* ?s0
      (?p2(0 := Got 1, 1 := Got 2), ?b1\<lparr>sequences := (sequences ?b1)(1 := Some 2)\<rparr>)"
    by (meson rtranclp.rtrancl_into_rtrancl rtranclp.rtrancl_refl)
  from concurrent_sequences_unique [OF this, of 0 1 1 2] show ?thesis by simp
qed

end
