(* ===== verification/Diff.thy ===== *)
theory Diff
  imports Prelude
begin

text \<open>
  The unified diff of the file-write preview (\<open>app/src/diff.rs\<close>): the edit script over lines, its
  dynamic-programming core, the grouping into hunks and the printed form. Counters are natural
  numbers: the table is at most 2000 by 2000, and no line count reaches \<open>2\<^sup>32\<close> in memory.
\<close>

definition MAX_LCS_LINES :: nat where "MAX_LCS_LINES = 2000"

datatype tag = Keep | Delete | Insert

record op =
  op_tag :: tag
  op_text :: ustr
  op_old :: "nat option"
  op_new :: "nat option"

record hunk =
  h_old_start :: nat
  h_old_count :: nat
  h_new_start :: nat
  h_new_count :: nat
  h_lines :: "op list"

record file_diff =
  fd_unified :: ustr
  fd_added :: nat
  fd_removed :: nat
  fd_is_new :: bool

text \<open>\<open>split\_inclusive\<close> on newlines, each piece without its newline.\<close>

definition split_lines :: "ustr \<Rightarrow> ustr list" where
  "split_lines input =
     (if input = [] then []
      else (let ps = str_split (\<lambda>c. c = 10) input in if last ps = [] then butlast ps else ps))"

section \<open>The edit script\<close>

definition keep_op :: "ustr \<Rightarrow> nat \<Rightarrow> nat \<Rightarrow> op" where
  "keep_op t i j = \<lparr>op_tag = Keep, op_text = t, op_old = Some i, op_new = Some j\<rparr>"

definition delete_op :: "ustr \<Rightarrow> nat \<Rightarrow> op" where
  "delete_op t i = \<lparr>op_tag = Delete, op_text = t, op_old = Some i, op_new = None\<rparr>"

definition insert_op :: "ustr \<Rightarrow> nat \<Rightarrow> op" where
  "insert_op t j = \<lparr>op_tag = Insert, op_text = t, op_old = None, op_new = Some j\<rparr>"

fun keeps :: "ustr list \<Rightarrow> nat \<Rightarrow> nat \<Rightarrow> op list" where
  "keeps [] i j = []"
| "keeps (t # ts) i j = keep_op t i j # keeps ts (i + 1) (j + 1)"

fun deletes :: "ustr list \<Rightarrow> nat \<Rightarrow> op list" where
  "deletes [] i = []"
| "deletes (t # ts) i = delete_op t i # deletes ts (i + 1)"

fun inserts :: "ustr list \<Rightarrow> nat \<Rightarrow> op list" where
  "inserts [] j = []"
| "inserts (t # ts) j = insert_op t j # inserts ts (j + 1)"

text \<open>The table, row by row from the last: row \<open>i\<close>, column \<open>j\<close> is for the suffixes from \<open>i\<close> and \<open>j\<close>.\<close>

fun dp_row :: "ustr \<Rightarrow> ustr list \<Rightarrow> nat list \<Rightarrow> nat list" where
  "dp_row x [] below = [0]"
| "dp_row x (y # ys) below =
     (let rest = dp_row x ys (tl below)
      in (if x = y then below ! 1 + 1 else max (below ! 0) (rest ! 0)) # rest)"

fun dp_table :: "ustr list \<Rightarrow> ustr list \<Rightarrow> nat list list" where
  "dp_table [] ys = [replicate (length ys + 1) 0]"
| "dp_table (x # xs) ys = (let t = dp_table xs ys in dp_row x ys (hd t) # t)"

function lcs_walk :: "ustr list \<Rightarrow> ustr list \<Rightarrow> nat list list \<Rightarrow> nat \<Rightarrow> nat \<Rightarrow> nat \<Rightarrow> nat \<Rightarrow> op list" where
  "lcs_walk old new table i j old_line new_line =
     (if i < length old \<and> j < length new then
        (if old ! i = new ! j then
           keep_op (old ! i) old_line new_line # lcs_walk old new table (i + 1) (j + 1) (old_line + 1) (new_line + 1)
         else if table ! (i + 1) ! j \<ge> table ! i ! (j + 1) then
           delete_op (old ! i) old_line # lcs_walk old new table (i + 1) j (old_line + 1) new_line
         else insert_op (new ! j) new_line # lcs_walk old new table i (j + 1) old_line (new_line + 1))
      else deletes (drop i old) old_line @ inserts (drop j new) new_line)"
  by pat_completeness auto
termination
  by (relation "measure (\<lambda>(old, new, t, i, j, a, b). (length old - i) + (length new - j))") auto

declare lcs_walk.simps [simp del]

definition lcs_ops :: "ustr list \<Rightarrow> ustr list \<Rightarrow> nat \<Rightarrow> nat \<Rightarrow> op list" where
  "lcs_ops old new old_offset new_offset = lcs_walk old new (dp_table old new) 0 0 old_offset new_offset"

fun common_prefix :: "'a list \<Rightarrow> 'a list \<Rightarrow> nat" where
  "common_prefix (x # xs) (y # ys) = (if x = y then common_prefix xs ys + 1 else 0)"
| "common_prefix xs ys = 0"

definition diff_ops :: "ustr list \<Rightarrow> ustr list \<Rightarrow> op list" where
  "diff_ops old new =
     (let prefix = common_prefix old new;
          suffix = common_prefix (rev (drop prefix old)) (rev (drop prefix new));
          mid_old = take (length old - suffix - prefix) (drop prefix old);
          mid_new = take (length new - suffix - prefix) (drop prefix new);
          middle = (if length mid_old > MAX_LCS_LINES \<or> length mid_new > MAX_LCS_LINES
                    then deletes mid_old (prefix + 1) @ inserts mid_new (prefix + 1)
                    else lcs_ops mid_old mid_new (prefix + 1) (prefix + 1))
      in keeps (take prefix old) 1 1 @ middle @
         keeps (drop (length old - suffix) old) (prefix + 1 + length mid_old) (prefix + 1 + length mid_new))"

section \<open>Hunks\<close>

definition changed_indices :: "op list \<Rightarrow> nat list" where
  "changed_indices ops = filter (\<lambda>i. op_tag (ops ! i) \<noteq> Keep) [0..<length ops]"

text \<open>The last group is the head of the accumulator.\<close>

fun merge_groups :: "nat \<Rightarrow> nat \<Rightarrow> (nat \<times> nat) list \<Rightarrow> nat list \<Rightarrow> (nat \<times> nat) list" where
  "merge_groups n ctx acc [] = rev acc"
| "merge_groups n ctx acc (idx # idxs) =
     (let lo = idx - ctx; hi = min (idx + ctx) (n - 1)
      in case acc of
           (glo, ghi) # rest \<Rightarrow>
             if lo \<le> ghi + 1 then merge_groups n ctx ((glo, max ghi hi) # rest) idxs
             else merge_groups n ctx ((lo, hi) # acc) idxs
         | [] \<Rightarrow> merge_groups n ctx [(lo, hi)] idxs)"

definition first_line :: "(op \<Rightarrow> nat option) \<Rightarrow> op list \<Rightarrow> nat" where
  "first_line line part = (case List.map_filter line part of l # _ \<Rightarrow> l | [] \<Rightarrow> 1)"

definition hunk_of :: "op list \<Rightarrow> hunk" where
  "hunk_of part =
     \<lparr>h_old_start = first_line op_old part,
      h_old_count = length (filter (\<lambda>o'. op_old o' \<noteq> None) part),
      h_new_start = first_line op_new part,
      h_new_count = length (filter (\<lambda>o'. op_new o' \<noteq> None) part),
      h_lines = part\<rparr>"

definition group_hunks :: "op list \<Rightarrow> nat \<Rightarrow> hunk list" where
  "group_hunks ops ctx =
     map (\<lambda>(lo, hi). hunk_of (drop lo (take (hi + 1) ops)))
       (merge_groups (length ops) ctx [] (changed_indices ops))"

section \<open>The printed diff\<close>

definition range_label :: "nat \<Rightarrow> nat \<Rightarrow> ustr" where
  "range_label start count =
     (if count = 1 then show_nat start
      else if count = 0 then show_nat (start - 1) @ lit '',0''
      else show_nat start @ lit '','' @ show_nat count)"

definition op_text_line :: "op \<Rightarrow> ustr" where
  "op_text_line o' =
     (case op_tag o' of Keep \<Rightarrow> lit '' '' | Delete \<Rightarrow> lit ''-'' | Insert \<Rightarrow> lit ''+'') @ op_text o' @ [10]"

definition hunk_text :: "hunk \<Rightarrow> ustr" where
  "hunk_text h =
     lit ''@@ -'' @ range_label (h_old_start h) (h_old_count h) @ lit '' +'' @
     range_label (h_new_start h) (h_new_count h) @ lit '' @@'' @ [10] @ concat (map op_text_line (h_lines h))"

definition unified_diff :: "ustr \<Rightarrow> ustr \<Rightarrow> ustr \<Rightarrow> nat \<Rightarrow> file_diff" where
  "unified_diff path old new ctx =
     (let old_lines = split_lines old; new_lines = split_lines new;
          ops = diff_ops old_lines new_lines;
          hunks = group_hunks ops ctx
      in \<lparr>fd_unified = (if hunks = [] then []
            else lit ''--- a/'' @ path @ [10] @ lit ''+++ b/'' @ path @ [10] @ concat (map hunk_text hunks)),
          fd_added = length (filter (\<lambda>o'. op_tag o' = Insert) ops),
          fd_removed = length (filter (\<lambda>o'. op_tag o' = Delete) ops),
          fd_is_new = (old_lines = [] \<and> new_lines \<noteq> [])\<rparr>)"

section \<open>What an edit script does\<close>

definition olds :: "op list \<Rightarrow> ustr list" where
  "olds ops = map op_text (filter (\<lambda>o'. op_tag o' \<noteq> Insert) ops)"

definition news :: "op list \<Rightarrow> ustr list" where
  "news ops = map op_text (filter (\<lambda>o'. op_tag o' \<noteq> Delete) ops)"

definition kept :: "op list \<Rightarrow> ustr list" where
  "kept ops = map op_text (filter (\<lambda>o'. op_tag o' = Keep) ops)"

text \<open>The line numbers run on from \<open>i\<close> in the old file and from \<open>j\<close> in the new one.\<close>

fun numbered :: "nat \<Rightarrow> nat \<Rightarrow> op list \<Rightarrow> bool" where
  "numbered i j [] \<longleftrightarrow> True"
| "numbered i j (o' # ops) \<longleftrightarrow>
     (case op_tag o' of
        Keep \<Rightarrow> op_old o' = Some i \<and> op_new o' = Some j \<and> numbered (i + 1) (j + 1) ops
      | Delete \<Rightarrow> op_old o' = Some i \<and> op_new o' = None \<and> numbered (i + 1) j ops
      | Insert \<Rightarrow> op_old o' = None \<and> op_new o' = Some j \<and> numbered i (j + 1) ops)"

lemma op_simps [simp]:
  "op_tag (keep_op t i j) = Keep" "op_text (keep_op t i j) = t" "op_old (keep_op t i j) = Some i" "op_new (keep_op t i j) = Some j"
  "op_tag (delete_op t i) = Delete" "op_text (delete_op t i) = t" "op_old (delete_op t i) = Some i" "op_new (delete_op t i) = None"
  "op_tag (insert_op t j) = Insert" "op_text (insert_op t j) = t" "op_old (insert_op t j) = None" "op_new (insert_op t j) = Some j"
  by (simp_all add: keep_op_def delete_op_def insert_op_def)

lemma sides_simps [simp]:
  "olds [] = []" "news [] = []" "kept [] = []"
  "olds (o' # ops) = (if op_tag o' = Insert then olds ops else op_text o' # olds ops)"
  "news (o' # ops) = (if op_tag o' = Delete then news ops else op_text o' # news ops)"
  "kept (o' # ops) = (if op_tag o' = Keep then op_text o' # kept ops else kept ops)"
  "olds (a @ b) = olds a @ olds b" "news (a @ b) = news a @ news b" "kept (a @ b) = kept a @ kept b"
  by (auto simp: olds_def news_def kept_def)

lemma numbered_append:
  "numbered i j (a @ b) \<longleftrightarrow> numbered i j a \<and> numbered (i + length (olds a)) (j + length (news a)) b"
  by (induction a arbitrary: i j) (auto split: tag.splits)

lemma keeps_sides [simp]:
  "olds (keeps ts i j) = ts" "news (keeps ts i j) = ts" "kept (keeps ts i j) = ts" "numbered i j (keeps ts i j)"
  by (induction ts arbitrary: i j) auto

lemma deletes_sides [simp]:
  "olds (deletes ts i) = ts" "news (deletes ts i) = []" "kept (deletes ts i) = []" "numbered i j (deletes ts i)"
  by (induction ts arbitrary: i) auto

lemma inserts_sides [simp]:
  "olds (inserts ts j) = []" "news (inserts ts j) = ts" "kept (inserts ts j) = []" "numbered i j (inserts ts j)"
  by (induction ts arbitrary: j) auto

lemma lcs_walk_sides:
  "olds (lcs_walk old new t i j a b) = drop i old \<and> news (lcs_walk old new t i j a b) = drop j new \<and>
   numbered a b (lcs_walk old new t i j a b)"
proof (induction old new t i j a b rule: lcs_walk.induct)
  case (1 old new t i j a b)
  show ?case
  proof (cases "i < length old \<and> j < length new")
    case True
    then have "drop i old = old ! i # drop (i + 1) old" "drop j new = new ! j # drop (j + 1) new"
      by (simp_all add: Cons_nth_drop_Suc)
    with True 1 show ?thesis
      by (simp add: lcs_walk.simps [of old new t i j a b])
  next
    case False
    then show ?thesis
      by (auto simp: lcs_walk.simps [of old new t i j a b] numbered_append)
  qed
qed

lemma common_prefix_le: "common_prefix xs ys \<le> length xs" "common_prefix xs ys \<le> length ys"
  by (induction xs ys rule: common_prefix.induct) auto

lemma common_prefix_take: "take (common_prefix xs ys) xs = take (common_prefix xs ys) ys"
  by (induction xs ys rule: common_prefix.induct) auto

text \<open>The trimming of \<open>diff_ops\<close>: a common prefix, two middles, a common suffix.\<close>

lemma diff_ops_split:
  obtains p a b s where "old = p @ a @ s" "new = p @ b @ s"
    "diff_ops old new =
       keeps p 1 1 @
       (if length a > MAX_LCS_LINES \<or> length b > MAX_LCS_LINES
        then deletes a (length p + 1) @ inserts b (length p + 1)
        else lcs_ops a b (length p + 1) (length p + 1)) @
       keeps s (length p + 1 + length a) (length p + 1 + length b)"
proof -
  let ?n = "common_prefix old new"
  let ?o = "drop ?n old" and ?w = "drop ?n new"
  let ?m = "common_prefix (rev ?o) (rev ?w)"
  have m: "?m \<le> length ?o" "?m \<le> length ?w"
    using common_prefix_le [of "rev ?o" "rev ?w"] by simp_all
  have n: "?n \<le> length old" "?n \<le> length new"
    by (rule common_prefix_le)+
  have o: "length old - ?m - ?n = length ?o - ?m" "length new - ?m - ?n = length ?w - ?m"
    by simp_all
  have d: "drop (length old - ?m) old = drop (length ?o - ?m) ?o"
    using m n by simp
  have "rev (take ?m (rev ?o)) = rev (take ?m (rev ?w))"
    by (simp only: common_prefix_take)
  then have s: "drop (length ?o - ?m) ?o = drop (length ?w - ?m) ?w"
    by (simp only: rev_take rev_rev_ident length_rev)
  show thesis
  proof (rule that [of "take ?n old" "take (length ?o - ?m) ?o" "drop (length ?o - ?m) ?o" "take (length ?w - ?m) ?w"])
    show "old = take ?n old @ take (length ?o - ?m) ?o @ drop (length ?o - ?m) ?o"
      by (simp only: append_take_drop_id)
    have "new = take ?n new @ take (length ?w - ?m) ?w @ drop (length ?w - ?m) ?w"
      by (simp only: append_take_drop_id)
    then show "new = take ?n old @ take (length ?w - ?m) ?w @ drop (length ?o - ?m) ?o"
      by (simp only: s common_prefix_take)
    have "length (take ?n old) = ?n"
      using n by simp
    then show "diff_ops old new =
       keeps (take ?n old) 1 1 @
       (if length (take (length ?o - ?m) ?o) > MAX_LCS_LINES \<or> length (take (length ?w - ?m) ?w) > MAX_LCS_LINES
        then deletes (take (length ?o - ?m) ?o) (length (take ?n old) + 1) @
             inserts (take (length ?w - ?m) ?w) (length (take ?n old) + 1)
        else lcs_ops (take (length ?o - ?m) ?o) (take (length ?w - ?m) ?w) (length (take ?n old) + 1) (length (take ?n old) + 1)) @
       keeps (drop (length ?o - ?m) ?o) (length (take ?n old) + 1 + length (take (length ?o - ?m) ?o))
         (length (take ?n old) + 1 + length (take (length ?w - ?m) ?w))"
      unfolding diff_ops_def Let_def o d by simp
  qed
qed

lemma diff_ops_sides:
  "olds (diff_ops old new) = old" "news (diff_ops old new) = new" "numbered 1 1 (diff_ops old new)"
proof -
  obtain p a b s where old: "old = p @ a @ s" and new: "new = p @ b @ s" and d: "diff_ops old new =
       keeps p 1 1 @
       (if length a > MAX_LCS_LINES \<or> length b > MAX_LCS_LINES
        then deletes a (length p + 1) @ inserts b (length p + 1)
        else lcs_ops a b (length p + 1) (length p + 1)) @
       keeps s (length p + 1 + length a) (length p + 1 + length b)"
    by (rule diff_ops_split)
  let ?t = "dp_table a b" and ?k = "length p + 1"
  have w: "olds (lcs_ops a b ?k ?k) = a" "news (lcs_ops a b ?k ?k) = b" "numbered ?k ?k (lcs_ops a b ?k ?k)"
    using lcs_walk_sides [of a b ?t 0 0 ?k ?k] by (simp_all add: lcs_ops_def)
  have "olds (diff_ops old new) = p @ a @ s" "news (diff_ops old new) = p @ b @ s"
    using w(1,2) by (simp_all add: d)
  then show "olds (diff_ops old new) = old" "news (diff_ops old new) = new"
    by (simp_all only: old new)
  show "numbered 1 1 (diff_ops old new)"
    using w by (simp add: d numbered_append add.commute)
qed

section \<open>The table holds the lengths of the longest common subsequences\<close>

fun lcs_len :: "'a list \<Rightarrow> 'a list \<Rightarrow> nat" where
  "lcs_len (x # xs) (y # ys) = (if x = y then lcs_len xs ys + 1 else max (lcs_len xs (y # ys)) (lcs_len (x # xs) ys))"
| "lcs_len xs ys = 0"

lemma lcs_len_Nil2 [simp]: "lcs_len xs [] = 0"
  by (cases xs) auto

lemma lcs_len_max: "subseq zs xs \<Longrightarrow> subseq zs ys \<Longrightarrow> length zs \<le> lcs_len xs ys"
proof (induction xs ys arbitrary: zs rule: lcs_len.induct)
  case (1 x xs y ys)
  show ?case
  proof (cases zs)
    case (Cons z zs')
    show ?thesis
    proof (cases "x = y")
      case True
      have "subseq zs' xs" "subseq zs' ys"
        using 1(4,5) Cons by (auto elim: subseq_Cons2_neq dest: subseq_Cons2' subseq_Cons' split: if_splits)
      with 1(1) True Cons show ?thesis
        by fastforce
    next
      case False
      have "subseq zs xs \<or> subseq zs ys"
        using 1(4,5) Cons False by (cases "z = x") auto
      then show ?thesis
        using 1(2) [OF False, of zs] 1(3) [OF False, of zs] 1(4,5) False by auto
    qed
  qed simp
qed auto

lemma lcs_len_prefix: "lcs_len (p @ xs) (p @ ys) = length p + lcs_len xs ys"
  by (induction p) auto

lemma lcs_len_attained: "\<exists>zs. subseq zs xs \<and> subseq zs ys \<and> length zs = lcs_len xs ys"
proof (induction xs ys rule: lcs_len.induct)
  case (1 x xs y ys)
  show ?case
  proof (cases "x = y")
    case True
    with 1(1) obtain zs where "subseq zs xs" "subseq zs ys" "length zs = lcs_len xs ys"
      by blast
    with True show ?thesis
      by (intro exI [of _ "x # zs"]) auto
  next
    case False
    with 1(2,3) show ?thesis
      by (auto simp: max_def)
  qed
qed auto

lemma lcs_len_suffix_le: "lcs_len (xs @ s) (ys @ s) \<le> lcs_len xs ys + length s"
proof -
  obtain zs where z: "subseq zs (xs @ s)" "subseq zs (ys @ s)" and l: "length zs = lcs_len (xs @ s) (ys @ s)"
    using lcs_len_attained by blast
  obtain u v where u: "zs = u @ v" "subseq u xs" "subseq v s"
    using z(1) by (auto simp: subseq_append_iff)
  obtain u' v' where u': "zs = u' @ v'" "subseq u' ys" "subseq v' s"
    using z(2) by (auto simp: subseq_append_iff)
  have short: "subseq w xs \<Longrightarrow> subseq w ys \<Longrightarrow> subseq t s \<Longrightarrow> zs = w @ t \<Longrightarrow> ?thesis" for w t
    using lcs_len_max [of w xs ys] list_emb_length [of "(=)" t s] by (simp add: l [symmetric])
  consider r where "u' = u @ r" | r where "u = u' @ r"
    using u(1) u'(1) by (auto simp: append_eq_append_conv2)
  then show ?thesis
  proof cases
    case 1
    then have "subseq u ys"
      using u'(2) by (metis subseq_order.order_trans subseq_rev_drop_many subseq_order.order_refl)
    then show ?thesis
      using short u by blast
  next
    case 2
    then have "subseq u' xs"
      using u(2) by (metis subseq_order.order_trans subseq_rev_drop_many subseq_order.order_refl)
    then show ?thesis
      using short u' by blast
  qed
qed

lemma lcs_len_suffix: "lcs_len (xs @ s) (ys @ s) = lcs_len xs ys + length s"
proof (rule antisym)
  obtain zs where "subseq zs xs" "subseq zs ys" "length zs = lcs_len xs ys"
    using lcs_len_attained by blast
  then show "lcs_len xs ys + length s \<le> lcs_len (xs @ s) (ys @ s)"
    using lcs_len_max [of "zs @ s" "xs @ s" "ys @ s"] by simp
qed (rule lcs_len_suffix_le)

text \<open>Row by row, the table is the reference function on the suffixes.\<close>

lemma dp_row_lcs:
  assumes "\<And>j. j \<le> length ys \<Longrightarrow> below ! j = lcs_len xs (drop j ys)" "length below = length ys + 1"
  shows "length (dp_row x ys below) = length ys + 1 \<and>
         (\<forall>j \<le> length ys. dp_row x ys below ! j = lcs_len (x # xs) (drop j ys))"
  using assms
proof (induction ys arbitrary: below)
  case (Cons y ys)
  obtain b0 below' where b: "below = b0 # below'"
    using Cons.prems(2) by (cases below) auto
  have t: "below' ! j = lcs_len xs (drop j ys)" if "j \<le> length ys" for j
    using Cons.prems(1) [of "Suc j"] that by (simp add: b)
  let ?r = "dp_row x ys below'"
  have r: "length ?r = length ys + 1" "\<And>j. j \<le> length ys \<Longrightarrow> ?r ! j = lcs_len (x # xs) (drop j ys)"
    using Cons.IH [of below'] t Cons.prems(2) by (auto simp: b)
  have "b0 = lcs_len xs (y # ys)"
    using Cons.prems(1) [of 0] by (simp add: b)
  with t [of 0] r(2) [of 0] r(1) r(2) show ?case
    by (auto simp: b nth_Cons' drop_Cons' Let_def)
qed simp

lemma dp_table_lcs:
  "length (dp_table xs ys) = length xs + 1 \<and>
   (\<forall>i \<le> length xs. length (dp_table xs ys ! i) = length ys + 1 \<and>
      (\<forall>j \<le> length ys. dp_table xs ys ! i ! j = lcs_len (drop i xs) (drop j ys)))"
proof (induction xs)
  case Nil
  then show ?case by (auto simp del: replicate_Suc)
next
  case (Cons x xs)
  let ?t = "dp_table xs ys"
  have "hd ?t = ?t ! 0"
    using Cons by (intro hd_conv_nth) auto
  then have "length (dp_row x ys (hd ?t)) = length ys + 1 \<and>
      (\<forall>j \<le> length ys. dp_row x ys (hd ?t) ! j = lcs_len (x # xs) (drop j ys))"
    using Cons by (intro dp_row_lcs) auto
  with Cons show ?case
    by (auto simp: nth_Cons' drop_Cons' Let_def)
qed

lemma lcs_walk_kept:
  assumes "i \<le> length old" "j \<le> length new"
  shows "length (kept (lcs_walk old new (dp_table old new) i j a b)) = lcs_len (drop i old) (drop j new)"
  using assms
proof (induction old new "dp_table old new" i j a b rule: lcs_walk.induct)
  case (1 old new i j a b)
  let ?t = "dp_table old new"
  show ?case
  proof (cases "i < length old \<and> j < length new")
    case True
    then have d: "drop i old = old ! i # drop (i + 1) old" "drop j new = new ! j # drop (j + 1) new"
      by (simp_all add: Cons_nth_drop_Suc)
    have t: "?t ! (i + 1) ! j = lcs_len (drop (i + 1) old) (drop j new)"
      "?t ! i ! (j + 1) = lcs_len (drop i old) (drop (j + 1) new)"
      using dp_table_lcs [of old new] True by auto
    show ?thesis
    proof (cases "old ! i = new ! j")
      case eq: True
      then have "length (kept (lcs_walk old new ?t i j a b)) =
          lcs_len (drop (i + 1) old) (drop (j + 1) new) + 1"
        using 1(1) True by (simp add: lcs_walk.simps [of old new ?t i j a b])
      then show ?thesis
        using d eq by simp
    next
      case ne: False
      have "lcs_len (drop i old) (drop j new) =
          max (lcs_len (drop (i + 1) old) (drop j new)) (lcs_len (drop i old) (drop (j + 1) new))"
        using d ne by (metis lcs_len.simps(1))
      with True ne t 1(2,3) show ?thesis
        by (auto simp: lcs_walk.simps [of old new ?t i j a b])
    qed
  next
    case False
    with 1(4,5) show ?thesis
      by (auto simp: lcs_walk.simps [of old new ?t i j a b])
  qed
qed

lemma subseq_kept: "subseq (kept ops) (olds ops)" "subseq (kept ops) (news ops)"
  by (induction ops) auto

lemma diff_ops_kept:
  assumes "length old \<le> MAX_LCS_LINES" "length new \<le> MAX_LCS_LINES"
  shows "length (kept (diff_ops old new)) = lcs_len old new"
proof -
  obtain p a b s where old: "old = p @ a @ s" and new: "new = p @ b @ s" and d: "diff_ops old new =
       keeps p 1 1 @
       (if length a > MAX_LCS_LINES \<or> length b > MAX_LCS_LINES
        then deletes a (length p + 1) @ inserts b (length p + 1)
        else lcs_ops a b (length p + 1) (length p + 1)) @
       keeps s (length p + 1 + length a) (length p + 1 + length b)"
    by (rule diff_ops_split)
  have "\<not> (length a > MAX_LCS_LINES \<or> length b > MAX_LCS_LINES)"
    using assms by (auto simp: old new)
  then have "length (kept (diff_ops old new)) = length p + lcs_len a b + length s"
    using lcs_walk_kept [of 0 a 0 b] by (simp add: d lcs_ops_def)
  then show ?thesis
    by (simp add: old new lcs_len_prefix lcs_len_suffix)
qed

section \<open>Reading the hunks back\<close>

text \<open>
  The reader of a unified diff: each hunk names the old line it starts at; the lines before it are
  copied, then every kept or deleted line must be the next old line. \<open>n\<close> old lines are already
  consumed.
\<close>

fun apply_lines :: "op list \<Rightarrow> ustr list \<Rightarrow> (ustr list \<times> ustr list) option" where
  "apply_lines [] rest = Some ([], rest)"
| "apply_lines (o' # ops) rest =
     (case op_tag o' of
        Insert \<Rightarrow> map_option (\<lambda>(out, r). (op_text o' # out, r)) (apply_lines ops rest)
      | Keep \<Rightarrow>
          (case rest of
             [] \<Rightarrow> None
           | x # xs \<Rightarrow>
               if x = op_text o' then map_option (\<lambda>(out, r). (op_text o' # out, r)) (apply_lines ops xs) else None)
      | Delete \<Rightarrow>
          (case rest of [] \<Rightarrow> None | x # xs \<Rightarrow> if x = op_text o' then apply_lines ops xs else None))"

fun apply_hunks :: "nat \<Rightarrow> hunk list \<Rightarrow> ustr list \<Rightarrow> ustr list option" where
  "apply_hunks n [] rest = Some rest"
| "apply_hunks n (h # hs) rest =
     (let before = h_old_start h - 1; gap = before - n
      in if before < n \<or> length rest < gap then None
         else case apply_lines (h_lines h) (drop gap rest) of
                None \<Rightarrow> None
              | Some (out, rest') \<Rightarrow>
                  map_option (\<lambda>r. take gap rest @ out @ r) (apply_hunks (before + h_old_count h) hs rest'))"

lemma apply_lines_sides: "apply_lines ops (olds ops @ rest) = Some (news ops, rest)"
  by (induction ops) (auto split: tag.splits)

lemma first_line_old: "numbered i j ops \<Longrightarrow> first_line op_old ops = (if olds ops = [] then 1 else i)"
  by (induction ops arbitrary: i j) (auto simp: first_line_def split: tag.splits)

lemma first_line_new: "numbered i j ops \<Longrightarrow> first_line op_new ops = (if news ops = [] then 1 else j)"
  by (induction ops arbitrary: i j) (auto simp: first_line_def split: tag.splits)

lemma hunk_counts:
  "numbered i j ops \<Longrightarrow> h_old_count (hunk_of ops) = length (olds ops)"
  "numbered i j ops \<Longrightarrow> h_new_count (hunk_of ops) = length (news ops)"
  by (induction ops arbitrary: i j) (auto simp: hunk_of_def split: tag.splits)

lemma h_lines_hunk_of [simp]: "h_lines (hunk_of ops) = ops"
  by (simp add: hunk_of_def)

text \<open>
  What the merging keeps of the groups built so far, the last one first: \<open>b\<close> operations are done, and
  every change among them is inside a group.
\<close>

fun merged :: "op list \<Rightarrow> nat \<Rightarrow> (nat \<times> nat) list \<Rightarrow> bool" where
  "merged ops b [] \<longleftrightarrow> (\<forall>i < b. op_tag (ops ! i) = Keep)"
| "merged ops b ((lo, hi) # rest) \<longleftrightarrow>
     lo \<le> hi \<and> hi < length ops \<and> (lo = 0 \<or> op_tag (ops ! lo) = Keep) \<and>
     (\<forall>i. hi < i \<and> i < b \<longrightarrow> op_tag (ops ! i) = Keep) \<and>
     merged ops lo rest \<and> (rest \<noteq> [] \<longrightarrow> snd (hd rest) < lo)"

lemma merged_mono:
  assumes "merged ops b acc" "\<And>i. b \<le> i \<Longrightarrow> i < c \<Longrightarrow> op_tag (ops ! i) = Keep"
  shows "merged ops c acc"
  using assms by (cases acc) (auto; metis not_le_imp_less)+

lemma merged_push:
  assumes "merged ops idx acc" "idx < length ops" "0 < ctx"
  defines "lo \<equiv> idx - ctx" and "hi \<equiv> min (idx + ctx) (length ops - 1)"
  assumes "acc = [] \<or> snd (hd acc) + 1 < lo"
  shows "merged ops (idx + 1) ((lo, hi) # acc)"
proof -
  have "lo = 0 \<or> lo < idx" "lo \<le> idx" "lo \<le> hi" "idx \<le> hi" "hi < length ops"
    using assms(2,3) by (auto simp: lo_def hi_def)
  with assms(1,6) show ?thesis
    by (cases acc) auto
qed

lemma merged_widen:
  assumes "merged ops idx ((glo, ghi) # rest)" "idx < length ops" "0 < ctx"
  shows "merged ops (idx + 1) ((glo, max ghi (min (idx + ctx) (length ops - 1))) # rest)"
  using assms by auto

lemma merge_groups_merged:
  assumes "merged ops b acc" "idxs = filter (\<lambda>i. op_tag (ops ! i) \<noteq> Keep) [b..<length ops]" "0 < ctx" "b \<le> length ops"
  shows "merged ops (length ops) (rev (merge_groups (length ops) ctx acc idxs))"
  using assms
proof (induction "length ops" ctx acc idxs arbitrary: b rule: merge_groups.induct)
  case (1 ctx acc)
  then have "\<forall>i. b \<le> i \<and> i < length ops \<longrightarrow> op_tag (ops ! i) = Keep"
    by (auto dest!: sym [of "[]"] simp: filter_empty_conv)
  with 1 show ?case
    using merged_mono [of ops b acc "length ops"] by auto
next
  case (2 ctx acc idx idxs)
  let ?P = "\<lambda>i. op_tag (ops ! i) \<noteq> Keep"
  obtain us vs where uv: "[b..<length ops] = us @ idx # vs" "\<forall>u \<in> set us. \<not> ?P u" "?P idx" "idxs = filter ?P vs"
    using 2(5) [symmetric] by (auto simp: filter_eq_Cons_iff)
  have idx: "b \<le> idx" "idx < length ops" "us = [b..<idx]" "vs = [idx + 1..<length ops]"
  proof -
    have "idx \<in> set [b..<length ops]"
      unfolding uv(1) by simp
    then show i: "b \<le> idx" "idx < length ops"
      by auto
    have "[b..<length ops] = [b..<idx] @ idx # [idx + 1..<length ops]"
      using i by (metis Suc_eq_plus1 le_add_diff_inverse upt_add_eq_append upt_conv_Cons less_imp_le)
    then have "us @ idx # vs = [b..<idx] @ idx # [idx + 1..<length ops]"
      using uv(1) by simp
    moreover have "distinct (us @ idx # vs)"
      by (simp only: uv(1) [symmetric] distinct_upt)
    ultimately show "us = [b..<idx]" "vs = [idx + 1..<length ops]"
      by (auto simp: append_eq_append_conv2 Cons_eq_append_conv append_eq_Cons_conv)
  qed
  have m: "merged ops idx acc"
    using 2(4) uv(2) idx by (auto intro: merged_mono)
  show ?case
  proof (cases acc)
    case Nil
    with 2 m idx uv merged_push [of ops idx acc ctx] show ?thesis
      by (simp add: Let_def)
  next
    case (Cons g rest)
    obtain glo ghi where g: "g = (glo, ghi)"
      by (cases g)
    show ?thesis
    proof (cases "idx - ctx \<le> ghi + 1")
      case True
      with 2 m idx uv Cons g merged_widen [of ops idx glo ghi rest ctx] show ?thesis
        by (simp add: Let_def)
    next
      case False
      with 2 m idx uv Cons g merged_push [of ops idx acc ctx] show ?thesis
        by (simp add: Let_def)
    qed
  qed
qed

text \<open>The same facts read from the front: the groups still to come after \<open>k\<close> operations.\<close>

fun groups_from :: "op list \<Rightarrow> nat \<Rightarrow> (nat \<times> nat) list \<Rightarrow> bool" where
  "groups_from ops k [] \<longleftrightarrow> (\<forall>i. k \<le> i \<and> i < length ops \<longrightarrow> op_tag (ops ! i) = Keep)"
| "groups_from ops k ((lo, hi) # gs) \<longleftrightarrow>
     k \<le> lo \<and> lo \<le> hi \<and> hi < length ops \<and> (lo = 0 \<or> op_tag (ops ! lo) = Keep) \<and>
     (\<forall>i. k \<le> i \<and> i < lo \<longrightarrow> op_tag (ops ! i) = Keep) \<and> groups_from ops (hi + 1) gs"

lemma merged_groups_from:
  assumes "merged ops b acc" "acc \<noteq> [] \<Longrightarrow> snd (hd acc) < b"
    and "\<And>k. k \<le> b \<Longrightarrow> \<forall>i. k \<le> i \<and> i < b \<longrightarrow> op_tag (ops ! i) = Keep \<Longrightarrow> groups_from ops k gs"
  shows "groups_from ops 0 (rev acc @ gs)"
  using assms
proof (induction acc arbitrary: b gs)
  case Nil
  then show ?case by auto
next
  case (Cons g acc)
  obtain lo hi where g: "g = (lo, hi)"
    by (cases g)
  have m: "merged ops lo acc" "acc \<noteq> [] \<Longrightarrow> snd (hd acc) < lo"
    using Cons.prems(1) g by auto
  have "groups_from ops (hi + 1) gs"
    using Cons.prems g by auto
  then have "groups_from ops k (g # gs)" if "k \<le> lo" "\<forall>i. k \<le> i \<and> i < lo \<longrightarrow> op_tag (ops ! i) = Keep" for k
    using Cons.prems(1) g that by auto
  then show ?case
    using Cons.IH [OF m, of "g # gs"] by simp
qed

lemma merge_groups_from:
  assumes "0 < ctx"
  shows "groups_from ops 0 (merge_groups (length ops) ctx [] (changed_indices ops))"
proof -
  let ?gs = "merge_groups (length ops) ctx [] (changed_indices ops)"
  have "merged ops (length ops) (rev ?gs)"
    using merge_groups_merged [of ops 0 "[]" "changed_indices ops" ctx] assms by (simp add: changed_indices_def)
  moreover from this have "rev ?gs \<noteq> [] \<Longrightarrow> snd (hd (rev ?gs)) < length ops"
    by (cases "rev ?gs") auto
  ultimately have "groups_from ops 0 (rev (rev ?gs) @ [])"
    by (rule merged_groups_from) auto
  then show ?thesis
    by simp
qed

definition hunk_at :: "op list \<Rightarrow> nat \<times> nat \<Rightarrow> hunk" where
  "hunk_at ops g = (case g of (lo, hi) \<Rightarrow> hunk_of (drop lo (take (hi + 1) ops)))"

lemma group_hunks_map:
  "group_hunks ops ctx = map (hunk_at ops) (merge_groups (length ops) ctx [] (changed_indices ops))"
  by (simp add: group_hunks_def hunk_at_def [abs_def] case_prod_beta)

lemma all_keep_sides: "\<forall>o' \<in> set ops. op_tag o' = Keep \<Longrightarrow> olds ops = news ops"
  by (induction ops) auto

lemma keep_stretch:
  assumes "\<forall>i. k \<le> i \<and> i < m \<longrightarrow> op_tag (ops ! i) = Keep" "m \<le> length ops"
  shows "\<forall>o' \<in> set (drop k (take m ops)). op_tag o' = Keep"
  using assms by (auto simp: in_set_conv_nth)

text \<open>The numbers a hunk starts at are the places where its lines stand in the two files.\<close>

lemma hunk_starts:
  assumes "numbered 1 1 (pre @ part)" "pre = [] \<or> part = [] \<or> op_tag (hd part) = Keep" "part \<noteq> []"
  shows "h_old_start (hunk_of part) = length (olds pre) + 1" "h_new_start (hunk_of part) = length (news pre) + 1"
proof -
  let ?i = "length (olds pre) + 1" and ?j = "length (news pre) + 1"
  have n: "numbered ?i ?j part"
    using assms(1) by (simp add: numbered_append)
  have "pre = [] \<or> olds part \<noteq> [] \<and> news part \<noteq> []"
    using assms(2,3) by (cases part) auto
  with first_line_old [OF n] first_line_new [OF n] show
    "h_old_start (hunk_of part) = ?i" "h_new_start (hunk_of part) = ?j"
    by (auto simp: hunk_of_def)
qed

lemma apply_hunk_step:
  assumes "h_old_start h = n + length pre + 1" "h_old_count h = length (olds (h_lines h))"
    and "apply_hunks (n + length pre + length (olds (h_lines h))) hs rest = Some out"
  shows "apply_hunks n (h # hs) (pre @ olds (h_lines h) @ rest) = Some (pre @ news (h_lines h) @ out)"
  using assms by (simp add: Let_def apply_lines_sides)

lemma apply_hunks_groups:
  assumes "groups_from ops k gs" "numbered 1 1 ops" "k \<le> length ops"
  shows "apply_hunks (length (olds (take k ops))) (map (hunk_at ops) gs) (olds (drop k ops)) = Some (news (drop k ops))"
  using assms
proof (induction gs arbitrary: k)
  case Nil
  then have "\<forall>o' \<in> set (drop k ops). op_tag o' = Keep"
    using keep_stretch [of k "length ops" ops] by simp
  then show ?case
    by (simp add: all_keep_sides)
next
  case (Cons g gs)
  obtain lo hi where g: "g = (lo, hi)"
    by (cases g)
  let ?gap = "drop k (take lo ops)" and ?part = "drop lo (take (hi + 1) ops)" and ?rest = "drop (hi + 1) ops"
  have le: "k \<le> lo" "lo \<le> hi" "hi < length ops" and lo: "lo = 0 \<or> op_tag (ops ! lo) = Keep"
    using Cons.prems(1) g by auto
  have split: "ops = take lo ops @ ?part @ ?rest" "take lo ops = take k ops @ ?gap" "drop k ops = ?gap @ ?part @ ?rest"
  proof -
    have t: "take m ops = take n ops @ drop n (take m ops)" if "n \<le> m" for n m
      using that by (metis append_take_drop_id min.absorb1 take_take)
    show ops: "ops = take lo ops @ ?part @ ?rest"
      using t [of lo "hi + 1"] le by (metis append.assoc append_take_drop_id le_Suc_eq Suc_eq_plus1)
    show "take lo ops = take k ops @ ?gap"
      using t le by simp
    show "drop k ops = ?gap @ ?part @ ?rest"
      by (subst ops, subst drop_append) (use le in simp)
  qed
  have "\<forall>o' \<in> set ?gap. op_tag o' = Keep"
    using Cons.prems(1) g le by (intro keep_stretch) auto
  then have gap: "olds ?gap = news ?gap"
    by (rule all_keep_sides)
  have part: "?part \<noteq> []" "hd ?part = ops ! lo"
    using le by (auto simp: hd_drop_conv_nth)
  have num: "numbered 1 1 (take lo ops @ ?part)" "numbered (1 + length (olds (take lo ops))) (1 + length (news (take lo ops))) ?part"
    using Cons.prems(2) split(1) by (metis append.assoc numbered_append)+
  have pre: "olds (take lo ops) = olds (take k ops) @ olds ?gap"
    by (rule arg_cong [OF split(2), of olds, unfolded sides_simps])
  have start: "h_old_start (hunk_of ?part) = length (olds (take lo ops)) + 1"
    using hunk_starts(1) [OF num(1)] part lo by auto
  have count: "h_old_count (hunk_of ?part) = length (olds ?part)"
    by (rule hunk_counts(1) [OF num(2)])
  have "take (hi + 1) ops = take lo ops @ ?part"
    using le by (metis append_take_drop_id le_Suc_eq Suc_eq_plus1 min.absorb1 take_take)
  then have "olds (take (hi + 1) ops) = olds (take k ops) @ olds ?gap @ olds ?part"
    using arg_cong [of _ _ olds] pre by (metis append.assoc sides_simps(7))
  then have "apply_hunks (length (olds (take k ops)) + length (olds ?gap) + length (olds ?part)) (map (hunk_at ops) gs) (olds ?rest) =
      Some (news ?rest)"
    using Cons.IH [of "hi + 1"] Cons.prems(1,2) g le by (simp add: add.assoc)
  then have "apply_hunks (length (olds (take k ops))) (hunk_of ?part # map (hunk_at ops) gs) (olds ?gap @ olds ?part @ olds ?rest) =
      Some (olds ?gap @ news ?part @ news ?rest)"
    using apply_hunk_step [of "hunk_of ?part" _ "olds ?gap"] start pre count by (simp only: h_lines_hunk_of length_append)
  moreover have "hunk_at ops g = hunk_of ?part"
    by (simp add: g hunk_at_def)
  ultimately show ?case
    by (simp only: split(3) gap sides_simps list.map)
qed

lemma common_prefix_refl [simp]: "common_prefix xs xs = length xs"
  by (induction xs) auto

lemma diff_ops_same: "diff_ops xs xs = keeps xs 1 1"
  by (simp add: diff_ops_def MAX_LCS_LINES_def lcs_ops_def lcs_walk.simps)

lemma changed_keeps: "changed_indices (keeps ts i j) = []"
proof -
  have "\<forall>o' \<in> set (keeps ts i j). op_tag o' = Keep"
    by (induction ts arbitrary: i j) auto
  then show ?thesis
    by (simp add: changed_indices_def)
qed

lemma group_hunks_empty:
  assumes "0 < ctx"
  shows "group_hunks (diff_ops old new) ctx = [] \<longleftrightarrow> old = new"
proof
  assume "group_hunks (diff_ops old new) ctx = []"
  then have "groups_from (diff_ops old new) 0 []"
    using merge_groups_from [OF assms, of "diff_ops old new"] by (simp add: group_hunks_map)
  then have "olds (diff_ops old new) = news (diff_ops old new)"
    by (intro all_keep_sides) (auto simp: in_set_conv_nth)
  then show "old = new"
    by (simp add: diff_ops_sides)
qed (simp add: diff_ops_same group_hunks_def changed_keeps)

text \<open>
  C18 (roundtrip). The diff the user is shown carries the whole change. With at least one line of
  context, reading the hunks back on the old lines (each at the line number its header gives, each
  kept or deleted line checked against the old file) never fails and gives exactly the new lines,
  whatever the two inputs, the large ones past the table limit included; the hunks are empty exactly
  when no line changes.
\<close>
theorem patch_roundtrip:
  assumes "0 < ctx"
  shows "apply_hunks 0 (group_hunks (diff_ops old new) ctx) old = Some new \<and>
         (group_hunks (diff_ops old new) ctx = [] \<longleftrightarrow> old = new)"
  using apply_hunks_groups [OF merge_groups_from [OF assms] diff_ops_sides(3), of old new] group_hunks_empty [OF assms]
  by (simp add: group_hunks_map diff_ops_sides(1,2))

theorem patch_roundtrip_witness:
  "apply_hunks 0 (group_hunks (diff_ops [[97], [98], [99]] [[97], [100], [99], [101]]) 3) [[97], [98], [99]] =
     Some [[97], [100], [99], [101]] \<and>
   group_hunks (diff_ops [[97], [98], [99]] [[97], [100], [99], [101]]) 3 \<noteq> []"
  using patch_roundtrip [of 3 "[[97], [98], [99]]" "[[97], [100], [99], [101]]"] by simp

text \<open>
  C35 (equivalence). The diff is minimal. For files within the table limit, the lines the script
  keeps are a common subsequence of the two files and no common subsequence is longer: the trimming
  of the common head and tail and the walk through the table lose nothing against the reference, and
  the counts of added and removed lines that the preview reports are the smallest possible.
\<close>
theorem diff_minimal:
  assumes "length old \<le> MAX_LCS_LINES" "length new \<le> MAX_LCS_LINES"
  shows "subseq (kept (diff_ops old new)) old \<and> subseq (kept (diff_ops old new)) new \<and>
         (\<forall>zs. subseq zs old \<and> subseq zs new \<longrightarrow> length zs \<le> length (kept (diff_ops old new)))"
  using subseq_kept [of "diff_ops old new"] lcs_len_max [of _ old new]
  by (simp add: diff_ops_sides diff_ops_kept [OF assms])

theorem diff_minimal_witness:
  "kept (diff_ops [[97], [98], [99], [100]] [[98], [97], [98], [100]]) = [[97], [98], [100]] \<and>
   2 \<le> length (kept (diff_ops [[97], [98], [99], [100]] [[98], [97], [98], [100]]))"
proof
  show "kept (diff_ops [[97], [98], [99], [100]] [[98], [97], [98], [100]]) = [[97], [98], [100]]"
    by code_simp
  show "2 \<le> length (kept (diff_ops [[97], [98], [99], [100]] [[98], [97], [98], [100]]))"
    using diff_minimal [of "[[97], [98], [99], [100]]" "[[98], [97], [98], [100]]"]
    by (force simp: MAX_LCS_LINES_def dest: spec [of _ "[[98], [100]]"])
qed

text \<open>Without context a hunk of pure insertions has no old line to name, so it claims line 1.\<close>

lemma no_context_misplaced:
  "apply_hunks 0 (group_hunks (diff_ops [[97], [98]] [[97], [99], [98]]) 0) [[97], [98]] = Some [[99], [97], [98]]"
  by code_simp

text \<open>The preview compares lines only: a change of the final newline alone is not shown.\<close>

lemma final_newline_unseen: "fd_unified (unified_diff path [97] [97, 10] 3) = []"
  using group_hunks_empty [of 3 "[[97]]" "[[97]]"] by (simp add: unified_diff_def split_lines_def Let_def)

end
