(* ===== verification/Workspace_Paths.thy ===== *)
theory Workspace_Paths
  imports Prelude
begin

text \<open>
  Confinement of tool paths to the workspace (\<open>resolve\_target\_in\<close>, \<open>safe\_join\<close>,
  \<open>lexical\_normalize\<close> and \<open>canonicalize\_partial\<close> of \<open>tools/src/files.rs\<close>), on Unix paths.
  What the operating system answers is a record of functions; \<open>links\_resolved\<close> states what
  \<open>realpath\<close> promises about them.
\<close>

section \<open>Paths\<close>

text \<open>
  \<open>Path::components\<close>: separators and inner dots vanish, a leading dot of a relative path stays.
  A canonical path is its list of names.
\<close>

datatype component = CurDir | ParentDir | Normal ustr

type_synonym path = "ustr list"

record raw_path =
  absolute :: bool
  components :: "component list"

definition component_of :: "ustr \<Rightarrow> component" where
  "component_of w = (if w = lit ''..'' then ParentDir else Normal w)"

definition raw_of :: "ustr \<Rightarrow> raw_path" where
  "raw_of s =
     (let ws = str_split (\<lambda>c. c = 47) s;
          names = map component_of (filter (\<lambda>w. w \<noteq> [] \<and> w \<noteq> lit ''.'') ws)
      in \<lparr>absolute = starts_with s (lit ''/''), components = (if hd ws = lit ''.'' then CurDir # names else names)\<rparr>)"

definition raw_abs :: "path \<Rightarrow> raw_path" where
  "raw_abs p = \<lparr>absolute = True, components = map Normal p\<rparr>"

section \<open>The file system as the code sees it\<close>

datatype link_kind = Link | Present | Missing | Failing

record fs_view =
  canon :: "raw_path \<Rightarrow> path option"
  lstat :: "path \<Rightarrow> link_kind"
  fs_exists :: "raw_path \<Rightarrow> bool"
  fs_is_dir :: "raw_path \<Rightarrow> bool"
  fs_cwd :: "path option"

datatype path_error = Io | Escapes | Outside | Root_Not_Found

section \<open>Resolution\<close>

text \<open>\<open>PathBuf::pop\<close> at the root does nothing.\<close>

fun normalize_step :: "component \<Rightarrow> path \<Rightarrow> path" where
  "normalize_step CurDir out = out"
| "normalize_step ParentDir out = butlast out"
| "normalize_step (Normal n) out = out @ [n]"

definition lexical_normalize :: "component list \<Rightarrow> path" where
  "lexical_normalize cs = fold normalize_step cs []"

fun resolve_names :: "fs_view \<Rightarrow> path \<Rightarrow> path \<Rightarrow> path \<Rightarrow> path_error + path" where
  "resolve_names fs root resolved [] = Inr resolved"
| "resolve_names fs root resolved (n # ns) =
     (let nxt = resolved @ [n]
      in case lstat fs nxt of
           Link \<Rightarrow>
             (case canon fs (raw_abs nxt) of
                None \<Rightarrow> Inl Io
              | Some target \<Rightarrow>
                  if starts_with target root then resolve_names fs root target ns else Inl Escapes)
         | Present \<Rightarrow> resolve_names fs root nxt ns
         | Missing \<Rightarrow> resolve_names fs root nxt ns
         | Failing \<Rightarrow> Inl Io)"

definition safe_join :: "fs_view \<Rightarrow> path \<Rightarrow> ustr \<Rightarrow> path_error + path" where
  "safe_join fs root path =
     (let cleaned = trim_start_matches (\<lambda>c. c = 47) path
      in case canon fs (raw_abs root) of
           None \<Rightarrow> Inl Io
         | Some root_canon \<Rightarrow>
             let candidate = lexical_normalize (map Normal root_canon @ components (raw_of cleaned))
             in case strip_prefix root_canon candidate of
                  None \<Rightarrow> Inl Escapes
                | Some relative \<Rightarrow>
                    (case resolve_names fs root_canon root_canon relative of
                       Inl e \<Rightarrow> Inl e
                     | Inr resolved \<Rightarrow> if starts_with resolved root_canon then Inr resolved else Inl Escapes))"

text \<open>
  The walk to the deepest existing ancestor; \<open>file\_name\<close> is \<open>None\<close> at the root and after a
  \<open>..\<close>. The components are held in reverse.
\<close>

fun existing_base :: "fs_view \<Rightarrow> bool \<Rightarrow> component list \<Rightarrow> ustr list \<Rightarrow> component list \<times> ustr list" where
  "existing_base fs abs' (Normal n # rcs) rest =
     (if fs_exists fs \<lparr>absolute = abs', components = rev (Normal n # rcs)\<rparr> then (rev (Normal n # rcs), rest)
      else existing_base fs abs' rcs (n # rest))"
| "existing_base fs abs' rcs rest = (rev rcs, rest)"

definition canonicalize_partial :: "fs_view \<Rightarrow> raw_path \<Rightarrow> path option" where
  "canonicalize_partial fs p =
     (case canon fs p of
        Some c \<Rightarrow> Some c
      | None \<Rightarrow>
          (case existing_base fs (absolute p) (rev (components p)) [] of
             (existing, rest) \<Rightarrow>
               map_option (\<lambda>base. base @ rest) (canon fs \<lparr>absolute = absolute p, components = existing\<rparr>)))"

fun read_only_root :: "fs_view \<Rightarrow> path \<Rightarrow> ustr list \<Rightarrow> path_error + (path \<times> bool)" where
  "read_only_root fs target [] = Inl Outside"
| "read_only_root fs target (extra # extras) =
     (let trimmed = trim extra
      in if trimmed = [] \<or> \<not> fs_is_dir fs (raw_of trimmed) then read_only_root fs target extras
         else case canon fs (raw_of trimmed) of
                None \<Rightarrow> Inl Io
              | Some c \<Rightarrow> if starts_with target c then Inr (target, False) else read_only_root fs target extras)"

definition resolve_target_in :: "fs_view \<Rightarrow> path \<Rightarrow> ustr list \<Rightarrow> ustr \<Rightarrow> path_error + (path \<times> bool)" where
  "resolve_target_in fs main additional path =
     (if absolute (raw_of path) then
        (case canonicalize_partial fs (raw_of path) of
           None \<Rightarrow> Inl Io
         | Some target \<Rightarrow>
             if starts_with target main then Inr (target, True) else read_only_root fs target additional)
      else map_sum (\<lambda>e. e) (\<lambda>p. (p, True)) (safe_join fs main path))"

definition resolve_context_root :: "fs_view \<Rightarrow> ustr option \<Rightarrow> path_error + path" where
  "resolve_context_root fs root_path =
     (case root_path of
        Some root \<Rightarrow>
          if \<not> fs_is_dir fs (raw_of root) then Inl Root_Not_Found
          else (case canon fs (raw_of root) of None \<Rightarrow> Inl Io | Some p \<Rightarrow> Inr p)
      | None \<Rightarrow>
          (case fs_cwd fs of
             None \<Rightarrow> Inl Io
           | Some d \<Rightarrow> (case canon fs (raw_abs d) of None \<Rightarrow> Inl Io | Some p \<Rightarrow> Inr p)))"

definition resolve_target :: "fs_view \<Rightarrow> ustr option \<Rightarrow> ustr list \<Rightarrow> ustr \<Rightarrow> path_error + (path \<times> bool)" where
  "resolve_target fs root_path additional path =
     (case resolve_context_root fs root_path of
        Inl e \<Rightarrow> Inl e
      | Inr main \<Rightarrow> resolve_target_in fs main additional path)"

section \<open>Confinement\<close>

text \<open>What \<open>realpath\<close> promises: no prefix of its answer is a symbolic link.\<close>

definition links_resolved :: "fs_view \<Rightarrow> bool" where
  "links_resolved fs \<longleftrightarrow> (\<forall>p q r. canon fs p = Some r \<and> prefix q r \<longrightarrow> lstat fs q \<noteq> Link)"

definition link_free :: "fs_view \<Rightarrow> path \<Rightarrow> bool" where
  "link_free fs p \<longleftrightarrow> (\<forall>q. prefix q p \<longrightarrow> lstat fs q \<noteq> Link)"

lemma link_free_canon: "links_resolved fs \<Longrightarrow> canon fs p = Some r \<Longrightarrow> link_free fs r"
  by (auto simp: links_resolved_def link_free_def)

lemma link_free_snoc: "link_free fs (p @ [n]) \<longleftrightarrow> link_free fs p \<and> lstat fs (p @ [n]) \<noteq> Link"
  by (auto simp: link_free_def prefix_snoc)

lemma starts_with_prefix: "starts_with p q \<longleftrightarrow> prefix q p"
  by (auto simp: starts_with_iff prefix_def)

lemma resolve_names_link_free:
  assumes "links_resolved fs" "link_free fs resolved" "resolve_names fs root resolved ns = Inr p"
  shows "link_free fs p"
  using assms(2,3)
proof (induction ns arbitrary: resolved)
  case (Cons n ns)
  have *: "link_free fs (resolved @ [n])" if "lstat fs (resolved @ [n]) \<noteq> Link"
    using that Cons.prems(1) by (simp add: link_free_snoc)
  show ?case
    using Cons * link_free_canon [OF assms(1)]
    by (auto simp: Let_def split: link_kind.splits option.splits if_splits)
qed simp

lemma safe_join_ok:
  assumes "safe_join fs root path = Inr p"
  obtains c where "canon fs (raw_abs root) = Some c" "prefix c p" "links_resolved fs \<Longrightarrow> link_free fs p"
proof -
  obtain c where c: "canon fs (raw_abs root) = Some c"
    using assms by (auto simp: safe_join_def split: option.splits)
  with assms obtain rel where r: "resolve_names fs c c rel = Inr p" and p: "starts_with p c"
    by (auto simp: safe_join_def Let_def split: option.splits sum.splits if_splits)
  have "link_free fs p" if "links_resolved fs"
    using resolve_names_link_free [OF that link_free_canon [OF that c] r] .
  with c p that show thesis
    by (simp add: starts_with_prefix)
qed

lemma read_only_root_ok:
  "read_only_root fs target extras = Inr (p, w) \<Longrightarrow>
     p = target \<and> \<not> w \<and> (\<exists>e \<in> set extras. \<exists>c. canon fs (raw_of (trim e)) = Some c \<and> prefix c p)"
  by (induction extras) (auto simp: Let_def starts_with_prefix split: if_splits option.splits)

lemma existing_base_ok:
  assumes "existing_base fs a rcs rest = (existing, rest')"
  obtains miss where "rest' = miss @ rest" "rev rcs = existing @ map Normal miss"
    "miss \<noteq> [] \<Longrightarrow> \<not> fs_exists fs \<lparr>absolute = a, components = existing @ [Normal (hd miss)]\<rparr>"
  using assms
proof (induction fs a rcs rest arbitrary: thesis rule: existing_base.induct)
  case (1 fs a n rcs rest)
  show ?case
  proof (cases "fs_exists fs \<lparr>absolute = a, components = rev (Normal n # rcs)\<rparr>")
    case True
    with 1(2) [of "[]"] 1(3) show ?thesis
      by auto
  next
    case False
    with 1(3) have "existing_base fs a rcs (n # rest) = (existing, rest')"
      by simp
    then obtain miss where m: "rest' = miss @ n # rest" "rev rcs = existing @ map Normal miss"
      "miss \<noteq> [] \<Longrightarrow> \<not> fs_exists fs \<lparr>absolute = a, components = existing @ [Normal (hd miss)]\<rparr>"
      using 1(1) [OF False] by metis
    with False 1(2) [of "miss @ [n]"] show ?thesis
      by (cases miss) auto
  qed
qed auto

lemma canonicalize_partial_ok:
  assumes "canonicalize_partial fs p = Some q"
  obtains base miss existing where "q = base @ miss" "canon fs \<lparr>absolute = absolute p, components = existing\<rparr> = Some base"
    "components p = existing @ map Normal miss"
    "miss \<noteq> [] \<Longrightarrow> \<not> fs_exists fs \<lparr>absolute = absolute p, components = existing @ [Normal (hd miss)]\<rparr>"
proof (cases "canon fs p")
  case None
  obtain existing rest where e: "existing_base fs (absolute p) (rev (components p)) [] = (existing, rest)"
    by (cases "existing_base fs (absolute p) (rev (components p)) []")
  with None assms obtain base where b: "q = base @ rest" "canon fs \<lparr>absolute = absolute p, components = existing\<rparr> = Some base"
    by (auto simp: canonicalize_partial_def)
  from existing_base_ok [OF e] b show thesis
    using that [of base rest existing] by (metis append_Nil2 rev_rev_ident)
next
  case (Some c)
  moreover have "p = \<lparr>absolute = absolute p, components = components p\<rparr>"
    by simp
  ultimately have "canon fs \<lparr>absolute = absolute p, components = components p\<rparr> = Some q"
    using assms by (simp only: canonicalize_partial_def option.case)
  then show thesis
    using that [of q "[]" "components p"] by simp
qed

text \<open>The answers of \<open>realpath\<close> hold no link and are their own canonical form.\<close>

definition realpath_ok :: "fs_view \<Rightarrow> bool" where
  "realpath_ok fs \<longleftrightarrow> links_resolved fs \<and> (\<forall>p r. canon fs p = Some r \<longrightarrow> canon fs (raw_abs r) = Some r)"

text \<open>
  What an absolute path becomes: a link-free canonical base, followed by names of which the first
  is found missing when links are followed. Such a name may be a link that leads nowhere.
\<close>

definition below_missing :: "fs_view \<Rightarrow> path \<Rightarrow> bool" where
  "below_missing fs p \<longleftrightarrow>
     (\<exists>base miss. p = base @ miss \<and> link_free fs base \<and>
        (miss \<noteq> [] \<longrightarrow> (\<exists>r. canon fs r = Some base \<and>
           \<not> fs_exists fs (r\<lparr>components := components r @ [Normal (hd miss)]\<rparr>))))"

lemma canonicalize_partial_below:
  assumes "canonicalize_partial fs p = Some q" "links_resolved fs"
  shows "below_missing fs q"
proof -
  obtain base miss existing where "q = base @ miss" and c: "canon fs \<lparr>absolute = absolute p, components = existing\<rparr> = Some base"
    and m: "miss \<noteq> [] \<Longrightarrow> \<not> fs_exists fs \<lparr>absolute = absolute p, components = existing @ [Normal (hd miss)]\<rparr>"
    using canonicalize_partial_ok [OF assms(1)] by metis
  then show ?thesis
    unfolding below_missing_def
    by (intro exI [of _ base] exI [of _ miss] conjI impI exI [of _ "\<lparr>absolute = absolute p, components = existing\<rparr>"])
       (use link_free_canon [OF assms(2) c] c m in auto)
qed

definition free_of_links :: "fs_view \<Rightarrow> ustr \<Rightarrow> path \<Rightarrow> bool" where
  "free_of_links fs asked p \<longleftrightarrow> (if absolute (raw_of asked) then below_missing fs p else link_free fs p)"

lemma resolve_target_in_ok:
  assumes "resolve_target_in fs main additional path = Inr (p, w)" "realpath_ok fs" "canon fs (raw_abs main) = Some main"
  shows "free_of_links fs path p"
    and "if w then prefix main p
         else \<exists>e \<in> set additional. \<exists>c. canon fs (raw_of (trim e)) = Some c \<and> prefix c p"
proof -
  have l: "links_resolved fs"
    using assms(2) by (simp add: realpath_ok_def)
  have "free_of_links fs path p \<and> (if w then prefix main p
         else \<exists>e \<in> set additional. \<exists>c. canon fs (raw_of (trim e)) = Some c \<and> prefix c p)"
  proof (cases "absolute (raw_of path)")
    case True
    with assms(1) obtain t where t: "canonicalize_partial fs (raw_of path) = Some t"
      and r: "if starts_with t main then (p, w) = (t, True) else read_only_root fs t additional = Inr (p, w)"
      by (auto simp: resolve_target_in_def split: option.splits if_splits)
    from r have "p = t"
      using read_only_root_ok by (metis prod.inject)
    with canonicalize_partial_below [OF t l] r True show ?thesis
      using read_only_root_ok [of fs t additional p w]
      by (simp add: free_of_links_def starts_with_prefix split: if_splits)
  next
    case False
    with assms(1) have j: "safe_join fs main path = Inr p" and w
      by (auto simp: resolve_target_in_def map_sum_def split: sum.splits)
    with l assms(3) False show ?thesis
      by (elim safe_join_ok) (auto simp: free_of_links_def)
  qed
  then show "free_of_links fs path p" and "if w then prefix main p
         else \<exists>e \<in> set additional. \<exists>c. canon fs (raw_of (trim e)) = Some c \<and> prefix c p"
    by simp_all
qed

lemma resolve_confined_aux:
  assumes "realpath_ok fs" "resolve_target fs root_path additional path = Inr (p, w)"
  shows "\<exists>main. resolve_context_root fs root_path = Inr main \<and> free_of_links fs path p \<and>
           (if w then prefix main p
            else \<exists>e \<in> set additional. \<exists>c. canon fs (raw_of (trim e)) = Some c \<and> prefix c p)"
proof -
  obtain main where m: "resolve_context_root fs root_path = Inr main"
    and r: "resolve_target_in fs main additional path = Inr (p, w)"
    using assms(2) by (auto simp: resolve_target_def split: sum.splits)
  have "canon fs (raw_abs main) = Some main"
    using m assms(1) by (auto simp: resolve_context_root_def realpath_ok_def split: option.splits if_splits)
  with m resolve_target_in_ok [OF r assms(1)] show ?thesis
    by blast
qed

text \<open>
  C6 (safety). A tool path cannot leave the folders of the run. Whatever string the model sends
  (\<open>..\<close>, absolute, through symbolic links, existing or not), a path that \<open>resolve\_target\<close> accepts as
  writable lies inside the canonical project root, and one accepted as read-only lies inside the
  canonical form of one of the additional folders. The answer to a relative path has no symbolic link
  in it at all; the answer to an absolute path is a link-free canonical path, followed at most by
  names of which the first is missing when links are followed, so that only a link leading nowhere
  can be left in it. The hypothesis is what \<open>realpath\<close> promises.
\<close>
theorem resolve_confined:
  assumes "realpath_ok fs" "resolve_target fs root_path additional path = Inr (p, w)"
  shows "\<exists>main. resolve_context_root fs root_path = Inr main \<and>
           (if absolute (raw_of path) then below_missing fs p else link_free fs p) \<and>
           (if w then prefix main p
            else \<exists>e \<in> set additional. \<exists>c. canon fs (raw_of (trim e)) = Some c \<and> prefix c p)"
  using resolve_confined_aux [OF assms] by (simp add: free_of_links_def)

text \<open>A folder \<open>/w\<close> with a link \<open>/w/l\<close> to \<open>/w/d\<close> and a link \<open>/w/x\<close> to \<open>/e\<close>.\<close>

definition demo_fs :: fs_view where
  "demo_fs =
     \<lparr>canon = (\<lambda>r. if r \<in> {raw_abs [lit ''w'']} then Some [lit ''w'']
                   else if r \<in> {raw_abs [lit ''w'', lit ''d''], raw_abs [lit ''w'', lit ''l'']} then Some [lit ''w'', lit ''d'']
                   else if r \<in> {raw_abs [lit ''e''], raw_abs [lit ''w'', lit ''x'']} then Some [lit ''e''] else None),
      lstat = (\<lambda>p. if p \<in> {[lit ''w'', lit ''l''], [lit ''w'', lit ''x'']} then Link
                   else if p \<in> {[lit ''w''], [lit ''w'', lit ''d''], [lit ''e'']} then Present else Missing),
      fs_exists = (\<lambda>r. False), fs_is_dir = (\<lambda>r. r = raw_abs [lit ''w'']), fs_cwd = None\<rparr>"

lemma demo_fs_realpath: "realpath_ok demo_fs"
  unfolding realpath_ok_def links_resolved_def
  by (auto simp: demo_fs_def raw_abs_def prefix_Cons split: if_splits)

theorem resolve_confined_witness:
  "resolve_target demo_fs (Some (lit ''/w'')) [] (lit ''x/f'') = Inl Escapes \<and>
   resolve_target demo_fs (Some (lit ''/w'')) [] (lit ''l/../../e'') = Inl Escapes \<and>
   resolve_target demo_fs (Some (lit ''/w'')) [] (lit ''l/n'') = Inr ([lit ''w'', lit ''d'', lit ''n''], True) \<and>
   link_free demo_fs [lit ''w'', lit ''d'', lit ''n'']"
proof (intro conjI)
  show "resolve_target demo_fs (Some (lit ''/w'')) [] (lit ''x/f'') = Inl Escapes" by code_simp
  show "resolve_target demo_fs (Some (lit ''/w'')) [] (lit ''l/../../e'') = Inl Escapes" by code_simp
  show r: "resolve_target demo_fs (Some (lit ''/w'')) [] (lit ''l/n'') = Inr ([lit ''w'', lit ''d'', lit ''n''], True)"
    by code_simp
  have "\<not> absolute (raw_of (lit ''l/n''))" by code_simp
  then show "link_free demo_fs [lit ''w'', lit ''d'', lit ''n'']"
    using resolve_confined [OF demo_fs_realpath r] by auto
qed

text \<open>
  A link in the root that leads nowhere: refused as a relative path, because a link is the escape
  route, and accepted as writable when the same path is given absolutely.
\<close>

lemma dangling_link_accepted:
  "(let fs = demo_fs\<lparr>lstat := (\<lambda>p. if p = [lit ''w'', lit ''k''] then Link else lstat demo_fs p),
               fs_exists := (\<lambda>r. r \<in> {raw_abs [], raw_abs [lit ''w'']})\<rparr>
    in resolve_target fs (Some (lit ''/w'')) [] (lit ''k'') = Inl Io \<and>
       resolve_target fs (Some (lit ''/w'')) [] (lit ''/w/k'') = Inr ([lit ''w'', lit ''k''], True))"
  by code_simp

end
