(* ===== verification/File_Read.thy ===== *)
theory File_Read
  imports Json Workspace_Paths
begin

text \<open>
  Paged reading of files (\<open>read\_page\<close> of \<open>tools/src/files.rs\<close>): the default page and byte budget,
  explicit windows, the numbered lines and the offset of the next page. A file over the inline limit
  is answered by \<open>read\_head\_tail\<close>, which cuts raw bytes and is not modelled; the fingerprint (a
  SipHash of the content) is a parameter.
\<close>

section \<open>Files\<close>

text \<open>
  What a path holds: a folder, a text with its permission bits, or bytes that are not UTF-8 (their
  permission bits and number).
\<close>

datatype node = Folder | Text_File nat ustr | Raw_File nat nat

type_synonym disk = "path \<Rightarrow> node option"

fun node_len :: "node \<Rightarrow> nat" where
  "node_len Folder = 0"
| "node_len (Text_File m s) = utf8_len s"
| "node_len (Raw_File m n) = n"

section \<open>One page\<close>

definition MAX_READ_BYTES :: nat where "MAX_READ_BYTES = 131072"
definition DEFAULT_READ_LINES :: nat where "DEFAULT_READ_LINES = 400"
definition DEFAULT_READ_BYTES :: nat where "DEFAULT_READ_BYTES = 49152"

record file_page =
  pg_path :: ustr
  pg_content :: ustr
  pg_start_line :: nat
  pg_end_line :: nat
  pg_total_lines :: nat
  pg_has_more :: bool
  pg_next_offset :: "nat option"
  pg_truncated :: bool
  pg_fingerprint :: u64

text \<open>\<open>{:>6}\<close> followed by a tab.\<close>

definition pad_left :: "nat \<Rightarrow> ustr \<Rightarrow> ustr" where
  "pad_left w s = replicate (w - length s) 32 @ s"

definition line_prefix :: "nat \<Rightarrow> ustr" where
  "line_prefix n = pad_left 6 (show_nat n) @ [9]"

definition truncate_to_char_boundary :: "ustr \<Rightarrow> nat \<Rightarrow> ustr" where
  "truncate_to_char_boundary s n = utf8_take n s"

fun page_loop :: "nat \<Rightarrow> nat \<Rightarrow> nat \<Rightarrow> nat \<Rightarrow> ustr list \<Rightarrow> ustr \<Rightarrow> nat \<Rightarrow> ustr \<times> nat" where
  "page_loop byte_budget limit start_line offset [] content end_line = (content, end_line)"
| "page_loop byte_budget limit start_line offset (line # ls) content end_line =
     (if offset \<ge> limit then (content, end_line)
      else
        let line_no = start_line + offset;
            formatted = line_prefix line_no @ line;
            needed = utf8_len formatted + (if content = [] then 0 else 1)
        in if utf8_len content + needed > byte_budget then
             (if content = [] then
                (line_prefix line_no @
                   truncate_to_char_boundary line (byte_budget - utf8_len (line_prefix line_no)), line_no)
              else (content, end_line))
           else page_loop byte_budget limit start_line (offset + 1) ls
                  ((if content = [] then [] else content @ [10]) @ formatted) line_no)"

definition page_of_lines :: "ustr list \<Rightarrow> nat \<Rightarrow> nat \<Rightarrow> nat \<Rightarrow> ustr \<times> nat" where
  "page_of_lines ls start_line limit byte_budget =
     (if ls = [] then ([], start_line - 1)
      else page_loop byte_budget limit start_line 0 (drop (start_line - 1) ls) [] (start_line - 1))"

definition read_page_text :: "(ustr \<Rightarrow> u64) \<Rightarrow> ustr \<Rightarrow> json \<Rightarrow> ustr \<Rightarrow> file_page" where
  "read_page_text fingerprint_of full args display =
     (let ls = str_lines full;
          total_lines = length ls;
          offset = (case Option.bind (jget args ''offset'') as_u64 of Some n \<Rightarrow> max (unat n) 1 | None \<Rightarrow> 1);
          start_line = min offset (max total_lines 1);
          explicit_limit = Option.bind (jget args ''limit'') as_u64;
          limit = (case explicit_limit of
                     Some n \<Rightarrow> (if unat n < 1 then 1 else if unat n > 100000 then 100000 else unat n)
                   | None \<Rightarrow> DEFAULT_READ_LINES);
          byte_budget = (if explicit_limit \<noteq> None then MAX_READ_BYTES else DEFAULT_READ_BYTES)
      in case page_of_lines ls start_line limit byte_budget of
           (content, end_line) \<Rightarrow>
             \<lparr>pg_path = display, pg_content = content,
              pg_start_line = (if total_lines = 0 then 0 else start_line), pg_end_line = end_line,
              pg_total_lines = total_lines, pg_has_more = end_line < total_lines,
              pg_next_offset = (if end_line < total_lines then Some (end_line + 1) else None),
              pg_truncated = False, pg_fingerprint = fingerprint_of full\<rparr>)"

datatype read_error = Not_Found | Is_Folder | Not_Text

datatype read_answer = Page file_page | Head_Tail

definition read_page :: "(ustr \<Rightarrow> u64) \<Rightarrow> disk \<Rightarrow> path \<Rightarrow> json \<Rightarrow> ustr \<Rightarrow> read_error + read_answer" where
  "read_page fingerprint_of d path args display =
     (case d path of
        None \<Rightarrow> Inl Not_Found
      | Some Folder \<Rightarrow> Inl Is_Folder
      | Some node \<Rightarrow>
          if node_len node > MAX_READ_BYTES then Inr Head_Tail
          else (case node of
                  Text_File m full \<Rightarrow> Inr (Page (read_page_text fingerprint_of full args display))
                | _ \<Rightarrow> Inl Not_Text))"

section \<open>Paging covers the file\<close>

text \<open>The text of lines \<open>a\<close> to \<open>b\<close> with their numbers.\<close>

definition numbered_text :: "ustr list \<Rightarrow> nat \<Rightarrow> nat \<Rightarrow> ustr" where
  "numbered_text ls a b = str_join [10] (map (\<lambda>n. line_prefix n @ ls ! (n - 1)) [a..<b + 1])"

definition numbered_lines :: "nat \<Rightarrow> ustr list \<Rightarrow> ustr list" where
  "numbered_lines a ls = map (\<lambda>(n, l). line_prefix n @ l) (zip [a..<a + length ls] ls)"

lemma numbered_lines_simps [simp]:
  "numbered_lines a [] = []"
  "numbered_lines a (l # ls) = (line_prefix a @ l) # numbered_lines (Suc a) ls"
  by (simp_all add: numbered_lines_def upt_conv_Cons del: upt_Suc)

lemma numbered_text_lines:
  "1 \<le> a \<Longrightarrow> a - 1 + k \<le> length ls \<Longrightarrow>
     numbered_text ls a (a - 1 + k) = str_join [10] (numbered_lines a (take k (drop (a - 1) ls)))"
proof -
  assume a: "1 \<le> a" "a - 1 + k \<le> length ls"
  then have "map (\<lambda>n. line_prefix n @ ls ! (n - 1)) [a..<a - 1 + k + 1] = numbered_lines a (take k (drop (a - 1) ls))"
    by (intro nth_equalityI) (auto simp: numbered_lines_def simp del: upt_Suc)
  then show ?thesis
    by (simp add: numbered_text_def)
qed

lemma str_join_push:
  "str_join sep ((x @ y) # zs) = x @ str_join sep (y # zs)"
  "str_join sep ((c # y) # zs) = c # str_join sep (y # zs)"
  by (cases zs; simp)+

lemma line_prefix_ne [simp]: "line_prefix n \<noteq> []"
  by (simp add: line_prefix_def)

text \<open>When every line fits the budget alone, the loop appends whole numbered lines only.\<close>

lemma page_loop_ok:
  assumes "page_loop budget limit start offset ls content e = (content', e')"
    and "\<forall>l \<in> set ls. \<forall>n < start + offset + length ls. utf8_len (line_prefix n @ l) \<le> budget"
  shows "\<exists>k \<le> length ls.
     content' = str_join [10] ((if content = [] then [] else [content]) @ numbered_lines (start + offset) (take k ls)) \<and>
     e' = (if k = 0 then e else start + offset + k - 1) \<and>
     (content = [] \<and> offset < limit \<and> ls \<noteq> [] \<longrightarrow> 0 < k)"
  using assms
proof (induction ls arbitrary: offset content e)
  case (Cons line ls)
  let ?f = "line_prefix (start + offset) @ line"
  let ?c = "(if content = [] then [] else content @ [10]) @ ?f"
  have fits: "utf8_len ?f \<le> budget"
    using Cons.prems(2) by (simp del: utf8_len_append)
  show ?case
  proof (cases "offset < limit \<and> utf8_len content + (utf8_len ?f + (if content = [] then 0 else 1)) \<le> budget")
    case True
    then have step: "page_loop budget limit start (offset + 1) ls ?c (start + offset) = (content', e')"
      using Cons.prems(1) by (auto simp: Let_def split: if_splits)
    obtain k where "k \<le> length ls"
      "content' = str_join [10] ([?c] @ numbered_lines (start + (offset + 1)) (take k ls))"
      "e' = (if k = 0 then start + offset else start + (offset + 1) + k - 1)"
      using Cons.IH [OF step] Cons.prems(2) by auto
    then show ?thesis
      by (intro exI [of _ "Suc k"]) (auto simp: str_join_push)
  next
    case False
    then have "content \<noteq> [] \<or> \<not> offset < limit"
      using fits by auto
    with False Cons.prems(1) have "content' = content" "e' = e" "\<not> (content = [] \<and> offset < limit)"
      by (auto simp: Let_def split: if_splits)
    then show ?thesis
      by (intro exI [of _ 0]) auto
  qed
qed auto

lemma page_of_lines_ok:
  assumes "page_of_lines ls start limit budget = (content, e)"
    and "1 \<le> start" "start \<le> length ls" "0 < limit" "\<forall>l \<in> set ls. \<forall>n \<le> length ls. utf8_len (line_prefix n @ l) \<le> budget"
  shows "start \<le> e" "e \<le> length ls" "content = numbered_text ls start e"
proof -
  have "page_loop budget limit start 0 (drop (start - 1) ls) [] (start - 1) = (content, e)"
    using assms(1-3) by (auto simp: page_of_lines_def split: if_splits)
  moreover have "\<forall>l \<in> set (drop (start - 1) ls). \<forall>n < start + 0 + length (drop (start - 1) ls). utf8_len (line_prefix n @ l) \<le> budget"
    using assms(2,3,5) by (auto dest: in_set_dropD simp del: utf8_len_append)
  ultimately obtain k where k: "k \<le> length (drop (start - 1) ls)"
    "content = str_join [10] (numbered_lines start (take k (drop (start - 1) ls)))"
    "e = (if k = 0 then start - 1 else start + k - 1)" "0 < k"
    using page_loop_ok [of budget limit start 0 "drop (start - 1) ls" "[]" "start - 1" content e] assms(2-4) by auto
  then have e: "e = start - 1 + k"
    using assms(2) by simp
  show "start \<le> e" "e \<le> length ls"
    using k(1,4) assms(2,3) by (auto simp: e)
  show "content = numbered_text ls start e"
    using numbered_text_lines [of start k ls] k(1,2) assms(2,3) by (simp add: e)
qed

text \<open>The reader that asks again at \<open>nextOffset\<close> until there is none.\<close>

definition page_args :: "nat \<Rightarrow> nat option \<Rightarrow> json" where
  "page_args off lim =
     JObj ((lit ''offset'', JInt (int off)) # (case lim of None \<Rightarrow> [] | Some l \<Rightarrow> [(lit ''limit'', JInt (int l))]))"

function follow_pages :: "(ustr \<Rightarrow> u64) \<Rightarrow> ustr \<Rightarrow> nat option \<Rightarrow> ustr \<Rightarrow> nat \<Rightarrow> file_page list" where
  "follow_pages fp full lim display off =
     (let p = read_page_text fp full (page_args off lim) display
      in p # (case pg_next_offset p of
                None \<Rightarrow> []
              | Some n \<Rightarrow> if off < n then follow_pages fp full lim display n else []))"
  by pat_completeness auto
termination
  by (relation "measure (\<lambda>(fp, full, lim, display, off). length (str_lines full) + 1 - off)")
     (auto simp: read_page_text_def Let_def split: prod.splits if_splits)

declare follow_pages.simps [simp del]

definition page_budget :: "nat option \<Rightarrow> nat" where
  "page_budget lim = (if lim = None then DEFAULT_READ_BYTES else MAX_READ_BYTES)"

lemma as_u64_nat: "n < 2 ^ 64 \<Longrightarrow> \<exists>w. as_u64 (JInt (int n)) = Some w \<and> unat w = n"
proof -
  assume n: "n < 2 ^ 64"
  then have "int n < 2 ^ 64"
    by (metis of_nat_less_iff of_nat_numeral of_nat_power)
  then have "as_u64 (JInt (int n)) = Some (word_of_int (int n))"
    by simp
  moreover have "unat (word_of_int (int n) :: u64) = n"
    using n by (simp add: unsigned_of_nat take_bit_nat_eq_self)
  ultimately show ?thesis
    by blast
qed

lemma page_args_get:
  "jget (page_args off lim) ''offset'' = Some (JInt (int off))"
  "jget (page_args off lim) ''limit'' = map_option (\<lambda>l. JInt (int l)) lim"
  by (auto simp: page_args_def split: option.splits)

lemma read_page_text_ok:
  assumes "1 \<le> off" "off \<le> length (str_lines full)" "length (str_lines full) < 2 ^ 64"
    and "\<And>l. lim = Some l \<Longrightarrow> l < 2 ^ 64"
    and "\<forall>l \<in> set (str_lines full). \<forall>n \<le> length (str_lines full). utf8_len (line_prefix n @ l) \<le> page_budget lim"
    and p_def: "p = read_page_text fp full (page_args off lim) display"
  shows "pg_start_line p = off" "off \<le> pg_end_line p" "pg_end_line p \<le> length (str_lines full)"
    "pg_content p = numbered_text (str_lines full) off (pg_end_line p)"
    "pg_next_offset p = (if pg_end_line p < length (str_lines full) then Some (pg_end_line p + 1) else None)"
proof -
  let ?ls = "str_lines full"
  have ne: "?ls \<noteq> []"
    using assms(1,2) by auto
  obtain w where w: "as_u64 (JInt (int off)) = Some w" "unat w = off"
    using as_u64_nat [of off] assms(2,3) by auto
  obtain limit where l: "0 < limit" and
    p: "p = (case page_of_lines ?ls off limit (page_budget lim) of
           (content, end_line) \<Rightarrow>
             \<lparr>pg_path = display, pg_content = content, pg_start_line = off, pg_end_line = end_line,
              pg_total_lines = length ?ls, pg_has_more = end_line < length ?ls,
              pg_next_offset = (if end_line < length ?ls then Some (end_line + 1) else None),
              pg_truncated = False, pg_fingerprint = fp full\<rparr>)"
  proof (cases lim)
    case None
    show ?thesis
      by (rule that [of DEFAULT_READ_LINES])
         (use None w ne assms(1,2) in \<open>simp_all add: p_def read_page_text_def Let_def page_args_get page_budget_def
            DEFAULT_READ_LINES_def max_def min_def del: as_u64.simps\<close>)
  next
    case (Some l)
    obtain v where v: "as_u64 (JInt (int l)) = Some v" "unat v = l"
      using as_u64_nat [of l] assms(4) Some by auto
    show ?thesis
      by (rule that [of "if l < 1 then 1 else if l > 100000 then 100000 else l"])
         (use Some w v ne assms(1,2) in \<open>simp_all add: p_def read_page_text_def Let_def page_args_get page_budget_def
            max_def min_def del: as_u64.simps\<close>)
  qed
  obtain c e where e: "page_of_lines ?ls off limit (page_budget lim) = (c, e)"
    by (cases "page_of_lines ?ls off limit (page_budget lim)")
  from page_of_lines_ok [OF e assms(1,2) l assms(5)] show
    "pg_start_line p = off" "off \<le> pg_end_line p" "pg_end_line p \<le> length ?ls"
    "pg_content p = numbered_text ?ls off (pg_end_line p)"
    "pg_next_offset p = (if pg_end_line p < length ?ls then Some (pg_end_line p + 1) else None)"
    by (simp_all add: p e)
qed

lemma upt_append: "i \<le> j \<Longrightarrow> j \<le> k \<Longrightarrow> [i..<j] @ [j..<k] = [i..<k]"
  by (metis le_add_diff_inverse upt_add_eq_append)

lemma follow_pages_ok:
  assumes "1 \<le> off" "off \<le> length (str_lines full)" "length (str_lines full) < 2 ^ 64"
    and "\<And>l. lim = Some l \<Longrightarrow> l < 2 ^ 64"
    and "\<forall>l \<in> set (str_lines full). \<forall>n \<le> length (str_lines full). utf8_len (line_prefix n @ l) \<le> page_budget lim"
  shows "concat (map (\<lambda>p. [pg_start_line p..<pg_end_line p + 1]) (follow_pages fp full lim display off)) =
           [off..<length (str_lines full) + 1] \<and>
         (\<forall>p \<in> set (follow_pages fp full lim display off). pg_start_line p \<le> pg_end_line p \<and>
            pg_content p = numbered_text (str_lines full) (pg_start_line p) (pg_end_line p))"
  using assms(1,2)
proof (induction "length (str_lines full) - off" arbitrary: off rule: less_induct)
  case less
  let ?p = "read_page_text fp full (page_args off lim) display" and ?n = "length (str_lines full)"
  note p = read_page_text_ok [OF less.prems assms(3-5) refl, of fp display]
  show ?case
  proof (cases "pg_end_line ?p < ?n")
    case True
    let ?m = "pg_end_line ?p + 1"
    have f: "follow_pages fp full lim display off = ?p # follow_pages fp full lim display ?m"
      using True p(2,5) by (simp add: follow_pages.simps [of fp full lim display off] Let_def)
    have "?n - ?m < ?n - off" "1 \<le> ?m" "?m \<le> ?n"
      using True p(2) by auto
    from less.hyps [OF this] p True show ?thesis
      by (simp add: f upt_append del: upt_Suc)
  next
    case False
    then have "follow_pages fp full lim display off = [?p]"
      using p(5) by (simp add: follow_pages.simps [of fp full lim display off] Let_def)
    with False p show ?thesis
      by (simp del: upt_Suc)
  qed
qed

text \<open>
  Paging covers a file. Reading from line 1 and asking again at every
  \<open>nextOffset\<close> returns each line of the file in exactly one page, in order, whole and with its own
  number, whatever limit the model gives, and the reading stops; the hypotheses are that the file has
  a line and that each numbered line fits the byte budget of a page.
\<close>
theorem paging_complete:
  assumes "str_lines full \<noteq> []" "length (str_lines full) < 2 ^ 64" "lim \<noteq> None \<Longrightarrow> the lim < 2 ^ 64"
    and "\<forall>l \<in> set (str_lines full). \<forall>n \<le> length (str_lines full). utf8_len (line_prefix n @ l) \<le> page_budget lim"
  shows "concat (map (\<lambda>p. [pg_start_line p..<pg_end_line p + 1]) (follow_pages fp full lim display 1)) =
           [1..<length (str_lines full) + 1] \<and>
         (\<forall>p \<in> set (follow_pages fp full lim display 1). pg_start_line p \<le> pg_end_line p \<and>
            pg_content p = numbered_text (str_lines full) (pg_start_line p) (pg_end_line p))"
  using assms by (intro follow_pages_ok) (auto simp: Suc_le_eq)

theorem paging_complete_witness:
  "let ps = follow_pages (\<lambda>_. 0) (lit [CHR ''a'', CHR 0x0A, CHR ''b'', CHR 0x0A]) (Some 1) [] 1
   in concat (map (\<lambda>p. [pg_start_line p..<pg_end_line p + 1]) ps) = [1, 2] \<and>
      (\<forall>p \<in> set ps. pg_content p = numbered_text [[97], [98]] (pg_start_line p) (pg_end_line p))"
proof -
  let ?s = "lit [CHR ''a'', CHR 0x0A, CHR ''b'', CHR 0x0A]"
  have l: "str_lines ?s = [[97], [98]]"
    by code_simp
  have "\<forall>n \<in> {0, 1, 2}. utf8_len (line_prefix n) \<le> 100"
    by code_simp
  then have "utf8_len (line_prefix n @ l) \<le> page_budget (Some 1)" if "n \<le> 2" "l \<in> {[97], [98]}" for n l
    using that by (auto simp: le_Suc_eq numeral_2_eq_2 page_budget_def MAX_READ_BYTES_def utf8_len_def utf8_width_def)
  then show ?thesis
    using paging_complete [of ?s "Some 1" "\<lambda>_. 0" "[]"]
    by (simp add: l Let_def upt_conv_Cons del: upt_Suc utf8_len_append)
qed

text \<open>
  A single line over the budget is cut, and the answer says neither that it was truncated nor that
  there is more: the rest of the line cannot be reached by any offset.
\<close>

lemma long_line_unreported:
  assumes "str_lines full = [l]" "DEFAULT_READ_BYTES < utf8_len (line_prefix 1 @ l)"
    and "p = read_page_text fp full (page_args 1 None) []"
  shows "pg_has_more p = False" "pg_next_offset p = None" "pg_truncated p = False"
    "pg_content p = line_prefix 1 @ truncate_to_char_boundary l (DEFAULT_READ_BYTES - utf8_len (line_prefix 1))"
  using assms(1,2)
  by (simp_all add: assms(3) read_page_text_def page_args_def page_of_lines_def Let_def DEFAULT_READ_LINES_def
      del: utf8_len_append)

end
