(* ===== verification/File_Write.thy ===== *)
theory File_Write
  imports File_Read
begin

text \<open>
  Writing and deleting files (\<open>atomic\_write\_bytes\<close>, \<open>temp\_sibling\<close> and the write and delete
  actions of \<open>tools/src/files.rs\<close>). A write is the list of the disks that can be seen while it runs,
  so that what a crash or a second process finds at any moment is one of them. Which system calls
  fail, and the random suffix of the staging file, are the fields of \<open>write_io\<close>.
\<close>

section \<open>The atomic write\<close>

record write_io =
  mkdir_ok :: bool
  made :: nat
  staging_suffix :: ustr
  open_ok :: bool
  written_ok :: bool
  landed :: nat
  rename_ok :: bool
  unlink_ok :: bool

definition ancestors :: "path \<Rightarrow> path list" where
  "ancestors p = map (\<lambda>k. take k p) [0..<length p]"

text \<open>
  \<open>create\_dir\_all\<close> of the parent: the missing folders are made from the top; on an error the first
  \<open>made\<close> of them stay.
\<close>

definition create_parents :: "write_io \<Rightarrow> path \<Rightarrow> disk \<Rightarrow> bool \<times> disk" where
  "create_parents io target d =
     (let missing = filter (\<lambda>p. d p = None) (ancestors target);
          blocked = list_ex (\<lambda>p. d p \<noteq> None \<and> d p \<noteq> Some Folder) (ancestors target)
      in if blocked then (False, d)
         else if mkdir_ok io then (True, fold (\<lambda>p d. d(p \<mapsto> Folder)) missing d)
         else (False, fold (\<lambda>p d. d(p \<mapsto> Folder)) (take (made io) missing) d))"

definition temp_sibling :: "write_io \<Rightarrow> path \<Rightarrow> path" where
  "temp_sibling io target =
     (let name = (if target = [] then lit ''file'' else last target)
      in butlast target @ [lit ''.'' @ name @ lit ''.'' @ staging_suffix io @ lit ''.mix-agent-tmp''])"

text \<open>Permission bits 0600.\<close>

definition PRIVATE_MODE :: nat where "PRIVATE_MODE = 384"

definition unlink_staging :: "write_io \<Rightarrow> path \<Rightarrow> disk \<Rightarrow> disk" where
  "unlink_staging io tmp d = (if unlink_ok io then d(tmp := None) else d)"

definition atomic_write_bytes :: "write_io \<Rightarrow> path \<Rightarrow> ustr \<Rightarrow> disk \<Rightarrow> bool \<times> disk list" where
  "atomic_write_bytes io target content d =
     (case create_parents io target d of
        (ok, d1) \<Rightarrow>
          let tmp = temp_sibling io target in
          if \<not> ok \<or> \<not> open_ok io \<or> d1 tmp \<noteq> None then (False, [d1])
          else
            let d2 = d1(tmp \<mapsto> Text_File PRIVATE_MODE []) in
            if \<not> written_ok io then
              let d3 = d1(tmp \<mapsto> Raw_File PRIVATE_MODE (landed io))
              in (False, [d1, d2, d3, unlink_staging io tmp d3])
            else
              let d3 = d1(tmp \<mapsto> Text_File PRIVATE_MODE content) in
              if \<not> rename_ok io \<or> d3 target = Some Folder then (False, [d1, d2, d3, unlink_staging io tmp d3])
              else (True, [d1, d2, d3, d3(tmp := None, target \<mapsto> Text_File PRIVATE_MODE content)]))"

text \<open>The disk an operation leaves.\<close>

definition after_write :: "bool \<times> disk list \<Rightarrow> disk" where
  "after_write r = last (snd r)"

section \<open>The write and delete actions\<close>

datatype files_error = Bad_Path path_error | Read_Only | Is_Root | Write_Failed | Delete_Failed

definition files_write ::
  "write_io \<Rightarrow> fs_view \<Rightarrow> ustr option \<Rightarrow> ustr list \<Rightarrow> ustr \<Rightarrow> ustr \<Rightarrow> disk \<Rightarrow> (files_error + nat) \<times> disk" where
  "files_write io fs root_path additional path content d =
     (case resolve_context_root fs root_path of
        Inl e \<Rightarrow> (Inl (Bad_Path e), d)
      | Inr root \<Rightarrow>
          (case resolve_target_in fs root additional path of
             Inl e \<Rightarrow> (Inl (Bad_Path e), d)
           | Inr (resolved, writable) \<Rightarrow>
               if \<not> writable then (Inl Read_Only, d)
               else if resolved = root then (Inl Is_Root, d)
               else
                 (case create_parents io resolved d of
                    (False, d1) \<Rightarrow> (Inl Write_Failed, d1)
                  | (True, d1) \<Rightarrow>
                      let r = atomic_write_bytes io resolved content d1
                      in (if fst r then Inr (utf8_len content) else Inl Write_Failed, after_write r))))"

text \<open>\<open>remove\_dir\_all\<close> and \<open>remove\_file\<close>; \<open>ok\<close> says whether the system lets it, \<open>gone\<close> what a failing removal of a folder has already taken.\<close>

definition files_delete ::
  "bool \<Rightarrow> (path \<Rightarrow> bool) \<Rightarrow> fs_view \<Rightarrow> ustr option \<Rightarrow> ustr list \<Rightarrow> ustr \<Rightarrow> disk \<Rightarrow> (files_error + unit) \<times> disk" where
  "files_delete ok gone fs root_path additional path d =
     (case resolve_context_root fs root_path of
        Inl e \<Rightarrow> (Inl (Bad_Path e), d)
      | Inr root \<Rightarrow>
          (case resolve_target_in fs root additional path of
             Inl e \<Rightarrow> (Inl (Bad_Path e), d)
           | Inr (resolved, writable) \<Rightarrow>
               if \<not> writable then (Inl Read_Only, d)
               else if resolved = root then (Inl Is_Root, d)
               else if d resolved = Some Folder then
                 (if ok then (Inr (), \<lambda>p. if prefix resolved p then None else d p)
                  else (Inl Delete_Failed, \<lambda>p. if strict_prefix resolved p \<and> gone p then None else d p))
               else if ok \<and> d resolved \<noteq> None then (Inr (), d(resolved := None))
               else (Inl Delete_Failed, d)))"

section \<open>What a write does to the disk\<close>

lemma fold_folders: "fold (\<lambda>p d. d(p \<mapsto> Folder)) ps d q = (if q \<in> set ps then Some Folder else d q)"
  by (induction ps arbitrary: d) auto

lemma set_ancestors: "q \<in> set (ancestors p) \<longleftrightarrow> strict_prefix q p"
proof
  assume "q \<in> set (ancestors p)"
  then obtain k where "q = take k p" "k < length p"
    by (auto simp: ancestors_def)
  then show "strict_prefix q p"
    by (metis length_take less_imp_neq min.strict_order_iff min.commute strict_prefix_def take_is_prefix)
next
  assume "strict_prefix q p"
  then have "q = take (length q) p" "length q < length p"
    by (auto simp: strict_prefix_def prefix_def)
  then show "q \<in> set (ancestors p)"
    by (auto simp: ancestors_def intro!: image_eqI [of _ _ "length q"])
qed

lemma create_parents_frame:
  "snd (create_parents io target d) q = d q \<or>
     d q = None \<and> snd (create_parents io target d) q = Some Folder \<and> strict_prefix q target"
  using set_ancestors [of q target]
  by (auto simp: create_parents_def Let_def fold_folders dest: in_set_takeD)

lemma create_parents_target: "snd (create_parents io target d) target = d target"
  using create_parents_frame [of io target d target] by auto

lemma temp_sibling_ne: "temp_sibling io target \<noteq> target"
proof (cases target rule: rev_cases)
  case (snoc t n)
  have "length (last (temp_sibling io target)) > length n"
    by (simp add: temp_sibling_def snoc)
  with snoc show ?thesis
    by auto
qed (simp add: temp_sibling_def)

lemma temp_sibling_not_below: "\<not> strict_prefix (temp_sibling io target) target"
proof
  assume "strict_prefix (temp_sibling io target) target"
  then have "length (temp_sibling io target) < length target"
    by (simp add: prefix_length_less)
  then show False
    by (simp add: temp_sibling_def)
qed

lemma create_parents_temp: "snd (create_parents io target d) (temp_sibling io target) = d (temp_sibling io target)"
  using create_parents_frame [of io target d "temp_sibling io target"] temp_sibling_not_below by blast

lemma atomic_write_all_or_nothing_aux:
  assumes "atomic_write_bytes io target content d = (ok, ds)"
  shows "ds \<noteq> [] \<and>
     (\<forall>d' \<in> set ds. d' target = d target \<or> ok \<and> d' target = Some (Text_File PRIVATE_MODE content)) \<and>
     (ok \<longrightarrow> last ds target = Some (Text_File PRIVATE_MODE content)) \<and>
     (\<forall>d' \<in> set ds. \<forall>p. p \<noteq> target \<and> p \<noteq> temp_sibling io target \<longrightarrow>
        d' p = d p \<or> d p = None \<and> d' p = Some Folder \<and> strict_prefix p target) \<and>
     (ok \<or> unlink_ok io \<longrightarrow> d (temp_sibling io target) = None \<longrightarrow> last ds (temp_sibling io target) = None)"
proof -
  obtain b d1 where c: "create_parents io target d = (b, d1)"
    by (cases "create_parents io target d")
  define F where "F e p \<longleftrightarrow> e p = d p \<or> d p = None \<and> e p = Some Folder \<and> strict_prefix p target" for e :: disk and p
  have f: "F d1 p" for p
    using create_parents_frame [of io target d p] by (simp add: c F_def)
  have F_upd: "p \<noteq> q \<Longrightarrow> F (e(q := v)) p = F e p" for e p q v
    by (simp add: F_def)
  have t: "d1 target = d target" "d1 (temp_sibling io target) = d (temp_sibling io target)"
    using create_parents_target [of io target d] create_parents_temp [of io target d] by (simp_all add: c)
  note ne = temp_sibling_ne [of io target] temp_sibling_ne [of io target, symmetric]
  have "\<forall>d' \<in> set ds. \<forall>p. p \<noteq> target \<and> p \<noteq> temp_sibling io target \<longrightarrow> F d' p"
    using assms f by (auto simp: atomic_write_bytes_def c Let_def unlink_staging_def F_upd split: if_splits)
  moreover have "ds \<noteq> [] \<and>
     (\<forall>d' \<in> set ds. d' target = d target \<or> ok \<and> d' target = Some (Text_File PRIVATE_MODE content)) \<and>
     (ok \<longrightarrow> last ds target = Some (Text_File PRIVATE_MODE content)) \<and>
     (ok \<or> unlink_ok io \<longrightarrow> d (temp_sibling io target) = None \<longrightarrow> last ds (temp_sibling io target) = None)"
    using assms t ne
    by (cases "\<not> b \<or> \<not> open_ok io \<or> d1 (temp_sibling io target) \<noteq> None"; cases "written_ok io";
        cases "rename_ok io \<and> d1 target \<noteq> Some Folder"; cases "unlink_ok io")
       (auto simp: atomic_write_bytes_def c Let_def unlink_staging_def)
  ultimately show ?thesis
    unfolding F_def by blast
qed

text \<open>
  C36 (safety). A write is atomic. Whatever system call fails, in every state of the disk that can be
  seen while it runs the target holds its old content untouched or the new content whole; it reports
  success exactly when the last state holds the new content there, and on an error the target is
  never touched. No other path changes, apart from the folders made for it and the staging file,
  which is gone at the end unless removing it fails too.
\<close>
theorem atomic_write_all_or_nothing:
  assumes "atomic_write_bytes io target content d = (ok, ds)"
  shows "ds \<noteq> [] \<and>
     (\<forall>d' \<in> set ds. d' target = d target \<or> ok \<and> d' target = Some (Text_File PRIVATE_MODE content)) \<and>
     (ok \<longrightarrow> last ds target = Some (Text_File PRIVATE_MODE content)) \<and>
     (\<forall>d' \<in> set ds. \<forall>p. p \<noteq> target \<and> p \<noteq> temp_sibling io target \<longrightarrow>
        d' p = d p \<or> d p = None \<and> d' p = Some Folder \<and> strict_prefix p target) \<and>
     (ok \<or> unlink_ok io \<longrightarrow> d (temp_sibling io target) = None \<longrightarrow> last ds (temp_sibling io target) = None)"
  by (rule atomic_write_all_or_nothing_aux [OF assms])

definition demo_io :: write_io where
  "demo_io = \<lparr>mkdir_ok = True, made = 0, staging_suffix = lit ''s'', open_ok = True, written_ok = True,
              landed = 0, rename_ok = True, unlink_ok = True\<rparr>"

definition demo_disk :: disk where
  "demo_disk = (\<lambda>p. if p = [] \<or> p = [lit ''w''] then Some Folder
                    else if p = [lit ''w'', lit ''a''] then Some (Text_File 493 (lit ''old'')) else None)"

theorem atomic_write_all_or_nothing_witness:
  "fst (atomic_write_bytes demo_io [lit ''w'', lit ''a''] (lit ''new'') demo_disk) \<and>
   last (snd (atomic_write_bytes demo_io [lit ''w'', lit ''a''] (lit ''new'') demo_disk)) [lit ''w'', lit ''a''] =
     Some (Text_File PRIVATE_MODE (lit ''new''))"
proof -
  let ?r = "atomic_write_bytes demo_io [lit ''w'', lit ''a''] (lit ''new'') demo_disk"
  obtain ok ds where r: "?r = (ok, ds)"
    by (cases ?r)
  have "fst ?r"
    by code_simp
  with atomic_write_all_or_nothing [OF r] show ?thesis
    by (simp add: r)
qed

text \<open>
  The staging file is created with mode 0600 and renamed over the target, so a rewritten script is no
  longer executable and a shared file no longer readable by others.
\<close>

lemma write_drops_mode:
  "demo_disk [lit ''w'', lit ''a''] = Some (Text_File 493 (lit ''old'')) \<and>
   after_write (atomic_write_bytes demo_io [lit ''w'', lit ''a''] (lit ''new'') demo_disk) [lit ''w'', lit ''a''] =
     Some (Text_File 384 (lit ''new''))"
  by code_simp

section \<open>Writes and deletes stay inside the project\<close>

lemma after_write_frame:
  assumes "p \<noteq> target" "p \<noteq> temp_sibling io target"
  shows "after_write (atomic_write_bytes io target content d) p = d p \<or> d p = None \<and> strict_prefix p target"
proof -
  obtain ok ds where r: "atomic_write_bytes io target content d = (ok, ds)"
    by (cases "atomic_write_bytes io target content d")
  with atomic_write_all_or_nothing_aux [OF r] assms last_in_set [of ds] show ?thesis
    by (auto simp: after_write_def)
qed

lemma temp_sibling_inside: "strict_prefix root target \<Longrightarrow> strict_prefix root (temp_sibling io target)"
  by (cases target rule: rev_cases) (auto simp: temp_sibling_def Let_def strict_prefix_def prefix_snoc)

lemma missing_inside:
  assumes "\<forall>q. prefix q root \<longrightarrow> d q \<noteq> None" "prefix root target" "prefix p target" "d p = None"
  shows "strict_prefix root p"
  using assms prefix_same_cases [of root target p] by (auto simp: strict_prefix_def)

text \<open>
  The write and delete actions change nothing outside the project folder and never the
  folder itself. Whatever path and content the model sends and whatever system call fails, every path
  whose entry differs afterwards lies strictly inside the canonical root of the run. The hypotheses
  are the promise of \<open>realpath\<close> and that the folders above the root exist.
\<close>
theorem changes_confined:
  assumes "realpath_ok fs" "resolve_context_root fs root_path = Inr root" "\<forall>q. prefix q root \<longrightarrow> d q \<noteq> None"
    and "d' = snd (files_write io fs root_path additional path content d) \<or>
         d' = snd (files_delete rm_ok gone fs root_path additional path d)"
    and "d' p \<noteq> d p"
  shows "strict_prefix root p"
proof -
  obtain resolved where r: "resolve_target fs root_path additional path = Inr (resolved, True)" and ne: "resolved \<noteq> root"
    and ch: "d' \<in> {snd (create_parents io resolved d),
        after_write (atomic_write_bytes io resolved content (snd (create_parents io resolved d))),
        (\<lambda>p. if prefix resolved p then None else d p),
        (\<lambda>p. if strict_prefix resolved p \<and> gone p then None else d p), d(resolved := None)}"
    using assms(2,4,5)
    by (auto simp: files_write_def files_delete_def resolve_target_def Let_def split: sum.splits bool.splits prod.splits if_splits)
  have inside: "strict_prefix root resolved"
    using resolve_confined_aux [OF assms(1) r] assms(2) ne by (auto simp: strict_prefix_def)
  define d1 where "d1 = snd (create_parents io resolved d)"
  have d1: "d1 q = d q \<or> d q = None \<and> strict_prefix q resolved" for q
    using create_parents_frame [of io resolved d q] by (auto simp: d1_def)
  have "prefix resolved p \<or> p = temp_sibling io resolved \<or> d p = None \<and> strict_prefix p resolved"
    using ch assms(5) d1 [of p] after_write_frame [of p resolved io content d1]
    unfolding d1_def [symmetric] by (auto split: if_splits)
  then show ?thesis
  proof (elim disjE conjE)
    assume "prefix resolved p"
    with inside show ?thesis
      by (auto simp: strict_prefix_def intro: prefix_order.trans)
  next
    assume "p = temp_sibling io resolved"
    with temp_sibling_inside [OF inside] show ?thesis
      by simp
  next
    assume "d p = None" "strict_prefix p resolved"
    with missing_inside [OF assms(3)] inside show ?thesis
      by (auto simp: strict_prefix_def)
  qed
qed

theorem changes_confined_witness:
  "snd (files_write demo_io demo_fs (Some (lit ''/w'')) [] (lit ''b'') (lit ''x'') demo_disk) [lit ''w'', lit ''b''] \<noteq>
     demo_disk [lit ''w'', lit ''b''] \<and>
   strict_prefix [lit ''w''] [lit ''w'', lit ''b'']"
proof
  let ?d = "snd (files_write demo_io demo_fs (Some (lit ''/w'')) [] (lit ''b'') (lit ''x'') demo_disk)"
  show n: "?d [lit ''w'', lit ''b''] \<noteq> demo_disk [lit ''w'', lit ''b'']"
    by code_simp
  have "resolve_context_root demo_fs (Some (lit ''/w'')) = Inr [lit ''w'']"
    by code_simp
  moreover have "\<forall>q. prefix q [lit ''w''] \<longrightarrow> demo_disk q \<noteq> None"
    by (auto simp: demo_disk_def prefix_Cons)
  ultimately show "strict_prefix [lit ''w''] [lit ''w'', lit ''b'']"
    using changes_confined [OF demo_fs_realpath _ _ disjI1 [OF refl] n] by blast
qed

end
