(* ===== verification/Edit.thy ===== *)
theory Edit
  imports File_Write
begin

text \<open>
  The targeted edit tool (\<open>tools/src/edit.rs\<close>): anchor matching (exact, tolerant of trailing
  whitespace, with the line numbers of a read page removed), replace, create and append, the
  atomic batch with its rollback, and the preview. The texts of error messages are left out; the
  cases are kept.
\<close>

definition MAX_EDIT_BYTES :: nat where "MAX_EDIT_BYTES = 4194304"
definition PREVIEW_CONTEXT_LINES :: nat where "PREVIEW_CONTEXT_LINES = 3"

datatype edit_error = EmptyAnchor | NoOp | AnchorNotFound | Ambiguous nat | TooLarge

section \<open>Matching\<close>

text \<open>\<open>str::matches(\<dots>).count()\<close> (occurrences that do not overlap) and \<open>replacen(\<dots>, 1)\<close>.\<close>

function str_count :: "ustr \<Rightarrow> ustr \<Rightarrow> nat" where
  "str_count pat s =
     (if pat \<noteq> [] \<and> starts_with s pat then Suc (str_count pat (drop (length pat) s))
      else case s of [] \<Rightarrow> 0 | c # t \<Rightarrow> str_count pat t)"
  by pat_completeness auto
termination
  by (relation "measure (\<lambda>(pat, s). length s)") (auto simp: starts_with_iff)

declare str_count.simps [simp del]

definition str_replace_first :: "ustr \<Rightarrow> ustr \<Rightarrow> ustr \<Rightarrow> ustr" where
  "str_replace_first pat new s =
     (case str_find pat s of
        None \<Rightarrow> s
      | Some i \<Rightarrow> take i s @ new @ drop (i + length pat) s)"

definition edit_trim_end :: "ustr \<Rightarrow> ustr" where
  "edit_trim_end l = trim_end_matches (\<lambda>c. c = 13 \<or> c = 32 \<or> c = 9) l"

text \<open>
  \<open>windows\<close> panics on an empty needle; the anchors that reach it are not empty, so their list of
  lines is not either.
\<close>

definition loose_occurrences :: "ustr \<Rightarrow> ustr \<Rightarrow> nat" where
  "loose_occurrences content old =
     (let needle = map edit_trim_end (str_lines old);
          source = map edit_trim_end (str_lines content)
      in length (filter (\<lambda>i. take (length needle) (drop i source) = needle)
           [0..<Suc (length source) - length needle]))"

function loose_walk :: "ustr list \<Rightarrow> ustr list \<Rightarrow> bool \<Rightarrow> ustr list \<Rightarrow> ustr list" where
  "loose_walk needle replacement replace_all [] = []"
| "loose_walk needle replacement replace_all (l # ls) =
     (if needle \<noteq> [] \<and> length needle \<le> length (l # ls) \<and>
         map edit_trim_end (take (length needle) (l # ls)) = needle then
        replacement @
        (if replace_all then loose_walk needle replacement replace_all (drop (length needle) (l # ls))
         else drop (length needle) (l # ls))
      else l # loose_walk needle replacement replace_all ls)"
  by pat_completeness auto
termination
  by (relation "measure (\<lambda>(n, r, b, ls). length ls)") auto

definition loose_replace :: "ustr \<Rightarrow> ustr \<Rightarrow> ustr \<Rightarrow> bool \<Rightarrow> ustr" where
  "loose_replace content old new replace_all =
     (let joined = str_join [10] (loose_walk (map edit_trim_end (str_lines old)) (str_lines new) replace_all (str_lines content))
      in if ends_with content [10] \<and> \<not> ends_with joined [10] then joined @ [10] else joined)"

fun strip_number :: "ustr \<Rightarrow> ustr option" where
  "strip_number line =
     (let trimmed = dropWhile (\<lambda>c. c = 32) line;
          digits = length (takeWhile is_ascii_digit trimmed)
      in if digits = 0 \<or> digits > 9 then None else strip_prefix [9] (drop digits trimmed))"

declare strip_number.simps [simp del]

fun strip_numbers :: "ustr list \<Rightarrow> ustr list option" where
  "strip_numbers [] = Some []"
| "strip_numbers (l # ls) =
     (case strip_number l of
        None \<Rightarrow> None
      | Some r \<Rightarrow> map_option (\<lambda>rs. r # rs) (strip_numbers ls))"

definition strip_line_number_prefixes :: "ustr \<Rightarrow> ustr option" where
  "strip_line_number_prefixes s =
     (if s = [] then None
      else case strip_numbers (str_lines s) of
             None \<Rightarrow> None
           | Some [] \<Rightarrow> None
           | Some rs \<Rightarrow> Some (str_join [10] rs @ (if ends_with s [10] then [10] else [])))"

definition choose_anchor :: "ustr \<Rightarrow> ustr \<Rightarrow> ustr \<Rightarrow> ustr \<times> ustr" where
  "choose_anchor content old new =
     (if \<not> str_contains content old \<and> loose_occurrences content old = 0 then
        (case strip_line_number_prefixes old of
           Some stripped \<Rightarrow> (stripped, case strip_line_number_prefixes new of Some r \<Rightarrow> r | None \<Rightarrow> new)
         | None \<Rightarrow> (old, new))
      else (old, new))"

definition replace_anchor :: "ustr \<Rightarrow> ustr \<Rightarrow> ustr \<Rightarrow> bool \<Rightarrow> edit_error + (ustr \<times> nat)" where
  "replace_anchor content old new replace_all =
     (let occurrences = str_count old content in
      if occurrences = 0 then
        let loose = loose_occurrences content old in
        if loose = 0 then Inl AnchorNotFound
        else if \<not> replace_all \<and> loose > 1 then Inl (Ambiguous loose)
        else Inr (loose_replace content old new replace_all, loose)
      else if \<not> replace_all \<and> occurrences > 1 then Inl (Ambiguous occurrences)
      else Inr (if replace_all then str_replace old new content else str_replace_first old new content, occurrences))"

definition replace :: "ustr \<Rightarrow> ustr \<Rightarrow> ustr \<Rightarrow> bool \<Rightarrow> edit_error + (ustr \<times> nat)" where
  "replace content old0 new0 replace_all =
     (if old0 = [] then Inl EmptyAnchor
      else if old0 = new0 then Inl NoOp
      else
        let (old, new) = choose_anchor content old0 new0
        in if old = [] then Inl EmptyAnchor
           else if old = new then Inl NoOp
           else replace_anchor content old new replace_all)"

section \<open>The preview\<close>

definition white_trim_end :: "ustr \<Rightarrow> ustr" where
  "white_trim_end l = trim_end_matches is_whitespace l"

definition first_difference :: "ustr list \<Rightarrow> ustr list \<Rightarrow> nat option" where
  "first_difference before after =
     (if before = after then None
      else case filter (\<lambda>i. white_trim_end (before ! i) \<noteq> white_trim_end (after ! i)) [0..<min (length before) (length after)] of
             i # _ \<Rightarrow> Some i
           | [] \<Rightarrow> Some (min (length before) (length after)))"

definition preview_line :: "ustr list \<Rightarrow> ustr list \<Rightarrow> nat \<Rightarrow> ustr" where
  "preview_line before after i =
     [if i < length before \<and> white_trim_end (before ! i) = white_trim_end (after ! i) then 32 else 43] @
     show_nat (i + 1) @ [32] @ after ! i @ [10]"

definition preview_of :: "ustr \<Rightarrow> ustr \<Rightarrow> ustr" where
  "preview_of before after =
     (let bs = str_lines before; as = str_lines after;
          anchor = (case first_difference bs as of Some i \<Rightarrow> i | None \<Rightarrow> 0);
          start = anchor - PREVIEW_CONTEXT_LINES;
          stop = min (anchor + PREVIEW_CONTEXT_LINES + 1) (length as)
      in lit ''@@ line '' @ show_nat (anchor + 1) @ lit '' @@'' @ [10] @
         concat (map (preview_line bs as) [start..<stop]))"

section \<open>One edit\<close>

record edit_outcome =
  eo_path :: ustr
  eo_action :: ustr
  eo_replacements :: nat
  eo_lines_before :: nat
  eo_lines_after :: nat
  eo_created :: bool
  eo_preview :: ustr

text \<open>Errors that end the call, and failures reported to the model as a result that is not ok.\<close>

datatype edit_fault =
    Missing_Argument
  | Path_Fault path_error
  | Unreadable
  | Not_Replaced edit_error
  | Not_Written

datatype edit_refusal =
    Read_Only_Folder
  | Already_Exists
  | Unknown_Action
  | Result_Too_Large
  | Nothing_To_Write
  | No_Edits
  | Duplicate_Path ustr

datatype edit_result = Fault edit_fault | Refused edit_refusal | Edited "edit_outcome list"

definition read_existing :: "disk \<Rightarrow> path \<Rightarrow> ustr \<Rightarrow> ustr option" where
  "read_existing d p action =
     (if action = lit ''create'' then Some []
      else case d p of
             Some (Text_File m s) \<Rightarrow> if utf8_len s > MAX_EDIT_BYTES then None else Some s
           | _ \<Rightarrow> None)"

definition outcome_of :: "ustr \<Rightarrow> ustr \<Rightarrow> ustr \<Rightarrow> ustr \<Rightarrow> nat \<Rightarrow> bool \<Rightarrow> edit_outcome" where
  "outcome_of path action before after n created =
     \<lparr>eo_path = path, eo_action = action, eo_replacements = n, eo_lines_before = length (str_lines before),
      eo_lines_after = length (str_lines after), eo_created = created, eo_preview = preview_of before after\<rparr>"

text \<open>The three actions: the new text, the count, whether the file is new.\<close>

definition edit_action ::
  "ustr \<Rightarrow> json \<Rightarrow> bool \<Rightarrow> ustr \<Rightarrow> ustr \<Rightarrow> bool \<Rightarrow> edit_result + (ustr \<times> nat \<times> bool)" where
  "edit_action action args exists before new_string replace_all =
     (if action = lit ''create'' then
        (if exists then Inl (Refused Already_Exists) else Inr (new_string, 1, True))
      else if action = lit ''append'' then
        Inr ((if before \<noteq> [] \<and> \<not> ends_with before [10] then before @ [10] else before) @ new_string, 1, False)
      else if action = lit ''replace'' then
        (case str_arg args ''old_string'' of
           None \<Rightarrow> Inl (Fault Missing_Argument)
         | Some old_string \<Rightarrow>
             (case replace before old_string new_string replace_all of
                Inl e \<Rightarrow> Inl (Fault (Not_Replaced e))
              | Inr (updated, n) \<Rightarrow> Inr (updated, n, False)))
      else Inl (Refused Unknown_Action))"

definition invoke_single ::
  "write_io \<Rightarrow> fs_view \<Rightarrow> ustr option \<Rightarrow> ustr list \<Rightarrow> json \<Rightarrow> disk \<Rightarrow> edit_result \<times> disk" where
  "invoke_single io fs root_path additional args d =
     (let action = str_or args ''action'' (lit ''replace'') in
      case (str_arg args ''path'', str_arg args ''new_string'') of
        (Some path, Some new_string) \<Rightarrow>
          (case resolve_target fs root_path additional path of
             Inl e \<Rightarrow> (Fault (Path_Fault e), d)
           | Inr (resolved, writable) \<Rightarrow>
               if \<not> writable then (Refused Read_Only_Folder, d)
               else
                 (case read_existing d resolved action of
                    None \<Rightarrow> (Fault Unreadable, d)
                  | Some before \<Rightarrow>
                      (case edit_action action args (d resolved \<noteq> None) before new_string (bool_or args ''replace_all'' False) of
                         Inl r \<Rightarrow> (r, d)
                       | Inr (after, n, created) \<Rightarrow>
                           if utf8_len after > MAX_EDIT_BYTES then (Refused Result_Too_Large, d)
                           else if before = [] \<and> after = [] then (Refused Nothing_To_Write, d)
                           else
                             let r = atomic_write_bytes io resolved after d
                             in (if fst r then Edited [outcome_of path action before after n created] else Fault Not_Written,
                                 after_write r))))
      | _ \<Rightarrow> (Fault Missing_Argument, d))"

section \<open>A batch of edits\<close>

text \<open>One entry of a batch with what is known of it: its arguments, where it resolves, its text before and after.\<close>

record batch_file =
  bf_path :: ustr
  bf_resolved :: path
  bf_before :: ustr
  bf_after :: ustr

fun batch_paths :: "json list \<Rightarrow> ustr list \<Rightarrow> edit_result + ustr list" where
  "batch_paths [] seen = Inr (rev seen)"
| "batch_paths (entry # es) seen =
     (case str_arg entry ''path'' of
        None \<Rightarrow> Inl (Fault Missing_Argument)
      | Some p \<Rightarrow> if p \<in> set seen then Inl (Refused (Duplicate_Path p)) else batch_paths es (p # seen))"

fun read_batch :: "fs_view \<Rightarrow> path \<Rightarrow> ustr list \<Rightarrow> disk \<Rightarrow> ustr list \<Rightarrow> edit_result + (path \<times> ustr) list" where
  "read_batch fs root additional d [] = Inr []"
| "read_batch fs root additional d (p # ps) =
     (case resolve_target_in fs root additional p of
        Inl e \<Rightarrow> Inl (Fault (Path_Fault e))
      | Inr (resolved, writable) \<Rightarrow>
          if \<not> writable then Inl (Refused Read_Only_Folder)
          else case read_existing d resolved (lit ''replace'') of
                 None \<Rightarrow> Inl (Fault Unreadable)
               | Some before \<Rightarrow>
                   (case read_batch fs root additional d ps of
                      Inl r \<Rightarrow> Inl r
                    | Inr rest \<Rightarrow> Inr ((resolved, before) # rest)))"

fun apply_batch :: "(json \<times> ustr \<times> path \<times> ustr) list \<Rightarrow> edit_result + (batch_file \<times> edit_outcome) list" where
  "apply_batch [] = Inr []"
| "apply_batch ((entry, p, resolved, before) # es) =
     (case (str_arg entry ''old_string'', str_arg entry ''new_string'') of
        (Some old_string, Some new_string) \<Rightarrow>
          (case replace before old_string new_string (bool_or entry ''replace_all'' False) of
             Inl e \<Rightarrow> Inl (Fault (Not_Replaced e))
           | Inr (after, n) \<Rightarrow>
               if utf8_len after > MAX_EDIT_BYTES then Inl (Refused Result_Too_Large)
               else if before = [] \<and> after = [] then Inl (Refused Nothing_To_Write)
               else
                 (case apply_batch es of
                    Inl r \<Rightarrow> Inl r
                  | Inr rest \<Rightarrow>
                      Inr ((\<lparr>bf_path = p, bf_resolved = resolved, bf_before = before, bf_after = after\<rparr>,
                            outcome_of p (lit ''replace'') before after n False) # rest)))
      | _ \<Rightarrow> Inl (Fault Missing_Argument))"

text \<open>
  The rollback, last written first; whether each of its writes succeeded is kept beside the disk (the
  code drops it).
\<close>

fun rollback :: "(ustr \<Rightarrow> write_io) \<Rightarrow> batch_file list \<Rightarrow> disk \<Rightarrow> bool \<times> disk" where
  "rollback io [] d = (True, d)"
| "rollback io (f # fs) d =
     (let r = atomic_write_bytes (io (bf_path f)) (bf_resolved f) (bf_before f) d;
          (ok, d') = rollback io fs (after_write r)
      in (fst r \<and> ok, d'))"

datatype batch_end = All_Written | Rolled_Back bool

fun write_batch ::
  "(ustr \<Rightarrow> write_io) \<Rightarrow> (ustr \<Rightarrow> write_io) \<Rightarrow> batch_file list \<Rightarrow> batch_file list \<Rightarrow> disk \<Rightarrow> batch_end \<times> disk" where
  "write_batch io undo_io written [] d = (All_Written, d)"
| "write_batch io undo_io written (f # fs) d =
     (let r = atomic_write_bytes (io (bf_path f)) (bf_resolved f) (bf_after f) d
      in if fst r then write_batch io undo_io (f # written) fs (after_write r)
         else let (ok, d') = rollback undo_io written (after_write r) in (Rolled_Back ok, d'))"

text \<open>
  \<open>order\<close> is the order in which the map of new texts is walked. The second component says how the
  writing ended, \<open>None\<close> when it was not reached.
\<close>

definition invoke_multi ::
  "(ustr \<Rightarrow> write_io) \<Rightarrow> (ustr \<Rightarrow> write_io) \<Rightarrow> (batch_file list \<Rightarrow> batch_file list) \<Rightarrow> fs_view \<Rightarrow> ustr option \<Rightarrow>
     ustr list \<Rightarrow> json list \<Rightarrow> disk \<Rightarrow> edit_result \<times> batch_end option \<times> disk" where
  "invoke_multi io undo_io order fs root_path additional batch d =
     (if batch = [] then (Refused No_Edits, None, d)
      else case batch_paths batch [] of
             Inl r \<Rightarrow> (r, None, d)
           | Inr ps \<Rightarrow>
               (case resolve_context_root fs root_path of
                  Inl e \<Rightarrow> (Fault (Path_Fault e), None, d)
                | Inr root \<Rightarrow>
                    (case read_batch fs root additional d ps of
                       Inl r \<Rightarrow> (r, None, d)
                     | Inr befores \<Rightarrow>
                         (case apply_batch (zip batch (zip ps befores)) of
                            Inl r \<Rightarrow> (r, None, d)
                          | Inr files \<Rightarrow>
                              (case write_batch io undo_io [] (order (map fst files)) d of
                                 (All_Written, d') \<Rightarrow> (Edited (map snd files), Some All_Written, d')
                               | (Rolled_Back ok, d') \<Rightarrow> (Fault Not_Written, Some (Rolled_Back ok), d'))))))"

definition invoke_edit ::
  "(ustr \<Rightarrow> write_io) \<Rightarrow> (ustr \<Rightarrow> write_io) \<Rightarrow> (batch_file list \<Rightarrow> batch_file list) \<Rightarrow> fs_view \<Rightarrow> ustr option \<Rightarrow>
     ustr list \<Rightarrow> json \<Rightarrow> disk \<Rightarrow> edit_result \<times> batch_end option \<times> disk" where
  "invoke_edit io undo_io order fs root_path additional args d =
     (case Option.bind (jget args ''edits'') as_array of
        Some batch \<Rightarrow> invoke_multi io undo_io order fs root_path additional batch d
      | None \<Rightarrow>
          let (r, d') = invoke_single (io (str_or args ''path'' [])) fs root_path additional args d
          in (r, None, d'))"

section \<open>A failed edit changes nothing\<close>

lemma after_write_other:
  assumes "p \<noteq> target" "d p \<noteq> None"
  shows "after_write (atomic_write_bytes io target content d) p = d p"
proof (cases "p = temp_sibling io target")
  case False
  then show ?thesis
    using after_write_frame [of p target io content d] assms by auto
next
  case True
  obtain b d1 where c: "create_parents io target d = (b, d1)"
    by (cases "create_parents io target d")
  have "d1 p = d p"
    using create_parents_temp [of io target d] True by (simp add: c)
  with True assms(2) show ?thesis
    by (simp add: after_write_def atomic_write_bytes_def c Let_def)
qed

lemma after_write_target:
  "after_write (atomic_write_bytes io target content d) target =
     (if fst (atomic_write_bytes io target content d) then Some (Text_File PRIVATE_MODE content) else d target)"
proof -
  obtain ok ds where r: "atomic_write_bytes io target content d = (ok, ds)"
    by (cases "atomic_write_bytes io target content d")
  with atomic_write_all_or_nothing_aux [OF r] last_in_set [of ds] show ?thesis
    by (auto simp: after_write_def)
qed

text \<open>The text at a path, whatever its permission bits.\<close>

fun text_of :: "node option \<Rightarrow> ustr option" where
  "text_of (Some (Text_File m s)) = Some s"
| "text_of _ = None"

text \<open>\<open>d\<close> still holds everything \<open>d0\<close> held, up to permission bits, except at the targets \<open>ts\<close>.\<close>

definition holds_except :: "path set \<Rightarrow> disk \<Rightarrow> disk \<Rightarrow> bool" where
  "holds_except ts d0 d \<longleftrightarrow> (\<forall>p. d0 p \<noteq> None \<longrightarrow> d p \<noteq> None) \<and>
     (\<forall>p. d0 p \<noteq> None \<and> p \<notin> ts \<longrightarrow> d p = d0 p \<or> text_of (d0 p) \<noteq> None \<and> text_of (d p) = text_of (d0 p))"

lemma holds_refl: "holds_except {} d d"
  by (simp add: holds_except_def)

lemma holds_write:
  assumes "holds_except ts d0 d"
  shows "holds_except (insert t ts) d0 (after_write (atomic_write_bytes io t content d))"
  using assms after_write_other [of _ t d io content] after_write_target [of io t content d]
  unfolding holds_except_def by (metis insertCI option.distinct(1))

lemma holds_failed_write:
  assumes "holds_except ts d0 d" "\<not> fst (atomic_write_bytes io t content d)"
  shows "holds_except ts d0 (after_write (atomic_write_bytes io t content d))"
  using assms after_write_other [of _ t d io content] after_write_target [of io t content d]
  unfolding holds_except_def by metis

lemma holds_restore:
  assumes "holds_except (insert t ts) d0 d" "text_of (d0 t) = Some s" "fst (atomic_write_bytes io t s d)"
  shows "holds_except ts d0 (after_write (atomic_write_bytes io t s d))"
proof -
  have t: "after_write (atomic_write_bytes io t s d) t = Some (Text_File PRIVATE_MODE s)"
    using assms(3) by (simp add: after_write_target)
  have o: "after_write (atomic_write_bytes io t s d) p = d p" if "p \<noteq> t" "d0 p \<noteq> None" for p
    using that assms(1) by (intro after_write_other) (auto simp: holds_except_def)
  show ?thesis
    unfolding holds_except_def
  proof (intro conjI allI impI)
    fix p assume p: "d0 p \<noteq> None"
    show "after_write (atomic_write_bytes io t s d) p \<noteq> None"
      using p t o assms(1) by (cases "p = t") (auto simp: holds_except_def)
  next
    fix p assume p: "d0 p \<noteq> None \<and> p \<notin> ts"
    show "after_write (atomic_write_bytes io t s d) p = d0 p \<or>
        text_of (d0 p) \<noteq> None \<and> text_of (after_write (atomic_write_bytes io t s d) p) = text_of (d0 p)"
      using p t o assms(1,2) by (cases "p = t") (auto simp: holds_except_def)
  qed
qed

lemma rollback_restores:
  assumes "holds_except (bf_resolved ` set fs) d0 d" "\<forall>f \<in> set fs. text_of (d0 (bf_resolved f)) = Some (bf_before f)"
    and "rollback io fs d = (True, d')"
  shows "holds_except {} d0 d'"
  using assms
proof (induction fs arbitrary: d)
  case (Cons f fs)
  let ?r = "atomic_write_bytes (io (bf_path f)) (bf_resolved f) (bf_before f) d"
  have "fst ?r" "rollback io fs (after_write ?r) = (True, d')"
    using Cons.prems(3) by (auto simp: Let_def split: prod.splits)
  moreover have "holds_except (bf_resolved ` set fs) d0 (after_write ?r)"
    using Cons.prems \<open>fst ?r\<close> by (intro holds_restore) auto
  ultimately show ?case
    using Cons by simp
qed simp

lemma write_batch_atomic:
  assumes "holds_except (bf_resolved ` set written) d0 d"
    and "\<forall>f \<in> set written \<union> set fs. text_of (d0 (bf_resolved f)) = Some (bf_before f)"
    and "write_batch io undo_io written fs d = (Rolled_Back True, d')"
  shows "holds_except {} d0 d'"
  using assms
proof (induction fs arbitrary: written d)
  case (Cons f fs)
  let ?r = "atomic_write_bytes (io (bf_path f)) (bf_resolved f) (bf_after f) d"
  show ?case
  proof (cases "fst ?r")
    case True
    have "holds_except (bf_resolved ` set (f # written)) d0 (after_write ?r)"
      using holds_write [OF Cons.prems(1)] by simp
    then show ?thesis
      using Cons.IH [of "f # written" "after_write ?r"] Cons.prems True by simp
  next
    case False
    then have "rollback undo_io written (after_write ?r) = (True, d')"
      using Cons.prems(3) by (auto simp: Let_def split: prod.splits)
    with Cons.prems(2) holds_failed_write [OF Cons.prems(1) False] show ?thesis
      by (intro rollback_restores) auto
  qed
qed simp

lemma write_batch_done:
  assumes "write_batch io undo_io written fs d = (All_Written, d')" "distinct (map bf_resolved fs)"
  shows "(\<forall>f \<in> set fs. text_of (d' (bf_resolved f)) = Some (bf_after f)) \<and>
         (\<forall>p. d p \<noteq> None \<and> p \<notin> bf_resolved ` set fs \<longrightarrow> d' p = d p)"
  using assms
proof (induction fs arbitrary: written d)
  case (Cons f fs)
  let ?r = "atomic_write_bytes (io (bf_path f)) (bf_resolved f) (bf_after f) d"
  have ok: "fst ?r" and w: "write_batch io undo_io (f # written) fs (after_write ?r) = (All_Written, d')"
    using Cons.prems(1) by (auto simp: Let_def split: prod.splits if_splits)
  have t: "after_write ?r (bf_resolved f) = Some (Text_File PRIVATE_MODE (bf_after f))"
    using ok by (simp add: after_write_target)
  from Cons.IH [OF w] Cons.prems(2) t
  have ih: "\<forall>g \<in> set fs. text_of (d' (bf_resolved g)) = Some (bf_after g)"
    "\<And>p. after_write ?r p \<noteq> None \<Longrightarrow> p \<notin> bf_resolved ` set fs \<Longrightarrow> d' p = after_write ?r p"
    by auto
  have "d' (bf_resolved f) = after_write ?r (bf_resolved f)"
    using Cons.prems(2) t by (intro ih(2)) auto
  moreover have "d' p = d p" if "d p \<noteq> None" "p \<noteq> bf_resolved f" "p \<notin> bf_resolved ` set fs" for p
    using ih(2) [of p] after_write_other [of p "bf_resolved f" d] that by simp
  ultimately show ?case
    using ih(1) t by auto
qed auto

lemma read_batch_texts:
  "read_batch fs root additional d ps = Inr bs \<Longrightarrow>
     length bs = length ps \<and> (\<forall>(q, before) \<in> set bs. text_of (d q) = Some before)"
proof (induction ps arbitrary: bs)
  case (Cons p ps)
  then obtain q before rest where "bs = (q, before) # rest" "read_batch fs root additional d ps = Inr rest"
    "read_existing d q (lit ''replace'') = Some before"
    by (auto split: sum.splits prod.splits if_splits option.splits)
  with Cons.IH show ?case
    by (auto simp: read_existing_def split: option.splits node.splits if_splits)
qed simp

lemma apply_batch_files:
  "apply_batch es = Inr files \<Longrightarrow>
     map (\<lambda>(f, out). (bf_path f, bf_resolved f, bf_before f)) files = map snd es"
  by (induction es arbitrary: files rule: apply_batch.induct) (auto split: option.splits sum.splits prod.splits if_splits)

lemma apply_batch_before:
  assumes "apply_batch (zip batch (zip ps bs)) = Inr files" "f \<in> fst ` set files"
  shows "(bf_resolved f, bf_before f) \<in> set bs"
proof -
  have "(bf_path f, bf_resolved f, bf_before f) \<in> set (map snd (zip batch (zip ps bs)))"
    using assms(2) by (force simp: apply_batch_files [OF assms(1), symmetric])
  then have "(bf_path f, bf_resolved f, bf_before f) \<in> set (zip ps bs)"
    using set_zip_rightD by fastforce
  then show ?thesis
    by (rule set_zip_rightD)
qed

lemma invoke_multi_files:
  assumes "invoke_multi io undo_io order fs root_path additional batch d = (res, fin, d')" "fin \<noteq> None"
  obtains files ps bs where "apply_batch (zip batch (zip ps bs)) = Inr files" "batch_paths batch [] = Inr ps"
    "\<forall>f \<in> fst ` set files. text_of (d (bf_resolved f)) = Some (bf_before f)"
    "write_batch io undo_io [] (order (map fst files)) d = (the fin, d')"
    "fin = Some All_Written \<and> res = Edited (map snd files) \<or> (\<exists>ok. fin = Some (Rolled_Back ok)) \<and> res = Fault Not_Written"
proof -
  obtain ps root bs files where p: "batch_paths batch [] = Inr ps"
    and r: "read_batch fs root additional d ps = Inr bs" and a: "apply_batch (zip batch (zip ps bs)) = Inr files"
    and w: "write_batch io undo_io [] (order (map fst files)) d = (the fin, d')"
    and e: "fin = Some All_Written \<and> res = Edited (map snd files) \<or> (\<exists>ok. fin = Some (Rolled_Back ok)) \<and> res = Fault Not_Written"
    using assms by (auto simp: invoke_multi_def split: if_splits sum.splits prod.splits batch_end.splits)
  have "\<forall>f \<in> fst ` set files. text_of (d (bf_resolved f)) = Some (bf_before f)"
    using read_batch_texts [OF r] apply_batch_before [OF a] by fast
  with that [OF a p] w e show thesis
    by blast
qed

lemma batch_errors:
  "batch_paths es seen \<noteq> Inl (Edited outs)"
  "read_batch fs root additional d ps \<noteq> Inl (Edited outs)"
  "apply_batch qs \<noteq> Inl (Edited outs)"
proof -
  show "batch_paths es seen \<noteq> Inl (Edited outs)"
    by (induction es arbitrary: seen) (auto split: option.splits)
  show "read_batch fs root additional d ps \<noteq> Inl (Edited outs)"
    by (induction ps) (auto split: sum.splits prod.splits option.splits)
  show "apply_batch qs \<noteq> Inl (Edited outs)"
  proof (induction qs)
    case (Cons q qs)
    then show ?case
      by (cases q) (auto split: option.splits sum.splits prod.splits)
  qed simp
qed

lemma invoke_multi_None:
  "invoke_multi io undo_io order fs root_path additional batch d = (res, None, d') \<Longrightarrow> d' = d"
  by (auto simp: invoke_multi_def split: if_splits sum.splits prod.splits batch_end.splits)

lemma invoke_single_failed:
  assumes "invoke_single io fs root_path additional args d = (res, d')" "\<nexists>outs. res = Edited outs"
  shows "holds_except {} d d'"
proof (cases "d' = d")
  case False
  with assms obtain resolved content where "d' = after_write (atomic_write_bytes io resolved content d)"
    "\<not> fst (atomic_write_bytes io resolved content d)"
    by (auto simp: invoke_single_def Let_def split: option.splits sum.splits prod.splits if_splits)
  with holds_failed_write [OF holds_refl] show ?thesis
    by blast
qed (simp add: holds_refl)

text \<open>
  C17 (error). An edit is all or nothing. Whenever the tool does not report success (a missing
  anchor, an ambiguous one, a read-only folder, a failing system call, in one edit or anywhere in a
  batch), every file keeps its text and every other entry of the disk stays: of a batch nothing is
  left behind half done, whatever the order of the files, provided only that the writes of the
  rollback itself did not fail too.
\<close>
theorem failed_edit_changes_nothing:
  assumes "invoke_edit io undo_io order fs root_path additional args d = (res, fin, d')"
    and "\<And>fs. set (order fs) = set fs" "\<nexists>outs. res = Edited outs" "fin \<noteq> Some (Rolled_Back False)"
  shows "holds_except {} d d'"
proof (cases "Option.bind (jget args ''edits'') as_array")
  case None
  then show ?thesis
    using assms(1,3) invoke_single_failed by (auto simp: invoke_edit_def split: prod.splits)
next
  case (Some batch)
  with assms(1) have m: "invoke_multi io undo_io order fs root_path additional batch d = (res, fin, d')"
    by (simp add: invoke_edit_def)
  show ?thesis
  proof (cases "fin = None")
    case True
    with invoke_multi_None m holds_refl show ?thesis
      by metis
  next
    case False
    then obtain files where f: "\<forall>f \<in> fst ` set files. text_of (d (bf_resolved f)) = Some (bf_before f)"
      and w: "write_batch io undo_io [] (order (map fst files)) d = (the fin, d')"
      and e: "fin = Some All_Written \<and> res = Edited (map snd files) \<or> (\<exists>ok. fin = Some (Rolled_Back ok)) \<and> res = Fault Not_Written"
      by (rule invoke_multi_files [OF m])
    then have "the fin = Rolled_Back True"
      using assms(3,4) by auto
    with w have "write_batch io undo_io [] (order (map fst files)) d = (Rolled_Back True, d')"
      by simp
    with f assms(2) show ?thesis
      by (intro write_batch_atomic [of "[]"]) (auto simp: holds_refl)
  qed
qed

text \<open>Two files, of which the second cannot be written.\<close>

definition demo_batch :: "json list" where
  "demo_batch =
     [JObj [(lit ''path'', JStr (lit ''a'')), (lit ''old_string'', JStr (lit ''old'')), (lit ''new_string'', JStr (lit ''new''))],
      JObj [(lit ''path'', JStr (lit ''b'')), (lit ''old_string'', JStr (lit ''bee'')), (lit ''new_string'', JStr (lit ''x''))]]"

definition demo_disk2 :: disk where
  "demo_disk2 = demo_disk([lit ''w'', lit ''b''] \<mapsto> Text_File 420 (lit ''bee''))"

definition failing_io :: "ustr \<Rightarrow> write_io" where
  "failing_io p = demo_io\<lparr>rename_ok := p \<noteq> lit ''b''\<rparr>"

lemma demo_read:
  "read_batch demo_fs [lit ''w''] [] demo_disk2 [lit ''a'', lit ''b''] =
     Inr [([lit ''w'', lit ''a''], lit ''old''), ([lit ''w'', lit ''b''], lit ''bee'')]"
proof -
  have r: "resolve_target_in demo_fs [lit ''w''] [] (lit ''a'') = Inr ([lit ''w'', lit ''a''], True)"
    "resolve_target_in demo_fs [lit ''w''] [] (lit ''b'') = Inr ([lit ''w'', lit ''b''], True)"
    by code_simp+
  have "utf8_len (lit ''old'') \<le> 10" "utf8_len (lit ''bee'') \<le> 10"
    by code_simp+
  then show ?thesis
    by (simp add: r read_existing_def demo_disk2_def demo_disk_def MAX_EDIT_BYTES_def)
qed

lemma demo_apply:
  "\<exists>files. apply_batch (zip demo_batch (zip [lit ''a'', lit ''b''] [([lit ''w'', lit ''a''], lit ''old''), ([lit ''w'', lit ''b''], lit ''bee'')])) =
       Inr files \<and>
     map fst files =
       [\<lparr>bf_path = lit ''a'', bf_resolved = [lit ''w'', lit ''a''], bf_before = lit ''old'', bf_after = lit ''new''\<rparr>,
        \<lparr>bf_path = lit ''b'', bf_resolved = [lit ''w'', lit ''b''], bf_before = lit ''bee'', bf_after = lit ''x''\<rparr>]"
proof -
  have r: "replace (lit ''old'') (lit ''old'') (lit ''new'') False = Inr (lit ''new'', 1)"
    "replace (lit ''bee'') (lit ''bee'') (lit ''x'') False = Inr (lit ''x'', 1)"
    by code_simp+
  have "utf8_len (lit ''new'') \<le> 10" "utf8_len (lit ''x'') \<le> 10"
    by code_simp+
  then show ?thesis
    by (simp add: demo_batch_def str_arg_def bool_or_def r MAX_EDIT_BYTES_def)
qed

lemma invoke_multi_rolled_back:
  assumes "batch \<noteq> []" "batch_paths batch [] = Inr ps" "resolve_context_root fs root_path = Inr root"
    "read_batch fs root additional d ps = Inr bs" "apply_batch (zip batch (zip ps bs)) = Inr files"
    "write_batch io undo_io [] (order (map fst files)) d = (Rolled_Back ok, d')"
  shows "invoke_multi io undo_io order fs root_path additional batch d = (Fault Not_Written, Some (Rolled_Back ok), d')"
  using assms by (simp add: invoke_multi_def)

theorem failed_edit_changes_nothing_witness:
  "\<exists>d'. invoke_edit failing_io (\<lambda>_. demo_io) (\<lambda>fs. fs) demo_fs (Some (lit ''/w'')) [] (JObj [(lit ''edits'', JArr demo_batch)]) demo_disk2 =
       (Fault Not_Written, Some (Rolled_Back True), d') \<and>
     holds_except {} demo_disk2 d'"
proof -
  let ?fs = "[\<lparr>bf_path = lit ''a'', bf_resolved = [lit ''w'', lit ''a''], bf_before = lit ''old'', bf_after = lit ''new''\<rparr>,
        \<lparr>bf_path = lit ''b'', bf_resolved = [lit ''w'', lit ''b''], bf_before = lit ''bee'', bf_after = lit ''x''\<rparr>]"
  let ?w = "write_batch failing_io (\<lambda>_. demo_io) [] ?fs demo_disk2"
  have c: "resolve_context_root demo_fs (Some (lit ''/w'')) = Inr [lit ''w'']"
    by code_simp
  have p: "batch_paths demo_batch [] = Inr [lit ''a'', lit ''b'']" "demo_batch \<noteq> []"
    by code_simp+
  have "fst ?w = Rolled_Back True"
    by code_simp
  then obtain d' where w: "?w = (Rolled_Back True, d')"
    by (metis prod.collapse)
  have e: "invoke_edit failing_io (\<lambda>_. demo_io) (\<lambda>fs. fs) demo_fs (Some (lit ''/w'')) [] (JObj [(lit ''edits'', JArr demo_batch)]) demo_disk2 =
       (Fault Not_Written, Some (Rolled_Back True), d')"
  proof -
    obtain files where a: "apply_batch (zip demo_batch (zip [lit ''a'', lit ''b''] [([lit ''w'', lit ''a''], lit ''old''), ([lit ''w'', lit ''b''], lit ''bee'')])) = Inr files"
      and m: "map fst files = ?fs"
      using demo_apply by (elim exE conjE) (rule that)
    have "write_batch failing_io (\<lambda>_. demo_io) [] (map fst files) demo_disk2 = (Rolled_Back True, d')"
      using w by (simp only: m)
    then have "invoke_multi failing_io (\<lambda>_. demo_io) (\<lambda>fs. fs) demo_fs (Some (lit ''/w'')) [] demo_batch demo_disk2 =
        (Fault Not_Written, Some (Rolled_Back True), d')"
      by (rule invoke_multi_rolled_back [OF p(2,1) c demo_read a])
    moreover have "Option.bind (jget (JObj [(lit ''edits'', JArr demo_batch)]) ''edits'') as_array = Some demo_batch"
      by simp
    ultimately show ?thesis
      by (simp only: invoke_edit_def option.case)
  qed
  from failed_edit_changes_nothing [OF e] e show ?thesis
    by auto
qed

text \<open>
  The duplicate check compares the strings of the paths, not the files: two spellings of one file
  pass it, both edits start from the old text, both are reported, and one of them is lost.
\<close>

definition alias_batch :: "json list" where
  "alias_batch =
     [JObj [(lit ''path'', JStr (lit ''a'')), (lit ''old_string'', JStr (lit ''o'')), (lit ''new_string'', JStr (lit ''x''))],
      JObj [(lit ''path'', JStr (lit ''./a'')), (lit ''old_string'', JStr (lit ''d'')), (lit ''new_string'', JStr (lit ''y''))]]"

lemma alias_edit_lost:
  "batch_paths alias_batch [] = Inr [lit ''a'', lit ''./a''] \<and>
   resolve_target_in demo_fs [lit ''w''] [] (lit ''a'') = resolve_target_in demo_fs [lit ''w''] [] (lit ''./a'') \<and>
   replace (lit ''old'') (lit ''o'') (lit ''x'') False = Inr (lit ''xld'', 1) \<and>
   replace (lit ''old'') (lit ''d'') (lit ''y'') False = Inr (lit ''oly'', 1) \<and>
   (case write_batch (\<lambda>_. demo_io) (\<lambda>_. demo_io) []
        [\<lparr>bf_path = lit ''a'', bf_resolved = [lit ''w'', lit ''a''], bf_before = lit ''old'', bf_after = lit ''xld''\<rparr>,
         \<lparr>bf_path = lit ''./a'', bf_resolved = [lit ''w'', lit ''a''], bf_before = lit ''old'', bf_after = lit ''oly''\<rparr>]
        demo_disk2 of
      (e, d') \<Rightarrow> e = All_Written \<and> text_of (d' [lit ''w'', lit ''a'']) = Some (lit ''oly''))"
  by code_simp

section \<open>What a replacement does\<close>

lemma str_count_Nil: "str_count [] s = 0"
  by (induction s) (simp_all add: str_count.simps [of "[]"])

lemma str_count_0: "pat \<noteq> [] \<Longrightarrow> str_count pat s = 0 \<longleftrightarrow> \<not> str_contains s pat"
proof (induction pat s rule: str_count.induct)
  case (1 pat s)
  show ?case
  proof (cases "starts_with s pat")
    case True
    with 1(3) show ?thesis
      by (simp add: str_count.simps [of pat s] str_contains_def str_find.simps [of pat s])
  next
    case False
    show ?thesis
    proof (cases s)
      case Nil
      with False 1(3) show ?thesis
        by (simp add: str_count.simps [of pat "[]"] str_contains_def str_find.simps [of pat "[]"])
    next
      case (Cons c t)
      with False 1(2) [OF _ Cons] 1(3) show ?thesis
        by (simp add: str_count.simps [of pat "c # t"] str_contains_def str_find.simps [of pat "c # t"])
    qed
  qed
qed

lemma str_replace_first_ok:
  assumes "str_contains s pat"
  shows "\<exists>u v. s = u @ pat @ v \<and> str_replace_first pat new s = u @ new @ v"
proof -
  obtain i where i: "str_find pat s = Some i"
    using assms by (auto simp: str_contains_def)
  from str_find_Some [OF i] have "s = take i s @ pat @ drop (i + length pat) s" by simp
  with i show ?thesis
    unfolding str_replace_first_def by (metis option.case(2))
qed

lemma loose_walk_first:
  assumes "needle \<noteq> []" "map edit_trim_end source = xs @ needle @ ys"
  shows "\<exists>us m vs. source = us @ m @ vs \<and> map edit_trim_end m = needle \<and>
           loose_walk needle replacement False source = us @ replacement @ vs"
  using assms(2)
proof (induction source arbitrary: xs)
  case Nil
  then show ?case
    using assms(1) by simp
next
  case (Cons l ls)
  let ?n = "length needle"
  show ?case
  proof (cases "?n \<le> length (l # ls) \<and> map edit_trim_end (take ?n (l # ls)) = needle")
    case True
    then show ?thesis
      using assms(1)
      by (intro exI [of _ "[]"] exI [of _ "take ?n (l # ls)"] exI [of _ "drop ?n (l # ls)"])
         (simp del: take_Suc_Cons)
  next
    case False
    have "xs \<noteq> []"
    proof
      assume "xs = []"
      with Cons.prems have m: "map edit_trim_end (l # ls) = needle @ ys" by simp
      then have "?n \<le> length (l # ls)" "take ?n (map edit_trim_end (l # ls)) = needle"
        by (metis length_append length_map le_add1, simp add: m)
      with False show False
        by (metis take_map)
    qed
    then obtain xs' where "map edit_trim_end ls = xs' @ needle @ ys"
      using Cons.prems by (cases xs) auto
    from Cons.IH [OF this] obtain us m vs where "ls = us @ m @ vs" "map edit_trim_end m = needle"
      "loose_walk needle replacement False ls = us @ replacement @ vs"
      by blast
    moreover have "loose_walk needle replacement False (l # ls) = l # loose_walk needle replacement False ls"
      using False by (simp only: loose_walk.simps) auto
    ultimately show ?thesis
      by (intro exI [of _ "l # us"] exI [of _ m] exI [of _ vs]) simp
  qed
qed

lemma loose_occurrences_pos:
  assumes "0 < loose_occurrences content old"
  shows "\<exists>xs ys. map edit_trim_end (str_lines content) = xs @ map edit_trim_end (str_lines old) @ ys"
proof -
  let ?s = "map edit_trim_end (str_lines content)" and ?n = "map edit_trim_end (str_lines old)"
  obtain i where "take (length ?n) (drop i ?s) = ?n"
    using assms by (auto simp: loose_occurrences_def Let_def length_greater_0_conv filter_empty_conv)
  then have "?s = take i ?s @ ?n @ drop (length ?n) (drop i ?s)"
    by (metis append_take_drop_id)
  then show ?thesis
    by blast
qed

lemma str_lines_ne: "s \<noteq> [] \<Longrightarrow> str_lines s \<noteq> []"
proof (cases s)
  case (Cons c t)
  then show ?thesis
    by (cases "str_split (\<lambda>c. c = 10) t") (auto simp: str_lines_def Let_def)
qed simp

definition with_final_newline :: "ustr \<Rightarrow> ustr \<Rightarrow> ustr" where
  "with_final_newline content s = (if ends_with content [10] \<and> \<not> ends_with s [10] then s @ [10] else s)"

text \<open>The anchor and replacement that are used: as given, or both without line numbers.\<close>

definition anchor_choice :: "ustr \<Rightarrow> ustr \<Rightarrow> ustr \<Rightarrow> ustr \<Rightarrow> bool" where
  "anchor_choice old0 new0 old new \<longleftrightarrow>
     old = old0 \<and> new = new0 \<or>
     strip_line_number_prefixes old0 = Some old \<and>
     new = (case strip_line_number_prefixes new0 of Some r \<Rightarrow> r | None \<Rightarrow> new0)"

text \<open>
  What one replacement does. When \<open>replace\<close> succeeds without \<open>replaceAll\<close>, it counted
  exactly one match and changed it in place: the file is the text before the anchor, the replacement
  and the text after it, untouched; or, where only trailing whitespace differs, the same with whole
  lines, every other line of the file kept and the final newline restored. The anchor is the given one
  or, only when that matches nowhere, the given one without the line numbers of a read page.
\<close>
theorem replace_once:
  assumes "replace content old0 new0 False = Inr (updated, n)"
  shows "n = 1 \<and>
     (\<exists>old new. anchor_choice old0 new0 old new \<and> old \<noteq> [] \<and> old \<noteq> new \<and>
        (str_count old content = 1 \<and> (\<exists>u v. content = u @ old @ v \<and> updated = u @ new @ v) \<or>
         \<not> str_contains content old \<and>
         (\<exists>us m vs. str_lines content = us @ m @ vs \<and>
            map edit_trim_end m = map edit_trim_end (str_lines old) \<and>
            updated = with_final_newline content (str_join [10] (us @ str_lines new @ vs)))))"
proof -
  obtain old new where c: "anchor_choice old0 new0 old new" "old \<noteq> []" "old \<noteq> new"
    and r: "if str_count old content = 0 then
              0 < loose_occurrences content old \<and> \<not> loose_occurrences content old > 1 \<and>
              updated = loose_replace content old new False \<and> n = loose_occurrences content old
            else str_count old content = 1 \<and> updated = str_replace_first old new content \<and> n = 1"
  proof -
    obtain old new where ch: "choose_anchor content old0 new0 = (old, new)"
      by (cases "choose_anchor content old0 new0")
    then have "anchor_choice old0 new0 old new"
      by (auto simp: choose_anchor_def anchor_choice_def split: if_splits option.splits)
    moreover have "old \<noteq> []" "old \<noteq> new" "replace_anchor content old new False = Inr (updated, n)"
      using assms by (auto simp: replace_def ch split: if_splits)
    ultimately show thesis
      by (intro that [of old new]) (auto simp: replace_anchor_def Let_def split: if_splits)
  qed
  show ?thesis
  proof (cases "str_count old content = 0")
    case True
    with r have l: "loose_occurrences content old = 1" "updated = loose_replace content old new False" "n = 1"
      by auto
    let ?n = "map edit_trim_end (str_lines old)"
    obtain xs ys where "map edit_trim_end (str_lines content) = xs @ ?n @ ys"
      using loose_occurrences_pos [of content old] l(1) by auto
    moreover have "?n \<noteq> []"
      using str_lines_ne [OF c(2)] by simp
    ultimately obtain us m vs where "str_lines content = us @ m @ vs" "map edit_trim_end m = ?n"
      "loose_walk ?n (str_lines new) False (str_lines content) = us @ str_lines new @ vs"
      using loose_walk_first by metis
    then show ?thesis
      using c l True str_count_0 [OF c(2), of content]
      by (intro conjI exI [of _ old] exI [of _ new]) (auto simp: loose_replace_def with_final_newline_def Let_def)
  next
    case False
    with r have "str_count old content = 1" "n = 1" "updated = str_replace_first old new content"
      by auto
    with False c str_replace_first_ok [of content old new] str_count_0 [OF c(2), of content] show ?thesis
      by (intro conjI exI [of _ old] exI [of _ new]) auto
  qed
qed

theorem replace_once_witness:
  "replace (lit ''ab ab'') (lit ''b a'') (lit ''x'') False = Inr (lit ''axb'', 1) \<and> (1::nat) = 1"
proof
  show r: "replace (lit ''ab ab'') (lit ''b a'') (lit ''x'') False = Inr (lit ''axb'', 1)"
    by code_simp
  show "(1::nat) = 1"
    using replace_once [OF r] by simp
qed

text \<open>
  Matches are counted without overlaps, so an anchor that occurs twice can pass for unique; and a
  tolerant match rewrites every line ending of the file.
\<close>

lemma overlap_passes: "replace (lit ''aaa'') (lit ''aa'') (lit ''b'') False = Inr (lit ''ba'', 1)"
  by code_simp

lemma tolerant_match_drops_cr:
  "replace [97, 32, 13, 10, 98, 13, 10] [97, 10] [99] False = Inr ([99, 10, 98, 10], 1)"
  by code_simp

section \<open>Anchors copied from a read page\<close>

lemma show_nat_digits: "\<forall>c \<in> set (show_nat n). is_ascii_digit c"
  by (induction n rule: show_nat.induct) (subst show_nat.simps, auto simp: is_ascii_digit_def)

lemma show_nat_ne [simp]: "show_nat n \<noteq> []"
  by (subst show_nat.simps) simp

lemma show_nat_length: "n < 10 ^ k \<Longrightarrow> 0 < k \<Longrightarrow> length (show_nat n) \<le> k"
proof (induction k arbitrary: n)
  case (Suc k)
  show ?case
  proof (cases "n < 10")
    case True
    then show ?thesis
      by (subst show_nat.simps) simp
  next
    case False
    then have "0 < k"
      using Suc.prems(1) by (cases k) auto
    moreover have "n div 10 < 10 ^ k"
      using Suc.prems(1) by (simp add: div_less_iff_less_mult mult.commute)
    ultimately show ?thesis
      using Suc.IH [of "n div 10"] False by (subst show_nat.simps) simp
  qed
qed simp

lemma strip_number_prefix: "n < 10 ^ 9 \<Longrightarrow> strip_number (line_prefix n @ l) = Some l"
proof -
  assume n: "n < 10 ^ 9"
  let ?t = "show_nat n @ 9 # l"
  have "hd ?t \<noteq> 32"
    using show_nat_digits [of n] by (cases "show_nat n") (auto simp: is_ascii_digit_def)
  then have d: "dropWhile (\<lambda>c. c = 32) (line_prefix n @ l) = ?t"
    by (cases "show_nat n") (auto simp: line_prefix_def pad_left_def dropWhile_append)
  have t: "takeWhile is_ascii_digit ?t = show_nat n"
    using show_nat_digits [of n] by (simp add: takeWhile_append is_ascii_digit_def)
  have "length (show_nat n) \<le> 9"
    using show_nat_length [OF n] by simp
  then show ?thesis
    by (simp add: strip_number.simps d t Let_def strip_prefix_def starts_with_Cons)
qed

lemma strip_numbers_lines:
  "a + length ls \<le> 10 ^ 9 \<Longrightarrow> strip_numbers (numbered_lines a ls) = Some ls"
  by (induction ls arbitrary: a) (auto simp: strip_number_prefix)

lemma str_split_no_sep: "\<forall>c \<in> set x. \<not> p c \<Longrightarrow> str_split p (x @ s) = (case str_split p s of [] \<Rightarrow> [x] | w # ws \<Rightarrow> (x @ w) # ws)"
  by (induction x) (auto split: list.splits)

lemma str_split_join:
  "xs \<noteq> [] \<Longrightarrow> \<forall>x \<in> set xs. 10 \<notin> set x \<Longrightarrow> str_split (\<lambda>c. c = 10) (str_join [10] xs) = xs"
proof (induction xs)
  case (Cons x xs)
  note IH = Cons.IH and prems = Cons.prems
  show ?case
  proof (cases xs)
    case Nil
    with prems(2) show ?thesis
      using str_split_no_sep [of x "\<lambda>c. c = 10" "[]"] by auto
  next
    case (Cons y ys)
    with IH prems(2) show ?thesis
      using str_split_no_sep [of x "\<lambda>c. c = 10" "10 # str_join [10] (y # ys)"] by auto
  qed
qed simp

lemma str_lines_join:
  assumes "xs \<noteq> []" "\<forall>x \<in> set xs. 10 \<notin> set x \<and> (x = [] \<or> last x \<noteq> 13)" "last xs \<noteq> []"
  shows "str_lines (str_join [10] xs) = xs"
proof -
  have "map strip_cr (butlast xs) = butlast xs"
    using assms(2) by (intro map_idI) (auto simp: strip_cr_def dest: in_set_butlastD)
  then show ?thesis
    using assms str_split_join [of xs] by (simp add: str_lines_def)
qed

lemma str_join_snoc: "str_join sep (xs @ [x]) = (if xs = [] then x else str_join sep xs @ sep @ x)"
  by (induction sep xs rule: str_join.induct) auto

lemma last_str_join: "xs \<noteq> [] \<Longrightarrow> last xs \<noteq> [] \<Longrightarrow> str_join sep xs \<noteq> [] \<and> last (str_join sep xs) = last (last xs)"
  by (cases xs rule: rev_cases) (auto simp: str_join_snoc)

lemma ends_with_single: "ends_with s [c] \<longleftrightarrow> s \<noteq> [] \<and> last s = c"
  by (cases s rule: rev_cases) (auto simp: ends_with_def starts_with_def)

lemma numbered_lines_set:
  "x \<in> set (numbered_lines a ls) \<Longrightarrow> \<exists>n l. l \<in> set ls \<and> x = line_prefix n @ l"
proof (induction ls arbitrary: a)
  case (Cons l ls)
  then show ?case
    by (cases "x = line_prefix a @ l") fastforce+
qed simp

lemma line_prefix_chars: "c \<in> set (line_prefix n) \<Longrightarrow> c \<noteq> 10 \<and> c \<noteq> 13"
  using show_nat_digits [of n] by (auto simp: line_prefix_def pad_left_def is_ascii_digit_def)

lemma numbered_lines_ne [simp]: "numbered_lines a ls = [] \<longleftrightarrow> ls = []"
  by (cases ls) auto

lemma strip_page:
  assumes "ls \<noteq> []" "\<forall>l \<in> set ls. 10 \<notin> set l \<and> (l = [] \<or> last l \<noteq> 13)" "a + length ls \<le> 10 ^ 9"
  shows "strip_line_number_prefixes (str_join [10] (numbered_lines a ls)) = Some (str_join [10] ls)"
proof -
  let ?xs = "numbered_lines a ls"
  have x: "10 \<notin> set x \<and> last x \<noteq> 13 \<and> last x \<noteq> 10 \<and> x \<noteq> []" if mem: "x \<in> set ?xs" for x
  proof -
    obtain n l where l: "l \<in> set ls" "x = line_prefix n @ l"
      using numbered_lines_set [OF mem] by blast
    then have "l \<noteq> [] \<longrightarrow> last l \<noteq> 10"
      using assms(2) last_in_set [of l] by metis
    with l assms(2) line_prefix_chars [of _ n] last_in_set [of "line_prefix n"] show ?thesis
      by (auto simp: last_append)
  qed
  have ne: "?xs \<noteq> []"
    using assms(1) by simp
  have lines: "str_lines (str_join [10] ?xs) = ?xs"
    using x ne by (intro str_lines_join) auto
  have "\<not> ends_with (str_join [10] ?xs) [10]" "str_join [10] ?xs \<noteq> []"
    using x [of "last ?xs"] ne last_str_join [OF ne] by (auto simp: ends_with_single)
  then show ?thesis
    using strip_numbers_lines [OF assms(3)] assms(1)
    by (simp add: strip_line_number_prefixes_def lines split: list.splits)
qed

lemma str_split_free: "x \<in> set (str_split (\<lambda>c. c = y) s) \<Longrightarrow> y \<notin> set x"
proof (induction s arbitrary: x)
  case (Cons c s)
  then show ?case
    by (cases "str_split (\<lambda>c. c = y) s") (auto split: if_splits)
qed simp

lemma str_lines_free: "l \<in> set (str_lines s) \<Longrightarrow> 10 \<notin> set l"
proof -
  assume "l \<in> set (str_lines s)"
  then have "l \<in> set (str_split (\<lambda>c. c = 10) s) \<union> strip_cr ` set (str_split (\<lambda>c. c = 10) s)"
    by (auto simp: str_lines_def Let_def dest: in_set_butlastD split: if_splits)
  then obtain x where "x \<in> set (str_split (\<lambda>c. c = 10) s)" "l = x \<or> l = strip_cr x"
    by auto
  then show ?thesis
    using str_split_free [of x 10 s] by (auto simp: strip_cr_def dest: in_set_butlastD split: if_splits)
qed

text \<open>The text of lines \<open>a\<close> to \<open>b\<close> without numbers.\<close>

definition plain_text :: "ustr list \<Rightarrow> nat \<Rightarrow> nat \<Rightarrow> ustr" where
  "plain_text ls a b = str_join [10] (take (b - (a - 1)) (drop (a - 1) ls))"

lemma strip_numbered_text:
  assumes "1 \<le> a" "a \<le> b" "b \<le> length ls" "length ls < 10 ^ 9"
    and "\<forall>l \<in> set ls. 10 \<notin> set l \<and> (l = [] \<or> last l \<noteq> 13)"
  shows "strip_line_number_prefixes (numbered_text ls a b) = Some (plain_text ls a b)"
proof -
  let ?k = "b - (a - 1)"
  have k: "a - 1 + ?k = b"
    using assms(1,2) by simp
  have "numbered_text ls a b = str_join [10] (numbered_lines a (take ?k (drop (a - 1) ls)))"
    using numbered_text_lines [of a ?k ls] assms(1,3) by (simp only: k)
  moreover have "take ?k (drop (a - 1) ls) \<noteq> []"
    using assms(1-3) by simp
  moreover have "\<forall>l \<in> set (take ?k (drop (a - 1) ls)). 10 \<notin> set l \<and> (l = [] \<or> last l \<noteq> 13)"
    using assms(5) by (meson in_set_dropD in_set_takeD)
  moreover have "a + length (take ?k (drop (a - 1) ls)) \<le> 10 ^ 9"
    using assms(1-4) by simp
  ultimately show ?thesis
    using strip_page by (simp add: plain_text_def)
qed

text \<open>
  What the model reads it can edit. When the anchor is copied from a read page with its
  line numbers, and these numbers are not in the file itself, \<open>replace\<close> finds exactly the lines that
  the page showed and puts the replacement in their place, leaving the rest of the file as it was. The
  hypotheses: the lines have no carriage return at their end, the region occurs once, and the
  replacement carries no numbers.
\<close>
theorem page_anchor_edits:
  assumes "1 \<le> a" "a \<le> b" "b \<le> length (str_lines full)" "length (str_lines full) < 10 ^ 9"
    and "\<forall>l \<in> set (str_lines full). l = [] \<or> last l \<noteq> 13"
    and "\<not> str_contains full (numbered_text (str_lines full) a b)"
    and "loose_occurrences full (numbered_text (str_lines full) a b) = 0"
    and "str_count (plain_text (str_lines full) a b) full = 1"
    and "strip_line_number_prefixes new = None" "new \<noteq> plain_text (str_lines full) a b" "new \<noteq> numbered_text (str_lines full) a b"
  shows "\<exists>u v. full = u @ plain_text (str_lines full) a b @ v \<and>
           replace full (numbered_text (str_lines full) a b) new False = Inr (u @ new @ v, 1)"
proof -
  let ?A = "numbered_text (str_lines full) a b" and ?S = "plain_text (str_lines full) a b"
  have strip: "strip_line_number_prefixes ?A = Some ?S"
    using assms(1-5) str_lines_free by (intro strip_numbered_text) auto
  then have "?A \<noteq> []"
    by (auto simp: strip_line_number_prefixes_def)
  moreover have "?S \<noteq> []"
    using assms(8) by (metis One_nat_def list.exhaust n_not_Suc_n str_count_Nil)
  ultimately have r: "replace full ?A new False = Inr (str_replace_first ?S new full, 1)"
    using assms(6-11) strip by (simp add: replace_def choose_anchor_def replace_anchor_def Let_def)
  have "str_contains full ?S"
    using str_count_0 [of ?S full] \<open>?S \<noteq> []\<close> assms(8) by auto
  from str_replace_first_ok [OF this, of new] r show ?thesis
    by auto
qed

theorem page_anchor_edits_witness:
  "replace (lit [CHR ''a'', CHR 0x0A, CHR ''b'', CHR 0x0A]) (lit (''     2'' @ [CHR 0x09, CHR ''b''])) (lit ''x'') False =
     Inr (lit [CHR ''a'', CHR 0x0A, CHR ''x'', CHR 0x0A], 1) \<and>
   (\<exists>u v. lit [CHR ''a'', CHR 0x0A, CHR ''b'', CHR 0x0A] = u @ lit ''b'' @ v)"
proof
  let ?f = "lit [CHR ''a'', CHR 0x0A, CHR ''b'', CHR 0x0A]"
  have l: "str_lines ?f = [lit ''a'', lit ''b'']" and p: "plain_text [lit ''a'', lit ''b''] 2 2 = lit ''b''"
    by code_simp+
  have h: "\<not> str_contains ?f (numbered_text [lit ''a'', lit ''b''] 2 2)"
    "loose_occurrences ?f (numbered_text [lit ''a'', lit ''b''] 2 2) = 0" "str_count (lit ''b'') ?f = 1"
    "strip_line_number_prefixes (lit ''x'') = None" "lit ''x'' \<noteq> lit ''b''" "lit ''x'' \<noteq> numbered_text [lit ''a'', lit ''b''] 2 2"
    "\<forall>l \<in> set [lit ''a'', lit ''b'']. l = [] \<or> last l \<noteq> 13"
    by code_simp+
  show "replace ?f (lit (''     2'' @ [CHR 0x09, CHR ''b''])) (lit ''x'') False = Inr (lit [CHR ''a'', CHR 0x0A, CHR ''x'', CHR 0x0A], 1)"
    by code_simp
  show "\<exists>u v. ?f = u @ lit ''b'' @ v"
    using page_anchor_edits [of 2 2 ?f "lit ''x''"] h by (simp add: l p del: lit_eq_iff) blast
qed

text \<open>
  The comment promises a batch that stays all or nothing; the errors of the rollback are discarded,
  so when the first file cannot be put back either, its edit stays although the batch failed.
\<close>

lemma lost_rollback_keeps_edit:
  "(let (r, d) = write_batch failing_io (\<lambda>_. demo_io\<lparr>rename_ok := False\<rparr>) []
      [\<lparr>bf_path = lit ''a'', bf_resolved = [lit ''w'', lit ''a''], bf_before = lit ''old'', bf_after = lit ''new''\<rparr>,
       \<lparr>bf_path = lit ''b'', bf_resolved = [lit ''w'', lit ''b''], bf_before = lit ''bee'', bf_after = lit ''x''\<rparr>] demo_disk2
    in r = Rolled_Back False \<and> text_of (d [lit ''w'', lit ''a'']) = Some (lit ''new''))"
  by code_simp

end
