(* ===== verification/Egress.thy ===== *)
theory Egress
  imports Prelude
begin

text \<open>
  Which addresses the outbound tools may reach: the address classes of \<open>browser/src/interface.rs\<close>
  (\<open>is\_private\_ip\<close>, \<open>is\_forbidden\_ip\<close> and the navigation checks) and the policy of
  \<open>tools/src/egress.rs\<close> with its allowlist and the pinned addresses. URL and address parsing, and
  the answers of the resolver, are parameters; a resolver may answer differently every time.
\<close>

unbundle bit_operations_syntax

section \<open>Addresses\<close>

datatype ip = V4 "32 word" | V6 "128 word"

definition BLOCKS :: "(32 word \<times> nat) list" where
  "BLOCKS =
     [(0x00000000, 8), (0x0a000000, 8), (0x64400000, 10), (0x7f000000, 8), (0xa9fe0000, 16),
      (0xac100000, 12), (0xc0000000, 24), (0xc0000200, 24), (0xc0a80000, 16), (0xc6120000, 15),
      (0xc6336400, 24), (0xcb007100, 24), (0xe0000000, 4), (0xf0000000, 4)]"

definition is_private_v4 :: "32 word \<Rightarrow> bool" where
  "is_private_v4 raw =
     list_ex (\<lambda>(net, bits).
       if bits = 0 then True
       else (let mask = push_bit (32 - bits) (- 1) in raw AND mask = net AND mask)) BLOCKS"

text \<open>The first of the eight segments; \<open>to\_ipv4\<close> and \<open>to\_ipv4\_mapped\<close> of the standard library.\<close>

definition segment0 :: "128 word \<Rightarrow> 128 word" where
  "segment0 a = drop_bit 112 a"

definition to_ipv4_mapped :: "128 word \<Rightarrow> 32 word option" where
  "to_ipv4_mapped a = (if drop_bit 32 a = 0xffff then Some (ucast a) else None)"

definition to_ipv4 :: "128 word \<Rightarrow> 32 word option" where
  "to_ipv4 a = (if drop_bit 32 a = 0xffff \<or> drop_bit 32 a = 0 then Some (ucast a) else None)"

fun is_private_ip :: "ip \<Rightarrow> bool" where
  "is_private_ip (V4 a) = is_private_v4 a"
| "is_private_ip (V6 a) =
     (case to_ipv4 a of
        Some v4 \<Rightarrow> is_private_v4 v4
      | None \<Rightarrow>
          a = 1 \<or> a = 0 \<or> segment0 a AND 0xffc0 = 0xfe80 \<or> segment0 a AND 0xfe00 = 0xfc00 \<or>
          segment0 a AND 0xff00 = 0xff00 \<or> segment0 a = 0x0100)"

definition is_forbidden_v4_with_local :: "32 word \<Rightarrow> bool" where
  "is_forbidden_v4_with_local raw \<longleftrightarrow>
     raw AND 0xff000000 = 0 \<or> raw AND 0xffff0000 = 0xa9fe0000 \<or>
     raw AND 0xf0000000 = 0xe0000000 \<or> raw AND 0xf0000000 = 0xf0000000"

fun is_forbidden_ip :: "ip \<Rightarrow> bool \<Rightarrow> bool" where
  "is_forbidden_ip (V4 a) allow_private = (if \<not> allow_private then is_private_ip (V4 a) else is_forbidden_v4_with_local a)"
| "is_forbidden_ip (V6 a) allow_private =
     (if \<not> allow_private then is_private_ip (V6 a)
      else case to_ipv4_mapped a of
             Some v4 \<Rightarrow> is_forbidden_v4_with_local v4
           | None \<Rightarrow>
               a = 0 \<or> segment0 a AND 0xffc0 = 0xfe80 \<or> segment0 a AND 0xff00 = 0xff00 \<or> segment0 a = 0x0100)"

section \<open>The policy\<close>

record url_parts =
  u_scheme :: ustr
  u_host :: "ustr option"
  u_port_or_known :: "nat option"
  u_text :: ustr

datatype dns = Dns_Timeout | Dns_Error | Dns_Addrs "ip list"

record net_env =
  url_parse :: "ustr \<Rightarrow> url_parts option"
  url_join :: "ustr \<Rightarrow> ustr \<Rightarrow> ustr option"
  parse_ip :: "ustr \<Rightarrow> ip option"
  parse_network :: "ustr \<Rightarrow> ip option"
  lookup_host :: "nat \<Rightarrow> ustr \<Rightarrow> nat \<Rightarrow> dns"

datatype egress_error =
    Invalid_Url
  | Missing_Host
  | Private_Address ip
  | Not_Allowlisted ustr
  | Unresolvable
  | No_Address

record resolved_target =
  rt_url :: ustr
  rt_host :: ustr
  rt_addrs :: "(ip \<times> nat) list"

text \<open>Brackets of an IPv6 literal: both or none are dropped.\<close>

definition bare_host :: "ustr \<Rightarrow> ustr" where
  "bare_host host =
     (case strip_prefix (lit ''['') host of
        Some h \<Rightarrow> if ends_with h (lit '']'') then butlast h else host
      | None \<Rightarrow> host)"

definition host_matches :: "ustr \<Rightarrow> ustr \<Rightarrow> bool" where
  "host_matches pat host =
     (case strip_prefix (lit ''*.'') pat of
        Some rest \<Rightarrow> host = rest \<or> ends_with host (lit ''.'' @ rest)
      | None \<Rightarrow> pat = host)"

definition allowlisted :: "ustr list \<Rightarrow> ustr \<Rightarrow> bool" where
  "allowlisted allowlist host \<longleftrightarrow> allowlist = [] \<or> list_ex (\<lambda>p. host_matches p host) allowlist"

definition is_loopback_name :: "ustr \<Rightarrow> bool" where
  "is_loopback_name host =
     (let h = trim_end_matches (\<lambda>c. c = 46) host
      in ascii_lower h = lit ''localhost'' \<or> ends_with (ascii_lower h) (lit ''.localhost''))"

definition ensure_public_host_with :: "net_env \<Rightarrow> ustr \<Rightarrow> bool \<Rightarrow> egress_error option" where
  "ensure_public_host_with env host0 allow_private =
     (let host = bare_host host0 in
      case parse_ip env host of
        Some a \<Rightarrow> if is_forbidden_ip a allow_private then Some (Private_Address a) else None
      | None \<Rightarrow>
          (case parse_network env host of
             Some n \<Rightarrow> if is_forbidden_ip n allow_private then Some (Private_Address n) else None
           | None \<Rightarrow> None))"

definition enforce_with :: "net_env \<Rightarrow> ustr list \<Rightarrow> ustr \<Rightarrow> bool \<Rightarrow> egress_error + unit" where
  "enforce_with env allowlist url allow_private =
     (case url_parse env url of
        None \<Rightarrow> Inl Invalid_Url
      | Some parsed \<Rightarrow>
          (case u_host parsed of
             None \<Rightarrow> Inl Missing_Host
           | Some host \<Rightarrow>
               (case ensure_public_host_with env host allow_private of
                  Some e \<Rightarrow> Inl e
                | None \<Rightarrow>
                    let bare = bare_host host;
                        local_literal = allow_private \<and>
                          (is_loopback_name bare \<or> (case parse_ip env bare of Some a \<Rightarrow> is_private_ip a | None \<Rightarrow> False))
                    in if \<not> local_literal \<and> \<not> allowlisted allowlist host then Inl (Not_Allowlisted host) else Inr ())))"

text \<open>The loop that vets every address; the first forbidden one fails the call.\<close>

definition vet_addrs :: "ip list \<Rightarrow> nat \<Rightarrow> bool \<Rightarrow> egress_error + (ip \<times> nat) list" where
  "vet_addrs addrs port allow_private =
     (case find (\<lambda>a. is_forbidden_ip a allow_private) addrs of
        Some a \<Rightarrow> Inl (Private_Address a)
      | None \<Rightarrow> Inr (map (\<lambda>a. (a, port)) addrs))"

definition resolve_async_with :: "net_env \<Rightarrow> ustr list \<Rightarrow> nat \<Rightarrow> ustr \<Rightarrow> bool \<Rightarrow> egress_error + resolved_target" where
  "resolve_async_with env allowlist t url allow_private =
     (case url_parse env url of
        None \<Rightarrow> Inl Invalid_Url
      | Some parsed \<Rightarrow>
          (case u_host parsed of
             None \<Rightarrow> Inl Missing_Host
           | Some host \<Rightarrow>
               let bare = bare_host host;
                   port = (case u_port_or_known parsed of Some p \<Rightarrow> p | None \<Rightarrow> 443) in
               case parse_ip env bare of
                 Some a \<Rightarrow>
                   if is_forbidden_ip a allow_private then Inl (Private_Address a)
                   else if \<not> (allow_private \<and> is_private_ip a) \<and> \<not> allowlisted allowlist host
                        then Inl (Not_Allowlisted host)
                   else Inr \<lparr>rt_url = url, rt_host = bare, rt_addrs = [(a, port)]\<rparr>
               | None \<Rightarrow>
                   (case lookup_host env t bare port of
                      Dns_Timeout \<Rightarrow> Inl Unresolvable
                    | Dns_Error \<Rightarrow> Inl Unresolvable
                    | Dns_Addrs addrs \<Rightarrow>
                        if addrs = [] then Inl No_Address
                        else if \<not> (allow_private \<and> list_all is_private_ip addrs) \<and> \<not> allowlisted allowlist host
                             then Inl (Not_Allowlisted host)
                        else (case vet_addrs addrs port allow_private of
                                Inl e \<Rightarrow> Inl e
                              | Inr vetted \<Rightarrow> Inr \<lparr>rt_url = url, rt_host = bare, rt_addrs = vetted\<rparr>))))"

definition resolve_async :: "net_env \<Rightarrow> ustr list \<Rightarrow> nat \<Rightarrow> ustr \<Rightarrow> egress_error + resolved_target" where
  "resolve_async env allowlist t url = resolve_async_with env allowlist t url False"

section \<open>Navigation checks of the browser\<close>

datatype navigate_error = Bad_Url | Unsupported_Scheme | No_Host | Private_Target ip | Dns_Failed

definition is_web :: "url_parts \<Rightarrow> bool" where
  "is_web u \<longleftrightarrow> u_scheme u = lit ''http'' \<or> u_scheme u = lit ''https''"

definition reject_private_navigate_url_with :: "net_env \<Rightarrow> ustr \<Rightarrow> bool \<Rightarrow> navigate_error option" where
  "reject_private_navigate_url_with env url allow_private =
     (case url_parse env url of
        None \<Rightarrow> Some Bad_Url
      | Some parsed \<Rightarrow>
          if \<not> is_web parsed then
            (if u_scheme parsed = lit ''about'' \<and> u_text parsed = lit ''about:blank'' then None else Some Unsupported_Scheme)
          else
            (case u_host parsed of
               None \<Rightarrow> Some No_Host
             | Some host \<Rightarrow>
                 (case parse_ip env (bare_host host) of
                    Some a \<Rightarrow> if is_forbidden_ip a allow_private then Some (Private_Target a) else None
                  | None \<Rightarrow> None)))"

definition reject_private_navigate_url_resolved_with :: "net_env \<Rightarrow> nat \<Rightarrow> ustr \<Rightarrow> bool \<Rightarrow> navigate_error option" where
  "reject_private_navigate_url_resolved_with env t url allow_private =
     (case reject_private_navigate_url_with env url allow_private of
        Some e \<Rightarrow> Some e
      | None \<Rightarrow>
          (case url_parse env url of
             None \<Rightarrow> Some Bad_Url
           | Some parsed \<Rightarrow>
               if \<not> is_web parsed then None
               else case u_host parsed of
                      None \<Rightarrow> None
                    | Some host \<Rightarrow>
                        let bare = bare_host host in
                        if parse_ip env bare \<noteq> None then None
                        else (case lookup_host env t bare (case u_port_or_known parsed of Some p \<Rightarrow> p | None \<Rightarrow> 443) of
                                Dns_Addrs addrs \<Rightarrow>
                                  (case find (\<lambda>a. is_forbidden_ip a allow_private) addrs of
                                     Some a \<Rightarrow> Some (Private_Target a)
                                   | None \<Rightarrow> None)
                              | _ \<Rightarrow> Some Dns_Failed)))"

section \<open>What is refused\<close>

lemma same_block: "a AND NOT (mask k) = b AND NOT (mask k) \<longleftrightarrow> drop_bit k a = drop_bit k b"
  for a b :: "'a::len word"
proof
  assume l: "a AND NOT (mask k) = b AND NOT (mask k)"
  show "drop_bit k a = drop_bit k b"
  proof (rule bit_word_eqI)
    fix n assume "n < LENGTH('a)"
    have "bit (a AND NOT (mask k)) (k + n) = bit (b AND NOT (mask k)) (k + n)"
      by (simp only: l)
    then show "bit (drop_bit k a) n = bit (drop_bit k b) n"
      using bit_imp_le_length [of a "k + n"] bit_imp_le_length [of b "k + n"]
      by (auto simp: bit_simps)
  qed
next
  assume r: "drop_bit k a = drop_bit k b"
  show "a AND NOT (mask k) = b AND NOT (mask k)"
  proof (rule bit_word_eqI)
    fix n assume "n < LENGTH('a)"
    have "k \<le> n \<Longrightarrow> bit a n = bit b n"
      using arg_cong [OF r, of "\<lambda>w. bit w (n - k)"] by (simp add: bit_drop_bit_eq)
    then show "bit (a AND NOT (mask k)) n = bit (b AND NOT (mask k)) n"
      by (auto simp: bit_simps)
  qed
qed

lemma block_range:
  "a AND NOT (mask k) = b AND NOT (mask k) \<longleftrightarrow>
     unat b div 2 ^ k * 2 ^ k \<le> unat a \<and> unat a < unat b div 2 ^ k * 2 ^ k + 2 ^ k"
  for a b :: "'a::len word"
proof -
  have "drop_bit k a = drop_bit k b \<longleftrightarrow> unat a div 2 ^ k = unat b div 2 ^ k"
    by (simp add: word_unat_eq_iff unat_drop_bit_eq flip: drop_bit_eq_div)
  also have "\<dots> \<longleftrightarrow> unat b div 2 ^ k * 2 ^ k \<le> unat a \<and> unat a < (unat b div 2 ^ k + 1) * 2 ^ k"
    by (metis div_less_iff_less_mult less_Suc_eq_le less_eq_div_iff_mult_less_eq order_antisym Suc_eq_plus1 order_refl zero_less_numeral zero_less_power)
  finally show ?thesis
    by (simp only: same_block add_mult_distrib mult_1)
qed

text \<open>The ranges as dotted addresses.\<close>

definition dotted :: "nat \<Rightarrow> nat \<Rightarrow> nat \<Rightarrow> nat \<Rightarrow> nat" where
  "dotted a b c d = ((a * 256 + b) * 256 + c) * 256 + d"

lemma private_v4_ranges:
  "is_private_v4 raw \<longleftrightarrow>
     (\<exists>(lo, hi) \<in> set [(dotted 0 0 0 0, dotted 0 255 255 255), (dotted 10 0 0 0, dotted 10 255 255 255),
        (dotted 100 64 0 0, dotted 100 127 255 255), (dotted 127 0 0 0, dotted 127 255 255 255),
        (dotted 169 254 0 0, dotted 169 254 255 255), (dotted 172 16 0 0, dotted 172 31 255 255),
        (dotted 192 0 0 0, dotted 192 0 0 255), (dotted 192 0 2 0, dotted 192 0 2 255),
        (dotted 192 168 0 0, dotted 192 168 255 255), (dotted 198 18 0 0, dotted 198 19 255 255),
        (dotted 198 51 100 0, dotted 198 51 100 255), (dotted 203 0 113 0, dotted 203 0 113 255),
        (dotted 224 0 0 0, dotted 239 255 255 255), (dotted 240 0 0 0, dotted 255 255 255 255)].
        lo \<le> unat raw \<and> unat raw < hi + 1)"
  using block_range [of raw _ 0] by (simp add: is_private_v4_def BLOCKS_def Let_def block_range dotted_def)

lemma masks_v4:
  "0xff000000 = (push_bit 24 (- 1) :: 32 word)" "0xffff0000 = (push_bit 16 (- 1) :: 32 word)"
  "0xf0000000 = (push_bit 28 (- 1) :: 32 word)"
  by code_simp+

text \<open>The local opt-in only relaxes: what it still forbids is private in the first place.\<close>

lemma local_forbidden_private_v4: "is_forbidden_v4_with_local raw \<Longrightarrow> is_private_v4 raw"
proof -
  assume "is_forbidden_v4_with_local raw"
  then have "raw AND push_bit 24 (- 1) = 0 AND push_bit 24 (- 1) \<or>
      raw AND push_bit 16 (- 1) = 0xa9fe0000 AND push_bit 16 (- 1) \<or>
      raw AND push_bit 28 (- 1) = 0xe0000000 AND push_bit 28 (- 1) \<or>
      raw AND push_bit 28 (- 1) = 0xf0000000 AND push_bit 28 (- 1)"
    unfolding is_forbidden_v4_with_local_def masks_v4 [symmetric] by simp
  then show ?thesis
    by (auto simp: is_private_v4_def BLOCKS_def Let_def)
qed

lemma segment0_low: "drop_bit 32 a = 0xffff \<or> drop_bit 32 a = 0 \<Longrightarrow> segment0 a = 0"
proof -
  assume h: "drop_bit 32 a = 0xffff \<or> drop_bit 32 a = 0"
  have "segment0 a = drop_bit 80 (drop_bit 32 a)"
    by (simp add: segment0_def drop_bit_drop_bit)
  then show ?thesis
    using h by (elim disjE) simp_all
qed

lemma local_forbidden_private: "is_forbidden_ip a True \<Longrightarrow> is_private_ip a"
proof (cases a)
  case (V6 w)
  assume f: "is_forbidden_ip a True"
  show ?thesis
  proof (cases "drop_bit 32 w = 0xffff \<or> drop_bit 32 w = 0")
    case True
    then have "segment0 w = 0"
      by (rule segment0_low)
    then show ?thesis
      using f V6 True local_forbidden_private_v4
      by (auto simp: to_ipv4_mapped_def to_ipv4_def private_v4_ranges dotted_def split: if_splits)
  next
    case False
    then show ?thesis
      using f V6 by (auto simp: to_ipv4_mapped_def to_ipv4_def)
  qed
qed (simp add: local_forbidden_private_v4)

lemma forbidden_private: "is_forbidden_ip a b \<Longrightarrow> is_private_ip a"
  using local_forbidden_private [of a] by (cases b; cases a) simp_all

lemma forbidden_mono: "is_forbidden_ip a True \<Longrightarrow> is_forbidden_ip a b"
  using local_forbidden_private [of a] by (cases b; cases a) simp_all

lemma vet_addrs_ok:
  "vet_addrs addrs port b = Inr v \<Longrightarrow> map fst v = addrs \<and> (\<forall>(a, p) \<in> set v. \<not> is_forbidden_ip a b \<and> p = port)"
  by (auto simp: vet_addrs_def find_None_iff comp_def split: option.splits)

text \<open>
  What an answer of the policy guarantees: addresses to dial, none of them forbidden, for a host that
  the list allows or, under the local opt-in, that is wholly private.
\<close>

lemma resolve_ok:
  assumes "resolve_async_with env allowlist t url allow_private = Inr target"
  shows "rt_url target = url" "rt_addrs target \<noteq> []" "\<forall>(a, p) \<in> set (rt_addrs target). \<not> is_forbidden_ip a allow_private"
    and "\<exists>parsed host. url_parse env url = Some parsed \<and> u_host parsed = Some host \<and> rt_host target = bare_host host \<and>
           (allowlisted allowlist host \<or> allow_private \<and> (\<forall>(a, p) \<in> set (rt_addrs target). is_private_ip a))"
proof -
  obtain parsed host where p: "url_parse env url = Some parsed" "u_host parsed = Some host"
    using assms by (auto simp: resolve_async_with_def split: option.splits)
  have *: "rt_url target = url \<and> rt_addrs target \<noteq> [] \<and> (\<forall>(a, p) \<in> set (rt_addrs target). \<not> is_forbidden_ip a allow_private) \<and>
      rt_host target = bare_host host \<and>
      (allowlisted allowlist host \<or> allow_private \<and> (\<forall>(a, p) \<in> set (rt_addrs target). is_private_ip a))"
  proof (cases "parse_ip env (bare_host host)")
    case (Some a)
    with assms p show ?thesis
      by (auto simp: resolve_async_with_def Let_def split: if_splits)
  next
    case None
    with assms p obtain port addrs v where a: "addrs \<noteq> []" and v: "vet_addrs addrs port allow_private = Inr v"
      and l: "allow_private \<and> list_all is_private_ip addrs \<or> allowlisted allowlist host"
      and t: "target = \<lparr>rt_url = url, rt_host = bare_host host, rt_addrs = v\<rparr>"
      by (auto simp: resolve_async_with_def Let_def split: dns.splits sum.splits if_splits)
    with vet_addrs_ok [OF v] show ?thesis
      by (fastforce simp: list_all_iff)
  qed
  then show "rt_url target = url" "rt_addrs target \<noteq> []" "\<forall>(a, p) \<in> set (rt_addrs target). \<not> is_forbidden_ip a allow_private"
    by auto
  show "\<exists>parsed host. url_parse env url = Some parsed \<and> u_host parsed = Some host \<and> rt_host target = bare_host host \<and>
           (allowlisted allowlist host \<or> allow_private \<and> (\<forall>(a, p) \<in> set (rt_addrs target). is_private_ip a))"
    using * p by blast
qed

text \<open>
  An IPv6 address that embeds a private IPv4 address by NAT64 (\<open>64:ff9b::/96\<close>) is not recognised:
  \<open>64:ff9b::a9fe:a9fe\<close> stands for the metadata address \<open>169.254.169.254\<close> behind such a gateway.
\<close>

lemma nat64_not_private:
  "is_private_ip (V4 0xa9fea9fe) \<and> is_private_ip (V6 0xffffa9fea9fe) \<and> \<not> is_private_ip (V6 0x0064ff9b0000000000000000a9fea9fe)"
  by code_simp

end
