(* ===== verification/Utf8.thy ===== *)
theory Utf8
  imports Prelude
begin

text \<open>
  Bytes and text: the UTF-8 encoding of a string (\<open>str::as\_bytes\<close>) and \<open>String::from\_utf8\_lossy\<close> of
  the standard library, which replaces every maximal broken sequence by U+FFFD. A byte is an integer
  from 0 to 255.
\<close>

type_synonym bytes = "int list"

definition scalar :: "uchar \<Rightarrow> bool" where
  "scalar c \<longleftrightarrow> 0 \<le> c \<and> c < 0x110000 \<and> \<not> (0xD800 \<le> c \<and> c < 0xE000)"

definition utf8_char :: "uchar \<Rightarrow> bytes" where
  "utf8_char c =
     (if c < 0x80 then [c]
      else if c < 0x800 then [0xC0 + c div 64, 0x80 + c mod 64]
      else if c < 0x10000 then [0xE0 + c div 4096, 0x80 + c div 64 mod 64, 0x80 + c mod 64]
      else [0xF0 + c div 262144, 0x80 + c div 4096 mod 64, 0x80 + c div 64 mod 64, 0x80 + c mod 64])"

definition utf8_bytes :: "ustr \<Rightarrow> bytes" where
  "utf8_bytes s = concat (map utf8_char s)"

definition REPLACEMENT :: uchar where "REPLACEMENT = 0xFFFD"

definition continuation :: "int \<Rightarrow> bool" where
  "continuation b \<longleftrightarrow> 0x80 \<le> b \<and> b < 0xC0"

text \<open>Which second byte may follow a leading byte of three or four.\<close>

definition second_ok :: "int \<Rightarrow> int \<Rightarrow> bool" where
  "second_ok b b1 \<longleftrightarrow>
     (if b = 0xE0 then 0xA0 \<le> b1 \<and> b1 < 0xC0
      else if b = 0xED then 0x80 \<le> b1 \<and> b1 < 0xA0
      else if b = 0xF0 then 0x90 \<le> b1 \<and> b1 < 0xC0
      else if b = 0xF4 then 0x80 \<le> b1 \<and> b1 < 0x90
      else continuation b1)"

text \<open>One character and the bytes it takes.\<close>

definition decode_char :: "int \<Rightarrow> bytes \<Rightarrow> uchar \<times> nat" where
  "decode_char b t =
     (let b1 = (case t of x # _ \<Rightarrow> x | [] \<Rightarrow> 0); b2 = (case t of _ # x # _ \<Rightarrow> x | _ \<Rightarrow> 0);
          b3 = (case t of _ # _ # x # _ \<Rightarrow> x | _ \<Rightarrow> 0)
      in if b < 0x80 then (b, 1)
         else if 0xC2 \<le> b \<and> b < 0xE0 then
           (if continuation b1 then ((b - 0xC0) * 64 + (b1 - 0x80), 2) else (REPLACEMENT, 1))
         else if 0xE0 \<le> b \<and> b < 0xF0 then
           (if \<not> second_ok b b1 then (REPLACEMENT, 1)
            else if \<not> continuation b2 then (REPLACEMENT, 2)
            else ((b - 0xE0) * 4096 + (b1 - 0x80) * 64 + (b2 - 0x80), 3))
         else if 0xF0 \<le> b \<and> b < 0xF5 then
           (if \<not> second_ok b b1 then (REPLACEMENT, 1)
            else if \<not> continuation b2 then (REPLACEMENT, 2)
            else if \<not> continuation b3 then (REPLACEMENT, 3)
            else ((b - 0xF0) * 262144 + (b1 - 0x80) * 4096 + (b2 - 0x80) * 64 + (b3 - 0x80), 4))
         else (REPLACEMENT, 1))"

function from_utf8_lossy :: "bytes \<Rightarrow> ustr" where
  "from_utf8_lossy [] = []"
| "from_utf8_lossy (b # t) = (case decode_char b t of (c, n) \<Rightarrow> c # from_utf8_lossy (drop (n - 1) t))"
  by pat_completeness auto
termination
  by (relation "measure length") auto

declare from_utf8_lossy.simps(2) [simp del]

lemma split_64: "c = c div 64 * 64 + c mod 64" "0 \<le> c mod 64" "c mod 64 < 64" for c :: int
  by (simp_all add: div_mult_mod_eq)

lemma div_64s: "c div 4096 = c div 64 div 64" "c div 262144 = c div 64 div 64 div 64" for c :: int
  by (simp_all add: zdiv_zmult2_eq [symmetric])

lemma decode_3:
  assumes "0 \<le> h" "h < 16" "0 \<le> i" "i < 64" "0 \<le> j" "j < 64" "c = (h * 64 + i) * 64 + j" "0x800 \<le> c" "scalar c"
  shows "decode_char (0xE0 + h) ((0x80 + i) # (0x80 + j) # r) = (c, 3)"
proof -
  have "second_ok (0xE0 + h) (0x80 + i)"
    using assms by (auto simp: second_ok_def continuation_def scalar_def)
  with assms show ?thesis
    by (simp add: decode_char_def continuation_def)
qed

lemma decode_4:
  assumes "0 \<le> h" "0 \<le> i" "i < 64" "0 \<le> j" "j < 64" "0 \<le> k" "k < 64"
    "c = ((h * 64 + i) * 64 + j) * 64 + k" "0x10000 \<le> c" "scalar c"
  shows "decode_char (0xF0 + h) ((0x80 + i) # (0x80 + j) # (0x80 + k) # r) = (c, 4)"
proof -
  have "h < 5" using assms by (auto simp: scalar_def)
  moreover from this have "second_ok (0xF0 + h) (0x80 + i)"
    using assms by (auto simp: second_ok_def continuation_def scalar_def)
  ultimately show ?thesis
    using assms by (simp add: decode_char_def continuation_def)
qed

lemma decode_utf8_char:
  assumes "scalar c"
  obtains b t where "utf8_char c = b # t" "decode_char b (t @ r) = (c, Suc (length t))"
proof -
  consider "c < 0x80" | "0x80 \<le> c" "c < 0x800" | "0x800 \<le> c" "c < 0x10000" | "0x10000 \<le> c" by linarith
  then show thesis
  proof cases
    case 1
    then show thesis
      using that by (simp add: utf8_char_def decode_char_def)
  next
    case 2
    then have "2 \<le> c div 64" "c div 64 < 32" by auto
    with 2 show thesis
      using that split_64 [of c] by (auto simp: utf8_char_def decode_char_def continuation_def Let_def)
  next
    case 3
    have "0 \<le> c div 64 div 64" "c div 64 div 64 < 16" using 3 by auto
    with 3 have "decode_char (0xE0 + c div 64 div 64) ((0x80 + c div 64 mod 64) # (0x80 + c mod 64) # r) = (c, 3)"
      using assms by (intro decode_3) (simp only: div_mult_mod_eq pos_mod_sign pos_mod_bound zero_less_numeral)+
    with 3 show thesis
      using that by (simp add: utf8_char_def div_64s)
  next
    case 4
    have "0 \<le> c div 64 div 64 div 64" using 4 by simp
    with 4 have "decode_char (0xF0 + c div 64 div 64 div 64)
        ((0x80 + c div 64 div 64 mod 64) # (0x80 + c div 64 mod 64) # (0x80 + c mod 64) # r) = (c, 4)"
      using assms by (intro decode_4) (simp only: div_mult_mod_eq pos_mod_sign pos_mod_bound zero_less_numeral)+
    with 4 show thesis
      using that by (simp add: utf8_char_def div_64s)
  qed
qed

lemma utf8_lossy_bytes: "list_all scalar s \<Longrightarrow> from_utf8_lossy (utf8_bytes s @ r) = s @ from_utf8_lossy r"
proof (induction s)
  case (Cons c s)
  have "scalar c" using Cons.prems by simp
  then obtain b t where b: "utf8_char c = b # t" "decode_char b (t @ utf8_bytes s @ r) = (c, Suc (length t))"
    by (rule decode_utf8_char)
  have "utf8_bytes (c # s) @ r = b # t @ utf8_bytes s @ r"
    by (simp add: utf8_bytes_def b)
  with b Cons show ?case
    by (simp add: from_utf8_lossy.simps(2))
qed (simp add: utf8_bytes_def)

lemma utf8_roundtrip: "list_all scalar s \<Longrightarrow> from_utf8_lossy (utf8_bytes s) = s"
  using utf8_lossy_bytes [of s "[]"] by simp

end
