(* ===== verification/Network.thy ===== *)
theory Network
  imports Json Egress Utf8
begin

text \<open>
  The network tool (\<open>tools/src/network.rs\<close>): one request per hop, every hop resolved afresh through
  the egress policy and dialled at the vetted addresses only, at most ten redirects, credentials
  dropped when the origin changes. What the servers answer is a parameter; the requests that leave
  the machine are the second component of the result. Building the client is part of sending.
\<close>

definition MAX_REDIRECTS :: nat where "MAX_REDIRECTS = 10"
definition MAX_BODY_BYTES :: nat where "MAX_BODY_BYTES = 2097152"

definition SENSITIVE_HEADERS :: "string list" where
  "SENSITIVE_HEADERS = [''authorization'', ''cookie'', ''proxy-authorization'']"

record hop_request =
  hr_url :: ustr
  hr_host :: ustr
  hr_addrs :: "(ip \<times> nat) list"
  hr_method :: ustr
  hr_headers :: "(ustr \<times> ustr) list"
  hr_body :: "json option"

record response =
  rs_status :: nat
  rs_location :: "ustr option"
  rs_content_type :: "ustr option"
  rs_chunks :: "int list list"
  rs_broken :: bool

datatype net_error =
    Policy egress_error
  | Send_Failed
  | Too_Many_Redirects
  | No_Location
  | Bad_Redirect
  | Http_Status nat
  | Body_Failed
  | Url_Required

definition origin_of :: "net_env \<Rightarrow> ustr \<Rightarrow> (ustr \<times> ustr option \<times> nat option) option" where
  "origin_of env url = map_option (\<lambda>u. (u_scheme u, u_host u, u_port_or_known u)) (url_parse env url)"

text \<open>The headers that are sent: the members of the object whose value is a string.\<close>

fun sent_headers :: "json \<Rightarrow> (ustr \<times> ustr) list" where
  "sent_headers (JObj kvs) = List.map_filter (\<lambda>(k, v). map_option (\<lambda>s. (k, s)) (as_str v)) kvs"
| "sent_headers _ = []"

definition is_sensitive_header :: "ustr \<Rightarrow> bool" where
  "is_sensitive_header k \<longleftrightarrow> one_of (ascii_lower k) SENSITIVE_HEADERS"

fun drop_sensitive :: "json \<Rightarrow> json" where
  "drop_sensitive (JObj kvs) = JObj (filter (\<lambda>(k, v). \<not> is_sensitive_header k) kvs)"
| "drop_sensitive j = j"

definition is_redirection :: "nat \<Rightarrow> bool" where
  "is_redirection status \<longleftrightarrow> 300 \<le> status \<and> status < 400"

definition downgrades :: "nat \<Rightarrow> ustr \<Rightarrow> bool" where
  "downgrades status meth \<longleftrightarrow> status = 303 \<or> (status = 301 \<or> status = 302) \<and> meth \<noteq> lit ''GET''"

function net_loop ::
  "net_env \<Rightarrow> ustr list \<Rightarrow> (nat \<Rightarrow> response option) \<Rightarrow> nat \<Rightarrow> ustr \<Rightarrow> ustr \<Rightarrow> bool \<Rightarrow> json \<Rightarrow> json option \<Rightarrow>
     (net_error + response) \<times> hop_request list" where
  "net_loop env allowlist server hop url meth send_body headers body =
     (case resolve_async env allowlist hop url of
        Inl e \<Rightarrow> (Inl (Policy e), [])
      | Inr target \<Rightarrow>
          let req = \<lparr>hr_url = rt_url target, hr_host = rt_host target, hr_addrs = rt_addrs target, hr_method = meth,
                     hr_headers = sent_headers headers, hr_body = (if send_body then body else None)\<rparr>
          in case server hop of
               None \<Rightarrow> (Inl Send_Failed, [req])
             | Some response \<Rightarrow>
                 let status = rs_status response in
                 if \<not> is_redirection status then (Inr response, [req])
                 else if hop + 1 > MAX_REDIRECTS then (Inl Too_Many_Redirects, [req])
                 else
                   (case rs_location response of
                      None \<Rightarrow> (Inl No_Location, [req])
                    | Some location \<Rightarrow>
                        (case url_join env url location of
                           None \<Rightarrow> (Inl Bad_Redirect, [req])
                         | Some next_url \<Rightarrow>
                             let headers' = (if origin_of env next_url \<noteq> origin_of env url then drop_sensitive headers else headers);
                                 down = downgrades status meth;
                                 (result, reqs) = net_loop env allowlist server (hop + 1) next_url
                                   (if down then lit ''GET'' else meth) (send_body \<and> \<not> down) headers' body
                             in (result, req # reqs))))"
  by pat_completeness auto
termination
  by (relation "measure (\<lambda>(env, a, s, hop, url, m, sb, h, b). Suc MAX_REDIRECTS - hop)") auto

declare net_loop.simps [simp del]

text \<open>
  A body arrives in chunks, which a broken connection cuts short; it is kept up to the limit.
\<close>

fun read_bytes_limited :: "nat \<Rightarrow> bool \<Rightarrow> int list \<Rightarrow> int list list \<Rightarrow> (int list \<times> bool) option" where
  "read_bytes_limited limit broken buf [] = (if broken then None else Some (buf, False))"
| "read_bytes_limited limit broken buf (chunk # chunks) =
     (if length buf + length chunk > limit then Some (buf @ take (limit - length buf) chunk, True)
      else read_bytes_limited limit broken (buf @ chunk) chunks)"

definition read_body_limited :: "response \<Rightarrow> nat \<Rightarrow> (int list \<times> bool) option" where
  "read_body_limited response limit = read_bytes_limited limit (rs_broken response) [] (rs_chunks response)"

record network_answer =
  na_ok :: bool
  na_status :: nat
  na_body :: ustr
  na_truncated :: bool
  na_error :: "nat option"

definition network_invoke ::
  "net_env \<Rightarrow> (ustr \<Rightarrow> ustr option) \<Rightarrow> ustr list \<Rightarrow> (nat \<Rightarrow> response option) \<Rightarrow> json \<Rightarrow>
     (net_error + network_answer) \<times> hop_request list" where
  "network_invoke env parse_method allowlist server args =
     (case str_arg args ''url'' of
        None \<Rightarrow> (Inl Url_Required, [])
      | Some start \<Rightarrow>
          let meth = (case parse_method (str_or args ''method'' (lit ''GET'')) of Some m \<Rightarrow> m | None \<Rightarrow> lit ''GET'');
              headers = (case jget args ''headers'' of Some h \<Rightarrow> h | None \<Rightarrow> JObj []);
              (result, reqs) = net_loop env allowlist server 0 start meth True headers (jget args ''body'')
          in (case result of
                Inl e \<Rightarrow> Inl e
              | Inr response \<Rightarrow>
                  let status = rs_status response in
                  (case read_body_limited response MAX_BODY_BYTES of
                     None \<Rightarrow> Inl Body_Failed
                   | Some (bytes, truncated) \<Rightarrow>
                       Inr \<lparr>na_ok = status < 400, na_status = status, na_body = from_utf8_lossy bytes, na_truncated = truncated,
                            na_error = (if status \<ge> 400 then Some status else None)\<rparr>),
              reqs))"

text \<open>The bare GET of \<open>fetch\_bytes\<close> runs the same loop without headers and body.\<close>

record fetched_bytes =
  fb_bytes :: "int list"
  fb_content_type :: ustr
  fb_final_url :: ustr
  fb_truncated :: bool

definition fetch_bytes ::
  "net_env \<Rightarrow> ustr list \<Rightarrow> (nat \<Rightarrow> response option) \<Rightarrow> ustr \<Rightarrow> nat \<Rightarrow> (net_error + fetched_bytes) \<times> hop_request list" where
  "fetch_bytes env allowlist server url max_bytes =
     (case net_loop env allowlist server 0 url (lit ''GET'') True JNull None of
        (Inl e, reqs) \<Rightarrow> (Inl e, reqs)
      | (Inr response, reqs) \<Rightarrow>
          (if rs_status response \<ge> 400 then Inl (Http_Status (rs_status response))
           else case read_body_limited response max_bytes of
                  None \<Rightarrow> Inl Body_Failed
                | Some (bytes, truncated) \<Rightarrow>
                    Inr \<lparr>fb_bytes = bytes, fb_content_type = (case rs_content_type response of Some c \<Rightarrow> c | None \<Rightarrow> []),
                         fb_final_url = hr_url (last reqs), fb_truncated = truncated\<rparr>, reqs))"

section \<open>Bodies are cut at the limit\<close>

lemma read_bytes_take:
  "length buf \<le> limit \<Longrightarrow>
   read_bytes_limited limit False buf chunks =
     Some (take limit (buf @ concat chunks), limit < length (buf @ concat chunks))"
  by (induction limit False buf chunks rule: read_bytes_limited.induct) auto

lemma read_bytes_bounded:
  "read_bytes_limited limit broken buf chunks = Some (bytes, t) \<Longrightarrow> length buf \<le> limit \<Longrightarrow> length bytes \<le> limit"
  by (induction limit broken buf chunks rule: read_bytes_limited.induct) (auto split: if_splits)

section \<open>Every hop is vetted\<close>

definition vetted :: "net_env \<Rightarrow> ustr list \<Rightarrow> hop_request \<Rightarrow> bool" where
  "vetted env allowlist req \<longleftrightarrow>
     hr_addrs req \<noteq> [] \<and> (\<forall>(a, port) \<in> set (hr_addrs req). \<not> is_private_ip a) \<and>
     (\<exists>parsed host. url_parse env (hr_url req) = Some parsed \<and> u_host parsed = Some host \<and>
        hr_host req = bare_host host \<and> allowlisted allowlist host)"

lemma is_forbidden_False [simp]: "is_forbidden_ip a False = is_private_ip a"
  by (cases a) auto

lemma net_loop_cases:
  obtains e where "resolve_async env allowlist hop url = Inl e"
      "net_loop env allowlist server hop url meth send_body headers body = (Inl (Policy e), [])"
  | target req res where "resolve_async env allowlist hop url = Inr target"
      "req = \<lparr>hr_url = rt_url target, hr_host = rt_host target, hr_addrs = rt_addrs target, hr_method = meth,
              hr_headers = sent_headers headers, hr_body = (if send_body then body else None)\<rparr>"
      "net_loop env allowlist server hop url meth send_body headers body = (res, [req])"
  | target req next_url m sb res reqs where "resolve_async env allowlist hop url = Inr target"
      "req = \<lparr>hr_url = rt_url target, hr_host = rt_host target, hr_addrs = rt_addrs target, hr_method = meth,
              hr_headers = sent_headers headers, hr_body = (if send_body then body else None)\<rparr>"
      "hop < MAX_REDIRECTS"
      "net_loop env allowlist server (hop + 1) next_url m sb
         (if origin_of env next_url \<noteq> origin_of env url then drop_sensitive headers else headers) body = (res, reqs)"
      "net_loop env allowlist server hop url meth send_body headers body = (res, req # reqs)"
proof (cases "resolve_async env allowlist hop url")
  case (Inl e)
  then show thesis
    using that(1) by (simp add: net_loop.simps [of env allowlist server hop])
next
  case (Inr target)
  let ?req = "\<lparr>hr_url = rt_url target, hr_host = rt_host target, hr_addrs = rt_addrs target, hr_method = meth,
              hr_headers = sent_headers headers, hr_body = (if send_body then body else None)\<rparr>"
  let ?loop = "net_loop env allowlist server hop url meth send_body headers body"
  show thesis
  proof (cases "\<exists>res. ?loop = (res, [?req])")
    case True
    then show thesis
      using that(2) [OF Inr refl] by blast
  next
    case False
    then obtain r loc nxt where r: "server hop = Some r" "rs_location r = Some loc" "url_join env url loc = Some nxt"
      "is_redirection (rs_status r)" "\<not> hop + 1 > MAX_REDIRECTS"
      using Inr by (auto simp: net_loop.simps [of env allowlist server hop url] Let_def split: option.splits if_splits)
    let ?m = "if downgrades (rs_status r) meth then lit ''GET'' else meth"
    let ?sb = "send_body \<and> \<not> downgrades (rs_status r) meth"
    let ?h = "if origin_of env nxt \<noteq> origin_of env url then drop_sensitive headers else headers"
    obtain res reqs where rec: "net_loop env allowlist server (hop + 1) nxt ?m ?sb ?h body = (res, reqs)"
      by (cases "net_loop env allowlist server (hop + 1) nxt ?m ?sb ?h body")
    have "?loop = (res, ?req # reqs)"
      using Inr r rec by (simp add: net_loop.simps [of env allowlist server hop url] Let_def del: if_split)
    with r(5) rec show thesis
      using that(3) [OF Inr refl] by simp
  qed
qed

lemma resolve_vetted:
  assumes "resolve_async env allowlist t url = Inr target"
  shows "vetted env allowlist \<lparr>hr_url = rt_url target, hr_host = rt_host target, hr_addrs = rt_addrs target,
           hr_method = m, hr_headers = hs, hr_body = b\<rparr>" "rt_url target = url"
  using resolve_ok [OF assms [unfolded resolve_async_def]] by (auto simp: vetted_def)

lemma net_loop_vetted:
  "hop \<le> MAX_REDIRECTS \<Longrightarrow>
   (\<forall>req \<in> set (snd (net_loop env allowlist server hop url meth send_body headers body)). vetted env allowlist req) \<and>
   length (snd (net_loop env allowlist server hop url meth send_body headers body)) \<le> Suc MAX_REDIRECTS - hop"
proof (induction "MAX_REDIRECTS - hop" arbitrary: hop url meth send_body headers rule: less_induct)
  case less
  show ?case
  proof (cases rule: net_loop_cases [of env allowlist hop url server meth send_body headers body])
    case 1
    then show ?thesis by simp
  next
    case (2 target req res)
    with resolve_vetted(1) less.prems show ?thesis by (simp add: Suc_diff_le)
  next
    case (3 target req next_url m sb res reqs)
    have "MAX_REDIRECTS - (hop + 1) < MAX_REDIRECTS - hop" "hop + 1 \<le> MAX_REDIRECTS"
      using 3(3) by auto
    from less.hyps [OF this, of next_url m sb "if origin_of env next_url \<noteq> origin_of env url then drop_sensitive headers else headers"]
    show ?thesis
      using 3 resolve_vetted(1) by (simp add: Suc_diff_le)
  qed
qed
section \<open>Credentials stay with their origin\<close>

definition carries :: "hop_request \<Rightarrow> bool" where
  "carries req \<longleftrightarrow> list_ex (\<lambda>(k, v). is_sensitive_header k) (hr_headers req)"

lemma drop_sensitive_clean: "\<not> list_ex (\<lambda>(k, v). is_sensitive_header k) (sent_headers (drop_sensitive headers))"
  by (cases headers) (auto simp: list_ex_iff map_filter_def)

lemma net_loop_credentials:
  assumes "net_loop env allowlist server hop url meth send_body headers body = (res, reqs)" "i < length reqs" "carries (reqs ! i)"
  shows "list_ex (\<lambda>(k, v). is_sensitive_header k) (sent_headers headers) \<and>
         (\<forall>j \<le> i. origin_of env (hr_url (reqs ! j)) = origin_of env url)"
  using assms
proof (induction "Suc MAX_REDIRECTS - hop" arbitrary: hop url meth send_body headers res reqs i rule: less_induct)
  case less
  show ?case
  proof (cases rule: net_loop_cases [of env allowlist hop url server meth send_body headers body])
    case 1
    with less.prems show ?thesis by simp
  next
    case (2 target req res')
    with less.prems resolve_vetted(2) [OF 2(1)] show ?thesis
      by (auto simp: carries_def)
  next
    case (3 target req next_url m sb res' reqs')
    let ?h = "if origin_of env next_url \<noteq> origin_of env url then drop_sensitive headers else headers"
    have reqs: "reqs = req # reqs'"
      using 3(5) less.prems(1) by simp
    have url: "hr_url req = url" "hr_headers req = sent_headers headers"
      using 3(2) resolve_vetted(2) [OF 3(1)] by simp_all
    show ?thesis
    proof (cases i)
      case 0
      with less.prems(3) show ?thesis
        by (simp add: reqs url carries_def)
    next
      case (Suc k)
      have "Suc MAX_REDIRECTS - (hop + 1) < Suc MAX_REDIRECTS - hop"
        using 3(3) by auto
      from less.hyps [OF this 3(4), of k] less.prems(2,3) Suc
      have ih: "list_ex (\<lambda>(k, v). is_sensitive_header k) (sent_headers ?h)"
        "\<And>j. j \<le> k \<Longrightarrow> origin_of env (hr_url (reqs' ! j)) = origin_of env next_url"
        by (auto simp: reqs)
      then have same: "origin_of env next_url = origin_of env url"
        using drop_sensitive_clean [of headers] by (auto split: if_splits)
      have "origin_of env (hr_url (reqs ! j)) = origin_of env url" if "j \<le> i" for j
        using that ih(2) same Suc by (cases j) (auto simp: reqs url)
      with ih(1) same show ?thesis
        by simp
    qed
  qed
qed

text \<open>Three hosts: \<open>a\<close> and \<open>c\<close> are public, \<open>b\<close> is this machine; \<open>a\<close> redirects to \<open>target\<close>.\<close>

definition demo_env :: net_env where
  "demo_env =
     \<lparr>url_parse = (\<lambda>s. Some \<lparr>u_scheme = lit ''http'', u_host = Some s, u_port_or_known = Some 80, u_text = s\<rparr>),
      url_join = (\<lambda>base l. Some l), parse_ip = (\<lambda>s. None), parse_network = (\<lambda>s. None),
      lookup_host = (\<lambda>t s port. Dns_Addrs [if s = lit ''b'' then V4 0x7f000001 else V4 0x5db8d822])\<rparr>"

definition demo_server :: "ustr \<Rightarrow> nat \<Rightarrow> response option" where
  "demo_server target hop =
     Some (if hop = 0 then \<lparr>rs_status = 302, rs_location = Some target, rs_content_type = None, rs_chunks = [], rs_broken = False\<rparr>
           else \<lparr>rs_status = 200, rs_location = None, rs_content_type = None, rs_chunks = [[1]], rs_broken = False\<rparr>)"

definition demo_args :: json where
  "demo_args = JObj [(lit ''url'', JStr (lit ''a'')), (lit ''headers'', JObj [(lit ''Cookie'', JStr (lit ''s''))])]"

lemma requests_of_loop:
  "snd (network_invoke env parse_method allowlist server args) = [] \<or>
     (\<exists>u m h b. snd (network_invoke env parse_method allowlist server args) = snd (net_loop env allowlist server 0 u m True h b))"
  "\<exists>u m h b. snd (fetch_bytes env allowlist server url max_bytes) = snd (net_loop env allowlist server 0 u m True h b)"
proof -
  show "snd (network_invoke env parse_method allowlist server args) = [] \<or>
     (\<exists>u m h b. snd (network_invoke env parse_method allowlist server args) = snd (net_loop env allowlist server 0 u m True h b))"
    by (cases "str_arg args ''url''") (auto simp: network_invoke_def Let_def prod.case_eq_if)
  have "snd (fetch_bytes env allowlist server url max_bytes) = snd (net_loop env allowlist server 0 url (lit ''GET'') True JNull None)"
    by (simp add: fetch_bytes_def prod.case_eq_if split: sum.split)
  then show "\<exists>u m h b. snd (fetch_bytes env allowlist server url max_bytes) = snd (net_loop env allowlist server 0 u m True h b)"
    by blast
qed

text \<open>
  C7 (safety). No request reaches a private address. Every request that the network tool or the byte
  fetcher sends, on the first hop and on every redirect, whatever the servers answer and however the
  resolver changes its mind between hops, is dialled only at addresses that were resolved for that hop
  and are all public, for a host the allowlist admits; and one call sends at most eleven.
\<close>
theorem network_ssrf_safe:
  assumes "reqs = snd (network_invoke env parse_method allowlist server args) \<or>
           reqs = snd (fetch_bytes env allowlist server url max_bytes)"
  shows "(\<forall>req \<in> set reqs. vetted env allowlist req) \<and> length reqs \<le> MAX_REDIRECTS + 1"
proof -
  have l: "(\<forall>req \<in> set r. vetted env allowlist req) \<and> length r \<le> MAX_REDIRECTS + 1"
    if "r = [] \<or> (\<exists>u m h b. r = snd (net_loop env allowlist server 0 u m True h b))" for r
    using that net_loop_vetted [of 0 env allowlist server] by auto
  from assms show ?thesis
  proof
    assume "reqs = snd (network_invoke env parse_method allowlist server args)"
    show ?thesis
      unfolding \<open>reqs = _\<close> by (rule l [OF requests_of_loop(1)])
  next
    assume "reqs = snd (fetch_bytes env allowlist server url max_bytes)"
    show ?thesis
      unfolding \<open>reqs = _\<close> by (rule l [OF disjI2 [OF requests_of_loop(2)]])
  qed
qed

theorem network_ssrf_safe_witness:
  "fst (network_invoke demo_env Some [] (demo_server (lit ''b'')) demo_args) = Inl (Policy (Private_Address (V4 0x7f000001))) \<and>
   map hr_url (snd (network_invoke demo_env Some [] (demo_server (lit ''b'')) demo_args)) = [lit ''a''] \<and>
   list_all (vetted demo_env []) (snd (network_invoke demo_env Some [] (demo_server (lit ''b'')) demo_args))"
proof (intro conjI)
  show "fst (network_invoke demo_env Some [] (demo_server (lit ''b'')) demo_args) = Inl (Policy (Private_Address (V4 0x7f000001)))"
    by code_simp
  show "map hr_url (snd (network_invoke demo_env Some [] (demo_server (lit ''b'')) demo_args)) = [lit ''a'']"
    by code_simp
  show "list_all (vetted demo_env []) (snd (network_invoke demo_env Some [] (demo_server (lit ''b'')) demo_args))"
    unfolding list_all_iff by (rule network_ssrf_safe [OF disjI1 [OF refl], THEN conjunct1])
qed

text \<open>
  C37 (safety). Credentials do not follow a redirect to another origin. When a request of a call carries
  an \<open>Authorization\<close>, \<open>Cookie\<close> or \<open>Proxy-Authorization\<close> header, in any case of letters, then it and
  every request before it went to the scheme, host and port the model named itself: once a redirect
  has left that origin the header is never sent again, not even on the way back.
\<close>
theorem credentials_stay:
  assumes "network_invoke env parse_method allowlist server args = (result, reqs)"
    and "str_arg args ''url'' = Some start" "i < length reqs" "carries (reqs ! i)" "j \<le> i"
  shows "origin_of env (hr_url (reqs ! j)) = origin_of env start"
proof -
  obtain m h b res where "net_loop env allowlist server 0 start m True h b = (res, reqs)"
    using assms(1,2) by (auto simp: network_invoke_def Let_def split: prod.splits)
  with net_loop_credentials [OF this assms(3,4)] assms(5) show ?thesis
    by blast
qed

theorem credentials_stay_witness:
  "map hr_headers (snd (network_invoke demo_env Some [] (demo_server (lit ''c'')) demo_args)) = [[(lit ''Cookie'', lit ''s'')], []] \<and>
   origin_of demo_env (hr_url (snd (network_invoke demo_env Some [] (demo_server (lit ''c'')) demo_args) ! 0)) =
     origin_of demo_env (lit ''a'')"
proof
  let ?r = "network_invoke demo_env Some [] (demo_server (lit ''c'')) demo_args"
  let ?h = "JObj [(lit ''Cookie'', JStr (lit ''s''))]"
  have "snd ?r = snd (net_loop demo_env [] (demo_server (lit ''c'')) 0 (lit ''a'') (lit ''GET'') True ?h None)"
    by (simp add: network_invoke_def demo_args_def str_arg_def str_or_def Let_def prod.case_eq_if)
  moreover have "map hr_headers (snd (net_loop demo_env [] (demo_server (lit ''c'')) 0 (lit ''a'') (lit ''GET'') True ?h None)) =
      [[(lit ''Cookie'', lit ''s'')], []]"
    by code_simp
  ultimately show h: "map hr_headers (snd ?r) = [[(lit ''Cookie'', lit ''s'')], []]"
    by (simp only:)
  then obtain r rs where r: "snd ?r = r # rs" "hr_headers r = [(lit ''Cookie'', lit ''s'')]"
    by (auto simp only: map_eq_Cons_conv)
  have "is_sensitive_header (lit ''Cookie'')"
    by code_simp
  then have "carries (snd ?r ! 0)"
    by (simp add: r carries_def)
  moreover have "str_arg demo_args ''url'' = Some (lit ''a'')"
    by code_simp
  moreover have "0 < length (snd ?r)"
    by (simp add: r)
  ultimately show "origin_of demo_env (hr_url (snd ?r ! 0)) = origin_of demo_env (lit ''a'')"
    by (intro credentials_stay [OF prod.collapse [symmetric]]) auto
qed

end
