(* ===== verification/Path_Grants.thy ===== *)
theory Path_Grants
  imports Workspace_Paths "HOL-Library.AList"
begin

text \<open>
  The paths the user handed to the app (\<open>app/src/path\_grants.rs\<close>). The store prunes expired entries
  whenever it is asked; the abstract specification only remembers what was granted and when. A
  simulation, stated once as a locale, shows that no sequence of calls can tell the two apart.
  Instants are nanoseconds of one monotonic clock.
\<close>

section \<open>Simulations\<close>

text \<open>
  A concrete machine and its specification that give the same answers, step by step, on every input
  the environment may send.
\<close>

locale simulation =
  fixes rel :: "'s \<Rightarrow> 'a \<Rightarrow> bool"
    and cstep :: "'i \<Rightarrow> 's \<Rightarrow> 'o \<times> 's"
    and astep :: "'i \<Rightarrow> 'a \<Rightarrow> 'o \<times> 'a"
    and enabled :: "'i \<Rightarrow> 'a \<Rightarrow> bool"
  assumes step_out: "rel s a \<Longrightarrow> enabled i a \<Longrightarrow> fst (cstep i s) = fst (astep i a)"
    and step_rel: "rel s a \<Longrightarrow> enabled i a \<Longrightarrow> rel (snd (cstep i s)) (snd (astep i a))"
begin

fun crun :: "'i list \<Rightarrow> 's \<Rightarrow> 'o list" where
  "crun [] s = []"
| "crun (i # is) s = fst (cstep i s) # crun is (snd (cstep i s))"

fun arun :: "'i list \<Rightarrow> 'a \<Rightarrow> 'o list" where
  "arun [] a = []"
| "arun (i # is) a = fst (astep i a) # arun is (snd (astep i a))"

fun admitted :: "'i list \<Rightarrow> 'a \<Rightarrow> bool" where
  "admitted [] a \<longleftrightarrow> True"
| "admitted (i # is) a \<longleftrightarrow> enabled i a \<and> admitted is (snd (astep i a))"

lemma run_eq: "rel s a \<Longrightarrow> admitted is a \<Longrightarrow> crun is s = arun is a"
  by (induction "is" arbitrary: s a) (auto simp: step_out step_rel)

end

section \<open>The store\<close>

definition DEFAULT_GRANT_TTL :: nat where "DEFAULT_GRANT_TTL = 12 * 60 * 60 * 1000000000"

record path_grants =
  ttl :: nat
  entries :: "(raw_path \<times> nat option) list"

definition grants_new :: "nat \<Rightarrow> path_grants" where
  "grants_new t = \<lparr>ttl = t, entries = []\<rparr>"

definition grants_default :: path_grants where
  "grants_default = grants_new DEFAULT_GRANT_TTL"

text \<open>\<open>Path::parent\<close> and \<open>Path::file\_name\<close>.\<close>

definition raw_parent :: "raw_path \<Rightarrow> raw_path option" where
  "raw_parent p = (if components p = [] then None else Some (p\<lparr>components := butlast (components p)\<rparr>))"

definition raw_file_name :: "raw_path \<Rightarrow> ustr option" where
  "raw_file_name p = (case rev (components p) of Normal n # _ \<Rightarrow> Some n | _ \<Rightarrow> None)"

definition raw_is_empty :: "raw_path \<Rightarrow> bool" where
  "raw_is_empty p \<longleftrightarrow> \<not> absolute p \<and> components p = []"

definition grant_key :: "fs_view \<Rightarrow> raw_path \<Rightarrow> raw_path" where
  "grant_key fs path =
     (case canon fs path of
        Some c \<Rightarrow> raw_abs c
      | None \<Rightarrow>
          (case (raw_parent path, raw_file_name path) of
             (Some parent, Some name) \<Rightarrow>
               if raw_is_empty parent then path
               else (case canon fs parent of Some c \<Rightarrow> raw_abs (c @ [name]) | None \<Rightarrow> path)
           | _ \<Rightarrow> path))"

definition grant :: "fs_view \<Rightarrow> nat \<Rightarrow> raw_path \<Rightarrow> path_grants \<Rightarrow> raw_path \<times> path_grants" where
  "grant fs now path s =
     (let key = grant_key fs path in (key, s\<lparr>entries := AList.update key (Some now) (entries s)\<rparr>))"

definition grant_permanent :: "fs_view \<Rightarrow> raw_path \<Rightarrow> path_grants \<Rightarrow> path_grants" where
  "grant_permanent fs path s = s\<lparr>entries := AList.update (grant_key fs path) None (entries s)\<rparr>"

text \<open>\<open>Path::starts\_with\<close>.\<close>

definition raw_starts_with :: "raw_path \<Rightarrow> raw_path \<Rightarrow> bool" where
  "raw_starts_with p q \<longleftrightarrow> absolute p = absolute q \<and> starts_with (components p) (components q)"

definition fresh :: "nat \<Rightarrow> nat \<Rightarrow> nat option \<Rightarrow> bool" where
  "fresh t now granted_at = (case granted_at of None \<Rightarrow> True | Some at \<Rightarrow> now - at < t)"

definition is_granted :: "fs_view \<Rightarrow> nat \<Rightarrow> raw_path \<Rightarrow> path_grants \<Rightarrow> bool \<times> path_grants" where
  "is_granted fs now path s =
     (let key = grant_key fs path;
          kept = filter (\<lambda>(k, at). fresh (ttl s) now at) (entries s)
      in (key \<in> fst ` set kept \<or> list_ex (\<lambda>(g, at). fs_is_dir fs g \<and> raw_starts_with key g) kept,
          s\<lparr>entries := kept\<rparr>))"

definition grants_clear :: "path_grants \<Rightarrow> path_grants" where
  "grants_clear s = s\<lparr>entries := []\<rparr>"

section \<open>The specification\<close>

text \<open>
  A call at an instant, with the file system as it is then. The specification keeps the history of
  grants since the last clearing, the newest first, and the instant of the last call.
\<close>

datatype grant_op = Grant raw_path | Permanent raw_path | Check raw_path | Clear_All

type_synonym grant_call = "nat \<times> fs_view \<times> grant_op"

fun grants_step :: "grant_call \<Rightarrow> path_grants \<Rightarrow> bool \<times> path_grants" where
  "grants_step (now, fs, Grant p) s = (True, snd (grant fs now p s))"
| "grants_step (now, fs, Permanent p) s = (True, grant_permanent fs p s)"
| "grants_step (now, fs, Check p) s = is_granted fs now p s"
| "grants_step (now, fs, Clear_All) s = (True, grants_clear s)"

record grant_history =
  gh_ttl :: nat
  gh_now :: nat
  gh_granted :: "(raw_path \<times> nat option) list"

text \<open>
  A path is trusted for good once it was granted permanently, and for the time limit after any other
  grant of it.
\<close>

definition trusted :: "grant_history \<Rightarrow> nat \<Rightarrow> raw_path \<Rightarrow> bool" where
  "trusted a now g \<longleftrightarrow> (\<exists>at. (g, at) \<in> set (gh_granted a) \<and> fresh (gh_ttl a) now at)"

definition spec_granted :: "fs_view \<Rightarrow> nat \<Rightarrow> raw_path \<Rightarrow> grant_history \<Rightarrow> bool" where
  "spec_granted fs now path a \<longleftrightarrow>
     trusted a now (grant_key fs path) \<or>
     (\<exists>g \<in> fst ` set (gh_granted a). trusted a now g \<and> fs_is_dir fs g \<and> raw_starts_with (grant_key fs path) g)"

fun spec_step :: "grant_call \<Rightarrow> grant_history \<Rightarrow> bool \<times> grant_history" where
  "spec_step (now, fs, Grant p) a = (True, a\<lparr>gh_now := now, gh_granted := (grant_key fs p, Some now) # gh_granted a\<rparr>)"
| "spec_step (now, fs, Permanent p) a = (True, a\<lparr>gh_now := now, gh_granted := (grant_key fs p, None) # gh_granted a\<rparr>)"
| "spec_step (now, fs, Check p) a = (spec_granted fs now p a, a\<lparr>gh_now := now\<rparr>)"
| "spec_step (now, fs, Clear_All) a = (True, a\<lparr>gh_now := now, gh_granted := []\<rparr>)"

text \<open>
  The clock does not run backwards, and no path that is trusted for good is granted again with a time
  limit: the store would forget the permanent grant (\<open>picker\_demotes\_permanent\<close> below).
\<close>

definition demotes :: "grant_call \<Rightarrow> grant_history \<Rightarrow> bool" where
  "demotes c a \<longleftrightarrow> (case c of (now, fs, Grant p) \<Rightarrow> (grant_key fs p, None) \<in> set (gh_granted a) | _ \<Rightarrow> False)"

definition in_order :: "grant_call \<Rightarrow> grant_history \<Rightarrow> bool" where
  "in_order c a \<longleftrightarrow> gh_now a \<le> fst c \<and> \<not> demotes c a"

text \<open>What the last word about a path says; it decides when nothing was demoted.\<close>

definition last_trusted :: "grant_history \<Rightarrow> nat \<Rightarrow> raw_path \<Rightarrow> bool" where
  "last_trusted a now g \<longleftrightarrow> (\<exists>at. map_of (gh_granted a) g = Some at \<and> fresh (gh_ttl a) now at)"

definition last_decides :: "grant_history \<Rightarrow> bool" where
  "last_decides a \<longleftrightarrow> (\<forall>(k, at) \<in> set (gh_granted a).
     case (at, map_of (gh_granted a) k) of
       (None, w) \<Rightarrow> w = Some None
     | (Some i, Some (Some j)) \<Rightarrow> i \<le> j \<and> j \<le> gh_now a
     | (Some i, w) \<Rightarrow> i \<le> gh_now a)"

lemma last_decides_trusted:
  assumes "last_decides a"
  shows "trusted a now k \<longleftrightarrow> last_trusted a now k"
proof
  assume "trusted a now k"
  then obtain at where at: "(k, at) \<in> set (gh_granted a)" "fresh (gh_ttl a) now at" by (auto simp: trusted_def)
  then obtain l where "map_of (gh_granted a) k = Some l" by (metis weak_map_of_SomeI)
  moreover have "case (at, map_of (gh_granted a) k) of
       (None, w) \<Rightarrow> w = Some None
     | (Some i, Some (Some j)) \<Rightarrow> i \<le> j \<and> j \<le> gh_now a
     | (Some i, w) \<Rightarrow> i \<le> gh_now a"
    using assms at(1) by (fastforce simp: last_decides_def)
  ultimately show "last_trusted a now k"
    using at(2) by (auto simp: last_trusted_def fresh_def split: option.splits)
qed (auto simp: trusted_def last_trusted_def dest: map_of_SomeD)

lemma last_decides_step:
  assumes "last_decides a" "in_order c a"
  shows "last_decides (snd (spec_step c a))"
proof (cases "(c, a)" rule: spec_step.cases)
  case (1 now fs p a')
  then show ?thesis
    using assms by (fastforce simp: last_decides_def in_order_def demotes_def split: option.splits if_splits)
next
  case (2 now fs p a')
  then show ?thesis using assms by (fastforce simp: last_decides_def in_order_def split: option.splits)
next
  case (3 now fs p a')
  then show ?thesis using assms by (fastforce simp: last_decides_def in_order_def split: option.splits)
qed (simp_all add: last_decides_def)

text \<open>
  The store holds the last word about every path, except for some of those that have expired.
\<close>

definition grants_rel :: "path_grants \<Rightarrow> grant_history \<Rightarrow> bool" where
  "grants_rel s a \<longleftrightarrow>
     ttl s = gh_ttl a \<and> distinct (map fst (entries s)) \<and>
     (\<forall>k. map_of (entries s) k = map_of (gh_granted a) k \<or>
        map_of (entries s) k = None \<and> \<not> last_trusted a (gh_now a) k)"

lemma fresh_mono: "now \<le> now' \<Longrightarrow> fresh t now' at \<Longrightarrow> fresh t now at"
  by (auto simp: fresh_def split: option.splits)

lemma map_of_filter_distinct:
  "distinct (map fst xs) \<Longrightarrow>
     map_of (filter P xs) k = (case map_of xs k of Some v \<Rightarrow> if P (k, v) then Some v else None | None \<Rightarrow> None)"
proof (induction xs)
  case (Cons x xs)
  obtain j w where x: "x = (j, w)"
    by (cases x)
  have "map_of xs j = None"
    using Cons.prems x by (auto simp: map_of_eq_None_iff)
  with Cons x show ?case
    by (cases "j = k") (auto split: option.splits)
qed simp

lemma last_trusted_entries:
  assumes "grants_rel s a" "gh_now a \<le> now"
  shows "last_trusted a now k \<longleftrightarrow> (\<exists>at. map_of (entries s) k = Some at \<and> fresh (ttl s) now at)"
proof -
  have m: "map_of (entries s) k = map_of (gh_granted a) k \<or> map_of (entries s) k = None \<and> \<not> last_trusted a (gh_now a) k"
    and t: "ttl s = gh_ttl a"
    using assms(1) by (auto simp: grants_rel_def)
  from m show ?thesis
  proof
    assume "map_of (entries s) k = map_of (gh_granted a) k"
    with t show ?thesis by (simp add: last_trusted_def)
  next
    assume n: "map_of (entries s) k = None \<and> \<not> last_trusted a (gh_now a) k"
    then have "\<not> last_trusted a now k"
      using fresh_mono [OF assms(2)] by (auto simp: last_trusted_def)
    with n show ?thesis by simp
  qed
qed

lemma rel_update:
  assumes "grants_rel s a" "gh_now a \<le> now"
  shows "grants_rel (s\<lparr>entries := AList.update k v (entries s)\<rparr>) (a\<lparr>gh_now := now, gh_granted := (k, v) # gh_granted a\<rparr>)"
  using assms fresh_mono [OF assms(2)]
  by (auto simp: grants_rel_def update_conv' distinct_update last_trusted_def)

lemma is_granted_rel:
  assumes "grants_rel s a" "gh_now a \<le> now"
  shows "last_decides a \<Longrightarrow> fst (is_granted fs now p s) = spec_granted fs now p a"
    and "grants_rel (snd (is_granted fs now p s)) (a\<lparr>gh_now := now\<rparr>)"
proof -
  let ?kept = "filter (\<lambda>(k, at). fresh (ttl s) now at) (entries s)"
  have d: "distinct (map fst (entries s))"
    using assms(1) by (simp add: grants_rel_def)
  have kept: "(k, at) \<in> set ?kept \<longleftrightarrow> map_of (entries s) k = Some at \<and> fresh (ttl s) now at" for k at
    using d by auto
  have tr: "last_trusted a now k \<longleftrightarrow> (\<exists>at. (k, at) \<in> set ?kept)" for k
    by (simp only: last_trusted_entries [OF assms] kept)
  have dom: "last_trusted a now g \<Longrightarrow> g \<in> fst ` set (gh_granted a)" for g
    by (auto simp: last_trusted_def dest: map_of_SomeD intro!: image_eqI [of _ fst])
  have key: "k \<in> fst ` set ?kept \<longleftrightarrow> last_trusted a now k" for k
    unfolding tr by force
  have above: "list_ex (\<lambda>(g, at). D g) ?kept \<longleftrightarrow> (\<exists>g \<in> fst ` set (gh_granted a). last_trusted a now g \<and> D g)" for D
    unfolding list_ex_iff using tr dom by fast
  show "fst (is_granted fs now p s) = spec_granted fs now p a" if l: "last_decides a"
    by (simp only: is_granted_def spec_granted_def last_decides_trusted [OF l] Let_def fst_conv key above)
  have "map_of ?kept k = map_of (gh_granted a) k \<or> map_of ?kept k = None \<and> \<not> last_trusted (a\<lparr>gh_now := now\<rparr>) now k" for k
  proof (cases "last_trusted a now k")
    case True
    then obtain at where at: "map_of (gh_granted a) k = Some at" "fresh (ttl s) now at"
      using assms(1) by (auto simp: last_trusted_def grants_rel_def)
    then have "last_trusted a (gh_now a) k"
      using fresh_mono [OF assms(2)] assms(1) by (auto simp: last_trusted_def grants_rel_def)
    then have "map_of (entries s) k = map_of (gh_granted a) k"
      using assms(1) unfolding grants_rel_def by blast
    then have "map_of (entries s) k = Some at"
      by (simp only: at(1))
    then have "map_of ?kept k = Some at"
      using at(2) by (simp add: map_of_filter_distinct [OF d])
    with at show ?thesis by simp
  next
    case False
    then have "map_of ?kept k = None"
      using tr [of k] by (metis map_of_SomeD not_None_eq)
    with False show ?thesis
      by (simp add: last_trusted_def)
  qed
  moreover have "distinct (map fst ?kept)"
    using d by (rule distinct_map_filter)
  ultimately show "grants_rel (snd (is_granted fs now p s)) (a\<lparr>gh_now := now\<rparr>)"
    using assms(1) by (simp add: grants_rel_def is_granted_def Let_def)
qed

definition grants_sim :: "path_grants \<Rightarrow> grant_history \<Rightarrow> bool" where
  "grants_sim s a \<longleftrightarrow> grants_rel s a \<and> last_decides a"

interpretation grants: simulation grants_sim grants_step spec_step in_order
proof
  fix s a and i :: grant_call
  assume sim: "grants_sim s a" and e: "in_order i a"
  then have r: "grants_rel s a" and l: "last_decides a" by (simp_all add: grants_sim_def)
  obtain now fs c where i: "i = (now, fs, c)"
    by (cases i)
  with e have n: "gh_now a \<le> now"
    by (simp add: in_order_def)
  show "fst (grants_step i s) = fst (spec_step i a)"
    using is_granted_rel(1) [OF r n l] by (cases c) (simp_all add: i)
  have "grants_rel (snd (grants_step i s)) (snd (spec_step i a))"
    using is_granted_rel(2) [OF r n] rel_update [OF r n] r
    by (cases c) (simp_all add: i grant_def Let_def grant_permanent_def grants_clear_def, simp add: grants_rel_def)
  with last_decides_step [OF l e] show "grants_sim (snd (grants_step i s)) (snd (spec_step i a))"
    by (simp add: grants_sim_def)
qed

section \<open>No call can tell\<close>

fun grant_answers :: "grant_call list \<Rightarrow> path_grants \<Rightarrow> bool list" where
  "grant_answers [] s = []"
| "grant_answers (c # cs) s = (case grants_step c s of (b, s') \<Rightarrow> b # grant_answers cs s')"

fun spec_answers :: "grant_call list \<Rightarrow> grant_history \<Rightarrow> bool list" where
  "spec_answers [] a = []"
| "spec_answers (c # cs) a = (case spec_step c a of (b, a') \<Rightarrow> b # spec_answers cs a')"

lemma answers_runs: "grant_answers cs s = grants.crun cs s" "spec_answers cs a = grants.arun cs a"
  by (induction cs arbitrary: s a) (auto simp: prod.case_eq_if)

lemma spec_step_now: "gh_now (snd (spec_step c a)) = fst c"
  by (cases "(c, a)" rule: spec_step.cases) auto

fun respects_permanent :: "grant_call list \<Rightarrow> grant_history \<Rightarrow> bool" where
  "respects_permanent [] a = True"
| "respects_permanent (c # cs) a = (\<not> demotes c a \<and> respects_permanent cs (snd (spec_step c a)))"

lemma sorted_admitted: "sorted (gh_now a # map fst cs) \<Longrightarrow> respects_permanent cs a \<Longrightarrow> grants.admitted cs a"
  by (induction cs arbitrary: a) (auto simp: in_order_def spec_step_now)

text \<open>
  C19 (refinement). The grant store implements its specification: a path is trusted when it, or an existing
  folder above it, was granted permanently or within the time limit since the last clearing. For every
  sequence of grants, permanent grants, checks and clearings, with the file system changing in any way
  between the calls and a clock that does not run backwards, the store answers every check so, as long
  as no path with a permanent grant is granted again with a time limit (then the store forgets the
  permanent grant, \<open>picker\_demotes\_permanent\<close>). Pruning on lookup is invisible.
\<close>
theorem grants_refine:
  assumes "sorted (map fst calls)" "respects_permanent calls \<lparr>gh_ttl = t, gh_now = 0, gh_granted = []\<rparr>"
  shows "grant_answers calls (grants_new t) = spec_answers calls \<lparr>gh_ttl = t, gh_now = 0, gh_granted = []\<rparr>"
  unfolding answers_runs
proof (rule grants.run_eq)
  show "grants_sim (grants_new t) \<lparr>gh_ttl = t, gh_now = 0, gh_granted = []\<rparr>"
    by (simp add: grants_sim_def last_decides_def grants_rel_def grants_new_def)
  show "grants.admitted calls \<lparr>gh_ttl = t, gh_now = 0, gh_granted = []\<rparr>"
    using assms by (intro sorted_admitted) simp_all
qed

theorem grants_refine_witness:
  "let w = raw_abs [lit ''w'']; n = raw_abs [lit ''w'', lit ''n''];
       calls = [(0, demo_fs, Grant w), (5, demo_fs, Check n), (10, demo_fs, Check n)]
   in grant_answers calls (grants_new 10) = [True, True, False] \<and>
      spec_answers calls \<lparr>gh_ttl = 10, gh_now = 0, gh_granted = []\<rparr> = [True, True, False]"
proof -
  let ?c = "[(0, demo_fs, Grant (raw_abs [lit ''w''])), (5, demo_fs, Check (raw_abs [lit ''w'', lit ''n''])),
     (10, demo_fs, Check (raw_abs [lit ''w'', lit ''n'']))] :: grant_call list"
  have "grant_answers ?c (grants_new 10) = [True, True, False]"
    by code_simp
  moreover have "respects_permanent ?c \<lparr>gh_ttl = 10, gh_now = 0, gh_granted = []\<rparr>"
    by (simp add: demotes_def)
  ultimately show ?thesis
    using grants_refine [of ?c 10] by (simp add: Let_def)
qed

text \<open>
  Picking a folder that is already trusted for the life of the process gives it a time limit: the last
  word replaces the permanent grant.
\<close>

lemma picker_demotes_permanent:
  "grant_answers [(0, demo_fs, Permanent (raw_abs [lit ''w''])), (1, demo_fs, Grant (raw_abs [lit ''w''])),
     (11, demo_fs, Check (raw_abs [lit ''w'']))] (grants_new 10) = [True, True, False]"
  by code_simp

end
