(* ===== verification/Reliability.thy ===== *)
theory Reliability
  imports Prelude
begin

text \<open>
  Error classes, backoff and the retry loop of provider requests (\<open>providers/src/reliability.rs\<close> and
  \<open>send\_with\_retry\<close> of \<open>providers/src/transport/mod.rs\<close>). What each attempt meets is a parameter;
  full Unicode lower-casing is a parameter; durations are milliseconds.
\<close>

section \<open>Classification\<close>

definition MAX_ATTEMPTS :: nat where "MAX_ATTEMPTS = 4"
definition BASE_BACKOFF_MS :: u64 where "BASE_BACKOFF_MS = 500"
definition MAX_BACKOFF_MS :: u64 where "MAX_BACKOFF_MS = 20000"

datatype error_kind = RateLimited | Unavailable | BadRequest | Unauthorized | TooLarge | Transport | Other

definition is_retryable :: "error_kind \<Rightarrow> bool" where
  "is_retryable k \<longleftrightarrow> k \<in> {RateLimited, Unavailable, Transport}"

definition from_status :: "nat \<Rightarrow> error_kind" where
  "from_status status =
     (if status = 408 \<or> status = 425 then Unavailable
      else if status = 401 \<or> status = 403 then Unauthorized
      else if status = 429 then RateLimited
      else if status = 400 \<or> status = 404 \<or> status = 422 then BadRequest
      else if status = 413 then TooLarge
      else if status \<ge> 500 then Unavailable
      else Other)"

definition TRANSPORT_WORDS :: "string list" where
  "TRANSPORT_WORDS = [''timed out'', ''timeout'', ''connection reset'', ''connection refused'', ''broken pipe'', ''dns'', ''eof'']"

definition from_transport :: "(ustr \<Rightarrow> ustr) \<Rightarrow> ustr \<Rightarrow> error_kind" where
  "from_transport lower message =
     (if list_ex (\<lambda>w. str_contains (lower message) (lit w)) TRANSPORT_WORDS then Transport else Other)"

text \<open>One link of the source chain of an error: what the HTTP library says of it, if it is one of its errors, and its text.\<close>

record error_link =
  el_http :: "(bool \<times> nat option) option"
  el_text :: ustr

fun from_error :: "(ustr \<Rightarrow> ustr) \<Rightarrow> error_link list \<Rightarrow> error_kind" where
  "from_error lower [] = Other"
| "from_error lower (e # es) =
     (case el_http e of
        Some (timeout_or_connect, status) \<Rightarrow>
          if timeout_or_connect then Transport
          else (case status of
                  Some s \<Rightarrow> from_status s
                | None \<Rightarrow> if from_transport lower (el_text e) = Transport then Transport else from_error lower es)
      | None \<Rightarrow> if from_transport lower (el_text e) = Transport then Transport else from_error lower es)"

section \<open>Waiting\<close>

definition retry_after_secs :: "ustr option \<Rightarrow> nat option" where
  "retry_after_secs header =
     (case header of
        None \<Rightarrow> None
      | Some raw \<Rightarrow> map_option (\<lambda>s. min s (unat MAX_BACKOFF_MS div 1000) * 1000) (parse_uint (2 ^ 64) (trim raw)))"

definition backoff :: "nat \<Rightarrow> nat" where
  "backoff attempt = min (unat (sat_mul BASE_BACKOFF_MS (push_bit (min attempt 6) 1))) (unat MAX_BACKOFF_MS)"

definition wait_for :: "nat \<Rightarrow> nat option \<Rightarrow> nat" where
  "wait_for attempt retry_after =
     (case retry_after of Some server \<Rightarrow> min server (unat MAX_BACKOFF_MS) | None \<Rightarrow> backoff attempt)"

definition should_retry :: "error_kind \<Rightarrow> nat \<Rightarrow> bool" where
  "should_retry kind attempts_made \<longleftrightarrow> is_retryable kind \<and> attempts_made < MAX_ATTEMPTS"

definition max_attempts :: nat where "max_attempts = MAX_ATTEMPTS"

definition worst_case_duration :: nat where
  "worst_case_duration = sum_list (map backoff [0..<MAX_ATTEMPTS])"

section \<open>The retry loop\<close>

text \<open>What an attempt meets: a transport error, or an answer with its status, \<open>Retry-After\<close> header and body.\<close>

datatype attempt_end = Transport_Error "error_link list" | Answer nat "ustr option" ustr

datatype send_error = Not_Cloneable | Request_Failed error_kind | Http_Rejected nat nat ustr

definition is_success :: "nat \<Rightarrow> bool" where
  "is_success status \<longleftrightarrow> 200 \<le> status \<and> status < 300"

definition truncate_body :: "ustr \<Rightarrow> ustr" where
  "truncate_body body = (if utf8_len body \<le> 800 then body else utf8_take 800 body @ [8230])"

text \<open>Whether the loop goes round again, and after which wait; the result otherwise.\<close>

definition retry_wait :: "(ustr \<Rightarrow> ustr) \<Rightarrow> nat \<Rightarrow> attempt_end \<Rightarrow> nat option" where
  "retry_wait lower attempt a =
     (case a of
        Transport_Error e \<Rightarrow>
          if should_retry (from_error lower e) attempt then Some (wait_for attempt None) else None
      | Answer status retry_after body \<Rightarrow>
          if \<not> is_success status \<and> should_retry (from_status status) attempt
          then Some (wait_for attempt (retry_after_secs retry_after)) else None)"

definition send_result :: "(ustr \<Rightarrow> ustr) \<Rightarrow> nat \<Rightarrow> attempt_end \<Rightarrow> send_error + nat \<times> ustr" where
  "send_result lower attempt a =
     (case a of
        Transport_Error e \<Rightarrow> Inl (Request_Failed (from_error lower e))
      | Answer status retry_after body \<Rightarrow>
          if is_success status then Inr (status, body)
          else Inl (Http_Rejected status (attempt + 1) (truncate_body body)))"

text \<open>The result, the number of requests sent and the waits between them.\<close>

function send_loop :: "(ustr \<Rightarrow> ustr) \<Rightarrow> (nat \<Rightarrow> attempt_end) \<Rightarrow> nat \<Rightarrow> (send_error + nat \<times> ustr) \<times> nat \<times> nat list" where
  "send_loop lower server attempt =
     (case retry_wait lower attempt (server attempt) of
        Some wait \<Rightarrow>
          (case send_loop lower server (attempt + 1) of (res, sent, waits) \<Rightarrow> (res, sent + 1, wait # waits))
      | None \<Rightarrow> (send_result lower attempt (server attempt), 1, []))"
  by pat_completeness auto
termination
  by (relation "measure (\<lambda>(lower, server, attempt). MAX_ATTEMPTS - attempt)")
     (auto simp: retry_wait_def should_retry_def split: attempt_end.splits if_splits)

declare send_loop.simps [simp del]

definition send_with_retry :: "(ustr \<Rightarrow> ustr) \<Rightarrow> bool \<Rightarrow> (nat \<Rightarrow> attempt_end) \<Rightarrow> (send_error + nat \<times> ustr) \<times> nat \<times> nat list" where
  "send_with_retry lower cloneable server =
     (if \<not> cloneable then (Inl Not_Cloneable, 0, []) else send_loop lower server 0)"

section \<open>Retries are bounded and only for transient failures\<close>

fun failure_kind :: "(ustr \<Rightarrow> ustr) \<Rightarrow> attempt_end \<Rightarrow> error_kind option" where
  "failure_kind lower (Transport_Error e) = Some (from_error lower e)"
| "failure_kind lower (Answer status r b) = (if is_success status then None else Some (from_status status))"

definition transient :: "(ustr \<Rightarrow> ustr) \<Rightarrow> attempt_end \<Rightarrow> bool" where
  "transient lower a \<longleftrightarrow> (\<exists>k. failure_kind lower a = Some k \<and> is_retryable k)"

lemma backoff_le: "backoff n \<le> 20000"
  by (simp add: backoff_def MAX_BACKOFF_MS_def)

lemma wait_for_le: "wait_for n r \<le> 20000"
  by (simp add: wait_for_def backoff_le MAX_BACKOFF_MS_def split: option.split)

lemma retry_wait_Some:
  "retry_wait lower n a = Some w \<Longrightarrow> transient lower a \<and> n < MAX_ATTEMPTS \<and> w \<le> 20000"
  by (auto simp: retry_wait_def should_retry_def transient_def wait_for_le split: attempt_end.splits if_splits)

lemma retry_wait_None: "retry_wait lower n a = None \<Longrightarrow> transient lower a \<Longrightarrow> MAX_ATTEMPTS \<le> n"
  by (auto simp: retry_wait_def should_retry_def transient_def split: attempt_end.splits if_splits)

lemma send_loop_ok:
  assumes "send_loop lower server n = (res, sent, waits)" "n \<le> MAX_ATTEMPTS"
  shows "0 < sent \<and> n + sent \<le> MAX_ATTEMPTS + 1 \<and> length waits = sent - 1 \<and> (\<forall>w \<in> set waits. w \<le> 20000) \<and>
    (\<forall>i. n \<le> i \<and> i + 1 < n + sent \<longrightarrow> transient lower (server i)) \<and>
    res = send_result lower (n + sent - 1) (server (n + sent - 1)) \<and>
    (n + sent = MAX_ATTEMPTS + 1 \<or> \<not> transient lower (server (n + sent - 1)))"
  using assms
proof (induction "MAX_ATTEMPTS - n" arbitrary: n res sent waits rule: less_induct)
  case less
  show ?case
  proof (cases "retry_wait lower n (server n)")
    case (Some w)
    note w = retry_wait_Some [OF Some]
    obtain sent' waits' where rec: "send_loop lower server (n + 1) = (res, sent', waits')"
      and s: "sent = sent' + 1" "waits = w # waits'"
      using less.prems(1) Some by (auto simp: send_loop.simps [of lower server n] split: prod.splits)
    have "MAX_ATTEMPTS - (n + 1) < MAX_ATTEMPTS - n" "n + 1 \<le> MAX_ATTEMPTS"
      using w by auto
    note ih = less.hyps [OF this(1) rec this(2)]
    have "transient lower (server i)" if "n \<le> i" "i + 1 < n + sent" for i
      using that ih w s by (cases "i = n") auto
    with ih w s show ?thesis
      by auto
  next
    case None
    with less.prems retry_wait_None [OF None] show ?thesis
      by (auto simp: send_loop.simps [of lower server n])
  qed
qed

text \<open>
  C38 (bounds). Retrying a provider request is bounded and only for transient failures. One call sends
  at most five requests and waits at most twenty seconds before each retry, whatever the server puts
  in \<open>Retry-After\<close>; every failure but the last was a transient one; the result is that of the last
  request; and the loop gives up only on a success, on a failure that is not transient, or after the
  fifth request.
\<close>
theorem retry_bounded:
  assumes "send_with_retry lower True server = (res, sent, waits)"
  shows "1 \<le> sent \<and> sent \<le> 5 \<and> length waits = sent - 1 \<and> (\<forall>w \<in> set waits. w \<le> 20000) \<and>
    (\<forall>i. i + 1 < sent \<longrightarrow> transient lower (server i)) \<and>
    res = send_result lower (sent - 1) (server (sent - 1)) \<and>
    (sent = 5 \<or> \<not> transient lower (server (sent - 1)))"
  using send_loop_ok [of lower server 0 res sent waits] assms
  by (auto simp: send_with_retry_def MAX_ATTEMPTS_def)

theorem retry_bounded_witness:
  "\<exists>res waits. send_with_retry (\<lambda>s. s) True (\<lambda>i. Answer 503 (Some (lit ''3600'')) []) = (res, 5, waits) \<and>
     list_all (\<lambda>w. w \<le> 20000) waits"
proof -
  let ?r = "send_with_retry (\<lambda>s. s) True (\<lambda>i. Answer 503 (Some (lit ''3600'')) [])"
  obtain res sent waits where r: "?r = (res, sent, waits)"
    by (cases ?r)
  have "transient (\<lambda>s. s) (Answer 503 (Some (lit ''3600'')) [])"
    by (simp add: transient_def is_success_def from_status_def is_retryable_def)
  with retry_bounded [OF r] r show ?thesis
    by (auto simp: list_all_iff)
qed

text \<open>
  The loop counts from 0, so it sends one request more than \<open>max\_attempts\<close> announces; and the worst
  case it announces leaves out what \<open>Retry-After\<close> may add.
\<close>

lemma one_more_attempt:
  "\<exists>res waits. send_with_retry (\<lambda>s. s) True (\<lambda>i. Answer 503 None []) = (res, max_attempts + 1, waits)"
proof -
  obtain res sent waits where r: "send_with_retry (\<lambda>s. s) True (\<lambda>i. Answer 503 None []) = (res, sent, waits)"
    by (cases "send_with_retry (\<lambda>s. s) True (\<lambda>i. Answer 503 None [])")
  then have l: "send_loop (\<lambda>s. s) (\<lambda>i. Answer 503 None []) 0 = (res, sent, waits)"
    by (simp add: send_with_retry_def)
  have "transient (\<lambda>s. s) (Answer 503 None [])"
    by (simp add: transient_def is_success_def from_status_def is_retryable_def)
  with send_loop_ok [OF l] r show ?thesis
    by (auto simp: max_attempts_def)
qed

lemma worst_case_value: "worst_case_duration = 7500"
proof -
  have "push_bit 1 (1 :: u64) = 2" "push_bit 2 (1 :: u64) = 4" "push_bit 3 (1 :: u64) = 8"
    by simp_all
  then show ?thesis
    by (simp add: worst_case_duration_def MAX_ATTEMPTS_def backoff_def unat_sat_mul BASE_BACKOFF_MS_def MAX_BACKOFF_MS_def upt_rec min_def)
qed

end
