(* ===== verification/Cron.thy ===== *)
theory Cron
  imports Prelude
begin

text \<open>
  Cron expressions (\<open>core/src/schedule.rs\<close>): the parser of the five- and six-field forms and the
  macros, the match at an instant and the search for the next one. An instant is the number of
  nanoseconds since the epoch; the calendar (\<open>chrono\<close>) is a parameter that gives the civil fields of
  a number of seconds.
\<close>

section \<open>Fields\<close>

datatype cron_error =
    Empty_Field
  | Empty_Element
  | Bad_Step
  | Zero_Step
  | Outside nat nat nat
  | Unknown_Value
  | Inverted nat nat
  | Field_Count nat

definition MONTHS :: "string list" where
  "MONTHS = [''jan'', ''feb'', ''mar'', ''apr'', ''may'', ''jun'', ''jul'', ''aug'', ''sep'', ''oct'', ''nov'', ''dec'']"

definition WEEKDAYS :: "string list" where
  "WEEKDAYS = [''sun'', ''mon'', ''tue'', ''wed'', ''thu'', ''fri'', ''sat'']"

text \<open>\<open>split\_once\<close>: at the first occurrence.\<close>

definition split_once :: "uchar \<Rightarrow> ustr \<Rightarrow> (ustr \<times> ustr) option" where
  "split_once c s =
     (if c \<in> set s then Some (takeWhile (\<lambda>x. x \<noteq> c) s, tl (dropWhile (\<lambda>x. x \<noteq> c) s)) else None)"

fun position :: "('a \<Rightarrow> bool) \<Rightarrow> 'a list \<Rightarrow> nat option" where
  "position p [] = None"
| "position p (x # xs) = (if p x then Some 0 else map_option Suc (position p xs))"

definition parse_value :: "ustr \<Rightarrow> nat \<Rightarrow> nat \<Rightarrow> string list \<Rightarrow> cron_error + nat" where
  "parse_value token0 lo hi names =
     (let token = trim token0 in
      case parse_uint (2 ^ 32) token of
        Some v \<Rightarrow> if v < lo \<or> v > hi then Inl (Outside v lo hi) else Inr v
      | None \<Rightarrow>
          let lower = ascii_lower token in
          (case position (\<lambda>n. lit n = lower) names of
             Some idx \<Rightarrow> Inr (lo + idx)
           | None \<Rightarrow>
               (case (if length names = 7 then position (\<lambda>n. starts_with (lit n) lower \<and> utf8_len lower = 3) names else None) of
                  Some idx \<Rightarrow> Inr (lo + idx)
                | None \<Rightarrow> Inl Unknown_Value)))"

text \<open>The members of a part: \<open>v\<close>, \<open>v + step\<close>, ... up to the end, with the saturating addition.\<close>

function mark :: "nat \<Rightarrow> nat \<Rightarrow> nat \<Rightarrow> nat \<Rightarrow> bool list \<Rightarrow> bool list" where
  "mark lo stop step v table =
     (if v \<le> stop \<and> 0 < step \<and> stop < 2 ^ 32 - 1
      then mark lo stop step (min (v + step) (2 ^ 32 - 1)) (table[v - lo := True]) else table)"
  by pat_completeness auto
termination
  by (relation "measure (\<lambda>(lo, stop, step, v, table). 2 ^ 32 - v)") auto

declare mark.simps [simp del]

definition part_range :: "ustr \<Rightarrow> nat \<Rightarrow> nat \<Rightarrow> string list \<Rightarrow> cron_error + (nat \<times> nat \<times> nat)" where
  "part_range part lo hi names =
     (let stepped =
        (case split_once 47 part of
           Some (r, s) \<Rightarrow>
             (case parse_uint (2 ^ 32) s of
                None \<Rightarrow> Inl Bad_Step
              | Some step \<Rightarrow> if step = 0 then Inl Zero_Step else Inr (r, step))
         | None \<Rightarrow> Inr (part, 1))
      in case stepped of
           Inl e \<Rightarrow> Inl e
         | Inr (range_part, step) \<Rightarrow>
             if range_part = lit ''*'' then Inr (lo, hi, step)
             else
               (case split_once 45 range_part of
                  Some (a, b) \<Rightarrow>
                    (case parse_value a lo hi names of
                       Inl e \<Rightarrow> Inl e
                     | Inr x \<Rightarrow> (case parse_value b lo hi names of Inl e \<Rightarrow> Inl e | Inr y \<Rightarrow> Inr (x, y, step)))
                | None \<Rightarrow>
                    (case parse_value range_part lo hi names of
                       Inl e \<Rightarrow> Inl e
                     | Inr v \<Rightarrow> Inr (v, if step > 1 then hi else v, step))))"

fun parse_parts :: "nat \<Rightarrow> nat \<Rightarrow> string list \<Rightarrow> ustr list \<Rightarrow> bool list \<Rightarrow> cron_error + bool list" where
  "parse_parts lo hi names [] table = Inr table"
| "parse_parts lo hi names (part # parts) table =
     (if trim part = [] then Inl Empty_Element
      else case part_range (trim part) lo hi names of
             Inl e \<Rightarrow> Inl e
           | Inr (start, stop, step) \<Rightarrow>
               if start > stop then Inl (Inverted start stop)
               else parse_parts lo hi names parts (mark lo stop step start table))"

definition parse_field :: "ustr \<Rightarrow> nat \<Rightarrow> nat \<Rightarrow> string list \<Rightarrow> cron_error + bool list" where
  "parse_field field lo hi names =
     (if trim field = [] then Inl Empty_Field
      else parse_parts lo hi names (str_split (\<lambda>c. c = 44) (trim field)) (replicate (hi - lo + 1) False))"

section \<open>Schedules\<close>

record cron =
  seconds :: "bool list"
  minutes :: "bool list"
  hours :: "bool list"
  days :: "bool list"
  months :: "bool list"
  weekdays :: "bool list"
  dom_restricted :: bool
  dow_restricted :: bool
  with_seconds :: bool

definition expand_macro :: "ustr \<Rightarrow> ustr" where
  "expand_macro e =
     (if one_of e [''@yearly'', ''@annually''] then lit ''0 0 1 1 *''
      else if e = lit ''@monthly'' then lit ''0 0 1 * *''
      else if e = lit ''@weekly'' then lit ''0 0 * * 0''
      else if one_of e [''@daily'', ''@midnight''] then lit ''0 0 * * *''
      else if e = lit ''@hourly'' then lit ''0 * * * *''
      else e)"

definition parse_fields :: "bool \<Rightarrow> ustr \<Rightarrow> ustr \<Rightarrow> ustr \<Rightarrow> ustr \<Rightarrow> ustr \<Rightarrow> ustr \<Rightarrow> cron_error + cron" where
  "parse_fields with_secs f0 f1 f2 f3 f4 f5 =
     (case (if with_secs then parse_field f0 0 59 [] else Inr (replicate 60 True)) of Inl e \<Rightarrow> Inl e | Inr ss \<Rightarrow>
      (case parse_field f1 0 59 [] of Inl e \<Rightarrow> Inl e | Inr mi \<Rightarrow>
      (case parse_field f2 0 23 [] of Inl e \<Rightarrow> Inl e | Inr ho \<Rightarrow>
      (case parse_field f3 1 31 [] of Inl e \<Rightarrow> Inl e | Inr da \<Rightarrow>
      (case parse_field f4 1 12 MONTHS of Inl e \<Rightarrow> Inl e | Inr mo \<Rightarrow>
      (case parse_field f5 0 6 WEEKDAYS of Inl e \<Rightarrow> Inl e | Inr we \<Rightarrow>
         Inr \<lparr>seconds = ss, minutes = mi, hours = ho, days = da, months = mo, weekdays = we,
              dom_restricted = f3 \<noteq> lit ''*'', dow_restricted = f5 \<noteq> lit ''*'', with_seconds = with_secs\<rparr>))))))"

definition cron_parse :: "ustr \<Rightarrow> cron_error + cron" where
  "cron_parse expr =
     (case split_whitespace (expand_macro (trim expr)) of
        [f1, f2, f3, f4, f5] \<Rightarrow> parse_fields False [] f1 f2 f3 f4 f5
      | [f0, f1, f2, f3, f4, f5] \<Rightarrow> parse_fields True f0 f1 f2 f3 f4 f5
      | fs \<Rightarrow> Inl (Field_Count (length fs)))"

text \<open>The civil fields of an instant, as \<open>chrono\<close> gives them (days and months from 1, Sunday 0).\<close>

record civil =
  c_second :: nat
  c_minute :: nat
  c_hour :: nat
  c_day :: nat
  c_month :: nat
  c_weekday :: nat

type_synonym calendar = "int \<Rightarrow> civil"

definition NANOS :: int where "NANOS = 1000000000"

definition civil_of :: "calendar \<Rightarrow> int \<Rightarrow> civil" where
  "civil_of cal t = cal (t div NANOS)"

definition cron_matches :: "calendar \<Rightarrow> cron \<Rightarrow> int \<Rightarrow> bool" where
  "cron_matches cal s at =
     (let c = civil_of cal at in
      if \<not> seconds s ! c_second c \<or> \<not> minutes s ! c_minute c \<or> \<not> hours s ! c_hour c \<or> \<not> months s ! (c_month c - 1) then False
      else
        let dom = days s ! (c_day c - 1); dow = weekdays s ! c_weekday c
        in if dom_restricted s \<and> dow_restricted s then dom \<or> dow
           else if dom_restricted s then dom
           else if dow_restricted s then dow else True)"

function scan :: "calendar \<Rightarrow> cron \<Rightarrow> int \<Rightarrow> int \<Rightarrow> int \<Rightarrow> int option" where
  "scan cal s step limit candidate =
     (if candidate \<le> limit \<and> 0 < step then
        (if cron_matches cal s candidate then Some candidate else scan cal s step limit (candidate + step))
      else None)"
  by pat_completeness auto
termination
  by (relation "measure (\<lambda>(cal, s, step, limit, candidate). nat (limit + 1 - candidate))") auto

declare scan.simps [simp del]

definition cron_step :: "cron \<Rightarrow> int" where
  "cron_step s = (if with_seconds s then NANOS else 60 * NANOS)"

definition first_candidate :: "cron \<Rightarrow> int \<Rightarrow> int" where
  "first_candidate s from =
     (if with_seconds s then from + NANOS else from - from mod (60 * NANOS) + 60 * NANOS)"

definition horizon :: "int \<Rightarrow> int" where
  "horizon from = from + 365 * 5 * 24 * 60 * 60 * NANOS"

definition next_after :: "calendar \<Rightarrow> cron \<Rightarrow> int \<Rightarrow> int option" where
  "next_after cal s from =
     scan cal s (cron_step s) (horizon from) (first_candidate s from)"

section \<open>The search finds the first match\<close>

lemma scan_first:
  assumes "0 < step"
  shows "case scan cal s step limit c of
           Some t \<Rightarrow> \<exists>k. t = c + int k * step \<and> t \<le> limit \<and> cron_matches cal s t \<and>
              (\<forall>j < k. \<not> cron_matches cal s (c + int j * step))
         | None \<Rightarrow> \<forall>j. c + int j * step \<le> limit \<longrightarrow> \<not> cron_matches cal s (c + int j * step)"
proof (induction "nat (limit + 1 - c)" arbitrary: c rule: less_induct)
  case less
  show ?case
  proof (cases "c \<le> limit \<and> \<not> cron_matches cal s c")
    case False
    have "0 \<le> int j * step" for j
      using assms by simp
    then have "\<not> c \<le> limit \<Longrightarrow> \<not> c + int j * step \<le> limit" for j
      by (smt (verit))
    with False assms show ?thesis
      by (auto simp: scan.simps [of cal s step limit c] intro!: exI [of _ 0])
  next
    case True
    have "nat (limit + 1 - (c + step)) < nat (limit + 1 - c)"
      using True assms by auto
    note ih = less.hyps [OF this]
    have sh: "c + step + int j * step = c + int (Suc j) * step" for j
      by (simp add: algebra_simps)
    have eq: "scan cal s step limit c = scan cal s step limit (c + step)"
      using True assms by (simp add: scan.simps [of cal s step limit c])
    show ?thesis
    proof (cases "scan cal s step limit (c + step)")
      case None
      with ih have "c + int (Suc j) * step \<le> limit \<longrightarrow> \<not> cron_matches cal s (c + int (Suc j) * step)" for j
        by (simp only: option.case sh) blast
      then have "c + int j * step \<le> limit \<longrightarrow> \<not> cron_matches cal s (c + int j * step)" for j
        using True by (cases j) auto
      with None show ?thesis by (simp add: eq)
    next
      case (Some t)
      with ih obtain k where k: "t = c + int (Suc k) * step" "t \<le> limit" "cron_matches cal s t"
        "\<forall>j < k. \<not> cron_matches cal s (c + int (Suc j) * step)"
        by (simp only: option.case sh) blast
      then have "\<not> cron_matches cal s (c + int j * step)" if "j < Suc k" for j
        using that True by (cases j) auto
      with k Some show ?thesis
        by (auto simp: eq intro!: exI [of _ "Suc k"])
    qed
  qed
qed

text \<open>The instants the search looks at: whole minutes, or the seconds with the fraction of the start.\<close>

definition on_grid :: "cron \<Rightarrow> int \<Rightarrow> int \<Rightarrow> bool" where
  "on_grid s from u = (if with_seconds s then (u - from) mod NANOS = 0 else u mod (60 * NANOS) = 0)"

lemma NANOS_pos [simp]: "0 < NANOS"
  by (simp add: NANOS_def)

lemma cron_step_pos [simp]: "0 < cron_step s"
  by (simp add: cron_step_def)

lemma first_candidate_later: "from < first_candidate s from"
proof -
  have "from mod (60 * NANOS) < 60 * NANOS"
    by (rule pos_mod_bound) simp
  then show ?thesis by (auto simp: first_candidate_def)
qed

lemma multiple_above:
  fixes a b n :: int
  assumes "0 < n" "n dvd b - a" "a < b"
  shows "\<exists>k. b = a + n + int k * n"
proof -
  from assms(2) obtain q where q: "b - a = n * q" by (auto elim: dvdE)
  with assms have "0 < n * q" by simp
  with assms(1) have "1 \<le> q" by (simp add: zero_less_mult_iff)
  then have "b = a + n + int (nat (q - 1)) * n"
    using q by (simp add: algebra_simps)
  then show ?thesis by blast
qed

lemma on_grid_candidate:
  assumes "on_grid s from u" "from < u"
  shows "\<exists>k. u = first_candidate s from + int k * cron_step s"
proof (cases "with_seconds s")
  case True
  with assms have "NANOS dvd u - from" by (simp add: on_grid_def dvd_eq_mod_eq_0)
  from multiple_above [OF _ this assms(2)] True show ?thesis
    by (simp add: first_candidate_def cron_step_def)
next
  case False
  let ?n = "60 * NANOS"
  from False assms(1) have "?n dvd u" by (simp add: on_grid_def dvd_eq_mod_eq_0)
  then have "?n dvd u - (from - from mod ?n)"
    by (rule dvd_diff) (rule dvd_minus_mod)
  moreover have "from - from mod ?n < u"
    using assms(2) pos_mod_sign [of ?n "from"] NANOS_pos by linarith
  ultimately show ?thesis
    using multiple_above [of ?n u "from - from mod ?n"] False
    by (simp add: first_candidate_def cron_step_def)
qed

text \<open>
  C39 (functional). The next firing time is the first one: a result lies strictly after the start
  and within five years, matches the schedule, and no instant of the schedule's resolution between
  the start and it matches; no result means that none within the five years does.
\<close>

theorem next_after_first:
  "case next_after cal s from of
     Some t \<Rightarrow> from < t \<and> t \<le> horizon from \<and> cron_matches cal s t \<and>
        (\<forall>u. on_grid s from u \<and> from < u \<and> u < t \<longrightarrow> \<not> cron_matches cal s u)
   | None \<Rightarrow> \<forall>u. on_grid s from u \<and> from < u \<and> u \<le> horizon from \<longrightarrow> \<not> cron_matches cal s u"
proof (cases "next_after cal s from")
  case None
  then have "\<not> cron_matches cal s (first_candidate s from + int j * cron_step s)"
    if "first_candidate s from + int j * cron_step s \<le> horizon from" for j
    using that scan_first [OF cron_step_pos [of s], where cal = cal and s = s and limit = "horizon from" and c = "first_candidate s from"]
    by (simp add: next_after_def)
  with None show ?thesis
    using on_grid_candidate by fastforce
next
  case (Some t)
  then obtain k where k: "t = first_candidate s from + int k * cron_step s" "t \<le> horizon from"
      "cron_matches cal s t" "\<forall>j < k. \<not> cron_matches cal s (first_candidate s from + int j * cron_step s)"
    using scan_first [OF cron_step_pos [of s], where cal = cal and s = s and limit = "horizon from" and c = "first_candidate s from"]
    by (auto simp: next_after_def)
  have "0 \<le> int k * cron_step s"
    using cron_step_pos [of s] by (simp add: less_imp_le)
  then have "from < t"
    using k(1) first_candidate_later [of "from" s] by linarith
  moreover have "\<not> cron_matches cal s u" if u: "on_grid s from u" "from < u" "u < t" for u
  proof -
    from on_grid_candidate [OF u(1,2)] obtain j where j: "u = first_candidate s from + int j * cron_step s" ..
    with u(3) k(1) have "int j * cron_step s < int k * cron_step s" by simp
    then have "j < k"
      using cron_step_pos [of s] by (simp only: mult_less_cancel_right) auto
    with k(4) j show ?thesis by simp
  qed
  ultimately show ?thesis using Some k by simp
qed

text \<open>A clock without days, and the second minute of every hour.\<close>

definition clock_calendar :: calendar where
  "clock_calendar t = \<lparr>c_second = nat (t mod 60), c_minute = nat (t div 60 mod 60), c_hour = nat (t div 3600 mod 24),
     c_day = 1, c_month = 1, c_weekday = 4\<rparr>"

definition minute_two :: cron where
  "minute_two = \<lparr>seconds = replicate 60 True, minutes = (replicate 60 False)[2 := True], hours = replicate 24 True,
     days = replicate 31 True, months = replicate 12 True, weekdays = replicate 7 True,
     dom_restricted = False, dow_restricted = False, with_seconds = False\<rparr>"

theorem next_after_first_witness:
  "next_after clock_calendar minute_two 0 = Some (120 * NANOS) \<and>
   cron_matches clock_calendar minute_two (120 * NANOS) \<and> \<not> cron_matches clock_calendar minute_two (60 * NANOS)"
proof -
  have "next_after clock_calendar minute_two 0 = Some (120 * NANOS)"
    by (simp add: next_after_def scan.simps horizon_def cron_step_def first_candidate_def minute_two_def
        cron_matches_def civil_of_def clock_calendar_def NANOS_def)
  moreover have "on_grid minute_two 0 (60 * NANOS)"
    by (simp add: on_grid_def minute_two_def)
  ultimately show ?thesis
    using next_after_first [where cal = clock_calendar and s = minute_two and ?from = 0] by simp
qed

section \<open>The tables of a parsed expression\<close>

text \<open>A table has a cell for each value of its field, and some value is a member.\<close>

definition table_ok :: "nat \<Rightarrow> bool list \<Rightarrow> bool" where
  "table_ok n t \<longleftrightarrow> length t = n \<and> True \<in> set t"

definition cron_wf :: "cron \<Rightarrow> bool" where
  "cron_wf s \<longleftrightarrow> table_ok 60 (seconds s) \<and> table_ok 60 (minutes s) \<and> table_ok 24 (hours s) \<and>
     table_ok 31 (days s) \<and> table_ok 12 (months s) \<and> table_ok 7 (weekdays s)"

lemma length_mark [simp]: "length (mark lo stop step v t) = length t"
  by (induction lo stop step v t rule: mark.induct) (subst mark.simps, simp)

lemma mark_keeps: "t ! i \<Longrightarrow> i < length t \<Longrightarrow> mark lo stop step v t ! i"
proof (induction lo stop step v t rule: mark.induct)
  case (1 lo stop step v t)
  have "t[v - lo := True] ! i"
    using 1(2,3) by (cases "v - lo = i") simp_all
  with 1 show ?case
    by (subst mark.simps) simp
qed

lemma mark_first:
  assumes "v \<le> stop" "0 < step" "stop < 2 ^ 32 - 1" "v - lo < length t"
  shows "mark lo stop step v t ! (v - lo)"
  using assms mark_keeps [of "t[v - lo := True]" "v - lo" lo stop step "min (v + step) (2 ^ 32 - 1)"]
  by (subst mark.simps) simp

lemma position_less: "position p xs = Some i \<Longrightarrow> i < length xs"
  by (induction xs arbitrary: i) (auto split: if_splits)

text \<open>The names of a field are as many as its values.\<close>

definition field_ok :: "nat \<Rightarrow> nat \<Rightarrow> string list \<Rightarrow> bool" where
  "field_ok lo hi names \<longleftrightarrow> lo \<le> hi \<and> hi < 2 ^ 32 - 1 \<and> (names = [] \<or> length names = hi - lo + 1)"

lemma parse_value_range:
  assumes "parse_value token lo hi names = Inr v" "field_ok lo hi names"
  shows "lo \<le> v \<and> v \<le> hi"
  using assms
  by (auto simp: parse_value_def field_ok_def Let_def split: option.splits if_splits dest!: position_less)

lemma part_range_ok:
  assumes "part_range part lo hi names = Inr (start, stop, step)" "field_ok lo hi names"
  shows "lo \<le> start \<and> start \<le> hi \<and> lo \<le> stop \<and> stop \<le> hi \<and> 0 < step"
  using assms parse_value_range [OF _ assms(2)]
  by (auto simp: part_range_def Let_def split: option.splits if_splits sum.splits prod.splits)
     (auto simp: field_ok_def)

lemma parse_parts_ok:
  assumes "parse_parts lo hi names parts table = Inr t" "field_ok lo hi names" "length table = hi - lo + 1"
    "parts \<noteq> [] \<or> True \<in> set table"
  shows "table_ok (hi - lo + 1) t"
  using assms
proof (induction lo hi names parts table rule: parse_parts.induct)
  case (1 lo hi names table)
  then show ?case by (simp add: table_ok_def)
next
  case (2 lo hi names part parts table)
  then obtain start stop step where r: "part_range (trim part) lo hi names = Inr (start, stop, step)"
      "\<not> start > stop" "parse_parts lo hi names parts (mark lo stop step start table) = Inr t" "trim part \<noteq> []"
    by (auto split: if_splits sum.splits)
  note b = part_range_ok [OF r(1) 2(3)]
  have "mark lo stop step start table ! (start - lo)"
    using b r(2) 2(3,4) by (intro mark_first) (auto simp: field_ok_def)
  then have "True \<in> set (mark lo stop step start table)"
    using b 2(4) by (metis (full_types) diff_le_mono length_mark less_Suc_eq_le Suc_eq_plus1 nth_mem)
  then show ?case
    using 2(1) [OF r(4,1) refl refl r(2) r(3)] 2(3,4) by simp
qed

lemma parse_field_ok:
  assumes "parse_field f lo hi names = Inr t" "field_ok lo hi names" "n = hi - lo + 1"
  shows "table_ok n t"
  using assms parse_parts_ok [of lo hi names "str_split (\<lambda>c. c = 44) (trim f)" "replicate (hi - lo + 1) False" t]
  by (simp add: parse_field_def split: if_splits)

lemma parse_field_tables:
  "parse_field f 0 59 [] = Inr t \<Longrightarrow> table_ok 60 t"
  "parse_field f 0 23 [] = Inr t \<Longrightarrow> table_ok 24 t"
  "parse_field f 1 31 [] = Inr t \<Longrightarrow> table_ok 31 t"
  "parse_field f 1 12 MONTHS = Inr t \<Longrightarrow> table_ok 12 t"
  "parse_field f 0 6 WEEKDAYS = Inr t \<Longrightarrow> table_ok 7 t"
  by (erule parse_field_ok; simp add: field_ok_def MONTHS_def WEEKDAYS_def)+

lemma parse_fields_ok:
  assumes "parse_fields w f0 f1 f2 f3 f4 f5 = Inr s"
  shows "cron_wf s"
proof -
  from assms obtain ss mi ho da mo we where
    p: "(if w then parse_field f0 0 59 [] else Inr (replicate 60 True)) = Inr ss"
      "parse_field f1 0 59 [] = Inr mi" "parse_field f2 0 23 [] = Inr ho" "parse_field f3 1 31 [] = Inr da"
      "parse_field f4 1 12 MONTHS = Inr mo" "parse_field f5 0 6 WEEKDAYS = Inr we"
      and s: "s = \<lparr>seconds = ss, minutes = mi, hours = ho, days = da, months = mo, weekdays = we,
        dom_restricted = f3 \<noteq> lit ''*'', dow_restricted = f5 \<noteq> lit ''*'', with_seconds = w\<rparr>"
    unfolding parse_fields_def by (simp only: sum.simps split: sum.split_asm)
  have "table_ok 60 ss"
    using p(1) by (cases w) (auto simp: table_ok_def dest!: parse_field_tables(1))
  with p(2-) show ?thesis
    by (simp add: s cron_wf_def parse_field_tables)
qed

text \<open>
  C40 (type). An expression that parses gives tables of the right size, so that no civil time
  indexes one of them out of range, and each has a member: a schedule is never empty in one field.
\<close>

theorem cron_parse_wf:
  "cron_parse e = Inr s \<Longrightarrow> cron_wf s"
  by (auto simp: cron_parse_def split: list.splits intro: parse_fields_ok)

lemma parse_star: "parse_field (lit ''*'') lo hi names = Inr (mark lo hi 1 lo (replicate (hi - lo + 1) False))"
  if "lo \<le> hi"
proof -
  have "trim (lit ''*'') = lit ''*''" "str_split (\<lambda>c. c = 44) (lit ''*'') = [lit ''*'']"
    "split_once 47 (lit ''*'') = None" "lit ''*'' \<noteq> []"
    by code_simp+
  with that show ?thesis
    by (simp add: parse_field_def part_range_def Let_def)
qed

theorem cron_parse_wf_witness:
  "\<exists>s. cron_parse (lit ''* * * * *'') = Inr s \<and> cron_wf s"
proof -
  have "split_whitespace (expand_macro (trim (lit ''* * * * *''))) = replicate 5 (lit ''*'')"
    by code_simp
  then have "\<exists>s. cron_parse (lit ''* * * * *'') = Inr s"
    by (simp add: cron_parse_def parse_fields_def parse_star numeral_eq_Suc)
  with cron_parse_wf show ?thesis by blast
qed

end
