(* ===== verification/Dsml.thy ===== *)
theory Dsml
  imports Json
begin

text \<open>
  Tool calls that a model leaked into its text as DSML markup (\<open>providers/src/dsml.rs\<close>): the parser
  that heals them into calls, the recovery after a malformed block, the removal of what is left, and
  the filter that holds back markup while the text streams. A position in the text is the rest of
  the text from there. The JSON text of a value (\<open>serde\_json\<close>) is read by a parameter and the
  arguments of a call are kept as the value; the random call id is left out.
\<close>

section \<open>Dialects\<close>

datatype dialect = DOUBLE_BAR | ASCII_DOUBLE | SINGLE_BAR | ASCII_SINGLE

definition DIALECTS :: "dialect list" where
  "DIALECTS = [DOUBLE_BAR, ASCII_DOUBLE, SINGLE_BAR, ASCII_SINGLE]"

fun bars :: "dialect \<Rightarrow> ustr" where
  "bars DOUBLE_BAR = [65372, 65372]"
| "bars ASCII_DOUBLE = lit ''||''"
| "bars SINGLE_BAR = [65372]"
| "bars ASCII_SINGLE = lit ''|''"

definition dsml_word :: "dialect \<Rightarrow> ustr" where
  "dsml_word d = bars d @ lit ''DSML'' @ bars d"

definition marker :: "dialect \<Rightarrow> ustr" where
  "marker d = lit ''<'' @ dsml_word d"

definition invoke_open :: "dialect \<Rightarrow> ustr" where
  "invoke_open d = marker d @ lit ''invoke''"

definition invoke_close :: "dialect \<Rightarrow> ustr" where
  "invoke_close d = lit ''</'' @ dsml_word d @ lit ''invoke>''"

definition calls_open :: "dialect \<Rightarrow> ustr" where
  "calls_open d = marker d @ lit ''tool_calls>''"

definition calls_close :: "dialect \<Rightarrow> ustr" where
  "calls_close d = lit ''</'' @ dsml_word d @ lit ''tool_calls>''"

definition parameter_close :: "dialect \<Rightarrow> ustr" where
  "parameter_close d = lit ''</'' @ trim_start_matches (\<lambda>c. c = 60) (marker d) @ lit ''parameter>''"

definition is_double_bar :: "dialect \<Rightarrow> bool" where
  "is_double_bar d \<longleftrightarrow> d = DOUBLE_BAR \<or> d = ASCII_DOUBLE"

text \<open>\<open>min\_by\_key\<close> on the offset: the first of the least.\<close>

fun min_by_offset :: "('a \<times> nat) list \<Rightarrow> ('a \<times> nat) option" where
  "min_by_offset [] = None"
| "min_by_offset (x # xs) =
     (case min_by_offset xs of
        None \<Rightarrow> Some x
      | Some y \<Rightarrow> if snd x \<le> snd y then Some x else Some y)"

definition detect_dialect :: "ustr \<Rightarrow> (dialect \<times> nat) option" where
  "detect_dialect t = min_by_offset (List.map_filter (\<lambda>d. map_option (Pair d) (str_find (marker d) t)) DIALECTS)"

definition contains_dsml :: "ustr \<Rightarrow> bool" where
  "contains_dsml t \<longleftrightarrow> detect_dialect t \<noteq> None"

lemma str_find_shorter: "str_find p t = Some k \<Longrightarrow> p \<noteq> [] \<Longrightarrow> length t - (k + length p) < length t"
  using str_find_Some [of p t k] by (cases p) auto

lemma marker_ne [simp]: "marker d \<noteq> []"
  by (simp add: marker_def)

lemma tag_ne [simp]:
  "invoke_open d \<noteq> []" "invoke_close d \<noteq> []" "calls_open d \<noteq> []" "calls_close d \<noteq> []" "parameter_close d \<noteq> []"
  by (simp_all add: invoke_open_def invoke_close_def calls_open_def calls_close_def parameter_close_def)

section \<open>Tags\<close>

record parsed_tag =
  pt_name :: ustr
  pt_attrs :: "(ustr \<times> ustr) list"
  pt_self_closing :: bool

definition skip_whitespace :: "ustr \<Rightarrow> ustr" where
  "skip_whitespace t = dropWhile is_whitespace t"

definition tag_name_char :: "uchar \<Rightarrow> bool" where
  "tag_name_char c \<longleftrightarrow> \<not> (is_whitespace c \<or> c = 47 \<or> c = 62)"

fun parse_quoted_value :: "ustr \<Rightarrow> (ustr \<times> ustr) option" where
  "parse_quoted_value [] = None"
| "parse_quoted_value (c # t) =
     (if c = 34 then Some ([], t)
      else if c = 92 then
        (case t of
           [] \<Rightarrow> None
         | e # u \<Rightarrow>
             if e = 34 \<or> e = 92 then map_option (\<lambda>(v, r). (e # v, r)) (parse_quoted_value u)
             else map_option (\<lambda>(v, r). (92 # v, r)) (parse_quoted_value t))
      else map_option (\<lambda>(v, r). (c # v, r)) (parse_quoted_value t))"

lemma parse_quoted_length: "parse_quoted_value t = Some (v, r) \<Longrightarrow> length r < length t"
  by (induction t arbitrary: v r rule: parse_quoted_value.induct)
     (fastforce split: if_splits list.splits)+

lemma parse_quoted_drop: "parse_quoted_value t = Some (v, r) \<Longrightarrow> suffix r t"
  by (induction t arbitrary: v r rule: parse_quoted_value.induct)
     (fastforce split: if_splits list.splits intro: suffix_ConsI)+

lemma parse_quoted_suffix: "parse_quoted_value t = Some (v, r) \<Longrightarrow> strict_suffix r t"
  using parse_quoted_length parse_quoted_drop by (fastforce simp: strict_suffix_def)

lemma suffix_skip_whitespace: "suffix (skip_whitespace t) t"
  by (simp add: skip_whitespace_def suffix_dropWhile)

lemma strict_suffix_length: "strict_suffix r t \<Longrightarrow> length r < length t"
  by (auto simp: strict_suffix_def suffix_def)

text \<open>One attribute: key, value and the text behind it.\<close>

definition parse_attr :: "ustr \<Rightarrow> (ustr \<times> ustr \<times> ustr) option" where
  "parse_attr t =
     (let key = takeWhile (\<lambda>c. \<not> (is_whitespace c \<or> c = 61 \<or> c = 47 \<or> c = 62)) t;
          r = drop (length key) t
      in if r \<noteq> [] \<and> (hd r = 47 \<or> hd r = 62) \<or> key = [] then None
         else case skip_whitespace r of
           c # u \<Rightarrow>
             if c \<noteq> 61 then None
             else (case skip_whitespace u of
                     q # v \<Rightarrow> if q \<noteq> 34 then None else map_option (Pair key) (parse_quoted_value v)
                   | [] \<Rightarrow> None)
         | [] \<Rightarrow> None)"

lemma suffix_tail: "suffix (c # u) t \<Longrightarrow> strict_suffix u t"
  by (auto simp: strict_suffix_def suffix_def)

lemma parse_attr_suffix: "parse_attr t = Some (k, v, r) \<Longrightarrow> strict_suffix r t"
proof -
  assume a: "parse_attr t = Some (k, v, r)"
  let ?r = "drop (length (takeWhile (\<lambda>c. \<not> (is_whitespace c \<or> c = 61 \<or> c = 47 \<or> c = 62)) t)) t"
  obtain c u q w where 1: "skip_whitespace ?r = c # u" "skip_whitespace u = q # w" "parse_quoted_value w = Some (v, r)"
    using a by (auto simp: parse_attr_def Let_def split: if_splits list.splits)
  have "strict_suffix u ?r" "strict_suffix w u"
    using suffix_skip_whitespace [of ?r] suffix_skip_whitespace [of u] 1(1,2) by (auto intro: suffix_tail)
  moreover have "suffix ?r t" by (rule suffix_drop)
  ultimately show ?thesis
    using parse_quoted_suffix [OF 1(3)] by (meson suffix_order.le_less_trans suffix_order.less_trans suffix_order.less_le_trans)
qed

function parse_attrs :: "(ustr \<times> ustr) list \<Rightarrow> ustr \<Rightarrow> ((ustr \<times> ustr) list \<times> bool \<times> ustr) option" where
  "parse_attrs attrs t0 =
     (let t = skip_whitespace t0 in
      case t of
        [] \<Rightarrow> None
      | c # u \<Rightarrow>
          if c = 62 then Some (attrs, False, u)
          else if c = 47 then
            (let v = skip_whitespace u in if starts_with v [62] then Some (attrs, True, tl v) else None)
          else
            (case parse_attr t of
               None \<Rightarrow> None
             | Some (key, v, r) \<Rightarrow>
                 if key \<in> fst ` set attrs then None
                 else if r \<noteq> [] \<and> tag_name_char (hd r) then None
                 else parse_attrs (attrs @ [(key, v)]) r))"
  by pat_completeness auto
termination
proof (relation "measure (\<lambda>(attrs, t). length t)")
  fix attrs t0 t c u p key y v r
  assume "t = skip_whitespace t0" "parse_attr t = Some p" "(key, y) = p" "(v, r) = y"
  then have "strict_suffix r t0"
    using parse_attr_suffix [of t key v r] suffix_skip_whitespace [of t0] by (auto intro: suffix_order.less_le_trans)
  then show "((attrs @ [(key, v)], r), attrs, t0) \<in> measure (\<lambda>(attrs, t). length t)"
    by (simp add: strict_suffix_length)
qed simp

declare parse_attrs.simps [simp del]

lemma parse_attrs_suffix: "parse_attrs attrs t = Some (as, sc, r) \<Longrightarrow> strict_suffix r t"
proof (induction attrs t rule: parse_attrs.induct)
  case (1 attrs t0)
  obtain c u where t: "skip_whitespace t0 = c # u"
    using 1(2) by (auto simp: parse_attrs.simps [of attrs t0] Let_def split: list.splits)
  then have u: "strict_suffix u t0"
    using suffix_skip_whitespace [of t0] by (metis suffix_tail)
  have tl: "strict_suffix w t0" if "suffix (tl (skip_whitespace u)) u" "w = tl (skip_whitespace u)" for w
    using that u by (meson suffix_order.le_less_trans)
  show ?case
  proof (cases "c = 62 \<or> c = 47")
    case True
    moreover have "suffix (tl (skip_whitespace u)) u"
      by (meson suffix_order.trans suffix_skip_whitespace suffix_tl)
    ultimately show ?thesis
      using 1(2) t u tl by (auto simp: parse_attrs.simps [of attrs t0] Let_def split: if_splits)
  next
    case False
    then obtain key v r' where a: "parse_attr (skip_whitespace t0) = Some (key, v, r')" "key \<notin> fst ` set attrs"
        "\<not> (r' \<noteq> [] \<and> tag_name_char (hd r'))" "parse_attrs (attrs @ [(key, v)]) r' = Some (as, sc, r)"
      using 1(2) t by (auto simp: parse_attrs.simps [of attrs t0] Let_def split: if_splits option.splits)
    have "strict_suffix r r'"
      using 1(1) [OF refl t _ _ a(1) refl refl a(2,3,4)] False by blast
    moreover have "strict_suffix r' t0"
      using parse_attr_suffix [OF a(1)] suffix_skip_whitespace [of t0] by (auto intro: suffix_order.less_le_trans)
    ultimately show ?thesis by (rule suffix_order.less_trans)
  qed
qed

definition parse_open_tag :: "dialect \<Rightarrow> ustr \<Rightarrow> (parsed_tag \<times> ustr) option" where
  "parse_open_tag d t =
     (if \<not> starts_with t (marker d) then None
      else
        let u = drop (length (marker d)) t; name = takeWhile tag_name_char u
        in if name = [] then None
           else map_option (\<lambda>(attrs, self_closing, r). (\<lparr>pt_name = name, pt_attrs = attrs, pt_self_closing = self_closing\<rparr>, r))
                  (parse_attrs [] (drop (length name) u)))"

text \<open>The boundary of a tag, its attributes not read; \<open>seen\<close> is the text before, reversed.\<close>

fun scan_tag_end :: "bool \<Rightarrow> bool \<Rightarrow> ustr \<Rightarrow> ustr \<Rightarrow> (bool \<times> ustr) option" where
  "scan_tag_end quoted escaped seen [] = None"
| "scan_tag_end quoted escaped seen (c # t) =
     (if quoted then
        (if escaped then scan_tag_end True False (c # seen) t
         else if c = 92 then scan_tag_end True True (c # seen) t
         else if c = 34 then scan_tag_end False escaped (c # seen) t
         else scan_tag_end True escaped (c # seen) t)
      else if c = 34 then scan_tag_end True escaped (c # seen) t
      else if c = 62 then Some (starts_with (skip_whitespace seen) [47], t)
      else scan_tag_end False escaped (c # seen) t)"

definition scan_open_tag :: "dialect \<Rightarrow> ustr \<Rightarrow> (ustr \<times> bool \<times> ustr) option" where
  "scan_open_tag d t =
     (if \<not> starts_with t (marker d) then None
      else
        let u = drop (length (marker d)) t; name = takeWhile tag_name_char u
        in if name = [] then None
           else map_option (Pair name) (scan_tag_end False False (rev name) (drop (length name) u)))"

section \<open>One call\<close>

record dsml_call =
  dc_name :: ustr
  dc_arguments :: "(ustr \<times> json) list"

definition attr :: "parsed_tag \<Rightarrow> string \<Rightarrow> ustr option" where
  "attr tag key = map_of (pt_attrs tag) (lit key)"

definition nonempty_name :: "parsed_tag \<Rightarrow> ustr option" where
  "nonempty_name tag = (case attr tag ''name'' of Some n \<Rightarrow> if n = [] then None else Some n | None \<Rightarrow> None)"

fun found_before :: "nat option \<Rightarrow> nat \<Rightarrow> bool" where
  "found_before None k = False"
| "found_before (Some i) k = (i < k)"

text \<open>The value of a parameter and the text behind it.\<close>

definition parameter_value :: "(ustr \<Rightarrow> json option) \<Rightarrow> dialect \<Rightarrow> parsed_tag \<Rightarrow> ustr \<Rightarrow> (json \<times> ustr) option" where
  "parameter_value from_str d p r =
     (if is_double_bar d \<and> pt_name p = lit ''invoke'' \<and> pt_self_closing p then
        map_option (\<lambda>v. (JStr v, r)) (attr p ''string'')
      else if pt_name p = lit ''parameter'' \<and> \<not> pt_self_closing p then
        (case attr p ''string'' of
           None \<Rightarrow> None
         | Some kind \<Rightarrow>
             if \<not> one_of kind [''true'', ''false''] then None
             else
               (case str_find (parameter_close d) r of
                  None \<Rightarrow> None
                | Some k \<Rightarrow>
                    if found_before (str_find (marker d) r) k \<or> found_before (str_find (invoke_close d) r) k then None
                    else
                      let raw = take k r; rest = drop (k + length (parameter_close d)) r
                      in if kind = lit ''false'' then map_option (\<lambda>v. (v, rest)) (from_str (trim raw))
                         else Some (JStr raw, rest)))
      else None)"

lemma parameter_value_suffix: "parameter_value from_str d p r = Some (v, rest) \<Longrightarrow> suffix rest r"
  by (auto simp: parameter_value_def Let_def suffix_drop split: if_splits option.splits)

lemma parse_open_tag_suffix: "parse_open_tag d t = Some (tag, r) \<Longrightarrow> strict_suffix r t"
  unfolding parse_open_tag_def Let_def
  by (auto split: if_splits dest!: parse_attrs_suffix)
     (metis suffix_drop suffix_order.less_le_trans suffix_order.trans)

function parse_params ::
  "(ustr \<Rightarrow> json option) \<Rightarrow> dialect \<Rightarrow> (ustr \<times> json) list \<Rightarrow> ustr \<Rightarrow> ((ustr \<times> json) list \<times> ustr) option" where
  "parse_params from_str d args t0 =
     (let t = skip_whitespace t0 in
      if starts_with t (invoke_close d) then Some (args, drop (length (invoke_close d)) t)
      else if \<not> starts_with t (marker d) then None
      else
        (case parse_open_tag d t of
           None \<Rightarrow> None
         | Some (p, r) \<Rightarrow>
             (case nonempty_name p of
                None \<Rightarrow> None
              | Some key \<Rightarrow>
                  if key \<in> fst ` set args then None
                  else
                    (case parameter_value from_str d p r of
                       None \<Rightarrow> None
                     | Some (v, rest) \<Rightarrow> parse_params from_str d (args @ [(key, v)]) rest))))"
  by pat_completeness auto
termination
proof (relation "measure (\<lambda>(f, d, args, t). length t)")
  fix from_str :: "ustr \<Rightarrow> json option" and d args t0 t q p r key w v rest
  assume "t = skip_whitespace t0" "parse_open_tag d t = Some q" "(p, r) = q"
    "parameter_value from_str d p r = Some w" "(v, rest) = w"
  then have "strict_suffix rest t0"
    using parse_open_tag_suffix [of d t p r] parameter_value_suffix [of from_str d p r v rest] suffix_skip_whitespace [of t0]
    by (auto intro: suffix_order.le_less_trans suffix_order.less_le_trans)
  then show "((from_str, d, args @ [(key, v)], rest), from_str, d, args, t0) \<in> measure (\<lambda>(f, d, args, t). length t)"
    by (simp add: strict_suffix_length)
qed simp

declare parse_params.simps [simp del]

definition parse_invoke :: "(ustr \<Rightarrow> json option) \<Rightarrow> dialect \<Rightarrow> ustr \<Rightarrow> (dsml_call \<times> ustr) option" where
  "parse_invoke from_str d t =
     (case parse_open_tag d t of
        None \<Rightarrow> None
      | Some (tag, r) \<Rightarrow>
          if pt_name tag \<noteq> lit ''invoke'' \<or> pt_self_closing tag then None
          else
            (case nonempty_name tag of
               None \<Rightarrow> None
             | Some name \<Rightarrow>
                 map_option (\<lambda>(args, rest). (\<lparr>dc_name = name, dc_arguments = args\<rparr>, rest)) (parse_params from_str d [] r)))"

lemma parse_params_suffix: "parse_params from_str d args t = Some (args', r) \<Longrightarrow> suffix r t"
proof (induction from_str d args t rule: parse_params.induct)
  case (1 from_str d args t0)
  note w = suffix_skip_whitespace [of t0]
  show ?case
  proof (cases "starts_with (skip_whitespace t0) (invoke_close d)")
    case True
    with 1(2) have "r = drop (length (invoke_close d)) (skip_whitespace t0)"
      by (simp add: parse_params.simps [of from_str d args t0])
    with w show ?thesis
      using suffix_drop suffix_order.trans by blast
  next
    case False
    with 1(2) obtain p r1 key v rest where s: "starts_with (skip_whitespace t0) (marker d)"
        "parse_open_tag d (skip_whitespace t0) = Some (p, r1)" "nonempty_name p = Some key" "key \<notin> fst ` set args"
        "parameter_value from_str d p r1 = Some (v, rest)" "parse_params from_str d (args @ [(key, v)]) rest = Some (args', r)"
      by (auto simp: parse_params.simps [of from_str d args t0] Let_def split: if_splits option.splits)
    have "suffix r rest"
      using 1(1) [OF refl False _ s(2) refl s(3,4,5) refl s(6)] s(1) by blast
    with parameter_value_suffix [OF s(5)] parse_open_tag_suffix [OF s(2)] w show ?thesis
      by (meson suffix_order.less_imp_le suffix_order.trans)
  qed
qed

lemma parse_invoke_suffix: "parse_invoke from_str d t = Some (call, r) \<Longrightarrow> strict_suffix r t"
  by (auto simp: parse_invoke_def split: option.splits if_splits dest!: parse_open_tag_suffix parse_params_suffix
      intro: suffix_order.le_less_trans)

section \<open>The end of a malformed call\<close>

definition min_opt :: "nat option \<Rightarrow> nat option \<Rightarrow> nat option" where
  "min_opt a b = (case (a, b) of (None, _) \<Rightarrow> b | (Some i, None) \<Rightarrow> Some i | (Some i, Some j) \<Rightarrow> Some (min i j))"

definition foreign_open :: "dialect \<Rightarrow> ustr \<Rightarrow> nat option" where
  "foreign_open d t = fold (\<lambda>c. min_opt (str_find (marker c) t)) (filter (\<lambda>c. c \<noteq> d) DIALECTS) None"

lemma scan_tag_end_length: "scan_tag_end q e seen t = Some (b, r) \<Longrightarrow> strict_suffix r t"
  by (induction q e seen t rule: scan_tag_end.induct)
     (auto split: if_splits simp: strict_suffix_def suffix_ConsI dest: suffix_length_le)

lemma scan_open_tag_suffix: "scan_open_tag d t = Some (name, b, r) \<Longrightarrow> strict_suffix r t"
  unfolding scan_open_tag_def Let_def
  by (auto split: if_splits dest!: scan_tag_end_length)
     (metis suffix_drop suffix_order.less_le_trans suffix_order.trans)

definition malformed_tag :: "dialect \<Rightarrow> ustr \<Rightarrow> (bool \<times> ustr) option" where
  "malformed_tag d t =
     (case scan_open_tag d t of
        None \<Rightarrow> None
      | Some (name, self_closing, r) \<Rightarrow>
          if name = lit ''invoke'' \<and> \<not> self_closing then Some (True, r)
          else if name = lit ''parameter'' \<and> \<not> self_closing then
            (case str_find (parameter_close d) r of
               None \<Rightarrow> None
             | Some k \<Rightarrow>
                 if found_before (str_find (marker d) r) k then None
                 else Some (False, drop (k + length (parameter_close d)) r))
          else Some (False, r))"

lemma malformed_tag_suffix: "malformed_tag d t = Some (b, r) \<Longrightarrow> strict_suffix r t"
  by (auto simp: malformed_tag_def split: option.splits if_splits dest!: scan_open_tag_suffix
      intro: suffix_order.le_less_trans [OF suffix_drop])

definition closes_first :: "nat option \<Rightarrow> nat option \<Rightarrow> bool" where
  "closes_first next_open next_close =
     (case next_close of None \<Rightarrow> False | Some c \<Rightarrow> (case next_open of None \<Rightarrow> True | Some i \<Rightarrow> c < i))"

definition foreign_first :: "dialect \<Rightarrow> ustr \<Rightarrow> bool" where
  "foreign_first d t =
     (case foreign_open d t of
        None \<Rightarrow> False
      | Some f \<Rightarrow>
          (case min_opt (str_find (marker d) t) (str_find (invoke_close d) t) of None \<Rightarrow> True | Some c \<Rightarrow> f < c))"

text \<open>The text behind the call in which \<open>depth\<close> calls are still open at \<open>t\<close>.\<close>

function balanced_end :: "dialect \<Rightarrow> nat \<Rightarrow> ustr \<Rightarrow> ustr option" where
  "balanced_end d depth t =
     (if t = [] then None
      else if foreign_first d t then None
      else
        let next_open = str_find (marker d) t; next_close = str_find (invoke_close d) t
        in if closes_first next_open next_close then
             (let r = drop (the next_close + length (invoke_close d)) t
              in if depth - 1 = 0 then Some r else balanced_end d (depth - 1) r)
           else
             (case next_open of
                None \<Rightarrow> None
              | Some i \<Rightarrow>
                  (case malformed_tag d (drop i t) of
                     None \<Rightarrow> None
                   | Some (opens, r) \<Rightarrow> balanced_end d (if opens then depth + 1 else depth) r)))"
  by pat_completeness auto
termination
proof (relation "measure (\<lambda>(d, n, t). length t)")
  fix d and n :: nat and t :: ustr and a b i m opens r
  assume "b = str_find (invoke_close d) t" "malformed_tag d (drop i t) = Some m" "(opens, r) = m"
  then have "strict_suffix r t"
    using malformed_tag_suffix [of d "drop i t" opens r] suffix_drop [of i t] by (auto intro: suffix_order.less_le_trans)
  then show "((d, if opens then n + 1 else n, r), d, n, t) \<in> measure (\<lambda>(d, n, t). length t)"
    by (simp add: strict_suffix_length)
qed auto

declare balanced_end.simps [simp del]

definition malformed_invoke_end :: "dialect \<Rightarrow> ustr \<Rightarrow> ustr option" where
  "malformed_invoke_end d t =
     (case scan_open_tag d t of
        None \<Rightarrow> None
      | Some (name, self_closing, r) \<Rightarrow>
          if name \<noteq> lit ''invoke'' \<or> self_closing then Some r else balanced_end d 1 r)"

lemma balanced_end_suffix: "balanced_end d n t = Some r \<Longrightarrow> suffix r t"
proof (induction d n t rule: balanced_end.induct)
  case (1 d depth t)
  let ?o = "str_find (marker d) t" and ?c = "str_find (invoke_close d) t"
  from 1(3) have ne: "t \<noteq> []" "\<not> foreign_first d t"
    by (auto simp: balanced_end.simps [of d depth t] split: if_splits)
  show ?case
  proof (cases "closes_first ?o ?c")
    case True
    then show ?thesis
      using 1(1) [OF ne refl refl True refl] 1(3) ne suffix_drop suffix_order.trans
      by (fastforce simp: balanced_end.simps [of d depth t] Let_def split: if_splits)
  next
    case False
    with 1(3) ne obtain i opens r' where m: "?o = Some i" "malformed_tag d (drop i t) = Some (opens, r')"
        "balanced_end d (if opens then depth + 1 else depth) r' = Some r"
      by (auto simp: balanced_end.simps [of d depth t] Let_def split: option.splits)
    have "suffix r r'"
      by (rule 1(2) [OF ne refl refl False m(1,2) refl m(3)])
    moreover have "suffix r' t"
      using malformed_tag_suffix [OF m(2)] suffix_drop [of i t]
      by (meson suffix_order.less_imp_le suffix_order.trans)
    ultimately show ?thesis by (rule suffix_order.trans)
  qed
qed

lemma malformed_invoke_end_suffix: "malformed_invoke_end d t = Some r \<Longrightarrow> strict_suffix r t"
  by (auto simp: malformed_invoke_end_def split: option.splits if_splits dest!: scan_open_tag_suffix balanced_end_suffix
      intro: suffix_order.le_less_trans)

section \<open>Healing\<close>

text \<open>The first place where a call of the dialect opens.\<close>

function invoke_offset :: "dialect \<Rightarrow> ustr \<Rightarrow> nat option" where
  "invoke_offset d t =
     (case str_find (invoke_open d) t of
        None \<Rightarrow> None
      | Some k \<Rightarrow>
          let u = drop (k + length (invoke_open d)) t
          in if u \<noteq> [] \<and> (is_whitespace (hd u) \<or> hd u = 62) then Some k
             else map_option (\<lambda>j. k + length (invoke_open d) + j) (invoke_offset d u))"
  by pat_completeness auto
termination
  by (relation "measure (\<lambda>(d, t). length t)") (auto dest: str_find_shorter [OF _ tag_ne(1)])

declare invoke_offset.simps [simp del]

definition find_next_invoke :: "ustr \<Rightarrow> (dialect \<times> nat) option" where
  "find_next_invoke t = min_by_offset (List.map_filter (\<lambda>d. map_option (Pair d) (invoke_offset d t)) DIALECTS)"

text \<open>
  The loop: the text copied so far, and the calls. \<open>kept\<close> is the text since the last healed call,
  which the code copies when the next one is found.
\<close>

function heal_loop :: "(ustr \<Rightarrow> json option) \<Rightarrow> ustr \<Rightarrow> ustr \<Rightarrow> ustr \<times> dsml_call list" where
  "heal_loop from_str kept t =
     (case find_next_invoke t of
        None \<Rightarrow> (kept @ t, [])
      | Some (d, k) \<Rightarrow>
          (case parse_invoke from_str d (drop k t) of
             Some (call, rest) \<Rightarrow>
               (case heal_loop from_str [] rest of (cleaned, calls) \<Rightarrow> (kept @ take k t @ cleaned, call # calls))
           | None \<Rightarrow>
               (case malformed_invoke_end d (drop k t) of
                  None \<Rightarrow> (kept @ t, [])
                | Some rest \<Rightarrow> heal_loop from_str (kept @ take (length t - length rest) t) rest)))"
  by pat_completeness auto
termination
proof (relation "measure (\<lambda>(f, u, t). length t)")
  fix from_str :: "ustr \<Rightarrow> json option" and kept t :: ustr and x d k y call rest
  assume "parse_invoke from_str d (drop k t) = Some y" "(call, rest) = y"
  then have "strict_suffix rest t"
    using parse_invoke_suffix [of from_str d "drop k t" call rest] suffix_drop [of k t]
    by (auto intro: suffix_order.less_le_trans)
  then show "((from_str, [], rest), from_str, kept, t) \<in> measure (\<lambda>(f, u, t). length t)"
    by (simp add: strict_suffix_length)
next
  fix from_str :: "ustr \<Rightarrow> json option" and kept t :: ustr and x d k rest
  assume "malformed_invoke_end d (drop k t) = Some rest"
  then have "strict_suffix rest t"
    using malformed_invoke_end_suffix [of d "drop k t" rest] suffix_drop [of k t]
    by (auto intro: suffix_order.less_le_trans)
  then show "((from_str, kept @ take (length t - length rest) t, rest), from_str, kept, t) \<in> measure (\<lambda>(f, u, t). length t)"
    by (simp add: strict_suffix_length)
qed simp

declare heal_loop.simps [simp del]

text \<open>Envelopes that hold nothing but white space.\<close>

function empty_envelope :: "dialect \<Rightarrow> ustr \<Rightarrow> ustr option" where
  "empty_envelope d t =
     (case str_find (calls_open d) t of
        None \<Rightarrow> None
      | Some i \<Rightarrow>
          let inner = drop (i + length (calls_open d)) t
          in (case str_find (calls_close d) inner of
                None \<Rightarrow> None
              | Some c \<Rightarrow>
                  let rest = drop (c + length (calls_close d)) inner
                  in if trim (take c inner) = [] then Some (take i t @ rest)
                     else map_option (\<lambda>r. take (length t - length rest) t @ r) (empty_envelope d rest)))"
  by pat_completeness auto
termination
  by (relation "measure (\<lambda>(d, t). length t)") (auto dest!: str_find_shorter [OF _ tag_ne(3)])

declare empty_envelope.simps [simp del]

fun first_some :: "('a \<Rightarrow> 'b option) \<Rightarrow> 'a list \<Rightarrow> 'b option" where
  "first_some f [] = None"
| "first_some f (x # xs) = (case f x of Some y \<Rightarrow> Some y | None \<Rightarrow> first_some f xs)"

lemma first_some_Some: "first_some f xs = Some y \<Longrightarrow> \<exists>x \<in> set xs. f x = Some y"
  by (induction xs) (auto split: option.splits)

lemma empty_envelope_shorter: "empty_envelope d t = Some u \<Longrightarrow> length u < length t"
proof (induction d t arbitrary: u rule: empty_envelope.induct)
  case (1 d t)
  then obtain i c where i: "str_find (calls_open d) t = Some i"
      and c: "str_find (calls_close d) (drop (i + length (calls_open d)) t) = Some c"
    by (auto simp: empty_envelope.simps [of d t] Let_def split: option.splits)
  let ?rest = "drop (c + length (calls_close d)) (drop (i + length (calls_open d)) t)"
  have "i + length (calls_open d) \<le> length t"
    using str_find_Some [OF i] by simp
  moreover obtain n where n: "length (calls_open d) = Suc n"
    using tag_ne(3) [of d] by (cases "calls_open d") auto
  ultimately have r: "i + length ?rest < length t" by simp
  show ?case
  proof (cases "trim (take c (drop (i + length (calls_open d)) t)) = []")
    case True
    with 1(2) i c have "u = take i t @ ?rest"
      by (simp add: empty_envelope.simps [of d t])
    with r show ?thesis by simp
  next
    case False
    with 1(2) i c obtain v where v: "empty_envelope d ?rest = Some v" "u = take (length t - length ?rest) t @ v"
      by (auto simp: empty_envelope.simps [of d t] Let_def)
    from 1(1) [OF i refl c refl False v(1)] r v(2) show ?thesis
      by simp
  qed
qed

function strip_empty_envelopes :: "ustr \<Rightarrow> ustr" where
  "strip_empty_envelopes t =
     (case first_some (\<lambda>d. empty_envelope d t) DIALECTS of Some u \<Rightarrow> strip_empty_envelopes u | None \<Rightarrow> t)"
  by pat_completeness auto
termination
  by (relation "measure length") (auto dest!: first_some_Some intro: empty_envelope_shorter)

declare strip_empty_envelopes.simps [simp del]

definition parse_leaked_tool_calls :: "(ustr \<Rightarrow> json option) \<Rightarrow> ustr \<Rightarrow> (ustr \<times> dsml_call list) option" where
  "parse_leaked_tool_calls from_str t =
     (case heal_loop from_str [] t of
        (cleaned, calls) \<Rightarrow> if calls = [] then None else Some (strip_empty_envelopes cleaned, calls))"

section \<open>What is left of the markup\<close>

function remove_blocks :: "dialect \<Rightarrow> ustr \<Rightarrow> ustr" where
  "remove_blocks d t =
     (case str_find (invoke_open d) t of
        None \<Rightarrow> t
      | Some i \<Rightarrow>
          (case str_find (invoke_close d) (drop i t) of
             None \<Rightarrow> t
           | Some c \<Rightarrow> remove_blocks d (take i t @ drop (i + c + length (invoke_close d)) t)))"
  by pat_completeness auto
termination
proof (relation "measure (\<lambda>(d, t). length t)")
  fix d t i c
  assume "str_find (invoke_open d) t = Some i" "str_find (invoke_close d) (drop i t) = Some c"
  then have "i + length (invoke_open d) \<le> length t" "c + length (invoke_close d) \<le> length t - i"
    by (auto dest: str_find_Some)
  moreover obtain n where "length (invoke_close d) = Suc n"
    using tag_ne(2) [of d] by (cases "invoke_close d") auto
  moreover obtain m where "length (invoke_open d) = Suc m"
    using tag_ne(1) [of d] by (cases "invoke_open d") auto
  ultimately show "((d, take i t @ drop (i + c + length (invoke_close d)) t), d, t) \<in> measure (\<lambda>(d, t). length t)"
    by simp
qed simp

declare remove_blocks.simps [simp del]

function remove_dangling :: "dialect \<Rightarrow> ustr \<Rightarrow> ustr" where
  "remove_dangling d t =
     (case str_find (invoke_open d) t of
        None \<Rightarrow> t
      | Some i \<Rightarrow>
          (case str_find [62] (drop i t) of
             None \<Rightarrow> take i t
           | Some g \<Rightarrow> remove_dangling d (take i t @ drop (i + g + 1) t)))"
  by pat_completeness auto
termination
proof (relation "measure (\<lambda>(d, t). length t)")
  fix d t i g
  assume "str_find (invoke_open d) t = Some i"
  then have "i + length (invoke_open d) \<le> length t"
    by (auto dest: str_find_Some)
  moreover obtain m where "length (invoke_open d) = Suc m"
    using tag_ne(1) [of d] by (cases "invoke_open d") auto
  ultimately show "((d, take i t @ drop (i + g + 1) t), d, t) \<in> measure (\<lambda>(d, t). length t)"
    by simp
qed simp

declare remove_dangling.simps [simp del]

definition strip_dialect :: "dialect \<Rightarrow> ustr \<Rightarrow> ustr" where
  "strip_dialect d t =
     str_replace (marker d) []
       (remove_dangling d
         (str_replace (invoke_close d) []
           (str_replace (calls_close d) []
             (str_replace (calls_open d) [] (remove_blocks d t)))))"

definition bar_token :: "ustr \<Rightarrow> ustr" where
  "bar_token w = lit ''<'' @ [65372] @ w @ [65372] @ lit ''>''"

definition SENTENCE_TOKENS :: "ustr list" where
  "SENTENCE_TOKENS =
     [bar_token (lit ''begin'' @ [9601] @ lit ''of'' @ [9601] @ lit ''sentence''),
      bar_token (lit ''end'' @ [9601] @ lit ''of'' @ [9601] @ lit ''sentence''),
      bar_token (lit ''User''), bar_token (lit ''Assistant'')]"

definition RESIDUE_TOKENS :: "ustr list" where
  "RESIDUE_TOKENS =
     SENTENCE_TOKENS @
     [bar_token (lit ''think''), lit ''<|begin_of_sentence|>'', lit ''<|end_of_sentence|>'', lit ''<|User|>'', lit ''<|Assistant|>'']"

definition SPECIAL_TOKENS :: "ustr list" where
  "SPECIAL_TOKENS = SENTENCE_TOKENS @ [lit ''<|begin_of_sentence|>'', lit ''<|end_of_sentence|>'']"

definition strip_dsml_residue :: "ustr \<Rightarrow> ustr" where
  "strip_dsml_residue t = fold (\<lambda>w. str_replace w []) RESIDUE_TOKENS (fold strip_dialect DIALECTS t)"

definition sanitize_special_tokens :: "ustr \<Rightarrow> ustr" where
  "sanitize_special_tokens t = fold (\<lambda>w. str_replace w []) SPECIAL_TOKENS t"

definition sanitize_assistant_text :: "(ustr \<Rightarrow> json option) \<Rightarrow> ustr \<Rightarrow> ustr \<times> dsml_call list" where
  "sanitize_assistant_text from_str t =
     (if \<not> contains_dsml t then (sanitize_special_tokens t, [])
      else
        case parse_leaked_tool_calls from_str t of
          Some (cleaned, calls) \<Rightarrow> (sanitize_special_tokens (strip_dsml_residue cleaned), calls)
        | None \<Rightarrow> (sanitize_special_tokens (strip_dsml_residue t), []))"

section \<open>The stream filter\<close>

record stream_filter =
  sf_pending :: ustr
  sf_in_dsml :: bool
  sf_enabled :: bool

definition filter_new :: "bool \<Rightarrow> stream_filter" where
  "filter_new e = \<lparr>sf_pending = [], sf_in_dsml = False, sf_enabled = e\<rparr>"

definition longest_marker_prefix_suffix :: "ustr \<Rightarrow> nat" where
  "longest_marker_prefix_suffix t =
     fold (\<lambda>d best. fold (\<lambda>i best. if ends_with t (take i (marker d)) then max best i else best)
       [1..<length (marker d)] best) DIALECTS 0"

definition filter_push :: "ustr \<Rightarrow> stream_filter \<Rightarrow> ustr \<times> stream_filter" where
  "filter_push delta f =
     (if \<not> sf_enabled f then (delta, f)
      else
        let p = sf_pending f @ delta
        in if sf_in_dsml f then ([], f\<lparr>sf_pending := p\<rparr>)
           else case detect_dialect p of
                  Some (d, start) \<Rightarrow> (take start p, f\<lparr>sf_in_dsml := True, sf_pending := drop start p\<rparr>)
                | None \<Rightarrow>
                    let emit = length p - longest_marker_prefix_suffix p
                    in (take emit p, f\<lparr>sf_pending := drop emit p\<rparr>))"

definition filter_finish :: "(ustr \<Rightarrow> json option) \<Rightarrow> stream_filter \<Rightarrow> ustr \<times> dsml_call list" where
  "filter_finish from_str f =
     (if \<not> sf_in_dsml f then (sf_pending f, [])
      else
        case parse_leaked_tool_calls from_str (sf_pending f) of
          Some (cleaned, calls) \<Rightarrow> (strip_dsml_residue cleaned, calls)
        | None \<Rightarrow> (strip_dsml_residue (sf_pending f), []))"

section \<open>How a text is cut into deltas does not matter\<close>

lemma marker_head: "\<exists>w. marker d = 60 # w \<and> 60 \<notin> set w"
  by (cases d) (simp_all add: marker_def dsml_word_def lit_def)

text \<open>Offsets of the markers of all dialects.\<close>

definition marked_at :: "ustr \<Rightarrow> nat \<Rightarrow> bool" where
  "marked_at s i \<longleftrightarrow> (\<exists>d. occurs_at (marker d) s i)"

definition first_marker :: "ustr \<Rightarrow> nat option" where
  "first_marker s = map_option snd (detect_dialect s)"

lemma set_DIALECTS [simp]: "d \<in> set DIALECTS"
  by (cases d) (simp_all add: DIALECTS_def)

lemma min_by_offset_None [simp]: "min_by_offset xs = None \<longleftrightarrow> xs = []"
  by (cases xs) (auto split: option.splits)

lemma min_by_offset_Some: "min_by_offset xs = Some x \<Longrightarrow> x \<in> set xs \<and> (\<forall>y \<in> set xs. snd x \<le> snd y)"
  by (induction xs arbitrary: x) (fastforce split: option.splits if_splits)+

lemma first_marker_None: "first_marker s = None \<longleftrightarrow> (\<forall>i. \<not> marked_at s i)"
proof -
  have "detect_dialect s = None \<longleftrightarrow> (\<forall>d. str_find (marker d) s = None)"
    by (auto simp: detect_dialect_def map_filter_simps DIALECTS_def split: option.splits) (metis dialect.exhaust)
  then show ?thesis
    by (auto simp: first_marker_def marked_at_def str_find_None_occurs)
qed

lemma occurs_find: "occurs_at p s j \<Longrightarrow> \<exists>i \<le> j. str_find p s = Some i"
proof (cases "str_find p s")
  case (Some i)
  then have "\<forall>k < i. \<not> occurs_at p s k" by (simp add: str_find_least)
  then show "\<exists>i \<le> j. str_find p s = Some i" if "occurs_at p s j"
    using that Some by (metis not_less)
qed (simp add: str_find_None_occurs)

lemma detect_least:
  assumes "detect_dialect s = Some (d, i)"
  shows "marked_at s i" "marked_at s j \<Longrightarrow> i \<le> j"
proof -
  have d: "str_find (marker d) s = Some i" "str_find (marker d') s = Some k \<Longrightarrow> i \<le> k" for d' k
    using min_by_offset_Some [OF assms [unfolded detect_dialect_def]] by (auto simp: set_map_filter)
  from d(1) show "marked_at s i"
    by (auto simp: marked_at_def str_find_least)
  show "i \<le> j" if "marked_at s j"
    using that d(2) occurs_find unfolding marked_at_def by (meson order_trans)
qed

lemma first_marker_least:
  "first_marker s = Some i \<longleftrightarrow> marked_at s i \<and> (\<forall>j. marked_at s j \<longrightarrow> i \<le> j)"
proof (cases "detect_dialect s")
  case None
  then show ?thesis
    using first_marker_None [of s] by (simp add: first_marker_def)
next
  case (Some x)
  then obtain d k where "detect_dialect s = Some (d, k)" by (cases x) auto
  with detect_least [OF this] show ?thesis
    by (auto simp: first_marker_def intro: antisym)
qed

section \<open>What is held back\<close>

definition partial_marker :: "ustr \<Rightarrow> bool" where
  "partial_marker y \<longleftrightarrow> (\<exists>d. strict_prefix y (marker d))"

lemma fold_max:
  "h = fold (\<lambda>i best. if P i then max best i else best) xs b \<Longrightarrow>
     b \<le> h \<and> (\<forall>i \<in> set xs. P i \<longrightarrow> i \<le> h) \<and> (h = b \<or> h \<in> set xs \<and> P h)" for h b :: nat
proof (induction xs arbitrary: b)
  case (Cons x xs)
  from Cons.IH [of "if P x then max b x else b"] Cons.prems show ?case
    by (auto split: if_splits simp: max_def)
qed simp

lemma fold_fold_max:
  "h = fold (\<lambda>d best. fold (\<lambda>i best. if P d i then max best i else best) (xs d) best) ds b \<Longrightarrow>
     b \<le> h \<and> (\<forall>d \<in> set ds. \<forall>i \<in> set (xs d). P d i \<longrightarrow> i \<le> h) \<and> (h = b \<or> (\<exists>d \<in> set ds. h \<in> set (xs d) \<and> P d h))" for h b :: nat
proof (induction ds arbitrary: b)
  case (Cons d ds)
  define c where "c = fold (\<lambda>i best. if P d i then max best i else best) (xs d) b"
  have ih: "c \<le> h" "\<forall>d \<in> set ds. \<forall>i \<in> set (xs d). P d i \<longrightarrow> i \<le> h" "h = c \<or> (\<exists>d \<in> set ds. h \<in> set (xs d) \<and> P d h)"
    using Cons.IH [of c] Cons.prems by (simp_all add: c_def)
  have c: "b \<le> c" "\<forall>i \<in> set (xs d). P d i \<longrightarrow> i \<le> c" "c = b \<or> c \<in> set (xs d) \<and> P d c"
    using fold_max [OF c_def] by simp_all
  from c(2) ih(1) have "\<forall>i \<in> set (xs d). P d i \<longrightarrow> i \<le> h"
    by (auto intro: order_trans)
  with c ih show ?case by auto
qed simp

lemma ends_with_suffix: "ends_with t y \<longleftrightarrow> suffix y t"
  by (auto simp: ends_with_def starts_with_iff suffix_to_prefix prefix_def)

lemma hold_longest: "suffix y t \<Longrightarrow> partial_marker y \<Longrightarrow> length y \<le> longest_marker_prefix_suffix t"
proof -
  assume y: "suffix y t" "partial_marker y"
  then obtain d where "strict_prefix y (marker d)"
    by (auto simp: partial_marker_def)
  then have d: "y = take (length y) (marker d)" "length y < length (marker d)"
    by (auto simp: strict_prefix_def prefix_def)
  with y show ?thesis
    using fold_fold_max [OF longest_marker_prefix_suffix_def [of t]]
    by (cases "length y = 0") (auto simp: ends_with_suffix Suc_le_eq)
qed

lemma hold_exists: "\<exists>y. suffix y t \<and> partial_marker y \<and> length y = longest_marker_prefix_suffix t"
proof -
  let ?h = "longest_marker_prefix_suffix t"
  from fold_fold_max [OF longest_marker_prefix_suffix_def [of t]]
  consider "?h = 0" | d where "?h < length (marker d)" "suffix (take ?h (marker d)) t"
    by (auto simp: ends_with_suffix)
  then show ?thesis
  proof cases
    case 1
    have "partial_marker []"
      unfolding partial_marker_def strict_prefix_def by (metis marker_ne Nil_prefix)
    with 1 show ?thesis
      by (intro exI [of _ "[]"]) simp
  next
    case 2
    then have "strict_prefix (take ?h (marker d)) (marker d)"
      by (auto simp: strict_prefix_def take_is_prefix)
    with 2 show ?thesis
      by (intro exI [of _ "take ?h (marker d)"]) (auto simp: partial_marker_def)
  qed
qed

text \<open>The text held back after \<open>t\<close>: its longest end that may grow into a marker.\<close>

definition held :: "ustr \<Rightarrow> ustr" where
  "held t = drop (length t - longest_marker_prefix_suffix t) t"

lemma held_spec: "suffix (held t) t" "partial_marker (held t)" "length (held t) = longest_marker_prefix_suffix t"
proof -
  obtain y where y: "suffix y t" "partial_marker y" "length y = longest_marker_prefix_suffix t"
    using hold_exists by blast
  then have "held t = y"
    by (auto simp: held_def suffix_def)
  with y show "suffix (held t) t" "partial_marker (held t)" "length (held t) = longest_marker_prefix_suffix t"
    by simp_all
qed

lemma held_drop: "drop (length t - length (held t)) t = held t"
  by (simp add: held_spec(3)) (simp add: held_def)

lemma take_held: "take (length t - length (held t)) t @ held t = t"
  using append_take_drop_id [of "length t - length (held t)" t] by (simp only: held_drop)

lemma held_longest: "suffix y t \<Longrightarrow> partial_marker y \<Longrightarrow> suffix y (held t)"
  using hold_longest [of y t] held_spec [of t] suffix_length_suffix by metis

lemma partial_prefix: "partial_marker (y @ z) \<Longrightarrow> partial_marker y"
  by (auto simp: partial_marker_def strict_prefix_def prefix_def)

lemma held_append: "held (held s @ t) = held (s @ t)"
proof (rule suffix_order.antisym)
  have "suffix (held s @ t) (s @ t)"
    using held_spec(1) [of s] by (auto simp: suffix_def)
  then show "suffix (held (held s @ t)) (held (s @ t))"
    using held_spec [of "held s @ t"] by (meson held_longest suffix_order.trans)
  have "suffix (held (s @ t)) (s @ t)" "partial_marker (held (s @ t))"
    by (rule held_spec)+
  then have "suffix (held (s @ t)) (held s @ t)"
    unfolding suffix_append
    using held_longest partial_prefix by (metis suffix_append)
  then show "suffix (held (s @ t)) (held (held s @ t))"
    using held_spec(2) by (rule held_longest)
qed

lemma occurs_at_shift: "n \<le> length s \<Longrightarrow> occurs_at p (drop n s) i \<longleftrightarrow> occurs_at p s (n + i)"
  by (auto simp: occurs_at_def add.commute)

lemma marked_shift: "n \<le> length s \<Longrightarrow> marked_at (drop n s) i \<longleftrightarrow> marked_at s (n + i)"
  by (simp add: marked_at_def occurs_at_shift)

text \<open>A text without markers makes none with what follows, but for the end that is held back.\<close>

lemma occurs_extend: "occurs_at p s i \<Longrightarrow> occurs_at p (s @ t) i"
  by (auto simp: occurs_at_def starts_with_iff)

lemma occurs_restrict: "occurs_at p (s @ t) i \<Longrightarrow> i + length p \<le> length s \<Longrightarrow> occurs_at p s i"
  by (auto simp: occurs_at_def starts_with_def take_drop drop_append take_append)

lemma marked_after_held:
  assumes "first_marker s = None" "marked_at (s @ t) i"
  shows "length s - length (held s) \<le> i"
proof (rule ccontr)
  assume c: "\<not> ?thesis"
  from assms(2) obtain d where d: "occurs_at (marker d) (s @ t) i"
    by (auto simp: marked_at_def)
  have "\<not> occurs_at (marker d) s i"
    using assms(1) by (simp add: first_marker_None marked_at_def)
  with d have l: "length s < i + length (marker d)"
    using occurs_restrict by (metis not_less)
  obtain r where r: "drop i s @ t = marker d @ r"
    using d c by (auto simp: occurs_at_def starts_with_iff)
  have i: "i < length s" using c by simp
  have "drop i s = take (length (drop i s)) (marker d @ r)"
    using r by (metis append_eq_conv_conj)
  then have "drop i s = take (length (drop i s)) (marker d)"
    using l i by simp
  then have "prefix (drop i s) (marker d)" "drop i s \<noteq> marker d"
    using l i by (metis take_is_prefix, auto dest: arg_cong [of _ _ length])
  then have "strict_prefix (drop i s) (marker d)"
    by (simp add: strict_prefix_def)
  then have "suffix (drop i s) (held s)"
    by (intro held_longest suffix_drop) (auto simp: partial_marker_def)
  then have "length (drop i s) \<le> length (held s)"
    by (rule suffix_length_le)
  with c i show False by simp
qed

definition emitted :: "ustr \<Rightarrow> ustr" where
  "emitted s = (case first_marker s of Some i \<Rightarrow> take i s | None \<Rightarrow> take (length s - length (held s)) s)"

definition filter_after :: "ustr \<Rightarrow> stream_filter" where
  "filter_after s = \<lparr>sf_pending = drop (length (emitted s)) s, sf_in_dsml = (first_marker s \<noteq> None), sf_enabled = True\<rparr>"

lemma filter_after_clean:
  "first_marker s = None \<Longrightarrow> filter_after s = \<lparr>sf_pending = held s, sf_in_dsml = False, sf_enabled = True\<rparr>"
  using held_drop [of s] by (simp add: filter_after_def emitted_def)

lemma emitted_prefix: "s = emitted s @ sf_pending (filter_after s)"
proof -
  have "\<exists>n. emitted s = take n s"
    by (auto simp: emitted_def split: option.splits)
  then show ?thesis
    by (auto simp: filter_after_def min_def)
qed

lemma first_marker_extend:
  assumes "first_marker s = Some i"
  shows "first_marker (s @ t) = Some i"
proof -
  obtain d where d: "occurs_at (marker d) s i" and least: "\<And>j. marked_at s j \<Longrightarrow> i \<le> j"
    using assms by (auto simp: first_marker_least marked_at_def)
  have "i \<le> j" if "marked_at (s @ t) j" for j
  proof (rule ccontr)
    assume ji: "\<not> i \<le> j"
    from that obtain e where e: "occurs_at (marker e) (s @ t) j"
      by (auto simp: marked_at_def)
    have "length s < j + length (marker e)"
      using occurs_restrict [OF e] least [of j] ji by (auto simp: marked_at_def not_le [symmetric])
    moreover have il: "i < length s"
      using d marker_ne [of d] by (cases "i = length s") (auto simp: occurs_at_def starts_with_def)
    ultimately have k: "i - j < length (marker e)" "0 < i - j"
      using ji by auto
    obtain w where w: "marker e = 60 # w" "60 \<notin> set w"
      using marker_head by blast
    obtain u where u: "drop j (s @ t) = marker e @ u"
      using e by (auto simp: occurs_at_def starts_with_iff)
    have "drop j (s @ t) ! (i - j) = (s @ t) ! i"
      using il ji by (subst nth_drop) auto
    then have "marker e ! (i - j) = (s @ t) ! i"
      unfolding u using k by (simp add: nth_append)
    moreover obtain v where "drop i s = 60 # v"
      using d marker_head [of d] by (auto simp: occurs_at_def starts_with_iff)
    then have "(s @ t) ! i = 60"
      using il by (metis Cons_nth_drop_Suc list.inject nth_append)
    moreover have "marker e ! (i - j) \<in> set w"
      using k w(1) by (cases "i - j") auto
    ultimately show False using w(2) by simp
  qed
  with d show ?thesis
    by (auto simp: first_marker_least marked_at_def intro: occurs_extend)
qed

lemma first_marker_rest:
  assumes "first_marker s = None"
  shows "first_marker (held s @ t) = map_option (\<lambda>i. i - (length s - length (held s))) (first_marker (s @ t))"
proof -
  let ?n = "length s - length (held s)"
  have h: "held s @ t = drop ?n (s @ t)"
    by (simp add: held_drop)
  have m: "marked_at (held s @ t) i \<longleftrightarrow> marked_at (s @ t) (?n + i)" for i
    unfolding h by (rule marked_shift) simp
  show ?thesis
  proof (cases "first_marker (s @ t)")
    case None
    then have "first_marker (held s @ t) = None"
      by (simp add: first_marker_None m)
    with None show ?thesis by simp
  next
    case (Some i)
    then have i: "marked_at (s @ t) i" "\<And>j. marked_at (s @ t) j \<Longrightarrow> i \<le> j"
      by (simp_all add: first_marker_least)
    from marked_after_held [OF assms i(1)] have "?n \<le> i" .
    with i have "first_marker (held s @ t) = Some (i - ?n)"
      unfolding first_marker_least m by (auto simp: le_diff_conv add.commute)
    with Some show ?thesis by simp
  qed
qed

lemma filter_push_after:
  "filter_push t (filter_after s) = (e, f) \<Longrightarrow> emitted s @ e = emitted (s @ t) \<and> f = filter_after (s @ t)"
proof (cases "first_marker s")
  case (Some i)
  moreover assume "filter_push t (filter_after s) = (e, f)"
  moreover have "i \<le> length s"
    using Some by (auto simp: first_marker_least marked_at_def occurs_at_def)
  ultimately show ?thesis
    using first_marker_extend [OF Some, of t]
    by (auto simp: filter_push_def filter_after_def emitted_def Let_def)
next
  case None
  assume p: "filter_push t (filter_after s) = (e, f)"
  let ?n = "length s - length (held s)"
  have h: "drop (length (emitted s)) s = held s" "emitted s = take ?n s"
    using None held_drop [of s] by (simp_all add: emitted_def)
  have hn: "held s @ t = drop ?n (s @ t)"
    using h by (simp add: emitted_def None)
  have nl: "?n \<le> length s" by simp
  note r = first_marker_rest [OF None, of t]
  show ?thesis
  proof (cases "first_marker (s @ t)")
    case (Some i)
    then have i: "?n \<le> i" "i \<le> length (s @ t)"
      using marked_after_held [OF None] by (auto simp: first_marker_least marked_at_def occurs_at_def)
    from r Some obtain d where d: "detect_dialect (held s @ t) = Some (d, i - ?n)"
      by (auto simp: first_marker_def)
    with p None h have "e = take (i - ?n) (held s @ t)" "f = \<lparr>sf_pending = drop (i - ?n) (held s @ t), sf_in_dsml = True, sf_enabled = True\<rparr>"
      by (auto simp: filter_push_def filter_after_def Let_def)
    moreover have "take ?n s @ take (i - ?n) (drop ?n (s @ t)) = take i (s @ t)"
      using take_add [of ?n "i - ?n" "s @ t"] i(1) nl by (simp del: drop_append)
    ultimately show ?thesis
      using Some h i by (simp add: hn emitted_def filter_after_def min_def)
  next
    case None': None
    with r have "detect_dialect (held s @ t) = None"
      by (simp add: first_marker_def)
    moreover have "held (held s @ t) = held (s @ t)"
      by (rule held_append)
    ultimately have e: "e = take (length (held s @ t) - length (held (s @ t))) (held s @ t)"
        and f: "f = \<lparr>sf_pending = held (s @ t), sf_in_dsml = False, sf_enabled = True\<rparr>"
      using p None h held_spec(3) [of "held s @ t"] held_drop [of "held s @ t"]
      by (auto simp: filter_push_def filter_after_def Let_def)
    have "emitted s @ e @ held (s @ t) = take ?n s @ held s @ t"
      using take_held [of "held s @ t"] by (simp add: e h(2) held_append)
    also have "\<dots> = s @ t"
      using take_held [of s] by (simp only: append_assoc [symmetric])
    also have "\<dots> = emitted (s @ t) @ held (s @ t)"
      using take_held [of "s @ t"] by (simp add: emitted_def None')
    finally have "emitted s @ e = emitted (s @ t)" by simp
    moreover have "f = filter_after (s @ t)"
      by (simp add: f filter_after_clean [OF None'])
    ultimately show ?thesis by simp
  qed
qed

fun filter_feed :: "ustr list \<Rightarrow> stream_filter \<Rightarrow> ustr \<times> stream_filter" where
  "filter_feed [] f = ([], f)"
| "filter_feed (t # ts) f =
     (case filter_push t f of (e, g) \<Rightarrow> (case filter_feed ts g of (es, h) \<Rightarrow> (e @ es, h)))"

lemma filter_feed_after:
  "filter_feed ts (filter_after s) = (e, f) \<Longrightarrow> emitted s @ e = emitted (s @ concat ts) \<and> f = filter_after (s @ concat ts)"
proof (induction ts arbitrary: s e)
  case (Cons t ts)
  then obtain e1 g e2 where "filter_push t (filter_after s) = (e1, g)" "filter_feed ts g = (e2, f)" "e = e1 @ e2"
    by (auto split: prod.splits)
  moreover from this(1) have "emitted s @ e1 = emitted (s @ t)" "g = filter_after (s @ t)"
    using filter_push_after by blast+
  moreover from this this(2) Cons.IH [of "s @ t" e2] have "emitted (s @ t) @ e2 = emitted ((s @ t) @ concat ts) \<and> f = filter_after ((s @ t) @ concat ts)"
    using \<open>filter_feed ts g = (e2, f)\<close> by simp
  ultimately show ?case
    by (metis append_assoc concat.simps(2))
qed simp

lemma no_marker_Nil: "first_marker [] = None"
  by (auto simp: first_marker_None marked_at_def occurs_at_def starts_with_iff)

lemma filter_new_after: "filter_new True = filter_after []"
  by (simp add: filter_new_def filter_after_def no_marker_Nil emitted_def)

lemma filter_feed_disabled: "filter_feed ts (filter_new False) = (concat ts, filter_new False)"
  by (induction ts) (auto simp: filter_push_def filter_new_def)

text \<open>
  C30 (equivalence). The stream filter does not depend on how the provider cuts the text into deltas:
  any sequence of deltas shows the same text, and leaves the same buffer for the healing at the end,
  as the whole text in one piece; what is shown before the end is the text before the first marker,
  so no delta boundary lets a part of a marker through or loses a character.
\<close>

theorem stream_filter_chunking:
  "filter_feed ts (filter_new e) = filter_feed [concat ts] (filter_new e) \<and>
   (case filter_feed ts (filter_new e) of (shown, f) \<Rightarrow> shown @ sf_pending f = concat ts)"
proof (cases e)
  case True
  have *: "filter_feed us (filter_new True) = (emitted (concat us), filter_after (concat us))" for us
    using filter_feed_after [of us "[]"] by (cases "filter_feed us (filter_new True)") (simp add: filter_new_after emitted_def no_marker_Nil)
  show ?thesis
    using emitted_prefix [of "concat ts"] by (simp only: True * prod.case concat.simps append_Nil2)
next
  case False
  then show ?thesis
    by (simp only: filter_feed_disabled) (simp add: filter_new_def)
qed

section \<open>Nothing but parsed calls is taken out of a text\<close>

text \<open>\<open>span\<close> is the text of one call.\<close>

definition call_span :: "(ustr \<Rightarrow> json option) \<Rightarrow> ustr \<Rightarrow> dsml_call \<Rightarrow> bool" where
  "call_span from_str span call \<longleftrightarrow> (\<exists>d r. parse_invoke from_str d (span @ r) = Some (call, r))"

lemma suffix_split: "suffix r t \<Longrightarrow> take (length t - length r) t @ r = t"
  by (auto simp: suffix_def)

lemma heal_loop_parts:
  "heal_loop from_str kept t = (cleaned, calls) \<Longrightarrow>
   \<exists>parts rest. kept @ t = concat (map (\<lambda>(gap, span, call). gap @ span) parts) @ rest \<and>
     cleaned = concat (map fst parts) @ rest \<and> calls = map (snd \<circ> snd) parts \<and>
     (\<forall>(gap, span, call) \<in> set parts. call_span from_str span call)"
proof (induction from_str kept t arbitrary: cleaned calls rule: heal_loop.induct)
  case (1 from_str kept t)
  show ?case
  proof (cases "find_next_invoke t")
    case None
    with 1(3) show ?thesis
      by (intro exI [of _ "[]"] exI [of _ "kept @ t"]) (simp add: heal_loop.simps [of from_str kept t])
  next
    case (Some x)
    then obtain d k where f: "find_next_invoke t = Some (d, k)" by (cases x) auto
    show ?thesis
    proof (cases "parse_invoke from_str d (drop k t)")
      case (Some y)
      then obtain call rest where p: "parse_invoke from_str d (drop k t) = Some (call, rest)" by (cases y) auto
      obtain c' calls' where h: "heal_loop from_str [] rest = (c', calls')"
        by (cases "heal_loop from_str [] rest")
      with 1(3) f p have r: "cleaned = kept @ take k t @ c'" "calls = call # calls'"
        by (simp_all add: heal_loop.simps [of from_str kept t])
      from 1(2) [OF f refl p refl h] obtain parts tail where ih:
        "rest = concat (map (\<lambda>(gap, span, call). gap @ span) parts) @ tail" "c' = concat (map fst parts) @ tail"
        "calls' = map (snd \<circ> snd) parts" "\<forall>(gap, span, call) \<in> set parts. call_span from_str span call"
        by auto
      let ?span = "take (length (drop k t) - length rest) (drop k t)"
      have s: "?span @ rest = drop k t"
        using parse_invoke_suffix [OF p] by (intro suffix_split) (rule suffix_order.less_imp_le)
      then have "call_span from_str ?span call"
        using p unfolding call_span_def by metis
      moreover have "kept @ t = (kept @ take k t) @ ?span @ rest"
        using s by (metis append_assoc append_take_drop_id)
      ultimately show ?thesis
        using ih r by (intro exI [of _ "(kept @ take k t, ?span, call) # parts"] exI [of _ tail]) simp
    next
      case None
      show ?thesis
      proof (cases "malformed_invoke_end d (drop k t)")
        case None': None
        with 1(3) f None show ?thesis
          by (intro exI [of _ "[]"] exI [of _ "kept @ t"]) (simp add: heal_loop.simps [of from_str kept t])
      next
        case (Some rest)
        have "suffix rest t"
          using malformed_invoke_end_suffix [OF Some] suffix_drop [of k t]
          by (meson suffix_order.less_imp_le suffix_order.trans)
        then have "(kept @ take (length t - length rest) t) @ rest = kept @ t"
          by (simp add: suffix_split)
        moreover have "heal_loop from_str (kept @ take (length t - length rest) t) rest = (cleaned, calls)"
          using 1(3) f None Some by (simp add: heal_loop.simps [of from_str kept t])
        ultimately show ?thesis
          using 1(1) [OF f refl None Some] by metis
      qed
    qed
  qed
qed

section \<open>What the envelope pass removes\<close>

text \<open>
  The contract of the envelope pass, without the search: one envelope after another goes, each with
  nothing but white space between its tags, and a blank envelope stays only behind an opening tag of
  its dialect that nothing before it closes.
\<close>

inductive blanks_removed :: "ustr \<Rightarrow> ustr \<Rightarrow> bool" where
  nothing_left: "blanks_removed t t"
| one_more: "blanks_removed (a @ calls_open d @ w @ calls_close d @ b) u"
    if "list_all is_whitespace w" and "blanks_removed (a @ b) u"

definition open_before :: "dialect \<Rightarrow> ustr \<Rightarrow> bool" where
  "open_before d a \<longleftrightarrow> (\<exists>p q. a = p @ calls_open d @ q \<and> \<not> str_contains q (calls_close d))"

definition no_blank_left :: "ustr \<Rightarrow> bool" where
  "no_blank_left u \<longleftrightarrow> (\<forall>a d w b. u = a @ calls_open d @ w @ calls_close d @ b \<and> list_all is_whitespace w \<longrightarrow> open_before d a)"

lemma trim_blank: "trim w = [] \<longleftrightarrow> list_all is_whitespace w"
proof -
  have "set w = set (takeWhile is_whitespace w) \<union> set (dropWhile is_whitespace w)"
    by (metis set_append takeWhile_dropWhile_id)
  then have "list_all is_whitespace (dropWhile is_whitespace w) \<longleftrightarrow> list_all is_whitespace w"
    by (auto simp: list_all_iff dest: set_takeWhileD)
  then show ?thesis
    by (simp add: trim_def trim_matches_def trim_start_matches_def trim_end_matches_def dropWhile_eq_Nil_conv list_all_iff)
qed

lemma dsml_word_plain: "60 \<notin> set (dsml_word d)"
  by (cases d) (simp_all add: dsml_word_def lit_def)

lemma lit_angle: "lit ''<'' = [60]" "lit ''</'' = [60, 47]"
  by (simp_all add: lit_def)

lemma lit_tool_calls: "60 \<notin> set (lit ''tool_calls>'')"
  by (simp add: lit_def)

lemma tag_shape:
  "calls_open d = 60 # tl (calls_open d)" "60 \<notin> set (tl (calls_open d))"
  "calls_close d = 60 # tl (calls_close d)" "60 \<notin> set (tl (calls_close d))"
  by (simp_all only: calls_open_def calls_close_def marker_def lit_angle append.simps list.sel set_append set_simps
      Un_iff insert_iff dsml_word_plain lit_tool_calls) (simp_all add: dsml_word_plain lit_tool_calls)

lemma empty_envelope_sound:
  "empty_envelope d t = Some u \<Longrightarrow>
     \<exists>a w b. t = a @ calls_open d @ w @ calls_close d @ b \<and> list_all is_whitespace w \<and> u = a @ b"
proof (induction d t arbitrary: u rule: empty_envelope.induct)
  case (1 d t)
  then obtain i c where i: "str_find (calls_open d) t = Some i"
      and c: "str_find (calls_close d) (drop (i + length (calls_open d)) t) = Some c"
    by (auto simp: empty_envelope.simps [of d t] Let_def split: option.splits)
  let ?inner = "drop (i + length (calls_open d)) t"
  let ?rest = "drop (c + length (calls_close d)) ?inner"
  have t: "t = take i t @ calls_open d @ ?inner" using str_find_Some [OF i] by simp
  have n: "?inner = take c ?inner @ calls_close d @ ?rest" using str_find_Some [OF c] by simp
  have s: "t = take i t @ calls_open d @ take c ?inner @ calls_close d @ ?rest" using t n by metis
  show ?case
  proof (cases "trim (take c ?inner) = []")
    case True
    with 1(2) i c have "u = take i t @ ?rest" by (simp add: empty_envelope.simps [of d t])
    with s True show ?thesis unfolding trim_blank by blast
  next
    case False
    with 1(2) i c obtain v where v: "empty_envelope d ?rest = Some v" "u = take (length t - length ?rest) t @ v"
      by (auto simp: empty_envelope.simps [of d t] Let_def)
    obtain a w b where r: "?rest = a @ calls_open d @ w @ calls_close d @ b" "list_all is_whitespace w" "v = a @ b"
      using 1(1) [OF i refl c refl False v(1)] by blast
    have "t = take (length t - length ?rest) t @ ?rest"
      using s by (intro suffix_split [symmetric]) (metis append.assoc suffix_def)
    with r v(2) have "t = (take (length t - length ?rest) t @ a) @ calls_open d @ w @ calls_close d @ b"
      "u = (take (length t - length ?rest) t @ a) @ b" by simp_all
    with r(2) show ?thesis by blast
  qed
qed

lemma strip_removes_blanks: "blanks_removed t (strip_empty_envelopes t)"
proof (induction t rule: strip_empty_envelopes.induct)
  case (1 t)
  show ?case
  proof (cases "first_some (\<lambda>d. empty_envelope d t) DIALECTS")
    case None
    then show ?thesis by (simp add: strip_empty_envelopes.simps [of t] nothing_left)
  next
    case (Some u)
    then obtain d where "empty_envelope d t = Some u" using first_some_Some by fastforce
    then obtain a w b where "t = a @ calls_open d @ w @ calls_close d @ b" "list_all is_whitespace w" "u = a @ b"
      using empty_envelope_sound by blast
    moreover have "strip_empty_envelopes t = strip_empty_envelopes u"
      using Some by (simp add: strip_empty_envelopes.simps [of t])
    ultimately show ?thesis
      using 1 [OF Some] one_more by metis
  qed
qed

lemma blank_close_first:
  assumes "list_all is_whitespace w"
  shows "str_find (calls_close d) (w @ calls_close d @ b) = Some (length w)"
proof -
  have "\<not> occurs_at (calls_close d) (w @ calls_close d @ b) j" if "j < length w" for j
  proof -
    have "w ! j \<noteq> 60"
      using assms that by (auto simp: list_all_length is_whitespace_def)
    then have "hd (drop j (w @ calls_close d @ b)) \<noteq> 60"
      using that by (simp add: hd_drop_conv_nth nth_append)
    then show ?thesis
      using tag_shape(3) [of d] by (metis append_Cons list.sel(1) occurs_at_def starts_with_iff)
  qed
  then show ?thesis
    by (simp add: str_find_least occurs_at_def starts_with_iff)
qed

text \<open>The first tag of a text does not reach into a later one.\<close>

lemma first_open_apart:
  assumes "str_find (calls_open d) (a @ calls_open d @ r) = Some i" "i \<noteq> length a"
  shows "i + length (calls_open d) \<le> length a"
proof (rule ccontr)
  let ?o = "calls_open d"
  assume no: "\<not> i + length ?o \<le> length a"
  have "occurs_at ?o (a @ ?o @ r) (length a)" by (simp add: occurs_at_def starts_with_iff)
  with assms have i: "i < length a" "occurs_at ?o (a @ ?o @ r) i"
    unfolding str_find_least by (metis linorder_neqE_nat)+
  let ?k = "length a - i"
  obtain v where v: "drop i (a @ ?o @ r) = ?o @ v"
    using i(2) by (auto simp: occurs_at_def starts_with_iff)
  have k: "0 < ?k" "?k < length ?o" using i(1) no by simp_all
  have "drop i (a @ ?o @ r) ! ?k = ?o ! 0"
    using i(1) tag_ne(3) [of d] by (simp add: nth_append)
  then have "?o ! ?k = ?o ! 0" using k unfolding v by (simp add: nth_append)
  moreover have "?o ! 0 = 60" by (subst tag_shape(1)) simp
  moreover have "?o ! ?k \<in> set (tl ?o)"
    using k by (cases ?o) (auto simp: nth_Cons split: nat.split)
  ultimately show False using tag_shape(2) [of d] by simp
qed

lemma empty_envelope_complete:
  "empty_envelope d (a @ calls_open d @ w @ calls_close d @ b) = None \<Longrightarrow> list_all is_whitespace w \<Longrightarrow> open_before d a"
proof (induction a rule: length_induct)
  case (1 a)
  let ?t = "a @ calls_open d @ w @ calls_close d @ b"
  have "str_contains ?t (calls_open d)" unfolding str_contains_iff by blast
  then obtain i where i: "str_find (calls_open d) ?t = Some i" by (auto simp: str_contains_def)
  let ?inner = "drop (i + length (calls_open d)) ?t"
  show ?case
  proof (cases "i = length a")
    case True
    then have "?inner = w @ calls_close d @ b" by simp
    with 1(2,3) i True show ?thesis
      by (simp add: empty_envelope.simps [of d ?t] blank_close_first trim_blank)
  next
    case False
    have le: "i + length (calls_open d) \<le> length a" by (rule first_open_apart [OF i False])
    define q where "q = drop (i + length (calls_open d)) a"
    have inner: "?inner = q @ calls_open d @ w @ calls_close d @ b" using le by (simp add: q_def)
    have "a @ calls_open d @ w @ calls_close d @ b = take i ?t @ calls_open d @ ?inner"
      by (rule str_find_Some [OF i, THEN conjunct2])
    moreover have "take i ?t = take i a" using le by simp
    ultimately have "a @ calls_open d @ w @ calls_close d @ b =
        (take i a @ calls_open d @ q) @ calls_open d @ w @ calls_close d @ b"
      unfolding inner by (simp only: append_assoc)
    then have a: "a = take i a @ calls_open d @ q" by (rule append_same_eq [THEN iffD1])
    have "str_contains ?inner (calls_close d)" unfolding str_contains_iff inner by (metis append.assoc)
    then obtain c where c: "str_find (calls_close d) ?inner = Some c" by (auto simp: str_contains_def)
    show ?thesis
    proof (cases "str_contains q (calls_close d)")
      case False
      then show ?thesis using a unfolding open_before_def by blast
    next
      case True
      then obtain j where j: "str_find (calls_close d) q = Some j" by (auto simp: str_contains_def)
      have jq: "j + length (calls_close d) \<le> length q" using str_find_Some [OF j] by simp
      have "q = take j q @ calls_close d @ drop (j + length (calls_close d)) q" using str_find_Some [OF j] by simp
      then have "occurs_at (calls_close d) ?inner j"
        unfolding inner occurs_at_def starts_with_iff using jq by (metis (no_types, lifting) append.assoc append_eq_conv_conj drop_append le_add1 le_trans length_append trans_le_add1 length_take min.absorb2)
      with c have "c \<le> j" unfolding str_find_least by (meson not_le)
      then have cq: "c + length (calls_close d) \<le> length q" using jq by simp
      define p where "p = drop (c + length (calls_close d)) q"
      have rest: "drop (c + length (calls_close d)) ?inner = p @ calls_open d @ w @ calls_close d @ b"
        unfolding inner using cq by (simp add: p_def)
      have "empty_envelope d (p @ calls_open d @ w @ calls_close d @ b) = None"
        using 1(2) i c rest by (simp add: empty_envelope.simps [of d ?t] Let_def split: if_splits)
      moreover have "length p < length a"
      proof -
        have "length a = length (take i a) + length (calls_open d) + length q"
          using arg_cong [OF a, of length] by (simp only: length_append)
        moreover have "0 < length (calls_open d)" by simp
        ultimately show ?thesis unfolding p_def length_drop by linarith
      qed
      ultimately have "open_before d p" using 1(1,3) by blast
      moreover have "a = (take i a @ calls_open d @ take (c + length (calls_close d)) q) @ p"
        using a by (simp add: p_def)
      ultimately show ?thesis unfolding open_before_def by (metis append.assoc)
    qed
  qed
qed

lemma strip_leaves_no_blank: "no_blank_left (strip_empty_envelopes t)"
proof (induction t rule: strip_empty_envelopes.induct)
  case (1 t)
  show ?case
  proof (cases "first_some (\<lambda>d. empty_envelope d t) DIALECTS")
    case None
    then have "empty_envelope d t = None" for d by (cases d) (auto simp: DIALECTS_def split: option.splits)
    with None show ?thesis
      unfolding no_blank_left_def strip_empty_envelopes.simps [of t] by (auto intro: empty_envelope_complete)
  next
    case (Some u)
    then show ?thesis using 1 [OF Some] by (simp add: strip_empty_envelopes.simps [of t])
  qed
qed

text \<open>
  C31 (safety). Healing takes nothing out of a text but the calls it returns and envelopes that hold
  nothing: the text is a sequence of gaps and spans, the spans are exactly the texts of the returned
  calls, in order, and what stays visible is the gaps, from which one envelope after another went that
  had nothing but white space between its tags. So a malformed block stays, also inside an envelope.
  A blank envelope stays visible only behind an opening tag that nothing before it closes.
\<close>

theorem heal_takes_only_calls:
  assumes "parse_leaked_tool_calls from_str t = Some (cleaned, calls)"
  shows "calls \<noteq> [] \<and> no_blank_left cleaned \<and>
    (\<exists>parts rest. t = concat (map (\<lambda>(gap, span, call). gap @ span) parts) @ rest \<and>
       blanks_removed (concat (map fst parts) @ rest) cleaned \<and> calls = map (snd \<circ> snd) parts \<and>
       (\<forall>(gap, span, call) \<in> set parts. call_span from_str span call))"
proof -
  obtain c where c: "heal_loop from_str [] t = (c, calls)" "calls \<noteq> []" "cleaned = strip_empty_envelopes c"
    using assms by (auto simp: parse_leaked_tool_calls_def split: prod.splits if_splits)
  obtain parts rest where p: "[] @ t = concat (map (\<lambda>(gap, span, call). gap @ span) parts) @ rest"
    "c = concat (map fst parts) @ rest" "calls = map (snd \<circ> snd) parts"
    "\<forall>(gap, span, call) \<in> set parts. call_span from_str span call"
    using heal_loop_parts [OF c(1)] by blast
  have "blanks_removed (concat (map fst parts) @ rest) cleaned"
    unfolding c(3) p(2) by (rule strip_removes_blanks)
  moreover have "no_blank_left cleaned" unfolding c(3) by (rule strip_leaves_no_blank)
  ultimately show ?thesis using c(2) p(1,3,4) by (metis append_Nil)
qed

section \<open>Rendered calls are healed\<close>

definition quote :: "ustr \<Rightarrow> ustr" where
  "quote s = concat (map (\<lambda>c. if c = 34 \<or> c = 92 then [92, c] else [c]) s)"

definition render_param :: "dialect \<Rightarrow> ustr \<times> ustr \<Rightarrow> ustr" where
  "render_param d = (\<lambda>(key, v).
     marker d @ lit ''parameter name=\"'' @ quote key @ lit ''\" string=\"true\">'' @ v @ parameter_close d)"

definition render_call :: "dialect \<Rightarrow> ustr \<times> (ustr \<times> ustr) list \<Rightarrow> ustr" where
  "render_call d = (\<lambda>(name, ps).
     marker d @ lit ''invoke name=\"'' @ quote name @ lit ''\">'' @ concat (map (render_param d) ps) @ invoke_close d)"

definition call_of :: "ustr \<times> (ustr \<times> ustr) list \<Rightarrow> dsml_call" where
  "call_of = (\<lambda>(name, ps). \<lparr>dc_name = name, dc_arguments = map (\<lambda>(k, v). (k, JStr v)) ps\<rparr>)"

definition value_ok :: "dialect \<Rightarrow> ustr \<Rightarrow> bool" where
  "value_ok d v \<longleftrightarrow> \<not> str_contains v (marker d) \<and> \<not> str_contains v (invoke_close d) \<and> \<not> str_contains v (parameter_close d)"

definition renderable :: "dialect \<Rightarrow> ustr \<times> (ustr \<times> ustr) list \<Rightarrow> bool" where
  "renderable d = (\<lambda>(name, ps).
     name \<noteq> [] \<and> distinct (map fst ps) \<and> list_all (\<lambda>(k, v). k \<noteq> [] \<and> value_ok d v) ps)"

lemma parse_quote: "parse_quoted_value (quote s @ 34 # r) = Some (s, r)"
  by (induction s) (auto simp: quote_def)

lemma lit_chars [simp]: "lit ''>'' = [62]"
  by (simp add: lit_def)

lemma parse_attr_key:
  assumes "\<forall>c \<in> set k. \<not> (is_whitespace c \<or> c = 61 \<or> c = 47 \<or> c = 62)" "k \<noteq> []"
  shows "parse_attr (k @ 61 # 34 # quote v @ 34 # r) = Some (k, v, r)"
proof -
  have "takeWhile (\<lambda>c. \<not> (is_whitespace c \<or> c = 61 \<or> c = 47 \<or> c = 62)) (k @ 61 # 34 # quote v @ 34 # r) = k"
    using assms(1) by (auto simp: takeWhile_append)
  moreover have "skip_whitespace (61 # u) = 61 # u" "skip_whitespace (34 # u) = 34 # u" for u
    by (simp_all add: skip_whitespace_def is_whitespace_def)
  ultimately show ?thesis
    using assms(2) by (simp add: parse_attr_def parse_quote Let_def)
qed

text \<open>An attribute behind a blank, and the end of a tag.\<close>

lemma parse_attrs_key:
  assumes "\<forall>c \<in> set k. \<not> (is_whitespace c \<or> c = 61 \<or> c = 47 \<or> c = 62)" "k \<noteq> []" "k \<notin> fst ` set attrs"
    "r = [] \<or> \<not> tag_name_char (hd r)"
  shows "parse_attrs attrs (32 # k @ 61 # 34 # quote v @ 34 # r) = parse_attrs (attrs @ [(k, v)]) r"
proof -
  have s: "skip_whitespace (32 # k @ u) = k @ u" for u
    using assms(1,2) by (cases k) (auto simp: skip_whitespace_def is_whitespace_def)
  have "hd k \<noteq> 62" "hd k \<noteq> 47"
    using assms(1,2) by (metis list.set_sel(1))+
  then show ?thesis
    using assms(2-4) parse_attr_key [OF assms(1,2), of v r]
    by (subst parse_attrs.simps) (auto simp: s Let_def split: list.splits simp: append_eq_Cons_conv)
qed

lemma parse_attrs_end: "parse_attrs attrs (62 # r) = Some (attrs, False, r)"
  by (subst parse_attrs.simps) (simp add: skip_whitespace_def is_whitespace_def)
lemma param_key: "\<forall>c \<in> set (lit ''name''). \<not> (is_whitespace c \<or> c = 61 \<or> c = 47 \<or> c = 62)"
  "\<forall>c \<in> set (lit ''string''). \<not> (is_whitespace c \<or> c = 61 \<or> c = 47 \<or> c = 62)"
  by (simp_all add: lit_def is_whitespace_def)

lemma open_tag_name:
  assumes "list_all tag_name_char w" "w \<noteq> []"
  shows "parse_open_tag d (marker d @ w @ 32 # u) =
    map_option (\<lambda>(attrs, b, r). (\<lparr>pt_name = w, pt_attrs = attrs, pt_self_closing = b\<rparr>, r)) (parse_attrs [] (32 # u))"
proof -
  have "takeWhile tag_name_char (w @ 32 # u) = w"
    using assms(1) by (auto simp: takeWhile_append list_all_iff tag_name_char_def is_whitespace_def)
  with assms(2) show ?thesis
    by (simp add: parse_open_tag_def Let_def)
qed

lemma lit_tag_parts:
  "lit ''invoke name=\"'' = lit ''invoke'' @ 32 # lit ''name'' @ [61, 34]"
  "lit ''parameter name=\"'' = lit ''parameter'' @ 32 # lit ''name'' @ [61, 34]"
  "lit ''\">'' = [34, 62]"
  "lit ''\" string=\"true\">'' = 34 # 32 # lit ''string'' @ 61 # 34 # quote (lit ''true'') @ [34, 62]"
  by (simp_all add: lit_def quote_def)

lemma open_invoke:
  "parse_open_tag d (marker d @ lit ''invoke name=\"'' @ quote n @ lit ''\">'' @ r) =
     Some (\<lparr>pt_name = lit ''invoke'', pt_attrs = [(lit ''name'', n)], pt_self_closing = False\<rparr>, r)"
proof -
  have "list_all tag_name_char (lit ''invoke'')"
    by (simp add: lit_def tag_name_char_def is_whitespace_def)
  from open_tag_name [OF this, of d "lit ''name'' @ 61 # 34 # quote n @ 34 # 62 # r"]
  show ?thesis
    by (simp add: lit_tag_parts parse_attrs_key [OF param_key(1)] parse_attrs_end tag_name_char_def)
qed

lemma open_parameter:
  "parse_open_tag d (marker d @ lit ''parameter name=\"'' @ quote k @ lit ''\" string=\"true\">'' @ r) =
     Some (\<lparr>pt_name = lit ''parameter'', pt_attrs = [(lit ''name'', k), (lit ''string'', lit ''true'')], pt_self_closing = False\<rparr>, r)"
proof -
  have "list_all tag_name_char (lit ''parameter'')"
    by (simp add: lit_def tag_name_char_def is_whitespace_def)
  from open_tag_name [OF this, of d "lit ''name'' @ 61 # 34 # quote k @ 34 # 32 # lit ''string'' @ 61 # 34 # quote (lit ''true'') @ 34 # 62 # r"]
  show ?thesis
    by (simp add: lit_tag_parts(2,4) parse_attrs_key [OF param_key(1)] parse_attrs_key [OF param_key(2)] parse_attrs_end
        tag_name_char_def is_whitespace_def)
qed

text \<open>A pattern that has its first character nowhere else.\<close>

lemma occurs_before:
  assumes "p = c # w" "c \<notin> set w" "q = c # w'" "\<not> str_contains v p" "occurs_at p (v @ q @ r) i"
  shows "length v \<le> i"
proof (rule ccontr)
  assume i: "\<not> length v \<le> i"
  obtain u where u: "drop i (v @ q @ r) = p @ u"
    using assms(5) by (auto simp: occurs_at_def starts_with_iff)
  have "\<not> occurs_at p v i"
    using assms(4) by (auto simp: occurs_at_def str_contains_iff starts_with_iff) (metis append_take_drop_id)
  then have l: "length v < i + length p"
    using occurs_restrict [OF assms(5)] by (metis not_less)
  have "drop i (v @ q @ r) ! (length v - i) = (v @ q @ r) ! length v"
    using i by (subst nth_drop) auto
  moreover have "(p @ u) ! (length v - i) = p ! (length v - i)"
    using i l by (intro nth_append_left) simp
  ultimately have "(v @ q @ r) ! length v = p ! (length v - i)"
    by (simp only: u)
  moreover have "(v @ q @ r) ! length v = c"
    by (simp add: assms(3) nth_append)
  moreover have "p ! (length v - i) \<in> set w"
    using i l assms(1) by (cases "length v - i") auto
  ultimately show False using assms(2) by simp
qed

lemma find_after:
  assumes "p = c # w" "c \<notin> set w" "\<not> str_contains v p"
  shows "str_find p (v @ p @ r) = Some (length v)"
proof -
  have "occurs_at p (v @ p @ r) (length v)"
    by (simp add: occurs_at_def)
  then show ?thesis
    using occurs_before [OF assms(1,2,1,3)] by (auto simp: str_find_least) (metis not_less)
qed

lemma not_found_before:
  assumes "p = c # w" "c \<notin> set w" "q = c # w'" "\<not> str_contains v p"
  shows "\<not> found_before (str_find p (v @ q @ r)) (length v)"
proof (cases "str_find p (v @ q @ r)")
  case (Some i)
  then have "occurs_at p (v @ q @ r) i" by (simp add: str_find_least)
  from occurs_before [OF assms this] show ?thesis by (simp add: Some)
qed simp

lemma close_heads:
  "\<exists>w. invoke_close d = 60 # w \<and> 60 \<notin> set w" "\<exists>w. parameter_close d = 60 # w \<and> 60 \<notin> set w"
  by (cases d, simp_all add: invoke_close_def parameter_close_def marker_def dsml_word_def lit_def trim_start_matches_def)+

lemma parameter_value_rendered:
  assumes "value_ok d v"
  shows "parameter_value from_str d
     \<lparr>pt_name = lit ''parameter'', pt_attrs = [(lit ''name'', k), (lit ''string'', lit ''true'')], pt_self_closing = False\<rparr>
     (v @ parameter_close d @ r) = Some (JStr v, r)"
proof -
  obtain w1 w2 w3 where w: "marker d = 60 # w1" "60 \<notin> set w1" "invoke_close d = 60 # w2" "60 \<notin> set w2"
      "parameter_close d = 60 # w3" "60 \<notin> set w3"
    using marker_head [of d] close_heads [of d] by blast
  have "str_find (parameter_close d) (v @ parameter_close d @ r) = Some (length v)"
    using assms by (intro find_after [OF w(5,6)]) (simp add: value_ok_def)
  moreover have "\<not> found_before (str_find (marker d) (v @ parameter_close d @ r)) (length v)"
    using assms by (intro not_found_before [OF w(1,2,5)]) (simp add: value_ok_def)
  moreover have "\<not> found_before (str_find (invoke_close d) (v @ parameter_close d @ r)) (length v)"
    using assms by (intro not_found_before [OF w(3,4,5)]) (simp add: value_ok_def)
  ultimately show ?thesis
    by (simp add: parameter_value_def attr_def Let_def)
qed

lemma no_blank_head: "skip_whitespace (60 # u) = 60 # u"
  by (simp add: skip_whitespace_def is_whitespace_def)

lemma marker_not_close: "\<not> starts_with (marker d @ u) (invoke_close d)"
  by (cases d) (simp_all add: marker_def invoke_close_def dsml_word_def lit_def str_simps)

lemma parse_params_rendered:
  assumes "list_all (\<lambda>(k, v). k \<noteq> [] \<and> value_ok d v) ps" "distinct (map fst ps)" "set (map fst ps) \<inter> fst ` set args = {}"
  shows "parse_params from_str d args (concat (map (render_param d) ps) @ invoke_close d @ r) =
     Some (args @ map (\<lambda>(k, v). (k, JStr v)) ps, r)"
  using assms
proof (induction ps arbitrary: args)
  case Nil
  obtain w where "invoke_close d = 60 # w" using close_heads(1) by blast
  then show ?case
    by (subst parse_params.simps) (simp add: no_blank_head starts_with_def)
next
  case (Cons p ps)
  obtain k v where p: "p = (k, v)" by (cases p)
  let ?rest = "concat (map (render_param d) ps) @ invoke_close d @ r"
  have c: "concat (map (render_param d) (p # ps)) @ invoke_close d @ r =
      marker d @ lit ''parameter name=\"'' @ quote k @ lit ''\" string=\"true\">'' @ v @ parameter_close d @ ?rest"
    by (simp add: p render_param_def)
  obtain w where w: "marker d = 60 # w" using marker_head by blast
  have "skip_whitespace (marker d @ u) = marker d @ u" for u
    by (simp add: w no_blank_head)
  moreover have "parse_params from_str d (args @ [(k, JStr v)]) ?rest = Some ((args @ [(k, JStr v)]) @ map (\<lambda>(k, v). (k, JStr v)) ps, r)"
    using Cons.prems p by (intro Cons.IH) auto
  ultimately show ?case
    unfolding c using Cons.prems p
    by (subst parse_params.simps)
       (simp add: marker_not_close open_parameter parameter_value_rendered nonempty_name_def attr_def Let_def)
qed

lemma parse_invoke_rendered:
  assumes "renderable d c"
  shows "parse_invoke from_str d (render_call d c @ r) = Some (call_of c, r)"
proof -
  obtain name ps where c: "c = (name, ps)" by (cases c)
  have p: "parse_params from_str d [] (concat (map (render_param d) ps) @ invoke_close d @ r) = Some (map (\<lambda>(k, v). (k, JStr v)) ps, r)"
    using assms parse_params_rendered [of d ps "[]"] by (simp add: c renderable_def)
  have "name \<noteq> []" using assms by (simp add: c renderable_def)
  then show ?thesis
    by (simp add: parse_invoke_def c render_call_def open_invoke p nonempty_name_def attr_def call_of_def)
qed

lemma marker_unique: "starts_with (marker d @ u) (marker e) \<Longrightarrow> d = e"
  by (cases d; cases e) (simp_all add: marker_def dsml_word_def lit_def str_simps)

lemma invoke_offset_marked: "invoke_offset d t = Some j \<Longrightarrow> occurs_at (marker d) t j"
proof (induction d t arbitrary: j rule: invoke_offset.induct)
  case (1 d t)
  then obtain k where k: "str_find (invoke_open d) t = Some k"
    by (auto simp: invoke_offset.simps [of d t] split: option.splits)
  let ?u = "drop (k + length (invoke_open d)) t"
  have o: "occurs_at (marker d) t k"
    using k by (auto simp: str_find_least occurs_at_def starts_with_iff invoke_open_def)
  have le: "k + length (invoke_open d) \<le> length t"
    using str_find_Some [OF k] by simp
  show ?case
  proof (cases "?u \<noteq> [] \<and> (is_whitespace (hd ?u) \<or> hd ?u = 62)")
    case True
    with 1(2) k o show ?thesis
      by (simp add: invoke_offset.simps [of d t])
  next
    case False
    with 1(2) k obtain i where i: "invoke_offset d ?u = Some i" "j = k + length (invoke_open d) + i"
      by (auto simp: invoke_offset.simps [of d t] Let_def)
    from 1(1) [OF k refl False i(1)] i(2) le show ?thesis
      by (simp add: occurs_at_shift)
  qed
qed

lemma occurs_no_head:
  assumes "p = c # w" "c \<notin> set g" "occurs_at p (g @ r) i"
  shows "length g \<le> i"
proof (rule ccontr)
  assume i: "\<not> length g \<le> i"
  then have "hd (drop i (g @ r)) \<in> set g"
    by (simp add: hd_drop_conv_nth nth_append)
  with assms show False
    by (auto simp: occurs_at_def starts_with_iff)
qed

lemma find_rendered:
  assumes "60 \<notin> set g"
  shows "find_next_invoke (g @ render_call d c @ r) = Some (d, length g)"
proof -
  let ?t = "g @ render_call d c @ r"
  obtain name ps where c: "c = (name, ps)" by (cases c)
  obtain u where u: "render_call d c @ r = invoke_open d @ 32 # u"
    by (auto simp: c render_call_def invoke_open_def lit_tag_parts)
  have at: "occurs_at (marker e) ?t j \<Longrightarrow> length g \<le> j" for e j
    using marker_head [of e] occurs_no_head [OF _ assms, of "marker e"] by blast
  have "str_find (invoke_open d) ?t = Some (length g)"
  proof -
    have "occurs_at (invoke_open d) ?t (length g)"
      by (simp add: u occurs_at_def)
    moreover have "occurs_at (invoke_open d) ?t j \<Longrightarrow> length g \<le> j" for j
      by (rule at [of d]) (auto simp: occurs_at_def starts_with_iff invoke_open_def)
    ultimately show ?thesis
      by (auto simp: str_find_least) (metis not_less)
  qed
  then have o: "invoke_offset d ?t = Some (length g)"
    by (subst invoke_offset.simps) (simp add: u is_whitespace_def)
  let ?l = "List.map_filter (\<lambda>d. map_option (Pair d) (invoke_offset d ?t)) DIALECTS"
  have m: "(d, length g) \<in> set ?l"
    using o by (auto simp: set_map_filter)
  then obtain e j where e: "min_by_offset ?l = Some (e, j)"
    by (cases "min_by_offset ?l") auto
  from min_by_offset_Some [OF e] m have ej: "invoke_offset e ?t = Some j" "j \<le> length g"
    by (auto simp: set_map_filter)
  then have "j = length g"
    using at invoke_offset_marked by (metis antisym)
  moreover have "starts_with (marker d @ lit ''invoke'' @ 32 # u) (marker e)"
    using invoke_offset_marked [OF ej(1)] \<open>j = length g\<close> u by (simp add: occurs_at_def invoke_open_def)
  then have "d = e" by (rule marker_unique)
  ultimately show ?thesis
    using e by (simp add: find_next_invoke_def)
qed

lemma find_none: "60 \<notin> set t \<Longrightarrow> find_next_invoke t = None"
proof -
  assume t: "60 \<notin> set t"
  have "invoke_offset d t = None" for d
  proof (cases "invoke_offset d t")
    case (Some j)
    from invoke_offset_marked [OF Some] obtain u where "drop j t = 60 # u"
      using marker_head [of d] by (auto simp: occurs_at_def starts_with_iff)
    then have "60 \<in> set t"
      by (metis in_set_dropD list.set_intros(1))
    with t show ?thesis by simp
  qed simp
  then show ?thesis
    by (simp add: find_next_invoke_def map_filter_simps DIALECTS_def)
qed

definition weave :: "(ustr \<times> dialect \<times> ustr \<times> (ustr \<times> ustr) list) list \<Rightarrow> ustr" where
  "weave segs = concat (map (\<lambda>(gap, d, c). gap @ render_call d c) segs)"

definition gaps :: "(ustr \<times> dialect \<times> ustr \<times> (ustr \<times> ustr) list) list \<Rightarrow> ustr" where
  "gaps segs = concat (map fst segs)"

lemma heal_weave:
  assumes "list_all (\<lambda>(gap, d, c). 60 \<notin> set gap \<and> renderable d c) segs" "60 \<notin> set rest"
  shows "heal_loop from_str [] (weave segs @ rest) = (gaps segs @ rest, map (\<lambda>(gap, d, c). call_of c) segs)"
  using assms(1)
proof (induction segs)
  case Nil
  then show ?case
    using assms(2) by (subst heal_loop.simps) (simp add: weave_def gaps_def find_none)
next
  case (Cons s segs)
  obtain g d c where s: "s = (g, d, c)" by (cases s)
  have w: "weave (s # segs) @ rest = g @ render_call d c @ weave segs @ rest"
    by (simp add: weave_def s)
  have "find_next_invoke (g @ render_call d c @ weave segs @ rest) = Some (d, length g)"
    using Cons.prems s by (intro find_rendered) simp
  moreover have "parse_invoke from_str d (render_call d c @ weave segs @ rest) = Some (call_of c, weave segs @ rest)"
    using Cons.prems s by (intro parse_invoke_rendered) simp
  ultimately show ?case
    unfolding w using Cons s by (simp add: heal_loop.simps [of from_str "[]" "g @ render_call d c @ weave segs @ rest"] gaps_def)
qed

lemma strip_plain: "60 \<notin> set t \<Longrightarrow> strip_empty_envelopes t = t"
proof -
  assume t: "60 \<notin> set t"
  have "str_find (calls_open d) t = None" for d
  proof (cases "str_find (calls_open d) t")
    case (Some j)
    then have "calls_open d ! 0 \<in> set t"
      using str_find_Some [OF Some] by (metis length_greater_0_conv nth_mem tag_ne(3) in_set_conv_decomp append_assoc set_append UnCI)
    moreover have "calls_open d ! 0 = 60"
      by (simp add: calls_open_def marker_def lit_def)
    ultimately show ?thesis using t by simp
  qed simp
  then have "empty_envelope d t = None" for d
    by (simp add: empty_envelope.simps [of d t])
  then show ?thesis
    by (subst strip_empty_envelopes.simps) (simp add: DIALECTS_def)
qed

text \<open>
  C32 (roundtrip). Calls rendered as the models write them, in any mix of dialects and with any text
  free of tags around them, are healed back: the same calls, with the same names and string
  arguments, in the same order, and exactly the text around them stays visible.
\<close>

theorem dsml_roundtrip:
  assumes "list_all (\<lambda>(gap, d, c). 60 \<notin> set gap \<and> renderable d c) segs" "60 \<notin> set rest" "segs \<noteq> []"
  shows "parse_leaked_tool_calls from_str (weave segs @ rest) =
     Some (gaps segs @ rest, map (\<lambda>(gap, d, c). call_of c) segs)"
proof -
  have "60 \<notin> set (gaps segs @ rest)"
    using assms(1,2) by (auto simp: gaps_def list_all_iff)
  then show ?thesis
    using heal_weave [OF assms(1,2), of from_str] assms(3)
    by (simp add: parse_leaked_tool_calls_def strip_plain)
qed

text \<open>Two calls of two dialects in one text, with a quote in an argument.\<close>

definition demo_segs :: "(ustr \<times> dialect \<times> ustr \<times> (ustr \<times> ustr) list) list" where
  "demo_segs =
     [(lit ''run '', SINGLE_BAR, lit ''shell'', [(lit ''command'', lit ''ls \"a\"''), (lit ''cwd'', [])]),
      (lit '' and '', ASCII_DOUBLE, lit ''read'', [(lit ''path'', lit ''a<b'')])]"

theorem dsml_roundtrip_witness:
  "parse_leaked_tool_calls (\<lambda>s. None) (weave demo_segs @ lit ''!'') =
     Some (lit ''run  and !'', [call_of (lit ''shell'', [(lit ''command'', lit ''ls \"a\"''), (lit ''cwd'', [])]),
       call_of (lit ''read'', [(lit ''path'', lit ''a<b'')])])"
proof -
  have "list_all (\<lambda>(gap, d, c). 60 \<notin> set gap \<and> renderable d c) demo_segs"
    by code_simp
  moreover have "60 \<notin> set (lit ''!'')" "demo_segs \<noteq> []"
    by (simp_all add: lit_def demo_segs_def)
  ultimately show ?thesis
    using dsml_roundtrip [of demo_segs "lit ''!''" "\<lambda>s. None"] by (simp add: demo_segs_def gaps_def lit_def)
qed

theorem heal_takes_only_calls_witness:
  "\<exists>parts rest. weave demo_segs @ lit ''!'' = concat (map (\<lambda>(gap, span, call). gap @ span) parts) @ rest \<and>
     blanks_removed (concat (map fst parts) @ rest) (lit ''run  and !'') \<and>
     list_all (\<lambda>(gap, span, call). call_span (\<lambda>s. None) span call) parts"
proof -
  have "60 \<notin> set (lit ''!'')" "demo_segs \<noteq> []"
    by (simp_all add: lit_def demo_segs_def)
  moreover have "list_all (\<lambda>(gap, d, c). 60 \<notin> set gap \<and> renderable d c) demo_segs"
    by code_simp
  ultimately have "heal_loop (\<lambda>s. None) [] (weave demo_segs @ lit ''!'') =
      (gaps demo_segs @ lit ''!'', map (\<lambda>(gap, d, c). call_of c) demo_segs)"
    by (intro heal_weave) simp_all
  then have "parse_leaked_tool_calls (\<lambda>s. None) (weave demo_segs @ lit ''!'') =
      Some (lit ''run  and !'', map (\<lambda>(gap, d, c). call_of c) demo_segs)"
    by (simp add: parse_leaked_tool_calls_def strip_plain demo_segs_def gaps_def lit_def)
  from heal_takes_only_calls [OF this] show ?thesis
    by (auto simp: list_all_iff)
qed

text \<open>
  The removal of residue is one pass of replacements, which can put a marker together that was not
  there: the markup then reaches the transcript.
\<close>

lemma residue_leaks:
  "contains_dsml (strip_dsml_residue (lit ''<|DS<|DSML|ML|x''))"
  by code_simp

end
