(* ===== verification/Turn_Feed.thy ===== *)
theory Turn_Feed
  imports Run_Turn
begin

text \<open>
  What the adapters' streams share when the engine reads them (\<open>Run\_Turn\<close>): the events before the end
  of a stream as one pass over the engine's accumulator, and the table of calls in assembly that an
  adapter and the engine keep in step.
\<close>

text \<open>A call in assembly: id, name and the arguments so far.\<close>

type_synonym call_entry = "ustr \<times> ustr \<times> ustr"

definition some_text :: "ustr option \<Rightarrow> ustr" where
  "some_text t = (case t of Some s \<Rightarrow> s | None \<Rightarrow> [])"

definition text_events :: "(ustr \<Rightarrow> stream_event) \<Rightarrow> ustr option \<Rightarrow> stream_event list" where
  "text_events mk t = (case t of Some s \<Rightarrow> if s \<noteq> [] then [mk s] else [] | None \<Rightarrow> [])"

lemma map_of_end: "k \<notin> fst ` set xs \<Longrightarrow> map_of (xs @ [(k, v)]) k = Some v"
  by (induction xs) auto

lemma update_at_end: "k \<notin> fst ` set xs \<Longrightarrow> AList.update k w (xs @ [(k, v)]) = xs @ [(k, w)]"
  by (induction xs) auto

section \<open>The engine and an adapter in step\<close>

definition feed :: "stream_event list \<Rightarrow> turn_acc \<Rightarrow> turn_acc" where
  "feed es a = foldl (\<lambda>a e. snd (turn_step (Next e) a)) a es"

lemma feed_simps [simp]: "feed [] a = a" "feed (e # es) a = feed es (snd (turn_step (Next e) a))"
  "feed (es @ fs) a = feed fs (feed es a)"
  by (simp_all add: feed_def)

definition running :: "stream_event list \<Rightarrow> bool" where
  "running es \<longleftrightarrow> list_all (\<lambda>e. \<not> is_stop (Next e)) es"

lemma running_simps [simp]: "running []" "running (e # es) \<longleftrightarrow> \<not> is_stop (Next e) \<and> running es"
  "running (es @ fs) \<longleftrightarrow> running es \<and> running fs"
  by (simp_all add: running_def)

lemma is_stop_simps [simp]: "\<not> is_stop (Next (TextDelta t))" "\<not> is_stop (Next (ReasoningDelta t))"
  "\<not> is_stop (Next (ToolCallStart i n))" "\<not> is_stop (Next (ToolCallArgumentDelta i d))"
  "\<not> is_stop (Next (ToolCallFinish i n x))" "is_stop (Next (Finished r u))" "is_stop (Next (StreamError e))"
  by (simp_all add: is_stop_def)

lemma turn_loop_feed: "running es \<Longrightarrow> turn_loop (map Next (es @ fs)) a = turn_loop (map Next fs) (feed es a)"
proof (induction es arbitrary: a)
  case (Cons e es)
  then show ?case using turn_step_stop [of "Next e" a] by (simp add: split_beta Let_def)
qed simp

text \<open>The engine's table is the adapter's, without the indices.\<close>

definition tracks :: "(int \<times> call_entry) list \<Rightarrow> turn_acc \<Rightarrow> bool" where
  "tracks tools a \<longleftrightarrow> a_pending a = map snd tools \<and> a_order a = map (\<lambda>c. fst (snd c)) tools"

lemma update_snd:
  assumes "map_of tools i = Some (d, v)" "distinct (map (\<lambda>c. fst (snd c)) tools)"
  shows "map snd (AList.update i (d, w) tools) = AList.update d w (map snd tools)"
  using assms
proof (induction tools)
  case (Cons c tools)
  show ?case
  proof (cases "fst c = i")
    case False
    then have "map_of tools i = Some (d, v)" using Cons.prems(1) by (cases c) simp
    then have "(i, d, v) \<in> set tools" by (rule map_of_SomeD)
    then have "d \<in> set (map (\<lambda>c. fst (snd c)) tools)" by (auto intro: image_eqI [of _ _ "(i, d, v)"])
    then have "fst (snd c) \<noteq> d" using Cons.prems(2) by auto
    with False Cons show ?thesis by (cases c) auto
  qed (use Cons.prems in \<open>cases c; auto\<close>)
qed simp

lemma map_of_snd:
  assumes "map_of tools i = Some (d, v)" "distinct (map (\<lambda>c. fst (snd c)) tools)"
  shows "map_of (map snd tools) d = Some v"
proof (rule map_of_is_SomeI)
  show "distinct (map fst (map snd tools))" using assms(2) by (simp add: comp_def)
  show "(d, v) \<in> set (map snd tools)" using map_of_SomeD [OF assms(1)] by force
qed

lemma feed_delta:
  assumes "tracks tools a" "map_of tools i = Some (d, n, args)" "distinct (map (\<lambda>c. fst (snd c)) tools)"
  shows "tracks (AList.update i (d, n, args @ x) tools) (call_delta d x a)"
proof -
  have "map_of (a_pending a) d = Some (n, args)"
    using assms map_of_snd [OF assms(2,3)] by (simp add: tracks_def)
  moreover have "map (\<lambda>c. fst (snd c)) (AList.update i (d, w) tools) = map (\<lambda>c. fst (snd c)) tools" for w
    using assms(2) by (induction tools) (auto split: if_splits)
  ultimately show ?thesis
    using assms(1) update_snd [OF assms(2,3)] by (simp add: tracks_def call_delta_def)
qed

lemma feed_start:
  assumes "tracks tools a" "d \<notin> set (map (\<lambda>c. fst (snd c)) tools)"
  shows "tracks (tools @ [(i, d, n, [])]) (call_start d n a)"
  using assms by (force simp: tracks_def call_start_def or_insert_def push_order_def map_of_eq_None_iff)

text \<open>What a pass leaves alone.\<close>

definition same_rest :: "turn_acc \<Rightarrow> turn_acc \<Rightarrow> bool" where
  "same_rest a b \<longleftrightarrow> a_text b = a_text a \<and> a_reasoning b = a_reasoning a \<and> a_error b = a_error a \<and> a_finish b = a_finish a"

lemma same_rest_simps [simp]: "same_rest a a" "same_rest a (call_start d n b) \<longleftrightarrow> same_rest a b"
  "same_rest a (call_delta d x b) \<longleftrightarrow> same_rest a b"
  "same_rest (call_start d n a) b \<longleftrightarrow> same_rest a b"
  "same_rest (call_delta d x a) b \<longleftrightarrow> same_rest a b"
  by (simp_all add: same_rest_def call_start_def call_delta_def split: option.split prod.split)

lemma same_rest_trans: "same_rest a b \<Longrightarrow> same_rest b c \<Longrightarrow> same_rest a c"
  by (simp add: same_rest_def)

lemma call_finish_known:
  assumes "tracks tools a" "(i, d, n, args) \<in> set tools" "distinct (map (\<lambda>c. fst (snd c)) tools)"
  shows "call_finish d n args a = a"
proof -
  have d: "distinct (map fst (map snd tools))" using assms(3) by (simp add: comp_def)
  have m: "map_of (a_pending a) d = Some (n, args)"
    using assms(1,2) by (auto simp: tracks_def intro!: map_of_is_SomeI [OF d] image_eqI [of _ snd "(i, d, n, args)"])
  have "d \<in> set (a_order a)"
    using assms(1,2) by (auto simp: tracks_def intro: image_eqI [of _ _ "(i, d, n, args)"])
  with m show ?thesis
    by (simp add: call_finish_def or_insert_def push_order_def update_triv Let_def)
qed

lemma text_events_feed:
  "running (text_events TextDelta t)" "running (text_events ReasoningDelta t)"
  "tracks tools (feed (text_events TextDelta t) a) = tracks tools a"
  "tracks tools (feed (text_events ReasoningDelta t) a) = tracks tools a"
  "a_text (feed (text_events TextDelta t) a) = a_text a @ some_text t"
  "a_text (feed (text_events ReasoningDelta t) a) = a_text a"
  "a_reasoning (feed (text_events TextDelta t) a) = a_reasoning a"
  "a_reasoning (feed (text_events ReasoningDelta t) a) = a_reasoning a @ some_text t"
  "a_error (feed (text_events TextDelta t) a) = a_error a" "a_error (feed (text_events ReasoningDelta t) a) = a_error a"
  "a_finish (feed (text_events TextDelta t) a) = a_finish a" "a_finish (feed (text_events ReasoningDelta t) a) = a_finish a"
  by (simp_all add: text_events_def some_text_def tracks_def split: option.split)

definition entry_call :: "call_entry \<Rightarrow> tool_call" where
  "entry_call e = (case e of (d, n, a) \<Rightarrow> \<lparr>tc_id = d, tc_kind = lit ''function'', tc_name = n, tc_arguments = a\<rparr>)"

lemma pending_tracks:
  assumes "tracks tools a" "distinct (map (\<lambda>c. fst (snd c)) tools)"
  shows "pending_calls a = map (\<lambda>c. entry_call (snd c)) tools"
proof -
  have m: "map_of (map snd tools) (fst (snd c)) = Some (snd (snd c))" if "c \<in> set tools" for c
    using that assms(2) by (intro map_of_is_SomeI) (auto simp: comp_def)
  have "List.map_filter (\<lambda>i. case map_of (map snd tools) i of
       Some (name, args) \<Rightarrow> Some \<lparr>tc_id = i, tc_kind = lit ''function'', tc_name = name, tc_arguments = args\<rparr>
     | None \<Rightarrow> None) (map (\<lambda>c. fst (snd c)) ts) = map (\<lambda>c. entry_call (snd c)) ts" if "set ts \<subseteq> set tools" for ts
    using that by (induction ts) (auto simp: List.map_filter_simps m entry_call_def split: prod.split)
  then show ?thesis
    using assms(1) by (simp add: pending_calls_def tracks_def)
qed

text \<open>The engine holds the calls \<open>cs\<close>.\<close>

definition calls_seen :: "call_entry list \<Rightarrow> turn_acc \<Rightarrow> bool" where
  "calls_seen cs a \<longleftrightarrow> a_pending a = cs \<and> a_order a = map fst cs"

lemma call_delta_end:
  "calls_seen (cs @ [(d, n, x)]) a \<Longrightarrow> d \<notin> set (map fst cs) \<Longrightarrow> calls_seen (cs @ [(d, n, x @ p)]) (call_delta d p a)"
  by (simp add: calls_seen_def call_delta_def map_of_end update_at_end del: map_of_append)

lemma calls_seen_pending: "calls_seen cs a \<Longrightarrow> distinct (map fst cs) \<Longrightarrow> pending_calls a = map entry_call cs"
  using pending_tracks [of "map (Pair 0) cs" a] by (simp add: tracks_def calls_seen_def comp_def)

lemma call_start_end:
  "calls_seen cs a \<Longrightarrow> d \<notin> set (map fst cs) \<Longrightarrow> calls_seen (cs @ [(d, n, [])]) (call_start d n a)"
  by (simp add: calls_seen_def call_start_def or_insert_def push_order_def map_of_eq_None_iff)

lemma call_finish_end:
  "calls_seen (cs @ [(d, n, x)]) a \<Longrightarrow> d \<notin> set (map fst cs) \<Longrightarrow> call_finish d n x a = a"
  by (simp add: calls_seen_def call_finish_def or_insert_def push_order_def map_of_end update_triv Let_def del: map_of_append)

text \<open>A call that an adapter yields at once.\<close>

definition whole_call :: "call_entry \<Rightarrow> stream_event list" where
  "whole_call c = (case c of (d, n, x) \<Rightarrow> [ToolCallStart d n, ToolCallArgumentDelta d x, ToolCallFinish d n x])"

lemma whole_call_feed:
  assumes "calls_seen cs a" "fst c \<notin> set (map fst cs)"
  shows "running (whole_call c) \<and> calls_seen (cs @ [c]) (feed (whole_call c) a) \<and> same_rest a (feed (whole_call c) a)"
proof -
  obtain d n x where c: "c = (d, n, x)" by (cases c)
  have fresh: "d \<notin> set (map fst cs)" using assms(2) c by simp
  have "calls_seen (cs @ [(d, n, x)]) (call_delta d x (call_start d n a))"
    using call_delta_end [OF call_start_end [OF assms(1) fresh] fresh, of n x] by simp
  with fresh show ?thesis by (simp add: c whole_call_def call_finish_end)
qed

section \<open>Completion signals\<close>

definition is_finished :: "stream_event \<Rightarrow> bool" where
  "is_finished e \<longleftrightarrow> (case e of Finished r u \<Rightarrow> True | _ \<Rightarrow> False)"

definition is_failure :: "stream_event \<Rightarrow> bool" where
  "is_failure e \<longleftrightarrow> (case e of StreamError r \<Rightarrow> True | _ \<Rightarrow> False)"

definition signals :: "stream_event list \<Rightarrow> nat" where
  "signals es = length (filter is_finished es)"

lemma signals_simps [simp]: "signals [] = 0" "signals (e # es) = (if is_finished e then 1 else 0) + signals es"
  "signals (es @ fs) = signals es + signals fs"
  by (simp_all add: signals_def)

lemma is_finished_simps [simp]: "is_finished (Finished r u)" "\<not> is_finished (TextDelta t)" "\<not> is_finished (ReasoningDelta t)"
  "\<not> is_finished (ToolCallStart i n)" "\<not> is_finished (ToolCallArgumentDelta i d)" "\<not> is_finished (ToolCallFinish i n x)"
  by (simp_all add: is_finished_def)

lemma is_failure_simps [simp]: "\<not> is_failure (Finished r u)" "\<not> is_failure (TextDelta t)" "\<not> is_failure (ReasoningDelta t)"
  "\<not> is_failure (ToolCallStart i n)" "\<not> is_failure (ToolCallArgumentDelta i d)" "\<not> is_failure (ToolCallFinish i n x)"
  by (simp_all add: is_failure_def)

end
