(* ===== verification/Sse.thy ===== *)
theory Sse
  imports Utf8 Run_Turn
begin

text \<open>
  Server-sent events (\<open>parse\_sse\_lines\<close> of \<open>providers/src/transport/mod.rs\<close>) and the loop that every
  streaming adapter of a provider runs over the chunks of a response: bytes are buffered, complete
  lines are decoded, and the adapter's step turns the data of a line into stream events.
\<close>

definition MAX_SSE_BUFFER_BYTES :: nat where "MAX_SSE_BUFFER_BYTES = 16 * 1024 * 1024"

text \<open>The data of one line, if it has any.\<close>

definition line_data :: "bytes \<Rightarrow> ustr list" where
  "line_data raw =
     (let line = trim_end_matches (\<lambda>c. c = 13) (from_utf8_lossy raw)
      in if line = [] then []
         else case strip_prefix (lit ''data:'') line of Some data \<Rightarrow> [trim data] | None \<Rightarrow> [])"

text \<open>The complete lines of a buffer, and what is left of it.\<close>

function sse_lines :: "bytes \<Rightarrow> bytes list \<times> bytes" where
  "sse_lines buffer =
     (if 10 \<in> set buffer then
        (case sse_lines (tl (dropWhile (\<lambda>b. b \<noteq> 10) buffer)) of
           (ls, rest) \<Rightarrow> (takeWhile (\<lambda>b. b \<noteq> 10) buffer # ls, rest))
      else ([], buffer))"
  by pat_completeness auto
termination
proof (relation "measure length")
  fix buffer :: bytes
  assume "10 \<in> set buffer"
  then have "length (dropWhile (\<lambda>b. b \<noteq> 10) buffer) \<le> length buffer" "dropWhile (\<lambda>b. b \<noteq> 10) buffer \<noteq> []"
    by (auto simp: length_dropWhile_le dropWhile_eq_Nil_conv)
  then show "(tl (dropWhile (\<lambda>b. b \<noteq> 10) buffer), buffer) \<in> measure length"
    by (cases "dropWhile (\<lambda>b. b \<noteq> 10) buffer") auto
qed simp

declare sse_lines.simps [simp del]

definition drain_lines :: "bytes \<Rightarrow> ustr list \<times> bytes" where
  "drain_lines buffer = (case sse_lines buffer of (ls, rest) \<Rightarrow> (concat (map line_data ls), rest))"

text \<open>The events of a chunk, or the length of the line that grew too long; and the buffer after it.\<close>

definition parse_sse_lines :: "bytes \<Rightarrow> bytes \<Rightarrow> (nat + ustr list) \<times> bytes" where
  "parse_sse_lines buffer chunk =
     (case drain_lines (buffer @ chunk) of
        (events, rest) \<Rightarrow>
          if length rest > MAX_SSE_BUFFER_BYTES then (Inl (length rest), []) else (Inr events, rest))"

definition sse_done :: "ustr \<Rightarrow> bool" where
  "sse_done data \<longleftrightarrow> data = lit ''[DONE]''"

lemma split_line: "10 \<notin> set l \<Longrightarrow> sse_lines (l @ 10 # t) = (case sse_lines t of (ls, r) \<Rightarrow> (l # ls, r))"
  by (subst sse_lines.simps) (auto simp: takeWhile_append dropWhile_append)

lemma split_none: "10 \<notin> set t \<Longrightarrow> sse_lines t = ([], t)"
  by (simp add: sse_lines.simps [of t])

lemma line_split: "10 \<in> set s \<Longrightarrow> \<exists>l t. s = l @ 10 # t \<and> 10 \<notin> set l"
  by (metis split_list_first)

lemma split_append:
  "sse_lines (s @ t) = (case sse_lines s of (ls, r) \<Rightarrow> (case sse_lines (r @ t) of (ms, r') \<Rightarrow> (ls @ ms, r')))"
proof (induction s rule: measure_induct_rule [of length])
  case (less s)
  show ?case
  proof (cases "10 \<in> set s")
    case False
    then show ?thesis by (simp add: split_none split: prod.split)
  next
    case True
    then obtain l u where s: "s = l @ 10 # u" "10 \<notin> set l" using line_split by blast
    then have "sse_lines (u @ t) = (case sse_lines u of (ls, r) \<Rightarrow> (case sse_lines (r @ t) of (ms, r') \<Rightarrow> (ls @ ms, r')))"
      by (intro less) simp
    with s split_line [of l] show ?thesis by (simp split: prod.splits)
  qed
qed

lemma split_rest: "sse_lines s = (ls, r) \<Longrightarrow> 10 \<notin> set r \<and> length r \<le> length s"
proof (induction s arbitrary: ls rule: measure_induct_rule [of length])
  case (less s)
  show ?case
  proof (cases "10 \<in> set s")
    case False
    with less.prems show ?thesis by (auto simp: split_none)
  next
    case True
    then obtain l u where s: "s = l @ 10 # u" "10 \<notin> set l" using line_split by blast
    then obtain ms where "sse_lines u = (ms, r)"
      using less.prems split_line [of l u] by (auto split: prod.splits)
    with s less.IH [of u ms] show ?thesis by auto
  qed
qed

lemma drain_none: "10 \<notin> set t \<Longrightarrow> drain_lines t = ([], t)"
  by (simp add: drain_lines_def split_none)

lemma drain_append:
  "drain_lines (s @ t) = (case drain_lines s of (es, r) \<Rightarrow> (case drain_lines (r @ t) of (fs, r') \<Rightarrow> (es @ fs, r')))"
  by (simp add: drain_lines_def split_append [of s t] split: prod.split)

lemma drain_rest: "drain_lines s = (es, r) \<Longrightarrow> 10 \<notin> set r"
  using split_rest [of s] by (auto simp: drain_lines_def split: prod.splits)

lemma drain_le: "length (snd (drain_lines s)) \<le> length s"
  using split_rest [of s] by (auto simp: drain_lines_def split: prod.splits)

section \<open>The loop of an adapter\<close>

text \<open>
  \<open>step\<close> is what the adapter does with one event: the stream events it yields and its next state,
  \<open>None\<close> when it returns. \<open>close\<close> is what it yields when the connection ends. A chunk \<open>None\<close> is a read
  error, which ends the stream.
\<close>

fun sse_events :: "('e \<Rightarrow> 's \<Rightarrow> stream_event list \<times> 's option) \<Rightarrow> 'e list \<Rightarrow> 's \<Rightarrow> stream_event list \<times> 's option" where
  "sse_events step [] s = ([], Some s)"
| "sse_events step (raw # raws) s =
     (case step raw s of
        (es, None) \<Rightarrow> (es, None)
      | (es, Some s') \<Rightarrow> (case sse_events step raws s' of (fs, r) \<Rightarrow> (es @ fs, r)))"

fun sse_stream ::
  "(ustr \<Rightarrow> 's \<Rightarrow> stream_event list \<times> 's option) \<Rightarrow> ('s \<Rightarrow> stream_event list) \<Rightarrow>
     bytes \<Rightarrow> bytes option list \<Rightarrow> 's \<Rightarrow> stream_event list" where
  "sse_stream step close buffer [] s = close s"
| "sse_stream step close buffer (None # chunks) s = [StreamError (lit ''SSE read'')]"
| "sse_stream step close buffer (Some chunk # chunks) s =
     (case parse_sse_lines buffer chunk of
        (Inl n, _) \<Rightarrow> [StreamError (lit ''SSE line exceeded'')]
      | (Inr raws, buffer') \<Rightarrow>
          (case sse_events step raws s of
             (es, None) \<Rightarrow> es
           | (es, Some s') \<Rightarrow> es @ sse_stream step close buffer' chunks s'))"

text \<open>A response that frames its events: no line, complete or not, outgrows the buffer.\<close>

definition framed :: "bytes \<Rightarrow> bool" where
  "framed bs \<longleftrightarrow> (\<forall>n. length (snd (drain_lines (take n bs))) \<le> MAX_SSE_BUFFER_BYTES)"

lemma sse_events_append:
  "sse_events step (xs @ ys) s =
     (case sse_events step xs s of
        (es, None) \<Rightarrow> (es, None)
      | (es, Some s') \<Rightarrow> (case sse_events step ys s' of (fs, r) \<Rightarrow> (es @ fs, r)))"
  by (induction xs arbitrary: s) (auto split: prod.splits option.splits)

lemma framed_prefix: "framed (s @ t) \<Longrightarrow> framed s"
proof -
  assume f: "framed (s @ t)"
  have "length (snd (drain_lines (take n s))) \<le> MAX_SSE_BUFFER_BYTES" for n
  proof -
    have "take n s = take (min n (length s)) (s @ t)" by (simp add: min_def)
    with f show ?thesis unfolding framed_def by metis
  qed
  then show ?thesis by (simp add: framed_def)
qed

lemma framed_rest: "framed s \<Longrightarrow> length (snd (drain_lines s)) \<le> MAX_SSE_BUFFER_BYTES"
  unfolding framed_def by (metis order_refl take_all)

lemma framed_short: "length s \<le> MAX_SSE_BUFFER_BYTES \<Longrightarrow> framed s"
  unfolding framed_def by (metis drain_le length_take min.cobounded1 order_trans)

text \<open>What a stream yields from a whole text, after the part \<open>done\<close> of it.\<close>

lemma sse_stream_whole:
  assumes "drain_lines seen = (es0, buffer)" "framed (seen @ concat chunks)"
  shows "sse_stream step close buffer (map Some chunks) s =
    (case sse_events step (fst (drain_lines (buffer @ concat chunks))) s of
       (es, None) \<Rightarrow> es | (es, Some s') \<Rightarrow> es @ close s')"
  using assms
proof (induction chunks arbitrary: seen es0 buffer s)
  case Nil
  then show ?case
    using drain_rest [OF Nil(1)] by (simp add: drain_none)
next
  case (Cons c cs)
  obtain es r where d: "drain_lines (buffer @ c) = (es, r)"
    by (cases "drain_lines (buffer @ c)")
  have seen: "drain_lines (seen @ c) = (es0 @ es, r)"
    using drain_append [of seen c] Cons.prems(1) d by simp
  have "framed (seen @ c)"
    using Cons.prems(2) framed_prefix [of "seen @ c" "concat cs"] by simp
  then have "\<not> length r > MAX_SSE_BUFFER_BYTES"
    using framed_rest [of "seen @ c"] seen by simp
  then have p: "parse_sse_lines buffer c = (Inr es, r)"
    by (simp add: parse_sse_lines_def d)
  have w: "fst (drain_lines (buffer @ concat (c # cs))) = es @ fst (drain_lines (r @ concat cs))"
    using drain_append [of "buffer @ c" "concat cs"] d by (simp split: prod.splits)
  have ih: "sse_stream step close r (map Some cs) s' =
    (case sse_events step (fst (drain_lines (r @ concat cs))) s' of
       (es, None) \<Rightarrow> es | (es, Some s') \<Rightarrow> es @ close s')" for s'
    using Cons.prems(2) by (intro Cons.IH [OF seen]) simp
  show ?case
    unfolding w sse_events_append
    by (simp add: p ih split: prod.splits option.splits)
qed

lemma sse_chunking:
  assumes "framed (concat chunks)"
  shows "sse_stream step close [] (map Some chunks) s = sse_stream step close [] [Some (concat chunks)] s"
proof -
  have d: "drain_lines [] = ([], [])" by (simp add: drain_none)
  show ?thesis
    using assms sse_stream_whole [OF d, where chunks = chunks and step = step and close = close and s = s]
      sse_stream_whole [OF d, where chunks = "[concat chunks]" and step = step and close = close and s = s] by simp
qed

end
