(* ===== verification/Serde.thy ===== *)
theory Serde
  imports Json
begin

text \<open>
  How the derived decoders (\<open>serde\<close>) read a struct from a JSON object: a field marked \<open>default\<close> may
  be missing, an \<open>Option\<close> may be missing or \<open>null\<close>, a present field of the wrong type fails the whole
  value, and unknown fields are ignored.
\<close>

definition from_field :: "(json \<Rightarrow> 'a option) \<Rightarrow> 'a \<Rightarrow> json \<Rightarrow> string \<Rightarrow> 'a option" where
  "from_field dec d j key = (case jget j key of None \<Rightarrow> Some d | Some v \<Rightarrow> dec v)"

definition required_field :: "(json \<Rightarrow> 'a option) \<Rightarrow> json \<Rightarrow> string \<Rightarrow> 'a option" where
  "required_field dec j key = (case jget j key of None \<Rightarrow> None | Some v \<Rightarrow> dec v)"

definition from_option :: "(json \<Rightarrow> 'a option) \<Rightarrow> json \<Rightarrow> 'a option option" where
  "from_option dec v = (if is_null v then Some None else map_option Some (dec v))"

fun all_some :: "'a option list \<Rightarrow> 'a list option" where
  "all_some [] = Some []"
| "all_some (x # xs) =
     (case x of None \<Rightarrow> None | Some y \<Rightarrow> (case all_some xs of None \<Rightarrow> None | Some ys \<Rightarrow> Some (y # ys)))"

definition from_list :: "(json \<Rightarrow> 'a option) \<Rightarrow> json \<Rightarrow> 'a list option" where
  "from_list dec v = (case as_array v of None \<Rightarrow> None | Some vs \<Rightarrow> all_some (map dec vs))"

fun is_object :: "json \<Rightarrow> bool" where
  "is_object (JObj kvs) = True"
| "is_object _ = False"

end
