(* ===== verification/Openai.thy ===== *)
theory Openai
  imports Turn_Feed Sse Serde
begin

text \<open>
  The adapter for chat completions (\<open>providers/src/openai.rs\<close>), which also serves the compatible
  gateways and local runtimes: the chunks of the stream, the assembly of tool calls from their
  fragments, the end of the stream, the messages of a request and the order of embeddings. The JSON
  library and the order in which a hash map drains are parameters.
\<close>

section \<open>Chunks\<close>

record delta_call =
  dl_index :: int
  dl_id :: "ustr option"
  dl_name :: "ustr option"
  dl_arguments :: "ustr option"

record oa_choice =
  ch_content :: "ustr option"
  ch_reasoning :: "ustr option"
  ch_tool_calls :: "delta_call list"
  ch_finish :: "ustr option"

record oa_usage =
  ou_prompt :: u64
  ou_completion :: u64
  ou_cached :: u64

record oa_chunk =
  ck_choices :: "oa_choice list"
  ck_usage :: "oa_usage option"

definition decode_function :: "json \<Rightarrow> (ustr option \<times> ustr option) option" where
  "decode_function j =
     (if \<not> is_object j then None
      else case from_field (from_option as_str) None j ''name'' of None \<Rightarrow> None | Some n \<Rightarrow>
        (case from_field (from_option as_str) None j ''arguments'' of None \<Rightarrow> None | Some a \<Rightarrow> Some (n, a)))"

definition decode_delta_call :: "json \<Rightarrow> delta_call option" where
  "decode_delta_call j =
     (if \<not> is_object j then None
      else case from_field as_i64 0 j ''index'' of None \<Rightarrow> None | Some i \<Rightarrow>
        (case from_field (from_option as_str) None j ''id'' of None \<Rightarrow> None | Some d \<Rightarrow>
        (case from_field decode_function (None, None) j ''function'' of None \<Rightarrow> None | Some (n, a) \<Rightarrow>
           Some \<lparr>dl_index = i, dl_id = d, dl_name = n, dl_arguments = a\<rparr>)))"

definition decode_delta :: "json \<Rightarrow> (ustr option \<times> ustr option \<times> delta_call list) option" where
  "decode_delta j =
     (if \<not> is_object j then None
      else case from_field (from_option as_str) None j ''content'' of None \<Rightarrow> None | Some c \<Rightarrow>
        (case from_field (from_option as_str) None j ''reasoning_content'' of None \<Rightarrow> None | Some r \<Rightarrow>
        (case from_field (from_list decode_delta_call) [] j ''tool_calls'' of None \<Rightarrow> None | Some ts \<Rightarrow>
           Some (c, r, ts))))"

definition decode_choice :: "json \<Rightarrow> oa_choice option" where
  "decode_choice j =
     (if \<not> is_object j then None
      else case from_field decode_delta (None, None, []) j ''delta'' of None \<Rightarrow> None | Some (c, r, ts) \<Rightarrow>
        (case from_field (from_option as_str) None j ''finish_reason'' of None \<Rightarrow> None | Some f \<Rightarrow>
           Some \<lparr>ch_content = c, ch_reasoning = r, ch_tool_calls = ts, ch_finish = f\<rparr>))"

definition decode_usage_details :: "json \<Rightarrow> u64 option" where
  "decode_usage_details j =
     (if \<not> is_object j then None
      else case from_field as_u64 0 j ''cached_tokens'' of None \<Rightarrow> None | Some c \<Rightarrow>
        (case from_field as_u64 0 j ''reasoning_tokens'' of None \<Rightarrow> None | Some (_ :: u64) \<Rightarrow> Some c))"

definition decode_usage :: "json \<Rightarrow> oa_usage option" where
  "decode_usage j =
     (if \<not> is_object j then None
      else case from_field as_u64 0 j ''prompt_tokens'' of None \<Rightarrow> None | Some p \<Rightarrow>
        (case from_field as_u64 0 j ''completion_tokens'' of None \<Rightarrow> None | Some c \<Rightarrow>
        (case from_field decode_usage_details 0 j ''prompt_tokens_details'' of None \<Rightarrow> None | Some d \<Rightarrow>
           Some \<lparr>ou_prompt = p, ou_completion = c, ou_cached = d\<rparr>)))"

definition decode_chunk :: "json \<Rightarrow> oa_chunk option" where
  "decode_chunk j =
     (if \<not> is_object j then None
      else case from_field (from_list decode_choice) [] j ''choices'' of None \<Rightarrow> None | Some cs \<Rightarrow>
        (case from_field (from_option decode_usage) None j ''usage'' of None \<Rightarrow> None | Some u \<Rightarrow>
           Some \<lparr>ck_choices = cs, ck_usage = u\<rparr>))"

section \<open>One chunk\<close>

record oa_state =
  oa_tools :: "(int \<times> call_entry) list"
  oa_finish :: "ustr option"
  oa_usage :: "usage option"

definition oa_start :: oa_state where
  "oa_start = \<lparr>oa_tools = [], oa_finish = None, oa_usage = None\<rparr>"

text \<open>One fragment of a call: the entry after it and the events.\<close>

definition fragment_id :: "delta_call \<Rightarrow> call_entry \<Rightarrow> call_entry \<times> stream_event list" where
  "fragment_id tc e =
     (case (dl_id tc, e) of
        (Some i, (old, name, args)) \<Rightarrow>
          if old = [] then
            (case dl_name tc of
               Some n \<Rightarrow> ((i, n, args), [ToolCallStart i n])
             | None \<Rightarrow> ((i, name, args), []))
          else (e, [])
      | (None, _) \<Rightarrow> (e, []))"

definition fragment_name :: "delta_call \<Rightarrow> call_entry \<Rightarrow> call_entry \<times> stream_event list" where
  "fragment_name tc e =
     (case (dl_name tc, e) of
        (Some n, (i, name, args)) \<Rightarrow>
          if \<not> str_contains name n \<and> name = [] then ((i, n, args), if i \<noteq> [] then [ToolCallStart i n] else [])
          else (e, [])
      | (None, _) \<Rightarrow> (e, []))"

definition fragment_args :: "delta_call \<Rightarrow> call_entry \<Rightarrow> call_entry \<times> stream_event list" where
  "fragment_args tc e =
     (case (dl_arguments tc, e) of
        (Some a, (i, name, args)) \<Rightarrow>
          if a \<noteq> [] then ((i, name, args @ a), [ToolCallArgumentDelta i a]) else (e, [])
      | (None, _) \<Rightarrow> (e, []))"

definition fragment :: "delta_call \<Rightarrow> call_entry \<Rightarrow> call_entry \<times> stream_event list" where
  "fragment tc e0 =
     (case fragment_id tc e0 of (e1, v1) \<Rightarrow>
      (case fragment_name tc e1 of (e2, v2) \<Rightarrow>
      (case fragment_args tc e2 of (e3, v3) \<Rightarrow> (e3, v1 @ v2 @ v3))))"

definition call_entry_of :: "int \<Rightarrow> (int \<times> call_entry) list \<Rightarrow> call_entry" where
  "call_entry_of i tools = (case map_of tools i of Some e \<Rightarrow> e | None \<Rightarrow> ([], [], []))"

fun fragments :: "delta_call list \<Rightarrow> (int \<times> call_entry) list \<Rightarrow> (int \<times> call_entry) list \<times> stream_event list" where
  "fragments [] tools = (tools, [])"
| "fragments (tc # tcs) tools =
     (case fragment tc (call_entry_of (dl_index tc) tools) of (e, v) \<Rightarrow>
      (case fragments tcs (AList.update (dl_index tc) e tools) of (tools', vs) \<Rightarrow> (tools', v @ vs)))"

definition finish_calls :: "(int \<times> call_entry) list \<Rightarrow> stream_event list" where
  "finish_calls tools =
     List.map_filter (\<lambda>(idx, i, name, args). if i \<noteq> [] then Some (ToolCallFinish i name args) else None) tools"

text \<open>\<open>order\<close> is the order in which the map of calls drains.\<close>

definition choice_step ::
  "((int \<times> call_entry) list \<Rightarrow> (int \<times> call_entry) list) \<Rightarrow> oa_choice \<Rightarrow> oa_state \<Rightarrow> oa_state \<times> stream_event list" where
  "choice_step order c s =
     (case fragments (ch_tool_calls c) (oa_tools s) of (tools, vs) \<Rightarrow>
        let before = text_events TextDelta (ch_content c) @ text_events ReasoningDelta (ch_reasoning c) @ vs
        in case ch_finish c of
             None \<Rightarrow> (s\<lparr>oa_tools := tools\<rparr>, before)
           | Some reason \<Rightarrow>
               (s\<lparr>oa_tools := [], oa_finish := (if oa_finish s = None then Some reason else oa_finish s)\<rparr>,
                before @ finish_calls (order tools)))"

fun choices_steps ::
  "((int \<times> call_entry) list \<Rightarrow> (int \<times> call_entry) list) \<Rightarrow> oa_choice list \<Rightarrow> oa_state \<Rightarrow> oa_state \<times> stream_event list" where
  "choices_steps order [] s = (s, [])"
| "choices_steps order (c # cs) s =
     (case choice_step order c s of (s1, v) \<Rightarrow> (case choices_steps order cs s1 of (s2, vs) \<Rightarrow> (s2, v @ vs)))"

definition usage_of :: "oa_usage \<Rightarrow> usage" where
  "usage_of u = \<lparr>u_input = ou_prompt u, u_output = ou_completion u, u_cache_read = ou_cached u,
     u_cache_write = 0, u_context = Some (ou_prompt u)\<rparr>"

definition finished :: "oa_state \<Rightarrow> stream_event" where
  "finished s = Finished (case oa_finish s of Some r \<Rightarrow> r | None \<Rightarrow> lit ''stop'') (oa_usage s)"

definition chunk_step ::
  "((int \<times> call_entry) list \<Rightarrow> (int \<times> call_entry) list) \<Rightarrow> oa_chunk \<Rightarrow> oa_state \<Rightarrow> stream_event list \<times> oa_state option" where
  "chunk_step order chunk s0 =
     (let s1 = (case ck_usage chunk of Some u \<Rightarrow> s0\<lparr>oa_usage := Some (usage_of u)\<rparr> | None \<Rightarrow> s0)
      in case choices_steps order (ck_choices chunk) s1 of
           (s2, vs) \<Rightarrow>
             if oa_finish s2 \<noteq> None \<and> oa_usage s2 \<noteq> None then (vs @ [finished s2], None) else (vs, Some s2))"

definition openai_step ::
  "(ustr \<Rightarrow> json option) \<Rightarrow> ((int \<times> call_entry) list \<Rightarrow> (int \<times> call_entry) list) \<Rightarrow> ustr \<Rightarrow> oa_state \<Rightarrow>
     stream_event list \<times> oa_state option" where
  "openai_step from_str order raw s =
     (if sse_done raw then ([finished s], None)
      else case Option.bind (from_str raw) decode_chunk of
             None \<Rightarrow> ([StreamError (lit ''SSE JSON'')], Some s)
           | Some chunk \<Rightarrow> chunk_step order chunk s)"

definition openai_close :: "oa_state \<Rightarrow> stream_event list" where
  "openai_close s = (case oa_finish s of Some r \<Rightarrow> [Finished r (oa_usage s)] | None \<Rightarrow> [])"

definition openai_stream ::
  "(ustr \<Rightarrow> json option) \<Rightarrow> ((int \<times> call_entry) list \<Rightarrow> (int \<times> call_entry) list) \<Rightarrow> bytes option list \<Rightarrow> stream_event list" where
  "openai_stream from_str order chunks = sse_stream (openai_step from_str order) openai_close [] chunks oa_start"

section \<open>A call is assembled from the fragments of its index\<close>

text \<open>
  The reference: the calls of a list of fragments, in the order their indices first appear, each with
  the id and name of its first fragment and all its argument texts joined.
\<close>

definition indices :: "delta_call list \<Rightarrow> int list" where
  "indices fs = rev (remdups (rev (map dl_index fs)))"

definition own :: "int \<Rightarrow> delta_call list \<Rightarrow> delta_call list" where
  "own i fs = filter (\<lambda>f. dl_index f = i) fs"

definition joined_call :: "delta_call list \<Rightarrow> call_entry" where
  "joined_call fs = (some_text (dl_id (hd fs)), some_text (dl_name (hd fs)), concat (map (\<lambda>f. some_text (dl_arguments f)) fs))"

definition joined_calls :: "delta_call list \<Rightarrow> (int \<times> call_entry) list" where
  "joined_calls fs = map (\<lambda>i. (i, joined_call (own i fs))) (indices fs)"

text \<open>What the API documents: the first fragment of a call names it, and ids differ.\<close>

definition well_named :: "delta_call list \<Rightarrow> bool" where
  "well_named fs \<longleftrightarrow> [] \<notin> set (map (\<lambda>c. fst (snd c)) (joined_calls fs)) \<and>
     [] \<notin> set (map (\<lambda>c. fst (snd (snd c))) (joined_calls fs)) \<and>
     distinct (map (\<lambda>c. fst (snd c)) (joined_calls fs))"

lemma remdups_rev_snoc: "rev (remdups (rev (xs @ [x]))) = (if x \<in> set xs then rev (remdups (rev xs)) else rev (remdups (rev xs)) @ [x])"
  by simp

lemma indices_snoc: "indices (fs @ [f]) = (if dl_index f \<in> set (indices fs) then indices fs else indices fs @ [dl_index f])"
  by (simp add: indices_def)

lemma set_indices: "set (indices fs) = dl_index ` set fs"
  by (simp add: indices_def)

lemma distinct_indices: "distinct (indices fs)"
  by (simp add: indices_def)

lemma own_snoc: "own i (fs @ [f]) = (if dl_index f = i then own i fs @ [f] else own i fs)"
  by (simp add: own_def)

lemma own_Nil: "own i fs = [] \<longleftrightarrow> i \<notin> set (indices fs)"
  by (auto simp: own_def set_indices filter_empty_conv)

lemma joined_snoc:
  "fs \<noteq> [] \<Longrightarrow> joined_call (fs @ [f]) =
     (case joined_call fs of (d, n, a) \<Rightarrow> (d, n, a @ some_text (dl_arguments f)))"
  by (simp add: joined_call_def)

lemma joined_calls_new:
  "dl_index f \<notin> set (indices fs) \<Longrightarrow>
   joined_calls (fs @ [f]) = joined_calls fs @ [(dl_index f, joined_call [f])]"
  using own_Nil [of "dl_index f" fs] by (auto simp: joined_calls_def indices_snoc own_snoc)

lemma update_map_keys:
  "distinct xs \<Longrightarrow> k \<in> set xs \<Longrightarrow>
   AList.update k v (map (\<lambda>x. (x, g x)) xs) = map (\<lambda>x. (x, if x = k then v else g x)) xs"
  by (induction xs) auto

lemma joined_calls_old:
  assumes "dl_index f \<in> set (indices fs)"
  shows "joined_calls (fs @ [f]) =
    AList.update (dl_index f) (joined_call (own (dl_index f) fs @ [f])) (joined_calls fs)"
proof -
  have "joined_calls (fs @ [f]) = map (\<lambda>i. (i, if i = dl_index f then joined_call (own (dl_index f) fs @ [f])
      else joined_call (own i fs))) (indices fs)"
    using assms by (auto simp: joined_calls_def indices_snoc own_snoc)
  then show ?thesis
    by (simp add: joined_calls_def update_map_keys [OF distinct_indices assms])
qed

lemma map_of_joined: "map_of (joined_calls fs) i = (if i \<in> set (indices fs) then Some (joined_call (own i fs)) else None)"
  by (simp add: joined_calls_def map_of_map_restrict restrict_map_def)

lemma update_append_new: "k \<notin> fst ` set xs \<Longrightarrow> AList.update k v xs = xs @ [(k, v)]"
  by (induction xs) auto

lemma well_named_prefix: "well_named (fs @ [f]) \<Longrightarrow> well_named fs"
proof (cases "dl_index f \<in> set (indices fs)")
  case False
  then show "well_named (fs @ [f]) \<Longrightarrow> well_named fs" by (simp add: well_named_def joined_calls_new)
next
  case True
  then have "map (\<lambda>c. fst (snd c)) (joined_calls (fs @ [f])) = map (\<lambda>c. fst (snd c)) (joined_calls fs)"
    "map (\<lambda>c. fst (snd (snd c))) (joined_calls (fs @ [f])) = map (\<lambda>c. fst (snd (snd c))) (joined_calls fs)"
    by (auto simp: joined_calls_def indices_snoc own_snoc own_Nil joined_call_def)
  then show "well_named (fs @ [f]) \<Longrightarrow> well_named fs" by (simp only: well_named_def simp_thms)
qed

section \<open>The engine sees the assembled calls\<close>

lemma fragment_new:
  "dl_id f = Some d \<Longrightarrow> dl_name f = Some n \<Longrightarrow> d \<noteq> [] \<Longrightarrow> n \<noteq> [] \<Longrightarrow>
   fragment f ([], [], []) = ((d, n, some_text (dl_arguments f)),
     ToolCallStart d n # (if some_text (dl_arguments f) = [] then [] else [ToolCallArgumentDelta d (some_text (dl_arguments f))]))"
  by (auto simp: fragment_def fragment_id_def fragment_name_def fragment_args_def some_text_def
      split: option.split)

lemma fragment_old:
  "d \<noteq> [] \<Longrightarrow> n \<noteq> [] \<Longrightarrow>
   fragment f (d, n, args) = ((d, n, args @ some_text (dl_arguments f)),
     if some_text (dl_arguments f) = [] then [] else [ToolCallArgumentDelta d (some_text (dl_arguments f))])"
  by (auto simp: fragment_def fragment_id_def fragment_name_def fragment_args_def some_text_def
      split: option.split)

lemma fragments_snoc:
  "fragments (fs @ [f]) tools =
     (case fragments fs tools of (tools1, vs) \<Rightarrow>
      (case fragment f (call_entry_of (dl_index f) tools1) of (e, v) \<Rightarrow>
        (AList.update (dl_index f) e tools1, vs @ v)))"
  by (induction fs arbitrary: tools) (auto split: prod.splits)

lemma fragments_append:
  "fragments (fs @ gs) tools =
     (case fragments fs tools of (tools1, vs) \<Rightarrow>
      (case fragments gs tools1 of (tools2, ws) \<Rightarrow> (tools2, vs @ ws)))"
  by (induction fs arbitrary: tools) (auto split: prod.splits)

lemma some_text_Some: "some_text t \<noteq> [] \<Longrightarrow> t = Some (some_text t)"
  by (simp add: some_text_def split: option.splits)

lemma distinct_joined: "distinct (map fst (joined_calls fs))"
  by (simp add: joined_calls_def comp_def distinct_indices)

lemma fragment_tracks:
  assumes w: "well_named (fs @ [f])" and t: "tracks (joined_calls fs) a"
    and f: "fragment f (call_entry_of (dl_index f) (joined_calls fs)) = (e, v)"
  shows "AList.update (dl_index f) e (joined_calls fs) = joined_calls (fs @ [f]) \<and>
    running v \<and> tracks (joined_calls (fs @ [f])) (feed v a) \<and> same_rest a (feed v a)"
proof (cases "dl_index f \<in> set (indices fs)")
  case False
  let ?c = "joined_call [f]"
  have j: "joined_calls (fs @ [f]) = joined_calls fs @ [(dl_index f, ?c)]"
    by (rule joined_calls_new [OF False])
  have ne: "some_text (dl_id f) \<noteq> []" "some_text (dl_name f) \<noteq> []"
    and fresh: "some_text (dl_id f) \<notin> set (map (\<lambda>c. fst (snd c)) (joined_calls fs))"
    using w by (auto simp: well_named_def j joined_call_def)
  have c: "call_entry_of (dl_index f) (joined_calls fs) = ([], [], [])"
    using False by (simp add: call_entry_of_def map_of_joined)
  have e: "e = ?c" and v: "v = ToolCallStart (some_text (dl_id f)) (some_text (dl_name f)) #
      (if some_text (dl_arguments f) = [] then [] else [ToolCallArgumentDelta (some_text (dl_id f)) (some_text (dl_arguments f))])"
    using f fragment_new [OF some_text_Some some_text_Some, OF ne ne] by (simp_all add: c joined_call_def)
  have u: "AList.update (dl_index f) x (joined_calls fs) = joined_calls fs @ [(dl_index f, x)]" for x
    using False by (intro update_append_new) (simp add: joined_calls_def image_image)
  let ?tools = "joined_calls fs @ [(dl_index f, some_text (dl_id f), some_text (dl_name f), [])]"
  let ?a = "call_start (some_text (dl_id f)) (some_text (dl_name f)) a"
  have s: "tracks ?tools ?a" by (rule feed_start [OF t fresh])
  have d: "distinct (map (\<lambda>c. fst (snd c)) ?tools)"
    using w by (auto simp: well_named_def j joined_call_def)
  have "AList.update (dl_index f) x ?tools = joined_calls fs @ [(dl_index f, x)]" for x
    using False by (intro update_at_end) (simp add: joined_calls_def image_image)
  then have "tracks (joined_calls fs @ [(dl_index f, some_text (dl_id f), some_text (dl_name f), x)]) (call_delta (some_text (dl_id f)) x ?a)" for x
    using feed_delta [OF s _ d, of "dl_index f" "some_text (dl_id f)" "some_text (dl_name f)" "[]" x] False
    by (simp add: map_of_joined map_add_def)
  with s show ?thesis
    unfolding e u j v by (auto simp: joined_call_def)
next
  case True
  obtain d n args where c: "joined_call (own (dl_index f) fs) = (d, n, args)" by (cases "joined_call (own (dl_index f) fs)")
  have m: "map_of (joined_calls fs) (dl_index f) = Some (d, n, args)" using True c by (simp add: map_of_joined)
  have wf: "well_named fs" by (rule well_named_prefix [OF w])
  have "(dl_index f, d, n, args) \<in> set (joined_calls fs)" by (rule map_of_SomeD [OF m])
  then have ne: "d \<noteq> []" "n \<noteq> []" using wf by (auto simp: well_named_def image_iff)
  have e: "e = (d, n, args @ some_text (dl_arguments f))" and v: "v = (if some_text (dl_arguments f) = [] then [] else [ToolCallArgumentDelta d (some_text (dl_arguments f))])"
    using f fragment_old [OF ne] by (simp_all add: call_entry_of_def m)
  have "own (dl_index f) fs \<noteq> []" using True own_Nil by metis
  then have "joined_call (own (dl_index f) fs @ [f]) = e" by (simp add: joined_snoc c e)
  then have j: "joined_calls (fs @ [f]) = AList.update (dl_index f) e (joined_calls fs)"
    using joined_calls_old [OF True] by simp
  have "tracks (joined_calls (fs @ [f])) (call_delta d (some_text (dl_arguments f)) a)"
    unfolding j e using feed_delta [OF t m] wf by (simp add: well_named_def)
  moreover have "tracks (joined_calls (fs @ [f])) a" if "some_text (dl_arguments f) = []"
    using t m that unfolding j e by (simp add: AList.update_triv)
  ultimately show ?thesis
    unfolding v by (simp add: j)
qed

lemma fragments_tracks:
  assumes "well_named (gs @ fs)" "tracks (joined_calls gs) a" "fragments fs (joined_calls gs) = (tools, v)"
  shows "tools = joined_calls (gs @ fs) \<and> running v \<and> tracks (joined_calls (gs @ fs)) (feed v a) \<and> same_rest a (feed v a)"
  using assms
proof (induction fs arbitrary: tools v rule: rev_induct)
  case (snoc f fs)
  obtain tools1 v1 where 1: "fragments fs (joined_calls gs) = (tools1, v1)" by (cases "fragments fs (joined_calls gs)")
  obtain e v2 where 2: "fragment f (call_entry_of (dl_index f) tools1) = (e, v2)" by (cases "fragment f (call_entry_of (dl_index f) tools1)")
  have w: "well_named ((gs @ fs) @ [f])" using snoc.prems(1) by simp
  have ih: "tools1 = joined_calls (gs @ fs) \<and> running v1 \<and> tracks (joined_calls (gs @ fs)) (feed v1 a) \<and> same_rest a (feed v1 a)"
    by (rule snoc.IH [OF well_named_prefix [OF w] snoc.prems(2) 1])
  have "AList.update (dl_index f) e (joined_calls (gs @ fs)) = joined_calls ((gs @ fs) @ [f]) \<and>
    running v2 \<and> tracks (joined_calls ((gs @ fs) @ [f])) (feed v2 (feed v1 a)) \<and> same_rest (feed v1 a) (feed v2 (feed v1 a))"
    using ih 2 by (intro fragment_tracks [OF w]) auto
  moreover have "tools = AList.update (dl_index f) e tools1" "v = v1 @ v2"
    using snoc.prems(3) by (simp_all add: fragments_snoc 1 2)
  ultimately show ?case
    using ih by (auto intro: same_rest_trans)
qed simp

lemma finish_calls_tracks:
  assumes "tracks tools a" "set ts \<subseteq> set tools" "distinct (map (\<lambda>c. fst (snd c)) tools)"
  shows "running (finish_calls ts) \<and> feed (finish_calls ts) a = a"
  using assms(2)
proof (induction ts)
  case (Cons t ts)
  then show ?case
    using call_finish_known [OF assms(1) _ assms(3)]
    by (cases t) (auto simp: finish_calls_def List.map_filter_simps)
qed (simp add: finish_calls_def List.map_filter_simps)

text \<open>What the choices of a response amount to.\<close>

definition texts_of :: "oa_choice list \<Rightarrow> ustr" where
  "texts_of cs = concat (map (\<lambda>c. some_text (ch_content c)) cs)"

definition reasoning_of :: "oa_choice list \<Rightarrow> ustr" where
  "reasoning_of cs = concat (map (\<lambda>c. some_text (ch_reasoning c)) cs)"

definition fragments_of :: "oa_choice list \<Rightarrow> delta_call list" where
  "fragments_of cs = concat (map ch_tool_calls cs)"

lemma choices_of_simps [simp]:
  "texts_of [] = []" "texts_of (c # cs) = some_text (ch_content c) @ texts_of cs" "texts_of (cs @ ds) = texts_of cs @ texts_of ds"
  "reasoning_of [] = []" "reasoning_of (c # cs) = some_text (ch_reasoning c) @ reasoning_of cs"
  "reasoning_of (cs @ ds) = reasoning_of cs @ reasoning_of ds"
  "fragments_of [] = []" "fragments_of (c # cs) = ch_tool_calls c @ fragments_of cs"
  "fragments_of (cs @ ds) = fragments_of cs @ fragments_of ds"
  by (simp_all add: texts_of_def reasoning_of_def fragments_of_def)

text \<open>The engine has seen the choices \<open>cs\<close>.\<close>

definition has_seen :: "oa_choice list \<Rightarrow> turn_acc \<Rightarrow> bool" where
  "has_seen cs a \<longleftrightarrow> tracks (joined_calls (fragments_of cs)) a \<and> a_text a = texts_of cs \<and>
     a_reasoning a = reasoning_of cs \<and> a_error a = None \<and> a_finish a = None"

lemma well_named_take: "well_named (fs @ gs) \<Longrightarrow> well_named fs"
proof (induction gs rule: rev_induct)
  case (snoc g gs)
  then show ?case using well_named_prefix [of "fs @ gs" g] by simp
qed simp

lemma choice_step_seen:
  assumes w: "well_named (fragments_of (cs @ [c]))" and a: "has_seen cs a"
    and t: "oa_tools s = joined_calls (fragments_of cs)" and o: "\<And>t. set (order t) = set t"
    and s: "choice_step order c s = (s', v)"
  shows "running v \<and> has_seen (cs @ [c]) (feed v a)"
proof -
  obtain tools vs where f: "fragments (ch_tool_calls c) (oa_tools s) = (tools, vs)" by (cases "fragments (ch_tool_calls c) (oa_tools s)")
  let ?v = "text_events TextDelta (ch_content c) @ text_events ReasoningDelta (ch_reasoning c)"
  let ?js = "joined_calls (fragments_of (cs @ [c]))"
  have "tracks (joined_calls (fragments_of cs)) (feed ?v a)"
    using a by (simp add: has_seen_def text_events_feed)
  then have k: "tools = ?js \<and> running vs \<and> tracks ?js (feed vs (feed ?v a)) \<and> same_rest (feed ?v a) (feed vs (feed ?v a))"
    using fragments_tracks [of "fragments_of cs" "ch_tool_calls c" "feed ?v a" tools vs] w f t by simp
  then have h: "has_seen (cs @ [c]) (feed (?v @ vs) a)" "running (?v @ vs)"
    using a by (simp_all add: has_seen_def same_rest_def text_events_feed)
  have "distinct (map (\<lambda>c. fst (snd c)) ?js)" using w by (simp add: well_named_def)
  then have "running (finish_calls (order tools)) \<and> feed (finish_calls (order tools)) (feed (?v @ vs) a) = feed (?v @ vs) a"
    using k o [of tools] by (intro finish_calls_tracks [of ?js]) auto
  with h s show ?thesis by (auto simp: choice_step_def f Let_def split: option.splits)
qed

lemma choice_step_state:
  "ch_finish c = None \<Longrightarrow> well_named (fragments_of (cs @ [c])) \<Longrightarrow> oa_tools s = joined_calls (fragments_of cs) \<Longrightarrow>
   choice_step order c s = (s', v) \<Longrightarrow> tracks (joined_calls (fragments_of cs)) a \<Longrightarrow>
   s' = s\<lparr>oa_tools := joined_calls (fragments_of (cs @ [c]))\<rparr>"
  using fragments_tracks [of "fragments_of cs" "ch_tool_calls c" a]
  by (auto simp: choice_step_def Let_def split: prod.splits)

definition open_choice :: "oa_choice \<Rightarrow> bool" where
  "open_choice c \<longleftrightarrow> ch_finish c = None"

lemma choices_steps_seen:
  assumes "list_all open_choice ds" "well_named (fragments_of (cs @ ds))" "has_seen cs a"
    "oa_tools s = joined_calls (fragments_of cs)" "\<And>t. set (order t) = set t" "choices_steps order ds s = (s', v)"
  shows "running v \<and> has_seen (cs @ ds) (feed v a) \<and> s' = s\<lparr>oa_tools := joined_calls (fragments_of (cs @ ds))\<rparr>"
  using assms(1-4,6)
proof (induction ds arbitrary: cs a s s' v)
  case (Cons c ds)
  obtain s1 v1 where 1: "choice_step order c s = (s1, v1)" by (cases "choice_step order c s")
  obtain s2 v2 where 2: "choices_steps order ds s1 = (s2, v2)" by (cases "choices_steps order ds s1")
  have w: "well_named (fragments_of (cs @ [c]))"
    using Cons.prems(2) by - (rule well_named_take [where gs = "fragments_of ds"], simp)
  have seen: "running v1 \<and> has_seen (cs @ [c]) (feed v1 a)"
    by (rule choice_step_seen [OF w Cons.prems(3,4) assms(5) 1])
  have st: "s1 = s\<lparr>oa_tools := joined_calls (fragments_of (cs @ [c]))\<rparr>"
    using Cons.prems(1,3) by (intro choice_step_state [OF _ w Cons.prems(4) 1, of a]) (simp_all add: open_choice_def has_seen_def)
  have "running v2 \<and> has_seen ((cs @ [c]) @ ds) (feed v2 (feed v1 a)) \<and> s2 = s1\<lparr>oa_tools := joined_calls (fragments_of ((cs @ [c]) @ ds))\<rparr>"
    using Cons.prems seen st 2 by (intro Cons.IH) simp_all
  moreover have "s' = s2" "v = v1 @ v2"
    using Cons.prems(5) by (simp_all add: 1 2)
  ultimately show ?case
    using seen st by auto
qed simp

lemma choices_steps_append:
  "choices_steps order (cs @ ds) s =
     (case choices_steps order cs s of (s1, v) \<Rightarrow> (case choices_steps order ds s1 of (s2, w) \<Rightarrow> (s2, v @ w)))"
  by (induction cs arbitrary: s) (auto split: prod.splits)

section \<open>Whole responses\<close>

definition choices_of :: "oa_chunk list \<Rightarrow> oa_choice list" where
  "choices_of cs = concat (map ck_choices cs)"

lemma chunk_choices_simps [simp]:
  "choices_of [] = []" "choices_of (c # cs) = ck_choices c @ choices_of cs" "choices_of (cs @ ds) = choices_of cs @ choices_of ds"
  by (simp_all add: choices_of_def)

text \<open>
  A complete response: chunks whose choices are open, a chunk whose last choice carries the finish
  reason, and chunks without choices (the usage).
\<close>

definition open_chunk :: "oa_chunk \<Rightarrow> bool" where
  "open_chunk c \<longleftrightarrow> list_all open_choice (ck_choices c)"

definition closing_chunk :: "oa_chunk \<Rightarrow> bool" where
  "closing_chunk c \<longleftrightarrow> ck_choices c \<noteq> [] \<and> list_all open_choice (butlast (ck_choices c)) \<and> ch_finish (last (ck_choices c)) \<noteq> None"

definition usage_chunk :: "oa_chunk \<Rightarrow> bool" where
  "usage_chunk c \<longleftrightarrow> ck_choices c = []"

text \<open>The lines \<open>raws\<close> hold the chunks \<open>cs\<close>.\<close>

definition holds_chunks :: "(ustr \<Rightarrow> json option) \<Rightarrow> ustr list \<Rightarrow> oa_chunk list \<Rightarrow> bool" where
  "holds_chunks from_str raws cs \<longleftrightarrow> \<not> list_ex sse_done raws \<and> map (\<lambda>raw. Option.bind (from_str raw) decode_chunk) raws = map Some cs"

lemma holds_chunks_Cons: "holds_chunks from_str raws (c # cs) \<Longrightarrow>
   \<exists>r rs. raws = r # rs \<and> \<not> sse_done r \<and> Option.bind (from_str r) decode_chunk = Some c \<and> holds_chunks from_str rs cs"
  by (cases raws) (auto simp: holds_chunks_def)

lemma holds_chunks_append: "holds_chunks from_str raws (cs @ ds) \<Longrightarrow>
   \<exists>rs ts. raws = rs @ ts \<and> holds_chunks from_str rs cs \<and> holds_chunks from_str ts ds"
proof (induction cs arbitrary: raws)
  case Nil
  then show ?case by (intro exI [of _ "[]"] exI [of _ raws]) (simp add: holds_chunks_def)
next
  case (Cons c cs)
  then obtain r rs where r: "raws = r # rs" "\<not> sse_done r" "Option.bind (from_str r) decode_chunk = Some c" "holds_chunks from_str rs (cs @ ds)"
    using holds_chunks_Cons [of from_str raws c "cs @ ds"] by auto
  with Cons.IH obtain ps qs where "rs = ps @ qs" "holds_chunks from_str ps cs" "holds_chunks from_str qs ds" by blast
  with r show ?case by (intro exI [of _ "r # ps"] exI [of _ qs]) (simp add: holds_chunks_def)
qed

text \<open>The open chunks leave the stream running.\<close>

lemma open_chunks:
  assumes "holds_chunks from_str raws cs" "list_all open_chunk cs" "well_named (fragments_of (ds @ choices_of cs))"
    "has_seen ds a" "oa_tools s = joined_calls (fragments_of ds)" "oa_finish s = None" "\<And>t. set (order t) = set t"
  shows "\<exists>v s'. sse_events (openai_step from_str order) raws s = (v, Some s') \<and> running v \<and>
    has_seen (ds @ choices_of cs) (feed v a) \<and> oa_tools s' = joined_calls (fragments_of (ds @ choices_of cs)) \<and> oa_finish s' = None"
  using assms(1-6)
proof (induction cs arbitrary: raws ds a s)
  case Nil
  then show ?case by (simp add: holds_chunks_def)
next
  case (Cons c cs)
  obtain r rs where r: "raws = r # rs" "\<not> sse_done r" "Option.bind (from_str r) decode_chunk = Some c" "holds_chunks from_str rs cs"
    using holds_chunks_Cons [OF Cons.prems(1)] by auto
  let ?s = "case ck_usage c of Some u \<Rightarrow> s\<lparr>oa_usage := Some (usage_of u)\<rparr> | None \<Rightarrow> s"
  obtain s1 v1 where 1: "choices_steps order (ck_choices c) ?s = (s1, v1)" by (cases "choices_steps order (ck_choices c) ?s")
  have w: "well_named (fragments_of (ds @ ck_choices c))"
    using Cons.prems(3) by - (rule well_named_take [where gs = "fragments_of (choices_of cs)"], simp)
  have seen: "running v1 \<and> has_seen (ds @ ck_choices c) (feed v1 a) \<and> s1 = ?s\<lparr>oa_tools := joined_calls (fragments_of (ds @ ck_choices c))\<rparr>"
    using Cons.prems(2,5) by (intro choices_steps_seen [OF _ w Cons.prems(4) _ assms(7) 1]) (auto simp: open_chunk_def split: option.split)
  then have fin: "oa_finish s1 = None" and tl: "oa_tools s1 = joined_calls (fragments_of (ds @ ck_choices c))"
    using Cons.prems(6) by (auto split: option.split)
  then have step: "openai_step from_str order r s = (v1, Some s1)"
    using r(2,3) by (simp add: openai_step_def chunk_step_def 1)
  obtain v s' where "sse_events (openai_step from_str order) rs s1 = (v, Some s')" "running v"
    "has_seen ((ds @ ck_choices c) @ choices_of cs) (feed v (feed v1 a))"
    "oa_tools s' = joined_calls (fragments_of ((ds @ ck_choices c) @ choices_of cs))" "oa_finish s' = None"
    using Cons.IH [OF r(4) _ _ conjunct1 [OF conjunct2 [OF seen]] tl fin] Cons.prems(2,3) by auto
  with seen step show ?case by (auto simp: r(1))
qed

text \<open>After the finish reason only the usage can come, and then the completion signal.\<close>

lemma usage_chunks:
  assumes "holds_chunks from_str raws cs" "list_all usage_chunk cs" "oa_finish s = Some reason"
  shows "\<exists>v r. sse_events (openai_step from_str order) raws s = (v, r) \<and>
    (case r of None \<Rightarrow> \<exists>u. v = [Finished reason u] | Some s' \<Rightarrow> v = [] \<and> oa_finish s' = Some reason)"
  using assms
proof (induction cs arbitrary: raws s)
  case Nil
  then show ?case by (simp add: holds_chunks_def)
next
  case (Cons c cs)
  obtain r rs where r: "raws = r # rs" "\<not> sse_done r" "Option.bind (from_str r) decode_chunk = Some c" "holds_chunks from_str rs cs"
    using holds_chunks_Cons [OF Cons.prems(1)] by auto
  let ?s = "case ck_usage c of Some u \<Rightarrow> s\<lparr>oa_usage := Some (usage_of u)\<rparr> | None \<Rightarrow> s"
  have f: "oa_finish ?s = Some reason" using Cons.prems(3) by (simp split: option.split)
  have "openai_step from_str order r s = (if oa_usage ?s \<noteq> None then ([finished ?s], None) else ([], Some ?s))"
    using r(2,3) Cons.prems(2) f by (simp add: openai_step_def chunk_step_def usage_chunk_def)
  then show ?case
    using Cons.IH [OF r(4) _ f] Cons.prems(2) f by (auto simp: r(1) finished_def)
qed

lemma closing_step:
  assumes "closing_chunk c" "well_named (fragments_of (ds @ ck_choices c))" "has_seen ds a"
    "oa_tools s = joined_calls (fragments_of ds)" "oa_finish s = None" "\<And>t. set (order t) = set t"
  shows "\<exists>v s'. choices_steps order (ck_choices c) s = (s', v) \<and> running v \<and> has_seen (ds @ ck_choices c) (feed v a) \<and> oa_finish s' \<noteq> None"
proof -
  obtain es e where c: "ck_choices c = es @ [e]" "list_all open_choice es" "ch_finish e \<noteq> None"
    using assms(1) by (metis append_butlast_last_id closing_chunk_def)
  obtain s1 v1 where 1: "choices_steps order es s = (s1, v1)" by (cases "choices_steps order es s")
  obtain s2 v2 where 2: "choice_step order e s1 = (s2, v2)" by (cases "choice_step order e s1")
  have w: "well_named (fragments_of (ds @ es))" and w2: "well_named (fragments_of ((ds @ es) @ [e]))"
    using assms(2) c by (auto intro: well_named_take [where gs = "ch_tool_calls e"])
  have seen: "running v1 \<and> has_seen (ds @ es) (feed v1 a) \<and> s1 = s\<lparr>oa_tools := joined_calls (fragments_of (ds @ es))\<rparr>"
    by (rule choices_steps_seen [OF c(2) w assms(3,4,6) 1])
  have "running v2 \<and> has_seen ((ds @ es) @ [e]) (feed v2 (feed v1 a))"
    using seen by (intro choice_step_seen [OF w2 _ _ assms(6) 2]) simp_all
  moreover have "oa_finish s2 \<noteq> None"
    using 2 c(3) seen assms(5) by (auto simp: choice_step_def Let_def split: prod.splits option.splits)
  moreover have "choices_steps order (ck_choices c) s = (s2, v1 @ v2)"
    by (simp add: c(1) choices_steps_append 1 2)
  ultimately show ?thesis
    using seen c(1) by auto
qed

lemma sse_finish:
  assumes "rest = [] \<or> sse_done (hd rest)" "oa_finish s = Some reason"
  shows "\<exists>u. (case sse_events (openai_step from_str order) rest s of (es, None) \<Rightarrow> es | (es, Some s') \<Rightarrow> es @ openai_close s')
    = [Finished reason u]"
  using assms by (cases rest) (auto simp: openai_step_def openai_close_def finished_def)

lemma openai_whole:
  assumes "holds_chunks from_str raws (body @ fin # usages)"
    "list_all open_chunk body" "closing_chunk fin" "list_all usage_chunk usages" "rest = [] \<or> sse_done (hd rest)"
    "well_named (fragments_of (choices_of (body @ [fin])))" "\<And>t. set (order t) = set t"
  shows "\<exists>v reason u. running v \<and> has_seen (choices_of (body @ [fin])) (feed v acc_new) \<and>
    (case sse_events (openai_step from_str order) (raws @ rest) oa_start of
       (es, None) \<Rightarrow> es | (es, Some s') \<Rightarrow> es @ openai_close s') = v @ [Finished reason u]"
proof -
  obtain rs r ts where raws: "raws = rs @ r # ts" and rs: "holds_chunks from_str rs body"
    and r: "\<not> sse_done r" "Option.bind (from_str r) decode_chunk = Some fin" and ts: "holds_chunks from_str ts usages"
    using holds_chunks_append [OF assms(1)] holds_chunks_Cons by metis
  have j: "joined_calls [] = []" by (simp add: joined_calls_def indices_def)
  have "has_seen [] acc_new" "oa_tools oa_start = joined_calls (fragments_of [])" "oa_finish oa_start = None"
    by (simp_all add: has_seen_def j tracks_def acc_new_def oa_start_def)
  moreover have "well_named (fragments_of ([] @ choices_of body))"
    using assms(6) by - (rule well_named_take [where gs = "fragments_of (ck_choices fin)"], simp)
  ultimately obtain v1 s1 where 1: "sse_events (openai_step from_str order) rs oa_start = (v1, Some s1)" "running v1"
    "has_seen (choices_of body) (feed v1 acc_new)" "oa_tools s1 = joined_calls (fragments_of (choices_of body))" "oa_finish s1 = None"
    using open_chunks [OF rs assms(2) _ _ _ _ assms(7), of "[]" acc_new oa_start] by auto
  let ?s = "case ck_usage fin of Some u \<Rightarrow> s1\<lparr>oa_usage := Some (usage_of u)\<rparr> | None \<Rightarrow> s1"
  have q: "oa_tools ?s = oa_tools s1" "oa_finish ?s = None" using 1(5) by (simp_all split: option.split)
  obtain v2 s2 reason where 2: "choices_steps order (ck_choices fin) ?s = (s2, v2)" "running v2"
    "has_seen (choices_of body @ ck_choices fin) (feed v2 (feed v1 acc_new))" "oa_finish s2 = Some reason"
    using closing_step [OF assms(3) _ 1(3) _ q(2) assms(7)] assms(6) 1(4) q(1) by auto
  have step: "openai_step from_str order r s1 = (if oa_usage s2 \<noteq> None then (v2 @ [finished s2], None) else (v2, Some s2))"
    using r 2(4) by (simp add: openai_step_def chunk_step_def 2(1))
  obtain v3 x where 3: "sse_events (openai_step from_str order) ts s2 = (v3, x)"
    "case x of None \<Rightarrow> \<exists>u. v3 = [Finished reason u] | Some s' \<Rightarrow> v3 = [] \<and> oa_finish s' = Some reason"
    using usage_chunks [OF ts assms(4) 2(4)] by blast
  have tail: "\<exists>u. (case sse_events (openai_step from_str order) (ts @ rest) s2 of
      (es, None) \<Rightarrow> es | (es, Some s') \<Rightarrow> es @ openai_close s') = [Finished reason u]"
    using 3 sse_finish [OF assms(5)] by (fastforce simp: sse_events_append split: option.splits prod.splits)
  have e: "sse_events (openai_step from_str order) (raws @ rest) oa_start =
      (case (if oa_usage s2 \<noteq> None then (v2 @ [finished s2], None)
             else (case sse_events (openai_step from_str order) (ts @ rest) s2 of (es, x) \<Rightarrow> (v2 @ es, x)))
       of (es, x) \<Rightarrow> (v1 @ es, x))"
    using 1(1) step by (simp add: raws sse_events_append split: prod.splits option.splits)
  have "\<exists>u. (case sse_events (openai_step from_str order) (raws @ rest) oa_start of
       (es, None) \<Rightarrow> es | (es, Some s') \<Rightarrow> es @ openai_close s') = (v1 @ v2) @ [Finished reason u]"
    using tail 2(4) by (auto simp: e finished_def split: prod.splits option.splits)
  then show ?thesis
    using 1(2) 2(2,3) by (metis chunk_choices_simps append_Nil2 feed_simps(3) running_simps(3))
qed

text \<open>
  C26 (functional). A complete response of the chat completions API becomes the turn it describes,
  however the network cuts its bytes: for every framed body whose events are open chunks, a closing
  chunk and the usage, the turn of the engine has no error, the text and the reasoning of all
  choices, and exactly one tool call per call index, in the order the indices first appear, with the
  id and the name of the index's first fragment and its argument fragments joined in order, however
  the fragments of parallel calls are interleaved and in whatever order the adapter's map drains.
  When that text carries leaked call markup, what the repair makes of it is taken instead: the text
  of the turn is the cleaned text and the recovered calls follow the calls of the stream.
\<close>

theorem openai_turn:
  assumes "framed (concat chunks)" "fst (drain_lines (concat chunks)) = raws @ rest"
    "holds_chunks from_str raws (body @ fin # usages)"
    "list_all open_chunk body" "closing_chunk fin" "list_all usage_chunk usages" "rest = [] \<or> sse_done (hd rest)"
    "well_named (fragments_of (choices_of (body @ [fin])))" "\<And>t. set (order t) = set t"
    "turn = fst (run_turn heal (Inr (map Next (openai_stream from_str order (map Some chunks)))))"
  shows "(t_error turn, t_text turn, t_reasoning turn, t_tool_calls turn) =
    (case heal (texts_of (choices_of (body @ [fin]))) of
       None \<Rightarrow> (None, texts_of (choices_of (body @ [fin])), reasoning_of (choices_of (body @ [fin])),
         map (\<lambda>c. entry_call (snd c)) (joined_calls (fragments_of (choices_of (body @ [fin])))))
     | Some (cleaned, healed) \<Rightarrow> (None, cleaned, reasoning_of (choices_of (body @ [fin])),
         map (\<lambda>c. entry_call (snd c)) (joined_calls (fragments_of (choices_of (body @ [fin])))) @ healed))"
proof -
  let ?cs = "choices_of (body @ [fin])"
  obtain v reason u where v: "running v" "has_seen ?cs (feed v acc_new)"
    "(case sse_events (openai_step from_str order) (raws @ rest) oa_start of
       (es, None) \<Rightarrow> es | (es, Some s') \<Rightarrow> es @ openai_close s') = v @ [Finished reason u]"
    using openai_whole [OF assms(3-9)] by blast
  have d: "drain_lines [] = ([], [])" by (simp add: drain_none)
  have "openai_stream from_str order (map Some chunks) = v @ [Finished reason u]"
    using sse_stream_whole [OF d, of chunks "openai_step from_str order" openai_close oa_start] assms(1,2) v(3)
    by (simp add: openai_stream_def)
  moreover have "turn_loop (map Next (v @ [Finished reason u])) acc_new = (feed v acc_new)\<lparr>a_finish := Some reason, a_usage := u\<rparr>"
    by (simp only: turn_loop_feed [OF v(1)]) simp
  moreover have "pending_calls (feed v acc_new) = map (\<lambda>c. entry_call (snd c)) (joined_calls (fragments_of ?cs))"
    using v(2) assms(8) by (intro pending_tracks) (simp_all add: has_seen_def well_named_def)
  moreover have "pending_calls (a\<lparr>a_finish := r, a_usage := w\<rparr>) = pending_calls a" for a r w
    by (simp add: pending_calls_def)
  ultimately show ?thesis
    using v(2) assms(10) by (simp add: run_turn_def Let_def has_seen_def split: option.split prod.split)
qed

text \<open>Two calls of which the second is streamed between the parts of the first.\<close>

definition sample_json :: "ustr \<Rightarrow> json option" where
  "sample_json raw =
     (let call = (\<lambda>i more args. JObj ([(lit ''index'', JInt i)] @ more @ [(lit ''function'', JObj args)]));
          chunk = (\<lambda>calls more. JObj [(lit ''choices'', JArr [JObj ([(lit ''delta'', JObj [(lit ''content'', JStr (lit ''h'')), (lit ''tool_calls'', JArr calls)])] @ more)])])
      in if raw = lit ''a'' then
           Some (chunk [call 0 [(lit ''id'', JStr (lit ''c0''))] [(lit ''name'', JStr (lit ''f'')), (lit ''arguments'', JStr (lit ''{''))],
                        call 1 [(lit ''id'', JStr (lit ''c1''))] [(lit ''name'', JStr (lit ''g''))]] [])
         else if raw = lit ''b'' then Some (chunk [call 0 [] [(lit ''arguments'', JStr (lit ''}''))]] [(lit ''finish_reason'', JStr (lit ''tool_calls''))])
         else None)"

definition sample_first :: oa_chunk where
  "sample_first = \<lparr>ck_choices = [\<lparr>ch_content = Some (lit ''h''), ch_reasoning = None, ch_tool_calls =
      [\<lparr>dl_index = 0, dl_id = Some (lit ''c0''), dl_name = Some (lit ''f''), dl_arguments = Some (lit ''{'')\<rparr>,
       \<lparr>dl_index = 1, dl_id = Some (lit ''c1''), dl_name = Some (lit ''g''), dl_arguments = None\<rparr>], ch_finish = None\<rparr>],
    ck_usage = None\<rparr>"

definition sample_last :: oa_chunk where
  "sample_last = \<lparr>ck_choices = [\<lparr>ch_content = Some (lit ''h''), ch_reasoning = None, ch_tool_calls =
      [\<lparr>dl_index = 0, dl_id = None, dl_name = None, dl_arguments = Some (lit ''}'')\<rparr>],
      ch_finish = Some (lit ''tool_calls'')\<rparr>], ck_usage = None\<rparr>"

definition sample_bytes :: "bytes list" where
  "sample_bytes = [lit ''data:'', lit ''a'' @ [10] @ lit ''data:b'' @ [10, 10]]"

lemma sample_chunks: "holds_chunks sample_json [lit ''a''] [sample_first]" "holds_chunks sample_json [lit ''b''] [sample_last]"
  by (simp_all add: holds_chunks_def sse_done_def sample_json_def sample_first_def sample_last_def decode_chunk_def from_field_def
      from_list_def decode_choice_def decode_delta_def decode_delta_call_def decode_function_def from_option_def)

lemma sample_lines: "fst (drain_lines (concat sample_bytes)) = [lit ''a'', lit ''b'']"
  by code_simp

theorem openai_turn_witness:
  "(let turn = fst (run_turn (\<lambda>_. None) (Inr (map Next (openai_stream sample_json rev (map Some sample_bytes)))))
    in (t_error turn, t_text turn, t_reasoning turn, t_tool_calls turn)) =
   (None, lit ''hh'', [],
    [\<lparr>tc_id = lit ''c0'', tc_kind = lit ''function'', tc_name = lit ''f'', tc_arguments = lit ''{}''\<rparr>,
     \<lparr>tc_id = lit ''c1'', tc_kind = lit ''function'', tc_name = lit ''g'', tc_arguments = []\<rparr>])"
proof -
  let ?cs = "choices_of ([sample_first] @ [sample_last])"
  have j: "joined_calls (fragments_of ?cs) =
      [(0, lit ''c0'', lit ''f'', lit ''{}''), (1, lit ''c1'', lit ''g'', [])]"
    by (simp add: joined_calls_def indices_def own_def joined_call_def some_text_def sample_first_def sample_last_def flip: lit_append)
  have c: "holds_chunks sample_json [lit ''a'', lit ''b''] ([sample_first] @ sample_last # [])"
    using sample_chunks by (simp add: holds_chunks_def)
  have f: "framed (concat sample_bytes)"
    by (rule framed_short) (simp add: sample_bytes_def MAX_SSE_BUFFER_BYTES_def)
  have w: "well_named (fragments_of ?cs)"
    unfolding well_named_def j by (simp add: lit_def)
  have o: "list_all open_chunk [sample_first]" "closing_chunk sample_last" "list_all usage_chunk []"
    by (simp_all add: open_chunk_def closing_chunk_def open_choice_def sample_first_def sample_last_def)
  have t: "texts_of ?cs = lit ''hh''" "reasoning_of ?cs = []"
    by (simp_all add: sample_first_def sample_last_def some_text_def flip: lit_append)
  show ?thesis
    using openai_turn [OF f _ c o _ w _ refl, of "[]" rev "\<lambda>_. None"] unfolding t j Let_def
    by (simp add: sample_lines entry_call_def)
qed

end
