(* ===== verification/Provider_Request.thy ===== *)
theory Provider_Request
  imports History "HOL-Library.Multiset"
begin

text \<open>
  What the adapters send: the request every adapter takes (\<open>ProviderRequest\<close> of \<open>providers/src/lib.rs\<close>),
  the body for chat completions (\<open>openai.rs\<close>), and the translation of the shared history into turns of
  typed blocks that Anthropic and Gemini share (\<open>build\_messages\<close> of \<open>anthropic.rs\<close>, \<open>build\_contents\<close> of
  \<open>gemini.rs\<close>). The JSON library is a parameter. A float is kept as the text of its literal.
\<close>

section \<open>Requests\<close>

datatype reasoning_control = R_Off | R_Auto | R_Low | R_Medium | R_High | R_Xhigh | R_Custom u32

record tool_spec =
  ts_name :: ustr
  ts_description :: ustr
  ts_parameters :: json

record provider_request =
  rq_model :: ustr
  rq_messages :: "message list"
  rq_system :: "ustr option"
  rq_tools :: "tool_spec list"
  rq_temperature :: "ustr option"
  rq_top_p :: "ustr option"
  rq_max_tokens :: "u32 option"
  rq_reasoning :: "reasoning_control option"
  rq_session_id :: "ustr option"
  rq_context_window :: "u32 option"
  rq_keep_alive :: "ustr option"

section \<open>Chat completions\<close>

record oa_message =
  om_role :: ustr
  om_content :: "ustr option"
  om_tool_calls :: "tool_call list option"
  om_tool_call_id :: "ustr option"
  om_name :: "ustr option"

record oa_request =
  or_model :: ustr
  or_messages :: "oa_message list"
  or_tools :: "tool_spec list option"
  or_stream :: bool
  or_include_usage :: bool
  or_temperature :: "ustr option"
  or_top_p :: "ustr option"
  or_max_tokens :: "u32 option"
  or_reasoning_effort :: "ustr option"

definition none_if_empty :: "'a list \<Rightarrow> 'a list option" where
  "none_if_empty xs = (if xs = [] then None else Some xs)"

definition oa_message_of :: "message \<Rightarrow> oa_message" where
  "oa_message_of m = \<lparr>om_role = m_role m, om_content = none_if_empty (m_content m),
     om_tool_calls = none_if_empty (m_tool_calls m), om_tool_call_id = m_tool_call_id m, om_name = m_name m\<rparr>"

definition system_message :: "ustr \<Rightarrow> oa_message" where
  "system_message s = \<lparr>om_role = lit ''system'', om_content = Some s, om_tool_calls = None,
     om_tool_call_id = None, om_name = None\<rparr>"

definition oa_build_messages :: "provider_request \<Rightarrow> oa_message list" where
  "oa_build_messages req =
     (case rq_system req of Some s \<Rightarrow> if s \<noteq> [] then [system_message s] else [] | None \<Rightarrow> []) @
     map (\<lambda>i. oa_message_of (rq_messages req ! i)) (resolved_history_indices (rq_messages req))"

definition oa_effort :: "reasoning_control option \<Rightarrow> ustr option" where
  "oa_effort r =
     (case r of
        Some R_Low \<Rightarrow> Some (lit ''low'')
      | Some R_Medium \<Rightarrow> Some (lit ''medium'')
      | Some R_High \<Rightarrow> Some (lit ''high'')
      | Some R_Xhigh \<Rightarrow> Some (lit ''xhigh'')
      | _ \<Rightarrow> None)"

definition oa_body :: "provider_request \<Rightarrow> oa_request" where
  "oa_body req =
     \<lparr>or_model = rq_model req, or_messages = oa_build_messages req, or_tools = none_if_empty (rq_tools req),
      or_stream = True, or_include_usage = True, or_temperature = rq_temperature req, or_top_p = rq_top_p req,
      or_max_tokens = rq_max_tokens req, or_reasoning_effort = oa_effort (rq_reasoning req)\<rparr>"

text \<open>
  The key gate and the address: an error, or the URL and the bearer token. \<open>local\<close> is the test of
  \<open>discovery.rs\<close>.
\<close>

definition missing_key_message :: "ustr \<Rightarrow> ustr" where
  "missing_key_message base_url =
     (if trim base_url = [] then lit ''provider has no base URL: set one in Settings''
      else lit ''provider at '' @ base_url @ lit '' requires an API key'')"

definition oa_target :: "(ustr \<Rightarrow> bool) \<Rightarrow> ustr \<Rightarrow> ustr option \<Rightarrow> string \<Rightarrow> ustr + ustr \<times> ustr option" where
  "oa_target local base_url api_key path =
     (let base = trim_end_matches (\<lambda>c. c = ch (CHR ''/'')) base_url
      in if \<not> local base \<and> api_key = None then Inl (missing_key_message base)
         else Inr (base @ lit path, case api_key of Some k \<Rightarrow> none_if_empty k | None \<Rightarrow> None))"

text \<open>The vectors of an embeddings answer, each with its \<open>index\<close>, in input order.\<close>

definition parse_embeddings :: "(nat \<times> 'v) list \<Rightarrow> nat \<Rightarrow> ustr + 'v list" where
  "parse_embeddings entries expected =
     (if length entries \<noteq> expected then Inl (lit ''embeddings endpoint returned the wrong count'')
      else Inr (map snd (sort_key fst entries)))"

text \<open>A gateway may answer a batch in any order: the vectors come back in the order of the inputs.\<close>

lemma embeddings_in_order:
  assumes "mset entries = mset (zip [0..<length vs] vs)"
  shows "parse_embeddings entries (length vs) = Inr vs"
proof -
  let ?z = "zip [0..<length vs] vs"
  have n: "length entries = length vs" using mset_eq_length [OF assms] by simp
  have m: "map fst ?z = [0..<length vs]" by simp
  then have inj: "inj_on fst (set ?z)" by (metis distinct_map distinct_upt)
  have "filter (\<lambda>x. fst k = fst x) ?z = filter (\<lambda>x. fst k = fst x) entries" if "k \<in> set ?z" for k
  proof -
    have e: "set entries = set ?z" using assms by (rule mset_eq_setD)
    have key: "fst k = fst x \<longleftrightarrow> k = x" if "x \<in> set ?z" for x
      using inj \<open>k \<in> set ?z\<close> that by (metis inj_onD)
    have "filter (\<lambda>x. fst k = fst x) ?z = filter ((=) k) ?z" "filter (\<lambda>x. fst k = fst x) entries = filter ((=) k) entries"
      by (rule filter_cong [OF refl], erule key) (rule filter_cong [OF refl], simp only: e key)
    then show ?thesis
      using assms by (metis replicate_count_mset_eq_filter_eq)
  qed
  then have "sort_key fst entries = ?z"
    using assms m by (intro properties_for_sort_key) simp_all
  then show ?thesis by (simp add: parse_embeddings_def n)
qed

section \<open>Turns of typed blocks\<close>

datatype 'b wire_turn = From_User "'b list" | From_Model "'b list"

fun turn_blocks :: "'b wire_turn \<Rightarrow> 'b list" where
  "turn_blocks (From_User bs) = bs"
| "turn_blocks (From_Model bs) = bs"

fun is_model :: "'b wire_turn \<Rightarrow> bool" where
  "is_model (From_User bs) = False"
| "is_model (From_Model bs) = True"

record 'b wire_state =
  ws_turns :: "'b wire_turn list"
  ws_system :: "ustr list"
  ws_awaited :: "ustr list"

text \<open>
  How an adapter spells the blocks, and the key that matches a result to its call: the call's id for
  Anthropic, the function's name for Gemini.
\<close>

record 'b spelling =
  sp_text :: "ustr \<Rightarrow> 'b"
  sp_call :: "tool_call \<Rightarrow> 'b"
  sp_result :: "message \<Rightarrow> ustr \<Rightarrow> 'b"
  sp_is_result :: "'b \<Rightarrow> bool"
  sp_key :: "message \<Rightarrow> ustr option"
  sp_call_key :: "tool_call \<Rightarrow> ustr"

definition all_results :: "'b spelling \<Rightarrow> 'b list \<Rightarrow> bool" where
  "all_results sp bs \<longleftrightarrow> bs \<noteq> [] \<and> list_all (sp_is_result sp) bs"

definition push_result :: "'b spelling \<Rightarrow> 'b \<Rightarrow> 'b wire_turn list \<Rightarrow> 'b wire_turn list" where
  "push_result sp b out =
     (if out = [] then [From_User [b]]
      else case last out of
             From_User bs \<Rightarrow> if all_results sp bs then butlast out @ [From_User (bs @ [b])] else out @ [From_User [b]]
           | From_Model _ \<Rightarrow> out @ [From_User [b]])"

definition model_blocks :: "'b spelling \<Rightarrow> message \<Rightarrow> 'b list" where
  "model_blocks sp m =
     (if m_content m \<noteq> [] then [sp_text sp (m_content m)] else []) @ map (sp_call sp) (m_tool_calls m)"

definition wire_step :: "'b spelling \<Rightarrow> message \<Rightarrow> 'b wire_state \<Rightarrow> 'b wire_state" where
  "wire_step sp m s =
     (if is_role m ''system'' then
        (if trim (m_content m) \<noteq> [] then s\<lparr>ws_system := ws_system s @ [m_content m]\<rparr> else s)
      else if is_role m ''tool'' then
        (case sp_key sp m of
           None \<Rightarrow> s
         | Some k \<Rightarrow> if k \<notin> set (ws_awaited s) then s
                     else s\<lparr>ws_turns := push_result sp (sp_result sp m k) (ws_turns s)\<rparr>)
      else if is_role m ''assistant'' then
        (let blocks = model_blocks sp m
         in if blocks = [] then s
            else s\<lparr>ws_awaited := map (sp_call_key sp) (m_tool_calls m), ws_turns := ws_turns s @ [From_Model blocks]\<rparr>)
      else
        (let s = s\<lparr>ws_awaited := []\<rparr>
         in if m_content m = [] then s else s\<lparr>ws_turns := ws_turns s @ [From_User [sp_text sp (m_content m)]]\<rparr>))"

definition wire_start :: "ustr option \<Rightarrow> 'b wire_state" where
  "wire_start system =
     \<lparr>ws_turns = [], ws_system = (case system of Some s \<Rightarrow> if trim s \<noteq> [] then [s] else [] | None \<Rightarrow> []), ws_awaited = []\<rparr>"

definition wire_turns :: "'b spelling \<Rightarrow> ustr option \<Rightarrow> message list \<Rightarrow> 'b wire_state" where
  "wire_turns sp system ms = foldl (\<lambda>s m. wire_step sp m s) (wire_start system) ms"

definition wire_system :: "'b wire_state \<Rightarrow> ustr option" where
  "wire_system s = (if ws_system s = [] then None else Some (str_join [10, 10] (ws_system s)))"

section \<open>Every result answers the turn before it\<close>

text \<open>
  \<open>asks\<close> is the key of a call block and \<open>responds\<close> the key of a result block. In a turn list that the
  APIs accept a result stands in a user turn, directly after the model turn that asked for it.
\<close>

definition turn_keys :: "('b \<Rightarrow> ustr option) \<Rightarrow> 'b wire_turn \<Rightarrow> ustr list" where
  "turn_keys asks t = (if is_model t then List.map_filter asks (turn_blocks t) else [])"

definition responds_to :: "('b \<Rightarrow> ustr option) \<Rightarrow> ustr list \<Rightarrow> 'b wire_turn \<Rightarrow> bool" where
  "responds_to responds ks t \<longleftrightarrow>
     list_all (\<lambda>b. responds b = None \<or> (\<not> is_model t \<and> responds b \<in> Some ` set ks)) (turn_blocks t)"

fun answered_from :: "('b \<Rightarrow> ustr option) \<Rightarrow> ('b \<Rightarrow> ustr option) \<Rightarrow> ustr list \<Rightarrow> 'b wire_turn list \<Rightarrow> bool" where
  "answered_from asks responds ks [] = True"
| "answered_from asks responds ks (t # ts) \<longleftrightarrow>
     responds_to responds ks t \<and> answered_from asks responds (turn_keys asks t) ts"

definition answered_turns :: "('b \<Rightarrow> ustr option) \<Rightarrow> ('b \<Rightarrow> ustr option) \<Rightarrow> 'b wire_turn list \<Rightarrow> bool" where
  "answered_turns asks responds ts = answered_from asks responds [] ts"

definition keys_after :: "('b \<Rightarrow> ustr option) \<Rightarrow> 'b wire_turn list \<Rightarrow> ustr list" where
  "keys_after asks ts = (if ts = [] then [] else turn_keys asks (last ts))"

lemma answered_from_snoc:
  "answered_from asks responds ks (ts @ [t]) \<longleftrightarrow>
     answered_from asks responds ks ts \<and> responds_to responds (if ts = [] then ks else turn_keys asks (last ts)) t"
  by (induction ts arbitrary: ks) auto

lemma answered_snoc:
  "answered_turns asks responds (ts @ [t]) \<longleftrightarrow> answered_turns asks responds ts \<and> responds_to responds (keys_after asks ts) t"
  by (simp add: answered_turns_def answered_from_snoc keys_after_def)

lemma keys_after_snoc [simp]: "keys_after asks (ts @ [t]) = turn_keys asks t"
  by (simp add: keys_after_def)

lemma push_result_Nil: "push_result sp b [] = [From_User [b]]"
  by (simp add: push_result_def)

lemma push_result_snoc:
  "push_result sp b (ts @ [t]) =
     (case t of
        From_User bs \<Rightarrow> if all_results sp bs then ts @ [From_User (bs @ [b])] else ts @ [t, From_User [b]]
      | From_Model _ \<Rightarrow> ts @ [t, From_User [b]])"
  by (simp add: push_result_def split: wire_turn.split)

lemma answered_snoc2:
  "answered_turns asks responds (ts @ [t, u]) \<longleftrightarrow>
     answered_turns asks responds ts \<and> responds_to responds (keys_after asks ts) t \<and> responds_to responds (turn_keys asks t) u"
  using answered_snoc [of asks responds "ts @ [t]" u] by (simp add: answered_snoc)

text \<open>What the blocks of an adapter promise to the shared loop.\<close>

locale wire_spelling =
  fixes sp :: "'b spelling" and asks :: "'b \<Rightarrow> ustr option" and responds :: "'b \<Rightarrow> ustr option"
  assumes asks_call: "asks (sp_call sp c) = Some (sp_call_key sp c)"
    and asks_text: "asks (sp_text sp t) = None"
    and responds_result: "responds (sp_result sp m k) = Some k"
    and responds_text: "responds (sp_text sp t) = None"
    and responds_call: "responds (sp_call sp c) = None"
    and is_result_iff: "sp_is_result sp b \<longleftrightarrow> responds b \<noteq> None"
begin

text \<open>The calls a result may still answer.\<close>

definition open_for :: "'b wire_turn list \<Rightarrow> ustr list" where
  "open_for ts =
     (if ts = [] then [] else
      case last ts of
        From_Model bs \<Rightarrow> List.map_filter asks bs
      | From_User bs \<Rightarrow> if all_results sp bs then keys_after asks (butlast ts) else [])"

text \<open>A user turn is the user's words or results, never both.\<close>

definition pure_turn :: "'b wire_turn \<Rightarrow> bool" where
  "pure_turn t \<longleftrightarrow> is_model t \<or> all_results sp (turn_blocks t) \<or> list_all (\<lambda>b. responds b = None) (turn_blocks t)"

definition wire_ok :: "'b wire_state \<Rightarrow> bool" where
  "wire_ok s \<longleftrightarrow> answered_turns asks responds (ws_turns s) \<and> set (ws_awaited s) \<subseteq> set (open_for (ws_turns s)) \<and>
     list_all (\<lambda>t. turn_blocks t \<noteq> []) (ws_turns s) \<and> list_all pure_turn (ws_turns s)"

lemma keys_model: "List.map_filter asks (model_blocks sp m) = map (sp_call_key sp) (m_tool_calls m)"
proof -
  have "List.map_filter asks (map (sp_call sp) cs) = map (sp_call_key sp) cs" for cs
    by (induction cs) (simp_all add: List.map_filter_simps asks_call)
  then show ?thesis by (simp add: model_blocks_def List.map_filter_simps asks_text)
qed

lemma responds_model: "responds_to responds ks (From_Model (model_blocks sp m))"
  by (auto simp: responds_to_def model_blocks_def list_all_iff responds_text responds_call)

lemma push_result_ok:
  assumes ok: "answered_turns asks responds ts" and k: "k \<in> set (open_for ts)"
  shows "answered_turns asks responds (push_result sp (sp_result sp m k) ts)"
    and "open_for (push_result sp (sp_result sp m k) ts) = open_for ts"
proof -
  have ne: "ts \<noteq> []" using k by (auto simp: open_for_def)
  then obtain us t where ts: "ts = us @ [t]" by (metis append_butlast_last_id)
  have r: "all_results sp [sp_result sp m k]" by (simp add: all_results_def is_result_iff responds_result)
  show "answered_turns asks responds (push_result sp (sp_result sp m k) ts)"
    using ok k r unfolding ts
    by (cases t)
       (auto simp: push_result_snoc answered_snoc answered_snoc2 open_for_def responds_to_def turn_keys_def responds_result
         split: if_splits)
  show "open_for (push_result sp (sp_result sp m k) ts) = open_for ts"
    using k r unfolding ts
    by (cases t)
       (auto simp: push_result_snoc open_for_def all_results_def turn_keys_def butlast_append keys_after_def
         split: if_splits)
qed

lemma push_result_nonempty:
  "list_all (\<lambda>t. turn_blocks t \<noteq> []) ts \<Longrightarrow> list_all (\<lambda>t. turn_blocks t \<noteq> []) (push_result sp b ts)"
  by (cases ts rule: rev_cases) (auto simp: push_result_snoc push_result_Nil split: wire_turn.split)

lemma push_result_pure:
  "list_all pure_turn ts \<Longrightarrow> responds b \<noteq> None \<Longrightarrow> list_all pure_turn (push_result sp b ts)"
  by (cases ts rule: rev_cases)
     (auto simp: push_result_snoc push_result_Nil pure_turn_def all_results_def is_result_iff split: wire_turn.split)

lemma wire_step_ok:
  assumes "wire_ok s"
  shows "wire_ok (wire_step sp m s)"
proof -
  consider (system) "is_role m ''system''" | (tool) "\<not> is_role m ''system''" "is_role m ''tool''"
    | (model) "\<not> is_role m ''system''" "\<not> is_role m ''tool''" "is_role m ''assistant''"
    | (user) "\<not> is_role m ''system''" "\<not> is_role m ''tool''" "\<not> is_role m ''assistant''" by blast
  then show ?thesis
  proof cases
    case system
    with assms show ?thesis by (simp add: wire_step_def wire_ok_def)
  next
    case tool
    have "wire_ok (s\<lparr>ws_turns := push_result sp (sp_result sp m k) (ws_turns s)\<rparr>)" if "k \<in> set (ws_awaited s)" for k
    proof -
      have k: "k \<in> set (open_for (ws_turns s))" using that assms by (auto simp: wire_ok_def)
      show ?thesis
        using assms push_result_ok(1) [OF _ k, of m] push_result_ok(2) [OF _ k, of m] push_result_nonempty push_result_pure
        by (simp add: wire_ok_def responds_result)
    qed
    with tool show ?thesis
      using assms by (auto simp: wire_step_def split: option.split)
  next
    case model
    then show ?thesis
      using assms keys_model [of m] responds_model
      by (auto simp: wire_step_def wire_ok_def Let_def open_for_def answered_snoc pure_turn_def)
  next
    case user
    then show ?thesis
      using assms
      by (auto simp: wire_step_def wire_ok_def Let_def answered_snoc responds_to_def responds_text pure_turn_def)
  qed
qed

lemma wire_turns_ok: "wire_ok (wire_turns sp system ms)"
proof -
  have "wire_ok (wire_start system)"
    by (simp add: wire_ok_def wire_start_def answered_turns_def open_for_def)
  then show ?thesis
    unfolding wire_turns_def by (induction ms rule: rev_induct) (simp_all add: wire_step_ok)
qed

lemma turns_answered: "answered_turns asks responds (ws_turns (wire_turns sp system ms))"
  using wire_turns_ok by (simp add: wire_ok_def)

lemma turns_nonempty: "list_all (\<lambda>t. turn_blocks t \<noteq> []) (ws_turns (wire_turns sp system ms))"
  using wire_turns_ok by (simp add: wire_ok_def)

lemma turns_pure: "list_all pure_turn (ws_turns (wire_turns sp system ms))"
  using wire_turns_ok by (simp add: wire_ok_def)

lemma push_result_keys: "concat (map (turn_keys asks) (push_result sp b ts)) = concat (map (turn_keys asks) ts)"
  by (cases ts rule: rev_cases)
     (auto simp: push_result_snoc push_result_Nil turn_keys_def split: wire_turn.split)

lemma wire_step_keys:
  "concat (map (turn_keys asks) (ws_turns (wire_step sp m s))) =
     concat (map (turn_keys asks) (ws_turns s)) @
     (if is_role m ''assistant'' then map (sp_call_key sp) (m_tool_calls m) else [])"
proof -
  have "\<not> is_role m ''system''" "\<not> is_role m ''tool''" if "is_role m ''assistant''"
    using that by (simp_all add: is_role_def)
  moreover have "m_tool_calls m = []" if "model_blocks sp m = []"
    using that by (simp add: model_blocks_def)
  ultimately show ?thesis
    using keys_model [of m]
    by (auto simp: wire_step_def Let_def push_result_keys turn_keys_def split: option.split)
qed

lemma turns_keys:
  "concat (map (turn_keys asks) (ws_turns (wire_turns sp system ms))) =
     concat (map (\<lambda>m. map (sp_call_key sp) (m_tool_calls m)) (filter (\<lambda>m. is_role m ''assistant'') ms))"
proof (induction ms rule: rev_induct)
  case Nil
  then show ?case by (simp add: wire_turns_def wire_start_def)
next
  case (snoc m ms)
  then show ?case using wire_step_keys [of m] by (simp add: wire_turns_def)
qed

text \<open>A history that opens with the user's words keeps them as its first turn.\<close>

lemma push_result_first:
  "\<exists>us. push_result sp b (From_User [sp_text sp t] # ts) = From_User [sp_text sp t] # us"
proof (cases ts rule: rev_cases)
  case Nil
  then show ?thesis by (simp add: push_result_def all_results_def is_result_iff responds_text)
next
  case (snoc ys y)
  then have "push_result sp b (From_User [sp_text sp t] # ts) = push_result sp b ((From_User [sp_text sp t] # ys) @ [y])" by simp
  then show ?thesis by (simp only: push_result_snoc) (simp split: wire_turn.split)
qed

lemma first_user:
  assumes "\<not> is_role m ''system''" "\<not> is_role m ''tool''" "\<not> is_role m ''assistant''" "m_content m \<noteq> []"
  shows "\<exists>ts. ws_turns (wire_turns sp system (m # ms)) = From_User [sp_text sp (m_content m)] # ts"
proof (induction ms rule: rev_induct)
  case Nil
  with assms show ?case by (simp add: wire_turns_def wire_step_def wire_start_def Let_def)
next
  case (snoc x ms)
  then obtain ts where "ws_turns (wire_turns sp system (m # ms)) = From_User [sp_text sp (m_content m)] # ts" by blast
  moreover have "wire_turns sp system (m # ms @ [x]) = wire_step sp x (wire_turns sp system (m # ms))"
    by (simp add: wire_turns_def)
  ultimately show ?case
    using push_result_first [of _ "m_content m" ts] by (auto simp: wire_step_def Let_def split: option.split)
qed

end

end
