(* ===== verification/Anthropic.thy ===== *)
theory Anthropic
  imports Provider_Request Turn_Feed Sse Serde
begin

text \<open>
  The adapter for the Messages API (\<open>providers/src/anthropic.rs\<close>): the turns of a request with their
  cache marks and thinking budget, and the events of a response.
\<close>

section \<open>The request\<close>

text \<open>The flag of a block is its \<open>cache\_control\<close> mark; a result also carries \<open>is\_error\<close>.\<close>

datatype an_block =
    AText ustr bool
  | AToolUse ustr ustr json bool
  | AToolResult ustr ustr bool bool

fun is_result_block :: "an_block \<Rightarrow> bool" where
  "is_result_block (AToolResult i c e k) = True"
| "is_result_block _ = False"

definition parse_or_empty :: "(ustr \<Rightarrow> json option) \<Rightarrow> ustr \<Rightarrow> json" where
  "parse_or_empty from_str s = (case from_str s of Some v \<Rightarrow> v | None \<Rightarrow> JObj [])"

definition an_spelling :: "(ustr \<Rightarrow> json option) \<Rightarrow> an_block spelling" where
  "an_spelling from_str =
     \<lparr>sp_text = (\<lambda>t. AText t False),
      sp_call = (\<lambda>c. AToolUse (tc_id c) (tc_name c) (parse_or_empty from_str (tc_arguments c)) False),
      sp_result = (\<lambda>m k. AToolResult k (m_content m) (m_is_error m) False),
      sp_is_result = is_result_block,
      sp_key = m_tool_call_id,
      sp_call_key = tc_id\<rparr>"

definition content_is_tool_results :: "an_block list \<Rightarrow> bool" where
  "content_is_tool_results bs \<longleftrightarrow> bs \<noteq> [] \<and> list_all is_result_block bs"

fun use_id :: "an_block \<Rightarrow> ustr option" where
  "use_id (AToolUse i n v k) = Some i"
| "use_id _ = None"

fun result_id :: "an_block \<Rightarrow> ustr option" where
  "result_id (AToolResult i c e k) = Some i"
| "result_id _ = None"

definition tool_use_ids :: "an_block list \<Rightarrow> ustr list" where
  "tool_use_ids bs = List.map_filter use_id bs"

definition tool_result_ids :: "an_block list \<Rightarrow> ustr list" where
  "tool_result_ids bs = List.map_filter result_id bs"

definition drop_leading_model :: "an_block wire_turn list \<Rightarrow> an_block wire_turn list" where
  "drop_leading_model out =
     (let kept = dropWhile is_model out
      in if length kept = length out then out
         else let surviving = concat (map (\<lambda>t. if is_model t then tool_use_ids (turn_blocks t) else []) kept)
              in filter (\<lambda>t. \<not> (\<not> is_model t \<and> content_is_tool_results (turn_blocks t)) \<or>
                   list_all (\<lambda>i. i \<in> set surviving) (tool_result_ids (turn_blocks t))) kept)"

definition an_build_messages ::
  "(ustr \<Rightarrow> json option) \<Rightarrow> provider_request \<Rightarrow> ustr option \<times> an_block wire_turn list" where
  "an_build_messages from_str req =
     (let s = wire_turns (an_spelling from_str) (rq_system req) (rq_messages req)
      in (wire_system s, filter (\<lambda>t. turn_blocks t \<noteq> []) (drop_leading_model (ws_turns s))))"

fun mark_block :: "an_block \<Rightarrow> an_block" where
  "mark_block (AText t k) = AText t True"
| "mark_block (AToolUse i n v k) = AToolUse i n v True"
| "mark_block (AToolResult i c e k) = AToolResult i c e True"

definition mark_last :: "('a \<Rightarrow> 'a) \<Rightarrow> 'a list \<Rightarrow> 'a list" where
  "mark_last f xs = (if xs = [] then [] else butlast xs @ [f (last xs)])"

fun mark_last_block_cached :: "an_block wire_turn \<Rightarrow> an_block wire_turn" where
  "mark_last_block_cached (From_User bs) = From_User (mark_last mark_block bs)"
| "mark_last_block_cached (From_Model bs) = From_Model (mark_last mark_block bs)"

definition an_budget :: "reasoning_control option \<Rightarrow> u32 option" where
  "an_budget r =
     (case r of
        Some R_Low \<Rightarrow> Some 1024
      | Some R_Medium \<Rightarrow> Some 4096
      | Some R_High \<Rightarrow> Some 16384
      | Some R_Xhigh \<Rightarrow> Some 32768
      | Some (R_Custom b) \<Rightarrow> Some b
      | _ \<Rightarrow> None)"

text \<open>The \<open>max\_tokens\<close> and the thinking budget of the request.\<close>

definition an_limits :: "u32 option \<Rightarrow> reasoning_control option \<Rightarrow> u32 \<times> u32 option" where
  "an_limits max_tokens reasoning =
     (let m = (case max_tokens of Some m \<Rightarrow> m | None \<Rightarrow> 4096)
      in case an_budget reasoning of
           None \<Rightarrow> (m, None)
         | Some b \<Rightarrow>
             (let m = (if max_tokens = None then min (sat_add b 4096) 64000 else m)
              in (m, Some (min b (max (if m = 0 then 0 else m - 1) 1)))))"

record an_request =
  ar_model :: ustr
  ar_messages :: "an_block wire_turn list"
  ar_system :: "ustr option"
  ar_tools :: "(tool_spec \<times> bool) list option"
  ar_max_tokens :: u32
  ar_stream :: bool
  ar_temperature :: "ustr option"
  ar_thinking :: "u32 option"

text \<open>The body, or the missing key. The system block is always marked for the cache.\<close>

definition an_body :: "(ustr \<Rightarrow> json option) \<Rightarrow> ustr option \<Rightarrow> provider_request \<Rightarrow> ustr + an_request" where
  "an_body from_str api_key req =
     (case api_key of
        None \<Rightarrow> Inl (lit ''Anthropic provider requires an API key'')
      | Some key \<Rightarrow>
          (case an_build_messages from_str req of
             (system, messages) \<Rightarrow>
               (case an_limits (rq_max_tokens req) (rq_reasoning req) of
                  (m, thinking) \<Rightarrow>
                    Inr \<lparr>ar_model = rq_model req, ar_messages = mark_last mark_last_block_cached messages,
                      ar_system = system,
                      ar_tools = none_if_empty (mark_last (\<lambda>(t, k). (t, True)) (map (\<lambda>t. (t, False)) (rq_tools req))),
                      ar_max_tokens = m, ar_stream = True, ar_temperature = rq_temperature req,
                      ar_thinking = thinking\<rparr>)))"

section \<open>The response\<close>

record an_usage =
  au_input :: u64
  au_output :: u64
  au_cache_read :: u64
  au_cache_creation :: u64

record an_delta =
  ad_kind :: ustr
  ad_text :: "ustr option"
  ad_thinking :: "ustr option"
  ad_partial_json :: "ustr option"
  ad_stop_reason :: "ustr option"

record an_event =
  ae_kind :: ustr
  ae_index :: int
  ae_block :: "(ustr \<times> ustr option \<times> ustr option) option"
  ae_delta :: an_delta
  ae_message :: "an_usage option option"
  ae_usage :: "an_usage option"

definition optional :: "(json \<Rightarrow> 'a option) \<Rightarrow> json \<Rightarrow> string \<Rightarrow> 'a option option" where
  "optional dec j key = from_field (from_option dec) None j key"

definition an_decode_usage :: "json \<Rightarrow> an_usage option" where
  "an_decode_usage j =
     (if \<not> is_object j then None
      else case from_field as_u64 0 j ''input_tokens'' of None \<Rightarrow> None | Some i \<Rightarrow>
        (case from_field as_u64 0 j ''output_tokens'' of None \<Rightarrow> None | Some k \<Rightarrow>
        (case from_field as_u64 0 j ''cache_read_input_tokens'' of None \<Rightarrow> None | Some r \<Rightarrow>
        (case from_field as_u64 0 j ''cache_creation_input_tokens'' of None \<Rightarrow> None | Some w \<Rightarrow>
           Some \<lparr>au_input = i, au_output = k, au_cache_read = r, au_cache_creation = w\<rparr>))))"

definition an_decode_block :: "json \<Rightarrow> (ustr \<times> ustr option \<times> ustr option) option" where
  "an_decode_block j =
     (if \<not> is_object j then None
      else case required_field as_str j ''type'' of None \<Rightarrow> None | Some kind \<Rightarrow>
        (case optional as_str j ''id'' of None \<Rightarrow> None | Some i \<Rightarrow>
        (case optional as_str j ''name'' of None \<Rightarrow> None | Some n \<Rightarrow>
        (case optional as_str j ''text'' of None \<Rightarrow> None | Some (_ :: ustr option) \<Rightarrow>
        (case optional as_str j ''thinking'' of None \<Rightarrow> None | Some (_ :: ustr option) \<Rightarrow> Some (kind, i, n))))))"

definition an_no_delta :: an_delta where
  "an_no_delta = \<lparr>ad_kind = [], ad_text = None, ad_thinking = None, ad_partial_json = None, ad_stop_reason = None\<rparr>"

definition an_decode_delta :: "json \<Rightarrow> an_delta option" where
  "an_decode_delta j =
     (if \<not> is_object j then None
      else case from_field as_str [] j ''type'' of None \<Rightarrow> None | Some kind \<Rightarrow>
        (case optional as_str j ''text'' of None \<Rightarrow> None | Some t \<Rightarrow>
        (case optional as_str j ''thinking'' of None \<Rightarrow> None | Some h \<Rightarrow>
        (case optional as_str j ''partial_json'' of None \<Rightarrow> None | Some p \<Rightarrow>
        (case optional as_str j ''stop_reason'' of None \<Rightarrow> None | Some r \<Rightarrow>
           Some \<lparr>ad_kind = kind, ad_text = t, ad_thinking = h, ad_partial_json = p, ad_stop_reason = r\<rparr>)))))"

definition an_decode_meta :: "json \<Rightarrow> an_usage option option" where
  "an_decode_meta j = (if \<not> is_object j then None else optional an_decode_usage j ''usage'')"

definition an_decode_event :: "json \<Rightarrow> an_event option" where
  "an_decode_event j =
     (if \<not> is_object j then None
      else case required_field as_str j ''type'' of None \<Rightarrow> None | Some kind \<Rightarrow>
        (case from_field as_i64 0 j ''index'' of None \<Rightarrow> None | Some i \<Rightarrow>
        (case optional an_decode_block j ''content_block'' of None \<Rightarrow> None | Some b \<Rightarrow>
        (case from_field an_decode_delta an_no_delta j ''delta'' of None \<Rightarrow> None | Some d \<Rightarrow>
        (case optional an_decode_meta j ''message'' of None \<Rightarrow> None | Some m \<Rightarrow>
        (case optional an_decode_usage j ''usage'' of None \<Rightarrow> None | Some u \<Rightarrow>
           Some \<lparr>ae_kind = kind, ae_index = i, ae_block = b, ae_delta = d, ae_message = m, ae_usage = u\<rparr>))))))"

record an_state =
  as_tools :: "(int \<times> call_entry) list"
  as_usage :: "usage option"
  as_finished :: bool

definition an_start :: an_state where
  "an_start = \<lparr>as_tools = [], as_usage = None, as_finished = False\<rparr>"

definition block_start :: "an_event \<Rightarrow> an_state \<Rightarrow> an_state \<times> stream_event list" where
  "block_start e s =
     (case ae_block e of
        Some (kind, i, n) \<Rightarrow>
          if kind = lit ''tool_use'' then
            (let i = (case i of Some i \<Rightarrow> i | None \<Rightarrow> []); n = (case n of Some n \<Rightarrow> n | None \<Rightarrow> [])
             in (s\<lparr>as_tools := AList.update (ae_index e) (i, n, []) (as_tools s)\<rparr>,
                 if i \<noteq> [] \<and> n \<noteq> [] then [ToolCallStart i n] else []))
          else (s, [])
      | None \<Rightarrow> (s, []))"

definition json_delta :: "int \<Rightarrow> ustr \<Rightarrow> an_state \<Rightarrow> an_state \<times> stream_event list" where
  "json_delta idx d s =
     (case (case map_of (as_tools s) idx of Some t \<Rightarrow> t | None \<Rightarrow> ([], [], [])) of
        (i, n, args) \<Rightarrow>
          (s\<lparr>as_tools := AList.update idx (i, n, args @ d) (as_tools s)\<rparr>,
           if i \<noteq> [] then [ToolCallArgumentDelta i d] else []))"

definition block_delta :: "an_event \<Rightarrow> an_state \<Rightarrow> an_state \<times> stream_event list" where
  "block_delta e s =
     (let d = ae_delta e
      in if ad_kind d = lit ''text_delta'' then (s, text_events TextDelta (ad_text d))
         else if ad_kind d = lit ''thinking_delta'' then (s, text_events ReasoningDelta (ad_thinking d))
         else if ad_kind d = lit ''input_json_delta'' then
           (case ad_partial_json d of
              Some x \<Rightarrow> if x \<noteq> [] then json_delta (ae_index e) x s else (s, [])
            | None \<Rightarrow> (s, []))
         else (s, []))"

definition block_stop :: "an_event \<Rightarrow> an_state \<Rightarrow> an_state \<times> stream_event list" where
  "block_stop e s =
     (case map_of (as_tools s) (ae_index e) of
        Some (i, n, args) \<Rightarrow>
          (s\<lparr>as_tools := AList.delete (ae_index e) (as_tools s)\<rparr>,
           if i \<noteq> [] then [ToolCallFinish i n args] else [])
      | None \<Rightarrow> (s, []))"

definition input_context :: "u64 \<Rightarrow> u64 \<Rightarrow> u64 \<Rightarrow> u64" where
  "input_context i r w = sat_add (sat_add i r) w"

definition message_start :: "an_event \<Rightarrow> an_state \<Rightarrow> an_state" where
  "message_start e s =
     (case (case ae_message e of Some (Some u) \<Rightarrow> Some u | _ \<Rightarrow> ae_usage e) of
        Some u \<Rightarrow>
          s\<lparr>as_usage := Some \<lparr>u_input = au_input u, u_output = 0, u_cache_read = au_cache_read u,
              u_cache_write = au_cache_creation u,
              u_context = Some (input_context (au_input u) (au_cache_read u) (au_cache_creation u))\<rparr>\<rparr>
      | None \<Rightarrow> s)"

definition no_usage :: usage where
  "no_usage = \<lparr>u_input = 0, u_output = 0, u_cache_read = 0, u_cache_write = 0, u_context = Some 0\<rparr>"

definition usage_or_new :: "usage option \<Rightarrow> usage" where
  "usage_or_new u = (case u of Some u \<Rightarrow> u | None \<Rightarrow> no_usage)"

definition delta_usage :: "an_usage \<Rightarrow> usage \<Rightarrow> usage" where
  "delta_usage u e =
     (let i = (if u_input e = 0 then au_input u else u_input e);
          r = (if u_cache_read e = 0 then au_cache_read u else u_cache_read e);
          w = (if u_cache_write e = 0 then au_cache_creation u else u_cache_write e)
      in \<lparr>u_input = i, u_output = au_output u, u_cache_read = r, u_cache_write = w,
          u_context = Some (input_context i r w)\<rparr>)"

definition message_delta :: "an_event \<Rightarrow> an_state \<Rightarrow> an_state \<times> stream_event list" where
  "message_delta e s =
     (let us = (case ae_usage e of Some u \<Rightarrow> Some (delta_usage u (usage_or_new (as_usage s))) | None \<Rightarrow> as_usage s);
          us = (case ae_message e of
                  Some (Some u) \<Rightarrow> Some ((usage_or_new us)\<lparr>u_output := au_output u\<rparr>)
                | _ \<Rightarrow> us)
      in (s\<lparr>as_usage := us, as_finished := True\<rparr>,
          if as_finished s then []
          else [Finished (case ad_stop_reason (ae_delta e) of Some r \<Rightarrow> r | None \<Rightarrow> lit ''stop'') us]))"

definition an_close :: "an_state \<Rightarrow> stream_event list" where
  "an_close s = (if as_finished s then [] else [Finished (lit ''stop'') (as_usage s)])"

definition an_event_step :: "an_event \<Rightarrow> an_state \<Rightarrow> stream_event list \<times> an_state option" where
  "an_event_step e s =
     (let go = (\<lambda>(s, v). (v, Some s))
      in if ae_kind e = lit ''content_block_start'' then go (block_start e s)
         else if ae_kind e = lit ''content_block_delta'' then go (block_delta e s)
         else if ae_kind e = lit ''content_block_stop'' then go (block_stop e s)
         else if ae_kind e = lit ''message_start'' then ([], Some (message_start e s))
         else if ae_kind e = lit ''message_delta'' then go (message_delta e s)
         else if ae_kind e = lit ''message_stop'' then (an_close s, None)
         else ([], Some s))"

definition an_step :: "(ustr \<Rightarrow> json option) \<Rightarrow> ustr \<Rightarrow> an_state \<Rightarrow> stream_event list \<times> an_state option" where
  "an_step from_str raw s =
     (case Option.bind (from_str raw) an_decode_event of
        None \<Rightarrow> ([], Some s)
      | Some e \<Rightarrow> an_event_step e s)"

definition an_sse_stream :: "(ustr \<Rightarrow> json option) \<Rightarrow> bytes option list \<Rightarrow> stream_event list" where
  "an_sse_stream from_str chunks = sse_stream (an_step from_str) an_close [] chunks an_start"

section \<open>The turns the API accepts\<close>

interpretation an: wire_spelling "an_spelling from_str" use_id result_id for from_str
proof
  fix b :: an_block
  show "sp_is_result (an_spelling from_str) b \<longleftrightarrow> result_id b \<noteq> None"
    by (cases b) (simp_all add: an_spelling_def)
qed (simp_all add: an_spelling_def)

lemma results_ids: "content_is_tool_results bs \<Longrightarrow> tool_result_ids bs \<noteq> []"
  by (cases bs; cases "hd bs")
     (auto simp: content_is_tool_results_def tool_result_ids_def List.map_filter_simps)

lemma answered_within:
  assumes "answered_from use_id result_id ks ts" "set ks \<union> set (concat (map (turn_keys use_id) ts)) \<subseteq> S" "t \<in> set ts"
  shows "set (tool_result_ids (turn_blocks t)) \<subseteq> S"
  using assms
proof (induction ts arbitrary: ks)
  case (Cons u ts)
  have "set (tool_result_ids (turn_blocks u)) \<subseteq> set ks"
    using Cons.prems(1) by (force simp: responds_to_def list_all_iff tool_result_ids_def set_map_filter)
  with Cons show ?case by auto
qed simp

lemma concat_use_ids:
  "concat (map (\<lambda>t. if is_model t then tool_use_ids (turn_blocks t) else []) ts) = concat (map (turn_keys use_id) ts)"
  by (rule arg_cong [where f = concat]) (simp add: turn_keys_def tool_use_ids_def)

lemma answered_suffix: "answered_from asks responds ks (ts @ us) \<Longrightarrow>
   answered_from asks responds (if ts = [] then ks else turn_keys asks (last ts)) us"
  by (induction ts arbitrary: ks) auto

lemma an_pure:
  "an.pure_turn from_str t \<longleftrightarrow>
     is_model t \<or> content_is_tool_results (turn_blocks t) \<or> list_all (\<lambda>b. result_id b = None) (turn_blocks t)"
  by (simp add: an.pure_turn_def all_results_def content_is_tool_results_def) (simp add: an_spelling_def)

lemma drop_leading_model_trims:
  "dropWhile is_model ts = us \<Longrightarrow> length us \<noteq> length ts \<Longrightarrow>
   drop_leading_model ts = filter (\<lambda>t. \<not> (\<not> is_model t \<and> content_is_tool_results (turn_blocks t)) \<or>
      list_all (\<lambda>i. i \<in> set (concat (map (turn_keys use_id) us))) (tool_result_ids (turn_blocks t))) us"
  by (simp only: drop_leading_model_def concat_use_ids Let_def if_False)

lemma drop_leading_model_answered:
  assumes a: "answered_turns use_id result_id ts" and d: "distinct (concat (map (turn_keys use_id) ts))"
    and p: "list_all (an.pure_turn from_str) ts"
  shows "answered_turns use_id result_id (drop_leading_model ts)"
proof (cases "dropWhile is_model ts")
  case Nil
  then show ?thesis
    by (simp add: drop_leading_model_def answered_turns_def Let_def Nil del: dropWhile_eq_Nil_conv)
next
  case (Cons t us)
  define lead where "lead = takeWhile is_model ts"
  have ts: "ts = lead @ t # us" by (metis Cons lead_def takeWhile_dropWhile_id)
  have user: "\<not> is_model t" using Cons by (metis dropWhile_eq_Cons_conv)
  then have tk: "turn_keys use_id t = []" by (simp add: turn_keys_def)
  define S where "S = set (concat (map (turn_keys use_id) (t # us)))"
  have rest: "answered_from use_id result_id [] us"
    using answered_suffix [of use_id result_id "[]" "lead @ [t]" us] a tk by (simp add: ts answered_turns_def)
  have inS: "set (tool_result_ids (turn_blocks u)) \<subseteq> S" if "u \<in> set us" for u
    using that by (intro answered_within [OF rest]) (auto simp: S_def)
  let ?keep = "\<lambda>t. \<not> (\<not> is_model t \<and> content_is_tool_results (turn_blocks t)) \<or>
      list_all (\<lambda>i. i \<in> S) (tool_result_ids (turn_blocks t))"
  have keep: "filter ?keep (t # us) = (if ?keep t then t # us else us)"
    using inS by (auto simp: list_all_iff filter_id_conv)
  show ?thesis
  proof (cases "lead = []")
    case True
    then show ?thesis using a Cons by (simp add: drop_leading_model_def ts Let_def)
  next
    case False
    then have drop: "drop_leading_model ts = (if ?keep t then t # us else us)"
      using drop_leading_model_trims [OF Cons] keep unfolding S_def by (simp only: ts) simp
    have "responds_to result_id [] t" if k: "?keep t"
    proof (cases "content_is_tool_results (turn_blocks t)")
      case True
      with k user have "set (tool_result_ids (turn_blocks t)) \<subseteq> S" by (auto simp: list_all_iff)
      moreover have "responds_to result_id (turn_keys use_id (last lead)) t"
        using answered_suffix [of use_id result_id "[]" lead "t # us"] a False by (simp add: ts answered_turns_def)
      then have "set (tool_result_ids (turn_blocks t)) \<subseteq> set (turn_keys use_id (last lead))"
        by (force simp: responds_to_def list_all_iff tool_result_ids_def set_map_filter)
      moreover have "set (turn_keys use_id (last lead)) \<inter> S = {}"
        using d False unfolding ts S_def by (cases lead rule: rev_cases) auto
      ultimately have "set (tool_result_ids (turn_blocks t)) = {}"
        by (metis inf.boundedI subset_empty)
      with results_ids [OF True] show ?thesis by simp
    next
      case False
      then have "list_all (\<lambda>b. result_id b = None) (turn_blocks t)"
        using p user by (simp add: ts an_pure)
      then show ?thesis by (simp add: responds_to_def list_all_iff)
    qed
    with rest tk show ?thesis unfolding drop by (simp add: answered_turns_def)
  qed
qed

lemma drop_leading_model_sub: "set (drop_leading_model ts) \<subseteq> set ts"
  by (auto simp: drop_leading_model_def Let_def dest: set_dropWhileD)

lemma distinct_concat_filter: "distinct (concat (map f xs)) \<Longrightarrow> distinct (concat (map f (filter p xs)))"
  by (induction xs) auto

text \<open>
  C28 (safety). No request to the Messages API carries an orphan: for any history whose calls have
  distinct ids, whatever was lost from it by truncation, compression or a resumed checkpoint, every
  tool result of the request stands in a user turn directly after the assistant turn that holds the
  call with its id.
\<close>

theorem an_results_answer_calls:
  assumes "distinct (concat (map (\<lambda>m. map tc_id (m_tool_calls m)) (rq_messages req)))"
  shows "answered_turns use_id result_id (snd (an_build_messages from_str req))"
proof -
  let ?ts = "ws_turns (wire_turns (an_spelling from_str) (rq_system req) (rq_messages req))"
  have d: "distinct (concat (map (turn_keys use_id) ?ts))"
    using distinct_concat_filter [OF assms, of "\<lambda>m. is_role m ''assistant''"]
    unfolding an.turns_keys by (simp add: an_spelling_def)
  have "list_all (\<lambda>t. turn_blocks t \<noteq> []) (drop_leading_model ?ts)"
    using an.turns_nonempty drop_leading_model_sub by (fastforce simp: list_all_iff)
  then have "snd (an_build_messages from_str req) = drop_leading_model ?ts"
    by (simp add: an_build_messages_def Let_def list_all_iff)
  then show ?thesis
    using drop_leading_model_answered [OF an.turns_answered d an.turns_pure] by simp
qed

definition sample_call :: tool_call where
  "sample_call = \<lparr>tc_id = lit ''c1'', tc_kind = lit ''function'', tc_name = lit ''read'', tc_arguments = lit ''{}''\<rparr>"

definition sample_request :: "message list \<Rightarrow> provider_request" where
  "sample_request ms = \<lparr>rq_model = lit ''m'', rq_messages = ms, rq_system = None, rq_tools = [], rq_temperature = None,
     rq_top_p = None, rq_max_tokens = None, rq_reasoning = None, rq_session_id = None, rq_context_window = None,
     rq_keep_alive = None\<rparr>"

theorem an_results_answer_calls_witness:
  "answered_turns use_id result_id (snd (an_build_messages (\<lambda>_. None) (sample_request
     [message_text (lit ''user'') (lit ''go''), assistant_with_tools [] [sample_call], tool_result sample_call (lit ''ok'') False])))"
  by (rule an_results_answer_calls)
     (simp add: sample_request_def message_text_def assistant_with_tools_def tool_result_def)

section \<open>One completion signal\<close>

definition balance :: "an_state \<Rightarrow> nat" where
  "balance s = (if as_finished s then 1 else 0)"

lemma quiet_steps:
  "block_start e s = (s', v) \<Longrightarrow> signals v = 0 \<and> \<not> list_ex is_failure v \<and> as_finished s' = as_finished s"
  "block_delta e s = (s', v) \<Longrightarrow> signals v = 0 \<and> \<not> list_ex is_failure v \<and> as_finished s' = as_finished s"
  "block_stop e s = (s', v) \<Longrightarrow> signals v = 0 \<and> \<not> list_ex is_failure v \<and> as_finished s' = as_finished s"
  by (auto simp: block_start_def block_delta_def block_stop_def json_delta_def text_events_def Let_def
      split: option.splits prod.splits if_splits)

lemma an_event_step_signals:
  "an_event_step e s = (v, r) \<Longrightarrow> \<not> list_ex is_failure v \<and>
     balance s + signals v = (case r of None \<Rightarrow> 1 | Some s' \<Rightarrow> balance s')"
  using quiet_steps [of e s]
  by (cases "block_start e s"; cases "block_delta e s"; cases "block_stop e s")
     (auto simp: an_event_step_def message_start_def message_delta_def an_close_def balance_def Let_def split: if_splits option.splits)

lemma an_step_signals:
  "an_step from_str raw s = (v, r) \<Longrightarrow> \<not> list_ex is_failure v \<and>
     balance s + signals v = (case r of None \<Rightarrow> 1 | Some s' \<Rightarrow> balance s')"
  using an_event_step_signals by (auto simp: an_step_def split: option.splits)

lemma an_events_signals:
  "sse_events (an_step from_str) raws s = (v, r) \<Longrightarrow> \<not> list_ex is_failure v \<and>
     balance s + signals v = (case r of None \<Rightarrow> 1 | Some s' \<Rightarrow> balance s')"
proof (induction raws arbitrary: s v)
  case (Cons raw raws)
  obtain w q where 1: "an_step from_str raw s = (w, q)" by (cases "an_step from_str raw s")
  note w = an_step_signals [OF 1]
  show ?case
  proof (cases q)
    case None
    with 1 Cons.prems w show ?thesis by simp
  next
    case (Some s1)
    obtain w2 q2 where 2: "sse_events (an_step from_str) raws s1 = (w2, q2)" by (cases "sse_events (an_step from_str) raws s1")
    have "v = w @ w2" "r = q2" using 1 2 Some Cons.prems by simp_all
    with w Some Cons.IH [of s1 w2] 2 show ?thesis by simp
  qed
qed auto

text \<open>
  Every framed response of the Messages API ends with exactly one completion signal
  and no error, whatever events it carries and wherever its connection closes.
\<close>

theorem an_one_completion:
  assumes "framed (concat chunks)"
  shows "(signals (an_sse_stream from_str (map Some chunks)), list_ex is_failure (an_sse_stream from_str (map Some chunks))) = (1, False)"
proof -
  have d: "drain_lines [] = ([], [])" by (simp add: drain_none)
  obtain v r where e: "sse_events (an_step from_str) (fst (drain_lines (concat chunks))) an_start = (v, r)"
    by (cases "sse_events (an_step from_str) (fst (drain_lines (concat chunks))) an_start")
  have "an_sse_stream from_str (map Some chunks) = (case r of None \<Rightarrow> v | Some s \<Rightarrow> v @ an_close s)"
    using sse_stream_whole [OF d, of chunks "an_step from_str" an_close an_start] assms e
    by (simp add: an_sse_stream_def split: option.split)
  then show ?thesis
    using an_events_signals [OF e] by (auto simp: an_close_def balance_def an_start_def split: option.splits)
qed

theorem an_one_completion_witness:
  "(signals (an_sse_stream (\<lambda>_. None) (map Some [lit ''data:'', lit ''x'' @ [10]])),
    list_ex is_failure (an_sse_stream (\<lambda>_. None) (map Some [lit ''data:'', lit ''x'' @ [10]]))) = (1, False)"
  by (rule an_one_completion) (rule framed_short, simp add: MAX_SSE_BUFFER_BYTES_def)

text \<open>
  That includes a response that reports a failure: the \<open>error\<close> event of an overloaded server, after
  part of the text, leaves a turn that passes for complete.
\<close>

definition overloaded_json :: "ustr \<Rightarrow> json option" where
  "overloaded_json raw =
     (if raw = lit ''t'' then
        Some (JObj [(lit ''type'', JStr (lit ''content_block_delta'')), (lit ''index'', JInt 0),
          (lit ''delta'', JObj [(lit ''type'', JStr (lit ''text_delta'')), (lit ''text'', JStr (lit ''par''))])])
      else if raw = lit ''e'' then
        Some (JObj [(lit ''type'', JStr (lit ''error'')), (lit ''error'', JObj [(lit ''type'', JStr (lit ''overloaded_error''))])])
      else None)"

lemma error_event_is_ignored:
  "(let turn = fst (run_turn (\<lambda>_. None) (Inr (map Next (an_sse_stream overloaded_json [Some (lit ''data:t'' @ [10] @ lit ''data:e'' @ [10])]))))
    in (t_error turn, t_finish turn, t_text turn)) = (None, Some (lit ''stop''), lit ''par'')"
proof -
  have d: "drain_lines [] = ([], [])" by (simp add: drain_none)
  have l: "fst (drain_lines (lit ''data:t'' @ [10] @ lit ''data:e'' @ [10])) = [lit ''t'', lit ''e'']" by code_simp
  have t: "an_step overloaded_json (lit ''t'') s = ([TextDelta (lit ''par'')], Some s)"
    "an_step overloaded_json (lit ''e'') s = ([], Some s)" for s
    by (simp_all add: an_step_def overloaded_json_def an_decode_event_def required_field_def from_field_def optional_def
        an_decode_delta_def from_option_def an_no_delta_def an_event_step_def block_delta_def text_events_def)
  have f: "framed (concat [lit ''data:t'' @ [10] @ lit ''data:e'' @ [10]])"
    by (rule framed_short) (simp add: MAX_SSE_BUFFER_BYTES_def)
  have "an_sse_stream overloaded_json [Some (lit ''data:t'' @ [10] @ lit ''data:e'' @ [10])] =
      [TextDelta (lit ''par''), Finished (lit ''stop'') None]"
    using sse_stream_whole [OF d, of "[lit ''data:t'' @ [10] @ lit ''data:e'' @ [10]]" "an_step overloaded_json" an_close an_start] f l
    by (simp add: an_sse_stream_def t an_close_def an_start_def)
  then show ?thesis by (simp add: run_turn_def acc_new_def Let_def)
qed

text \<open>Trimming a resumed history can leave an assistant turn first.\<close>

lemma trimming_leaves_assistant:
  "map is_model (snd (an_build_messages (\<lambda>_. None) (sample_request
     [assistant_with_tools [] [sample_call], tool_result sample_call (lit ''ok'') False,
      assistant_with_tools (lit ''done'') [], message_text (lit ''user'') (lit ''next'')]))) = [True, False]"
  by code_simp

section \<open>The turn of a complete response\<close>

text \<open>A response as the API documents it: whole content blocks, each streamed in parts.\<close>

datatype reply = Says "ustr list" | Thinks "ustr list" | Asks ustr ustr "ustr list"

definition plain_event :: "string \<Rightarrow> int \<Rightarrow> an_event" where
  "plain_event kind i = \<lparr>ae_kind = lit kind, ae_index = i, ae_block = None, ae_delta = an_no_delta, ae_message = None, ae_usage = None\<rparr>"

definition opens :: "string \<Rightarrow> ustr option \<Rightarrow> ustr option \<Rightarrow> int \<Rightarrow> an_event" where
  "opens kind d n i = (plain_event ''content_block_start'' i)\<lparr>ae_block := Some (lit kind, d, n)\<rparr>"

definition parts :: "(ustr \<Rightarrow> an_delta) \<Rightarrow> int \<Rightarrow> ustr list \<Rightarrow> an_event list" where
  "parts mk i ps = map (\<lambda>p. (plain_event ''content_block_delta'' i)\<lparr>ae_delta := mk p\<rparr>) ps"

fun reply_events :: "int \<times> reply \<Rightarrow> an_event list" where
  "reply_events (i, Says ps) = opens ''text'' None None i #
     parts (\<lambda>p. an_no_delta\<lparr>ad_kind := lit ''text_delta'', ad_text := Some p\<rparr>) i ps @ [plain_event ''content_block_stop'' i]"
| "reply_events (i, Thinks ps) = opens ''thinking'' None None i #
     parts (\<lambda>p. an_no_delta\<lparr>ad_kind := lit ''thinking_delta'', ad_thinking := Some p\<rparr>) i ps @ [plain_event ''content_block_stop'' i]"
| "reply_events (i, Asks d n ps) = opens ''tool_use'' (Some d) (Some n) i #
     parts (\<lambda>p. an_no_delta\<lparr>ad_kind := lit ''input_json_delta'', ad_partial_json := Some p\<rparr>) i ps @ [plain_event ''content_block_stop'' i]"

definition response_events :: "an_event \<Rightarrow> (int \<times> reply) list \<Rightarrow> an_event \<Rightarrow> an_event list" where
  "response_events first rs done = first # concat (map reply_events rs) @ [done, plain_event ''message_stop'' 0]"

fun said :: "reply \<Rightarrow> ustr" where "said (Says ps) = concat ps" | "said _ = []"

fun thought :: "reply \<Rightarrow> ustr" where "thought (Thinks ps) = concat ps" | "thought _ = []"

fun asked :: "reply \<Rightarrow> call_entry list" where "asked (Asks d n ps) = [(d, n, concat ps)]" | "asked _ = []"

definition json_events :: "ustr \<Rightarrow> ustr list \<Rightarrow> stream_event list" where
  "json_events d ps = concat (map (\<lambda>p. if p \<noteq> [] then [ToolCallArgumentDelta d p] else []) ps)"

lemma json_events_feed:
  "calls_seen (cs @ [(d, n, x)]) a \<Longrightarrow> d \<notin> set (map fst cs) \<Longrightarrow>
   running (json_events d ps) \<and> calls_seen (cs @ [(d, n, x @ concat ps)]) (feed (json_events d ps) a) \<and> same_rest a (feed (json_events d ps) a)"
proof (induction ps arbitrary: a x)
  case (Cons p ps)
  show ?case
  proof (cases "p = []")
    case True
    with Cons show ?thesis by (simp add: json_events_def)
  next
    case False
    have "calls_seen (cs @ [(d, n, x @ p)]) (call_delta d p a)" by (rule call_delta_end [OF Cons.prems])
    from Cons.IH [OF this Cons.prems(2)] False show ?thesis
      by (simp add: json_events_def)
  qed
qed (simp add: json_events_def)

lemma ask_feed:
  assumes "calls_seen cs a" "d \<notin> set (map fst cs)" "v = ToolCallStart d n # json_events d ps @ [ToolCallFinish d n (concat ps)]"
  shows "running v \<and> calls_seen (cs @ [(d, n, concat ps)]) (feed v a) \<and> same_rest a (feed v a)"
proof -
  have s: "calls_seen (cs @ [(d, n, [])]) (call_start d n a)"
    by (rule call_start_end [OF assms(1,2)])
  note j = json_events_feed [OF s assms(2), of ps]
  let ?b = "feed (json_events d ps) (call_start d n a)"
  have "call_finish d n (concat ps) ?b = ?b"
    using j by (intro call_finish_end [OF _ assms(2)]) simp
  with j show ?thesis by (simp add: assms(3))
qed

lemma sse_events_two:
  "sse_events step xs s = (v, Some s1) \<Longrightarrow> sse_events step ys s1 = (w, r) \<Longrightarrow> sse_events step (xs @ ys) s = (v @ w, r)"
  by (simp add: sse_events_append)

definition text_parts :: "(ustr \<Rightarrow> stream_event) \<Rightarrow> ustr list \<Rightarrow> stream_event list" where
  "text_parts mk ps = concat (map (\<lambda>p. text_events mk (Some p)) ps)"

lemma text_part_steps:
  "sse_events an_event_step (parts (\<lambda>p. an_no_delta\<lparr>ad_kind := lit ''text_delta'', ad_text := Some p\<rparr>) i ps) s = (text_parts TextDelta ps, Some s)"
  "sse_events an_event_step (parts (\<lambda>p. an_no_delta\<lparr>ad_kind := lit ''thinking_delta'', ad_thinking := Some p\<rparr>) i ps) s = (text_parts ReasoningDelta ps, Some s)"
  by (induction ps) (simp_all add: parts_def text_parts_def an_event_step_def block_delta_def plain_event_def an_no_delta_def)

lemma json_part_steps:
  "as_tools s = [(i, d, n, x)] \<Longrightarrow> d \<noteq> [] \<Longrightarrow>
   sse_events an_event_step (parts (\<lambda>p. an_no_delta\<lparr>ad_kind := lit ''input_json_delta'', ad_partial_json := Some p\<rparr>) i ps) s =
     (json_events d ps, Some (s\<lparr>as_tools := [(i, d, n, x @ concat ps)]\<rparr>))"
proof (induction ps arbitrary: s x)
  case (Cons p ps)
  have "an_event_step ((plain_event ''content_block_delta'' i)\<lparr>ae_delta := an_no_delta\<lparr>ad_kind := lit ''input_json_delta'', ad_partial_json := Some p\<rparr>\<rparr>) s =
      (if p \<noteq> [] then [ToolCallArgumentDelta d p] else [], Some (s\<lparr>as_tools := [(i, d, n, x @ p)]\<rparr>))"
    using Cons.prems by (simp add: an_event_step_def block_delta_def json_delta_def plain_event_def an_no_delta_def)
  with Cons.IH [of "s\<lparr>as_tools := [(i, d, n, x @ p)]\<rparr>" "x @ p"] Cons.prems(2) show ?case
    by (simp add: parts_def json_events_def)
qed (simp add: parts_def json_events_def)

text \<open>What the adapter yields for a block.\<close>

fun reply_yields :: "reply \<Rightarrow> stream_event list" where
  "reply_yields (Says ps) = text_parts TextDelta ps"
| "reply_yields (Thinks ps) = text_parts ReasoningDelta ps"
| "reply_yields (Asks d n ps) = ToolCallStart d n # json_events d ps @ [ToolCallFinish d n (concat ps)]"

lemma reply_steps:
  assumes "as_tools s = []" "list_all (\<lambda>c. fst c \<noteq> [] \<and> fst (snd c) \<noteq> []) (asked r)"
  shows "sse_events an_event_step (reply_events (i, r)) s = (reply_yields r, Some s)"
proof -
  have stop: "an_event_step (plain_event ''content_block_stop'' i) s = ([], Some s)"
    using assms(1) by (simp add: an_event_step_def plain_event_def block_stop_def)
  have open_other: "an_event_step (opens kind None None i) s = ([], Some s)" if "kind \<noteq> ''tool_use''" for kind
    using that by (simp add: opens_def an_event_step_def plain_event_def block_start_def)
  show ?thesis
  proof (cases r)
    case (Asks d n ps)
    then have ne: "d \<noteq> []" "n \<noteq> []" using assms(2) by simp_all
    let ?s = "\<lambda>x. s\<lparr>as_tools := [(i, d, n, x)]\<rparr>"
    have 1: "an_event_step (opens ''tool_use'' (Some d) (Some n) i) s = ([ToolCallStart d n], Some (?s []))"
      using ne assms(1) by (simp add: opens_def an_event_step_def plain_event_def block_start_def)
    have 2: "sse_events an_event_step (parts (\<lambda>p. an_no_delta\<lparr>ad_kind := lit ''input_json_delta'', ad_partial_json := Some p\<rparr>) i ps) (?s []) =
        (json_events d ps, Some (?s (concat ps)))"
      using json_part_steps [of "?s []" i d n "[]" ps] ne by simp
    have "s\<lparr>as_tools := []\<rparr> = s" using assms(1) by simp
    then have 3: "an_event_step (plain_event ''content_block_stop'' i) (?s (concat ps)) = ([ToolCallFinish d n (concat ps)], Some s)"
      using ne by (simp add: an_event_step_def plain_event_def block_stop_def)
    show ?thesis using sse_events_two [OF 2] 1 3 by (simp add: Asks)
  qed (use stop open_other in \<open>simp_all add: sse_events_append text_part_steps\<close>)
qed

lemma text_parts_feed:
  "running (text_parts TextDelta ps)" "running (text_parts ReasoningDelta ps)"
  "a_text (feed (text_parts TextDelta ps) a) = a_text a @ concat ps"
  "a_reasoning (feed (text_parts ReasoningDelta ps) a) = a_reasoning a @ concat ps"
  by (induction ps arbitrary: a) (simp_all add: text_parts_def text_events_feed some_text_def)

lemma text_parts_rest:
  "a_reasoning (feed (text_parts TextDelta ps) a) = a_reasoning a" "a_text (feed (text_parts ReasoningDelta ps) a) = a_text a"
  "calls_seen cs (feed (text_parts TextDelta ps) a) = calls_seen cs a" "calls_seen cs (feed (text_parts ReasoningDelta ps) a) = calls_seen cs a"
  "a_error (feed (text_parts TextDelta ps) a) = a_error a" "a_error (feed (text_parts ReasoningDelta ps) a) = a_error a"
  "a_finish (feed (text_parts TextDelta ps) a) = a_finish a" "a_finish (feed (text_parts ReasoningDelta ps) a) = a_finish a"
  by (induction ps arbitrary: a) (simp_all add: text_parts_def text_events_def calls_seen_def)

text \<open>The engine has read the blocks \<open>rs\<close>.\<close>

definition has_read :: "reply list \<Rightarrow> turn_acc \<Rightarrow> bool" where
  "has_read rs a \<longleftrightarrow> calls_seen (concat (map asked rs)) a \<and> a_text a = concat (map said rs) \<and>
     a_reasoning a = concat (map thought rs) \<and> a_error a = None \<and> a_finish a = None"

lemma reply_feed:
  assumes "has_read rs a" "distinct (map fst (concat (map asked (rs @ [r]))))"
  shows "running (reply_yields r) \<and> has_read (rs @ [r]) (feed (reply_yields r) a)"
proof (cases r)
  case (Asks d n ps)
  then show ?thesis
    using assms ask_feed [of "concat (map asked rs)" a d _ n ps] by (simp add: has_read_def same_rest_def)
qed (use assms in \<open>simp_all add: has_read_def text_parts_feed text_parts_rest\<close>)

lemma replies_feed:
  assumes "as_tools s = []" "has_read ps a" "distinct (map fst (concat (map asked (ps @ map snd rs))))"
    "list_all (\<lambda>c. fst c \<noteq> [] \<and> fst (snd c) \<noteq> []) (concat (map asked (map snd rs)))"
  shows "\<exists>v. sse_events an_event_step (concat (map reply_events rs)) s = (v, Some s) \<and> running v \<and> has_read (ps @ map snd rs) (feed v a)"
  using assms(2-4)
proof (induction rs arbitrary: ps a)
  case (Cons r rs)
  obtain i q where r: "r = (i, q)" by (cases r)
  have q: "running (reply_yields q) \<and> has_read (ps @ [q]) (feed (reply_yields q) a)"
    using Cons.prems(2) by (intro reply_feed [OF Cons.prems(1)]) (simp add: r Int_Un_distrib)
  have step: "sse_events an_event_step (reply_events (i, q)) s = (reply_yields q, Some s)"
    using Cons.prems(3) by (intro reply_steps [OF assms(1)]) (simp add: r)
  obtain v where "sse_events an_event_step (concat (map reply_events rs)) s = (v, Some s)" "running v"
    "has_read ((ps @ [q]) @ map snd rs) (feed v (feed (reply_yields q) a))"
    using Cons.IH [OF conjunct2 [OF q]] Cons.prems(2,3) by (auto simp: r)
  with q step show ?case by (auto simp: r intro: sse_events_two)
qed simp

lemma an_events_decoded:
  "map (\<lambda>raw. Option.bind (from_str raw) an_decode_event) raws = map Some es \<Longrightarrow>
   sse_events (an_step from_str) raws s = sse_events an_event_step es s"
proof (induction es arbitrary: raws s)
  case (Cons e es)
  then obtain r rs where "raws = r # rs" "Option.bind (from_str r) an_decode_event = Some e"
    "map (\<lambda>raw. Option.bind (from_str raw) an_decode_event) rs = map Some es" by auto
  with Cons.IH show ?case by (simp add: an_step_def split: prod.split option.split)
qed simp

lemma an_response:
  assumes "ae_kind first = lit ''message_start''" "ae_kind done = lit ''message_delta''"
    "distinct (map fst (concat (map asked (map snd rs))))"
    "list_all (\<lambda>c. fst c \<noteq> [] \<and> fst (snd c) \<noteq> []) (concat (map asked (map snd rs)))"
  shows "\<exists>v reason u. sse_events an_event_step (response_events first rs done) an_start = (v @ [Finished reason u], None) \<and>
    running v \<and> has_read (map snd rs) (feed v acc_new)"
proof -
  have 1: "an_event_step first an_start = ([], Some (message_start first an_start))"
    using assms(1) by (simp add: an_event_step_def)
  have s: "as_tools (message_start first an_start) = []" "as_finished (message_start first an_start) = False"
    by (simp_all add: message_start_def an_start_def split: option.split)
  have "has_read [] acc_new" by (simp add: has_read_def calls_seen_def acc_new_def)
  then obtain v where v: "sse_events an_event_step (concat (map reply_events rs)) (message_start first an_start) = (v, Some (message_start first an_start))"
    "running v" "has_read (map snd rs) (feed v acc_new)"
    using replies_feed [OF s(1), of "[]" acc_new rs] assms(3,4) by auto
  obtain s2 reason u where d: "an_event_step done (message_start first an_start) = ([Finished reason u], Some s2)" "as_finished s2"
    using assms(2) s(2) by (simp add: an_event_step_def message_delta_def Let_def)
  have stop: "an_event_step (plain_event ''message_stop'' 0) s2 = ([], None)"
    using d(2) by (simp add: an_event_step_def plain_event_def an_close_def)
  have "sse_events an_event_step (response_events first rs done) an_start = (v @ [Finished reason u], None)"
    by (simp add: response_events_def 1 sse_events_append v(1) d(1) stop)
  with v show ?thesis by blast
qed

text \<open>
  C27 (functional). A complete response of the Messages API becomes the turn it describes, however the
  network cuts its bytes and however the blocks are streamed in parts: no error, the joined text
  blocks, the joined thinking blocks, and one tool call per tool-use block, in order, with the block's
  id and name and its joined input. When the text carries leaked call markup, the text of the turn is
  the text the repair cleaned, and the calls it recovered follow those of the blocks.
\<close>

theorem an_turn:
  assumes "framed (concat chunks)"
    "map (\<lambda>raw. Option.bind (from_str raw) an_decode_event) (fst (drain_lines (concat chunks))) = map Some (response_events first rs done)"
    "ae_kind first = lit ''message_start''" "ae_kind done = lit ''message_delta''"
    "distinct (map fst (concat (map asked (map snd rs))))"
    "list_all (\<lambda>c. fst c \<noteq> [] \<and> fst (snd c) \<noteq> []) (concat (map asked (map snd rs)))"
    "turn = fst (run_turn heal (Inr (map Next (an_sse_stream from_str (map Some chunks)))))"
  shows "(t_error turn, t_text turn, t_reasoning turn, t_tool_calls turn) =
    (case heal (concat (map said (map snd rs))) of
       None \<Rightarrow> (None, concat (map said (map snd rs)), concat (map thought (map snd rs)),
         map entry_call (concat (map asked (map snd rs))))
     | Some (cleaned, healed) \<Rightarrow> (None, cleaned, concat (map thought (map snd rs)),
         map entry_call (concat (map asked (map snd rs))) @ healed))"
proof -
  let ?cs = "concat (map asked (map snd rs))"
  obtain v reason u where v: "sse_events an_event_step (response_events first rs done) an_start = (v @ [Finished reason u], None)"
    "running v" "has_read (map snd rs) (feed v acc_new)"
    using an_response [OF assms(3-6)] by blast
  have d: "drain_lines [] = ([], [])" by (simp add: drain_none)
  have "an_sse_stream from_str (map Some chunks) = v @ [Finished reason u]"
    using sse_stream_whole [OF d, of chunks "an_step from_str" an_close an_start] assms(1) v(1)
    by (simp add: an_sse_stream_def an_events_decoded [OF assms(2)])
  moreover have "turn_loop (map Next (v @ [Finished reason u])) acc_new = (feed v acc_new)\<lparr>a_finish := Some reason, a_usage := u\<rparr>"
    by (simp only: turn_loop_feed [OF v(2)]) simp
  moreover have "pending_calls (feed v acc_new) = map entry_call ?cs"
    using v(3) assms(5) by (intro calls_seen_pending) (simp_all add: has_read_def)
  moreover have "pending_calls (a\<lparr>a_finish := r, a_usage := w\<rparr>) = pending_calls a" for a r w
    by (simp add: pending_calls_def)
  ultimately show ?thesis
    using v(3) assms(7) by (simp add: run_turn_def Let_def has_read_def comp_def split: option.split prod.split)
qed

definition reply_json :: "ustr \<Rightarrow> json option" where
  "reply_json raw =
     (let evt = (\<lambda>kind more. Some (JObj ((lit ''type'', JStr (lit kind)) # more)))
      in if raw = lit ''a'' then evt ''message_start'' []
         else if raw = lit ''b'' then evt ''content_block_start'' [(lit ''content_block'',
             JObj [(lit ''type'', JStr (lit ''tool_use'')), (lit ''id'', JStr (lit ''t1'')), (lit ''name'', JStr (lit ''read''))])]
         else if raw = lit ''c'' then evt ''content_block_delta'' [(lit ''delta'',
             JObj [(lit ''type'', JStr (lit ''input_json_delta'')), (lit ''partial_json'', JStr (lit ''{}''))])]
         else if raw = lit ''d'' then evt ''content_block_stop'' []
         else if raw = lit ''e'' then evt ''message_delta'' []
         else if raw = lit ''f'' then evt ''message_stop'' []
         else None)"

definition reply_bytes :: "bytes list" where
  "reply_bytes = [lit ''data:a'' @ [10] @ lit ''data:b'', [10] @ lit ''data:c'' @ [10] @ lit ''data:d'' @ [10],
     lit ''data:e'' @ [10] @ lit ''data:f'' @ [10]]"

lemma reply_lines:
  "fst (drain_lines (concat reply_bytes)) = [lit ''a'', lit ''b'', lit ''c'', lit ''d'', lit ''e'', lit ''f'']"
  by code_simp

lemma reply_decodes:
  "map (\<lambda>raw. Option.bind (reply_json raw) an_decode_event) [lit ''a'', lit ''b'', lit ''c'', lit ''d'', lit ''e'', lit ''f''] =
   map Some (response_events (plain_event ''message_start'' 0) [(0, Asks (lit ''t1'') (lit ''read'') [lit ''{}''])] (plain_event ''message_delta'' 0))"
  by (simp add: response_events_def opens_def parts_def plain_event_def reply_json_def an_decode_event_def required_field_def
      from_field_def optional_def an_decode_delta_def an_decode_block_def from_option_def an_no_delta_def)

theorem an_turn_witness:
  "(let turn = fst (run_turn (\<lambda>_. None) (Inr (map Next (an_sse_stream reply_json (map Some reply_bytes)))))
    in (t_error turn, t_text turn, t_reasoning turn, t_tool_calls turn)) =
   (None, [], [], [\<lparr>tc_id = lit ''t1'', tc_kind = lit ''function'', tc_name = lit ''read'', tc_arguments = lit ''{}''\<rparr>])"
proof -
  have f: "framed (concat reply_bytes)"
    by (rule framed_short) (simp add: reply_bytes_def MAX_SSE_BUFFER_BYTES_def)
  show ?thesis
    using an_turn [OF f reply_decodes [folded reply_lines] _ _ _ _ refl, of "\<lambda>_. None"]
    by (simp add: plain_event_def entry_call_def)
qed

text \<open>The thinking budget stays below the token limit, as the API demands, whenever the limit allows it.\<close>

lemma budget_below_max:
  assumes "an_limits max_tokens reasoning = (m, Some b)" "1 < m"
  shows "b < m"
proof -
  have "m \<noteq> 0" using assms(2) by auto
  then have "m - 1 < m" by (simp add: word_less_nat_alt unat_minus_one unat_gt_0)
  then have "max (if m = 0 then 0 else m - 1) 1 < m" using assms(2) by (auto simp: max_def)
  moreover have "b \<le> max (if m = 0 then 0 else m - 1) 1"
    using assms(1) by (simp only: an_limits_def Let_def split: option.splits) auto
  ultimately show ?thesis by (rule le_less_trans [rotated])
qed

end
