(* ===== verification/Gemini.thy ===== *)
theory Gemini
  imports Provider_Request Turn_Feed Sse Serde
begin

text \<open>
  The Gemini adapter (\<open>providers/src/gemini.rs\<close>): the contents and the generation settings of a
  request, the events of a response and the batch of embeddings. The JSON library and the supply of
  UUIDs (\<open>uuid n\<close> is the n-th one drawn) are parameters.
\<close>

section \<open>The request\<close>

datatype ge_part =
    GText ustr
  | GCall ustr json
  | GResponse ustr json

fun is_response :: "ge_part \<Rightarrow> bool" where
  "is_response (GResponse n r) = True"
| "is_response _ = False"

definition json_or_empty :: "(ustr \<Rightarrow> json option) \<Rightarrow> ustr \<Rightarrow> json" where
  "json_or_empty from_str s = (case from_str s of Some v \<Rightarrow> v | None \<Rightarrow> JObj [])"

text \<open>A result that is no JSON object is boxed into one.\<close>

definition response_of :: "(ustr \<Rightarrow> json option) \<Rightarrow> message \<Rightarrow> json" where
  "response_of from_str m =
     (let boxed = JObj [(lit ''result'', JStr (m_content m)), (lit ''is_error'', JBool (m_is_error m))]
      in case from_str (m_content m) of
           Some v \<Rightarrow> if is_object v then v else boxed
         | None \<Rightarrow> boxed)"

definition ge_spelling :: "(ustr \<Rightarrow> json option) \<Rightarrow> ge_part spelling" where
  "ge_spelling from_str =
     \<lparr>sp_text = GText,
      sp_call = (\<lambda>c. GCall (tc_name c) (json_or_empty from_str (tc_arguments c))),
      sp_result = (\<lambda>m k. GResponse k (response_of from_str m)),
      sp_is_result = is_response,
      sp_key = m_name,
      sp_call_key = tc_name\<rparr>"

definition build_contents ::
  "(ustr \<Rightarrow> json option) \<Rightarrow> provider_request \<Rightarrow> ustr option \<times> ge_part wire_turn list" where
  "build_contents from_str req =
     (let s = wire_turns (ge_spelling from_str) (rq_system req) (rq_messages req)
      in (wire_system s, dropWhile is_model (ws_turns s)))"

definition ge_budget :: "reasoning_control option \<Rightarrow> u32 option" where
  "ge_budget r =
     (case r of
        Some R_Low \<Rightarrow> Some 1024
      | Some R_Medium \<Rightarrow> Some 4096
      | Some R_High \<Rightarrow> Some 16384
      | Some R_Xhigh \<Rightarrow> Some 32768
      | Some (R_Custom b) \<Rightarrow> Some b
      | _ \<Rightarrow> None)"

record ge_config =
  gc_temperature :: "ustr option"
  gc_top_p :: "ustr option"
  gc_max_output_tokens :: "u32 option"
  gc_thinking_budget :: "u32 option"

definition generation_config :: "provider_request \<Rightarrow> ge_config option" where
  "generation_config req =
     (if rq_reasoning req \<noteq> None \<or> rq_temperature req \<noteq> None \<or> rq_top_p req \<noteq> None \<or> rq_max_tokens req \<noteq> None
      then Some \<lparr>gc_temperature = rq_temperature req, gc_top_p = rq_top_p req, gc_max_output_tokens = rq_max_tokens req,
             gc_thinking_budget = ge_budget (rq_reasoning req)\<rparr>
      else None)"

record ge_request =
  gr_url :: ustr
  gr_contents :: "ge_part wire_turn list"
  gr_system :: "ustr option"
  gr_tools :: "tool_spec list option"
  gr_config :: "ge_config option"

definition ge_body :: "(ustr \<Rightarrow> json option) \<Rightarrow> ustr \<Rightarrow> ustr option \<Rightarrow> provider_request \<Rightarrow> ustr + ge_request" where
  "ge_body from_str base_url api_key req =
     (case api_key of
        None \<Rightarrow> Inl (lit ''Gemini provider requires an API key'')
      | Some key \<Rightarrow>
          (case build_contents from_str req of
             (system, contents) \<Rightarrow>
               Inr \<lparr>gr_url = trim_end_matches (\<lambda>c. c = ch (CHR ''/'')) base_url @ lit ''/v1beta/models/'' @ rq_model req @
                        lit '':streamGenerateContent?alt=sse'',
                    gr_contents = contents, gr_system = system, gr_tools = none_if_empty (rq_tools req),
                    gr_config = generation_config req\<rparr>))"

section \<open>The response\<close>

record ge_answer_part =
  gp_text :: "ustr option"
  gp_thought :: "bool option"
  gp_call :: "(ustr \<times> json) option"

record ge_usage =
  gu_prompt :: u64
  gu_candidates :: u64
  gu_cached :: u64
  gu_thoughts :: u64

type_synonym ge_candidate = "ge_answer_part list option \<times> ustr option"

record ge_chunk =
  gk_candidates :: "ge_candidate list"
  gk_usage :: "ge_usage option"

definition ge_opt :: "(json \<Rightarrow> 'a option) \<Rightarrow> json \<Rightarrow> string \<Rightarrow> 'a option option" where
  "ge_opt dec j key = from_field (from_option dec) None j key"

text \<open>A call needs both members: without \<open>args\<close> the value does not decode.\<close>

definition ge_decode_call :: "json \<Rightarrow> (ustr \<times> json) option" where
  "ge_decode_call j =
     (if \<not> is_object j then None
      else case required_field as_str j ''name'' of None \<Rightarrow> None | Some n \<Rightarrow>
        (case required_field Some j ''args'' of None \<Rightarrow> None | Some a \<Rightarrow> Some (n, a)))"

definition ge_decode_part :: "json \<Rightarrow> ge_answer_part option" where
  "ge_decode_part j =
     (if \<not> is_object j then None
      else case ge_opt as_str j ''text'' of None \<Rightarrow> None | Some t \<Rightarrow>
        (case ge_opt as_bool j ''thought'' of None \<Rightarrow> None | Some h \<Rightarrow>
        (case ge_opt ge_decode_call j ''functionCall'' of None \<Rightarrow> None | Some c \<Rightarrow>
           Some \<lparr>gp_text = t, gp_thought = h, gp_call = c\<rparr>)))"

definition ge_decode_content :: "json \<Rightarrow> ge_answer_part list option" where
  "ge_decode_content j =
     (if \<not> is_object j then None
      else case from_field (from_list ge_decode_part) [] j ''parts'' of None \<Rightarrow> None | Some ps \<Rightarrow>
        (case ge_opt as_str j ''role'' of None \<Rightarrow> None | Some (_ :: ustr option) \<Rightarrow> Some ps))"

definition ge_decode_candidate :: "json \<Rightarrow> ge_candidate option" where
  "ge_decode_candidate j =
     (if \<not> is_object j then None
      else case ge_opt ge_decode_content j ''content'' of None \<Rightarrow> None | Some c \<Rightarrow>
        (case ge_opt as_str j ''finishReason'' of None \<Rightarrow> None | Some f \<Rightarrow> Some (c, f)))"

definition ge_decode_usage :: "json \<Rightarrow> ge_usage option" where
  "ge_decode_usage j =
     (if \<not> is_object j then None
      else case from_field as_u64 0 j ''promptTokenCount'' of None \<Rightarrow> None | Some p \<Rightarrow>
        (case from_field as_u64 0 j ''candidatesTokenCount'' of None \<Rightarrow> None | Some c \<Rightarrow>
        (case from_field as_u64 0 j ''cachedContentTokenCount'' of None \<Rightarrow> None | Some k \<Rightarrow>
        (case from_field as_u64 0 j ''thoughtsTokenCount'' of None \<Rightarrow> None | Some t \<Rightarrow>
           Some \<lparr>gu_prompt = p, gu_candidates = c, gu_cached = k, gu_thoughts = t\<rparr>))))"

definition ge_decode_chunk :: "json \<Rightarrow> ge_chunk option" where
  "ge_decode_chunk j =
     (if \<not> is_object j then None
      else case from_field (from_list ge_decode_candidate) [] j ''candidates'' of None \<Rightarrow> None | Some cs \<Rightarrow>
        (case ge_opt ge_decode_usage j ''usageMetadata'' of None \<Rightarrow> None | Some u \<Rightarrow>
        (case ge_opt as_str j ''modelVersion'' of None \<Rightarrow> None | Some (_ :: ustr option) \<Rightarrow>
           Some \<lparr>gk_candidates = cs, gk_usage = u\<rparr>)))"

record ge_state =
  gs_finish :: "ustr option"
  gs_usage :: "usage option"
  gs_drawn :: nat

definition ge_start :: ge_state where
  "ge_start = \<lparr>gs_finish = None, gs_usage = None, gs_drawn = 0\<rparr>"

definition ge_id :: "(nat \<Rightarrow> ustr) \<Rightarrow> nat \<Rightarrow> ustr" where
  "ge_id uuid n = lit ''gemini-'' @ uuid n"

definition ge_part_step ::
  "(json \<Rightarrow> ustr) \<Rightarrow> (nat \<Rightarrow> ustr) \<Rightarrow> ge_answer_part \<Rightarrow> nat \<Rightarrow> stream_event list \<times> nat" where
  "ge_part_step to_str uuid p n =
     (let words = text_events (if gp_thought p = Some True then ReasoningDelta else TextDelta) (gp_text p)
      in case gp_call p of
           None \<Rightarrow> (words, n)
         | Some (name, args) \<Rightarrow> (words @ whole_call (ge_id uuid n, name, to_str args), Suc n))"

fun ge_parts_steps ::
  "(json \<Rightarrow> ustr) \<Rightarrow> (nat \<Rightarrow> ustr) \<Rightarrow> ge_answer_part list \<Rightarrow> nat \<Rightarrow> stream_event list \<times> nat" where
  "ge_parts_steps to_str uuid [] n = ([], n)"
| "ge_parts_steps to_str uuid (p # ps) n =
     (case ge_part_step to_str uuid p n of (v, n1) \<Rightarrow>
      (case ge_parts_steps to_str uuid ps n1 of (vs, n2) \<Rightarrow> (v @ vs, n2)))"

fun ge_candidates_steps ::
  "(json \<Rightarrow> ustr) \<Rightarrow> (nat \<Rightarrow> ustr) \<Rightarrow> ge_candidate list \<Rightarrow> ge_state \<Rightarrow> stream_event list \<times> ge_state" where
  "ge_candidates_steps to_str uuid [] s = ([], s)"
| "ge_candidates_steps to_str uuid ((content, finish) # cs) s =
     (case ge_parts_steps to_str uuid (case content of Some ps \<Rightarrow> ps | None \<Rightarrow> []) (gs_drawn s) of (v, n) \<Rightarrow>
      (case ge_candidates_steps to_str uuid cs
              (s\<lparr>gs_drawn := n, gs_finish := (if gs_finish s = None then finish else gs_finish s)\<rparr>) of
         (vs, s') \<Rightarrow> (v @ vs, s')))"

definition ge_usage_of :: "ge_usage \<Rightarrow> usage" where
  "ge_usage_of u = \<lparr>u_input = gu_prompt u, u_output = gu_candidates u + gu_thoughts u, u_cache_read = gu_cached u,
     u_cache_write = 0, u_context = Some (gu_prompt u)\<rparr>"

definition ge_chunk_step ::
  "(json \<Rightarrow> ustr) \<Rightarrow> (nat \<Rightarrow> ustr) \<Rightarrow> ge_chunk \<Rightarrow> ge_state \<Rightarrow> stream_event list \<times> ge_state option" where
  "ge_chunk_step to_str uuid k s0 =
     (let s1 = (case gk_usage k of Some u \<Rightarrow> s0\<lparr>gs_usage := Some (ge_usage_of u)\<rparr> | None \<Rightarrow> s0)
      in case ge_candidates_steps to_str uuid (gk_candidates k) s1 of
           (v, s2) \<Rightarrow>
             (case (gs_finish s2, gs_usage s2) of
                (Some r, Some u) \<Rightarrow> (v @ [Finished r (Some u)], None)
              | _ \<Rightarrow> (v, Some s2)))"

definition ge_step ::
  "(ustr \<Rightarrow> json option) \<Rightarrow> (json \<Rightarrow> ustr) \<Rightarrow> (nat \<Rightarrow> ustr) \<Rightarrow> ustr \<Rightarrow> ge_state \<Rightarrow> stream_event list \<times> ge_state option" where
  "ge_step from_str to_str uuid raw s =
     (if raw = [] then ([], Some s)
      else case Option.bind (from_str raw) ge_decode_chunk of
             None \<Rightarrow> ([], Some s)
           | Some k \<Rightarrow> ge_chunk_step to_str uuid k s)"

definition ge_close :: "ge_state \<Rightarrow> stream_event list" where
  "ge_close s = (case gs_finish s of Some r \<Rightarrow> [Finished r (gs_usage s)] | None \<Rightarrow> [])"

definition ge_sse_stream ::
  "(ustr \<Rightarrow> json option) \<Rightarrow> (json \<Rightarrow> ustr) \<Rightarrow> (nat \<Rightarrow> ustr) \<Rightarrow> bytes option list \<Rightarrow> stream_event list" where
  "ge_sse_stream from_str to_str uuid chunks = sse_stream (ge_step from_str to_str uuid) ge_close [] chunks ge_start"

text \<open>The model name of an embeddings call, and the count check of its answer.\<close>

definition ge_model_name :: "ustr \<Rightarrow> ustr" where
  "ge_model_name model = (if starts_with model (lit ''models/'') then model else lit ''models/'' @ model)"

definition ge_embeddings :: "'v list \<Rightarrow> nat \<Rightarrow> ustr + 'v list" where
  "ge_embeddings vs expected =
     (if length vs \<noteq> expected then Inl (lit ''batchEmbedContents returned the wrong count'') else Inr vs)"

section \<open>The contents the API accepts\<close>

fun call_name :: "ge_part \<Rightarrow> ustr option" where
  "call_name (GCall n a) = Some n"
| "call_name _ = None"

fun response_name :: "ge_part \<Rightarrow> ustr option" where
  "response_name (GResponse n r) = Some n"
| "response_name _ = None"

interpretation ge: wire_spelling "ge_spelling from_str" call_name response_name for from_str
proof
  fix b :: ge_part
  show "sp_is_result (ge_spelling from_str) b \<longleftrightarrow> response_name b \<noteq> None"
    by (cases b) (simp_all add: ge_spelling_def)
qed (simp_all add: ge_spelling_def)

text \<open>
  For a history that opens with the user's words, whatever was lost from it afterwards,
  every function response sent to Gemini stands in a user turn directly after the model turn that
  holds a call of that function.
\<close>

theorem ge_responses_answer_calls:
  assumes "rq_messages req = m # ms" "m_role m = lit ''user''" "m_content m \<noteq> []"
  shows "answered_turns call_name response_name (snd (build_contents from_str req))"
proof -
  let ?ts = "ws_turns (wire_turns (ge_spelling from_str) (rq_system req) (rq_messages req))"
  obtain us where "?ts = From_User [sp_text (ge_spelling from_str) (m_content m)] # us"
    using ge.first_user [of m from_str "rq_system req" ms] assms by (auto simp: is_role_def)
  then have "dropWhile is_model ?ts = ?ts" by simp
  then show ?thesis
    using ge.turns_answered [of from_str "rq_system req" "rq_messages req"] by (simp add: build_contents_def Let_def)
qed

text \<open>Without that, the trimming of the leading model turn leaves its response as an orphan.\<close>

definition ge_call :: tool_call where
  "ge_call = \<lparr>tc_id = lit ''c1'', tc_kind = lit ''function'', tc_name = lit ''read'', tc_arguments = lit ''{}''\<rparr>"

definition ge_history :: "message list \<Rightarrow> provider_request" where
  "ge_history ms = \<lparr>rq_model = lit ''m'', rq_messages = ms, rq_system = None, rq_tools = [], rq_temperature = None,
     rq_top_p = None, rq_max_tokens = None, rq_reasoning = None, rq_session_id = None, rq_context_window = None,
     rq_keep_alive = None\<rparr>"

lemma trimming_orphans_response:
  "answered_turns call_name response_name (snd (build_contents (\<lambda>_. None) (ge_history
     [assistant_with_tools [] [ge_call], tool_result ge_call (lit ''ok'') False, message_text (lit ''user'') (lit ''next'')]))) = False"
  by code_simp

theorem ge_responses_answer_calls_witness:
  "answered_turns call_name response_name (snd (build_contents (\<lambda>_. None) (ge_history
     [message_text (lit ''user'') (lit ''go''), assistant_with_tools [] [ge_call], tool_result ge_call (lit ''ok'') False])))"
  by (rule ge_responses_answer_calls [where m = "message_text (lit ''user'') (lit ''go'')"
      and ms = "[assistant_with_tools [] [ge_call], tool_result ge_call (lit ''ok'') False]"])
     (simp_all add: ge_history_def message_text_def)

text \<open>A call without \<open>args\<close>, which the API may send for a function without parameters, loses its whole chunk.\<close>

lemma call_without_args_is_lost:
  "ge_decode_chunk (JObj [(lit ''candidates'', JArr [JObj [(lit ''content'', JObj [(lit ''parts'',
     JArr [JObj [(lit ''text'', JStr (lit ''hi''))], JObj [(lit ''functionCall'', JObj [(lit ''name'', JStr (lit ''now''))])]])])]])]) = None"
  by code_simp

text \<open>A failed tool whose output is a JSON object is not marked as failed.\<close>

lemma object_result_drops_error:
  "response_of (\<lambda>_. Some (JObj [(lit ''x'', JInt 1)])) (tool_result ge_call (lit ''..'') True) =
   response_of (\<lambda>_. Some (JObj [(lit ''x'', JInt 1)])) (tool_result ge_call (lit ''..'') False)"
  by (simp add: response_of_def tool_result_def)

section \<open>The turn of a complete response\<close>

definition part_text :: "ge_answer_part \<Rightarrow> ustr" where
  "part_text p = (if gp_thought p = Some True then [] else some_text (gp_text p))"

definition part_thought :: "ge_answer_part \<Rightarrow> ustr" where
  "part_thought p = (if gp_thought p = Some True then some_text (gp_text p) else [])"

text \<open>The calls of the parts, with the ids drawn for them.\<close>

fun ge_calls :: "(json \<Rightarrow> ustr) \<Rightarrow> (nat \<Rightarrow> ustr) \<Rightarrow> nat \<Rightarrow> ge_answer_part list \<Rightarrow> call_entry list" where
  "ge_calls to_str uuid n [] = []"
| "ge_calls to_str uuid n (p # ps) =
     (case gp_call p of
        None \<Rightarrow> ge_calls to_str uuid n ps
      | Some (name, args) \<Rightarrow> (ge_id uuid n, name, to_str args) # ge_calls to_str uuid (Suc n) ps)"

lemma ge_calls_append:
  "ge_calls to_str uuid n (ps @ qs) = ge_calls to_str uuid n ps @ ge_calls to_str uuid (n + length (ge_calls to_str uuid n ps)) qs"
  by (induction ps arbitrary: n) (auto split: option.split)

lemma ge_calls_ids:
  "map fst (ge_calls to_str uuid n ps) = map (ge_id uuid) [n..<n + length (ge_calls to_str uuid n ps)]"
  by (induction ps arbitrary: n) (auto split: option.split simp: upt_conv_Cons simp del: upt_Suc)

lemma ge_id_inj: "inj uuid \<Longrightarrow> ge_id uuid m = ge_id uuid n \<longleftrightarrow> m = n"
  by (simp add: ge_id_def inj_eq)

lemma ge_calls_distinct: "inj uuid \<Longrightarrow> distinct (map fst (ge_calls to_str uuid n ps))"
  unfolding ge_calls_ids by (simp add: distinct_map inj_on_def ge_id_inj)

definition has_got :: "(json \<Rightarrow> ustr) \<Rightarrow> (nat \<Rightarrow> ustr) \<Rightarrow> ge_answer_part list \<Rightarrow> turn_acc \<Rightarrow> bool" where
  "has_got to_str uuid ps a \<longleftrightarrow> calls_seen (ge_calls to_str uuid 0 ps) a \<and> a_text a = concat (map part_text ps) \<and>
     a_reasoning a = concat (map part_thought ps) \<and> a_error a = None \<and> a_finish a = None"

lemma calls_seen_text [simp]:
  "calls_seen cs (feed (text_events TextDelta t) a) = calls_seen cs a"
  "calls_seen cs (feed (text_events ReasoningDelta t) a) = calls_seen cs a"
  by (simp_all add: text_events_def calls_seen_def split: option.split)

lemma ge_part_feed:
  assumes "inj uuid" "has_got to_str uuid ps a" "n = length (ge_calls to_str uuid 0 ps)"
    "ge_part_step to_str uuid p n = (v, m)"
  shows "running v \<and> has_got to_str uuid (ps @ [p]) (feed v a) \<and> m = length (ge_calls to_str uuid 0 (ps @ [p]))"
proof -
  define words where "words = text_events (if gp_thought p = Some True then ReasoningDelta else TextDelta) (gp_text p)"
  let ?b = "feed words a"
  have w: "running words" "a_text ?b = concat (map part_text (ps @ [p]))" "a_reasoning ?b = concat (map part_thought (ps @ [p]))"
    "a_error ?b = None" "a_finish ?b = None" "calls_seen (ge_calls to_str uuid 0 ps) ?b"
    using assms(2) by (simp_all add: words_def has_got_def text_events_feed part_text_def part_thought_def)
  show ?thesis
  proof (cases "gp_call p")
    case None
    with w assms(3,4) show ?thesis
      by (simp add: ge_part_step_def has_got_def ge_calls_append words_def Let_def)
  next
    case (Some call)
    obtain nm args where c: "call = (nm, args)" by (cases call)
    let ?c = "(ge_id uuid n, nm, to_str args)"
    have "fst ?c \<notin> set (map fst (ge_calls to_str uuid 0 ps))"
      unfolding ge_calls_ids using assms(1,3) by (auto simp: ge_id_inj)
    from whole_call_feed [OF w(6) this] Some c assms(3,4) w show ?thesis
      by (auto simp: ge_part_step_def has_got_def ge_calls_append words_def [symmetric] Let_def same_rest_def)
  qed
qed

lemma ge_parts_feed:
  assumes "inj uuid" "has_got to_str uuid ps a" "n = length (ge_calls to_str uuid 0 ps)"
    "ge_parts_steps to_str uuid qs n = (v, m)"
  shows "running v \<and> has_got to_str uuid (ps @ qs) (feed v a) \<and> m = length (ge_calls to_str uuid 0 (ps @ qs))"
  using assms(2-4)
proof (induction qs arbitrary: ps a n v m)
  case (Cons q qs)
  obtain v1 n1 where 1: "ge_part_step to_str uuid q n = (v1, n1)" by (cases "ge_part_step to_str uuid q n")
  obtain v2 n2 where 2: "ge_parts_steps to_str uuid qs n1 = (v2, n2)" by (cases "ge_parts_steps to_str uuid qs n1")
  have a: "running v1 \<and> has_got to_str uuid (ps @ [q]) (feed v1 a) \<and> n1 = length (ge_calls to_str uuid 0 (ps @ [q]))"
    by (rule ge_part_feed [OF assms(1) Cons.prems(1,2) 1])
  have "running v2 \<and> has_got to_str uuid ((ps @ [q]) @ qs) (feed v2 (feed v1 a)) \<and> n2 = length (ge_calls to_str uuid 0 ((ps @ [q]) @ qs))"
    using a 2 by (intro Cons.IH) auto
  moreover have "v = v1 @ v2" "m = n2" using Cons.prems(3) by (simp_all add: 1 2)
  ultimately show ?case using a by simp
qed simp

definition candidate_parts :: "ge_candidate \<Rightarrow> ge_answer_part list" where
  "candidate_parts c = (case fst c of Some ps \<Rightarrow> ps | None \<Rightarrow> [])"

fun first_reason :: "ge_candidate list \<Rightarrow> ustr option" where
  "first_reason [] = None"
| "first_reason (c # cs) = (if snd c = None then first_reason cs else snd c)"

lemma ge_candidates_feed:
  assumes "inj uuid" "has_got to_str uuid ps a" "gs_drawn s = length (ge_calls to_str uuid 0 ps)"
    "ge_candidates_steps to_str uuid cs s = (v, s')"
  shows "running v \<and> has_got to_str uuid (ps @ concat (map candidate_parts cs)) (feed v a) \<and>
    gs_drawn s' = length (ge_calls to_str uuid 0 (ps @ concat (map candidate_parts cs))) \<and>
    gs_usage s' = gs_usage s \<and> gs_finish s' = (if gs_finish s = None then first_reason cs else gs_finish s)"
  using assms(2-4)
proof (induction cs arbitrary: ps a s v s')
  case (Cons c cs)
  obtain content fin where c: "c = (content, fin)" by (cases c)
  obtain v1 n where 1: "ge_parts_steps to_str uuid (candidate_parts c) (gs_drawn s) = (v1, n)"
    by (cases "ge_parts_steps to_str uuid (candidate_parts c) (gs_drawn s)")
  let ?s = "s\<lparr>gs_drawn := n, gs_finish := (if gs_finish s = None then fin else gs_finish s)\<rparr>"
  obtain v2 s2 where 2: "ge_candidates_steps to_str uuid cs ?s = (v2, s2)" by (cases "ge_candidates_steps to_str uuid cs ?s")
  have a: "running v1 \<and> has_got to_str uuid (ps @ candidate_parts c) (feed v1 a) \<and> n = length (ge_calls to_str uuid 0 (ps @ candidate_parts c))"
    by (rule ge_parts_feed [OF assms(1) Cons.prems(1,2) 1])
  have e: "v = v1 @ v2" "s' = s2"
    using Cons.prems(3) 1 2 by (simp_all add: c candidate_parts_def)
  have "running v2 \<and> has_got to_str uuid ((ps @ candidate_parts c) @ concat (map candidate_parts cs)) (feed v2 (feed v1 a)) \<and>
    gs_drawn s' = length (ge_calls to_str uuid 0 ((ps @ candidate_parts c) @ concat (map candidate_parts cs))) \<and>
    gs_usage s' = gs_usage ?s \<and> gs_finish s' = (if gs_finish ?s = None then first_reason cs else gs_finish ?s)"
    using a 2 e(2) by (intro Cons.IH) auto
  with a e(1) show ?case by (auto simp: c)
qed simp

text \<open>A response whose last chunk alone gives the finish reason.\<close>

definition chunk_parts :: "ge_chunk \<Rightarrow> ge_answer_part list" where
  "chunk_parts k = concat (map candidate_parts (gk_candidates k))"

definition chunk_reason :: "ge_chunk \<Rightarrow> ustr option" where
  "chunk_reason k = first_reason (gk_candidates k)"

lemma ge_body_feed:
  assumes "inj uuid" "has_got to_str uuid ps a" "gs_drawn s = length (ge_calls to_str uuid 0 ps)" "gs_finish s = None"
    "list_all (\<lambda>k. chunk_reason k = None) ks"
  shows "\<exists>v s'. sse_events (ge_chunk_step to_str uuid) ks s = (v, Some s') \<and> running v \<and>
    has_got to_str uuid (ps @ concat (map chunk_parts ks)) (feed v a) \<and>
    gs_drawn s' = length (ge_calls to_str uuid 0 (ps @ concat (map chunk_parts ks))) \<and> gs_finish s' = None"
  using assms(2-5)
proof (induction ks arbitrary: ps a s)
  case (Cons k ks)
  let ?s = "case gk_usage k of Some u \<Rightarrow> s\<lparr>gs_usage := Some (ge_usage_of u)\<rparr> | None \<Rightarrow> s"
  obtain v1 s1 where 1: "ge_candidates_steps to_str uuid (gk_candidates k) ?s = (v1, s1)" by (cases "ge_candidates_steps to_str uuid (gk_candidates k) ?s")
  have q: "gs_drawn ?s = gs_drawn s" "gs_finish ?s = None" using Cons.prems(3) by (simp_all split: option.split)
  have a: "running v1 \<and> has_got to_str uuid (ps @ chunk_parts k) (feed v1 a) \<and>
      gs_drawn s1 = length (ge_calls to_str uuid 0 (ps @ chunk_parts k)) \<and> gs_finish s1 = None"
    using ge_candidates_feed [OF assms(1) Cons.prems(1) _ 1] Cons.prems(2,4) q by (simp add: chunk_parts_def chunk_reason_def)
  then have step: "ge_chunk_step to_str uuid k s = (v1, Some s1)"
    by (simp add: ge_chunk_step_def 1)
  obtain v s' where "sse_events (ge_chunk_step to_str uuid) ks s1 = (v, Some s')" "running v"
    "has_got to_str uuid ((ps @ chunk_parts k) @ concat (map chunk_parts ks)) (feed v (feed v1 a))"
    "gs_drawn s' = length (ge_calls to_str uuid 0 ((ps @ chunk_parts k) @ concat (map chunk_parts ks)))" "gs_finish s' = None"
    using Cons.IH [of "ps @ chunk_parts k" "feed v1 a" s1] a Cons.prems(4) by auto
  with a step show ?case by auto
qed simp

lemma ge_decoded:
  "map (\<lambda>raw. Option.bind (from_str raw) ge_decode_chunk) raws = map Some ks \<Longrightarrow> [] \<notin> set raws \<Longrightarrow>
   sse_events (ge_step from_str to_str uuid) raws s = sse_events (ge_chunk_step to_str uuid) ks s"
proof (induction ks arbitrary: raws s)
  case (Cons k ks)
  then obtain r rs where "raws = r # rs" "Option.bind (from_str r) ge_decode_chunk = Some k"
    "map (\<lambda>raw. Option.bind (from_str raw) ge_decode_chunk) rs = map Some ks" by auto
  moreover from this Cons.prems(2) have "ge_step from_str to_str uuid r s = ge_chunk_step to_str uuid k s"
    by (auto simp: ge_step_def)
  ultimately show ?case using Cons by (simp split: prod.split option.split)
qed simp

text \<open>
  A complete response of Gemini becomes the turn it describes, however the network
  cuts its bytes: no error, the joined text of the answer parts, the joined text of the thought
  parts, and one tool call per function call, in order, repeated identical calls included, each under
  an id of its own; leaked call markup in the text is repaired as for the other providers.
\<close>

theorem ge_turn:
  assumes "framed (concat chunks)" "fst (drain_lines (concat chunks)) = raws" "[] \<notin> set raws"
    "map (\<lambda>raw. Option.bind (from_str raw) ge_decode_chunk) raws = map Some (body @ [fin])"
    "list_all (\<lambda>k. chunk_reason k = None) body" "chunk_reason fin \<noteq> None" "inj uuid"
    "ps = concat (map chunk_parts (body @ [fin]))"
    "turn = fst (run_turn heal (Inr (map Next (ge_sse_stream from_str to_str uuid (map Some chunks)))))"
  shows "(t_error turn, t_text turn, t_reasoning turn, t_tool_calls turn) =
    (case heal (concat (map part_text ps)) of
       None \<Rightarrow> (None, concat (map part_text ps), concat (map part_thought ps),
         map entry_call (ge_calls to_str uuid 0 ps))
     | Some (cleaned, healed) \<Rightarrow> (None, cleaned, concat (map part_thought ps),
         map entry_call (ge_calls to_str uuid 0 ps) @ healed))"
proof -
  have "has_got to_str uuid [] acc_new" by (simp add: has_got_def calls_seen_def acc_new_def)
  then obtain v1 s1 where 1: "sse_events (ge_chunk_step to_str uuid) body ge_start = (v1, Some s1)" "running v1"
    "has_got to_str uuid (concat (map chunk_parts body)) (feed v1 acc_new)"
    "gs_drawn s1 = length (ge_calls to_str uuid 0 (concat (map chunk_parts body)))" "gs_finish s1 = None"
    using ge_body_feed [OF assms(7), of to_str "[]" acc_new ge_start body] assms(5) by (auto simp: ge_start_def)
  let ?s = "case gk_usage fin of Some u \<Rightarrow> s1\<lparr>gs_usage := Some (ge_usage_of u)\<rparr> | None \<Rightarrow> s1"
  obtain v2 s2 where 2: "ge_candidates_steps to_str uuid (gk_candidates fin) ?s = (v2, s2)" by (cases "ge_candidates_steps to_str uuid (gk_candidates fin) ?s")
  have q: "gs_drawn ?s = gs_drawn s1" "gs_finish ?s = None" using 1(5) by (simp_all split: option.split)
  have f: "running v2 \<and> has_got to_str uuid ps (feed v2 (feed v1 acc_new))" "gs_finish s2 \<noteq> None"
    using ge_candidates_feed [OF assms(7) 1(3) _ 2] 1(4) q assms(6) by (simp_all add: assms(8) chunk_parts_def chunk_reason_def)
  have "ge_chunk_step to_str uuid fin s1 = (case (gs_finish s2, gs_usage s2) of
      (Some r, Some u) \<Rightarrow> (v2 @ [Finished r (Some u)], None) | _ \<Rightarrow> (v2, Some s2))"
    by (simp add: ge_chunk_step_def 2)
  then obtain reason u where e: "(case sse_events (ge_step from_str to_str uuid) raws ge_start of
      (es, None) \<Rightarrow> es | (es, Some s) \<Rightarrow> es @ ge_close s) = (v1 @ v2) @ [Finished reason u]"
    using f(2) unfolding ge_decoded [OF assms(4,3)] by (auto simp: sse_events_append 1(1) ge_close_def split: option.splits)
  have d: "drain_lines [] = ([], [])" by (simp add: drain_none)
  have "ge_sse_stream from_str to_str uuid (map Some chunks) = (v1 @ v2) @ [Finished reason u]"
    using sse_stream_whole [OF d, of chunks "ge_step from_str to_str uuid" ge_close ge_start] assms(1,2) e
    by (simp add: ge_sse_stream_def)
  moreover have "turn_loop (map Next ((v1 @ v2) @ [Finished reason u])) acc_new = (feed (v1 @ v2) acc_new)\<lparr>a_finish := Some reason, a_usage := u\<rparr>"
    using 1(2) f(1) by (subst turn_loop_feed) simp_all
  moreover have "pending_calls (feed (v1 @ v2) acc_new) = map entry_call (ge_calls to_str uuid 0 ps)"
    using f(1) ge_calls_distinct [OF assms(7)] by (intro calls_seen_pending) (simp_all add: has_got_def)
  moreover have "pending_calls (a\<lparr>a_finish := r, a_usage := w\<rparr>) = pending_calls a" for a r w
    by (simp add: pending_calls_def)
  ultimately show ?thesis
    using f(1) assms(9) by (simp add: run_turn_def Let_def has_got_def split: option.split prod.split)
qed

definition answer_json :: "ustr \<Rightarrow> json option" where
  "answer_json raw =
     (if raw = lit ''a'' then
        Some (JObj [(lit ''candidates'', JArr [JObj [(lit ''content'', JObj [(lit ''parts'', JArr
          [JObj [(lit ''text'', JStr (lit ''hm'')), (lit ''thought'', JBool True)],
           JObj [(lit ''functionCall'', JObj [(lit ''name'', JStr (lit ''ls'')), (lit ''args'', JNull)])],
           JObj [(lit ''functionCall'', JObj [(lit ''name'', JStr (lit ''ls'')), (lit ''args'', JNull)])]])]),
          (lit ''finishReason'', JStr (lit ''STOP''))]])])
      else None)"

definition answer_chunk :: ge_chunk where
  "answer_chunk = \<lparr>gk_candidates = [(Some
      [\<lparr>gp_text = Some (lit ''hm''), gp_thought = Some True, gp_call = None\<rparr>,
       \<lparr>gp_text = None, gp_thought = None, gp_call = Some (lit ''ls'', JNull)\<rparr>,
       \<lparr>gp_text = None, gp_thought = None, gp_call = Some (lit ''ls'', JNull)\<rparr>], Some (lit ''STOP''))], gk_usage = None\<rparr>"

lemma answer_decodes: "map (\<lambda>raw. Option.bind (answer_json raw) ge_decode_chunk) [lit ''a''] = map Some ([] @ [answer_chunk])"
  by (simp add: answer_json_def answer_chunk_def ge_decode_chunk_def ge_decode_candidate_def ge_decode_content_def
      ge_decode_part_def ge_decode_call_def ge_opt_def from_field_def from_option_def from_list_def required_field_def)

lemma answer_lines: "fst (drain_lines (concat [lit ''data'', lit '':a'' @ [10]])) = [lit ''a'']"
  by code_simp

theorem ge_turn_witness:
  "(let turn = fst (run_turn (\<lambda>_. None) (Inr (map Next (ge_sse_stream answer_json (\<lambda>_. lit ''{}'') (\<lambda>n. [int n])
        (map Some [lit ''data'', lit '':a'' @ [10]])))))
    in (t_error turn, t_text turn, t_reasoning turn, t_tool_calls turn)) =
   (None, [], lit ''hm'',
    [\<lparr>tc_id = lit ''gemini-'' @ [0], tc_kind = lit ''function'', tc_name = lit ''ls'', tc_arguments = lit ''{}''\<rparr>,
     \<lparr>tc_id = lit ''gemini-'' @ [1], tc_kind = lit ''function'', tc_name = lit ''ls'', tc_arguments = lit ''{}''\<rparr>])"
proof -
  have f: "framed (concat [lit ''data'', lit '':a'' @ [10]])"
    by (rule framed_short) (simp add: MAX_SSE_BUFFER_BYTES_def)
  have i: "inj (\<lambda>n. [int n])" by (simp add: inj_on_def)
  have r: "chunk_reason answer_chunk \<noteq> None" by (simp add: chunk_reason_def answer_chunk_def)
  have ne: "[] \<notin> set [lit ''a'']" by (simp add: lit_def)
  show ?thesis
    using ge_turn [OF f answer_lines ne answer_decodes _ r i refl refl, of "\<lambda>_. None" "\<lambda>_. lit ''{}''"]
    by (simp add: answer_chunk_def chunk_parts_def candidate_parts_def part_text_def part_thought_def some_text_def entry_call_def ge_id_def Let_def)
qed

end
