(* ===== verification/Ollama.thy ===== *)
theory Ollama
  imports Provider_Request Turn_Feed Sse
begin

text \<open>
  The native Ollama transport (\<open>providers/src/ollama.rs\<close>): the request body, the retry without
  thinking, and the stream of newline-separated JSON objects. The JSON library, the server and the
  supply of UUIDs are parameters; members of a JSON object stand in the order they are inserted.
\<close>

section \<open>The request\<close>

definition tool_call_json :: "(ustr \<Rightarrow> json option) \<Rightarrow> tool_call \<Rightarrow> json" where
  "tool_call_json from_str c =
     JObj [(lit ''function'', JObj
       [(lit ''name'', JStr (tc_name c)),
        (lit ''arguments'', case from_str (tc_arguments c) of Some v \<Rightarrow> v | None \<Rightarrow> JObj [])])]"

definition ollama_message :: "(ustr \<Rightarrow> json option) \<Rightarrow> message \<Rightarrow> json" where
  "ollama_message from_str m =
     JObj ([(lit ''role'', JStr (m_role m)), (lit ''content'', JStr (m_content m))] @
       (if m_tool_calls m \<noteq> [] then [(lit ''tool_calls'', JArr (map (tool_call_json from_str) (m_tool_calls m)))] else []) @
       (if is_role m ''tool'' then (case m_name m of Some n \<Rightarrow> [(lit ''tool_name'', JStr n)] | None \<Rightarrow> []) else []))"

definition ollama_messages :: "(ustr \<Rightarrow> json option) \<Rightarrow> provider_request \<Rightarrow> json list" where
  "ollama_messages from_str req =
     (case rq_system req of
        Some s \<Rightarrow> if s \<noteq> [] then [JObj [(lit ''role'', JStr (lit ''system'')), (lit ''content'', JStr s)]] else []
      | None \<Rightarrow> []) @
     map (\<lambda>i. ollama_message from_str (rq_messages req ! i)) (resolved_history_indices (rq_messages req))"

definition member :: "string \<Rightarrow> ('a \<Rightarrow> json) \<Rightarrow> 'a option \<Rightarrow> (ustr \<times> json) list" where
  "member key enc v = (case v of Some x \<Rightarrow> [(lit key, enc x)] | None \<Rightarrow> [])"

definition thinking_requested :: "provider_request \<Rightarrow> bool" where
  "thinking_requested req \<longleftrightarrow> rq_reasoning req \<noteq> None \<and> rq_reasoning req \<noteq> Some R_Off"

definition tool_json :: "tool_spec \<Rightarrow> json" where
  "tool_json t =
     JObj [(lit ''type'', JStr (lit ''function'')), (lit ''function'', JObj
       [(lit ''name'', JStr (ts_name t)), (lit ''description'', JStr (ts_description t)), (lit ''parameters'', ts_parameters t)])]"

definition ollama_options :: "provider_request \<Rightarrow> (ustr \<times> json) list" where
  "ollama_options req =
     member ''temperature'' JFloat (rq_temperature req) @ member ''top_p'' JFloat (rq_top_p req) @
     member ''num_predict'' jword (rq_max_tokens req) @
     member ''num_ctx'' jword (case rq_context_window req of Some w \<Rightarrow> if w > 0 then Some w else None | None \<Rightarrow> None)"

definition request_members :: "(ustr \<Rightarrow> json option) \<Rightarrow> provider_request \<Rightarrow> (ustr \<times> json) list" where
  "request_members from_str req =
     [(lit ''model'', JStr (rq_model req)), (lit ''messages'', JArr (ollama_messages from_str req)), (lit ''stream'', JBool True)] @
     (if ollama_options req \<noteq> [] then [(lit ''options'', JObj (ollama_options req))] else []) @
     member ''keep_alive'' JStr (case rq_keep_alive req of Some k \<Rightarrow> none_if_empty k | None \<Rightarrow> None) @
     (if thinking_requested req then [(lit ''think'', JBool True)] else []) @
     (if rq_tools req \<noteq> [] then [(lit ''tools'', JArr (map tool_json (rq_tools req)))] else [])"

definition thinking_unsupported :: "ustr \<Rightarrow> bool" where
  "thinking_unsupported err \<longleftrightarrow>
     (let text = ascii_lower err
      in str_contains text (lit ''think'') \<and>
         (str_contains text (lit ''not support'') \<or> str_contains text (lit ''unsupported'')))"

text \<open>The posts made for a request and the last answer; \<open>post\<close> is the server.\<close>

definition ollama_post ::
  "(ustr \<Rightarrow> json option) \<Rightarrow> (json \<Rightarrow> ustr + 'r) \<Rightarrow> provider_request \<Rightarrow> json list \<times> (ustr + 'r)" where
  "ollama_post from_str post req =
     (let body = request_members from_str req
      in case post (JObj body) of
           Inr r \<Rightarrow> ([JObj body], Inr r)
         | Inl err \<Rightarrow>
             if thinking_requested req \<and> thinking_unsupported err then
               (let fallback = JObj (filter (\<lambda>(k, v). k \<noteq> lit ''think'') body)
                in ([JObj body, fallback], post fallback))
             else ([JObj body], Inl err))"

section \<open>The response\<close>

text \<open>Whether a tool call was seen, and how many ids have been drawn.\<close>

type_synonym ol_state = "bool \<times> nat"

definition ol_calls :: "(json \<Rightarrow> ustr) \<Rightarrow> (nat \<Rightarrow> ustr) \<Rightarrow> nat \<Rightarrow> json list \<Rightarrow> call_entry list" where
  "ol_calls to_str uuid n calls =
     map (\<lambda>(i, c).
       (lit ''ollama_'' @ uuid i,
        (case Option.bind (Option.bind (jget c ''function'') (\<lambda>f. jget f ''name'')) as_str of Some s \<Rightarrow> s | None \<Rightarrow> lit ''tool''),
        to_str (case Option.bind (jget c ''function'') (\<lambda>f. jget f ''arguments'') of Some v \<Rightarrow> v | None \<Rightarrow> JObj [])))
     (zip [n..<n + length calls] calls)"

definition string_events :: "(ustr \<Rightarrow> stream_event) \<Rightarrow> json \<Rightarrow> string \<Rightarrow> stream_event list" where
  "string_events mk message key = text_events mk (Option.bind (jget message key) as_str)"

definition u64_or_zero :: "json \<Rightarrow> string \<Rightarrow> u64" where
  "u64_or_zero v key = (case Option.bind (jget v key) as_u64 of Some n \<Rightarrow> n | None \<Rightarrow> 0)"

definition done_event :: "bool \<Rightarrow> json \<Rightarrow> stream_event" where
  "done_event saw v =
     Finished (if saw then lit ''tool_calls''
               else case Option.bind (jget v ''done_reason'') as_str of Some r \<Rightarrow> r | None \<Rightarrow> lit ''stop'')
       (Some \<lparr>u_input = u64_or_zero v ''prompt_eval_count'', u_output = u64_or_zero v ''eval_count'', u_cache_read = 0,
          u_cache_write = 0, u_context = Some (u64_or_zero v ''prompt_eval_count'')\<rparr>)"

definition parse_line ::
  "(ustr \<Rightarrow> json option) \<Rightarrow> (json \<Rightarrow> ustr) \<Rightarrow> (nat \<Rightarrow> ustr) \<Rightarrow> ustr \<Rightarrow> ol_state \<Rightarrow> stream_event list \<times> ol_state" where
  "parse_line from_str to_str uuid line s =
     (case from_str line of
        None \<Rightarrow> ([], s)
      | Some v \<Rightarrow>
          (case Option.bind (jget v ''error'') as_str of
             Some err \<Rightarrow> ([StreamError err], s)
           | None \<Rightarrow>
               (let message = jget v ''message'';
                    words = (case message of None \<Rightarrow> [] | Some m \<Rightarrow> string_events ReasoningDelta m ''thinking'' @ string_events TextDelta m ''content'');
                    calls = ol_calls to_str uuid (snd s)
                      (case Option.bind (Option.bind message (\<lambda>m. jget m ''tool_calls'')) as_array of Some cs \<Rightarrow> cs | None \<Rightarrow> []);
                    s' = (fst s \<or> calls \<noteq> [], snd s + length calls)
                in (words @ concat (map whole_call calls) @
                      (if Option.bind (jget v ''done'') as_bool = Some True then [done_event (fst s') v] else []), s'))))"

text \<open>One line of the stream: the events up to the first that ends it.\<close>

definition ends :: "stream_event \<Rightarrow> bool" where
  "ends e \<longleftrightarrow> is_finished e \<or> is_failure e"

definition through_end :: "stream_event list \<Rightarrow> stream_event list" where
  "through_end es = takeWhile (\<lambda>e. \<not> ends e) es @ take 1 (dropWhile (\<lambda>e. \<not> ends e) es)"

definition ol_line ::
  "(ustr \<Rightarrow> json option) \<Rightarrow> (json \<Rightarrow> ustr) \<Rightarrow> (nat \<Rightarrow> ustr) \<Rightarrow> bytes \<Rightarrow> ol_state \<Rightarrow> stream_event list \<times> ol_state option" where
  "ol_line from_str to_str uuid raw s =
     (let line = trim (from_utf8_lossy raw)
      in if line = [] then ([], Some s)
         else case parse_line from_str to_str uuid line s of
                (es, s') \<Rightarrow> if list_ex ends es then (through_end es, None) else (es, Some s'))"

definition ol_close ::
  "(ustr \<Rightarrow> json option) \<Rightarrow> (json \<Rightarrow> ustr) \<Rightarrow> (nat \<Rightarrow> ustr) \<Rightarrow> bytes \<Rightarrow> ol_state \<Rightarrow> stream_event list" where
  "ol_close from_str to_str uuid buffer s =
     (case ol_line from_str to_str uuid buffer s of
        (es, None) \<Rightarrow> es
      | (es, Some s') \<Rightarrow> es @ [Finished (if fst s' then lit ''tool_calls'' else lit ''stop'') None])"

fun ol_stream ::
  "(ustr \<Rightarrow> json option) \<Rightarrow> (json \<Rightarrow> ustr) \<Rightarrow> (nat \<Rightarrow> ustr) \<Rightarrow> bytes \<Rightarrow> bytes option list \<Rightarrow> ol_state \<Rightarrow> stream_event list" where
  "ol_stream from_str to_str uuid buffer [] s = ol_close from_str to_str uuid buffer s"
| "ol_stream from_str to_str uuid buffer (None # chunks) s = [StreamError (lit ''Ollama stream failed'')]"
| "ol_stream from_str to_str uuid buffer (Some chunk # chunks) s =
     (case sse_lines (buffer @ chunk) of
        (ls, rest) \<Rightarrow>
          (case sse_events (ol_line from_str to_str uuid) ls s of
             (es, None) \<Rightarrow> es
           | (es, Some s') \<Rightarrow> es @ ol_stream from_str to_str uuid rest chunks s'))"

definition ollama_stream ::
  "(ustr \<Rightarrow> json option) \<Rightarrow> (json \<Rightarrow> ustr) \<Rightarrow> (nat \<Rightarrow> ustr) \<Rightarrow> bytes option list \<Rightarrow> stream_event list" where
  "ollama_stream from_str to_str uuid chunks = ol_stream from_str to_str uuid [] chunks (False, 0)"

section \<open>Properties\<close>

lemma ol_stream_whole:
  assumes "sse_lines seen = (ls0, buffer)"
  shows "ol_stream from_str to_str uuid buffer (map Some chunks) s =
    (case sse_lines (buffer @ concat chunks) of (ls, rest) \<Rightarrow>
      (case sse_events (ol_line from_str to_str uuid) ls s of
         (es, None) \<Rightarrow> es | (es, Some s') \<Rightarrow> es @ ol_close from_str to_str uuid rest s'))"
  using assms
proof (induction chunks arbitrary: seen ls0 buffer s)
  case Nil
  then show ?case using split_rest [OF Nil] by (simp add: split_none)
next
  case (Cons c cs)
  obtain ls r where d: "sse_lines (buffer @ c) = (ls, r)" by (cases "sse_lines (buffer @ c)")
  have "sse_lines (seen @ c) = (ls0 @ ls, r)"
    using split_append [of seen c] Cons.prems d by simp
  then have ih: "ol_stream from_str to_str uuid r (map Some cs) s' =
    (case sse_lines (r @ concat cs) of (ls, rest) \<Rightarrow>
      (case sse_events (ol_line from_str to_str uuid) ls s' of
         (es, None) \<Rightarrow> es | (es, Some s') \<Rightarrow> es @ ol_close from_str to_str uuid rest s'))" for s'
    by (rule Cons.IH)
  have "sse_lines (buffer @ concat (c # cs)) = (case sse_lines (r @ concat cs) of (ms, r') \<Rightarrow> (ls @ ms, r'))"
    using split_append [of "buffer @ c" "concat cs"] d by simp
  then show ?case
    by (simp add: d ih sse_events_append split: prod.splits option.splits)
qed

text \<open>
  C29 (equivalence). How the network cuts a response of Ollama into chunks does not matter, down to
  cuts inside a line or inside a character, and with or without a newline at the end.
\<close>

theorem ollama_chunking:
  "ollama_stream from_str to_str uuid (map Some chunks) = ollama_stream from_str to_str uuid [Some (concat chunks)]"
proof -
  have d: "sse_lines [] = ([], [])" by (simp add: split_none)
  show ?thesis
    using ol_stream_whole [OF d, where chunks = chunks] ol_stream_whole [OF d, where chunks = "[concat chunks]"]
    by (simp add: ollama_stream_def)
qed

definition verdicts :: "stream_event list \<Rightarrow> nat" where
  "verdicts es = length (filter ends es)"

lemma verdicts_simps [simp]: "verdicts [] = 0" "verdicts (e # es) = (if ends e then 1 else 0) + verdicts es"
  "verdicts (es @ fs) = verdicts es + verdicts fs"
  by (simp_all add: verdicts_def)

lemma verdicts_none: "\<not> list_ex ends es \<Longrightarrow> verdicts es = 0"
  by (induction es) auto

lemma through_end_one: "list_ex ends es \<Longrightarrow> verdicts (through_end es) = 1"
  by (induction es) (auto simp: through_end_def)

lemma ol_line_verdicts:
  "ol_line from_str to_str uuid raw s = (v, r) \<Longrightarrow> verdicts v = (if r = None then 1 else 0)"
  by (auto simp: ol_line_def Let_def verdicts_none through_end_one split: if_splits prod.splits)

lemma ol_lines_verdicts:
  "sse_events (ol_line from_str to_str uuid) ls s = (v, r) \<Longrightarrow> verdicts v = (if r = None then 1 else 0)"
proof (induction ls arbitrary: s v)
  case (Cons l ls)
  then show ?case
    using ol_line_verdicts [of from_str to_str uuid l s] by (auto split: prod.splits option.splits)
qed auto

lemma ol_close_verdicts: "verdicts (ol_close from_str to_str uuid buffer s) = 1"
  using ol_line_verdicts [of from_str to_str uuid buffer s]
  by (auto simp: ol_close_def ends_def split: prod.split option.split)

text \<open>
  Every response of Ollama ends with exactly one verdict, a completion or an error,
  whatever its lines hold and wherever the connection breaks.
\<close>

theorem ollama_one_verdict: "verdicts (ollama_stream from_str to_str uuid chunks) = 1"
proof -
  have "verdicts (ol_stream from_str to_str uuid buffer chunks s) = 1" for buffer s
  proof (induction chunks arbitrary: buffer s)
    case Nil
    then show ?case by (simp add: ol_close_verdicts)
  next
    case (Cons c cs)
    show ?case
    proof (cases c)
      case (Some chunk)
      obtain ls rest where l: "sse_lines (buffer @ chunk) = (ls, rest)" by (cases "sse_lines (buffer @ chunk)")
      obtain v r where v: "sse_events (ol_line from_str to_str uuid) ls s = (v, r)"
        by (cases "sse_events (ol_line from_str to_str uuid) ls s")
      show ?thesis using ol_lines_verdicts [OF v] Cons.IH Some l v by (cases r) simp_all
    qed (simp add: ends_def is_failure_def)
  qed
  then show ?thesis by (simp add: ollama_stream_def)
qed

text \<open>The retry drops only the thinking flag, and happens at most once.\<close>

lemma fallback_drops_only_think:
  assumes "ollama_post from_str post req = (posts, r)" "1 < length posts"
  shows "posts = [JObj (request_members from_str req), JObj (filter (\<lambda>(k, v). k \<noteq> lit ''think'') (request_members from_str req))]"
  using assms by (auto simp: ollama_post_def Let_def split: sum.splits if_splits)

end
