(* ===== verification/Endpoint.thy ===== *)
theory Endpoint
  imports Json
begin

text \<open>
  How the program reads the base URL of a provider (\<open>providers/src/discovery.rs\<close>): the host, the
  origin, the joined address of a request, and the tests for the user's own network and for this
  machine.
\<close>

section \<open>Parts of a URL\<close>

text \<open>\<open>split(pat).next()\<close> and \<open>split(pat).nth(1)\<close>.\<close>

definition first_piece :: "'a list \<Rightarrow> 'a list \<Rightarrow> 'a list" where
  "first_piece pat s = (case str_find pat s of None \<Rightarrow> s | Some i \<Rightarrow> take i s)"

definition second_piece :: "'a list \<Rightarrow> 'a list \<Rightarrow> 'a list option" where
  "second_piece pat s =
     (case str_find pat s of None \<Rightarrow> None | Some i \<Rightarrow> Some (first_piece pat (drop (i + length pat) s)))"

definition scheme_mark :: ustr where "scheme_mark = lit ''://''"

definition after_scheme :: "ustr \<Rightarrow> ustr" where
  "after_scheme url = (case second_piece scheme_mark url of Some r \<Rightarrow> r | None \<Rightarrow> url)"

definition ends_authority :: "uchar \<Rightarrow> bool" where
  "ends_authority c \<longleftrightarrow> c = ch (CHR ''/'') \<or> c = ch (CHR ''?'') \<or> c = ch (CHR ''#'')"

definition authority_of :: "ustr \<Rightarrow> ustr" where
  "authority_of url = takeWhile (\<lambda>c. \<not> ends_authority c) (after_scheme url)"

definition host_of :: "ustr \<Rightarrow> ustr" where
  "host_of url =
     (let authority = last (str_split (\<lambda>c. c = ch (CHR ''@'')) (authority_of url))
      in if ch (CHR '']'') \<in> set authority
         then takeWhile (\<lambda>c. c \<noteq> ch (CHR '']'')) authority @ [ch (CHR '']'')]
         else takeWhile (\<lambda>c. c \<noteq> ch (CHR '':'')) authority)"

definition base_origin :: "ustr \<Rightarrow> ustr" where
  "base_origin url =
     (let trimmed = trim url;
          first = first_piece scheme_mark trimmed;
          scheme = (if one_of first [''http'', ''https''] then first else lit ''http'')
      in scheme @ scheme_mark @ authority_of trimmed)"

definition slash :: "uchar \<Rightarrow> bool" where
  "slash c \<longleftrightarrow> c = ch (CHR ''/'')"

definition join_api :: "ustr \<Rightarrow> ustr \<Rightarrow> ustr" where
  "join_api base_url path =
     (let base = trim_end_matches slash (trim base_url);
          path = trim_start_matches slash path;
          path = (if ends_with base (lit ''/v1'')
                  then (case strip_prefix (lit ''v1/'') path of Some p \<Rightarrow> p | None \<Rightarrow> path) else path)
      in base @ lit ''/'' @ path)"

section \<open>Local hosts\<close>

definition is_bracket :: "uchar \<Rightarrow> bool" where
  "is_bracket c \<longleftrightarrow> c = ch (CHR ''['') \<or> c = ch (CHR '']'')"

definition second_octet :: "ustr \<Rightarrow> nat option" where
  "second_octet host =
     (case str_split (\<lambda>c. c = ch (CHR ''.'')) host of _ # o2 # _ \<Rightarrow> parse_uint 256 o2 | _ \<Rightarrow> None)"

definition is_loopback_host :: "ustr \<Rightarrow> bool" where
  "is_loopback_host raw =
     (let host = trim_matches is_bracket raw
      in ascii_lower host = lit ''localhost'' \<or> host = lit ''::1'' \<or> host = lit ''0.0.0.0'' \<or>
         starts_with host (lit ''127.'') \<or> starts_with host (lit ''10.'') \<or> starts_with host (lit ''192.168.'') \<or>
         (starts_with host (lit ''172.'') \<and>
          (case second_octet host of Some n \<Rightarrow> 16 \<le> n \<and> n \<le> 31 | None \<Rightarrow> False)))"

definition hex_value :: "uchar \<Rightarrow> nat option" where
  "hex_value c =
     (if is_ascii_digit c then Some (nat (c - 48))
      else if 97 \<le> c \<and> c \<le> 102 then Some (nat (c - 87))
      else if 65 \<le> c \<and> c \<le> 70 then Some (nat (c - 55))
      else None)"

text \<open>\<open>u16::from_str_radix(s, 16)\<close>.\<close>

fun hex_digits :: "nat \<Rightarrow> nat \<Rightarrow> ustr \<Rightarrow> nat option" where
  "hex_digits bound acc [] = Some acc"
| "hex_digits bound acc (c # cs) =
     (case hex_value c of
        None \<Rightarrow> None
      | Some d \<Rightarrow> if 16 * acc + d < bound then hex_digits bound (16 * acc + d) cs else None)"

definition parse_hex :: "nat \<Rightarrow> ustr \<Rightarrow> nat option" where
  "parse_hex bound s =
     (let digits = (case s of c # t \<Rightarrow> if c = 43 then t else s | [] \<Rightarrow> [])
      in if digits = [] then None else hex_digits bound 0 digits)"

definition is_overlay_address :: "ustr \<Rightarrow> bool" where
  "is_overlay_address host \<longleftrightarrow>
     (case second_octet host of Some n \<Rightarrow> starts_with host (lit ''100.'') \<and> 64 \<le> n \<and> n \<le> 127 | None \<Rightarrow> False)"

definition is_local_v6 :: "ustr \<Rightarrow> bool" where
  "is_local_v6 host \<longleftrightarrow>
     ch (CHR '':'') \<in> set host \<and>
     (case parse_hex 65536 (takeWhile (\<lambda>c. c \<noteq> ch (CHR '':'')) host) of
        Some v \<Rightarrow> (0xfc00 \<le> v \<and> v \<le> 0xfdff) \<or> (0xfe80 \<le> v \<and> v \<le> 0xfebf)
      | None \<Rightarrow> False)"

definition is_local_base_url :: "ustr \<Rightarrow> bool" where
  "is_local_base_url url =
     (if trim url = [] then False
      else if is_loopback_host (host_of (trim url)) then True
      else let host = ascii_lower (trim_matches is_bracket (host_of (trim url)))
           in one_of host [''host.docker.internal'', ''host.containers.internal'', ''gateway.docker.internal''] \<or>
              ends_with host (lit ''.local'') \<or> ends_with host (lit ''.localhost'') \<or>
              is_overlay_address host \<or> is_local_v6 host)"

definition is_loopback_base_url :: "ustr \<Rightarrow> bool" where
  "is_loopback_base_url url =
     (let trimmed = trim url
      in trimmed \<noteq> [] \<and>
         (let host = ascii_lower (trim_matches is_bracket (host_of trimmed))
          in host = lit ''localhost'' \<or> host = lit ''::1'' \<or> host = lit ''0.0.0.0'' \<or> starts_with host (lit ''127.'')))"

section \<open>What the tests promise\<close>

definition caseless :: "ustr \<Rightarrow> bool" where
  "caseless s \<longleftrightarrow> list_all (\<lambda>c. c < 65 \<or> 122 < c) s"

lemma ascii_lower_caseless: "caseless p \<Longrightarrow> ascii_lower s = p \<Longrightarrow> s = p"
proof (induction p arbitrary: s)
  case (Cons c p)
  then show ?case by (cases s) (auto simp: ascii_lower_def caseless_def split: if_splits)
qed (simp add: ascii_lower_def)

lemma starts_with_lower_caseless:
  assumes "caseless p" "starts_with (ascii_lower s) p"
  shows "starts_with s p"
proof -
  obtain t where t: "ascii_lower s = p @ t" using assms(2) by (auto simp: starts_with_iff)
  then have "ascii_lower (take (length p) s) = p" by (simp add: ascii_lower_def flip: take_map)
  then have "take (length p) s = p" by (rule ascii_lower_caseless [OF assms(1)])
  then show ?thesis by (metis append_take_drop_id starts_with_append)
qed

lemma caseless_marks: "caseless (lit ''::1'')" "caseless (lit ''0.0.0.0'')" "caseless (lit ''127.'')"
  by (simp_all add: caseless_def lit_def)

text \<open>
  A base URL that the process manager takes for this machine is one that the key gate
  takes for the user's own network: the two tests never disagree in that direction, whatever the URL.
\<close>

theorem loopback_is_local:
  assumes "is_loopback_base_url url"
  shows "is_local_base_url url"
proof -
  let ?h = "trim_matches is_bracket (host_of (trim url))"
  have "ascii_lower ?h = lit ''localhost'' \<or> ascii_lower ?h = lit ''::1'' \<or> ascii_lower ?h = lit ''0.0.0.0'' \<or>
      starts_with (ascii_lower ?h) (lit ''127.'')" and ne: "trim url \<noteq> []"
    using assms by (simp_all add: is_loopback_base_url_def Let_def)
  then have "is_loopback_host (host_of (trim url))"
    using ascii_lower_caseless [of "lit ''::1''" ?h] ascii_lower_caseless [of "lit ''0.0.0.0''" ?h]
      starts_with_lower_caseless [of "lit ''127.''" ?h] caseless_marks
    by (auto simp: is_loopback_host_def Let_def)
  with ne show ?thesis by (simp add: is_local_base_url_def)
qed

theorem loopback_is_local_witness: "is_local_base_url (lit ''http://LocalHost:11434/v1'')"
  by (rule loopback_is_local) code_simp

text \<open>Both tests look at the text of a host name, so a public name can pass for this machine.\<close>

lemma public_name_is_loopback:
  "is_loopback_base_url (lit ''https://127.example.com/v1'')" "is_local_base_url (lit ''https://10.example.com/v1'')"
  by code_simp+

section \<open>The version segment\<close>

lemma trim_end_slashes:
  "trim_end_matches slash (b @ replicate n (ch (CHR ''/''))) = trim_end_matches slash b"
proof -
  have "dropWhile slash (replicate n (ch (CHR ''/'')) @ t) = dropWhile slash t" for t
    by (induction n) (simp_all add: slash_def)
  then show ?thesis by (simp add: trim_end_matches_def)
qed

text \<open>
  A base URL with or without the version segment and with or without slashes at its end gives the
  same address.
\<close>

lemma join_api_version:
  assumes "trim b = b" "trim (b @ lit ''/v1'' @ replicate n (ch (CHR ''/''))) = b @ lit ''/v1'' @ replicate n (ch (CHR ''/''))"
    "b = [] \<or> \<not> slash (last b)" "\<not> ends_with b (lit ''/v1'')"
  shows "join_api (b @ lit ''/v1'' @ replicate n (ch (CHR ''/''))) (lit ''/v1/'' @ p) = join_api b (lit ''/v1/'' @ p)"
proof -
  have l: "lit ''/v1'' = [47, 118, 49]" "lit ''/v1/'' = [47, 118, 49, 47]" "lit ''v1/'' = [118, 49, 47]" "lit ''/'' = [47]"
    by (simp_all add: lit_def)
  have b: "trim_end_matches slash b = b" using assms(3) by (rule trim_end_matches_id)
  have v: "trim_end_matches slash (b @ lit ''/v1'') = b @ lit ''/v1''"
    by (rule trim_end_matches_id) (simp add: l slash_def ch_def)
  have e: "ends_with (b @ lit ''/v1'') (lit ''/v1'')" by (auto simp: ends_with_def)
  have p: "trim_start_matches slash (lit ''/v1/'' @ p) = lit ''v1/'' @ p"
    by (simp add: trim_start_matches_def l slash_def ch_def)
  have s: "strip_prefix (lit ''v1/'') (lit ''v1/'' @ p) = Some p" by (simp add: strip_prefix_Some)
  have "join_api (b @ lit ''/v1'' @ replicate n (ch (CHR ''/''))) (lit ''/v1/'' @ p) = (b @ lit ''/v1'') @ lit ''/'' @ p"
    using trim_end_slashes [of "b @ lit ''/v1''" n] assms(2) v e p s by (simp add: join_api_def Let_def)
  also have "\<dots> = join_api b (lit ''/v1/'' @ p)"
    using assms(1,4) b p by (simp add: join_api_def Let_def) (simp add: l)
  finally show ?thesis .
qed

end
