(* ===== verification/Presets.thy ===== *)
theory Presets
  imports Endpoint
begin

text \<open>
  The provider catalogue (\<open>providers/src/preset/mod.rs\<close>): the kinds of transport, the table of presets and
  its lookups. The six category names, which are Japanese, are constructors. The notes are all empty.
\<close>

datatype provider_kind = K_OpenAI | K_Anthropic | K_Gemini | K_OpenRouter | K_Ollama | K_LMStudio | K_Compatible | K_ChatGpt

datatype preset_category = Direct | Gateway | Local | Compatible_API | Domestic | Custom_Entry

record provider_preset =
  pp_slug :: ustr
  pp_label :: ustr
  pp_category :: preset_category
  pp_kind :: provider_kind
  pp_default_url :: ustr
  pp_api_key_required :: bool
  pp_allow_private :: bool

definition preset ::
  "string \<Rightarrow> string \<Rightarrow> preset_category \<Rightarrow> provider_kind \<Rightarrow> string \<Rightarrow> bool \<Rightarrow> bool \<Rightarrow> provider_preset" where
  "preset slug label category kind url key private =
     \<lparr>pp_slug = lit slug, pp_label = lit label, pp_category = category, pp_kind = kind,
      pp_default_url = lit url, pp_api_key_required = key, pp_allow_private = private\<rparr>"

text \<open>The label of the catch-all entry is a Japanese word.\<close>

definition custom_label :: ustr where
  "custom_label = [0x30AB, 0x30B9, 0x30BF, 0x30E0]"

definition PRESETS :: "provider_preset list" where
  "PRESETS =
    [preset ''openai'' ''OpenAI'' Direct K_OpenAI ''https://api.openai.com/v1'' True False,
     preset ''anthropic'' ''Anthropic'' Direct K_Anthropic ''https://api.anthropic.com'' True False,
     preset ''gemini'' ''Google Gemini'' Direct K_Gemini ''https://generativelanguage.googleapis.com'' True False,
     preset ''openrouter'' ''OpenRouter'' Gateway K_OpenRouter ''https://openrouter.ai/api/v1'' True False,
     preset ''ollama'' ''Ollama'' Local K_Ollama ''http://127.0.0.1:11434/v1'' False True,
     preset ''lmstudio'' ''LM Studio'' Local K_LMStudio ''http://127.0.0.1:1234/v1'' False True,
     preset ''groq'' ''Groq'' Compatible_API K_Compatible ''https://api.groq.com/openai/v1'' True False,
     preset ''xai'' ''xAI'' Compatible_API K_Compatible ''https://api.x.ai/v1'' True False,
     preset ''mistral'' ''Mistral AI'' Compatible_API K_Compatible ''https://api.mistral.ai/v1'' True False,
     preset ''deepseek'' ''DeepSeek'' Compatible_API K_Compatible ''https://api.deepseek.com/v1'' True False,
     preset ''together'' ''Together AI'' Compatible_API K_Compatible ''https://api.together.xyz/v1'' True False,
     preset ''fireworks'' ''Fireworks AI'' Compatible_API K_Compatible ''https://api.fireworks.ai/inference/v1'' True False,
     preset ''perplexity'' ''Perplexity'' Compatible_API K_Compatible ''https://api.perplexity.ai'' True False,
     preset ''cerebras'' ''Cerebras'' Compatible_API K_Compatible ''https://api.cerebras.ai/v1'' True False,
     preset ''sambanova'' ''SambaNova'' Compatible_API K_Compatible ''https://api.sambanova.ai/v1'' True False,
     preset ''nvidia-nim'' ''NVIDIA NIM'' Compatible_API K_Compatible ''https://integrate.api.nvidia.com/v1'' True False,
     preset ''ai21'' ''AI21'' Compatible_API K_Compatible ''https://api.ai21.com/studio/v1'' True False,
     preset ''cohere'' ''Cohere'' Compatible_API K_Compatible ''https://api.cohere.com/compatibility/v1'' True False,
     preset ''huggingface'' ''Hugging Face'' Compatible_API K_Compatible ''https://router.huggingface.co/v1'' True False,
     preset ''github-models'' ''GitHub Models'' Compatible_API K_Compatible ''https://models.github.ai/inference'' True False,
     preset ''vercel-ai-gateway'' ''Vercel AI Gateway'' Gateway K_Compatible ''https://ai-gateway.vercel.sh/v1'' True False,
     preset ''litellm'' ''LiteLLM'' Gateway K_Compatible '''' True False,
     preset ''portkey'' ''Portkey'' Gateway K_Compatible '''' True False,
     preset ''helicone'' ''Helicone'' Gateway K_Compatible ''https://ai-gateway.helicone.ai/v1'' True False,
     preset ''deepinfra'' ''DeepInfra'' Compatible_API K_Compatible ''https://api.deepinfra.com/v1/openai'' True False,
     preset ''nebius'' ''Nebius AI Studio'' Compatible_API K_Compatible ''https://api.studio.nebius.ai/v1'' True False,
     preset ''novita'' ''Novita AI'' Compatible_API K_Compatible ''https://api.novita.ai/openai/v1'' True False,
     preset ''chutes'' ''Chutes'' Compatible_API K_Compatible ''https://llm.chutes.ai/v1'' True False,
     preset ''featherless'' ''Featherless AI'' Compatible_API K_Compatible ''https://api.featherless.ai/v1'' True False,
     preset ''siliconflow'' ''SiliconFlow'' Compatible_API K_Compatible ''https://api.siliconflow.cn/v1'' True False,
     preset ''modelscope'' ''ModelScope'' Compatible_API K_Compatible '''' True False,
     preset ''alibaba-model-studio'' ''Alibaba Cloud Model Studio'' Compatible_API K_Compatible ''https://dashscope.aliyuncs.com/compatible-mode/v1'' True False,
     preset ''moonshot'' ''Moonshot AI'' Compatible_API K_Compatible ''https://api.moonshot.ai/v1'' True False,
     preset ''zhipu'' ''Zhipu AI'' Compatible_API K_Compatible ''https://open.bigmodel.cn/api/paas/v4'' True False,
     preset ''minimax'' ''MiniMax'' Compatible_API K_Compatible ''https://api.minimax.io/v1'' True False,
     preset ''baidu-qianfan'' ''Baidu Qianfan'' Compatible_API K_Compatible '''' True False,
     preset ''tencent-hunyuan'' ''Tencent Hunyuan'' Compatible_API K_Compatible '''' True False,
     preset ''bytedance-ark'' ''ByteDance Ark'' Compatible_API K_Compatible ''https://ark.cn-beijing.volces.com/api/v3'' True False,
     preset ''01-ai'' ''01.AI'' Compatible_API K_Compatible ''https://api.lingyiwanwu.com/v1'' True False,
     preset ''lambda'' ''Lambda AI'' Compatible_API K_Compatible '''' True False,
     preset ''vllm'' ''vLLM'' Local K_Compatible ''http://127.0.0.1:8000/v1'' False True,
     preset ''localai'' ''LocalAI'' Local K_Compatible ''http://127.0.0.1:8090/v1'' False True,
     preset ''llama-cpp'' ''llama.cpp server'' Local K_Compatible ''http://127.0.0.1:8080/v1'' False True,
     preset ''jan'' ''Jan'' Local K_Compatible ''http://127.0.0.1:1337/v1'' False True,
     preset ''text-generation-webui'' ''text-generation-webui'' Local K_Compatible ''http://127.0.0.1:5000/v1'' False True,
     preset ''koboldcpp'' ''KoboldCpp'' Local K_Compatible ''http://127.0.0.1:5001/v1'' False True,
     preset ''elyza'' ''ELYZA'' Domestic K_Compatible '''' True False,
     preset ''opencode-zen'' ''OpenCode Zen'' Gateway K_Compatible ''https://opencode.ai/zen/v1'' True False,
     preset ''opencode-go'' ''OpenCode Go'' Gateway K_Compatible ''https://opencode.ai/zen/go/v1'' True False,
     preset ''custom'' ''custom'' Custom_Entry K_Compatible '''' True False]"

definition by_slug :: "ustr \<Rightarrow> provider_preset option" where
  "by_slug slug = find (\<lambda>p. pp_slug p = slug) PRESETS"

definition is_local_slug :: "ustr \<Rightarrow> bool" where
  "is_local_slug slug = (case by_slug slug of Some p \<Rightarrow> pp_category p = Local | None \<Rightarrow> False)"

fun kind_str :: "provider_kind \<Rightarrow> ustr" where
  "kind_str K_OpenAI = lit ''openai''"
| "kind_str K_Anthropic = lit ''anthropic''"
| "kind_str K_Gemini = lit ''gemini''"
| "kind_str K_OpenRouter = lit ''openrouter''"
| "kind_str K_Ollama = lit ''ollama''"
| "kind_str K_LMStudio = lit ''lmstudio''"
| "kind_str K_Compatible = lit ''compatible''"
| "kind_str K_ChatGpt = lit ''chatgpt''"

definition kind_parse :: "ustr \<Rightarrow> provider_kind option" where
  "kind_parse s =
     (if s = lit ''openai'' then Some K_OpenAI
      else if s = lit ''anthropic'' then Some K_Anthropic
      else if s = lit ''gemini'' then Some K_Gemini
      else if s = lit ''openrouter'' then Some K_OpenRouter
      else if s = lit ''ollama'' then Some K_Ollama
      else if s = lit ''lmstudio'' then Some K_LMStudio
      else if s = lit ''compatible'' then Some K_Compatible
      else if s = lit ''chatgpt'' then Some K_ChatGpt
      else None)"

fun kind_embedding_model :: "provider_kind \<Rightarrow> ustr option" where
  "kind_embedding_model K_OpenAI = Some (lit ''text-embedding-3-small'')"
| "kind_embedding_model K_OpenRouter = Some (lit ''text-embedding-3-small'')"
| "kind_embedding_model K_Compatible = Some (lit ''text-embedding-3-small'')"
| "kind_embedding_model K_Gemini = Some (lit ''text-embedding-004'')"
| "kind_embedding_model K_Ollama = Some (lit ''nomic-embed-text'')"
| "kind_embedding_model K_LMStudio = Some (lit ''text-embedding-nomic-embed-text-v1.5'')"
| "kind_embedding_model K_Anthropic = None"
| "kind_embedding_model K_ChatGpt = None"

definition default_embedding_model :: "ustr \<Rightarrow> ustr option" where
  "default_embedding_model kind = Option.bind (kind_parse kind) kind_embedding_model"

section \<open>The catalogue is consistent\<close>

lemma kind_roundtrip: "kind_parse (kind_str k) = Some k"
  by (cases k) (simp_all add: kind_parse_def)

lemma kind_parse_str: "kind_parse s = Some k \<longleftrightarrow> s = kind_str k"
  using kind_roundtrip [of k] by (cases k) (auto simp: kind_parse_def split: if_splits)

text \<open>
  The four places that say whether a preset is a local runtime agree for every entry: its category,
  its key policy, its private-network policy, and the address it is created with.
\<close>

definition consistent :: "provider_preset \<Rightarrow> bool" where
  "consistent p \<longleftrightarrow>
     (pp_category p = Local) = (\<not> pp_api_key_required p) \<and>
     (pp_category p = Local) = pp_allow_private p \<and>
     (pp_category p = Local) = is_loopback_base_url (pp_default_url p) \<and>
     is_local_base_url (pp_default_url p) = is_loopback_base_url (pp_default_url p)"

lemma presets_consistent: "list_all consistent PRESETS"
  unfolding PRESETS_def list.pred_inject by (intro conjI; code_simp)

lemma presets_distinct: "distinct (map pp_slug PRESETS)"
  unfolding PRESETS_def preset_def by (simp add: distinct.simps)

lemma by_slug_consistent: "by_slug slug = Some p \<Longrightarrow> consistent p"
  using presets_consistent by (auto simp: by_slug_def find_Some_iff list_all_length)

lemma local_slug_needs_no_key:
  "is_local_slug slug \<longleftrightarrow> (case by_slug slug of Some p \<Rightarrow> \<not> pp_api_key_required p | None \<Rightarrow> False)"
  by (auto simp: is_local_slug_def consistent_def dest: by_slug_consistent split: option.split)

end
