(* ===== verification/Discovery.thy ===== *)
theory Discovery
  imports Presets "HOL-Library.List_Lexorder" "HOL-Library.Product_Lexorder"
begin

text \<open>
  Discovery of local model runtimes (\<open>providers/src/discovery.rs\<close>): the table of runtimes, what a model
  list says about a model, the merge of several sources, the identification of a server, and the scan
  of the loopback ports. The network, the installed programs and the fourth-second deadline of the
  detailed pass are parameters. Japanese messages are kept as their place in the source.
\<close>

section \<open>Runtimes\<close>

datatype runtime_id =
    LmStudio | Ollama_Runtime | Vllm | LlamaCpp | LocalAi | Jan | KoboldCpp | TextGenerationWebui | Gpt4All | OpenAiCompat

definition DETECTABLE :: "runtime_id list" where
  "DETECTABLE = [LmStudio, Ollama_Runtime, Vllm, LlamaCpp, LocalAi, Jan, KoboldCpp, TextGenerationWebui, Gpt4All]"

fun runtime_slug :: "runtime_id \<Rightarrow> ustr" where
  "runtime_slug LmStudio = lit ''lmstudio''"
| "runtime_slug Ollama_Runtime = lit ''ollama''"
| "runtime_slug Vllm = lit ''vllm''"
| "runtime_slug LlamaCpp = lit ''llama-cpp''"
| "runtime_slug LocalAi = lit ''localai''"
| "runtime_slug Jan = lit ''jan''"
| "runtime_slug KoboldCpp = lit ''koboldcpp''"
| "runtime_slug TextGenerationWebui = lit ''text-generation-webui''"
| "runtime_slug Gpt4All = lit ''custom''"
| "runtime_slug OpenAiCompat = lit ''custom''"

definition from_slug :: "ustr \<Rightarrow> runtime_id option" where
  "from_slug slug = (if slug = lit ''custom'' then None else find (\<lambda>i. runtime_slug i = slug) DETECTABLE)"

text \<open>The label of the generic server ends in Japanese.\<close>

fun runtime_label :: "runtime_id \<Rightarrow> ustr" where
  "runtime_label LmStudio = lit ''LM Studio''"
| "runtime_label Ollama_Runtime = lit ''Ollama''"
| "runtime_label Vllm = lit ''vLLM''"
| "runtime_label LlamaCpp = lit ''llama.cpp server''"
| "runtime_label LocalAi = lit ''LocalAI''"
| "runtime_label Jan = lit ''Jan''"
| "runtime_label KoboldCpp = lit ''KoboldCpp''"
| "runtime_label TextGenerationWebui = lit ''text-generation-webui''"
| "runtime_label Gpt4All = lit ''GPT4All''"
| "runtime_label OpenAiCompat = lit ''OpenAI '' @ [0x4E92, 0x63DB, 0x30B5, 0x30FC, 0x30D0, 0x30FC]"

fun runtime_kind :: "runtime_id \<Rightarrow> provider_kind" where
  "runtime_kind LmStudio = K_LMStudio"
| "runtime_kind Ollama_Runtime = K_Ollama"
| "runtime_kind _ = K_Compatible"

fun executables :: "runtime_id \<Rightarrow> ustr list" where
  "executables LmStudio = [lit ''lms'']"
| "executables Ollama_Runtime = [lit ''ollama'']"
| "executables Vllm = [lit ''vllm'']"
| "executables LlamaCpp = [lit ''llama-server'', lit ''server'', lit ''llamafile'']"
| "executables LocalAi = [lit ''local-ai'']"
| "executables Jan = [lit ''jan'']"
| "executables KoboldCpp = [lit ''koboldcpp'', lit ''koboldcpp.exe'']"
| "executables TextGenerationWebui = [lit ''text-generation-webui'']"
| "executables Gpt4All = [lit ''llamafile'']"
| "executables OpenAiCompat = []"

text \<open>The placeholder for the model of \<open>vllm serve\<close> is a Japanese word in angle brackets.\<close>

definition model_placeholder :: ustr where
  "model_placeholder = [60, 0x30E2, 0x30C7, 0x30EB, 62]"

fun launch_command :: "runtime_id \<Rightarrow> ustr \<Rightarrow> ustr option" where
  "launch_command LmStudio e = Some (e @ lit '' server start'')"
| "launch_command Ollama_Runtime e = Some (e @ lit '' serve'')"
| "launch_command Vllm e = Some (e @ lit '' serve '' @ model_placeholder)"
| "launch_command LlamaCpp e = Some (e @ lit '' -m <model.gguf> --port 8080'')"
| "launch_command LocalAi e = Some (e @ lit '' run'')"
| "launch_command KoboldCpp e = Some (e @ lit '' --port 5001'')"
| "launch_command _ e = None"

definition has_launcher :: "runtime_id \<Rightarrow> bool" where
  "has_launcher i \<longleftrightarrow> executables i \<noteq> []"

definition PORT_HINTS :: "(nat \<times> runtime_id) list" where
  "PORT_HINTS = [(1234, LmStudio), (11434, Ollama_Runtime), (8000, Vllm), (8080, LlamaCpp), (8090, LocalAi),
     (1337, Jan), (5000, TextGenerationWebui), (5001, KoboldCpp), (7860, TextGenerationWebui), (4891, Gpt4All)]"

definition default_port :: "runtime_id \<Rightarrow> nat" where
  "default_port i = (case find (\<lambda>h. snd h = i) PORT_HINTS of Some h \<Rightarrow> fst h | None \<Rightarrow> 1234)"

definition default_base_url :: "runtime_id \<Rightarrow> ustr" where
  "default_base_url i =
     (let built = lit ''http://127.0.0.1:'' @ show_nat (default_port i) @ lit ''/v1''
      in case by_slug (runtime_slug i) of
           Some p \<Rightarrow> if pp_default_url p \<noteq> [] then pp_default_url p else built
         | None \<Rightarrow> built)"

section \<open>What is known of a model\<close>

record model_capabilities =
  mc_chat :: "bool option"
  mc_tools :: "bool option"
  mc_vision :: "bool option"
  mc_reasoning :: "bool option"
  mc_embedding :: "bool option"

record discovered_model =
  dm_id :: ustr
  dm_label :: ustr
  dm_context :: u32
  dm_parameter_size :: "ustr option"
  dm_quantization :: "ustr option"
  dm_size_bytes :: "u64 option"
  dm_family :: "ustr option"
  dm_loaded :: bool
  dm_type :: "ustr option"
  dm_capabilities :: "model_capabilities option"

record model_details =
  md_context :: "u32 option"
  md_parameter_size :: "ustr option"
  md_quantization :: "ustr option"
  md_family :: "ustr option"
  md_size_bytes :: "u64 option"
  md_loaded :: bool
  md_type :: "ustr option"
  md_capabilities :: model_capabilities

definition no_capabilities :: model_capabilities where
  "no_capabilities = \<lparr>mc_chat = None, mc_tools = None, mc_vision = None, mc_reasoning = None, mc_embedding = None\<rparr>"

definition any_capability :: "model_capabilities \<Rightarrow> bool" where
  "any_capability c \<longleftrightarrow> mc_chat c \<noteq> None \<or> mc_tools c \<noteq> None \<or> mc_vision c \<noteq> None \<or> mc_reasoning c \<noteq> None \<or> mc_embedding c \<noteq> None"

text \<open>\<open>None\<close> means that nothing was published: it never replaces an answer.\<close>

definition newer :: "'a option \<Rightarrow> 'a option \<Rightarrow> 'a option" where
  "newer new old = (case new of Some v \<Rightarrow> Some v | None \<Rightarrow> old)"

definition merge_capabilities :: "model_capabilities \<Rightarrow> model_capabilities \<Rightarrow> model_capabilities" where
  "merge_capabilities c d =
     \<lparr>mc_chat = newer (mc_chat d) (mc_chat c), mc_tools = newer (mc_tools d) (mc_tools c),
      mc_vision = newer (mc_vision d) (mc_vision c), mc_reasoning = newer (mc_reasoning d) (mc_reasoning c),
      mc_embedding = newer (mc_embedding d) (mc_embedding c)\<rparr>"

definition merge_into :: "model_details \<Rightarrow> discovered_model \<Rightarrow> discovered_model" where
  "merge_into d m =
     m\<lparr>dm_context := (case md_context d of Some v \<Rightarrow> if v > 0 then max (dm_context m) v else dm_context m | None \<Rightarrow> dm_context m),
       dm_parameter_size := newer (md_parameter_size d) (dm_parameter_size m),
       dm_quantization := newer (md_quantization d) (dm_quantization m),
       dm_family := newer (md_family d) (dm_family m),
       dm_size_bytes := newer (md_size_bytes d) (dm_size_bytes m),
       dm_type := newer (md_type d) (dm_type m),
       dm_loaded := (md_loaded d \<or> dm_loaded m),
       dm_capabilities :=
         (if any_capability (md_capabilities d) then
            (case dm_capabilities m of
               Some c \<Rightarrow> Some (merge_capabilities c (md_capabilities d))
             | None \<Rightarrow> Some (md_capabilities d))
          else dm_capabilities m)\<rparr>"

section \<open>Model lists\<close>

definition jget_key :: "json \<Rightarrow> ustr \<Rightarrow> json option" where
  "jget_key j k = (case j of JObj kvs \<Rightarrow> map_of kvs k | _ \<Rightarrow> None)"

definition or_else :: "'a option \<Rightarrow> 'a option \<Rightarrow> 'a option" where
  "or_else a b = (case a of Some v \<Rightarrow> Some v | None \<Rightarrow> b)"

definition str_at :: "json \<Rightarrow> string \<Rightarrow> ustr option" where
  "str_at j k = Option.bind (jget j k) as_str"

definition u64_at :: "json \<Rightarrow> string \<Rightarrow> u64 option" where
  "u64_at j k = Option.bind (jget j k) as_u64"

definition u32_of :: "u64 \<Rightarrow> u32 option" where
  "u32_of n = (if unat n < 2 ^ 32 then Some (ucast n) else None)"

definition array_at :: "json \<Rightarrow> string \<Rightarrow> json list" where
  "array_at j k = (case Option.bind (jget j k) as_array of Some vs \<Rightarrow> vs | None \<Rightarrow> [])"

fun first_value :: "('a \<Rightarrow> 'b option) \<Rightarrow> 'a list \<Rightarrow> 'b option" where
  "first_value f [] = None"
| "first_value f (x # xs) = (case f x of Some v \<Rightarrow> Some v | None \<Rightarrow> first_value f xs)"

definition context_of :: "json \<Rightarrow> u32 option" where
  "context_of v =
     Option.bind (first_value (u64_at v)
       [''context_length'', ''context_window'', ''contextLength'', ''max_context_length'', ''maxContextLength'',
        ''loaded_context_length'', ''max_model_len'', ''max_model_length'', ''n_ctx'', ''input_token_limit'']) u32_of"

definition label_of :: "ustr \<Rightarrow> json \<Rightarrow> ustr" where
  "label_of i v =
     (case Option.bind (first_value (jget v) [''name'', ''display_name'', ''title'']) as_str of
        Some s \<Rightarrow> if s \<noteq> [] then s else i
      | None \<Rightarrow> i)"

definition blank_model :: "ustr \<Rightarrow> ustr \<Rightarrow> u32 \<Rightarrow> discovered_model" where
  "blank_model i label c = \<lparr>dm_id = i, dm_label = label, dm_context = c, dm_parameter_size = None,
     dm_quantization = None, dm_size_bytes = None, dm_family = None, dm_loaded = False, dm_type = None,
     dm_capabilities = None\<rparr>"

definition or_zero :: "u32 option \<Rightarrow> u32" where
  "or_zero c = (case c of Some v \<Rightarrow> v | None \<Rightarrow> 0)"

definition openai_model :: "json \<Rightarrow> discovered_model option" where
  "openai_model entry =
     (case Option.bind (first_value (jget entry) [''id'', ''name'']) as_str of
        None \<Rightarrow> None
      | Some i \<Rightarrow>
          if i = [] then None
          else Some ((blank_model i (label_of i entry) (or_zero (context_of entry)))
                 \<lparr>dm_size_bytes := Option.bind (first_value (jget entry) [''size_bytes'', ''size'']) as_u64\<rparr>))"

definition parse_openai_models :: "json \<Rightarrow> discovered_model list" where
  "parse_openai_models body = List.map_filter openai_model (array_at body ''data'')"

definition details_str :: "json \<Rightarrow> string \<Rightarrow> ustr option" where
  "details_str j k = Option.bind (jget j ''details'') (\<lambda>d. str_at d k)"

definition ollama_tag :: "json \<Rightarrow> discovered_model option" where
  "ollama_tag entry =
     (case Option.bind (first_value (jget entry) [''name'', ''model'']) as_str of
        None \<Rightarrow> None
      | Some i \<Rightarrow>
          if i = [] then None
          else Some ((blank_model i (label_of i entry) (or_zero (context_of entry)))
                 \<lparr>dm_parameter_size := details_str entry ''parameter_size'',
                  dm_quantization := details_str entry ''quantization_level'',
                  dm_size_bytes := Option.bind (first_value (jget entry) [''size'', ''size_bytes'']) as_u64,
                  dm_family := details_str entry ''family''\<rparr>))"

definition parse_ollama_tags :: "json \<Rightarrow> discovered_model list" where
  "parse_ollama_tags body = List.map_filter ollama_tag (array_at body ''models'')"

definition version_of :: "json \<Rightarrow> ustr option" where
  "version_of body =
     first_value (\<lambda>k. case str_at body k of Some v \<Rightarrow> if v \<noteq> [] then Some v else None | None \<Rightarrow> None)
       [''version'', ''ollama_version'', ''server_version'']"

definition context_from_model_info :: "json \<Rightarrow> u32 option" where
  "context_from_model_info body =
     (case jget body ''model_info'' of
        Some (JObj kvs) \<Rightarrow>
          (case List.map_filter (\<lambda>(k, v). if ends_with k (lit ''.context_length'') \<or> k = lit ''context_length'' then as_u64 v else None) kvs of
             [] \<Rightarrow> None
           | n # ns \<Rightarrow> u32_of (fold max ns n))
      | _ \<Rightarrow> None)"

definition ollama_flag :: "ustr \<Rightarrow> model_capabilities \<Rightarrow> model_capabilities" where
  "ollama_flag v c =
     (if v = lit ''completion'' then c\<lparr>mc_chat := Some True\<rparr>
      else if v = lit ''tools'' then c\<lparr>mc_tools := Some True\<rparr>
      else if v = lit ''vision'' then c\<lparr>mc_vision := Some True\<rparr>
      else if v = lit ''thinking'' then c\<lparr>mc_reasoning := Some True\<rparr>
      else if v = lit ''embedding'' then c\<lparr>mc_embedding := Some True\<rparr>
      else c)"

definition ollama_capabilities :: "json \<Rightarrow> model_capabilities" where
  "ollama_capabilities body =
     (case Option.bind (jget body ''capabilities'') as_array of
        None \<Rightarrow> no_capabilities
      | Some vs \<Rightarrow> fold ollama_flag (List.map_filter as_str vs)
          \<lparr>mc_chat = Some False, mc_tools = Some False, mc_vision = Some False, mc_reasoning = Some False, mc_embedding = Some False\<rparr>)"

definition ollama_details_from_show :: "json \<Rightarrow> u64 option \<Rightarrow> model_details" where
  "ollama_details_from_show body bytes =
     (let caps = ollama_capabilities body in
      \<lparr>md_context = or_else (or_else (context_from_model_info body) (context_of body))
         (Option.bind (Option.bind (jget body ''details'') (\<lambda>d. u64_at d ''context_length'')) u32_of),
       md_parameter_size = details_str body ''parameter_size'',
       md_quantization = details_str body ''quantization_level'',
       md_family = or_else (details_str body ''family'')
         (Option.bind (jget body ''model_info'') (\<lambda>i. str_at i ''general.architecture'')),
       md_size_bytes = or_else bytes (u64_at body ''size''),
       md_loaded = False,
       md_type = (if mc_embedding caps = Some True then Some (lit ''embedding'')
                  else if mc_vision caps = Some True then Some (lit ''vlm'')
                  else if any_capability caps then Some (lit ''llm'') else None),
       md_capabilities = caps\<rparr>)"

definition lmstudio_flag :: "ustr \<Rightarrow> model_capabilities \<Rightarrow> model_capabilities" where
  "lmstudio_flag v c =
     (if one_of v [''tool_use'', ''tools''] then c\<lparr>mc_tools := Some True\<rparr>
      else if v = lit ''vision'' then c\<lparr>mc_vision := Some True\<rparr>
      else if one_of v [''reasoning'', ''thinking''] then c\<lparr>mc_reasoning := Some True\<rparr>
      else if v = lit ''embedding'' then c\<lparr>mc_embedding := Some True\<rparr>
      else c)"

definition lmstudio_details :: "json \<Rightarrow> model_details" where
  "lmstudio_details entry =
     (let kind = str_at entry ''type'';
          caps = (if kind = Some (lit ''llm'') then no_capabilities\<lparr>mc_chat := Some True\<rparr>
                  else if kind = Some (lit ''vlm'') then no_capabilities\<lparr>mc_chat := Some True, mc_vision := Some True\<rparr>
                  else if kind = Some (lit ''embeddings'') then no_capabilities\<lparr>mc_chat := Some False, mc_embedding := Some True\<rparr>
                  else no_capabilities);
          caps = (case Option.bind (jget entry ''capabilities'') as_array of
                    None \<Rightarrow> caps
                  | Some vs \<Rightarrow> fold lmstudio_flag (List.map_filter as_str vs) (caps\<lparr>mc_tools := Some False\<rparr>))
      in \<lparr>md_context = context_of entry, md_parameter_size = None, md_quantization = str_at entry ''quantization'',
          md_family = Option.bind (first_value (jget entry) [''arch'', ''architecture'']) as_str,
          md_size_bytes = Option.bind (first_value (jget entry) [''size_bytes'', ''size'']) as_u64,
          md_loaded = (case str_at entry ''state'' of Some s \<Rightarrow> ascii_lower s = lit ''loaded'' | None \<Rightarrow> False),
          md_type = kind, md_capabilities = caps\<rparr>)"

definition lmstudio_cli_details :: "json \<Rightarrow> model_details" where
  "lmstudio_cli_details entry =
     (let kind = str_at entry ''type'';
          is_embedding = (kind = Some (lit ''embedding''))
      in \<lparr>md_context = context_of entry, md_parameter_size = str_at entry ''paramsString'',
          md_quantization = Option.bind (jget entry ''quantization'') (\<lambda>v. or_else (str_at v ''name'') (as_str v)),
          md_family = str_at entry ''architecture'', md_size_bytes = u64_at entry ''sizeBytes'', md_loaded = False,
          md_type = kind,
          md_capabilities =
            \<lparr>mc_chat = Some (\<not> is_embedding), mc_tools = Option.bind (jget entry ''trainedForToolUse'') as_bool,
             mc_vision = Option.bind (jget entry ''vision'') as_bool, mc_reasoning = None,
             mc_embedding = (if is_embedding then Some True else None)\<rparr>\<rparr>)"

text \<open>\<open>Path::file\_stem\<close> of a path with slashes.\<close>

definition file_stem :: "ustr \<Rightarrow> ustr option" where
  "file_stem path =
     (case rev (filter (\<lambda>p. p \<noteq> [] \<and> p \<noteq> lit ''.'') (str_split slash path)) of
        [] \<Rightarrow> None
      | name # _ \<Rightarrow>
          if name = lit ''..'' then None
          else let before = rev (tl (dropWhile (\<lambda>c. c \<noteq> ch (CHR ''.'')) (rev name)))
               in Some (if ch (CHR ''.'') \<in> set name \<and> before \<noteq> [] then before else name))"

definition llamacpp_details :: "json \<Rightarrow> model_details" where
  "llamacpp_details props =
     \<lparr>md_context = Option.bind (Option.bind
          (or_else (Option.bind (jget props ''default_generation_settings'') (\<lambda>d. jget d ''n_ctx'')) (jget props ''n_ctx''))
          as_u64) u32_of,
      md_parameter_size = None, md_quantization = None,
      md_family = Option.bind (str_at props ''model_path'') file_stem,
      md_size_bytes = None, md_loaded = False, md_type = Some (lit ''llm''), md_capabilities = no_capabilities\<rparr>"

section \<open>The merge of several sources\<close>

text \<open>The last source that published a value has the word.\<close>

fun last_known :: "'a option \<Rightarrow> 'a option list \<Rightarrow> 'a option" where
  "last_known v [] = v"
| "last_known v (x # xs) = last_known (newer x v) xs"

definition flags_of :: "discovered_model \<Rightarrow> model_capabilities" where
  "flags_of m = (case dm_capabilities m of Some c \<Rightarrow> c | None \<Rightarrow> no_capabilities)"

lemma newer_simps [simp]: "newer None v = v" "newer (Some x) v = Some x" "newer v None = v"
  by (simp_all add: newer_def split: option.split)

lemma merge_flags: "flags_of (merge_into d m) = merge_capabilities (flags_of m) (md_capabilities d)"
  by (cases "dm_capabilities m")
     (auto simp: flags_of_def merge_into_def any_capability_def merge_capabilities_def no_capabilities_def)

lemma merge_context: "dm_context (merge_into d m) = max (dm_context m) (or_zero (md_context d))"
  by (auto simp: merge_into_def or_zero_def max_def not_less split: option.split)

text \<open>
  However many native sources describe a model, in whatever order they are merged
  into it, each capability is the one of the last source that published it, the context window is
  the largest published one, and the model counts as loaded if any source says so: a source that
  knows less never erases what another one reported.
\<close>

theorem merge_last_word:
  "(flags_of (fold merge_into ds m), dm_context (fold merge_into ds m), dm_loaded (fold merge_into ds m)) =
    (\<lparr>mc_chat = last_known (mc_chat (flags_of m)) (map (\<lambda>d. mc_chat (md_capabilities d)) ds),
      mc_tools = last_known (mc_tools (flags_of m)) (map (\<lambda>d. mc_tools (md_capabilities d)) ds),
      mc_vision = last_known (mc_vision (flags_of m)) (map (\<lambda>d. mc_vision (md_capabilities d)) ds),
      mc_reasoning = last_known (mc_reasoning (flags_of m)) (map (\<lambda>d. mc_reasoning (md_capabilities d)) ds),
      mc_embedding = last_known (mc_embedding (flags_of m)) (map (\<lambda>d. mc_embedding (md_capabilities d)) ds)\<rparr>,
     fold max (map (\<lambda>d. or_zero (md_context d)) ds) (dm_context m),
     dm_loaded m \<or> list_ex md_loaded ds)"
proof (induction ds arbitrary: m)
  case (Cons d ds)
  have "dm_loaded (merge_into d m) = (md_loaded d \<or> dm_loaded m)" by (simp add: merge_into_def)
  then show ?case
    by (simp add: Cons.IH merge_flags merge_context merge_capabilities_def max.commute disj_commute disj_left_commute)
qed simp

section \<open>Native detail\<close>

text \<open>
  What the machine and its servers answer: a successful GET gives its body, \<open>Some None\<close> when the body
  is no JSON; \<open>n\_client\<close> is the error of building the HTTP client, \<open>n\_locate\<close> the install evidence
  found on disk, \<open>n\_cli\<close> what the LM Studio CLI lists, and \<open>n\_in\_time\<close> says whether the detailed pass for an address met its deadline. The
  passes only change the list after their last answer, so a missed deadline changes nothing.
\<close>

record net_view =
  n_client :: "ustr option"
  n_get :: "ustr \<Rightarrow> json option option"
  n_open :: "ustr \<Rightarrow> nat \<Rightarrow> bool"
  n_show :: "ustr \<Rightarrow> ustr \<Rightarrow> json option"
  n_cli :: "json list"
  n_in_time :: "ustr \<Rightarrow> bool"
  n_latency :: "ustr \<Rightarrow> u64"
  n_locate :: "runtime_id \<Rightarrow> bool \<times> ustr option \<times> ustr option"

definition get_json :: "net_view \<Rightarrow> ustr \<Rightarrow> json option" where
  "get_json n url = (case n_get n url of Some (Some v) \<Rightarrow> Some v | _ \<Rightarrow> None)"

definition ollama_ps :: "net_view \<Rightarrow> ustr \<Rightarrow> (ustr \<times> u32) list" where
  "ollama_ps n origin =
     (case get_json n (origin @ lit ''/api/ps'') of
        None \<Rightarrow> []
      | Some body \<Rightarrow>
          List.map_filter (\<lambda>e. case Option.bind (first_value (jget e) [''name'', ''model'']) as_str of
             None \<Rightarrow> None
           | Some name \<Rightarrow> Some (name, or_zero (Option.bind (u64_at e ''context_length'') u32_of)))
          (array_at body ''models''))"

definition mark_loaded :: "(ustr \<times> u32) list \<Rightarrow> discovered_model \<Rightarrow> discovered_model" where
  "mark_loaded loaded m =
     (case map_of (rev loaded) (dm_id m) of
        None \<Rightarrow> m
      | Some c \<Rightarrow> m\<lparr>dm_loaded := True, dm_context := (if dm_context m = 0 \<and> c > 0 then c else dm_context m)\<rparr>)"

definition enrich_ollama :: "net_view \<Rightarrow> ustr \<Rightarrow> discovered_model list \<Rightarrow> discovered_model list" where
  "enrich_ollama n origin models =
     map (\<lambda>m. mark_loaded (ollama_ps n origin)
            (case n_show n origin (dm_id m) of
               None \<Rightarrow> m
             | Some body \<Rightarrow>
                 (let d = ollama_details_from_show body None
                  in merge_into (d\<lparr>md_size_bytes := or_else (md_size_bytes d) (dm_size_bytes m)\<rparr>) m))) models"

definition entry_for :: "string \<Rightarrow> ustr \<Rightarrow> json list \<Rightarrow> json option" where
  "entry_for key i entries = find (\<lambda>e. str_at e key = Some i) entries"

definition enrich_lmstudio :: "net_view \<Rightarrow> ustr \<Rightarrow> discovered_model list \<Rightarrow> discovered_model list" where
  "enrich_lmstudio n origin models =
     (let api = (case get_json n (origin @ lit ''/api/v0/models'') of Some body \<Rightarrow> array_at body ''data'' | None \<Rightarrow> [])
      in map (\<lambda>m.
           let m1 = (case entry_for ''id'' (dm_id m) api of Some e \<Rightarrow> merge_into (lmstudio_details e) m | None \<Rightarrow> m)
           in case entry_for ''modelKey'' (dm_id m1) (n_cli n) of
                Some e \<Rightarrow> merge_into (lmstudio_cli_details e) m1 | None \<Rightarrow> m1) models)"

definition enrich_llamacpp :: "net_view \<Rightarrow> ustr \<Rightarrow> discovered_model list \<Rightarrow> discovered_model list" where
  "enrich_llamacpp n origin models =
     (case get_json n (origin @ lit ''/props'') of
        None \<Rightarrow> models
      | Some props \<Rightarrow> map (merge_into (llamacpp_details props)) models)"

definition enrich_models :: "net_view \<Rightarrow> runtime_id \<Rightarrow> ustr \<Rightarrow> discovered_model list \<Rightarrow> discovered_model list" where
  "enrich_models n i base_url models =
     (if models = [] \<or> n_client n \<noteq> None then models
      else let origin = base_origin base_url
           in case i of
                Ollama_Runtime \<Rightarrow> enrich_ollama n origin models
              | LmStudio \<Rightarrow> enrich_lmstudio n origin models
              | LlamaCpp \<Rightarrow> enrich_llamacpp n origin models
              | _ \<Rightarrow> models)"

definition enrich_models_by_slug :: "net_view \<Rightarrow> ustr \<Rightarrow> ustr \<Rightarrow> discovered_model list \<Rightarrow> discovered_model list" where
  "enrich_models_by_slug n slug base_url models =
     (case from_slug slug of Some i \<Rightarrow> enrich_models n i base_url models | None \<Rightarrow> models)"

section \<open>Identification\<close>

fun path_walk :: "json \<Rightarrow> ustr list \<Rightarrow> json option" where
  "path_walk j [] = Some j"
| "path_walk j (seg # segs) =
     (case (case parse_uint (2 ^ 64) seg of
              Some i \<Rightarrow> (case j of JArr vs \<Rightarrow> if i < length vs then Some (vs ! i) else None | _ \<Rightarrow> None)
            | None \<Rightarrow> jget_key j seg) of
        None \<Rightarrow> None
      | Some v \<Rightarrow> path_walk v segs)"

definition path_get :: "json \<Rightarrow> ustr \<Rightarrow> json option" where
  "path_get body path = path_walk body (str_split (\<lambda>c. c = ch (CHR ''.'')) path)"

definition FINGERPRINTS :: "(runtime_id \<times> ustr \<times> ustr) list" where
  "FINGERPRINTS =
     [(Ollama_Runtime, lit ''/api/tags'', lit ''models.0.details.family''),
      (Ollama_Runtime, lit ''/api/version'', lit ''version''),
      (Vllm, lit ''/version'', lit ''version''),
      (LlamaCpp, lit ''/props'', lit ''default_generation_settings''),
      (KoboldCpp, lit ''/api/v1/model'', lit ''result''),
      (LmStudio, lit ''/api/v0/models'', lit ''data'')]"

definition matches_fingerprint :: "net_view \<Rightarrow> ustr \<Rightarrow> runtime_id \<times> ustr \<times> ustr \<Rightarrow> (runtime_id \<times> json) option" where
  "matches_fingerprint n origin fp =
     (case fp of (i, path, marker) \<Rightarrow>
        (case n_get n (origin @ path) of
           None \<Rightarrow> None
         | Some body \<Rightarrow>
             (let v = (case body of Some v \<Rightarrow> v | None \<Rightarrow> JNull)
              in if path_get v marker \<noteq> None then Some (i, v) else None)))"

text \<open>The runtime, its version, and the tag list when it is Ollama.\<close>

definition fingerprint :: "net_view \<Rightarrow> ustr \<Rightarrow> runtime_id option \<times> ustr option \<times> json option" where
  "fingerprint n origin =
     (case first_value (matches_fingerprint n origin) FINGERPRINTS of
        None \<Rightarrow> (None, None, None)
      | Some (i, body) \<Rightarrow> (Some i, version_of body, if i = Ollama_Runtime then Some body else None))"

section \<open>One probed server\<close>

datatype probe_error = No_Model_Loaded | No_Model_List

record detected_runtime =
  dr_slug :: ustr
  dr_label :: ustr
  dr_kind :: ustr
  dr_base_url :: ustr
  dr_host :: ustr
  dr_port :: nat
  dr_listening :: bool
  dr_online :: bool
  dr_latency_ms :: "u64 option"
  dr_version :: "ustr option"
  dr_installed :: bool
  dr_install_hint :: "ustr option"
  dr_launcher :: "ustr option"
  dr_models :: "discovered_model list"
  dr_error :: "probe_error option"

datatype reason = Because probe_error | Port_Taken | Not_Started

definition unavailable_reason :: "detected_runtime \<Rightarrow> reason option" where
  "unavailable_reason r =
     (if dr_online r then map_option Because (dr_error r)
      else if dr_listening r then Some Port_Taken
      else if dr_installed r then Some Not_Started else None)"

definition tcp_open :: "net_view \<Rightarrow> ustr \<Rightarrow> nat \<Rightarrow> bool" where
  "tcp_open n host port = n_open n (trim_matches is_bracket host) port"

definition served_models :: "net_view \<Rightarrow> ustr \<Rightarrow> discovered_model list option" where
  "served_models n base_url = map_option parse_openai_models (get_json n (join_api base_url (lit ''/v1/models'')))"

text \<open>The library an identified Ollama listed, else what the OpenAI-compatible list holds.\<close>

definition tagged_models :: "json option \<Rightarrow> discovered_model list" where
  "tagged_models tags = (case tags of Some t \<Rightarrow> parse_ollama_tags t | None \<Rightarrow> [])"

definition listed_error :: "runtime_id option \<Rightarrow> discovered_model list \<Rightarrow> discovered_model list option \<Rightarrow> probe_error option" where
  "listed_error identified tagged served =
     (if tagged \<noteq> [] \<or> identified \<noteq> None then None
      else case served of
             Some list \<Rightarrow> if list \<noteq> [] then None else Some No_Model_Loaded
           | None \<Rightarrow> Some No_Model_List)"

definition detailed_pass :: "net_view \<Rightarrow> bool \<Rightarrow> runtime_id \<Rightarrow> detected_runtime \<Rightarrow> detected_runtime" where
  "detailed_pass n detailed i r =
     (if detailed \<and> dr_online r \<and> n_in_time n (dr_base_url r)
      then r\<lparr>dr_models := enrich_models n i (dr_base_url r) (dr_models r)\<rparr> else r)"

definition probe_port :: "net_view \<Rightarrow> ustr \<Rightarrow> nat \<Rightarrow> runtime_id \<Rightarrow> bool \<Rightarrow> detected_runtime" where
  "probe_port n host port fallback detailed =
     (let origin = lit ''http://'' @ host @ lit '':'' @ show_nat port;
          base_url = origin @ lit ''/v1'';
          served = served_models n base_url
      in case fingerprint n origin of (identified, version, tags) \<Rightarrow>
        (let i = (case identified of Some i \<Rightarrow> i | None \<Rightarrow> fallback);
             tagged = tagged_models tags;
             models = (if tagged \<noteq> [] then tagged else case served of Some l \<Rightarrow> l | None \<Rightarrow> [])
         in case n_locate n i of (installed, hint, exe) \<Rightarrow>
           detailed_pass n detailed i
             \<lparr>dr_slug = runtime_slug i, dr_label = runtime_label i, dr_kind = kind_str (runtime_kind i),
              dr_base_url = base_url, dr_host = host, dr_port = port, dr_listening = True,
              dr_online = (identified \<noteq> None \<or> models \<noteq> []),
              dr_latency_ms = Some (n_latency n origin), dr_version = version, dr_installed = installed,
              dr_install_hint = hint, dr_launcher = Option.bind exe (launch_command i), dr_models = models,
              dr_error = listed_error identified tagged served\<rparr>))"

definition installed_only :: "net_view \<Rightarrow> runtime_id \<Rightarrow> detected_runtime" where
  "installed_only n i =
     (case n_locate n i of (installed, hint, exe) \<Rightarrow>
        \<lparr>dr_slug = runtime_slug i, dr_label = runtime_label i, dr_kind = kind_str (runtime_kind i),
         dr_base_url = default_base_url i, dr_host = lit ''127.0.0.1'', dr_port = default_port i,
         dr_listening = False, dr_online = False, dr_latency_ms = None, dr_version = None,
         dr_installed = installed, dr_install_hint = hint,
         dr_launcher = Option.bind exe (launch_command i), dr_models = [], dr_error = None\<rparr>)"

section \<open>The sweep of this machine\<close>

definition LOOPBACK_HOSTS :: "ustr list" where
  "LOOPBACK_HOSTS = [lit ''127.0.0.1'', lit ''[::1]'']"

definition occupied_port_note :: "nat \<Rightarrow> bool" where
  "occupied_port_note port \<longleftrightarrow> port = 5000"

record scan_report =
  sr_runtimes :: "detected_runtime list"
  sr_occupied :: "(nat \<times> bool) list"
  sr_hosts :: "ustr list"

definition probed :: "net_view \<Rightarrow> bool \<Rightarrow> detected_runtime list" where
  "probed n detailed =
     List.map_filter (\<lambda>(host, port, fallback).
       if tcp_open n host port then Some (probe_port n host port fallback detailed) else None)
     [(host, hint). host \<leftarrow> LOOPBACK_HOSTS, hint \<leftarrow> PORT_HINTS]"

definition occupied_ports :: "detected_runtime list \<Rightarrow> (nat \<times> bool) list" where
  "occupied_ports rows =
     remdups_adj (sort_key fst (map (\<lambda>r. (dr_port r, occupied_port_note (dr_port r)))
       (filter (\<lambda>r. \<not> dr_online r) rows)))"

definition row_order :: "detected_runtime \<Rightarrow> bool \<times> bool \<times> ustr \<times> nat" where
  "row_order r = (\<not> dr_online r, dr_host r \<noteq> lit ''127.0.0.1'', dr_host r, dr_port r)"

text \<open>\<open>retain(|r| seen\_ports.insert(r.port))\<close>.\<close>

fun retain_new_ports :: "nat set \<Rightarrow> detected_runtime list \<Rightarrow> detected_runtime list" where
  "retain_new_ports seen [] = []"
| "retain_new_ports seen (r # rs) =
     (if dr_port r \<in> seen then retain_new_ports seen rs
      else r # retain_new_ports (insert (dr_port r) seen) rs)"

definition online_rows :: "detected_runtime list \<Rightarrow> detected_runtime list" where
  "online_rows rows = retain_new_ports {} (sort_key row_order (filter dr_online rows))"

definition answered :: "detected_runtime list \<Rightarrow> runtime_id \<Rightarrow> bool" where
  "answered rows i \<longleftrightarrow> list_ex (\<lambda>r. dr_online r \<and> (dr_slug r = runtime_slug i \<or> dr_port r = default_port i)) rows"

definition push_installed :: "net_view \<Rightarrow> runtime_id \<Rightarrow> detected_runtime list \<Rightarrow> detected_runtime list" where
  "push_installed n i rows =
     (if answered rows i then rows
      else let entry = installed_only n i in if dr_installed entry then rows @ [entry] else rows)"

definition scan_local_runtimes :: "net_view \<Rightarrow> bool \<Rightarrow> ustr + scan_report" where
  "scan_local_runtimes n detailed =
     (case n_client n of
        Some e \<Rightarrow> Inl e
      | None \<Rightarrow>
          let rows = probed n detailed
          in Inr \<lparr>sr_runtimes = fold (push_installed n) DETECTABLE (online_rows rows),
                  sr_occupied = occupied_ports rows, sr_hosts = LOOPBACK_HOSTS\<rparr>)"

section \<open>One address the user typed\<close>

datatype address_error = Base_Url_Empty | Host_Unparsable ustr | Client_Failed ustr

definition typed_port :: "ustr \<Rightarrow> nat" where
  "typed_port url =
     (let authority = (case second_piece scheme_mark url of
            Some rest \<Rightarrow> takeWhile (\<lambda>c. \<not> ends_authority c) rest | None \<Rightarrow> []);
          port = (case strip_prefix (lit ''['') authority of
              Some rest \<Rightarrow>
                (case str_split (\<lambda>c. c = ch (CHR '']'')) rest of
                   _ # after # _ \<Rightarrow> Option.bind (strip_prefix (lit '':'') after) (parse_uint 65536)
                 | _ \<Rightarrow> None)
            | None \<Rightarrow>
                (if ch (CHR '':'') \<in> set authority
                 then parse_uint 65536 (last (str_split (\<lambda>c. c = ch (CHR '':'')) authority)) else None))
      in case port of Some p \<Rightarrow> p | None \<Rightarrow> if starts_with url (lit ''https'') then 443 else 80)"

definition probe_base_url :: "net_view \<Rightarrow> ustr \<Rightarrow> bool \<Rightarrow> address_error + detected_runtime" where
  "probe_base_url n url detailed =
     (let url = trim url in
      if url = [] then Inl Base_Url_Empty
      else let with_scheme = (if str_find scheme_mark url \<noteq> None then url else lit ''http://'' @ url);
               host = host_of with_scheme
           in if host = [] then Inl (Host_Unparsable url)
              else case n_client n of
                Some e \<Rightarrow> Inl (Client_Failed e)
              | None \<Rightarrow>
                 (let port = typed_port with_scheme;
                      served = served_models n with_scheme;
                      origin = first_piece scheme_mark with_scheme @ scheme_mark @ host @ lit '':'' @ show_nat port
                  in case fingerprint n origin of (identified, version, tags) \<Rightarrow>
                    (let i = (case identified of Some i \<Rightarrow> i | None \<Rightarrow> OpenAiCompat);
                         tagged = tagged_models tags;
                         models = (if tagged \<noteq> [] then tagged else case served of Some l \<Rightarrow> l | None \<Rightarrow> []);
                         listening = tcp_open n host port
                     in Inr (detailed_pass n detailed i
                          ((installed_only n i)
                            \<lparr>dr_base_url := trim_end_matches slash with_scheme, dr_host := host, dr_port := port,
                             dr_latency_ms := Some (n_latency n origin), dr_version := version,
                             dr_models := models, dr_listening := listening,
                             dr_online := listening \<and> (identified \<noteq> None \<or> models \<noteq> []),
                             dr_error := (if models = [] \<and> identified = None then Some No_Model_List else None),
                             dr_installed := False, dr_install_hint := None, dr_launcher := None\<rparr>)))))"

section \<open>What a sweep reports\<close>

lemma detailed_pass_keeps [simp]:
  "dr_port (detailed_pass n d i r) = dr_port r" "dr_host (detailed_pass n d i r) = dr_host r"
  "dr_online (detailed_pass n d i r) = dr_online r" "dr_installed (detailed_pass n d i r) = dr_installed r"
  by (simp_all add: detailed_pass_def)

lemma probe_port_at [simp]:
  "dr_port (probe_port n host p fb d) = p" "dr_host (probe_port n host p fb d) = host"
  by (simp_all add: probe_port_def Let_def split: prod.splits)

lemma map_filter_distinct:
  assumes "distinct (map k xs)" "\<And>x y. f x = Some y \<Longrightarrow> g y = k x"
  shows "distinct (map g (List.map_filter f xs))"
proof -
  have sub: "set (map g (List.map_filter f xs)) \<subseteq> set (map k xs)" for xs
    using assms(2) by (induction xs) (auto simp: map_filter_simps split: option.splits)
  show ?thesis
    using assms(1)
  proof (induction xs)
    case (Cons a xs)
    then show ?case
      using sub [of xs] assms(2) [of a] by (auto simp: map_filter_simps split: option.splits)
  qed simp
qed

lemma probed_distinct: "distinct (map (\<lambda>r. (dr_host r, dr_port r)) (probed n d))"
  unfolding probed_def
  by (rule map_filter_distinct [where k = "\<lambda>t. (fst t, fst (snd t))"])
    (auto simp: LOOPBACK_HOSTS_def PORT_HINTS_def lit_def ch_def split: if_splits)

lemma retain_new_ports_distinct:
  "distinct (map dr_port (retain_new_ports seen rs)) \<and>
   dr_port ` set (retain_new_ports seen rs) = dr_port ` set rs - seen \<and>
   set (retain_new_ports seen rs) \<subseteq> set rs"
  by (induction rs arbitrary: seen) auto

lemma retain_new_ports_first:
  "dr_port x \<notin> seen \<Longrightarrow> dr_port x \<notin> dr_port ` set as \<Longrightarrow>
   x \<in> set (retain_new_ports seen (as @ x # bs))"
  by (induction as arbitrary: seen) auto

lemma online_rows_online: "r \<in> set (online_rows rows) \<Longrightarrow> r \<in> set rows \<and> dr_online r"
  using retain_new_ports_distinct [of "{}" "sort_key row_order (filter dr_online rows)"]
  by (auto simp: online_rows_def)

lemma online_rows_ports: "dr_port ` set (online_rows rows) = dr_port ` {r \<in> set rows. dr_online r}"
  using retain_new_ports_distinct [of "{}" "sort_key row_order (filter dr_online rows)"]
  by (auto simp: online_rows_def)

lemma online_rows_v4:
  assumes d: "distinct (map (\<lambda>r. (dr_host r, dr_port r)) rows)"
    and x: "x \<in> set rows" "dr_online x" "dr_host x = lit ''127.0.0.1''"
  shows "x \<in> set (online_rows rows)"
proof -
  let ?s = "sort_key row_order (filter dr_online rows)"
  define key where "key = (\<lambda>r :: detected_runtime. (dr_host r, dr_port r))"
  obtain as bs where s: "?s = as @ x # bs"
    using split_list [of x ?s] x by auto
  have "distinct (map key ?s)"
    using d unfolding key_def [symmetric] by (simp add: distinct_map distinct_filter inj_on_def)
  then have new: "key x \<notin> key ` set as" by (simp add: s)
  have "sorted (map row_order (as @ x # bs))" by (metis s sorted_sort_key)
  then have le: "row_order a \<le> row_order x" if "a \<in> set as" for a
    using that by (auto simp: sorted_append)
  have "dr_port a \<noteq> dr_port x" if a: "a \<in> set as" for a
  proof -
    have "dr_online a" using a arg_cong [OF s, of set] by auto
    then have "dr_host a = lit ''127.0.0.1''"
      using le [OF a] x by (simp add: row_order_def less_eq_prod_def split: if_splits)
    then have "dr_port a = dr_port x \<Longrightarrow> key a = key x" using x(3) by (simp add: key_def)
    then show ?thesis using new a by (metis image_eqI)
  qed
  then show ?thesis
    unfolding online_rows_def s by (intro retain_new_ports_first) (simp_all add: image_iff, metis)
qed

lemma push_installed_adds:
  assumes "distinct (map default_port ids)" "distinct (map dr_port rows)"
    "\<And>r i. r \<in> set rows \<Longrightarrow> \<not> dr_online r \<Longrightarrow> i \<in> set ids \<Longrightarrow> dr_port r \<noteq> default_port i"
  shows "\<exists>added. fold (push_installed n) ids rows = rows @ added \<and> distinct (map dr_port (rows @ added)) \<and>
    list_all (\<lambda>r. \<not> dr_online r \<and> dr_installed r) added"
  using assms
proof (induction ids arbitrary: rows)
  case (Cons i ids)
  show ?case
  proof (cases "push_installed n i rows = rows")
    case True
    then show ?thesis using Cons.IH [of rows] Cons.prems by simp
  next
    case False
    define e where "e = installed_only n i"
    have e: "dr_port e = default_port i" "\<not> dr_online e" by (auto simp: e_def installed_only_def split: prod.splits)
    have p: "\<not> answered rows i" "push_installed n i rows = rows @ [e]" "dr_installed e"
      using False by (auto simp: push_installed_def Let_def e_def split: if_splits)
    have new: "default_port i \<notin> dr_port ` set rows"
      using p(1) Cons.prems(3) by (fastforce simp: answered_def list_ex_iff)
    have step: "dr_port r \<noteq> default_port j" if "r \<in> set (rows @ [e])" "\<not> dr_online r" "j \<in> set ids" for r j
      using that Cons.prems(1,3) e by (auto simp: image_iff)
    have "\<exists>added. fold (push_installed n) ids (rows @ [e]) = (rows @ [e]) @ added \<and>
        distinct (map dr_port ((rows @ [e]) @ added)) \<and> list_all (\<lambda>r. \<not> dr_online r \<and> dr_installed r) added"
      by (rule Cons.IH [OF _ _ step]) (use Cons.prems(1,2) new e in auto)
    then obtain added where "fold (push_installed n) ids (rows @ [e]) = (rows @ [e]) @ added"
      "distinct (map dr_port ((rows @ [e]) @ added))" "list_all (\<lambda>r. \<not> dr_online r \<and> dr_installed r) added"
      by blast
    then show ?thesis using e p by (intro exI [of _ "e # added"]) simp
  qed
qed simp

lemma sorted_fst_once:
  "sorted (map fst xs) \<Longrightarrow> (\<And>a b b'. (a, b) \<in> set xs \<Longrightarrow> (a, b') \<in> set xs \<Longrightarrow> b = b') \<Longrightarrow>
   distinct (map fst (remdups_adj xs))"
proof (induction xs rule: remdups_adj.induct)
  case (3 x y xs)
  show ?case
  proof (cases "x = y")
    case False
    then have less: "fst x < fst y"
      using "3.prems" by (metis antisym_conv2 list.set_intros(1,2) list.simps(9) order_antisym prod.collapse sorted2_simps(2))
    then have "fst x \<notin> fst ` set (y # xs)"
      using "3.prems"(1) by auto
    with less show ?thesis using "3.IH"(2) [OF False] "3.prems" False by (simp add: image_iff) metis
  qed (use "3.IH"(1) "3.prems" in auto)
qed auto

lemma occupied_once: "distinct (map fst (occupied_ports rows))"
  unfolding occupied_ports_def by (rule sorted_fst_once) auto

lemma occupied_are_offline: "fst ` set (occupied_ports rows) = dr_port ` {x \<in> set rows. \<not> dr_online x}"
  by (force simp: occupied_ports_def image_iff)

lemma scan_rows:
  assumes "scan_local_runtimes n detailed = Inr r"
  obtains added where "sr_runtimes r = online_rows (probed n detailed) @ added"
    "distinct (map dr_port (online_rows (probed n detailed) @ added))"
    "list_all (\<lambda>x. \<not> dr_online x \<and> dr_installed x) added" "sr_occupied r = occupied_ports (probed n detailed)"
proof -
  have r: "sr_runtimes r = fold (push_installed n) DETECTABLE (online_rows (probed n detailed))"
    "sr_occupied r = occupied_ports (probed n detailed)"
    using assms by (auto simp: scan_local_runtimes_def Let_def split: option.splits)
  have ports: "distinct (map default_port DETECTABLE)"
    by (simp add: DETECTABLE_def default_port_def PORT_HINTS_def)
  have once: "distinct (map dr_port (online_rows (probed n detailed)))"
    using retain_new_ports_distinct by (simp add: online_rows_def)
  show thesis
    using push_installed_adds [OF ports once] online_rows_online r that by metis
qed


definition demo_net :: net_view where
  "demo_net = \<lparr>n_client = None,
     n_get = (\<lambda>url. if starts_with url (lit ''http://1'') then Some (Some (JObj [(lit ''data'', JArr [])])) else None),
     n_open = (\<lambda>_ _. True), n_show = (\<lambda>_ _. None), n_cli = [],
     n_in_time = (\<lambda>_. True), n_latency = (\<lambda>_. 3), n_locate = (\<lambda>i. (i = Jan, None, None))\<rparr>"


lemma first_value_None: "first_value f xs = None \<longleftrightarrow> (\<forall>x \<in> set xs. f x = None)"
  by (induction xs) (auto split: option.split)

text \<open>
  A port that serves on one loopback host and answers something else on the other is in both lists,
  which the test of the sweep rules out.
\<close>

lemma port_in_both_lists:
  "case scan_local_runtimes demo_net False of Inl _ \<Rightarrow> False
   | Inr r \<Rightarrow> 1234 \<in> dr_port ` {x \<in> set (sr_runtimes r). dr_online x} \<and> 1234 \<in> fst ` set (sr_occupied r)"
proof -
  let ?a = "probe_port demo_net (lit ''127.0.0.1'') 1234 LmStudio False"
  let ?b = "probe_port demo_net (lit ''[::1]'') 1234 LmStudio False"
  have s: "show_nat 1234 = lit ''1234''" by (simp add: show_nat.simps lit_def ch_def)
  have v: "path_get (JObj [(lit ''data'', JArr [])]) (lit ''data'') \<noteq> None"
    by (simp add: path_get_def lit_def ch_def str_split.simps parse_uint_def is_ascii_digit_def jget_key_def)
  have g: "n_get demo_net (lit ''http://127.0.0.1:1234'' @ p) = Some (Some (JObj [(lit ''data'', JArr [])]))"
    "n_get demo_net (lit ''http://[::1]:1234'' @ p) = None" for p
    by (simp_all add: demo_net_def lit_def starts_with_def)
  have j: "join_api (lit ''http://[::1]:1234/v1'') (lit ''/v1/models'') = lit ''http://[::1]:1234'' @ lit ''/v1/models''"
    by code_simp
  have fa: "fst (fingerprint demo_net (lit ''http://127.0.0.1:1234'')) \<noteq> None"
  proof -
    have "matches_fingerprint demo_net (lit ''http://127.0.0.1:1234'') (LmStudio, lit ''/api/v0/models'', lit ''data'') \<noteq> None"
      using v by (simp add: matches_fingerprint_def g)
    moreover have "(LmStudio, lit ''/api/v0/models'', lit ''data'') \<in> set FINGERPRINTS" by (simp add: FINGERPRINTS_def)
    ultimately have some: "first_value (matches_fingerprint demo_net (lit ''http://127.0.0.1:1234'')) FINGERPRINTS \<noteq> None"
      unfolding first_value_None by (metis (no_types))
    show ?thesis using some by (auto simp: fingerprint_def)
  qed
  have fb: "fingerprint demo_net (lit ''http://[::1]:1234'') = (None, None, None)"
  proof -
    have "first_value (matches_fingerprint demo_net (lit ''http://[::1]:1234'')) FINGERPRINTS = None"
      unfolding first_value_None by (simp add: FINGERPRINTS_def matches_fingerprint_def g)
    then show ?thesis by (simp add: fingerprint_def)
  qed
  have gb: "get_json demo_net (join_api (lit ''http://[::1]:1234/v1'') (lit ''/v1/models'')) = None"
    by (simp add: get_json_def j g)
  obtain i w t where f: "fingerprint demo_net (lit ''http://127.0.0.1:1234'') = (Some i, w, t)"
    using fa by (cases "fingerprint demo_net (lit ''http://127.0.0.1:1234'')") auto
  have on: "dr_online ?a"
    by (simp add: f probe_port_def s detailed_pass_def Let_def split: prod.split flip: lit_append)
  have off: "\<not> dr_online ?b"
    using fb gb by (simp add: probe_port_def s detailed_pass_def served_models_def tagged_models_def Let_def split: prod.split flip: lit_append)
  have port: "dr_port (probe_port n h p i False) = p" for n h p i
    by (simp add: probe_port_def detailed_pass_def Let_def split: prod.split option.split)
  let ?rows = "probed demo_net False"
  have mem: "?a \<in> set ?rows" "?b \<in> set ?rows"
    by (auto simp: probed_def List.map_filter_def LOOPBACK_HOSTS_def PORT_HINTS_def tcp_open_def demo_net_def)
  obtain r where r: "scan_local_runtimes demo_net False = Inr r"
    by (simp add: scan_local_runtimes_def demo_net_def Let_def)
  obtain added where ad: "sr_runtimes r = online_rows ?rows @ added" "sr_occupied r = occupied_ports ?rows"
    by (rule scan_rows [OF r])
  have "1234 \<in> dr_port ` set (online_rows ?rows)"
    unfolding online_rows_ports by (rule image_eqI [of _ _ ?a]) (use mem(1) on port in simp_all)
  then obtain x where x: "x \<in> set (online_rows ?rows)" "1234 = dr_port x" by (rule imageE)
  have "1234 \<in> dr_port ` {x \<in> set (sr_runtimes r). dr_online x}"
    by (rule image_eqI [of _ _ x]) (use x online_rows_online [OF x(1)] ad(1) in simp_all)
  moreover have "1234 \<in> fst ` set (sr_occupied r)"
    unfolding ad(2) occupied_are_offline by (rule image_eqI [of _ _ ?b]) (use mem(2) off port in simp_all)
  ultimately show ?thesis unfolding r by simp
qed

end
