(* ===== verification/Run_Undo.thy ===== *)
theory Run_Undo
  imports File_Write Verification
begin

text \<open>
  Undo of a run and the guard against stale writes (\<open>snapshot\_paths\<close>, \<open>revert\_run\<close> and
  \<open>stale\_write\_reason\<close> of \<open>core/src/runs/engine/query.rs\<close>, \<open>resolve\_snapshot\_path\<close> of
  \<open>helpers.rs\<close>). The content of a file is kept before the first change of it; reverting writes the
  kept contents back, last one first.
\<close>

section \<open>Contents\<close>

datatype content = Text ustr | Raw nat

fun content_of :: "node option \<Rightarrow> content option" where
  "content_of (Some (Text_File m s)) = Some (Text s)"
| "content_of (Some (Raw_File m n)) = Some (Raw n)"
| "content_of _ = None"

fun node_of :: "nat \<Rightarrow> content \<Rightarrow> node" where
  "node_of m (Text s) = Text_File m s"
| "node_of m (Raw n) = Raw_File m n"

fun mode_of :: "node option \<Rightarrow> nat option" where
  "mode_of (Some (Text_File m s)) = Some m"
| "mode_of (Some (Raw_File m n)) = Some m"
| "mode_of _ = None"

section \<open>Snapshots\<close>

definition MAX_SNAPSHOT_FILES :: nat where "MAX_SNAPSHOT_FILES = 128"
definition MAX_SNAPSHOT_RUNS :: nat where "MAX_SNAPSHOT_RUNS = 24"

record file_snapshot =
  fs_path :: Workspace_Paths.path
  fs_previous :: "content option"

type_synonym snapshot_map = "(nat \<times> file_snapshot list) list"

definition resolve_snapshot_path ::
  "fs_view \<Rightarrow> disk \<Rightarrow> raw_path option \<Rightarrow> ustr \<Rightarrow> Workspace_Paths.path option" where
  "resolve_snapshot_path fs d root path =
     (case Option.bind root (canon fs) of
        None \<Rightarrow> None
      | Some main \<Rightarrow>
          (case resolve_target_in fs main [] path of
             Inl e \<Rightarrow> None
           | Inr (resolved, writable) \<Rightarrow>
               if writable \<and> d resolved \<noteq> Some Folder then Some resolved else None))"

definition entry_of :: "nat \<Rightarrow> snapshot_map \<Rightarrow> file_snapshot list" where
  "entry_of run snaps = (case map_of snaps run of Some e \<Rightarrow> e | None \<Rightarrow> [])"

text \<open>\<open>guard.keys().next()\<close>: which key of a hash map comes first is \<open>pick\<close>.\<close>

definition evict_run :: "(nat list \<Rightarrow> nat) \<Rightarrow> nat \<Rightarrow> snapshot_map \<Rightarrow> snapshot_map" where
  "evict_run pick run snaps =
     (if length snaps > MAX_SNAPSHOT_RUNS \<and> map_of snaps run = None
      then AList.delete (pick (map fst snaps)) snaps else snaps)"

fun needed_paths :: "(ustr \<Rightarrow> Workspace_Paths.path option) \<Rightarrow> Workspace_Paths.path list \<Rightarrow> ustr list \<Rightarrow>
    Workspace_Paths.path list \<Rightarrow> Workspace_Paths.path list" where
  "needed_paths res seen [] needed = needed"
| "needed_paths res seen (p # ps) needed =
     (case res p of
        None \<Rightarrow> needed_paths res seen ps needed
      | Some r \<Rightarrow>
          if r \<in> set seen \<or> r \<in> set needed then needed_paths res seen ps needed
          else needed_paths res seen ps (needed @ [r]))"

definition capture :: "(Workspace_Paths.path \<Rightarrow> bool) \<Rightarrow> disk \<Rightarrow> Workspace_Paths.path \<Rightarrow> file_snapshot" where
  "capture readable d p = \<lparr>fs_path = p, fs_previous = (if readable p then content_of (d p) else None)\<rparr>"

definition snapshot_paths ::
  "fs_view \<Rightarrow> (Workspace_Paths.path \<Rightarrow> bool) \<Rightarrow> (nat list \<Rightarrow> nat) \<Rightarrow> nat \<Rightarrow> ustr option \<Rightarrow> ustr list \<Rightarrow>
     disk \<Rightarrow> snapshot_map \<Rightarrow> snapshot_map" where
  "snapshot_paths fs readable pick run root_path paths d snaps =
     (if paths = [] then snaps
      else
        let root = (case root_path of Some r \<Rightarrow> Some (raw_of r) | None \<Rightarrow> map_option raw_abs (fs_cwd fs));
            snaps = evict_run pick run snaps;
            entry = entry_of run snaps;
            snaps = AList.update run entry snaps
        in if length entry \<ge> MAX_SNAPSHOT_FILES then snaps
           else
             let needed = needed_paths (resolve_snapshot_path fs d root) (map fs_path entry) paths []
             in if needed = [] then snaps
                else AList.update run (entry @ map (capture readable d) needed) snaps)"

section \<open>Stale writes\<close>

datatype stale_reason = Changed_On_Disk ustr | Deleted_On_Disk ustr

definition normalize_tool_path ::
  "fs_view \<Rightarrow> disk \<Rightarrow> raw_path option \<Rightarrow> ustr \<Rightarrow> Workspace_Paths.path option" where
  "normalize_tool_path = resolve_snapshot_path"

definition note_fingerprint ::
  "fs_view \<Rightarrow> disk \<Rightarrow> ustr option \<Rightarrow> json \<Rightarrow> json \<Rightarrow> (Workspace_Paths.path \<times> u64) list \<Rightarrow> (Workspace_Paths.path \<times> u64) list" where
  "note_fingerprint fs d root_path args payload known =
     (case (str_arg args ''path'', Option.bind (jget payload ''fingerprint'') as_u64) of
        (Some path, Some fingerprint) \<Rightarrow>
          if fingerprint = 0 then known
          else (case normalize_tool_path fs d (map_option raw_of root_path) path of
                  Some key \<Rightarrow> AList.update key fingerprint known | None \<Rightarrow> known)
      | _ \<Rightarrow> known)"

definition writes_file :: "ustr \<Rightarrow> json \<Rightarrow> bool" where
  "writes_file tool args \<longleftrightarrow>
     (if tool = lit ''edit'' then True
      else if tool = lit ''files'' then one_of (action_or args '''') [''write'', ''append'', ''delete'', ''create'']
      else False)"

definition stale_path ::
  "(content \<Rightarrow> u64) \<Rightarrow> fs_view \<Rightarrow> (Workspace_Paths.path \<Rightarrow> bool) \<Rightarrow> raw_path option \<Rightarrow> (Workspace_Paths.path \<times> u64) list \<Rightarrow>
     disk \<Rightarrow> ustr \<Rightarrow> stale_reason option" where
  "stale_path fingerprint_of fs readable root known d path =
     (case normalize_tool_path fs d root path of
        None \<Rightarrow> None
      | Some key \<Rightarrow>
          (case map_of known key of
             None \<Rightarrow> None
           | Some expected \<Rightarrow>
               (case (if readable key then content_of (d key) else None) of
                  Some c \<Rightarrow> if fingerprint_of c \<noteq> expected then Some (Changed_On_Disk path) else None
                | None \<Rightarrow> Some (Deleted_On_Disk path))))"

fun first_stale :: "(ustr \<Rightarrow> stale_reason option) \<Rightarrow> ustr list \<Rightarrow> stale_reason option" where
  "first_stale f [] = None"
| "first_stale f (p # ps) = (case f p of Some r \<Rightarrow> Some r | None \<Rightarrow> first_stale f ps)"

definition stale_write_reason ::
  "(content \<Rightarrow> u64) \<Rightarrow> fs_view \<Rightarrow> (Workspace_Paths.path \<Rightarrow> bool) \<Rightarrow> (Workspace_Paths.path \<times> u64) list \<Rightarrow> ustr option \<Rightarrow>
     ustr \<Rightarrow> json \<Rightarrow> disk \<Rightarrow> stale_reason option" where
  "stale_write_reason fingerprint_of fs readable known root_path tool args d =
     (if \<not> writes_file tool args \<or> mutated_paths tool args = [] \<or> known = [] then None
      else first_stale (stale_path fingerprint_of fs readable (map_option raw_of root_path) known d) (mutated_paths tool args))"

section \<open>Reverting\<close>

text \<open>
  What the system answers while files are restored: \<open>re\_dirs\<close> for the folders, \<open>re\_put\<close> is None when
  a write succeeds and otherwise what it leaves, and \<open>re\_unlink\<close> whether a removal succeeds. A new
  file gets the mode of the umask.
\<close>

record restore_io =
  re_dirs :: "Workspace_Paths.path \<Rightarrow> write_io"
  re_put :: "Workspace_Paths.path \<Rightarrow> node option option"
  re_unlink :: "Workspace_Paths.path \<Rightarrow> bool"
  re_mode :: nat

definition put_file :: "restore_io \<Rightarrow> Workspace_Paths.path \<Rightarrow> content \<Rightarrow> disk \<Rightarrow> bool \<times> disk" where
  "put_file io p c d =
     (if d p = Some Folder \<or> (p \<noteq> [] \<and> d (butlast p) \<noteq> Some Folder) then (False, d)
      else case re_put io p of
             Some left \<Rightarrow> (False, d(p := left))
           | None \<Rightarrow> (True, d(p \<mapsto> node_of (case mode_of (d p) of Some m \<Rightarrow> m | None \<Rightarrow> re_mode io) c)))"

definition restore_one :: "restore_io \<Rightarrow> file_snapshot \<Rightarrow> disk \<Rightarrow> bool \<times> disk" where
  "restore_one io s d =
     (case fs_previous s of
        Some c \<Rightarrow> put_file io (fs_path s) c (snd (create_parents (re_dirs io (fs_path s)) (fs_path s) d))
      | None \<Rightarrow>
          if d (fs_path s) = None then (True, d)
          else if d (fs_path s) = Some Folder \<or> \<not> re_unlink io (fs_path s) then (False, d)
          else (True, d(fs_path s := None)))"

fun restore_loop :: "restore_io \<Rightarrow> file_snapshot list \<Rightarrow> nat \<Rightarrow> disk \<Rightarrow> nat option \<times> disk" where
  "restore_loop io [] restored d = (Some restored, d)"
| "restore_loop io (s # ss) restored d =
     (case restore_one io s d of
        (True, d') \<Rightarrow> restore_loop io ss (restored + 1) d'
      | (False, d') \<Rightarrow> (None, d'))"

definition revert_run :: "restore_io \<Rightarrow> nat \<Rightarrow> snapshot_map \<Rightarrow> disk \<Rightarrow> nat option \<times> snapshot_map \<times> disk" where
  "revert_run io run snaps d =
     (case restore_loop io (rev (entry_of run snaps)) 0 d of (n, d') \<Rightarrow> (n, AList.delete run snaps, d'))"

section \<open>Undo restores the start\<close>

text \<open>
  One step of a run: the engine keeps the contents of the paths of a call (of at least one path), then
  the call leaves the disk \<open>us\_after\<close>.
\<close>

record undo_step =
  us_fs :: fs_view
  us_root :: ustr
  us_paths :: "ustr list"
  us_after :: disk

definition us_targets :: "undo_step \<Rightarrow> disk \<Rightarrow> Workspace_Paths.path set" where
  "us_targets s d = {p. \<exists>a \<in> set (us_paths s). resolve_snapshot_path (us_fs s) d (Some (raw_of (us_root s))) a = Some p}"

text \<open>The call changes no content but of its own paths, and removes no folder.\<close>

definition keeps_to_targets :: "undo_step \<Rightarrow> disk \<Rightarrow> bool" where
  "keeps_to_targets s d \<longleftrightarrow> us_paths s \<noteq> [] \<and>
     (\<forall>p. p \<notin> us_targets s d \<longrightarrow> content_of (us_after s p) = content_of (d p)) \<and>
     (\<forall>p. d p = Some Folder \<longrightarrow> us_after s p = Some Folder)"

definition run_step :: "(nat list \<Rightarrow> nat) \<Rightarrow> nat \<Rightarrow> undo_step \<Rightarrow> snapshot_map \<times> disk \<Rightarrow> snapshot_map \<times> disk" where
  "run_step pick run s st =
     (snapshot_paths (us_fs s) (\<lambda>_. True) pick run (Some (us_root s)) (us_paths s) (snd st) (fst st), us_after s)"

fun steps_keep :: "undo_step list \<Rightarrow> disk \<Rightarrow> bool" where
  "steps_keep [] d \<longleftrightarrow> True"
| "steps_keep (s # ss) d \<longleftrightarrow> keeps_to_targets s d \<and> steps_keep ss (us_after s)"

definition files_in_folders :: "disk \<Rightarrow> bool" where
  "files_in_folders d \<longleftrightarrow> (\<forall>p q. content_of (d p) \<noteq> None \<longrightarrow> strict_prefix q p \<longrightarrow> d q = Some Folder)"

text \<open>What the kept contents promise, in the middle of a run.\<close>

definition undo_kept :: "disk \<Rightarrow> file_snapshot list \<Rightarrow> disk \<Rightarrow> bool" where
  "undo_kept d0 e d \<longleftrightarrow> distinct (map fs_path e) \<and>
     (\<forall>s \<in> set e. fs_previous s = content_of (d0 (fs_path s))) \<and>
     (\<forall>p. p \<notin> fs_path ` set e \<longrightarrow> content_of (d p) = content_of (d0 p)) \<and>
     (\<forall>p. d0 p = Some Folder \<longrightarrow> d p = Some Folder)"

lemma needed_paths_set:
  "distinct needed \<Longrightarrow> set needed \<inter> set seen = {} \<Longrightarrow>
   distinct (needed_paths res seen ps needed) \<and>
   set (needed_paths res seen ps needed) = set needed \<union> ({r. \<exists>p \<in> set ps. res p = Some r} - set seen) \<and>
   length (needed_paths res seen ps needed) \<le> length needed + length ps"
proof (induction ps arbitrary: needed)
  case (Cons p ps)
  show ?case
  proof (cases "res p")
    case None
    then show ?thesis using Cons.IH [OF Cons.prems] by auto
  next
    case (Some r)
    show ?thesis
    proof (cases "r \<in> set seen \<or> r \<in> set needed")
      case True
      then show ?thesis using Cons.IH [OF Cons.prems] Some by auto
    next
      case False
      then show ?thesis using Cons.IH [of "needed @ [r]"] Cons.prems Some by auto
    qed
  qed
qed auto

lemma entry_of_update [simp]: "entry_of r (AList.update r' e snaps) = (if r = r' then e else entry_of r snaps)"
  by (simp add: entry_of_def update_conv)

lemma entry_of_evict [simp]: "entry_of run (evict_run pick run snaps) = entry_of run snaps"
  by (auto simp: evict_run_def entry_of_def delete_conv split: option.split)

lemma snapshot_paths_entry:
  assumes "paths \<noteq> []" "length (entry_of run snaps) < MAX_SNAPSHOT_FILES"
  shows "entry_of run (snapshot_paths fs readable pick run (Some root) paths d snaps) =
    entry_of run snaps @ map (capture readable d)
      (needed_paths (resolve_snapshot_path fs d (Some (raw_of root))) (map fs_path (entry_of run snaps)) paths [])"
  using assms by (simp add: snapshot_paths_def Let_def)

lemma undo_kept_step:
  assumes k: "undo_kept d0 (entry_of run snaps) d" and s: "keeps_to_targets s d"
    and n: "length (entry_of run snaps) < MAX_SNAPSHOT_FILES" and st: "run_step pick run s (snaps, d) = (snaps', d')"
  shows "undo_kept d0 (entry_of run snaps') d' \<and>
    length (entry_of run snaps') \<le> length (entry_of run snaps) + length (us_paths s)"
proof -
  let ?e = "entry_of run snaps"
  let ?res = "resolve_snapshot_path (us_fs s) d (Some (raw_of (us_root s)))"
  let ?n = "needed_paths ?res (map fs_path ?e) (us_paths s) []"
  have e: "entry_of run snaps' = ?e @ map (capture (\<lambda>_. True) d) ?n" and d': "d' = us_after s"
    using snapshot_paths_entry [OF _ n, of "us_paths s"] s st by (auto simp: run_step_def keeps_to_targets_def)
  have nd: "distinct ?n" "set ?n = us_targets s d - fs_path ` set ?e" "length ?n \<le> length (us_paths s)"
    using needed_paths_set [of "[]" "map fs_path ?e" ?res "us_paths s"] by (auto simp: us_targets_def)
  have p: "map fs_path (map (capture (\<lambda>_. True) d) ?n) = ?n" "fs_path ` capture (\<lambda>_. True) d ` set ?n = set ?n"
    by (simp_all add: capture_def comp_def image_image)
  have "fs_previous x = content_of (d0 (fs_path x))" if "x \<in> capture (\<lambda>_. True) d ` set ?n" for x
    using that k nd(2) by (auto simp: capture_def undo_kept_def)
  moreover have "content_of (d' q) = content_of (d0 q)" if "q \<notin> fs_path ` set ?e \<union> set ?n" for q
    using that s k nd(2) d' by (auto simp: keeps_to_targets_def undo_kept_def)
  moreover have "distinct (map fs_path ?e @ ?n)"
    using k nd by (auto simp: undo_kept_def)
  ultimately show ?thesis
    using k s nd(3) e d' p by (simp add: undo_kept_def keeps_to_targets_def image_Un Ball_def)
qed

lemma undo_kept_steps:
  "undo_kept d0 (entry_of run snaps) d \<Longrightarrow> steps_keep ss d \<Longrightarrow>
   length (entry_of run snaps) + length (concat (map us_paths ss)) \<le> MAX_SNAPSHOT_FILES \<Longrightarrow>
   fold (run_step pick run) ss (snaps, d) = (snaps', d') \<Longrightarrow> undo_kept d0 (entry_of run snaps') d'"
proof (induction ss arbitrary: snaps d)
  case (Cons s ss)
  obtain snaps1 d1 where st: "run_step pick run s (snaps, d) = (snaps1, d1)" by fastforce
  have "us_paths s \<noteq> []" using Cons.prems(2) by (simp add: keeps_to_targets_def)
  then have "0 < length (us_paths s)" by simp
  then have "length (entry_of run snaps) < MAX_SNAPSHOT_FILES"
    using Cons.prems(3) by (simp del: length_greater_0_conv)
  from undo_kept_step [OF Cons.prems(1) _ this st] show ?case
    using Cons.IH [of snaps1 d1] Cons.prems st by (auto simp: run_step_def)
qed simp

lemma create_parents_present:
  "(\<And>q. strict_prefix q p \<Longrightarrow> d q = Some Folder) \<Longrightarrow> snd (create_parents io p d) = d"
proof -
  assume "\<And>q. strict_prefix q p \<Longrightarrow> d q = Some Folder"
  then have a: "d q = Some Folder" if "q \<in> set (ancestors p)" for q using that by (simp add: set_ancestors)
  then have "filter (\<lambda>q. d q = None) (ancestors p) = []" by (simp add: filter_empty_conv)
  then show ?thesis by (simp add: create_parents_def Let_def)
qed

lemma content_of_node_of [simp]: "content_of (Some (node_of m c)) = Some c"
  by (cases c) simp_all

lemma content_of_None: "content_of x = None \<longleftrightarrow> x = None \<or> x = Some Folder"
  by (cases x rule: content_of.cases) auto

lemma butlast_shorter: "butlast xs = xs \<Longrightarrow> xs = []"
  by (metis append_butlast_last_id append_self_conv not_Cons_self2)

lemma restore_loop_restores:
  assumes "\<And>p. re_put io p = None" "\<And>p. re_unlink io p" "distinct (map fs_path ss)"
    "\<And>s. s \<in> set ss \<Longrightarrow> d (fs_path s) \<noteq> Some Folder"
    "\<And>s q. s \<in> set ss \<Longrightarrow> fs_previous s \<noteq> None \<Longrightarrow> strict_prefix q (fs_path s) \<Longrightarrow> d q = Some Folder"
  shows "\<exists>d'. restore_loop io ss n d = (Some (n + length ss), d') \<and>
    (\<forall>s \<in> set ss. content_of (d' (fs_path s)) = fs_previous s) \<and> (\<forall>p. p \<notin> fs_path ` set ss \<longrightarrow> d' p = d p)"
  using assms(3-5)
proof (induction ss arbitrary: n d)
  case (Cons s ss)
  define p where "p = fs_path s"
  obtain d1 where d1: "restore_one io s d = (True, d1)" "content_of (d1 p) = fs_previous s"
    "\<forall>q. q \<noteq> p \<longrightarrow> d1 q = d q" "d1 p \<noteq> Some Folder"
  proof (cases "fs_previous s")
    case None
    then show ?thesis
      using that [of "d(p := None)"] Cons.prems(2) [of s] assms(2)
      by (auto simp: restore_one_def p_def fun_upd_idem)
  next
    case (Some c)
    have cp: "snd (create_parents (re_dirs io p) p d) = d"
      by (rule create_parents_present) (use Cons.prems(3) [of s] Some in \<open>simp add: p_def\<close>)
    have "p = [] \<or> d (butlast p) = Some Folder"
      using Cons.prems(3) [of s "butlast p"] Some by (auto simp: p_def strict_prefix_def prefixeq_butlast dest!: butlast_shorter)
    then have put: "put_file io p c d = (True, d(p \<mapsto> node_of (case mode_of (d p) of Some m \<Rightarrow> m | None \<Rightarrow> re_mode io) c))"
      using Cons.prems(2) [of s] assms(1) by (auto simp: put_file_def p_def)
    show ?thesis
      by (rule that [of "d(p \<mapsto> node_of (case mode_of (d p) of Some m \<Rightarrow> m | None \<Rightarrow> re_mode io) c)"])
        (use Some cp put in \<open>cases c; simp add: restore_one_def flip: p_def\<close>)+
  qed
  have "d1 (fs_path t) \<noteq> Some Folder" if "t \<in> set ss" for t
    using that Cons.prems(2) [of t] d1(3,4) by (cases "fs_path t = p") (auto simp: p_def)
  moreover have "d1 q = Some Folder" if "t \<in> set ss" "fs_previous t \<noteq> None" "strict_prefix q (fs_path t)" for t q
    using that Cons.prems(2) [of s] Cons.prems(3) [of t q] d1(3) by (cases "q = p") (auto simp: p_def)
  ultimately obtain d' where d': "restore_loop io ss (n + 1) d1 = (Some (n + 1 + length ss), d')"
    "\<forall>t \<in> set ss. content_of (d' (fs_path t)) = fs_previous t" "\<forall>q. q \<notin> fs_path ` set ss \<longrightarrow> d' q = d1 q"
    using Cons.IH [of d1 "n + 1"] Cons.prems(1) by auto
  have "d' p = d1 p" using d'(3) Cons.prems(1) by (auto simp: p_def)
  then show ?case using d' d1 by (auto simp: p_def)
qed simp

text \<open>
  C9 (roundtrip). Undo brings a run back to its start: when the calls of the run changed only the
  contents of the paths they name and removed no folder, at most 128 paths were named, and no file
  that was kept became a folder, and every read of the keeping succeeded, then reverting without I/O
  errors restores every file of the disk to the content it had before the run, also files written
  several times, created or deleted.
\<close>

theorem revert_restores:
  assumes "entry_of run snaps0 = []" "files_in_folders d0" "steps_keep steps d0"
    "length (concat (map us_paths steps)) \<le> MAX_SNAPSHOT_FILES"
    "fold (run_step pick run) steps (snaps0, d0) = (snaps, d)"
    "list_all (\<lambda>s. d (fs_path s) \<noteq> Some Folder) (entry_of run snaps)"
    "\<And>p. re_put io p = None" "\<And>p. re_unlink io p"
  shows "case revert_run io run snaps d of (n, snaps', d') \<Rightarrow>
    n = Some (length (entry_of run snaps)) \<and> entry_of run snaps' = [] \<and>
    (\<forall>p. content_of (d' p) = content_of (d0 p))"
proof -
  let ?e = "entry_of run snaps"
  have "undo_kept d0 (entry_of run snaps0) d0" by (simp add: assms(1) undo_kept_def)
  from undo_kept_steps [OF this assms(3) _ assms(5)] have k: "undo_kept d0 ?e d"
    using assms(1,4) by simp
  have up: "d q = Some Folder" if "s \<in> set ?e" "fs_previous s \<noteq> None" "strict_prefix q (fs_path s)" for s q
  proof -
    have "content_of (d0 (fs_path s)) \<noteq> None" using k that(1,2) by (auto simp: undo_kept_def)
    then have "d0 q = Some Folder" using assms(2) that(3) unfolding files_in_folders_def by blast
    then show ?thesis using k by (simp add: undo_kept_def)
  qed
  obtain d' where d': "restore_loop io (rev ?e) 0 d = (Some (length ?e), d')"
    "\<forall>s \<in> set ?e. content_of (d' (fs_path s)) = fs_previous s" "\<forall>p. p \<notin> fs_path ` set ?e \<longrightarrow> d' p = d p"
    using restore_loop_restores [OF assms(7,8), of "rev ?e" d 0] k assms(6) up
    by (auto simp: undo_kept_def list_all_iff rev_map [symmetric])
  have "content_of (d' p) = content_of (d0 p)" for p
    using k d'(2,3) by (cases "p \<in> fs_path ` set ?e") (auto simp: undo_kept_def)
  then show ?thesis
    using d'(1) by (simp add: revert_run_def entry_of_def delete_conv)
qed

text \<open>The write action of the file tool is such a call.\<close>

lemma read_only_root_writable: "read_only_root fs target extras = Inr (p, w) \<Longrightarrow> \<not> w"
  by (induction extras) (auto simp: Let_def split: if_splits option.splits)

lemma resolve_writable_alone:
  "resolve_target_in fs main extras path = Inr (p, True) \<Longrightarrow> resolve_target_in fs main [] path = Inr (p, True)"
  by (auto simp: resolve_target_in_def split: if_splits option.splits dest: read_only_root_writable)

lemma written_content:
  assumes "atomic_write_bytes io target text d = (True, ds)" "p \<noteq> target"
  shows "content_of (last ds p) = content_of (d p) \<and> (d p = Some Folder \<longrightarrow> last ds p = Some Folder)"
proof (cases "p = temp_sibling io target")
  case True
  then show ?thesis
    using assms create_parents_temp [of io target d] temp_sibling_ne [of io target]
    by (auto simp: atomic_write_bytes_def Let_def split: prod.splits if_splits)
next
  case False
  note whole = atomic_write_all_or_nothing_aux [OF assms(1)]
  then have "last ds \<in> set ds" by simp
  with whole False assms(2) have "last ds p = d p \<or> d p = None \<and> last ds p = Some Folder" by blast
  then show ?thesis by auto
qed

lemma files_write_keeps:
  assumes "files_write io fs (Some root) extras path text d = (Inr n, d')"
  shows "keeps_to_targets \<lparr>us_fs = fs, us_root = root, us_paths = [path], us_after = d'\<rparr> d"
proof -
  obtain main target d1 where "resolve_context_root fs (Some root) = Inr main"
    "resolve_target_in fs main extras path = Inr (target, True)" "create_parents io target d = (True, d1)"
    "fst (atomic_write_bytes io target text d1)" "d' = last (snd (atomic_write_bytes io target text d1))"
    using assms by (auto simp: files_write_def Let_def after_write_def split: sum.splits prod.splits if_splits bool.splits)
  then obtain ds where r: "resolve_context_root fs (Some root) = Inr main"
    "resolve_target_in fs main extras path = Inr (target, True)" "create_parents io target d = (True, d1)"
    "atomic_write_bytes io target text d1 = (True, ds)" "d' = last ds"
    by (cases "atomic_write_bytes io target text d1") auto
  have c: "canon fs (raw_of root) = Some main"
    using r(1) by (auto simp: resolve_context_root_def split: if_splits option.splits)
  have f: "d1 q = d q \<or> d q = None \<and> d1 q = Some Folder" for q
    using create_parents_frame [of io target d q] r(3) by auto
  have "d1 target \<noteq> Some Folder"
    using r(4) create_parents_target [of io target d1]
    by (auto simp: atomic_write_bytes_def Let_def temp_sibling_ne [symmetric] split: prod.splits if_splits)
  then have "d target \<noteq> Some Folder" using f [of target] by auto
  then have t: "us_targets \<lparr>us_fs = fs, us_root = root, us_paths = [path], us_after = d'\<rparr> d = {target}"
    using c resolve_writable_alone [OF r(2)] by (auto simp: us_targets_def resolve_snapshot_path_def)
  have k: "content_of (d' p) = content_of (d p) \<and> (d p = Some Folder \<longrightarrow> d' p = Some Folder)" if "p \<noteq> target" for p
    using written_content [OF r(4) that] f [of p] r(5) by auto
  then have "d p = Some Folder \<longrightarrow> d' p = Some Folder" for p
    using \<open>d target \<noteq> Some Folder\<close> by (cases "p = target") auto
  then show ?thesis
    using t k by (simp add: keeps_to_targets_def)
qed

text \<open>A run that rewrites \<open>a\<close> twice and creates \<open>b\<close>.\<close>

definition demo_write :: "ustr \<Rightarrow> ustr \<Rightarrow> disk \<Rightarrow> disk" where
  "demo_write name text d = d([lit ''w'', name] \<mapsto> Text_File 384 text)"

definition demo_steps :: "undo_step list" where
  "demo_steps =
     [\<lparr>us_fs = demo_fs, us_root = lit ''/w'', us_paths = [lit ''a''], us_after = demo_write (lit ''a'') (lit ''x'') demo_disk\<rparr>,
      \<lparr>us_fs = demo_fs, us_root = lit ''/w'', us_paths = [lit ''b'', lit ''a''],
       us_after = demo_write (lit ''b'') (lit ''z'') (demo_write (lit ''a'') (lit ''y'') demo_disk)\<rparr>]"

definition demo_restore :: restore_io where
  "demo_restore = \<lparr>re_dirs = (\<lambda>_. demo_io), re_put = (\<lambda>_. None), re_unlink = (\<lambda>_. True), re_mode = 420\<rparr>"

lemma demo_targets:
  "resolve_target_in demo_fs [lit ''w''] [] (lit ''a'') = Inr ([lit ''w'', lit ''a''], True)"
  "resolve_target_in demo_fs [lit ''w''] [] (lit ''b'') = Inr ([lit ''w'', lit ''b''], True)"
  "canon demo_fs (raw_of (lit ''/w'')) = Some [lit ''w'']"
  by code_simp+

lemma demo_names: "lit ''a'' \<noteq> lit ''b''" "lit ''w'' \<noteq> ([] :: ustr)" "lit ''b'' \<noteq> lit ''a''"
  by (simp_all add: lit_def ch_def)

lemma demo_steps_keep: "steps_keep demo_steps demo_disk"
  using demo_names
  by (auto simp: demo_steps_def keeps_to_targets_def us_targets_def resolve_snapshot_path_def demo_targets
      demo_write_def demo_disk_def)

lemma demo_undo_run:
  "fold (run_step hd 7) demo_steps ([], demo_disk) =
    ([(7, [\<lparr>fs_path = [lit ''w'', lit ''a''], fs_previous = Some (Text (lit ''old''))\<rparr>,
           \<lparr>fs_path = [lit ''w'', lit ''b''], fs_previous = None\<rparr>])],
     demo_write (lit ''b'') (lit ''z'') (demo_write (lit ''a'') (lit ''y'') demo_disk))"
  using demo_names
  by (simp add: demo_steps_def run_step_def snapshot_paths_def evict_run_def entry_of_def MAX_SNAPSHOT_FILES_def
      MAX_SNAPSHOT_RUNS_def resolve_snapshot_path_def demo_targets demo_write_def demo_disk_def capture_def)

theorem revert_restores_witness:
  "case revert_run demo_restore 7 (fst (fold (run_step hd 7) demo_steps ([], demo_disk)))
        (snd (fold (run_step hd 7) demo_steps ([], demo_disk))) of (n, snaps', d') \<Rightarrow>
     n = Some 2 \<and> content_of (d' [lit ''w'', lit ''a'']) = Some (Text (lit ''old'')) \<and>
     content_of (d' [lit ''w'', lit ''b'']) = None"
proof -
  have "files_in_folders demo_disk"
    by (auto simp: files_in_folders_def demo_disk_def strict_prefix_def prefix_Cons split: if_splits)
  moreover have "length (concat (map us_paths demo_steps)) \<le> MAX_SNAPSHOT_FILES"
    by (simp add: demo_steps_def MAX_SNAPSHOT_FILES_def)
  moreover obtain n snaps' d' where r: "revert_run demo_restore 7 (fst (fold (run_step hd 7) demo_steps ([], demo_disk)))
      (snd (fold (run_step hd 7) demo_steps ([], demo_disk))) = (n, snaps', d')"
    by (metis prod_cases3)
  ultimately have "n = Some 2 \<and> (\<forall>p. content_of (d' p) = content_of (demo_disk p))"
    using revert_restores [OF _ _ demo_steps_keep _ demo_undo_run, of demo_restore] demo_names
    by (simp add: demo_undo_run entry_of_def) (simp add: demo_restore_def demo_write_def demo_disk_def)
  then show ?thesis using r demo_names by (simp add: demo_disk_def)
qed

section \<open>Where undo and the stale guard fall short\<close>

text \<open>A folder that the file tool deletes is never kept, so undo does not bring its files back.\<close>

lemma folder_delete_not_kept:
  assumes "canon fs (raw_of root) = Some main" "resolve_target_in fs main [] path = Inr (p, True)" "d p = Some Folder"
    "entry_of run snaps = []"
  shows "entry_of run (snapshot_paths fs readable pick run (Some root) [path] d snaps) = []"
  using assms snapshot_paths_entry [of "[path]" run snaps fs readable pick root d]
  by (simp add: resolve_snapshot_path_def MAX_SNAPSHOT_FILES_def)

text \<open>A file that exists but could not be read when it was kept is removed by undo.\<close>

lemma unreadable_is_removed:
  assumes "d p = Some (Text_File m s)" "\<not> readable p" "re_unlink io p"
  shows "restore_one io (capture readable d p) d = (True, d(p := None))"
  using assms by (simp add: capture_def restore_one_def)

text \<open>
  Only reads record a fingerprint, not the writes of the run itself: after one edit of a file that was
  read, the next edit is refused as if someone else had changed the file.
\<close>

lemma own_edit_counts_as_foreign:
  assumes "writes_file tool args" "mutated_paths tool args = [path]" "normalize_tool_path fs d' (Some (raw_of root)) path = Some key"
    "map_of known key = Some (fingerprint_of c)" "content_of (d' key) = Some c'" "fingerprint_of c' \<noteq> fingerprint_of c"
  shows "stale_write_reason fingerprint_of fs (\<lambda>_. True) known (Some root) tool args d' = Some (Changed_On_Disk path)"
  using assms by (cases known) (auto simp: stale_write_reason_def stale_path_def)

text \<open>What the guard lets through: every path of the call that was read still holds what was read.\<close>

lemma first_stale_None: "first_stale f ps = None \<longleftrightarrow> (\<forall>p \<in> set ps. f p = None)"
  by (induction ps) (auto split: option.splits)

lemma passed_write_is_fresh:
  assumes "stale_write_reason fingerprint_of fs readable known (Some root) tool args d = None" "writes_file tool args"
    "path \<in> set (mutated_paths tool args)" "normalize_tool_path fs d (Some (raw_of root)) path = Some key"
    "map_of known key = Some (fingerprint_of c)" "inj fingerprint_of"
  shows "content_of (d key) = Some c"
proof -
  have "mutated_paths tool args \<noteq> []" "known \<noteq> []" using assms(3,5) by auto
  then have "stale_path fingerprint_of fs readable (Some (raw_of root)) known d path = None"
    using assms(1-3) by (auto simp: stale_write_reason_def first_stale_None split: if_splits)
  then show ?thesis
    using assms(4-6) by (auto simp: stale_path_def dest: injD split: option.splits if_splits)
qed

end
