(* ===== verification/Run_Control.thy ===== *)
theory Run_Control
  imports Run_Loop "HOL-Library.Product_Lexorder"
begin

text \<open>
  What reaches a run from outside while it works: steering messages (\<open>steer\<close>, \<open>take\_steering\<close> and
  \<open>release\_run\<close> of \<open>core/src/runs/engine/query.rs\<close> and \<open>finish.rs\<close>), the answer to a budget prompt
  (\<open>execute\_budget.rs\<close>), and the store of checkpoints a run can be resumed from
  (\<open>core/src/runs/checkpoint\_store.rs\<close>).
\<close>

section \<open>Steering\<close>

record steering =
  st_active :: "nat list"
  st_queue :: "(nat \<times> ustr list) list"

definition queued :: "steering \<Rightarrow> nat \<Rightarrow> ustr list" where
  "queued s run = (case map_of (st_queue s) run of Some ms \<Rightarrow> ms | None \<Rightarrow> [])"

definition steer :: "nat \<Rightarrow> ustr \<Rightarrow> steering \<Rightarrow> bool \<times> steering" where
  "steer run content s =
     (let message = trim content
      in if message = [] \<or> run \<notin> set (st_active s) then (False, s)
         else (True, s\<lparr>st_queue := AList.update run (queued s run @ [message]) (st_queue s)\<rparr>))"

definition take_steering :: "nat \<Rightarrow> steering \<Rightarrow> ustr list \<times> steering" where
  "take_steering run s = (queued s run, s\<lparr>st_queue := AList.delete run (st_queue s)\<rparr>)"

text \<open>The two handles of a finished run that matter here; the others are in the event log and the undo.\<close>

definition release_steering :: "nat \<Rightarrow> steering \<Rightarrow> steering" where
  "release_steering run s = s\<lparr>st_active := removeAll run (st_active s), st_queue := AList.delete run (st_queue s)\<rparr>"

datatype steer_op = Steer nat ustr | Take nat | Release nat

text \<open>What the takes of a run got, and which of its messages were accepted.\<close>

fun steer_trace :: "nat \<Rightarrow> steer_op list \<Rightarrow> steering \<Rightarrow> ustr list \<times> ustr list \<times> steering" where
  "steer_trace run [] s = ([], [], s)"
| "steer_trace run (Steer r c # ops) s =
     (case steer r c s of (ok, s') \<Rightarrow>
      case steer_trace run ops s' of (got, accepted, s'') \<Rightarrow>
        (got, (if ok \<and> r = run then trim c # accepted else accepted), s''))"
| "steer_trace run (Take r # ops) s =
     (case take_steering r s of (ms, s') \<Rightarrow>
      case steer_trace run ops s' of (got, accepted, s'') \<Rightarrow> ((if r = run then ms @ got else got), accepted, s''))"
| "steer_trace run (Release r # ops) s = steer_trace run ops (release_steering r s)"

lemma queued_simps [simp]:
  "queued (snd (steer r c s)) run = (if fst (steer r c s) \<and> r = run then queued s run @ [trim c] else queued s run)"
  "queued (snd (take_steering r s)) run = (if r = run then [] else queued s run)"
  "queued (release_steering r s) run = (if r = run then [] else queued s run)"
  by (auto simp: queued_def steer_def take_steering_def release_steering_def Let_def update_conv delete_conv)

text \<open>
  C15 (liveness). As long as a run is not released, no accepted steering message is lost, repeated or
  reordered, however the messages to it and to other runs interleave with its turns: what its turns
  took, followed by what still waits, is what waited before followed by every accepted message.
\<close>

theorem steering_in_order:
  assumes "list_all (\<lambda>op. op \<noteq> Release run) ops" "steer_trace run ops s = (got, accepted, s')"
  shows "got @ queued s' run = queued s run @ accepted"
  using assms
proof (induction ops arbitrary: s got accepted)
  case (Cons op ops)
  show ?case
  proof (cases op)
    case (Steer r c)
    then show ?thesis
      using Cons.IH [of "snd (steer r c s)"] Cons.prems by (auto split: prod.splits if_splits)
  next
    case (Take r)
    then show ?thesis
      using Cons.IH [of "snd (take_steering r s)"] Cons.prems
      by (auto split: prod.splits if_splits simp: take_steering_def queued_def delete_conv)
  next
    case (Release r)
    then show ?thesis using Cons.IH [of "release_steering r s"] Cons.prems by auto
  qed
qed simp

theorem steering_in_order_witness:
  "case steer_trace 7 [Steer 7 (lit '' a ''), Steer 9 (lit ''b''), Take 7, Steer 7 (lit ''c'')]
      \<lparr>st_active = [7], st_queue = []\<rparr> of (got, accepted, s') \<Rightarrow>
     got @ queued s' 7 = accepted"
  using steering_in_order [of 7 "[Steer 7 (lit '' a ''), Steer 9 (lit ''b''), Take 7, Steer 7 (lit ''c'')]"
      "\<lparr>st_active = [7], st_queue = []\<rparr>"]
  by (simp add: queued_def split: prod.splits)

section \<open>The budget prompt\<close>

record budget_row =
  br_status :: run_status
  br_decision :: "bool option"
  br_limits :: "json option"

record handshake =
  hk_row :: "budget_row option"
  hk_memory :: "bool option"
  hk_events :: "json list"

datatype resolve_error = Update_Failed | Not_Waiting

definition budget_request :: "ustr \<Rightarrow> budget \<Rightarrow> json" where
  "budget_request reason b =
     JObj [(lit ''reason'', JStr reason), (lit ''stepLimit'', jword (step_limit b)),
           (lit ''toolCallLimit'', jword (tool_call_limit b)), (lit ''wallClockMinutes'', jword (wall_clock_minutes b)),
           (lit ''tokenLimit'', jword (token_limit b)), (lit ''tokensUsed'', jword (tokens_used b)),
           (lit ''grants'', jword (grants_used b + 1))]"

text \<open>The clearing and the status update are separate writes, and either may fail.\<close>

definition open_prompt :: "bool \<Rightarrow> bool \<Rightarrow> ustr \<Rightarrow> budget \<Rightarrow> handshake \<Rightarrow> handshake" where
  "open_prompt clear_ok status_ok reason b h =
     (let row = (if clear_ok then map_option (br_decision_update (\<lambda>_. None)) (hk_row h) else hk_row h);
          row = (if status_ok then map_option (br_status_update (\<lambda>_. BudgetExtensionPending)) row else row)
      in h\<lparr>hk_row := row, hk_memory := None, hk_events := hk_events h @ [budget_request reason b]\<rparr>)"

definition resolve_budget :: "bool \<Rightarrow> bool \<Rightarrow> json option \<Rightarrow> handshake \<Rightarrow> (resolve_error + unit) \<times> handshake" where
  "resolve_budget db_ok granted limits h =
     (if \<not> db_ok then (Inl Update_Failed, h)
      else case hk_row h of
        None \<Rightarrow> (Inl Not_Waiting, h)
      | Some r \<Rightarrow>
          if br_status r \<noteq> BudgetExtensionPending then (Inl Not_Waiting, h)
          else (Inr (),
            h\<lparr>hk_row := Some (r\<lparr>br_decision := Some granted,
                br_limits := (if granted \<and> limits \<noteq> None then limits else br_limits r),
                br_status := (if granted then Running else Completed)\<rparr>),
              hk_memory := Some granted\<rparr>))"

definition take_budget_decision :: "bool \<Rightarrow> handshake \<Rightarrow> bool option" where
  "take_budget_decision read_ok h =
     (case hk_memory h of
        Some g \<Rightarrow> Some g
      | None \<Rightarrow> if read_ok then Option.bind (hk_row h) br_decision else None)"

text \<open>
  One pass of the waiting loop: the answers that arrived since the last one (each with the success of
  its update), then whether the run is cancelled, the row can be read and the deadline has passed.
\<close>

record moment =
  mo_answers :: "(bool \<times> bool \<times> json option) list"
  mo_cancelled :: bool
  mo_read_ok :: bool
  mo_late :: bool

fun take_answers :: "(bool \<times> bool \<times> json option) list \<Rightarrow> handshake \<Rightarrow> (resolve_error + unit) list \<times> handshake" where
  "take_answers [] h = ([], h)"
| "take_answers ((ok, g, l) # as) h =
     (case resolve_budget ok g l h of (r, h') \<Rightarrow>
      case take_answers as h' of (rs, h'') \<Rightarrow> (r # rs, h''))"

fun await_loop :: "moment list \<Rightarrow> handshake \<Rightarrow> bool option \<times> handshake" where
  "await_loop [] h = (None, h)"
| "await_loop (m # ms) h =
     (let h = snd (take_answers (mo_answers m) h)
      in if mo_cancelled m then (Some False, h)
         else case take_budget_decision (mo_read_ok m) h of
                Some g \<Rightarrow> (Some g, h)
              | None \<Rightarrow> if mo_late m then (Some False, h) else await_loop ms h)"

text \<open>Nothing yet, or the answer: \<open>None\<close> inside when the run was cancelled while it waited.\<close>

definition await_budget_extension ::
  "bool \<Rightarrow> bool \<Rightarrow> ustr \<Rightarrow> budget \<Rightarrow> moment list \<Rightarrow> bool \<Rightarrow> handshake \<Rightarrow> bool option option \<times> handshake" where
  "await_budget_extension clear_ok status_ok reason b ms cancelled h =
     (case await_loop ms (open_prompt clear_ok status_ok reason b h) of
        (None, h') \<Rightarrow> (None, h')
      | (Some g, h') \<Rightarrow> (Some (if cancelled then None else Some g), h'\<lparr>hk_memory := None\<rparr>))"

text \<open>The prompt as the user sees it: the first answer that was stored decides.\<close>

definition first_answer :: "(bool \<times> bool \<times> json option) list \<Rightarrow> (bool \<times> json option) option" where
  "first_answer as = (case filter fst as of [] \<Rightarrow> None | a # _ \<Rightarrow> Some (snd a))"

lemma first_answer_simps [simp]:
  "first_answer [] = None" "first_answer ((ok, g, l) # as) = (if ok then Some (g, l) else first_answer as)"
  by (simp_all add: first_answer_def)

fun verdict :: "moment list \<Rightarrow> bool option" where
  "verdict [] = None"
| "verdict (m # ms) =
     (if mo_cancelled m then Some False
      else case first_answer (mo_answers m) of
             Some (g, l) \<Rightarrow> Some g
           | None \<Rightarrow> if mo_late m then Some False else verdict ms)"

text \<open>What a stored answer leaves on the row.\<close>

definition answered_row :: "bool \<Rightarrow> json option \<Rightarrow> handshake \<Rightarrow> bool" where
  "answered_row g l h \<longleftrightarrow> hk_memory h = Some g \<and>
     (case hk_row h of
        Some r \<Rightarrow> br_decision r = Some g \<and> br_status r = (if g then Running else Completed) \<and>
          (g \<longrightarrow> l \<noteq> None \<longrightarrow> br_limits r = l)
      | None \<Rightarrow> False)"

definition waiting :: "handshake \<Rightarrow> bool" where
  "waiting h \<longleftrightarrow> hk_memory h = None \<and>
     (case hk_row h of Some r \<Rightarrow> br_status r = BudgetExtensionPending \<and> br_decision r = None | None \<Rightarrow> False)"

lemma closed_refuses:
  "(case hk_row h of Some r \<Rightarrow> br_status r \<noteq> BudgetExtensionPending | None \<Rightarrow> True) \<Longrightarrow>
   take_answers as h = (rs, h') \<Longrightarrow> h' = h \<and> list_all isl rs"
proof (induction as arbitrary: rs)
  case (Cons a as)
  obtain ok g l where a: "a = (ok, g, l)" by (cases a)
  have "resolve_budget ok g l h = (Inl (if ok then Not_Waiting else Update_Failed), h)"
    using Cons.prems(1) by (auto simp: resolve_budget_def split: option.splits)
  then show ?case using Cons a by (auto split: prod.splits)
qed simp

lemma waiting_answers:
  assumes "waiting h" "take_answers as h = (rs, h')"
  shows "case first_answer as of
      None \<Rightarrow> h' = h \<and> list_all isl rs
    | Some (g, l) \<Rightarrow> answered_row g l h' \<and> length (filter (\<lambda>r. \<not> isl r) rs) = 1"
  using assms
proof (induction as arbitrary: rs)
  case (Cons a as)
  obtain ok g l where a: "a = (ok, g, l)" by (cases a)
  obtain r where r: "hk_row h = Some r" "br_status r = BudgetExtensionPending"
    using Cons.prems(1) by (auto simp: waiting_def split: option.splits)
  show ?case
  proof (cases ok)
    case False
    then obtain rs' where "rs = Inl Update_Failed # rs'" "take_answers as h = (rs', h')"
      using Cons.prems(2) a by (auto simp: resolve_budget_def split: prod.splits)
    then show ?thesis using Cons.IH [of rs'] Cons.prems(1) a False by (auto split: option.splits)
  next
    case True
    obtain rs' where rs: "rs = Inr () # rs'" "take_answers as (snd (resolve_budget ok g l h)) = (rs', h')"
      using Cons.prems(2) a True r by (auto simp: resolve_budget_def split: prod.splits)
    have "h' = snd (resolve_budget ok g l h) \<and> list_all isl rs'"
      by (rule closed_refuses [OF _ rs(2)]) (use True r in \<open>simp add: resolve_budget_def\<close>)
    then show ?thesis
      using True r rs(1) a by (auto simp: resolve_budget_def answered_row_def list_all_iff filter_empty_conv)
  qed
qed simp

lemma await_loop_verdict: "waiting h \<Longrightarrow> fst (await_loop ms h) = verdict ms"
proof (induction ms arbitrary: h)
  case (Cons m ms)
  obtain rs h' where t: "take_answers (mo_answers m) h = (rs, h')" by fastforce
  show ?case
    using waiting_answers [OF Cons.prems t] Cons t
    by (auto simp: Let_def take_budget_decision_def waiting_def answered_row_def split: option.splits prod.splits)
qed simp

text \<open>
  C14 (equivalence). A budget prompt is answered by the user and by nothing else: when the prompt was
  stored, the wait ends as the user's view of it does, with the first answer that was stored, with a
  refusal at the deadline, or without an answer when the run is cancelled, whatever an earlier prompt
  of the run was answered, whichever reads of the row fail, and however many answers arrive.
\<close>

theorem budget_prompt_answer:
  assumes "hk_row h = Some r"
  shows "fst (await_budget_extension True True reason b ms cancelled h) =
    map_option (\<lambda>g. if cancelled then None else Some g) (verdict ms)"
proof -
  have "waiting (open_prompt True True reason b h)"
    using assms by (simp add: waiting_def open_prompt_def)
  from await_loop_verdict [OF this, of ms] show ?thesis
    by (cases "verdict ms") (auto simp: await_budget_extension_def split: prod.splits option.splits)
qed

theorem budget_prompt_answer_witness:
  "fst (await_budget_extension True True (lit ''steps'') (budget_default 0)
      [\<lparr>mo_answers = [], mo_cancelled = False, mo_read_ok = True, mo_late = False\<rparr>,
       \<lparr>mo_answers = [(False, True, None), (True, False, None), (True, True, None)], mo_cancelled = False,
        mo_read_ok = False, mo_late = False\<rparr>] False
      \<lparr>hk_row = Some \<lparr>br_status = Running, br_decision = Some True, br_limits = None\<rparr>, hk_memory = Some True,
       hk_events = []\<rparr>) = Some (Some False)"
  by (subst budget_prompt_answer) simp_all

text \<open>
  When the clearing fails, the answer of an earlier prompt decides at once. And an answer that comes
  after the deadline is accepted as long as the status still says that the run waits.
\<close>

lemma stale_decision_answers:
  "fst (await_budget_extension False True reason b
      [\<lparr>mo_answers = [], mo_cancelled = False, mo_read_ok = True, mo_late = False\<rparr>] False
      \<lparr>hk_row = Some \<lparr>br_status = Running, br_decision = Some g, br_limits = l\<rparr>, hk_memory = None, hk_events = es\<rparr>) =
    Some (Some g)"
  by (simp add: await_budget_extension_def open_prompt_def take_budget_decision_def)

lemma late_answer_is_accepted:
  assumes "hk_row h = Some r"
    "await_budget_extension True True reason b
       [\<lparr>mo_answers = [], mo_cancelled = False, mo_read_ok = True, mo_late = True\<rparr>] False h = (res, h')"
  shows "res = Some (Some False) \<and> fst (resolve_budget True True l h') = Inr ()"
  using assms by (auto simp: await_budget_extension_def open_prompt_def take_budget_decision_def resolve_budget_def)

section \<open>The checkpoint store\<close>

text \<open>
  A row of \<open>run\_checkpoints\<close>; the messages are stored as JSON by derived code and read back as they
  were. Rows of equal step and time, whose order SQL leaves open, keep the order of their insertion.
\<close>

definition CHECKPOINT_KEEP :: nat where "CHECKPOINT_KEEP = 32"

record checkpoint_row =
  cr_id :: nat
  cr_run :: nat
  cr_snapshot :: checkpoint
  cr_created :: nat

definition newest_first :: "checkpoint_row list \<Rightarrow> checkpoint_row list" where
  "newest_first rows = sort_key (\<lambda>r. (- uint (ck_step (cr_snapshot r)), - int (cr_created r))) rows"

definition of_run :: "nat \<Rightarrow> checkpoint_row list \<Rightarrow> checkpoint_row list" where
  "of_run run rows = filter (\<lambda>r. cr_run r = run) rows"

definition trim_checkpoints :: "nat \<Rightarrow> nat \<Rightarrow> checkpoint_row list \<Rightarrow> checkpoint_row list" where
  "trim_checkpoints keep run rows =
     (let kept = map cr_id (take keep (newest_first (of_run run rows)))
      in filter (\<lambda>r. \<not> (cr_run r = run \<and> cr_id r \<notin> set kept)) rows)"

definition checkpoint_save ::
  "nat \<Rightarrow> bool \<Rightarrow> bool \<Rightarrow> nat \<Rightarrow> nat \<Rightarrow> nat \<Rightarrow> checkpoint \<Rightarrow> checkpoint_row list \<Rightarrow> checkpoint_row list" where
  "checkpoint_save keep insert_ok trim_ok i now run snapshot rows =
     (let rows = (if insert_ok then rows @ [\<lparr>cr_id = i, cr_run = run, cr_snapshot = snapshot, cr_created = now\<rparr>] else rows)
      in if trim_ok then trim_checkpoints keep run rows else rows)"

definition checkpoint_load :: "nat \<Rightarrow> nat \<Rightarrow> checkpoint_row list \<Rightarrow> checkpoint option" where
  "checkpoint_load run i rows = map_option cr_snapshot (find (\<lambda>r. cr_id r = i \<and> cr_run r = run) rows)"

definition checkpoint_list :: "nat \<Rightarrow> checkpoint_row list \<Rightarrow> (nat \<times> u32 \<times> nat) list" where
  "checkpoint_list run rows = map (\<lambda>r. (cr_id r, ck_step (cr_snapshot r), cr_created r)) (newest_first (of_run run rows))"

text \<open>A series of saves of one run: id, time and snapshot of each.\<close>

fun save_all :: "nat \<Rightarrow> nat \<Rightarrow> (nat \<times> nat \<times> checkpoint) list \<Rightarrow> checkpoint_row list \<Rightarrow> checkpoint_row list" where
  "save_all keep run [] rows = rows"
| "save_all keep run ((i, now, c) # cs) rows = save_all keep run cs (checkpoint_save keep True True i now run c rows)"

definition row_of :: "nat \<Rightarrow> nat \<times> nat \<times> checkpoint \<Rightarrow> checkpoint_row" where
  "row_of run s = \<lparr>cr_id = fst s, cr_run = run, cr_snapshot = snd (snd s), cr_created = fst (snd s)\<rparr>"

definition step_of :: "nat \<times> nat \<times> checkpoint \<Rightarrow> int" where
  "step_of s = uint (ck_step (snd (snd s)))"

definition last_n :: "nat \<Rightarrow> 'a list \<Rightarrow> 'a list" where
  "last_n n xs = drop (length xs - n) xs"

lemma newest_first_rev:
  assumes "sorted_wrt (<) (map step_of ss)"
  shows "newest_first (map (row_of run) ss) = rev (map (row_of run) ss)"
proof -
  define key where "key = (\<lambda>r :: checkpoint_row. (- uint (ck_step (cr_snapshot r)), - int (cr_created r)))"
  let ?rows = "map (row_of run) ss"
  have "sorted_wrt (\<lambda>a b. step_of a < step_of b) ss" using assms by (simp add: sorted_wrt_map)
  then have "sorted_wrt (\<lambda>a b. key (row_of run b) < key (row_of run a)) ss"
    by (rule sorted_wrt_mono_rel [rotated]) (simp add: key_def row_of_def step_of_def less_prod_def)
  then have s: "sorted_wrt (<) (map key (rev ?rows))"
    by (simp add: sorted_wrt_map sorted_wrt_rev rev_map [symmetric])
  then have d: "distinct (map key (rev ?rows))" "sorted (map key (rev ?rows))"
    by (simp_all only: strict_sorted_iff)
  then have i: "distinct ?rows" "inj_on key (set ?rows)"
    by (auto simp: distinct_map rev_map [symmetric] intro: inj_on_imageI inj_on_imageI2)
  have "map key (sort_key key ?rows) = map key (rev ?rows)"
    using d i by (intro sorted_distinct_set_unique) (simp_all add: distinct_map)
  then have "sort_key key ?rows = rev ?rows"
    by (rule map_inj_on) (use i in simp)
  then show ?thesis by (simp add: newest_first_def key_def)
qed

lemma last_n_snoc: "last_n n (last_n n xs @ [x]) = last_n n (xs @ [x])"
  by (cases "length xs \<le> n") (simp_all add: last_n_def Suc_diff_le)

lemma last_n_map: "last_n n (map f xs) = map f (last_n n xs)"
  by (simp add: last_n_def drop_map)

lemma take_newest: "take n (rev xs) = rev (last_n n xs)"
  by (simp add: last_n_def take_rev)

lemma filter_last_n:
  assumes "distinct (map f xs)"
  shows "filter (\<lambda>x. f x \<in> f ` set (last_n n xs)) xs = last_n n xs"
proof -
  let ?k = "length xs - n"
  have "filter (\<lambda>x. f x \<in> f ` set (last_n n xs)) (take ?k xs @ drop ?k xs) = drop ?k xs"
  proof -
    have "set (map f (take ?k xs)) \<inter> set (map f (drop ?k xs)) = {}"
      using assms by (metis append_take_drop_id distinct_append map_append)
    then have "filter (\<lambda>x. f x \<in> f ` set (drop ?k xs)) (take ?k xs) = []"
      by (auto simp: filter_empty_conv)
    then show ?thesis by (simp add: last_n_def del: append_take_drop_id)
  qed
  then show ?thesis by (simp add: last_n_def)
qed

lemma of_run_simps [simp]:
  "of_run run (rows @ rows') = of_run run rows @ of_run run rows'"
  "of_run run (filter P rows) = filter P (of_run run rows)"
  by (simp_all add: of_run_def conj_commute)

lemma trim_of_run:
  "of_run run (trim_checkpoints keep run rows) =
     filter (\<lambda>r. cr_id r \<in> set (map cr_id (take keep (newest_first (of_run run rows))))) (of_run run rows)"
  by (simp add: trim_checkpoints_def Let_def) (rule filter_cong, auto simp: of_run_def)

lemma save_one:
  assumes "of_run run rows = map (row_of run) (last_n keep pre)" "sorted_wrt (<) (map step_of (pre @ [s]))"
    "distinct (map fst (pre @ [s]))"
  shows "of_run run (checkpoint_save keep True True (fst s) (fst (snd s)) run (snd (snd s)) rows) =
    map (row_of run) (last_n keep (pre @ [s]))"
proof -
  let ?xs = "last_n keep pre @ [s]"
  have sub: "?xs = drop (length pre - keep) (pre @ [s])" by (simp add: last_n_def)
  have srt: "sorted_wrt (<) (map step_of ?xs)" and dis: "distinct (map fst ?xs)"
    using assms(2,3) unfolding sub by (simp_all only: drop_map [symmetric] sorted_wrt_drop distinct_drop)
  have r: "of_run run (rows @ [row_of run s]) = map (row_of run) ?xs"
    using assms(1) by (simp add: of_run_def row_of_def)
  have "map cr_id (take keep (newest_first (map (row_of run) ?xs))) = rev (map fst (last_n keep ?xs))"
    unfolding newest_first_rev [OF srt] take_newest
    by (simp add: last_n_map rev_map [symmetric] row_of_def comp_def del: map_append)
  then have ids: "set (map cr_id (take keep (newest_first (map (row_of run) ?xs)))) = fst ` set (last_n keep ?xs)"
    by (simp only: set_rev set_map)
  have rows: "filter (\<lambda>r. cr_id r \<in> fst ` set (last_n keep ?xs)) (map (row_of run) ?xs) =
      map (row_of run) (filter (\<lambda>x. fst x \<in> fst ` set (last_n keep ?xs)) ?xs)"
    by (simp only: filter_map) (simp add: comp_def row_of_def)
  have c: "checkpoint_save keep True True (fst s) (fst (snd s)) run (snd (snd s)) rows =
      trim_checkpoints keep run (rows @ [row_of run s])"
    by (simp add: checkpoint_save_def row_of_def)
  show ?thesis
    unfolding c trim_of_run r ids
    unfolding rows filter_last_n [OF dis]
    by (rule arg_cong [OF last_n_snoc])
qed

lemma save_all_of_run:
  "of_run run rows = map (row_of run) (last_n keep pre) \<Longrightarrow> sorted_wrt (<) (map step_of (pre @ ss)) \<Longrightarrow>
   distinct (map fst (pre @ ss)) \<Longrightarrow>
   of_run run (save_all keep run ss rows) = map (row_of run) (last_n keep (pre @ ss))"
proof (induction ss arbitrary: rows pre)
  case (Cons s ss)
  obtain i now c where s: "s = (i, now, c)" by (cases s)
  have "sorted_wrt (<) (map step_of (pre @ [s]))" "distinct (map fst (pre @ [s]))"
    using Cons.prems(2,3) by (auto simp: sorted_wrt_append)
  from save_one [OF Cons.prems(1) this] show ?case
    using Cons.IH [of _ "pre @ [s]"] Cons.prems(2,3) s by simp
qed simp

lemma save_all_others:
  "filter (\<lambda>r. cr_run r \<noteq> run) (save_all keep run ss rows) = filter (\<lambda>r. cr_run r \<noteq> run) rows"
proof (induction ss arbitrary: rows)
  case (Cons s ss)
  then show ?case
    by (cases s) (auto simp: checkpoint_save_def trim_checkpoints_def Let_def intro: filter_cong)
qed simp

lemma load_of_run: "checkpoint_load run i rows = map_option cr_snapshot (find (\<lambda>r. cr_id r = i) (of_run run rows))"
  unfolding checkpoint_load_def of_run_def by (induction rows) auto

lemma find_distinct: "distinct (map f xs) \<Longrightarrow> x \<in> set xs \<Longrightarrow> find (\<lambda>y. f y = f x) xs = Some x"
  by (induction xs) auto

text \<open>
  C16 (functional). The checkpoint store of a run that only moves forward holds exactly its last
  \<open>keep\<close> checkpoints: they are listed newest first, each loads back as it was saved, and the
  checkpoints of other runs are untouched.
\<close>

theorem checkpoints_kept:
  assumes "of_run run rows = []" "sorted_wrt (<) (map step_of ss)" "distinct (map fst ss)"
  shows "checkpoint_list run (save_all keep run ss rows) =
      rev (map (\<lambda>(i, now, c). (i, ck_step c, now)) (last_n keep ss)) \<and>
    (\<forall>(i, now, c) \<in> set (last_n keep ss). checkpoint_load run i (save_all keep run ss rows) = Some c) \<and>
    filter (\<lambda>r. cr_run r \<noteq> run) (save_all keep run ss rows) = filter (\<lambda>r. cr_run r \<noteq> run) rows"
proof -
  have r: "of_run run (save_all keep run ss rows) = map (row_of run) (last_n keep ss)"
    using save_all_of_run [of run rows keep "[]" ss] assms by (simp add: last_n_def)
  have s: "sorted_wrt (<) (map step_of (last_n keep ss))" and d: "distinct (map fst (last_n keep ss))"
    using assms(2,3) by (simp_all only: last_n_def drop_map [symmetric] sorted_wrt_drop distinct_drop)
  have "checkpoint_list run (save_all keep run ss rows) = rev (map (\<lambda>(i, now, c). (i, ck_step c, now)) (last_n keep ss))"
    unfolding checkpoint_list_def r newest_first_rev [OF s]
    by (simp add: rev_map [symmetric] comp_def row_of_def split_def)
  moreover have "checkpoint_load run (fst x) (save_all keep run ss rows) = Some (snd (snd x))" if "x \<in> set (last_n keep ss)" for x
    using find_distinct [of "\<lambda>r. cr_id r" "map (row_of run) (last_n keep ss)" "row_of run x"] d that
    by (simp add: load_of_run r comp_def row_of_def)
  ultimately show ?thesis using save_all_others by fastforce
qed

text \<open>
  A run that was resumed from an early checkpoint saves steps that are lower than those of its first
  life: with the store full, such a checkpoint is trimmed away by the save that wrote it.
\<close>

definition at_step :: "u32 \<Rightarrow> checkpoint" where
  "at_step n = \<lparr>ck_step = n, ck_tool_calls = 0, ck_messages = []\<rparr>"

theorem checkpoints_kept_witness:
  "checkpoint_list 7 (save_all 2 7 [(1, 100, at_step 10), (2, 101, at_step 20), (3, 102, at_step 30)] []) =
     [(3, 30, 102), (2, 20, 101)]"
  using checkpoints_kept [of 7 "[]" "[(1, 100, at_step 10), (2, 101, at_step 20), (3, 102, at_step 30)]" 2]
  by (simp add: of_run_def step_of_def at_step_def last_n_def)

lemma resumed_checkpoint_is_trimmed:
  "checkpoint_load 7 9 (checkpoint_save 2 True True 9 200 7 (at_step 20)
     (save_all 2 7 [(1, 100, at_step 30), (2, 101, at_step 40)] [])) = None"
  by (simp add: checkpoint_save_def trim_checkpoints_def newest_first_def of_run_def at_step_def checkpoint_load_def Let_def
      less_prod_def less_eq_prod_def)

end
