(* ===== verification/Memory_Store.thy ===== *)
theory Memory_Store
  imports Json "HOL-Library.AList"
begin

text \<open>
  The memory store (\<open>core/src/memory.rs\<close>, \<open>memory\_lifecycle.rs\<close> and the link mirror of
  \<open>memory\_links.rs\<close>): rows with a lifecycle, their revisions, and the directed links derived from
  the two pointers of a row. The three tables are lists; a \<open>data\<close> blob is its JSON value, \<open>JNull\<close> when it
  cannot be read. New ids are drawn from \<open>uuid\<close>. The three float scalars of a row, the weights of
  links and the vectors are left out; what the decay computes from them is an argument. A statement
  that fails rolls its transaction back and is left out.
\<close>

section \<open>Vocabulary\<close>

definition LIFECYCLE_STATES :: "string list" where
  "LIFECYCLE_STATES = [''candidate'', ''active'', ''established'', ''superseded'', ''expired'', ''archived'', ''disputed'']"

definition RETRIEVABLE_LIFECYCLES :: "string list" where
  "RETRIEVABLE_LIFECYCLES = [''candidate'', ''active'', ''established'']"

definition EXPLICIT_INITIAL_LIFECYCLE :: ustr where "EXPLICIT_INITIAL_LIFECYCLE = lit ''established''"
definition AUTO_INITIAL_LIFECYCLE :: ustr where "AUTO_INITIAL_LIFECYCLE = lit ''candidate''"

definition ROLE_NAMES :: "string list" where
  "ROLE_NAMES = [''fact'', ''decision'', ''preference'', ''goal'', ''constraint'', ''experience'', ''failure'',
     ''solution'', ''observation'', ''hypothesis'', ''question'', ''unknown'']"

definition VERIFICATION_STATES :: "string list" where
  "VERIFICATION_STATES = [''unverified'', ''pending'', ''verified'', ''disputed'', ''rejected'']"

definition RELATION_KINDS :: "string list" where
  "RELATION_KINDS = [''supports'', ''contradicts'', ''derived_from'', ''supersedes'', ''caused_by'', ''relates_to'']"

section \<open>Tables\<close>

record memory_row =
  mr_data :: json
  mr_role :: ustr
  mr_scope :: ustr
  mr_source_kind :: ustr
  mr_lifecycle :: ustr
  mr_verification :: ustr
  mr_superseded_by :: "ustr option"
  mr_disputed_by :: "ustr option"
  mr_task :: "ustr option"
  mr_activations :: int
  mr_created :: nat
  mr_updated :: nat

record memory_link =
  ml_id :: ustr
  ml_source :: ustr
  ml_target :: ustr
  ml_kind :: ustr
  ml_coactivations :: int
  ml_updated :: nat

text \<open>What a revision keeps of the columns, when the row was there.\<close>

record row_state =
  rs_lifecycle :: ustr
  rs_superseded_by :: "ustr option"
  rs_disputed_by :: "ustr option"
  rs_pinned :: bool

record revision =
  rv_id :: ustr
  rv_memory :: ustr
  rv_title :: ustr
  rv_content :: ustr
  rv_state :: "row_state option"
  rv_created :: nat

record action_event =
  ev_action :: ustr
  ev_memory :: ustr
  ev_related :: "ustr option"
  ev_reason :: ustr
  ev_from_run :: "ustr option"
  ev_candidate :: nat

record memory_store =
  ms_rows :: "(ustr \<times> memory_row) list"
  ms_links :: "memory_link list"
  ms_revisions :: "revision list"
  ms_events :: "action_event list"
  ms_drawn :: nat

definition row :: "memory_store \<Rightarrow> ustr \<Rightarrow> memory_row option" where
  "row s i = map_of (ms_rows s) i"

definition change_row :: "ustr \<Rightarrow> (memory_row \<Rightarrow> memory_row) \<Rightarrow> memory_store \<Rightarrow> memory_store" where
  "change_row i f s = s\<lparr>ms_rows := map (\<lambda>(j, m). (j, if j = i then f m else m)) (ms_rows s)\<rparr>"

section \<open>The data blob\<close>

fun is_object_data :: "json \<Rightarrow> bool" where
  "is_object_data (JObj kvs) = True"
| "is_object_data _ = False"

fun jput :: "json \<Rightarrow> string \<Rightarrow> json \<Rightarrow> json" where
  "jput (JObj kvs) k v = JObj (AList.update (lit k) v kvs)"
| "jput _ k v = JObj [(lit k, v)]"

fun jdrop :: "json \<Rightarrow> string \<Rightarrow> json" where
  "jdrop (JObj kvs) k = JObj (AList.delete (lit k) kvs)"
| "jdrop j k = j"

definition text_at :: "json \<Rightarrow> string \<Rightarrow> ustr \<Rightarrow> ustr" where
  "text_at j k d = (case Option.bind (jget j k) as_str of Some s \<Rightarrow> s | None \<Rightarrow> d)"

definition title_of :: "memory_row \<Rightarrow> ustr" where "title_of m = text_at (mr_data m) ''title'' []"
definition body_of :: "memory_row \<Rightarrow> ustr" where "body_of m = text_at (mr_data m) ''content'' []"

definition is_pinned :: "json \<Rightarrow> bool" where
  "is_pinned data =
     (case jget data ''pinned'' of
        Some (JBool flag) \<Rightarrow> flag
      | Some v \<Rightarrow> as_i64 v = Some 1
      | None \<Rightarrow> False)"

definition is_retrievable :: "ustr \<Rightarrow> json \<Rightarrow> bool" where
  "is_retrievable lifecycle data \<longleftrightarrow> is_pinned data \<or> one_of lifecycle RETRIEVABLE_LIFECYCLES"

text \<open>
  The SQL predicate over the blob, with SQL's unknown as \<open>None\<close>: a missing member extracts to \<open>NULL\<close>, a
  boolean to 0 or 1. No code writes a float there.
\<close>

definition pinned_predicate :: "json \<Rightarrow> bool option" where
  "pinned_predicate data =
     (if \<not> is_object_data data then Some False
      else case jget data ''pinned'' of
        None \<Rightarrow> None
      | Some JNull \<Rightarrow> None
      | Some (JBool b) \<Rightarrow> Some b
      | Some (JInt i) \<Rightarrow> Some (i = 1)
      | Some _ \<Rightarrow> Some False)"

section \<open>Revisions and events\<close>

definition not_empty :: "ustr option \<Rightarrow> ustr option" where
  "not_empty p = (case p of Some [] \<Rightarrow> None | _ \<Rightarrow> p)"

definition state_of :: "memory_row \<Rightarrow> row_state" where
  "state_of m = \<lparr>rs_lifecycle = mr_lifecycle m, rs_superseded_by = not_empty (mr_superseded_by m),
     rs_disputed_by = not_empty (mr_disputed_by m), rs_pinned = is_pinned (mr_data m)\<rparr>"

definition push_revision :: "(nat \<Rightarrow> ustr) \<Rightarrow> nat \<Rightarrow> ustr \<Rightarrow> ustr \<Rightarrow> ustr \<Rightarrow> memory_store \<Rightarrow> memory_store" where
  "push_revision uuid now i title content s =
     s\<lparr>ms_revisions := ms_revisions s @ [\<lparr>rv_id = uuid (ms_drawn s), rv_memory = i, rv_title = title,
         rv_content = content, rv_state = map_option state_of (row s i), rv_created = now\<rparr>],
       ms_drawn := ms_drawn s + 1\<rparr>"

definition log_action_event ::
  "ustr option \<Rightarrow> nat \<Rightarrow> string \<Rightarrow> ustr \<Rightarrow> ustr option \<Rightarrow> ustr \<Rightarrow> memory_store \<Rightarrow> memory_store" where
  "log_action_event run candidate action i related reason s =
     s\<lparr>ms_events := ms_events s @ [\<lparr>ev_action = lit action, ev_memory = i, ev_related = related,
         ev_reason = reason, ev_from_run = run, ev_candidate = candidate\<rparr>]\<rparr>"

section \<open>Links\<close>

datatype mirror = Supersedes | Contradicts

fun mirror_kind :: "mirror \<Rightarrow> ustr" where
  "mirror_kind Supersedes = lit ''supersedes''"
| "mirror_kind Contradicts = lit ''contradicts''"

fun pointer :: "mirror \<Rightarrow> memory_row \<Rightarrow> ustr option" where
  "pointer Supersedes m = mr_superseded_by m"
| "pointer Contradicts m = mr_disputed_by m"

definition same_edge :: "ustr \<Rightarrow> ustr \<Rightarrow> ustr \<Rightarrow> memory_link \<Rightarrow> bool" where
  "same_edge src tgt kind l \<longleftrightarrow> ml_source l = src \<and> ml_target l = tgt \<and> ml_kind l = kind"

definition upsert_link ::
  "(nat \<Rightarrow> ustr) \<Rightarrow> nat \<Rightarrow> ustr \<Rightarrow> ustr \<Rightarrow> ustr \<Rightarrow> bool \<Rightarrow> memory_store \<Rightarrow> (ustr \<times> bool) \<times> memory_store" where
  "upsert_link uuid now src tgt kind increment s =
     (case find (same_edge src tgt kind) (ms_links s) of
        None \<Rightarrow>
          ((uuid (ms_drawn s), True),
           s\<lparr>ms_links := ms_links s @ [\<lparr>ml_id = uuid (ms_drawn s), ml_source = src, ml_target = tgt, ml_kind = kind,
               ml_coactivations = (if increment then 1 else 0), ml_updated = now\<rparr>],
             ms_drawn := ms_drawn s + 1\<rparr>)
      | Some e \<Rightarrow>
          ((ml_id e, False),
           s\<lparr>ms_links := map (\<lambda>l. if ml_id l = ml_id e
               then l\<lparr>ml_coactivations := ml_coactivations e + (if increment then 1 else 0), ml_updated := now\<rparr> else l)
               (ms_links s)\<rparr>))"

definition mirrored_source :: "mirror \<Rightarrow> ustr \<Rightarrow> memory_row \<Rightarrow> ustr option" where
  "mirrored_source k i m = (case not_empty (pointer k m) of Some p \<Rightarrow> if p = i then None else Some p | None \<Rightarrow> None)"

definition sync_kind :: "(nat \<Rightarrow> ustr) \<Rightarrow> nat \<Rightarrow> ustr \<Rightarrow> mirror \<Rightarrow> memory_store \<Rightarrow> memory_store" where
  "sync_kind uuid now i k s =
     (case row s i of
        None \<Rightarrow> s
      | Some m \<Rightarrow>
          let src = mirrored_source k i m;
              existing = filter (\<lambda>l. ml_target l = i \<and> ml_kind l = mirror_kind k) (ms_links s);
              keeper = Option.bind src (\<lambda>w. map_option ml_id (find (\<lambda>l. ml_source l = w) existing));
              dropped = filter (\<lambda>d. Some d \<noteq> keeper) (map ml_id existing);
              s = s\<lparr>ms_links := filter (\<lambda>l. ml_id l \<notin> set dropped) (ms_links s)\<rparr>
          in case src of
               None \<Rightarrow> s
             | Some w \<Rightarrow>
                 if keeper = None \<and> row s w \<noteq> None
                 then snd (upsert_link uuid now w i (mirror_kind k) False s) else s)"

definition sync_links :: "(nat \<Rightarrow> ustr) \<Rightarrow> nat \<Rightarrow> ustr \<Rightarrow> memory_store \<Rightarrow> memory_store" where
  "sync_links uuid now i s = sync_kind uuid now i Contradicts (sync_kind uuid now i Supersedes s)"

section \<open>Operations\<close>

datatype memory_error =
    Not_Found ustr | Old_Not_Found ustr | Replacement_Not_Found ustr | Conflicting_Not_Found ustr
  | Replacement_Required | Itself | Not_Disputed ustr | Bad_Preference
  | Unknown_Kind ustr | Mirror_Kind ustr | Unknown_Verdict ustr
  | Revision_Not_Found | Foreign_Revision | Sensitive | Content_Required

definition create_with_lifecycle ::
  "(nat \<Rightarrow> ustr) \<Rightarrow> nat \<Rightarrow> ustr \<Rightarrow> ustr \<Rightarrow> ustr \<Rightarrow> ustr \<Rightarrow> ustr \<Rightarrow> ustr option \<Rightarrow> ustr \<Rightarrow> memory_store \<Rightarrow>
     ustr \<times> memory_store" where
  "create_with_lifecycle uuid now title content role scope source_kind task lifecycle s =
     (let lifecycle = (if one_of lifecycle LIFECYCLE_STATES then lifecycle else EXPLICIT_INITIAL_LIFECYCLE);
          i = uuid (ms_drawn s);
          data = JObj [(lit ''title'', JStr title), (lit ''content'', JStr content), (lit ''role'', JStr role),
            (lit ''scope'', JStr scope), (lit ''sourceKind'', JStr source_kind),
            (lit ''verification'', JStr (lit ''unverified'')), (lit ''pinned'', JBool False)];
          m = \<lparr>mr_data = data, mr_role = role, mr_scope = scope, mr_source_kind = source_kind, mr_lifecycle = lifecycle,
            mr_verification = lit ''unverified'', mr_superseded_by = None, mr_disputed_by = None, mr_task = task,
            mr_activations = 0, mr_created = now, mr_updated = now\<rparr>
      in (i, push_revision uuid now i title content
               (s\<lparr>ms_rows := ms_rows s @ [(i, m)], ms_drawn := ms_drawn s + 1\<rparr>)))"

definition update_memory ::
  "(nat \<Rightarrow> ustr) \<Rightarrow> nat \<Rightarrow> ustr \<Rightarrow> ustr \<Rightarrow> ustr \<Rightarrow> memory_store \<Rightarrow> (memory_error + memory_row) \<times> memory_store" where
  "update_memory uuid now i title content s =
     (let old = (case row s i of Some m \<Rightarrow> mr_data m | None \<Rightarrow> JNull);
          old_title = text_at old ''title'' title;
          old_content = text_at old ''content'' content;
          data = jput (jput old ''title'' (JStr title)) ''content'' (JStr content);
          data = (if old_content \<noteq> content then jdrop data ''embedding'' else data);
          s = change_row i (\<lambda>m. m\<lparr>mr_data := data, mr_updated := now\<rparr>) s;
          s = push_revision uuid now i old_title old_content s
      in (case row s i of Some m \<Rightarrow> Inr m | None \<Rightarrow> Inl (Not_Found i), s))"

definition supersede :: "(nat \<Rightarrow> ustr) \<Rightarrow> nat \<Rightarrow> ustr \<Rightarrow> ustr option \<Rightarrow> memory_store \<Rightarrow> (memory_error + unit) \<times> memory_store" where
  "supersede uuid now old new_id s =
     (case not_empty (map_option trim new_id) of
        None \<Rightarrow> (Inl Replacement_Required, s)
      | Some new \<Rightarrow>
          if new = old then (Inl Itself, s)
          else case row s old of
            None \<Rightarrow> (Inl (Old_Not_Found old), s)
          | Some m \<Rightarrow>
              if row s new = None then (Inl (Replacement_Not_Found new), s)
              else
                let s = push_revision uuid now old (title_of m) (body_of m) s;
                    s = change_row old (\<lambda>m. m\<lparr>mr_lifecycle := lit ''superseded'', mr_superseded_by := Some new,
                          mr_disputed_by := None\<rparr>) s;
                    s = sync_links uuid now old s
                in (Inr (), log_action_event None 0 ''SUPERSEDE'' old (Some new) [] s))"

definition dispute :: "(nat \<Rightarrow> ustr) \<Rightarrow> nat \<Rightarrow> ustr \<Rightarrow> ustr \<Rightarrow> memory_store \<Rightarrow> (memory_error + unit) \<times> memory_store" where
  "dispute uuid now i other s =
     (if i = other then (Inl Itself, s)
      else case row s i of
        None \<Rightarrow> (Inl (Not_Found i), s)
      | Some m \<Rightarrow>
          if row s other = None then (Inl (Conflicting_Not_Found other), s)
          else
            let s = push_revision uuid now i (title_of m) (body_of m) s;
                s = change_row i (\<lambda>m. m\<lparr>mr_lifecycle := lit ''disputed'', mr_disputed_by := Some other\<rparr>) s;
                s = sync_links uuid now i s
            in (Inr (), log_action_event None 0 ''DISPUTE'' i (Some other) [] s))"

record conflict_resolution =
  cf_winner :: ustr
  cf_loser :: ustr
  cf_loser_state :: ustr
  cf_resolution :: ustr

definition conflict_sides :: "ustr \<Rightarrow> ustr \<Rightarrow> ustr option \<Rightarrow> ustr \<times> ustr" where
  "conflict_sides conflict other prefer_id =
     (let winner = (if prefer_id = Some conflict then conflict else other)
      in (winner, if winner = conflict then other else conflict))"

definition settle ::
  "(nat \<Rightarrow> ustr) \<Rightarrow> nat \<Rightarrow> ustr \<times> memory_row \<Rightarrow> ustr \<times> memory_row \<Rightarrow> ustr \<Rightarrow> memory_store \<Rightarrow> memory_store" where
  "settle uuid now winner loser loser_state s =
     (let s = push_revision uuid now (fst winner) (title_of (snd winner)) (body_of (snd winner)) s;
          s = push_revision uuid now (fst loser) (title_of (snd loser)) (body_of (snd loser)) s;
          s = change_row (fst winner) (\<lambda>m. m\<lparr>mr_lifecycle := lit ''active'', mr_disputed_by := None, mr_updated := now\<rparr>) s;
          s = change_row (fst loser) (\<lambda>m. m\<lparr>mr_lifecycle := loser_state, mr_superseded_by := Some (fst winner),
                mr_disputed_by := None\<rparr>) s
      in sync_links uuid now (fst loser) (sync_links uuid now (fst winner) s))"

definition bad_preference :: "ustr \<Rightarrow> ustr \<Rightarrow> ustr option \<Rightarrow> bool" where
  "bad_preference conflict other prefer_id \<longleftrightarrow>
     (case prefer_id of Some p \<Rightarrow> p \<noteq> conflict \<and> p \<noteq> other | None \<Rightarrow> False)"

definition resolve_conflict ::
  "(nat \<Rightarrow> ustr) \<Rightarrow> nat \<Rightarrow> ustr \<Rightarrow> ustr \<Rightarrow> ustr option \<Rightarrow> memory_store \<Rightarrow>
     (memory_error + conflict_resolution) \<times> memory_store" where
  "resolve_conflict uuid now conflict resolution prefer_id s =
     (case not_empty (Option.bind (row s conflict) mr_disputed_by) of
        None \<Rightarrow> (Inl (Not_Disputed conflict), s)
      | Some other \<Rightarrow>
          if bad_preference conflict other prefer_id then (Inl Bad_Preference, s)
          else
            case conflict_sides conflict other prefer_id of (winner, loser) \<Rightarrow>
              (case row s winner of
                 None \<Rightarrow> (Inl (Not_Found winner), s)
               | Some w \<Rightarrow>
                   (case row s loser of
                      None \<Rightarrow> (Inl (Not_Found loser), s)
                    | Some l \<Rightarrow>
                        let dismissed = one_of (ascii_lower (trim resolution)) [''dismiss'', ''dismissed'', ''rejected'', ''discard''];
                            loser_state = (if dismissed then lit ''expired'' else lit ''superseded'')
                        in (Inr \<lparr>cf_winner = winner, cf_loser = loser, cf_loser_state = loser_state, cf_resolution = resolution\<rparr>,
                            log_action_event None 0 ''RESOLVE'' loser (Some winner) resolution
                              (settle uuid now (winner, w) (loser, l) loser_state s)))))"

definition set_pinned :: "ustr \<Rightarrow> bool \<Rightarrow> memory_store \<Rightarrow> (memory_error + unit) \<times> memory_store" where
  "set_pinned i pinned s =
     (case row s i of
        None \<Rightarrow> (Inl (Not_Found i), s)
      | Some m \<Rightarrow> (Inr (), change_row i (\<lambda>m. m\<lparr>mr_data := jput (mr_data m) ''pinned'' (JBool pinned)\<rparr>) s))"

text \<open>What the decay makes of a row: nothing, weaker scalars, or the archive.\<close>

datatype decay_verdict = Leave | Weaken | Archive ustr

definition decay_candidate :: "memory_row \<Rightarrow> bool" where
  "decay_candidate m \<longleftrightarrow>
     (one_of (mr_lifecycle m) RETRIEVABLE_LIFECYCLES \<or> pinned_predicate (mr_data m) = Some True) \<and>
     pinned_predicate (mr_data m) = Some False"

definition decay_row ::
  "ustr \<Rightarrow> (ustr \<Rightarrow> memory_row \<Rightarrow> decay_verdict) \<Rightarrow> ustr \<times> memory_row \<Rightarrow> nat \<times> memory_store \<Rightarrow> nat \<times> memory_store" where
  "decay_row stamp verdict entry st =
     (case (entry, st) of ((i, m), (touched, s)) \<Rightarrow>
       if \<not> is_object_data (mr_data m) \<or> is_pinned (mr_data m) then (touched, s)
       else
         let mark = change_row i (\<lambda>m. m\<lparr>mr_data := jput (mr_data m) ''last_decay_at'' (JStr stamp)\<rparr>) s
         in case verdict i m of
              Leave \<Rightarrow> (touched, s)
            | Weaken \<Rightarrow> (touched + 1, mark)
            | Archive why \<Rightarrow>
                (touched + 1, log_action_event None 0 ''DECAY'' i None why
                   (change_row i (\<lambda>m. m\<lparr>mr_lifecycle := lit ''archived''\<rparr>) mark)))"

definition decay :: "ustr \<Rightarrow> (ustr \<Rightarrow> memory_row \<Rightarrow> decay_verdict) \<Rightarrow> memory_store \<Rightarrow> nat \<times> memory_store" where
  "decay stamp verdict s =
     fold (decay_row stamp verdict)
       (sort_key (\<lambda>(i, m). mr_updated m) (filter (\<lambda>(i, m). decay_candidate m) (ms_rows s))) (0, s)"

definition verify :: "nat \<Rightarrow> ustr \<Rightarrow> ustr \<Rightarrow> memory_store \<Rightarrow> (memory_error + unit) \<times> memory_store" where
  "verify now i verdict s =
     (if \<not> one_of verdict VERIFICATION_STATES then (Inl (Unknown_Verdict verdict), s)
      else if row s i = None then (Inl (Not_Found i), s)
      else (Inr (), change_row i (\<lambda>m. m\<lparr>mr_lifecycle := (if verdict = lit ''verified'' then lit ''active'' else mr_lifecycle m),
              mr_verification := verdict, mr_updated := now\<rparr>) s))"

definition reinforce :: "nat \<Rightarrow> ustr \<Rightarrow> ustr \<Rightarrow> memory_store \<Rightarrow> memory_store" where
  "reinforce now stamp i s =
     change_row i (\<lambda>m. m\<lparr>mr_activations := mr_activations m + 1,
       mr_data := jput (mr_data m) ''last_decay_at'' (JStr stamp), mr_updated := now\<rparr>) s"

definition detach :: "ustr \<Rightarrow> memory_row \<Rightarrow> memory_row" where
  "detach i m = m\<lparr>mr_superseded_by := (if mr_superseded_by m = Some i then None else mr_superseded_by m),
     mr_disputed_by := (if mr_disputed_by m = Some i then None else mr_disputed_by m)\<rparr>"

definition points_at :: "ustr \<Rightarrow> memory_row \<Rightarrow> bool" where
  "points_at i m \<longleftrightarrow> mr_superseded_by m = Some i \<or> mr_disputed_by m = Some i"

definition delete_memory :: "(nat \<Rightarrow> ustr) \<Rightarrow> nat \<Rightarrow> ustr \<Rightarrow> memory_store \<Rightarrow> memory_store" where
  "delete_memory uuid now i s =
     (let pointing = map fst (filter (\<lambda>(j, m). points_at i m \<and> j \<noteq> i) (ms_rows s));
          s = fold (\<lambda>j s. sync_links uuid now j (change_row j (detach i) s)) pointing s
      in s\<lparr>ms_links := filter (\<lambda>l. ml_source l \<noteq> i \<and> ml_target l \<noteq> i) (ms_links s),
           ms_rows := AList.delete i (ms_rows s)\<rparr>)"

definition restored_data :: "json \<Rightarrow> revision \<Rightarrow> json" where
  "restored_data current r =
     (let data = jput (jput current ''title'' (JStr (rv_title r))) ''content'' (JStr (rv_content r));
          data = (if text_at current ''content'' [] \<noteq> rv_content r then jdrop data ''embedding'' else data);
          flag = (case rv_state r of Some st \<Rightarrow> Some (rs_pinned st) | None \<Rightarrow> Option.bind (jget current ''pinned'') as_bool)
      in case flag of Some b \<Rightarrow> jput data ''pinned'' (JBool b) | None \<Rightarrow> data)"

definition restored_columns :: "revision \<Rightarrow> memory_row \<Rightarrow> memory_row" where
  "restored_columns r m =
     (case rv_state r of
        None \<Rightarrow> m
      | Some st \<Rightarrow> m\<lparr>mr_lifecycle := (if one_of (rs_lifecycle st) LIFECYCLE_STATES then rs_lifecycle st else mr_lifecycle m),
          mr_superseded_by := not_empty (rs_superseded_by st), mr_disputed_by := not_empty (rs_disputed_by st)\<rparr>)"

definition restore_memory ::
  "(nat \<Rightarrow> ustr) \<Rightarrow> nat \<Rightarrow> ustr \<Rightarrow> ustr \<Rightarrow> memory_store \<Rightarrow> (memory_error + memory_row) \<times> memory_store" where
  "restore_memory uuid now i revision_id s =
     (case find (\<lambda>r. rv_id r = revision_id) (ms_revisions s) of
        None \<Rightarrow> (Inl Revision_Not_Found, s)
      | Some r \<Rightarrow>
          if rv_memory r \<noteq> i then (Inl Foreign_Revision, s)
          else if row s i = None then (Inl (Not_Found i), s)
          else
            let s = change_row i (\<lambda>m. restored_columns r (m\<lparr>mr_data := restored_data (mr_data m) r, mr_updated := now\<rparr>)) s;
                s = push_revision uuid now i (rv_title r) (rv_content r) s;
                s = sync_links uuid now i s
            in (case row s i of Some m \<Rightarrow> Inr m | None \<Rightarrow> Inl (Not_Found i), s))"

definition link_memories ::
  "(nat \<Rightarrow> ustr) \<Rightarrow> nat \<Rightarrow> ustr \<Rightarrow> ustr \<Rightarrow> ustr \<Rightarrow> memory_store \<Rightarrow> (memory_error + memory_link option) \<times> memory_store" where
  "link_memories uuid now src tgt kind s =
     (if \<not> one_of kind RELATION_KINDS then (Inl (Unknown_Kind kind), s)
      else if one_of kind [''supersedes'', ''contradicts''] then (Inl (Mirror_Kind kind), s)
      else if src = tgt then (Inl Itself, s)
      else if row s src = None then (Inl (Not_Found src), s)
      else if row s tgt = None then (Inl (Not_Found tgt), s)
      else case upsert_link uuid now src tgt kind False s of
             ((i, new), s') \<Rightarrow> (Inr (find (\<lambda>l. ml_id l = i) (ms_links s')), s'))"

text \<open>The update of \<open>coactivate\<close>, which finds a link the other way round too.\<close>

definition bump_link :: "nat \<Rightarrow> ustr \<Rightarrow> memory_store \<Rightarrow> memory_store" where
  "bump_link now i s = s\<lparr>ms_links := map (\<lambda>l. if ml_id l = i
     then l\<lparr>ml_coactivations := ml_coactivations l + 1, ml_updated := now\<rparr> else l) (ms_links s)\<rparr>"

section \<open>The links mirror the pointers\<close>

definition drawn :: "(nat \<Rightarrow> ustr) \<Rightarrow> memory_store \<Rightarrow> ustr set" where
  "drawn uuid s = uuid ` {..<ms_drawn s}"

definition edges :: "memory_store \<Rightarrow> mirror \<Rightarrow> ustr \<Rightarrow> ustr list" where
  "edges s k i = map ml_source (filter (\<lambda>l. ml_target l = i \<and> ml_kind l = mirror_kind k) (ms_links s))"

text \<open>The edge a row asks for: one from the row its pointer names, when that row is there.\<close>

definition wanted :: "memory_store \<Rightarrow> mirror \<Rightarrow> ustr \<Rightarrow> memory_row \<Rightarrow> ustr list" where
  "wanted s k i m = (case mirrored_source k i m of Some p \<Rightarrow> if row s p \<noteq> None then [p] else [] | None \<Rightarrow> [])"

definition state_pointers :: "row_state \<Rightarrow> ustr set" where
  "state_pointers st = set_option (rs_superseded_by st) \<union> set_option (rs_disputed_by st)"

definition row_pointers :: "memory_row \<Rightarrow> ustr set" where
  "row_pointers m = set_option (mr_superseded_by m) \<union> set_option (mr_disputed_by m)"

definition tables_ok :: "(nat \<Rightarrow> ustr) \<Rightarrow> memory_store \<Rightarrow> bool" where
  "tables_ok uuid s \<longleftrightarrow>
     distinct (map fst (ms_rows s)) \<and> fst ` set (ms_rows s) \<subseteq> drawn uuid s \<and>
     distinct (map ml_id (ms_links s)) \<and> ml_id ` set (ms_links s) \<subseteq> drawn uuid s \<and>
     (\<forall>l \<in> set (ms_links s). row s (ml_source l) \<noteq> None \<and> row s (ml_target l) \<noteq> None) \<and>
     (\<forall>(i, m) \<in> set (ms_rows s). row_pointers m \<subseteq> drawn uuid s) \<and>
     (\<forall>r \<in> set (ms_revisions s). \<forall>st. rv_state r = Some st \<longrightarrow> state_pointers st \<subseteq> drawn uuid s)"

definition mirrored_but :: "ustr set \<Rightarrow> memory_store \<Rightarrow> bool" where
  "mirrored_but X s \<longleftrightarrow> (\<forall>i m k. i \<notin> X \<longrightarrow> row s i = Some m \<longrightarrow> edges s k i = wanted s k i m)"

lemma mirror_kind_inj [simp]: "mirror_kind k = mirror_kind k' \<longleftrightarrow> k = k'"
  by (cases k; cases k') (simp_all add: lit_def ch_def)

lemma not_empty_simps [simp]: "not_empty None = None" "not_empty (Some p) = (if p = [] then None else Some p)"
  by (auto simp: not_empty_def split: list.split)

lemma map_of_change:
  "map_of (map (\<lambda>(k, m). (k, if k = j then f m else m)) xs) i = (if i = j then map_option f (map_of xs i) else map_of xs i)"
  by (induction xs) auto

lemma row_simps [simp]:
  "row (push_revision uuid now j t c s) i = row s i" "row (log_action_event r n act j o' w s) i = row s i"
  "row (change_row j f s) i = (if i = j then map_option f (row s i) else row s i)"
  "row (snd (upsert_link uuid now a b kd inc s)) i = row s i" "row (sync_kind uuid now j k s) i = row s i"
  "row (sync_links uuid now j s) i = row s i"
proof -
  show u: "row (snd (upsert_link uuid now a b kd inc s)) i = row s i" for a b kd inc s
    by (simp add: row_def upsert_link_def split: option.split)
  show sk: "row (sync_kind uuid now j k s) i = row s i" for j k s
    using u by (auto simp: sync_kind_def Let_def row_def [where s = "_\<lparr>ms_links := _\<rparr>"] row_def [where s = s, symmetric] split: option.split)
  show "row (sync_links uuid now j s) i = row s i" by (simp add: sync_links_def sk)
  show "row (change_row j f s) i = (if i = j then map_option f (row s i) else row s i)"
    by (simp add: row_def change_row_def map_of_change)
qed (simp_all add: row_def push_revision_def log_action_event_def)

lemma links_simps [simp]:
  "ms_links (push_revision uuid now j t c s) = ms_links s" "ms_links (log_action_event r n act j o' w s) = ms_links s"
  "ms_links (change_row j f s) = ms_links s" "edges (push_revision uuid now j t c s) k i = edges s k i"
  "edges (log_action_event r n act j o' w s) k i = edges s k i" "edges (change_row j f s) k i = edges s k i"
  by (simp_all add: push_revision_def log_action_event_def change_row_def edges_def)

lemma change_row_ids [simp]:
  "map fst (ms_rows (change_row j f s)) = map fst (ms_rows s)" "ms_drawn (change_row j f s) = ms_drawn s"
  "ms_revisions (change_row j f s) = ms_revisions s" "drawn uuid (change_row j f s) = drawn uuid s"
  by (simp_all add: change_row_def drawn_def comp_def split_def)

lemma row_in: "distinct (map fst (ms_rows s)) \<Longrightarrow> row s i = Some m \<longleftrightarrow> (i, m) \<in> set (ms_rows s)"
  by (simp add: row_def)

lemma row_None: "row s i = None \<longleftrightarrow> i \<notin> fst ` set (ms_rows s)"
  by (simp add: row_def map_of_eq_None_iff)

lemma upsert_new:
  assumes "list_all (\<lambda>l. \<not> same_edge a b kd l) (ms_links s)"
  shows "snd (upsert_link uuid now a b kd inc s) =
    s\<lparr>ms_links := ms_links s @ [\<lparr>ml_id = uuid (ms_drawn s), ml_source = a, ml_target = b, ml_kind = kd,
        ml_coactivations = (if inc then 1 else 0), ml_updated = now\<rparr>], ms_drawn := ms_drawn s + 1\<rparr>"
proof -
  have "find (same_edge a b kd) (ms_links s) = None"
    using assms by (simp add: find_None_iff list_all_iff)
  then show ?thesis by (simp add: upsert_link_def)
qed

text \<open>One pass of the mirror over one row: its edges of one kind become the wanted ones.\<close>

lemma sync_kind_cases:
  assumes "row s i = Some m"
  obtains L where "set L \<subseteq> set (ms_links s)" "distinct (map ml_id (ms_links s)) \<Longrightarrow> distinct (map ml_id L)"
    "sync_kind uuid now i k s = s\<lparr>ms_links := L\<rparr> \<or>
     (\<exists>w. row s w \<noteq> None \<and> sync_kind uuid now i k s =
        s\<lparr>ms_links := L @ [\<lparr>ml_id = uuid (ms_drawn s), ml_source = w, ml_target = i, ml_kind = mirror_kind k,
           ml_coactivations = 0, ml_updated = now\<rparr>], ms_drawn := ms_drawn s + 1\<rparr>)"
    "distinct (map ml_id (ms_links s)) \<Longrightarrow> \<forall>l \<in> set (ms_links s). row s (ml_source l) \<noteq> None \<Longrightarrow>
     edges (sync_kind uuid now i k s) k' j = (if j = i \<and> k' = k then wanted s k i m else edges s k' j)"
proof -
  define ex where "ex = filter (\<lambda>l. ml_target l = i \<and> ml_kind l = mirror_kind k) (ms_links s)"
  define src where "src = mirrored_source k i m"
  define keeper where "keeper = Option.bind src (\<lambda>w. map_option ml_id (find (\<lambda>l. ml_source l = w) ex))"
  define L where "L = filter (\<lambda>l. ml_id l \<notin> set (filter (\<lambda>d. Some d \<noteq> keeper) (map ml_id ex))) (ms_links s)"
  have sync: "sync_kind uuid now i k s =
      (case src of None \<Rightarrow> s\<lparr>ms_links := L\<rparr>
       | Some w \<Rightarrow> if keeper = None \<and> row s w \<noteq> None
           then snd (upsert_link uuid now w i (mirror_kind k) False (s\<lparr>ms_links := L\<rparr>)) else s\<lparr>ms_links := L\<rparr>)"
    using assms by (auto simp: sync_kind_def Let_def L_def keeper_def src_def ex_def row_def split: option.split)
  have L: "set L \<subseteq> set (ms_links s)" "distinct (map ml_id (ms_links s)) \<Longrightarrow> distinct (map ml_id L)"
    by (auto simp: L_def intro: distinct_map_filter)
  have gone: "l \<in> set L \<Longrightarrow> ml_target l = i \<Longrightarrow> ml_kind l = mirror_kind k \<Longrightarrow> Some (ml_id l) = keeper" for l
    by (auto simp: L_def ex_def)
  have fresh: "list_all (\<lambda>l. \<not> same_edge w i (mirror_kind k) l) (ms_links (s\<lparr>ms_links := L\<rparr>))" if "keeper = None" for w
    using gone that by (auto simp: list_all_iff same_edge_def)
  have shape: "sync_kind uuid now i k s = s\<lparr>ms_links := L\<rparr> \<and> (src = None \<or> keeper \<noteq> None \<or> (\<exists>w. src = Some w \<and> row s w = None)) \<or>
     (\<exists>w. src = Some w \<and> keeper = None \<and> row s w \<noteq> None \<and> sync_kind uuid now i k s =
        s\<lparr>ms_links := L @ [\<lparr>ml_id = uuid (ms_drawn s), ml_source = w, ml_target = i, ml_kind = mirror_kind k,
           ml_coactivations = 0, ml_updated = now\<rparr>], ms_drawn := ms_drawn s + 1\<rparr>)"
    using upsert_new [OF fresh] by (cases src) (auto simp: sync)
  show thesis
  proof (rule that [OF L])
    show "sync_kind uuid now i k s = s\<lparr>ms_links := L\<rparr> \<or>
     (\<exists>w. row s w \<noteq> None \<and> sync_kind uuid now i k s =
        s\<lparr>ms_links := L @ [\<lparr>ml_id = uuid (ms_drawn s), ml_source = w, ml_target = i, ml_kind = mirror_kind k,
           ml_coactivations = 0, ml_updated = now\<rparr>], ms_drawn := ms_drawn s + 1\<rparr>)"
      using shape by blast
  next
    assume d: "distinct (map ml_id (ms_links s))" and ends: "\<forall>l \<in> set (ms_links s). row s (ml_source l) \<noteq> None"
    let ?here = "\<lambda>l. ml_target l = i \<and> ml_kind l = mirror_kind k"
    let ?there = "\<lambda>l. ml_target l = j \<and> ml_kind l = mirror_kind k'"
    have same: "l \<in> set (ms_links s) \<Longrightarrow> l' \<in> set (ms_links s) \<Longrightarrow> ml_id l = ml_id l' \<Longrightarrow> l = l'" for l l'
      using d by (auto simp: distinct_map dest: inj_onD)
    have other: "filter ?there L = filter ?there (ms_links s)" if "\<not> (j = i \<and> k' = k)"
      unfolding L_def filter_filter by (rule filter_cong) (use that in \<open>auto simp: ex_def dest: same\<close>)
    have mine: "filter ?here L = filter (\<lambda>l. Some (ml_id l) = keeper) ex"
      unfolding L_def ex_def filter_filter by (rule filter_cong) (auto dest: same)
    have kept: "map ml_source (filter ?here L) = (case keeper of None \<Rightarrow> [] | Some _ \<Rightarrow> (case src of Some w \<Rightarrow> [w] | None \<Rightarrow> []))"
    proof (cases keeper)
      case (Some kid)
      then obtain w l0 where w: "src = Some w" "find (\<lambda>l. ml_source l = w) ex = Some l0" "ml_id l0 = kid"
        by (cases src) (auto simp: keeper_def)
      then have l0: "l0 \<in> set ex" "ml_source l0 = w" by (auto simp: find_Some_iff)
      have "filter (\<lambda>l. Some (ml_id l) = keeper) ex = filter (\<lambda>l. l = l0) ex"
        by (rule filter_cong) (use Some w(3) l0(1) same in \<open>auto simp: ex_def\<close>)
      moreover have "filter (\<lambda>l. l = l0) xs = [l0]" if "distinct xs" "l0 \<in> set xs" for xs :: "memory_link list"
        using that by (induction xs) (auto simp: filter_empty_conv)
      moreover have "distinct ex" using d by (simp add: ex_def distinct_map)
      ultimately show ?thesis using Some w(1) l0 by (simp add: mine)
    qed (simp add: mine)
    have there: "row s w \<noteq> None" if "keeper \<noteq> None" "src = Some w" for w
      using that ends by (auto simp: keeper_def ex_def find_Some_iff dest!: nth_mem)
    show "edges (sync_kind uuid now i k s) k' j = (if j = i \<and> k' = k then wanted s k i m else edges s k' j)"
      using shape kept there other by (auto simp: edges_def wanted_def src_def [symmetric] split: option.splits)
  qed
qed

text \<open>What every operation keeps.\<close>

lemma drawn_simps [simp]:
  "drawn uuid (push_revision uuid now j t c s) = insert (uuid (ms_drawn s)) (drawn uuid s)"
  "drawn uuid (log_action_event r n act j o' w s) = drawn uuid s"
  "ms_rows (push_revision uuid now j t c s) = ms_rows s" "ms_rows (log_action_event r n act j o' w s) = ms_rows s"
  "ms_revisions (log_action_event r n act j o' w s) = ms_revisions s"
  by (auto simp: drawn_def push_revision_def log_action_event_def lessThan_Suc)

lemma wanted_simps [simp]:
  "wanted (push_revision uuid now j t c s) k i m = wanted s k i m"
  "wanted (log_action_event r n act j o' w s) k i m = wanted s k i m"
  "wanted (change_row j f s) k i m = wanted s k i m" "wanted (sync_kind uuid now j k' s) k i m = wanted s k i m"
  by (auto simp: wanted_def split: option.split)

lemma state_pointers_of: "state_pointers (state_of m) \<subseteq> row_pointers m"
  by (auto simp: state_pointers_def row_pointers_def state_of_def not_empty_def split: option.splits list.splits)

lemma log_event_ok [simp]:
  "tables_ok uuid (log_action_event r n act j o' w s) = tables_ok uuid s"
  "mirrored_but X (log_action_event r n act j o' w s) = mirrored_but X s"
  by (simp_all add: tables_ok_def mirrored_but_def)

lemma push_revision_ok:
  "tables_ok uuid s \<Longrightarrow> tables_ok uuid (push_revision uuid now j t c s)"
  "mirrored_but X (push_revision uuid now j t c s) = mirrored_but X s"
proof -
  assume ok: "tables_ok uuid s"
  have new: "state_pointers st \<subseteq> drawn uuid s" if st: "map_option state_of (row s j) = Some st" for st
  proof -
    obtain m where m: "row s j = Some m" "st = state_of m" using st by auto
    then have "(j, m) \<in> set (ms_rows s)" by (simp add: row_def map_of_SomeD)
    moreover have "\<forall>(j, m) \<in> set (ms_rows s). row_pointers m \<subseteq> drawn uuid s" using ok by (simp add: tables_ok_def)
    ultimately have "row_pointers m \<subseteq> drawn uuid s" by blast
    with state_pointers_of [of m] m(2) show ?thesis by simp
  qed
  have revs: "state_pointers st \<subseteq> insert (uuid (ms_drawn s)) (drawn uuid s)"
    if mem: "r \<in> set (ms_revisions (push_revision uuid now j t c s))" and st: "rv_state r = Some st" for r st
  proof -
    consider "r \<in> set (ms_revisions s)" | "rv_state r = map_option state_of (row s j)"
      using mem by (auto simp: push_revision_def)
    then have "state_pointers st \<subseteq> drawn uuid s"
    proof cases
      case 1
      then show ?thesis using ok st by (simp add: tables_ok_def)
    next
      case 2
      then show ?thesis by (intro new) (metis st)
    qed
    then show ?thesis by blast
  qed
  have a: "\<forall>(i, m) \<in> set (ms_rows s). row_pointers m \<subseteq> insert (uuid (ms_drawn s)) (drawn uuid s)"
    and b: "fst ` set (ms_rows s) \<subseteq> insert (uuid (ms_drawn s)) (drawn uuid s)"
    and c: "ml_id ` set (ms_links s) \<subseteq> insert (uuid (ms_drawn s)) (drawn uuid s)"
    and d: "\<forall>l \<in> set (ms_links s). row s (ml_source l) \<noteq> None \<and> row s (ml_target l) \<noteq> None"
    and e: "distinct (map fst (ms_rows s))" "distinct (map ml_id (ms_links s))"
    using ok by (auto simp: tables_ok_def)
  show "tables_ok uuid (push_revision uuid now j t c s)"
    unfolding tables_ok_def drawn_simps row_simps links_simps
    by (intro conjI a b c d e ballI allI impI revs)
next
  show "mirrored_but X (push_revision uuid now j t c s) = mirrored_but X s" by (simp add: mirrored_but_def)
qed

lemma change_row_tables:
  assumes "tables_ok uuid s" "\<And>m. row s i = Some m \<Longrightarrow> row_pointers (f m) \<subseteq> drawn uuid s"
  shows "tables_ok uuid (change_row i f s)"
proof -
  have "row_pointers m \<subseteq> drawn uuid s" if "(j, m) \<in> set (ms_rows (change_row i f s))" for j m
  proof -
    from that obtain m0 where m0: "(j, m0) \<in> set (ms_rows s)" "m = (if j = i then f m0 else m0)"
      by (auto simp: change_row_def)
    then have "row s j = Some m0" using assms(1) by (simp add: tables_ok_def row_def)
    then show ?thesis using m0 assms by (auto simp: tables_ok_def)
  qed
  then have p: "\<forall>(j, m) \<in> set (ms_rows (change_row i f s)). row_pointers m \<subseteq> drawn uuid s" by auto
  have f: "fst ` set (ms_rows (change_row i f s)) = fst ` set (ms_rows s)"
    by (metis change_row_ids(1) list.set_map)
  show ?thesis
    unfolding tables_ok_def change_row_ids links_simps f
    by (intro conjI p) (use assms(1) in \<open>auto simp: tables_ok_def\<close>)
qed

lemma wanted_cong: "pointer k m' = pointer k m \<Longrightarrow> wanted s k i m' = wanted s k i m"
  by (simp add: wanted_def mirrored_source_def)

lemma change_row_mirrored: "mirrored_but X s \<Longrightarrow> mirrored_but (insert i X) (change_row i f s)"
  by (auto simp: mirrored_but_def)

lemma change_row_mirrored_same:
  assumes "mirrored_but X s" "\<And>m k. pointer k (f m) = pointer k m"
  shows "mirrored_but X (change_row i f s)"
proof -
  have "wanted s k j (f m) = wanted s k j m" for k j m by (rule wanted_cong) (rule assms(2))
  then show ?thesis using assms(1) by (auto simp: mirrored_but_def)
qed

lemma row_pointers_same: "(\<And>k. pointer k m' = pointer k m) \<Longrightarrow> row_pointers m' = row_pointers m"
  by (metis pointer.simps row_pointers_def)

text \<open>An operation that leaves the pointers alone keeps everything.\<close>

lemma change_row_ok:
  assumes "tables_ok uuid s" "mirrored_but X s" "\<And>m k. pointer k (f m) = pointer k m"
  shows "tables_ok uuid (change_row i f s) \<and> mirrored_but X (change_row i f s)"
proof -
  have "row_pointers (f m) \<subseteq> drawn uuid s" if "row s i = Some m" for m
    using assms(1) row_pointers_same [of "f m" m] assms(3) that
    by (auto simp: tables_ok_def row_def dest!: map_of_SomeD)
  then show ?thesis
    using change_row_tables [OF assms(1)] change_row_mirrored_same [OF assms(2,3)] by blast
qed

lemma row_links [simp]: "row (s\<lparr>ms_links := L\<rparr>) i = row s i" "row (s\<lparr>ms_links := L, ms_drawn := n\<rparr>) i = row s i"
  by (simp_all add: row_def)

lemma fewer_links_ok:
  "tables_ok uuid s \<Longrightarrow> distinct (map ml_id L) \<Longrightarrow> set L \<subseteq> set (ms_links s) \<Longrightarrow> tables_ok uuid (s\<lparr>ms_links := L\<rparr>)"
  unfolding tables_ok_def drawn_def by (intro conjI) (simp_all, blast+)

lemma new_link_ok:
  assumes "tables_ok uuid s" "inj uuid" "row s (ml_source e) \<noteq> None" "row s (ml_target e) \<noteq> None" "ml_id e = uuid (ms_drawn s)"
  shows "tables_ok uuid (s\<lparr>ms_links := ms_links s @ [e], ms_drawn := ms_drawn s + 1\<rparr>)"
proof -
  have fresh: "uuid (ms_drawn s) \<notin> drawn uuid s" using assms(2) by (auto simp: drawn_def dest: injD)
  have d: "drawn uuid (s\<lparr>ms_links := ms_links s @ [e], ms_drawn := ms_drawn s + 1\<rparr>) = insert (uuid (ms_drawn s)) (drawn uuid s)"
    by (simp add: drawn_def lessThan_Suc)
  show ?thesis
    unfolding tables_ok_def d
    by (intro conjI) (use assms fresh in \<open>fastforce simp: tables_ok_def\<close>)+
qed

lemma sync_kind_ok:
  assumes "tables_ok uuid s" "inj uuid"
  shows "tables_ok uuid (sync_kind uuid now i k s)"
    and "row s j = Some m \<Longrightarrow> edges (sync_kind uuid now i k s) k' j =
      (if j = i \<and> k' = k then wanted s k i m else edges s k' j)"
    and "drawn uuid s \<subseteq> drawn uuid (sync_kind uuid now i k s)"
    and "ms_rows (sync_kind uuid now i k s) = ms_rows s"
proof -
  have ends: "\<forall>l \<in> set (ms_links s). row s (ml_source l) \<noteq> None" and d: "distinct (map ml_id (ms_links s))"
    using assms(1) by (auto simp: tables_ok_def)
  have all: "tables_ok uuid (sync_kind uuid now i k s) \<and> drawn uuid s \<subseteq> drawn uuid (sync_kind uuid now i k s) \<and>
    ms_rows (sync_kind uuid now i k s) = ms_rows s \<and>
    (row s j = Some m \<longrightarrow> edges (sync_kind uuid now i k s) k' j = (if j = i \<and> k' = k then wanted s k i m else edges s k' j))"
  proof (cases "row s i")
    case None
    then show ?thesis using assms(1) by (auto simp: sync_kind_def)
  next
    case (Some mi)
    obtain L where L: "set L \<subseteq> set (ms_links s)" "distinct (map ml_id L)"
      and shape: "sync_kind uuid now i k s = s\<lparr>ms_links := L\<rparr> \<or>
       (\<exists>w. row s w \<noteq> None \<and> sync_kind uuid now i k s =
        s\<lparr>ms_links := L @ [\<lparr>ml_id = uuid (ms_drawn s), ml_source = w, ml_target = i, ml_kind = mirror_kind k,
           ml_coactivations = 0, ml_updated = now\<rparr>], ms_drawn := ms_drawn s + 1\<rparr>)"
      and e: "edges (sync_kind uuid now i k s) k' j = (if j = i \<and> k' = k then wanted s k i mi else edges s k' j)"
      using sync_kind_cases [OF Some, of uuid now k k' j] d ends by metis
    have "tables_ok uuid (sync_kind uuid now i k s)"
      using shape
    proof
      assume "sync_kind uuid now i k s = s\<lparr>ms_links := L\<rparr>"
      then show ?thesis using fewer_links_ok [OF assms(1) L(2,1)] by simp
    next
      assume "\<exists>w. row s w \<noteq> None \<and> sync_kind uuid now i k s =
        s\<lparr>ms_links := L @ [\<lparr>ml_id = uuid (ms_drawn s), ml_source = w, ml_target = i, ml_kind = mirror_kind k,
           ml_coactivations = 0, ml_updated = now\<rparr>], ms_drawn := ms_drawn s + 1\<rparr>"
      then obtain w where "row s w \<noteq> None" "sync_kind uuid now i k s =
        s\<lparr>ms_links := L @ [\<lparr>ml_id = uuid (ms_drawn s), ml_source = w, ml_target = i, ml_kind = mirror_kind k,
           ml_coactivations = 0, ml_updated = now\<rparr>], ms_drawn := ms_drawn s + 1\<rparr>" by blast
      then show ?thesis
        using new_link_ok [OF fewer_links_ok [OF assms(1) L(2,1)] assms(2), of "\<lparr>ml_id = uuid (ms_drawn s), ml_source = w,
          ml_target = i, ml_kind = mirror_kind k, ml_coactivations = 0, ml_updated = now\<rparr>"] Some by simp
    qed
    moreover have "drawn uuid s \<subseteq> drawn uuid (sync_kind uuid now i k s)" "ms_rows (sync_kind uuid now i k s) = ms_rows s"
      using shape by (auto simp: drawn_def)
    ultimately show ?thesis using e Some by auto
  qed
  then show "tables_ok uuid (sync_kind uuid now i k s)"
    "row s j = Some m \<Longrightarrow> edges (sync_kind uuid now i k s) k' j = (if j = i \<and> k' = k then wanted s k i m else edges s k' j)"
    "drawn uuid s \<subseteq> drawn uuid (sync_kind uuid now i k s)" "ms_rows (sync_kind uuid now i k s) = ms_rows s"
    by blast+
qed

lemma sync_links_ok:
  assumes "tables_ok uuid s" "inj uuid" "mirrored_but X s"
  shows "tables_ok uuid (sync_links uuid now i s) \<and> mirrored_but (X - {i}) (sync_links uuid now i s) \<and>
    drawn uuid s \<subseteq> drawn uuid (sync_links uuid now i s) \<and> ms_rows (sync_links uuid now i s) = ms_rows s"
proof -
  let ?s = "sync_kind uuid now i Supersedes s"
  note 1 = sync_kind_ok [OF assms(1,2), where now = now and i = i and k = Supersedes]
  note 2 = sync_kind_ok [OF 1(1) assms(2), where now = now and i = i and k = Contradicts]
  have "edges (sync_links uuid now i s) k j = wanted (sync_links uuid now i s) k j m"
    if j: "j \<notin> X - {i}" "row s j = Some m" for j m k
  proof -
    have r: "row ?s j = Some m" using j(2) by simp
    show ?thesis
      using 2(2) [OF r, where k' = k] 1(2) [OF j(2), where k' = k] j assms(3)
      by (cases k) (auto simp: sync_links_def mirrored_but_def)
  qed
  then show ?thesis
    using 2(1,3,4) 1(3,4) by (auto simp: mirrored_but_def sync_links_def)
qed

definition store_ok :: "(nat \<Rightarrow> ustr) \<Rightarrow> memory_store \<Rightarrow> bool" where
  "store_ok uuid s \<longleftrightarrow> tables_ok uuid s \<and> mirrored_but {} s"

lemma store_ok_log [simp]: "store_ok uuid (log_action_event r n act j o' w s) = store_ok uuid s"
  by (simp add: store_ok_def)

lemma store_ok_push: "store_ok uuid s \<Longrightarrow> store_ok uuid (push_revision uuid now j t c s)"
  by (simp add: store_ok_def push_revision_ok)

lemma store_ok_same: "store_ok uuid s \<Longrightarrow> (\<And>m k. pointer k (f m) = pointer k m) \<Longrightarrow> store_ok uuid (change_row i f s)"
  using change_row_ok by (auto simp: store_ok_def)

text \<open>Moving the pointers of a row and syncing it keeps the mirror.\<close>

lemma store_ok_moved:
  assumes "store_ok uuid s" "inj uuid" "\<And>m. row s i = Some m \<Longrightarrow> row_pointers (f m) \<subseteq> drawn uuid s"
  shows "store_ok uuid (sync_links uuid now i (change_row i f s))"
proof -
  have t: "tables_ok uuid (change_row i f s)" using assms(1,3) by (intro change_row_tables) (auto simp: store_ok_def)
  have "mirrored_but {i} (change_row i f s)"
    using change_row_mirrored [of "{}" s i f] assms(1) by (simp add: store_ok_def)
  from sync_links_ok [OF t assms(2) this, of now i] show ?thesis by (simp add: store_ok_def)
qed

lemma drawn_row: "store_ok uuid s \<Longrightarrow> row s i \<noteq> None \<Longrightarrow> i \<in> drawn uuid s"
  by (auto simp: store_ok_def tables_ok_def row_def dest!: map_of_SomeD)

lemma drawn_pointers: "store_ok uuid s \<Longrightarrow> row s i = Some m \<Longrightarrow> row_pointers m \<subseteq> drawn uuid s"
proof -
  assume "store_ok uuid s" "row s i = Some m"
  then have "(i, m) \<in> set (ms_rows s)" by (simp only: row_def map_of_SomeD)
  moreover have "\<forall>(i, m) \<in> set (ms_rows s). row_pointers m \<subseteq> drawn uuid s"
    using \<open>store_ok uuid s\<close> unfolding store_ok_def tables_ok_def by (elim conjE)
  ultimately show "row_pointers m \<subseteq> drawn uuid s" by blast
qed

lemma supersede_ok:
  assumes "store_ok uuid s" "inj uuid"
  shows "store_ok uuid (snd (supersede uuid now old new_id s))"
proof -
  have "store_ok uuid (sync_links uuid now old (change_row old (\<lambda>m. m\<lparr>mr_lifecycle := lit ''superseded'',
      mr_superseded_by := Some new, mr_disputed_by := None\<rparr>) (push_revision uuid now old t c s)))"
    if "row s new \<noteq> None" for new t c
    by (rule store_ok_moved [OF store_ok_push [OF assms(1)] assms(2)])
      (use drawn_row [OF assms(1) that] in \<open>simp add: row_pointers_def\<close>)
  then show ?thesis using assms(1) by (auto simp: supersede_def Let_def split: option.splits)
qed

lemma dispute_ok:
  assumes "store_ok uuid s" "inj uuid"
  shows "store_ok uuid (snd (dispute uuid now i other s))"
proof -
  have "store_ok uuid (sync_links uuid now i (change_row i (\<lambda>m. m\<lparr>mr_lifecycle := lit ''disputed'',
      mr_disputed_by := Some other\<rparr>) (push_revision uuid now i t c s)))"
    if "row s other \<noteq> None" for t c
    by (rule store_ok_moved [OF store_ok_push [OF assms(1)] assms(2)])
      (use drawn_row [OF assms(1) that] drawn_pointers [OF assms(1), of i] in \<open>auto simp: row_pointers_def\<close>)
  then show ?thesis using assms(1) by (auto simp: dispute_def Let_def split: option.splits)
qed

lemma settle_ok:
  assumes "store_ok uuid s" "inj uuid" "row s a = Some w" "row s b = Some l"
  shows "store_ok uuid (settle uuid now (a, w) (b, l) st s)"
proof -
  define s1 where "s1 = push_revision uuid now b (title_of l) (body_of l) (push_revision uuid now a (title_of w) (body_of w) s)"
  define s2 where "s2 = change_row a (\<lambda>m. m\<lparr>mr_lifecycle := lit ''active'', mr_disputed_by := None, mr_updated := now\<rparr>) s1"
  define s3 where "s3 = change_row b (\<lambda>m. m\<lparr>mr_lifecycle := st, mr_superseded_by := Some a, mr_disputed_by := None\<rparr>) s2"
  have s: "store_ok uuid s1" unfolding s1_def by (intro store_ok_push assms(1))
  have "tables_ok uuid s2"
    unfolding s2_def by (rule change_row_tables) (use s drawn_pointers [OF s, of a] in \<open>auto simp: store_ok_def row_pointers_def\<close>)
  moreover have "a \<in> drawn uuid s2" using drawn_row [OF s, of a] assms(3) by (simp add: s1_def s2_def)
  ultimately have t: "tables_ok uuid s3"
    unfolding s3_def by (intro change_row_tables) (simp_all add: row_pointers_def)
  have "mirrored_but {} s1" using s by (simp add: store_ok_def)
  then have m: "mirrored_but {b, a} s3"
    unfolding s3_def s2_def by (intro change_row_mirrored)
  have 1: "tables_ok uuid (sync_links uuid now a s3)" "mirrored_but ({b, a} - {a}) (sync_links uuid now a s3)"
    using sync_links_ok [OF t assms(2) m] by blast+
  have "tables_ok uuid (sync_links uuid now b (sync_links uuid now a s3)) \<and>
    mirrored_but ({b, a} - {a} - {b}) (sync_links uuid now b (sync_links uuid now a s3))"
    using sync_links_ok [OF 1(1) assms(2) 1(2)] by blast
  moreover have "{b, a} - {a} - {b} = {}" by blast
  ultimately show ?thesis by (simp add: store_ok_def settle_def Let_def s1_def s2_def s3_def)
qed

lemma resolve_conflict_ok:
  "store_ok uuid s \<Longrightarrow> inj uuid \<Longrightarrow> store_ok uuid (snd (resolve_conflict uuid now conflict resolution prefer_id s))"
  by (auto simp: resolve_conflict_def Let_def settle_ok split: option.split prod.split)

lemma create_ok:
  assumes "store_ok uuid s" "inj uuid"
  shows "store_ok uuid (snd (create_with_lifecycle uuid now title content role scope kind task lifecycle s))"
proof -
  have fresh: "uuid (ms_drawn s) \<notin> drawn uuid s" using assms(2) by (auto simp: drawn_def dest: injD)
  then have new: "row s (uuid (ms_drawn s)) = None" using drawn_row [OF assms(1)] by blast
  have t: "tables_ok uuid s" and m: "mirrored_but {} s" using assms(1) by (simp_all add: store_ok_def)
  have "store_ok uuid (s\<lparr>ms_rows := ms_rows s @ [(uuid (ms_drawn s), r)], ms_drawn := Suc (ms_drawn s)\<rparr>)"
    if r: "mr_superseded_by r = None" "mr_disputed_by r = None" for r
  proof -
    let ?i = "uuid (ms_drawn s)"
    let ?s = "s\<lparr>ms_rows := ms_rows s @ [(?i, r)], ms_drawn := Suc (ms_drawn s)\<rparr>"
    have row: "row ?s j = (if j = ?i then Some r else row s j)" for j
      using new by (auto simp: row_def map_add_def split: option.split)
    have d: "drawn uuid ?s = insert ?i (drawn uuid s)" by (simp add: drawn_def lessThan_Suc)
    have rv: "\<forall>v \<in> set (ms_revisions ?s). \<forall>st. rv_state v = Some st \<longrightarrow> state_pointers st \<subseteq> insert ?i (drawn uuid s)"
    proof (intro ballI allI impI)
      fix v st
      assume "v \<in> set (ms_revisions ?s)" "rv_state v = Some st"
      then have "state_pointers st \<subseteq> drawn uuid s" using t by (simp add: tables_ok_def)
      then show "state_pointers st \<subseteq> insert ?i (drawn uuid s)" by blast
    qed
    have "tables_ok uuid ?s"
      unfolding tables_ok_def d
      by (intro conjI rv) (use t new fresh r in \<open>auto simp: tables_ok_def row row_None row_pointers_def\<close>)
    moreover have "edges ?s k j = wanted ?s k j m'" if "row ?s j = Some m'" for k j m'
    proof (cases "j = ?i")
      case True
      have "ml_target l \<noteq> ?i" if "l \<in> set (ms_links s)" for l
        using t new that by (auto simp: tables_ok_def)
      then have "edges ?s k j = []" using True by (auto simp: edges_def filter_empty_conv)
      moreover have "pointer k r = None" using r by (cases k) simp_all
      moreover have "m' = r" using True \<open>row ?s j = Some m'\<close> row [of j] by simp
      ultimately show ?thesis by (simp add: wanted_def mirrored_source_def)
    next
      case False
      then have j: "row s j = Some m'" using \<open>row ?s j = Some m'\<close> by (simp add: row)
      have "mirrored_source k j m' \<noteq> Some ?i"
        using drawn_pointers [OF assms(1) j] fresh
        by (cases k) (auto simp: mirrored_source_def row_pointers_def not_empty_def split: option.splits list.splits)
      then have "wanted ?s k j m' = wanted s k j m'" by (auto simp: wanted_def row split: option.split)
      moreover have "edges ?s k j = edges s k j" by (simp add: edges_def)
      ultimately show ?thesis using m j by (simp add: mirrored_but_def)
    qed
    ultimately show ?thesis by (simp add: store_ok_def mirrored_but_def)
  qed
  then show ?thesis by (simp add: create_with_lifecycle_def Let_def store_ok_push)
qed

lemma pointer_kept [simp]:
  "pointer k (m\<lparr>mr_data := d\<rparr>) = pointer k m" "pointer k (m\<lparr>mr_updated := n\<rparr>) = pointer k m"
  "pointer k (m\<lparr>mr_lifecycle := l\<rparr>) = pointer k m" "pointer k (m\<lparr>mr_verification := v\<rparr>) = pointer k m"
  "pointer k (m\<lparr>mr_activations := a\<rparr>) = pointer k m"
  by (cases k; simp)+

lemma update_ok: "store_ok uuid s \<Longrightarrow> store_ok uuid (snd (update_memory uuid now i title content s))"
  by (auto simp: update_memory_def Let_def intro!: store_ok_push store_ok_same)

lemma set_pinned_ok: "store_ok uuid s \<Longrightarrow> store_ok uuid (snd (set_pinned i b s))"
  by (auto simp: set_pinned_def intro!: store_ok_same split: option.split)

lemma verify_ok: "store_ok uuid s \<Longrightarrow> store_ok uuid (snd (verify now i v s))"
proof -
  have "pointer k (m\<lparr>mr_lifecycle := l, mr_verification := v, mr_updated := now\<rparr>) = pointer k m" for k m l
    by (cases k) simp_all
  then show "store_ok uuid s \<Longrightarrow> ?thesis" by (auto simp: verify_def intro!: store_ok_same)
qed

lemma reinforce_ok: "store_ok uuid s \<Longrightarrow> store_ok uuid (reinforce now stamp i s)"
proof -
  have "pointer k (m\<lparr>mr_activations := a, mr_data := d, mr_updated := now\<rparr>) = pointer k m" for k m a d
    by (cases k) simp_all
  then show "store_ok uuid s \<Longrightarrow> ?thesis" by (auto simp: reinforce_def intro!: store_ok_same)
qed

lemma decay_row_ok: "store_ok uuid (snd st) \<Longrightarrow> store_ok uuid (snd (decay_row stamp verdict entry st))"
  by (auto simp: decay_row_def Let_def intro!: store_ok_same split: prod.splits decay_verdict.split)

lemma decay_ok: "store_ok uuid s \<Longrightarrow> store_ok uuid (snd (decay stamp verdict s))"
proof -
  have "store_ok uuid (snd st) \<Longrightarrow> store_ok uuid (snd (fold (decay_row stamp verdict) es st))" for es st
    by (induction es arbitrary: st) (simp_all add: decay_row_ok)
  then show "store_ok uuid s \<Longrightarrow> ?thesis" by (simp add: decay_def)
qed

lemma restore_ok:
  assumes "store_ok uuid s" "inj uuid"
  shows "store_ok uuid (snd (restore_memory uuid now i rid s))"
proof -
  have "store_ok uuid (sync_links uuid now i (push_revision uuid now i t c (change_row i f s)))"
    if f: "f = (\<lambda>m. restored_columns r (m\<lparr>mr_data := restored_data (mr_data m) r, mr_updated := now\<rparr>))"
      and r: "r \<in> set (ms_revisions s)" for r f t c
  proof -
    have "row_pointers (f m) \<subseteq> drawn uuid s" if "row s i = Some m" for m
    proof (cases "rv_state r")
      case None
      then show ?thesis using drawn_pointers [OF assms(1) that] by (simp add: f restored_columns_def row_pointers_def)
    next
      case (Some st)
      then have "state_pointers st \<subseteq> drawn uuid s" using assms(1) r by (simp add: store_ok_def tables_ok_def)
      then show ?thesis
        using Some by (auto simp: f restored_columns_def row_pointers_def state_pointers_def not_empty_def split: option.splits list.splits)
    qed
    then have t: "tables_ok uuid (push_revision uuid now i t c (change_row i f s))"
      using assms(1) by (intro push_revision_ok(1) change_row_tables) (simp_all add: store_ok_def)
    have "mirrored_but {i} (push_revision uuid now i t c (change_row i f s))"
      using change_row_mirrored [of "{}" s i f] assms(1) by (simp add: push_revision_ok(2) store_ok_def)
    from sync_links_ok [OF t assms(2) this, of now i] show ?thesis by (simp add: store_ok_def)
  qed
  note moved = this [OF refl]
  show ?thesis
  proof (cases "find (\<lambda>r. rv_id r = rid) (ms_revisions s)")
    case None
    then show ?thesis using assms(1) by (simp add: restore_memory_def)
  next
    case (Some r)
    then have "r \<in> set (ms_revisions s)" by (auto simp: find_Some_iff)
    from moved [OF this, of "rv_title r" "rv_content r"] show ?thesis
      using assms(1) Some by (simp add: restore_memory_def Let_def)
  qed
qed

lemma touched_links_ok:
  assumes "tables_ok uuid s" "map ml_id L = map ml_id (ms_links s)" "map ml_source L = map ml_source (ms_links s)"
    "map ml_target L = map ml_target (ms_links s)"
  shows "tables_ok uuid (s\<lparr>ms_links := L\<rparr>)"
proof -
  have i: "ml_id ` set L = ml_id ` set (ms_links s)" "ml_source ` set L = ml_source ` set (ms_links s)"
    "ml_target ` set L = ml_target ` set (ms_links s)"
    using assms(2-4) by (metis list.set_map)+
  have "row s (ml_source l) \<noteq> None" "row s (ml_target l) \<noteq> None" if "l \<in> set L" for l
    using that assms(1) i(2,3) by (metis image_iff tables_ok_def)+
  then show ?thesis
    unfolding tables_ok_def by (intro conjI) (use assms(1,2) i(1) in \<open>simp_all add: tables_ok_def drawn_def\<close>)
qed

lemma filter_fields:
  "map ml_source L = map ml_source M \<Longrightarrow> map ml_target L = map ml_target M \<Longrightarrow> map ml_kind L = map ml_kind M \<Longrightarrow>
    map ml_source (filter (\<lambda>l. ml_target l = j \<and> ml_kind l = kd) L) =
    map ml_source (filter (\<lambda>l. ml_target l = j \<and> ml_kind l = kd) M)"
  by (induction L M rule: list_induct2') auto

lemma edges_cong:
  assumes "map ml_source L = map ml_source (ms_links s)" "map ml_target L = map ml_target (ms_links s)"
    "map ml_kind L = map ml_kind (ms_links s)"
  shows "edges (s\<lparr>ms_links := L\<rparr>) k j = edges s k j"
  using filter_fields [OF assms] by (simp add: edges_def)

text \<open>Counting on links, without moving them, keeps the mirror.\<close>

lemma touched_ok:
  assumes "store_ok uuid s" "map ml_id L = map ml_id (ms_links s)" "map ml_source L = map ml_source (ms_links s)"
    "map ml_target L = map ml_target (ms_links s)" "map ml_kind L = map ml_kind (ms_links s)"
  shows "store_ok uuid (s\<lparr>ms_links := L\<rparr>)"
proof -
  have "wanted (s\<lparr>ms_links := L\<rparr>) k j m = wanted s k j m" for k j m
    by (auto simp: wanted_def split: option.split)
  moreover have "tables_ok uuid (s\<lparr>ms_links := L\<rparr>)"
    by (rule touched_links_ok) (use assms in \<open>simp_all add: store_ok_def\<close>)
  ultimately show ?thesis
    using assms(1) edges_cong [OF assms(3-5)] by (simp add: store_ok_def mirrored_but_def)
qed

lemma bump_ok: "store_ok uuid s \<Longrightarrow> store_ok uuid (bump_link now i s)"
  unfolding bump_link_def by (rule touched_ok) simp_all

lemma upsert_ok:
  assumes "store_ok uuid s" "inj uuid" "\<not> one_of kind [''supersedes'', ''contradicts'']" "row s a \<noteq> None" "row s b \<noteq> None"
  shows "store_ok uuid (snd (upsert_link uuid now a b kind inc s))"
proof -
  have nk: "kind \<noteq> mirror_kind k" for k using assms(3) by (cases k) simp_all
  show ?thesis
  proof (cases "find (same_edge a b kind) (ms_links s)")
    case None
    let ?e = "\<lparr>ml_id = uuid (ms_drawn s), ml_source = a, ml_target = b, ml_kind = kind,
      ml_coactivations = (if inc then 1 else 0), ml_updated = now\<rparr>"
    have u: "snd (upsert_link uuid now a b kind inc s) = s\<lparr>ms_links := ms_links s @ [?e], ms_drawn := ms_drawn s + 1\<rparr>"
      using None by (simp add: upsert_link_def)
    have "tables_ok uuid (s\<lparr>ms_links := ms_links s @ [?e], ms_drawn := ms_drawn s + 1\<rparr>)"
      by (rule new_link_ok) (use assms in \<open>simp_all add: store_ok_def\<close>)
    moreover have "edges (s\<lparr>ms_links := ms_links s @ [?e], ms_drawn := ms_drawn s + 1\<rparr>) k j = edges s k j" for k j
      using nk by (simp add: edges_def)
    moreover have "wanted (s\<lparr>ms_links := ms_links s @ [?e], ms_drawn := ms_drawn s + 1\<rparr>) k j m = wanted s k j m" for k j m
      by (auto simp: wanted_def split: option.split)
    ultimately show ?thesis using assms(1) by (simp add: u store_ok_def mirrored_but_def)
  next
    case (Some e)
    let ?L = "map (\<lambda>l. if ml_id l = ml_id e
      then l\<lparr>ml_coactivations := ml_coactivations e + (if inc then 1 else 0), ml_updated := now\<rparr> else l) (ms_links s)"
    have "snd (upsert_link uuid now a b kind inc s) = s\<lparr>ms_links := ?L\<rparr>" using Some by (simp add: upsert_link_def)
    moreover have "store_ok uuid (s\<lparr>ms_links := ?L\<rparr>)" by (rule touched_ok [OF assms(1)]) simp_all
    ultimately show ?thesis by simp
  qed
qed

lemma link_ok: "store_ok uuid s \<Longrightarrow> inj uuid \<Longrightarrow> store_ok uuid (snd (link_memories uuid now a b kind s))"
  using upsert_ok [of uuid s kind a b now False] by (auto simp: link_memories_def split: prod.splits)

lemma detach_pointers: "row_pointers (detach i m) = row_pointers m - {i}"
  by (auto simp: row_pointers_def detach_def)

lemma detach_twice [simp]: "detach i (detach i m) = detach i m"
  by (simp add: detach_def)

lemma detach_fold:
  assumes "inj uuid" "store_ok uuid s"
  shows "store_ok uuid (fold (\<lambda>j s. sync_links uuid now j (change_row j (detach i) s)) js s) \<and>
    (\<forall>j. row (fold (\<lambda>j s. sync_links uuid now j (change_row j (detach i) s)) js s) j =
       (if j \<in> set js then map_option (detach i) (row s j) else row s j))"
  using assms(2)
proof (induction js arbitrary: s)
  case (Cons j js)
  have "store_ok uuid (sync_links uuid now j (change_row j (detach i) s))"
    by (rule store_ok_moved [OF Cons.prems assms(1)])
      (use drawn_pointers [OF Cons.prems, of j] in \<open>auto simp: detach_pointers\<close>)
  from Cons.IH [OF this] show ?case
    by (auto simp: option.map_comp comp_def)
qed simp

lemma remove_row_ok:
  assumes ok: "store_ok uuid s" and gone: "\<And>j m. row s j = Some m \<Longrightarrow> j \<noteq> i \<Longrightarrow> i \<notin> row_pointers m"
  shows "store_ok uuid (s\<lparr>ms_links := filter (\<lambda>l. ml_source l \<noteq> i \<and> ml_target l \<noteq> i) (ms_links s),
    ms_rows := AList.delete i (ms_rows s)\<rparr>)"
proof -
  let ?s = "s\<lparr>ms_links := filter (\<lambda>l. ml_source l \<noteq> i \<and> ml_target l \<noteq> i) (ms_links s), ms_rows := AList.delete i (ms_rows s)\<rparr>"
  have t: "tables_ok uuid s" and m: "mirrored_but {} s" using ok by (simp_all add: store_ok_def)
  have row: "row ?s j = (if j = i then None else row s j)" for j
    by (simp add: row_def delete_conv)
  have d: "drawn uuid ?s = drawn uuid s" by (simp add: drawn_def)
  have sub: "set (AList.delete i (ms_rows s)) \<subseteq> set (ms_rows s)" by (auto simp: AList.delete_eq)
  have "distinct (map fst (AList.delete i (ms_rows s)))"
    using t by (intro distinct_delete) (simp add: tables_ok_def)
  moreover have "fst ` set (AList.delete i (ms_rows s)) \<subseteq> drawn uuid s"
    using t sub by (auto simp: tables_ok_def)
  moreover have "\<forall>(j, m) \<in> set (AList.delete i (ms_rows s)). row_pointers m \<subseteq> drawn uuid s"
    using t sub unfolding tables_ok_def by blast
  ultimately have "tables_ok uuid ?s"
    unfolding tables_ok_def d
    by (intro conjI) (use t in \<open>auto simp: tables_ok_def row intro: distinct_map_filter\<close>)
  moreover have "edges ?s k j = wanted ?s k j m'" if "row ?s j = Some m'" for k j m'
  proof -
    have j: "j \<noteq> i" "row s j = Some m'" using that by (auto simp: row split: if_splits)
    have "edges ?s k j = filter (\<lambda>x. x \<noteq> i) (edges s k j)"
      unfolding edges_def filter_map by (simp add: comp_def) (rule arg_cong [where f = "map ml_source"], rule filter_cong, use j(1) in auto)
    also have "edges s k j = wanted s k j m'" using m j(2) by (simp add: mirrored_but_def)
    also have "filter (\<lambda>x. x \<noteq> i) (wanted s k j m') = wanted ?s k j m'"
    proof (cases "mirrored_source k j m'")
      case (Some p)
      then have "p \<in> row_pointers m'"
        by (cases k) (auto simp: mirrored_source_def row_pointers_def not_empty_def split: option.splits list.splits if_splits)
      then have "p \<noteq> i" using gone [OF j(2,1)] by blast
      then show ?thesis using Some by (simp add: wanted_def row)
    qed (simp add: wanted_def)
    finally show ?thesis .
  qed
  ultimately show ?thesis by (simp add: store_ok_def mirrored_but_def)
qed

lemma delete_ok:
  assumes "store_ok uuid s" "inj uuid"
  shows "store_ok uuid (delete_memory uuid now i s)"
proof -
  define js where "js = map fst (filter (\<lambda>(j, m). points_at i m \<and> j \<noteq> i) (ms_rows s))"
  define s1 where "s1 = fold (\<lambda>j s. sync_links uuid now j (change_row j (detach i) s)) js s"
  have 1: "store_ok uuid s1" "row s1 j = (if j \<in> set js then map_option (detach i) (row s j) else row s j)" for j
    using detach_fold [OF assms(2,1), of now i js] by (simp_all add: s1_def)
  have "i \<notin> row_pointers m" if j: "row s1 j = Some m" "j \<noteq> i" for j m
  proof (cases "j \<in> set js")
    case True
    then show ?thesis using j(1) by (auto simp: 1(2) detach_pointers)
  next
    case False
    then have "row s j = Some m" using j(1) by (simp add: 1(2))
    then have "(j, m) \<in> set (ms_rows s)" by (simp only: row_def map_of_SomeD)
    then have "\<not> points_at i m" using False j(2) by (force simp: js_def)
    then show ?thesis by (auto simp: points_at_def row_pointers_def)
  qed
  from remove_row_ok [OF 1(1) this] show ?thesis
    by (simp add: delete_memory_def Let_def js_def [symmetric] s1_def [symmetric])
qed

section \<open>Reachable stores\<close>

inductive store_step :: "(nat \<Rightarrow> ustr) \<Rightarrow> memory_store \<Rightarrow> memory_store \<Rightarrow> bool" for uuid where
  Create: "store_step uuid s (snd (create_with_lifecycle uuid now title content role scope kind task lifecycle s))"
| Update: "store_step uuid s (snd (update_memory uuid now i title content s))"
| Supersede: "store_step uuid s (snd (supersede uuid now old new_id s))"
| Dispute: "store_step uuid s (snd (dispute uuid now i other s))"
| Resolve: "store_step uuid s (snd (resolve_conflict uuid now i resolution prefer_id s))"
| Pin: "store_step uuid s (snd (set_pinned i b s))"
| Decay: "store_step uuid s (snd (decay stamp verdict s))"
| Verify: "store_step uuid s (snd (verify now i v s))"
| Reinforce: "store_step uuid s (reinforce now stamp i s)"
| Restore: "store_step uuid s (snd (restore_memory uuid now i rid s))"
| Delete: "store_step uuid s (delete_memory uuid now i s)"
| Link: "store_step uuid s (snd (link_memories uuid now a b kind s))"
| Relate: "\<not> one_of kind [''supersedes'', ''contradicts''] \<Longrightarrow> row s a \<noteq> None \<Longrightarrow> row s b \<noteq> None \<Longrightarrow>
    store_step uuid s (snd (upsert_link uuid now a b kind increment s))"
| Coactivate: "store_step uuid s (bump_link now i s)"
| Log: "store_step uuid s (log_action_event run n action i related reason s)"

definition empty_store :: memory_store where
  "empty_store = \<lparr>ms_rows = [], ms_links = [], ms_revisions = [], ms_events = [], ms_drawn = 0\<rparr>"

inductive reachable_store :: "(nat \<Rightarrow> ustr) \<Rightarrow> memory_store \<Rightarrow> bool" for uuid where
  Start: "reachable_store uuid empty_store"
| Step: "reachable_store uuid s \<Longrightarrow> store_step uuid s s' \<Longrightarrow> reachable_store uuid s'"

lemma store_step_ok: "store_step uuid s s' \<Longrightarrow> inj uuid \<Longrightarrow> store_ok uuid s \<Longrightarrow> store_ok uuid s'"
  by (induction rule: store_step.induct)
    (simp_all add: create_ok update_ok supersede_ok dispute_ok resolve_conflict_ok set_pinned_ok decay_ok verify_ok reinforce_ok
      restore_ok delete_ok link_ok upsert_ok bump_ok)

lemma empty_store_ok: "store_ok uuid empty_store"
  by (simp add: store_ok_def tables_ok_def mirrored_but_def empty_store_def row_def)

lemma reachable_ok: "reachable_store uuid s \<Longrightarrow> inj uuid \<Longrightarrow> store_ok uuid s"
  by (induction rule: reachable_store.induct) (auto intro: store_step_ok empty_store_ok)

text \<open>
  C10 (invariant). In every store the operations can reach, the links mirror the pointers: a row is the
  target of a \<open>supersedes\<close> link exactly when its \<open>superseded\_by\_id\<close> names another row that exists, the
  link comes from that row and is the only one of its kind, and the same holds for \<open>contradicts\<close> and
  \<open>disputed\_by\_id\<close>; no link has an end that is gone.
\<close>

theorem links_mirror_pointers:
  assumes "reachable_store uuid s" "inj uuid" "row s i = Some m"
  shows "edges s k i = wanted s k i m \<and>
    (\<forall>l \<in> set (ms_links s). row s (ml_source l) \<noteq> None \<and> row s (ml_target l) \<noteq> None)"
  using reachable_ok [OF assms(1,2)] assms(3) by (simp add: store_ok_def mirrored_but_def tables_ok_def)

section \<open>Restoring\<close>

lemma jget_jput [simp]:
  "jget (jput j k v) k' = (if k' = k then Some v else if is_object_data j then jget j k' else None)"
  by (cases j) (auto simp: update_conv)

lemma jget_jdrop [simp]: "jget (jdrop j k) k' = (if k' = k then None else jget j k')"
  by (cases j) (auto simp: delete_conv)

lemma is_object_simps [simp]: "is_object_data (jput j k v)" "is_object_data (jdrop j k) = is_object_data j"
  by (cases j; simp)+

lemma restored_fields:
  assumes "rv_state r = Some st"
  shows "text_at (restored_data d r) ''title'' [] = rv_title r" "text_at (restored_data d r) ''content'' [] = rv_content r"
    "is_pinned (restored_data d r) = rs_pinned st"
  using assms by (simp_all add: restored_data_def Let_def text_at_def is_pinned_def)

text \<open>
  C33 (roundtrip). A retired memory comes back whole: restoring the revision that \<open>supersede\<close> wrote
  gives the row its title, content, lifecycle, held flag and pointers back, its links are again
  those it had before, and every other row is as the retirement left it, which is as it was.
\<close>

theorem supersede_restored:
  assumes "reachable_store uuid s" "inj uuid" "uuid (ms_drawn s) \<notin> rv_id ` set (ms_revisions s)"
    "row s old = Some m" "one_of (mr_lifecycle m) LIFECYCLE_STATES"
    "supersede uuid now old (Some new) s = (Inr (), s1)"
    "restore_memory uuid now' old (uuid (ms_drawn s)) s1 = (res, s2)"
  shows "case res of Inl _ \<Rightarrow> False
    | Inr m' \<Rightarrow> row s2 old = Some m' \<and> title_of m' = title_of m \<and> body_of m' = body_of m \<and> state_of m' = state_of m \<and>
        edges s2 k old = edges s k old \<and> (i \<noteq> old \<longrightarrow> row s2 i = row s i)"
proof -
  define t where "t = push_revision uuid now old (title_of m) (body_of m) s"
  define g where "g = (\<lambda>m :: memory_row. m\<lparr>mr_lifecycle := lit ''superseded'', mr_superseded_by := Some (trim new), mr_disputed_by := None\<rparr>)"
  have s1: "s1 = log_action_event None 0 ''SUPERSEDE'' old (Some (trim new)) [] (sync_links uuid now old (change_row old g t))"
    using assms(4,6) by (auto simp: supersede_def Let_def t_def g_def not_empty_def split: if_splits list.splits)
  have keep: "ms_revisions (sync_kind uuid now j k s) = ms_revisions s" for j k s
    by (auto simp: sync_kind_def Let_def upsert_link_def split: option.split)
  define r where "r = \<lparr>rv_id = uuid (ms_drawn s), rv_memory = old, rv_title = title_of m, rv_content = body_of m,
    rv_state = Some (state_of m), rv_created = now\<rparr>"
  have "ms_revisions s1 = ms_revisions s @ [r]"
    using assms(4) by (simp add: s1 sync_links_def keep t_def push_revision_def r_def)
  moreover have "find (\<lambda>r. rv_id r = uuid (ms_drawn s)) (ms_revisions s) = None"
    using assms(3) by (force simp: find_None_iff)
  moreover have "find P (xs @ [x]) = (if P x then Some x else None)" if "find P xs = None" for P :: "revision \<Rightarrow> bool" and xs x
    using that by (induction xs) (auto split: if_splits)
  ultimately have f: "find (\<lambda>r. rv_id r = uuid (ms_drawn s)) (ms_revisions s1) = Some r" by (simp add: r_def)
  have row1: "row s1 j = (if j = old then Some (g m) else row s j)" for j
    using assms(4) by (simp add: s1 t_def)
  define h where "h = (\<lambda>m :: memory_row. restored_columns r (m\<lparr>mr_data := restored_data (mr_data m) r, mr_updated := now'\<rparr>))"
  have r2: "rv_memory r = old" by (simp add: r_def)
  have "(res, s2) = (Inr (h (g m)), sync_links uuid now' old (push_revision uuid now' old (rv_title r) (rv_content r) (change_row old h s1)))"
    using assms(7) by (simp add: restore_memory_def f r2 row1 Let_def h_def)
  then have res: "res = Inr (h (g m))" and row2: "row s2 j = (if j = old then Some (h (g m)) else row s j)" for j
    using row1 by auto
  have "title_of (h (g m)) = title_of m \<and> body_of (h (g m)) = body_of m \<and> state_of (h (g m)) = state_of m"
    using restored_fields [of r "state_of m" "mr_data m"] assms(5)
    by (auto simp: h_def g_def r_def restored_columns_def title_of_def body_of_def state_of_def not_empty_def
        split: option.split list.split)
  moreover have "edges s2 k old = edges s k old"
  proof -
    have "reachable_store uuid s1"
      using reachable_store.Step [OF assms(1) store_step.Supersede [of uuid s now old "Some new"]] assms(6) by simp
    then have "reachable_store uuid s2"
      using reachable_store.Step [OF _ store_step.Restore [of uuid s1 now' old "uuid (ms_drawn s)"]] assms(7) by simp
    from reachable_ok [OF this assms(2)] reachable_ok [OF assms(1,2)]
    have e: "edges s2 k old = wanted s2 k old (h (g m))" "edges s k old = wanted s k old m"
      using row2 [of old] assms(4) by (simp_all add: store_ok_def mirrored_but_def)
    have "not_empty (pointer k (h (g m))) = not_empty (pointer k m)"
      using \<open>title_of (h (g m)) = title_of m \<and> body_of (h (g m)) = body_of m \<and> state_of (h (g m)) = state_of m\<close>
      by (cases k) (simp_all add: state_of_def)
    moreover have "row s2 p = None \<longleftrightarrow> row s p = None" for p using row2 assms(4) by auto
    ultimately show ?thesis unfolding e by (simp add: wanted_def mirrored_source_def split: option.split)
  qed
  ultimately show ?thesis using res row2 by simp
qed

section \<open>A small store\<close>

definition demo_uuid :: "nat \<Rightarrow> ustr" where
  "demo_uuid n = replicate (Suc n) 97"

lemma demo_uuid_inj: "inj demo_uuid"
  by (rule injI) (metis Suc_inject demo_uuid_def length_replicate)

definition with_row :: "string \<Rightarrow> memory_store \<Rightarrow> memory_store" where
  "with_row content s = snd (create_with_lifecycle demo_uuid 0 (lit ''t'') (lit content) (lit ''fact'') (lit ''user'')
     (lit ''user'') None (lit ''established'') s)"

text \<open>Two rows, \<open>a\<close> and \<open>aaa\<close>, with their first revisions \<open>aa\<close> and \<open>aaaa\<close>.\<close>

definition two_rows :: memory_store where
  "two_rows = with_row ''new'' (with_row ''old'' empty_store)"

definition retired :: memory_store where
  "retired = snd (supersede demo_uuid 1 (lit ''a'') (Some (lit ''aaa'')) two_rows)"

lemma demo_reachable: "reachable_store demo_uuid two_rows" "reachable_store demo_uuid retired"
proof -
  have c: "reachable_store demo_uuid s \<Longrightarrow> reachable_store demo_uuid (with_row c s)" for c s
    unfolding with_row_def by (rule reachable_store.Step [OF _ store_step.Create])
  show 1: "reachable_store demo_uuid two_rows"
    unfolding two_rows_def by (intro c reachable_store.Start)
  then show "reachable_store demo_uuid retired"
    unfolding retired_def by (rule reachable_store.Step [OF _ store_step.Supersede])
qed

theorem links_mirror_pointers_witness:
  "case row retired (lit ''a'') of None \<Rightarrow> False
   | Some m \<Rightarrow> mr_superseded_by m = Some (lit ''aaa'') \<and> edges retired Supersedes (lit ''a'') = [lit ''aaa'']"
proof -
  obtain m where m: "row retired (lit ''a'') = Some m" "mr_superseded_by m = Some (lit ''aaa'')"
    "wanted retired Supersedes (lit ''a'') m = [lit ''aaa'']"
  proof -
    have "(case row retired (lit ''a'') of None \<Rightarrow> False | Some m \<Rightarrow> mr_superseded_by m = Some (lit ''aaa'') \<and>
        wanted retired Supersedes (lit ''a'') m = [lit ''aaa''])"
      by code_simp
    then show thesis using that by (auto split: option.splits)
  qed
  then show ?thesis
    using links_mirror_pointers [OF demo_reachable(2) demo_uuid_inj m(1), of Supersedes] by simp
qed

theorem supersede_restored_witness:
  "case restore_memory demo_uuid 2 (lit ''a'') (demo_uuid (ms_drawn two_rows)) retired of
     (Inr m', s2) \<Rightarrow> body_of m' = lit ''old'' \<and> edges s2 Supersedes (lit ''a'') = edges two_rows Supersedes (lit ''a'')
   | (Inl _, _) \<Rightarrow> False"
proof -
  obtain m where m: "row two_rows (lit ''a'') = Some m" "one_of (mr_lifecycle m) LIFECYCLE_STATES" "body_of m = lit ''old''"
  proof -
    have "(case row two_rows (lit ''a'') of None \<Rightarrow> False
        | Some m \<Rightarrow> one_of (mr_lifecycle m) LIFECYCLE_STATES \<and> body_of m = lit ''old'')"
      by code_simp
    then show thesis using that by (auto split: option.splits)
  qed
  have f: "list_all (\<lambda>r. rv_id r \<noteq> demo_uuid (ms_drawn two_rows)) (ms_revisions two_rows)" by code_simp
  have "fst (supersede demo_uuid 1 (lit ''a'') (Some (lit ''aaa'')) two_rows) = Inr ()" by code_simp
  then have "supersede demo_uuid 1 (lit ''a'') (Some (lit ''aaa'')) two_rows = (Inr (), retired)"
    by (simp add: retired_def prod_eq_iff)
  moreover obtain res s2 where r: "restore_memory demo_uuid 2 (lit ''a'') (demo_uuid (ms_drawn two_rows)) retired = (res, s2)"
    by fastforce
  moreover have "demo_uuid (ms_drawn two_rows) \<notin> rv_id ` set (ms_revisions two_rows)"
    using f by (auto simp: list_all_iff)
  ultimately show ?thesis
    using supersede_restored [OF demo_reachable(1) demo_uuid_inj _ m(1,2), of 1 "lit ''aaa''" retired 2 res s2 Supersedes] m(3)
    by (auto split: sum.splits)
qed

section \<open>Where the store falls short of its rules\<close>

text \<open>
  A verdict \<open>verified\<close> makes a retired row active again and leaves its pointer: recall returns a memory
  that the pointer says was replaced.
\<close>

lemma verify_revives_superseded:
  assumes "row s i = Some m" "mr_superseded_by m = Some p"
  shows "case row (snd (verify now i (lit ''verified'') s)) i of None \<Rightarrow> False
    | Some m' \<Rightarrow> mr_superseded_by m' = Some p \<and> is_retrievable (mr_lifecycle m') (mr_data m')"
  using assms by (simp add: verify_def VERIFICATION_STATES_def is_retrievable_def RETRIEVABLE_LIFECYCLES_def)

text \<open>An edit records the text it replaces, but a restore records the text it writes: the latest text is lost.\<close>

definition edited_then_restored :: memory_store where
  "edited_then_restored =
     snd (restore_memory demo_uuid 2 (lit ''a'') (lit ''aa'')
       (snd (update_memory demo_uuid 1 (lit ''a'') (lit ''t'') (lit ''second'') (with_row ''first'' empty_store))))"

lemma restore_loses_latest_text:
  "list_all (\<lambda>(i, m). body_of m \<noteq> lit ''second'') (ms_rows edited_then_restored) \<and>
   list_all (\<lambda>r. rv_content r \<noteq> lit ''second'') (ms_revisions edited_then_restored)"
  by code_simp

text \<open>A restore can name a row that was deleted since.\<close>

definition restored_after_delete :: memory_store where
  "restored_after_delete =
     (let s = snd (dispute demo_uuid 2 (lit ''a'') (lit ''aaa'') two_rows);
          s = snd (update_memory demo_uuid 3 (lit ''a'') (lit ''t'') (lit ''x'') s);
          s = delete_memory demo_uuid 4 (lit ''aaa'') s
      in snd (restore_memory demo_uuid 5 (lit ''a'') (rv_id (last (ms_revisions s))) s))"

lemma restore_names_deleted_row:
  "case row restored_after_delete (lit ''a'') of None \<Rightarrow> False
   | Some m \<Rightarrow> mr_disputed_by m = Some (lit ''aaa'') \<and> row restored_after_delete (lit ''aaa'') = None"
  by code_simp

text \<open>A row without the flag is not \<open>NOT pinned\<close> in SQL, so it never decays.\<close>

lemma unflagged_never_decays: "is_object_data (mr_data m) \<Longrightarrow> jget (mr_data m) ''pinned'' = None \<Longrightarrow> \<not> decay_candidate m"
  by (simp add: decay_candidate_def pinned_predicate_def)

end
