(* ===== verification/Memory_Recall.thy ===== *)
theory Memory_Recall
  imports Complex_Main Memory_Store Retrieval "HOL-Library.Product_Lexorder" "HOL-Library.Sublist" "HOL-Library.Multiset"
begin

text \<open>
  A recall (\<open>core/src/retrieval.rs\<close>: \<open>score\_rows\<close>, \<open>retrieve\_with\<close>, \<open>suggest\_targets\<close>,
  \<open>retrieve\_knowledge\_with\<close>, \<open>retrieve\_all\<close>) and the links it makes and follows
  (\<open>core/src/memory\_links.rs\<close>: \<open>coactivate\<close>, \<open>expand\_links\<close>, \<open>suggest\_links\<close>). The floats are a linear
  order \<open>'f\<close> with the operations of \<open>scoring\<close>; the full-text index is a function from the match
  expression to the ids it finds, best first.
\<close>

section \<open>Scores\<close>

definition RESULT_LIMIT_MAX :: nat where "RESULT_LIMIT_MAX = 30"
definition RESULT_LIMIT_DEFAULT :: nat where "RESULT_LIMIT_DEFAULT = 8"
definition DEFAULT_MEMORY_LIMIT :: nat where "DEFAULT_MEMORY_LIMIT = RESULT_LIMIT_DEFAULT"
definition DEFAULT_KNOWLEDGE_LIMIT :: nat where "DEFAULT_KNOWLEDGE_LIMIT = 6"
definition MAX_CHUNKS_PER_DOC :: nat where "MAX_CHUNKS_PER_DOC = 2"
definition LINK_DEGREE_LIMIT :: nat where "LINK_DEGREE_LIMIT = 5"
definition LINK_EXPANSION_LIMIT :: nat where "LINK_EXPANSION_LIMIT = 8"
definition LINK_SUGGEST_LIMIT :: nat where "LINK_SUGGEST_LIMIT = 3"

record 'f scoring =
  sc_lower :: "ustr \<Rightarrow> ustr"
  sc_ratio :: "nat \<times> nat \<Rightarrow> 'f"
  sc_vector :: "json \<Rightarrow> 'f option"
  sc_rank :: "'f \<Rightarrow> nat \<Rightarrow> 'f option \<Rightarrow> 'f"
  sc_zero :: 'f
  sc_min :: 'f
  sc_weight :: "memory_link \<Rightarrow> 'f"
  sc_scale :: "'f \<Rightarrow> 'f \<Rightarrow> 'f"

record 'f ranked_hit = memory_hit +
  rh_id :: ustr
  rh_scope :: ustr
  rh_score :: 'f
  rh_linked :: bool

text \<open>The weighted sum, in exact arithmetic.\<close>

definition rank_score :: "rat \<Rightarrow> rat \<Rightarrow> rat option \<Rightarrow> rat" where
  "rank_score lexical recency vector =
     (case vector of
        Some v \<Rightarrow> 55 / 100 * lexical + 3 / 10 * v + 15 / 100 * recency
      | None \<Rightarrow> 85 / 100 * lexical + 15 / 100 * recency)"

definition MIN_SCORE :: rat where "MIN_SCORE = 1 / 10"

text \<open>A stable sort, best first, as \<open>sort\_by\<close> with the operands swapped.\<close>

definition sort_best :: "('a \<Rightarrow> 'k::linorder) \<Rightarrow> 'a list \<Rightarrow> 'a list" where
  "sort_best f xs = rev (sort_key f (rev xs))"

section \<open>Scoring the rows\<close>

text \<open>The terms of a query with a match expression, which is declined when a term is too short.\<close>

definition quoted :: "ustr \<Rightarrow> ustr" where
  "quoted term = [34] @ str_replace [34] [34, 34] term @ [34]"

definition ranking_fts_match_query :: "(ustr \<Rightarrow> ustr) \<Rightarrow> ustr \<Rightarrow> ustr option" where
  "ranking_fts_match_query lower query =
     (let terms = tokenize lower query
      in if terms = [] \<or> list_ex (\<lambda>t. length t < 3) terms then None
         else Some (str_join (lit '' OR '') (map quoted terms)))"

text \<open>The predicate of the query: SQL's unknown does not select a row.\<close>

definition retrievable_predicate :: "memory_row \<Rightarrow> bool" where
  "retrievable_predicate m \<longleftrightarrow> one_of (mr_lifecycle m) RETRIEVABLE_LIFECYCLES \<or> pinned_predicate (mr_data m) = Some True"

definition score_memory_row ::
  "'f::linorder scoring \<Rightarrow> ustr list \<Rightarrow> ustr option \<Rightarrow> ustr \<times> memory_row \<Rightarrow> ('f ranked_hit \<times> nat) option" where
  "score_memory_row sc terms exclude entry =
     (case entry of (i, m) \<Rightarrow>
       if exclude = Some i then None
       else case (Option.bind (jget (mr_data m) ''title'') as_str, Option.bind (jget (mr_data m) ''content'') as_str) of
         (Some title, Some content) \<Rightarrow>
           let lexical = sc_ratio sc (score_parts (sc_lower sc) terms title content);
               vector = sc_vector sc (mr_data m);
               score = sc_rank sc lexical (mr_updated m) vector
           in if lexical \<le> sc_zero sc \<and> vector = None then None
              else if score < sc_min sc then None
              else Some (\<lparr>mh_title = title, mh_content = content, mh_role = mr_role m, rh_id = i, rh_scope = mr_scope m,
                  rh_score = score, rh_linked = False\<rparr>, mr_updated m)
       | _ \<Rightarrow> None)"

definition found_row :: "memory_store \<Rightarrow> ustr option \<Rightarrow> ustr \<Rightarrow> (ustr \<times> memory_row) option" where
  "found_row s exclude i =
     (case row s i of
        Some m \<Rightarrow> if exclude \<noteq> Some i \<and> retrievable_predicate m then Some (i, m) else None
      | None \<Rightarrow> None)"

definition score_rows ::
  "'f::linorder scoring \<Rightarrow> (ustr \<Rightarrow> ustr list) \<Rightarrow> ustr list \<Rightarrow> ustr option \<Rightarrow> ustr option \<Rightarrow> memory_store \<Rightarrow>
     ('f ranked_hit \<times> nat) list" where
  "score_rows sc index terms exclude fts s =
     (let narrowed = (case fts of
            Some q \<Rightarrow> List.map_filter (score_memory_row sc terms exclude)
              (take 2000 (List.map_filter (found_row s exclude) (index q)))
          | None \<Rightarrow> []);
          scored = (if narrowed = []
            then List.map_filter (score_memory_row sc terms exclude) (filter (\<lambda>(i, m). retrievable_predicate m) (ms_rows s))
            else narrowed)
      in sort_best (\<lambda>(h, updated). (rh_score h, updated)) scored)"

section \<open>Links made by a recall\<close>

definition joins :: "ustr \<Rightarrow> ustr \<Rightarrow> memory_link \<Rightarrow> bool" where
  "joins a b l \<longleftrightarrow> ml_kind l = lit ''relates_to'' \<and>
     ((ml_source l = a \<and> ml_target l = b) \<or> (ml_source l = b \<and> ml_target l = a))"

text \<open>The foreign keys refuse a link to a row that is gone; the transaction then keeps nothing.\<close>

definition coactivate_pair ::
  "(nat \<Rightarrow> ustr) \<Rightarrow> nat \<Rightarrow> ustr \<times> ustr \<Rightarrow> memory_store \<Rightarrow> (nat \<times> memory_store) option" where
  "coactivate_pair uuid now p s =
     (case p of (a, b) \<Rightarrow>
       case find (joins a b) (ms_links s) of
         Some e \<Rightarrow> Some (0, bump_link now (ml_id e) s)
       | None \<Rightarrow>
           if row s a = None \<or> row s b = None then None
           else case upsert_link uuid now a b (lit ''relates_to'') True s of
             ((i, new), s') \<Rightarrow> Some (if new then 1 else 0, s'))"

fun pairs_in_order :: "'a list \<Rightarrow> ('a \<times> 'a) list" where
  "pairs_in_order [] = []"
| "pairs_in_order (x # xs) = map (Pair x) xs @ pairs_in_order xs"

fun coactivate_pairs ::
  "(nat \<Rightarrow> ustr) \<Rightarrow> nat \<Rightarrow> (ustr \<times> ustr) list \<Rightarrow> nat \<Rightarrow> memory_store \<Rightarrow> (nat \<times> memory_store) option" where
  "coactivate_pairs uuid now [] n s = Some (n, s)"
| "coactivate_pairs uuid now (p # ps) n s =
     (case coactivate_pair uuid now p s of
        None \<Rightarrow> None
      | Some (k, s') \<Rightarrow> coactivate_pairs uuid now ps (n + k) s')"

definition coactivate :: "(nat \<Rightarrow> ustr) \<Rightarrow> nat \<Rightarrow> ustr list \<Rightarrow> memory_store \<Rightarrow> nat option \<times> memory_store" where
  "coactivate uuid now ids s =
     (case coactivate_pairs uuid now (pairs_in_order ids) 0 s of
        None \<Rightarrow> (None, s)
      | Some (n, s') \<Rightarrow> (Some n, s'))"

section \<open>One hop along the links\<close>

text \<open>\<open>wk\_reached\<close> is in first-seen order; its ids are the set \<open>seen\<close> of the code.\<close>

record walk =
  wk_reached :: "(ustr \<times> ustr \<times> memory_link) list"
  wk_degree :: "(ustr \<times> nat) list"
  wk_truncated :: bool

definition degree_of :: "walk \<Rightarrow> ustr \<Rightarrow> nat" where
  "degree_of w seed = (case map_of (wk_degree w) seed of Some n \<Rightarrow> n | None \<Rightarrow> 0)"

text \<open>The seed an edge is followed from, and the row at its other end.\<close>

definition ends_from :: "ustr list \<Rightarrow> memory_link \<Rightarrow> ustr \<times> ustr" where
  "ends_from seeds l = (if ml_source l \<in> set seeds then (ml_source l, ml_target l) else (ml_target l, ml_source l))"

definition walk_edge :: "ustr list \<Rightarrow> memory_link \<Rightarrow> walk \<Rightarrow> walk" where
  "walk_edge seeds l w =
     (case ends_from seeds l of (seed, other) \<Rightarrow>
       if other \<in> set seeds then w
       else if degree_of w seed \<ge> LINK_DEGREE_LIMIT then w\<lparr>wk_truncated := True\<rparr>
       else
         let w = w\<lparr>wk_degree := AList.update seed (degree_of w seed + 1) (wk_degree w)\<rparr>
         in if other \<in> fst ` set (wk_reached w) then w
            else w\<lparr>wk_reached := wk_reached w @ [(other, seed, l)]\<rparr>)"

record 'f expansion =
  ex_added :: "'f ranked_hit list"
  ex_edges :: "(ustr \<times> ustr \<times> memory_link) list"
  ex_cutoff :: "string option"

definition linked_hit :: "'f scoring \<Rightarrow> (ustr \<Rightarrow> 'f) \<Rightarrow> memory_row \<Rightarrow> ustr \<times> ustr \<times> memory_link \<Rightarrow> 'f ranked_hit" where
  "linked_hit sc score_of m r =
     (case r of (other, seed, l) \<Rightarrow>
       \<lparr>mh_title = title_of m, mh_content = body_of m, mh_role = mr_role m, rh_id = other, rh_scope = mr_scope m,
        rh_score = sc_scale sc (score_of seed) (sc_weight sc l), rh_linked = True\<rparr>)"

fun append_reached ::
  "'f scoring \<Rightarrow> (ustr \<Rightarrow> 'f) \<Rightarrow> memory_store \<Rightarrow> (ustr \<times> ustr \<times> memory_link) list \<Rightarrow> 'f expansion \<Rightarrow> 'f expansion" where
  "append_reached sc score_of s [] e = e"
| "append_reached sc score_of s (r # rs) e =
     (if length (ex_added e) \<ge> LINK_EXPANSION_LIMIT then e\<lparr>ex_cutoff := Some ''expansion_limit''\<rparr>
      else case row s (fst r) of
        None \<Rightarrow> append_reached sc score_of s rs e
      | Some m \<Rightarrow>
          if \<not> is_retrievable (mr_lifecycle m) (mr_data m) then append_reached sc score_of s rs e
          else append_reached sc score_of s rs
            (e\<lparr>ex_added := ex_added e @ [linked_hit sc score_of m r], ex_edges := ex_edges e @ [r]\<rparr>))"

definition touching :: "'f::linorder scoring \<Rightarrow> ustr list \<Rightarrow> memory_store \<Rightarrow> memory_link list" where
  "touching sc seeds s =
     sort_best (\<lambda>l. (sc_weight sc l, ml_coactivations l, ml_updated l))
       (filter (\<lambda>l. ml_source l \<in> set seeds \<or> ml_target l \<in> set seeds) (ms_links s))"

definition expand_links :: "'f::linorder scoring \<Rightarrow> 'f ranked_hit list \<Rightarrow> memory_store \<Rightarrow> 'f expansion" where
  "expand_links sc seeds s =
     (if seeds = [] then \<lparr>ex_added = [], ex_edges = [], ex_cutoff = None\<rparr>
      else
        let ids = map rh_id seeds;
            score_of = (\<lambda>i. case map_of (rev (map (\<lambda>h. (rh_id h, rh_score h)) seeds)) i of Some x \<Rightarrow> x | None \<Rightarrow> sc_zero sc);
            w = fold (walk_edge ids) (touching sc ids s) \<lparr>wk_reached = [], wk_degree = [], wk_truncated = False\<rparr>;
            e = append_reached sc score_of s (wk_reached w) \<lparr>ex_added = [], ex_edges = [], ex_cutoff = None\<rparr>
        in if ex_cutoff e = None \<and> wk_truncated w then e\<lparr>ex_cutoff := Some ''degree_limit''\<rparr> else e)"

section \<open>Recalls\<close>

record 'f retrieved =
  rt_hits :: "'f ranked_hit list"
  rt_seeds :: "ustr list"
  rt_stop :: string
  rt_edges :: "(ustr \<times> ustr \<times> memory_link) list"
  rt_cutoff :: "string option"

definition retrieve_with ::
  "'f::linorder scoring \<Rightarrow> (ustr \<Rightarrow> ustr list) \<Rightarrow> (nat \<Rightarrow> ustr) \<Rightarrow> nat \<Rightarrow> ustr \<Rightarrow> ustr list \<Rightarrow> ustr option \<Rightarrow> nat \<Rightarrow> bool \<Rightarrow>
     memory_store \<Rightarrow> 'f retrieved option \<times> memory_store" where
  "retrieve_with sc index uuid now stamp terms fts limit activate s =
     (let seeds = take (min limit RESULT_LIMIT_MAX) (map fst (score_rows sc index terms None fts s));
          ids = map rh_id seeds;
          (co, s) = (if activate then coactivate uuid now ids (fold (reinforce now stamp) ids s) else (Some 0, s))
      in case co of
           None \<Rightarrow> (None, s)
         | Some _ \<Rightarrow>
             let e = expand_links sc seeds s
             in (Some \<lparr>rt_hits = seeds @ ex_added e, rt_seeds = ids,
                   rt_stop = (if ex_edges e = [] then ''flat'' else ''depth''), rt_edges = ex_edges e,
                   rt_cutoff = ex_cutoff e\<rparr>, s))"

definition retrieve_memories ::
  "'f::linorder scoring \<Rightarrow> (ustr \<Rightarrow> ustr list) \<Rightarrow> (nat \<Rightarrow> ustr) \<Rightarrow> nat \<Rightarrow> ustr \<Rightarrow> ustr \<Rightarrow> nat \<Rightarrow> memory_store \<Rightarrow>
     'f ranked_hit list option \<times> memory_store" where
  "retrieve_memories sc index uuid now stamp query limit s =
     (case retrieve_with (sc\<lparr>sc_vector := \<lambda>_. None\<rparr>) index uuid now stamp (tokenize (sc_lower sc) query)
         (ranking_fts_match_query (sc_lower sc) query) limit True s of
        (r, s') \<Rightarrow> (map_option rt_hits r, s'))"

text \<open>The query is embedded only when it is not blank; \<open>embedded\<close> is what the source made of it.\<close>

definition retrieve_memories_hybrid ::
  "'f::linorder scoring \<Rightarrow> (ustr \<Rightarrow> ustr list) \<Rightarrow> (nat \<Rightarrow> ustr) \<Rightarrow> nat \<Rightarrow> ustr \<Rightarrow> ustr \<Rightarrow> nat \<Rightarrow> bool \<Rightarrow> memory_store \<Rightarrow>
     'f ranked_hit list option \<times> memory_store" where
  "retrieve_memories_hybrid sc index uuid now stamp query limit embedded s =
     (let sc' = (if embedded \<and> trim query \<noteq> [] then sc else sc\<lparr>sc_vector := \<lambda>_. None\<rparr>)
      in case retrieve_with sc' index uuid now stamp (tokenize (sc_lower sc) query)
           (ranking_fts_match_query (sc_lower sc) query) limit True s of
         (r, s') \<Rightarrow> (map_option rt_hits r, s'))"

definition suggest_targets :: "'f::linorder scoring \<Rightarrow> ustr list \<Rightarrow> ustr \<Rightarrow> nat \<Rightarrow> memory_store \<Rightarrow> 'f ranked_hit list" where
  "suggest_targets sc terms exclude limit s =
     take limit (map fst (score_rows (sc\<lparr>sc_vector := \<lambda>_. None\<rparr>) (\<lambda>_. []) terms (Some exclude) None s))"

text \<open>
  The links one memory proposes. The targets are read beside the transaction, from the rows as they
  were when it began; the rows do not change in it.
\<close>

fun suggest_from ::
  "(nat \<Rightarrow> ustr) \<Rightarrow> nat \<Rightarrow> ustr \<Rightarrow> ustr list \<Rightarrow> nat \<Rightarrow> memory_store \<Rightarrow> (nat \<times> memory_store) option" where
  "suggest_from uuid now i [] n s = Some (n, s)"
| "suggest_from uuid now i (t # ts) n s =
     (if row s i = None \<or> row s t = None then None
      else case upsert_link uuid now i t (lit ''relates_to'') False s of
        ((_, new), s') \<Rightarrow> suggest_from uuid now i ts (n + (if new then 1 else 0)) s')"

fun suggest_each ::
  "'f::linorder scoring \<Rightarrow> (nat \<Rightarrow> ustr) \<Rightarrow> nat \<Rightarrow> ustr list \<Rightarrow> nat \<Rightarrow> memory_store \<Rightarrow> (nat \<times> memory_store) option" where
  "suggest_each sc uuid now [] n s = Some (n, s)"
| "suggest_each sc uuid now (i # js) n s =
     (case row s i of
        None \<Rightarrow> suggest_each sc uuid now js n s
      | Some m \<Rightarrow>
          let terms = tokenize (sc_lower sc) (title_of m @ [32] @ body_of m)
          in if terms = [] then suggest_each sc uuid now js n s
             else case suggest_from uuid now i (map rh_id (suggest_targets sc terms i LINK_SUGGEST_LIMIT s)) n s of
               None \<Rightarrow> None
             | Some (n', s') \<Rightarrow> suggest_each sc uuid now js n' s')"

definition suggest_links ::
  "'f::linorder scoring \<Rightarrow> (nat \<Rightarrow> ustr) \<Rightarrow> nat \<Rightarrow> ustr list \<Rightarrow> memory_store \<Rightarrow> nat option \<times> memory_store" where
  "suggest_links sc uuid now ids s =
     (case suggest_each sc uuid now ids 0 s of
        None \<Rightarrow> (None, s)
      | Some (n, s') \<Rightarrow> (Some n, s'))"

section \<open>Sorting and walking\<close>

lemma sort_best_simps [simp]: "mset (sort_best f xs) = mset xs" "set (sort_best f xs) = set xs" "length (sort_best f xs) = length xs"
  by (simp_all add: sort_best_def)

lemma sort_best_sorted: "sorted_wrt (\<lambda>x y. f y \<le> f x) (sort_best f xs)"
  using sorted_sort_key [of f "rev xs"] by (simp add: sort_best_def sorted_wrt_rev sorted_map)

text \<open>What the walk knows after the links \<open>ls\<close>.\<close>

definition walked :: "ustr list \<Rightarrow> memory_link list \<Rightarrow> walk \<Rightarrow> bool" where
  "walked seeds ls w \<longleftrightarrow>
     distinct (map fst (wk_reached w)) \<and>
     (\<forall>(other, seed, l) \<in> set (wk_reached w). l \<in> set ls \<and> ends_from seeds l = (seed, other) \<and> other \<notin> set seeds) \<and>
     (\<forall>seed. length (filter (\<lambda>r. fst (snd r) = seed) (wk_reached w)) \<le> degree_of w seed \<and> degree_of w seed \<le> LINK_DEGREE_LIMIT) \<and>
     (\<not> wk_truncated w \<longrightarrow> (\<forall>l \<in> set ls. snd (ends_from seeds l) \<notin> set seeds \<longrightarrow>
        snd (ends_from seeds l) \<in> fst ` set (wk_reached w)))"

lemma degree_of_update [simp]:
  "degree_of (w\<lparr>wk_degree := AList.update seed n (wk_degree w)\<rparr>) x = (if x = seed then n else degree_of w x)"
  "degree_of (w\<lparr>wk_reached := rs\<rparr>) x = degree_of w x" "degree_of (w\<lparr>wk_truncated := b\<rparr>) x = degree_of w x"
  by (auto simp: degree_of_def update_conv)

lemma walked_edge:
  assumes "walked seeds ls w"
  shows "walked seeds (ls @ [l]) (walk_edge seeds l w)"
proof (cases "ends_from seeds l")
  case (Pair seed other)
  have old: "distinct (map fst (wk_reached w))"
    "\<forall>(other, seed, l') \<in> set (wk_reached w). l' \<in> set (ls @ [l]) \<and> ends_from seeds l' = (seed, other) \<and> other \<notin> set seeds"
    "\<forall>seed. length (filter (\<lambda>r. fst (snd r) = seed) (wk_reached w)) \<le> degree_of w seed \<and> degree_of w seed \<le> LINK_DEGREE_LIMIT"
    "\<not> wk_truncated w \<Longrightarrow> \<forall>l \<in> set ls. snd (ends_from seeds l) \<notin> set seeds \<longrightarrow> snd (ends_from seeds l) \<in> fst ` set (wk_reached w)"
    using assms by (auto simp: walked_def)
  consider (seed) "other \<in> set seeds" | (full) "other \<notin> set seeds" "degree_of w seed \<ge> LINK_DEGREE_LIMIT"
    | (again) "other \<notin> set seeds" "degree_of w seed < LINK_DEGREE_LIMIT" "other \<in> fst ` set (wk_reached w)"
    | (new) "other \<notin> set seeds" "degree_of w seed < LINK_DEGREE_LIMIT" "other \<notin> fst ` set (wk_reached w)"
    by linarith
  then show ?thesis
  proof cases
    case seed
    then show ?thesis using old Pair by (auto simp: walked_def walk_edge_def)
  next
    case full
    then show ?thesis using old Pair by (auto simp: walked_def walk_edge_def)
  next
    case again
    then show ?thesis using old Pair by (auto simp: walked_def walk_edge_def le_Suc_eq)
  next
    case new
    then show ?thesis using old Pair by (auto simp: walked_def walk_edge_def)
  qed
qed

lemma walked_fold:
  "walked seeds ls w \<Longrightarrow> walked seeds (ls @ ls') (fold (walk_edge seeds) ls' w)"
proof (induction ls' arbitrary: ls w)
  case (Cons l ls')
  from Cons.IH [OF walked_edge [OF Cons.prems, of l]] show ?case by simp
qed simp

definition recallable :: "memory_store \<Rightarrow> ustr \<Rightarrow> bool" where
  "recallable s i = (case row s i of Some m \<Rightarrow> is_retrievable (mr_lifecycle m) (mr_data m) | None \<Rightarrow> False)"

lemma append_reached_spec:
  assumes "append_reached sc score_of s rs e = e'" "map rh_id (ex_added e) = map fst (ex_edges e)" "ex_cutoff e = None"
    "length (ex_added e) \<le> LINK_EXPANSION_LIMIT"
  shows "map rh_id (ex_added e') = map fst (ex_edges e') \<and> length (ex_added e') \<le> LINK_EXPANSION_LIMIT \<and>
    (\<exists>rs'. subseq rs' rs \<and> ex_edges e' = ex_edges e @ rs' \<and> list_all (\<lambda>r. recallable s (fst r)) rs' \<and>
      (ex_cutoff e' = None \<longrightarrow> rs' = filter (\<lambda>r. recallable s (fst r)) rs))"
  using assms
proof (induction rs arbitrary: e)
  case (Cons r rs)
  show ?case
  proof (cases "length (ex_added e) \<ge> LINK_EXPANSION_LIMIT")
    case True
    then have "e' = e\<lparr>ex_cutoff := Some ''expansion_limit''\<rparr>" using Cons.prems by simp
    then show ?thesis using Cons.prems by (auto intro!: exI [of _ "[]"])
  next
    case room: False
    show ?thesis
    proof (cases "recallable s (fst r)")
      case True
      then obtain m where m: "row s (fst r) = Some m" "is_retrievable (mr_lifecycle m) (mr_data m)"
        by (auto simp: recallable_def split: option.splits)
      let ?e = "e\<lparr>ex_added := ex_added e @ [linked_hit sc score_of m r], ex_edges := ex_edges e @ [r]\<rparr>"
      have "append_reached sc score_of s rs ?e = e'" using Cons.prems(1) m room by simp
      from Cons.IH [OF this] obtain rs' where "map rh_id (ex_added e') = map fst (ex_edges e')"
        "length (ex_added e') \<le> LINK_EXPANSION_LIMIT" "subseq rs' rs" "ex_edges e' = (ex_edges e @ [r]) @ rs'"
        "list_all (\<lambda>r. recallable s (fst r)) rs'" "ex_cutoff e' = None \<longrightarrow> rs' = filter (\<lambda>r. recallable s (fst r)) rs"
        using Cons.prems(2,3) room by (auto simp: linked_hit_def split_def)
      then show ?thesis using True by (intro conjI exI [of _ "r # rs'"]) auto
    next
      case False
      then have "append_reached sc score_of s rs e = e'"
        using Cons.prems(1) room by (auto simp: recallable_def split: option.splits)
      from Cons.IH [OF this Cons.prems(2-)] False show ?thesis by auto
    qed
  qed
qed auto

section \<open>What a recall returns\<close>

lemma map_filter_subseq: "(\<And>x y. f x = Some y \<Longrightarrow> g y = k x) \<Longrightarrow> subseq (map g (List.map_filter f xs)) (map k xs)"
  by (induction xs) (auto simp: List.map_filter_simps split: option.splits)

lemma subseq_distinct: "subseq xs ys \<Longrightarrow> distinct ys \<Longrightarrow> distinct xs"
  by (induction rule: list_emb.induct) (auto dest: list_emb_set)

lemma score_memory_row_id: "score_memory_row sc terms exclude p = Some h \<Longrightarrow> rh_id (fst h) = fst p \<and> exclude \<noteq> Some (fst p)"
  by (auto simp: score_memory_row_def Let_def split: prod.splits option.splits if_splits)

lemma found_row_id: "found_row s exclude i = Some p \<Longrightarrow> fst p = i \<and> row s i = Some (snd p) \<and> retrievable_predicate (snd p)"
  by (auto simp: found_row_def split: option.splits if_splits)

lemma read_rows_subseq:
  "subseq (map (rh_id \<circ> fst) (List.map_filter (score_memory_row sc terms exclude) ps)) (map fst ps)"
  by (rule map_filter_subseq) (simp add: score_memory_row_id)

lemma score_rows_ids:
  assumes "distinct (map fst (ms_rows s))" "\<And>q. distinct (index q)"
  shows "distinct (map (rh_id \<circ> fst) (score_rows sc index terms exclude fts s))"
proof -
  have m: "mset (map (rh_id \<circ> fst) (sort_best f hs)) = mset (map (rh_id \<circ> fst) hs)" for f hs by simp
  have d: "distinct (map (rh_id \<circ> fst) (sort_best f hs)) = distinct (map (rh_id \<circ> fst) hs)" for f hs
    using mset_eq_imp_distinct_iff [OF m] .
  have "subseq (map fst (List.map_filter (found_row s exclude) xs)) (map (\<lambda>x. x) xs)" for xs
    by (rule map_filter_subseq) (simp add: found_row_id)
  then have "distinct (map fst (take 2000 (List.map_filter (found_row s exclude) (index q))))" for q
    using subseq_distinct [OF _ assms(2)] distinct_take by (metis list.map_ident take_map)
  then have "distinct (map (rh_id \<circ> fst) (List.map_filter (score_memory_row sc terms exclude)
      (take 2000 (List.map_filter (found_row s exclude) (index q)))))" for q
    using subseq_distinct [OF read_rows_subseq] by blast
  moreover have "distinct (map (rh_id \<circ> fst) (List.map_filter (score_memory_row sc terms exclude)
      (filter (\<lambda>(i, m). retrievable_predicate m) (ms_rows s))))"
    by (rule subseq_distinct [OF read_rows_subseq]) (simp add: assms(1) distinct_map_filter)
  ultimately show ?thesis by (simp only: score_rows_def Let_def d split: option.split if_split) simp
qed

lemma retrievable_shown: "retrievable_predicate m \<Longrightarrow> is_retrievable (mr_lifecycle m) (mr_data m)"
  by (auto simp: retrievable_predicate_def is_retrievable_def pinned_predicate_def is_pinned_def split: if_splits option.splits json.splits)

lemma score_rows_shown:
  assumes "distinct (map fst (ms_rows s))" "h \<in> set (score_rows sc index terms exclude fts s)"
  shows "recallable s (rh_id (fst h))"
proof -
  have "\<exists>p. score_memory_row sc terms exclude p = Some h \<and> row s (fst p) = Some (snd p) \<and> retrievable_predicate (snd p)"
    using assms found_row_id [of s exclude]
    by (fastforce simp: score_rows_def Let_def set_map_filter row_def split: option.splits if_splits dest!: in_set_takeD)
  then show ?thesis using retrievable_shown by (fastforce simp: recallable_def dest: score_memory_row_id)
qed

section \<open>Recalls are steps of the store\<close>

lemma relates_ok: "\<not> one_of (lit ''relates_to'') [''supersedes'', ''contradicts'']"
  by simp

lemma coactivate_pair_reach:
  "reachable_store uuid s \<Longrightarrow> coactivate_pair uuid now p s = Some (k, s') \<Longrightarrow> reachable_store uuid s' \<and> ms_rows s' = ms_rows s"
proof (cases p)
  case (Pair a b)
  assume r: "reachable_store uuid s" and c: "coactivate_pair uuid now p s = Some (k, s')"
  show ?thesis
  proof (cases "find (joins a b) (ms_links s)")
    case None
    then have s': "s' = snd (upsert_link uuid now a b (lit ''relates_to'') True s)" and ab: "row s a \<noteq> None" "row s b \<noteq> None"
      using c Pair by (auto simp: coactivate_pair_def split: prod.splits if_splits)
    from reachable_store.Step [OF r store_step.Relate [OF relates_ok ab]] show ?thesis
      unfolding s' by (auto simp: upsert_link_def split: option.split)
  next
    case (Some e)
    then have s': "s' = bump_link now (ml_id e) s" using c Pair by (auto simp: coactivate_pair_def)
    from reachable_store.Step [OF r store_step.Coactivate] show ?thesis by (simp add: s' bump_link_def)
  qed
qed

lemma coactivate_pairs_reach:
  "reachable_store uuid s \<Longrightarrow> coactivate_pairs uuid now ps n s = Some (k, s') \<Longrightarrow> reachable_store uuid s' \<and> ms_rows s' = ms_rows s"
proof (induction ps arbitrary: n s)
  case (Cons p ps)
  then show ?case using coactivate_pair_reach [of uuid s now p] by (fastforce split: option.splits)
qed simp

lemma coactivate_reach:
  "reachable_store uuid s \<Longrightarrow> coactivate uuid now ids s = (n, s') \<Longrightarrow> reachable_store uuid s' \<and> ms_rows s' = ms_rows s"
  using coactivate_pairs_reach [of uuid s now "pairs_in_order ids" 0] by (auto simp: coactivate_def split: option.splits)

lemma pinned_mark: "is_pinned (jput d ''last_decay_at'' v) = is_pinned d"
proof -
  have "jget d ''pinned'' = (if is_object_data d then jget d ''pinned'' else None)" by (cases d) simp_all
  then show ?thesis unfolding is_pinned_def jget_jput by simp
qed

lemma reinforce_shown [simp]: "recallable (reinforce now stamp j s) i = recallable s i"
  by (auto simp: recallable_def reinforce_def pinned_mark is_retrievable_def split: option.split)

lemma reinforce_all:
  "reachable_store uuid s \<Longrightarrow>
    reachable_store uuid (fold (reinforce now stamp) ids s) \<and> recallable (fold (reinforce now stamp) ids s) i = recallable s i"
proof (induction ids arbitrary: s)
  case (Cons j ids)
  from Cons.IH [OF reachable_store.Step [OF Cons.prems store_step.Reinforce]] show ?case by simp
qed simp

text \<open>What the retrieval does to the store before it follows the links.\<close>

lemma activation_steps:
  assumes "reachable_store uuid s"
    "(if activate then coactivate uuid now ids (fold (reinforce now stamp) ids s) else (Some 0, s)) = (co, s')"
  shows "reachable_store uuid s' \<and> recallable s' i = recallable s i \<and> (\<not> activate \<longrightarrow> s' = s)"
proof (cases activate)
  case True
  have r: "reachable_store uuid (fold (reinforce now stamp) ids s)" using reinforce_all [OF assms(1)] by blast
  from coactivate_reach [OF r] assms(2) True have "reachable_store uuid s'" "ms_rows s' = ms_rows (fold (reinforce now stamp) ids s)"
    by auto
  then show ?thesis using True reinforce_all [OF assms(1), of now stamp ids i] by (simp add: recallable_def row_def)
qed (use assms in auto)

section \<open>The result of a recall\<close>

lemma walked_start: "walked seeds [] \<lparr>wk_reached = [], wk_degree = [], wk_truncated = False\<rparr>"
  by (simp add: walked_def degree_of_def)

lemma subseq_filter_length: "subseq xs ys \<Longrightarrow> length (filter P xs) \<le> length (filter P ys)"
  by (rule list_emb_length [OF subseq_filter])

text \<open>The rows one hop away, as the expansion finds them.\<close>

definition neighbour :: "ustr list \<Rightarrow> memory_store \<Rightarrow> ustr \<Rightarrow> ustr \<Rightarrow> memory_link \<Rightarrow> bool" where
  "neighbour seeds s seed other l \<longleftrightarrow>
     l \<in> set (ms_links s) \<and> seed \<in> set seeds \<and> other \<notin> set seeds \<and> {ml_source l, ml_target l} = {seed, other}"

lemma ends_from_neighbour:
  "l \<in> set (touching sc seeds s) \<Longrightarrow> ends_from seeds l = (seed, other) \<Longrightarrow> other \<notin> set seeds \<Longrightarrow> neighbour seeds s seed other l"
  by (auto simp: touching_def ends_from_def neighbour_def split: if_splits)

lemma neighbour_ends:
  "neighbour seeds s seed other l \<Longrightarrow> l \<in> set (touching sc seeds s) \<and> ends_from seeds l = (seed, other)"
  by (auto simp: touching_def ends_from_def neighbour_def doubleton_eq_iff)

lemma expand_links_spec:
  assumes "expand_links sc seeds s = e"
  shows "map rh_id (ex_added e) = map fst (ex_edges e) \<and> length (ex_added e) \<le> LINK_EXPANSION_LIMIT \<and>
    distinct (map fst (ex_edges e)) \<and>
    list_all (\<lambda>(other, seed, l). recallable s other \<and> neighbour (map rh_id seeds) s seed other l) (ex_edges e) \<and>
    (\<forall>seed. length (filter (\<lambda>r. fst (snd r) = seed) (ex_edges e)) \<le> LINK_DEGREE_LIMIT) \<and>
    (ex_cutoff e = None \<longrightarrow> fst ` set (ex_edges e) =
       {other. recallable s other \<and> (\<exists>seed l. neighbour (map rh_id seeds) s seed other l)})"
proof (cases "seeds = []")
  case True
  then show ?thesis using assms by (auto simp: expand_links_def neighbour_def)
next
  case False
  define ids where "ids = map rh_id seeds"
  define w where "w = fold (walk_edge ids) (touching sc ids s) \<lparr>wk_reached = [], wk_degree = [], wk_truncated = False\<rparr>"
  define f where "f = (\<lambda>i. case map_of (rev (map (\<lambda>h. (rh_id h, rh_score h)) seeds)) i of Some x \<Rightarrow> x | None \<Rightarrow> sc_zero sc)"
  define e0 where "e0 = append_reached sc f s (wk_reached w) \<lparr>ex_added = [], ex_edges = [], ex_cutoff = None\<rparr>"
  have e: "e = (if ex_cutoff e0 = None \<and> wk_truncated w then e0\<lparr>ex_cutoff := Some ''degree_limit''\<rparr> else e0)"
    unfolding assms [symmetric] expand_links_def Let_def e0_def w_def f_def ids_def by (simp only: False if_False)
  have w: "walked ids (touching sc ids s) w"
    using walked_fold [OF walked_start, of ids "touching sc ids s"] by (simp add: w_def)
  have d: "distinct (map fst (wk_reached w))"
    and r: "\<forall>(other, seed, l) \<in> set (wk_reached w). l \<in> set (touching sc ids s) \<and> ends_from ids l = (seed, other) \<and> other \<notin> set ids"
    and g: "\<forall>x. length (filter (\<lambda>r. fst (snd r) = x) (wk_reached w)) \<le> degree_of w x \<and> degree_of w x \<le> LINK_DEGREE_LIMIT"
    and c: "\<not> wk_truncated w \<longrightarrow> (\<forall>l \<in> set (touching sc ids s). snd (ends_from ids l) \<notin> set ids \<longrightarrow>
      snd (ends_from ids l) \<in> fst ` set (wk_reached w))"
    using w unfolding walked_def by blast+
  have nb: "\<forall>(other, seed, l) \<in> set (wk_reached w). neighbour ids s seed other l"
    using r ends_from_neighbour by blast
  have deg: "length (filter (\<lambda>r. fst (snd r) = x) (wk_reached w)) \<le> LINK_DEGREE_LIMIT" for x
    using g le_trans by blast
  have all: "other \<in> fst ` set (wk_reached w)" if t: "\<not> wk_truncated w" and n: "neighbour ids s seed other l" for seed other l
  proof -
    have "other \<notin> set ids" using n by (simp add: neighbour_def)
    moreover have l: "l \<in> set (touching sc ids s)" "ends_from ids l = (seed, other)" using neighbour_ends [OF n] by blast+
    ultimately show ?thesis using c [rule_format, OF t l(1)] by (simp only: l(2) snd_conv) blast
  qed
  from append_reached_spec [of sc f s "wk_reached w" "\<lparr>ex_added = [], ex_edges = [], ex_cutoff = None\<rparr>" e0]
  obtain rs where rs: "map rh_id (ex_added e0) = map fst (ex_edges e0)" "length (ex_added e0) \<le> LINK_EXPANSION_LIMIT"
    "subseq rs (wk_reached w)" "ex_edges e0 = rs" "list_all (\<lambda>r. recallable s (fst r)) rs"
    "ex_cutoff e0 = None \<longrightarrow> rs = filter (\<lambda>r. recallable s (fst r)) (wk_reached w)"
    by (auto simp: e0_def)
  have sub: "set rs \<subseteq> set (wk_reached w)" using rs(3) by (auto dest: list_emb_set)
  have "distinct (map fst rs)" using subseq_distinct [OF subseq_map [OF rs(3)] d] .
  moreover have "list_all (\<lambda>(other, seed, l). recallable s other \<and> neighbour ids s seed other l) rs"
    using rs(5) sub nb by (fastforce simp: list_all_iff)
  moreover have "length (filter (\<lambda>r. fst (snd r) = x) rs) \<le> LINK_DEGREE_LIMIT" for x
    using subseq_filter_length [OF rs(3)] deg order_trans by blast
  moreover have "fst ` set rs = {other. recallable s other \<and> (\<exists>seed l. neighbour ids s seed other l)}"
    if "ex_cutoff e = None"
  proof -
    have c: "ex_cutoff e0 = None" "\<not> wk_truncated w" using that by (auto simp: e split: if_splits)
    then have "set rs = {r \<in> set (wk_reached w). recallable s (fst r)}" using rs(6) by auto
    then show ?thesis using all [OF c(2)] nb by (fastforce simp: image_iff)
  qed
  moreover have "ex_edges e = rs" "ex_added e = ex_added e0" using rs(4) by (simp_all add: e)
  ultimately show ?thesis using rs(1,2,4) by (simp add: ids_def)
qed

lemma retrieve_with_parts:
  assumes "retrieve_with sc index uuid now stamp terms fts limit activate s = (Some r, s')" "reachable_store uuid s"
  obtains e seeds where "seeds = take (min limit RESULT_LIMIT_MAX) (map fst (score_rows sc index terms None fts s))"
    "e = expand_links sc seeds s'" "rt_hits r = seeds @ ex_added e" "rt_seeds r = map rh_id seeds"
    "rt_edges r = ex_edges e" "rt_cutoff r = ex_cutoff e"
    "reachable_store uuid s'" "\<And>i. recallable s' i = recallable s i" "\<not> activate \<longrightarrow> s' = s"
proof -
  define seeds where "seeds = take (min limit RESULT_LIMIT_MAX) (map fst (score_rows sc index terms None fts s))"
  let ?act = "if activate then coactivate uuid now (map rh_id seeds) (fold (reinforce now stamp) (map rh_id seeds) s) else (Some 0, s)"
  obtain co s1 where act: "?act = (co, s1)" by fastforce
  have "s' = s1 \<and> r = \<lparr>rt_hits = seeds @ ex_added (expand_links sc seeds s1), rt_seeds = map rh_id seeds,
      rt_stop = (if ex_edges (expand_links sc seeds s1) = [] then ''flat'' else ''depth''),
      rt_edges = ex_edges (expand_links sc seeds s1), rt_cutoff = ex_cutoff (expand_links sc seeds s1)\<rparr>"
    using assms(1) unfolding retrieve_with_def Let_def seeds_def [symmetric] act prod.case by (cases co) auto
  then show thesis
    using that [OF seeds_def, of "expand_links sc seeds s1"] activation_steps [OF assms(2) act] by auto
qed

text \<open>
  C11 (bounds). What a recall returns: its hits are different rows that may be retrieved, the rows the
  query matched first and in order of score, at most \<open>limit\<close> and at most thirty of them, then at most
  eight rows one link away from one of them, at most five along the links of each; and the store moves
  only by steps that keep the mirror of the links, not at all when the recall does not activate.
\<close>

theorem recall_hits:
  assumes "reachable_store uuid s" "inj uuid" "\<And>q. distinct (index q)"
    "retrieve_with sc index uuid now stamp terms fts limit activate s = (Some r, s')"
  shows "distinct (map rh_id (rt_hits r)) \<and> list_all (\<lambda>h. recallable s' (rh_id h)) (rt_hits r) \<and>
    map rh_id (take (length (rt_seeds r)) (rt_hits r)) = rt_seeds r \<and>
    sorted_wrt (\<lambda>g h. rh_score h \<le> rh_score g) (take (length (rt_seeds r)) (rt_hits r)) \<and>
    length (rt_seeds r) \<le> min limit RESULT_LIMIT_MAX \<and>
    map rh_id (drop (length (rt_seeds r)) (rt_hits r)) = map fst (rt_edges r) \<and> length (rt_edges r) \<le> LINK_EXPANSION_LIMIT \<and>
    list_all (\<lambda>(other, seed, l). neighbour (rt_seeds r) s' seed other l) (rt_edges r) \<and>
    (\<forall>seed. length (filter (\<lambda>e. fst (snd e) = seed) (rt_edges r)) \<le> LINK_DEGREE_LIMIT) \<and>
    reachable_store uuid s' \<and> (\<not> activate \<longrightarrow> s' = s)"
proof -
  from retrieve_with_parts [OF assms(4,1)] obtain e seeds where
    p: "seeds = take (min limit RESULT_LIMIT_MAX) (map fst (score_rows sc index terms None fts s))"
    "e = expand_links sc seeds s'" "rt_hits r = seeds @ ex_added e" "rt_seeds r = map rh_id seeds"
    "rt_edges r = ex_edges e" "reachable_store uuid s'" "\<And>i. recallable s' i = recallable s i" "\<not> activate \<longrightarrow> s' = s" by metis
  have d: "distinct (map fst (ms_rows s))" using reachable_ok [OF assms(1,2)] by (simp add: store_ok_def tables_ok_def)
  have seeds: "distinct (map rh_id seeds)" "\<forall>h \<in> set seeds. recallable s' (rh_id h)"
    "sorted_wrt (\<lambda>g h. rh_score h \<le> rh_score g) seeds"
  proof -
    show "distinct (map rh_id seeds)"
      using distinct_take [OF score_rows_ids [where index = index, OF d assms(3)]] by (simp add: p(1) take_map)
    show "\<forall>h \<in> set seeds. recallable s' (rh_id h)"
      using score_rows_shown [OF d] by (auto simp: p(1,7) dest!: in_set_takeD)
    have "sorted_wrt (\<lambda>g h. rh_score (fst h) \<le> rh_score (fst g)) (score_rows sc index terms None fts s)"
      unfolding score_rows_def Let_def
      by (rule sorted_wrt_mono_rel [OF _ sort_best_sorted]) (auto simp: less_eq_prod_def less_le)
    then show "sorted_wrt (\<lambda>g h. rh_score h \<le> rh_score g) seeds"
      by (simp add: p(1) sorted_wrt_take sorted_wrt_map)
  qed
  from expand_links_spec [OF p(2) [symmetric]] have e: "map rh_id (ex_added e) = map fst (ex_edges e)"
    "length (ex_added e) \<le> LINK_EXPANSION_LIMIT" "distinct (map fst (ex_edges e))"
    "list_all (\<lambda>(other, seed, l). recallable s' other \<and> neighbour (map rh_id seeds) s' seed other l) (ex_edges e)"
    "\<forall>seed. length (filter (\<lambda>r. fst (snd r) = seed) (ex_edges e)) \<le> LINK_DEGREE_LIMIT" by blast+
  have apart: "set (map rh_id seeds) \<inter> set (map fst (ex_edges e)) = {}"
    using e(4) by (fastforce simp: list_all_iff neighbour_def)
  have linked: "recallable s' (rh_id h)" if h: "h \<in> set (ex_added e)" for h
  proof -
    have "rh_id h \<in> fst ` set (ex_edges e)" using h arg_cong [OF e(1), of set] by auto
    then show ?thesis using e(4) by (auto simp: list_all_iff)
  qed
  have most: "length seeds \<le> min limit RESULT_LIMIT_MAX" unfolding p(1) length_take by (rule min.cobounded2)
  have len: "length (ex_edges e) = length (ex_added e)" using arg_cong [OF e(1), of length] by simp
  show ?thesis
    unfolding p(3,4,5)
    by (intro conjI) (use seeds e apart linked len most p(6,8) in \<open>auto simp: list_all_iff\<close>)
qed

text \<open>
  C12 (functional). A recall misses no neighbour unless it says so: when it reports no cutoff, the linked
  rows are exactly the rows that may be retrieved and that some link, in either direction, joins to a
  row the query matched.
\<close>

theorem recall_complete:
  assumes "reachable_store uuid s"
    "retrieve_with sc index uuid now stamp terms fts limit activate s = (Some r, s')" "rt_cutoff r = None"
  shows "fst ` set (rt_edges r) = {other. recallable s' other \<and> (\<exists>seed l. neighbour (rt_seeds r) s' seed other l)}"
proof -
  from retrieve_with_parts [OF assms(2,1)] obtain e seeds where
    p: "e = expand_links sc seeds s'" "rt_seeds r = map rh_id seeds" "rt_edges r = ex_edges e" "rt_cutoff r = ex_cutoff e" by metis
  from expand_links_spec [OF p(1) [symmetric]] assms(3) show ?thesis by (simp only: p(2-4))
qed

section \<open>The index changes nothing without a vector\<close>

definition mentions :: "(ustr \<Rightarrow> ustr) \<Rightarrow> ustr list \<Rightarrow> memory_row \<Rightarrow> bool" where
  "mentions lower terms m \<longleftrightarrow>
     (\<exists>t \<in> set terms. str_contains (lower (title_of m)) t \<or> str_contains (lower (body_of m)) t)"

lemma map_filter_mset:
  assumes "distinct xs" "distinct ys" "\<And>x. f x \<noteq> None \<Longrightarrow> x \<in> set xs \<longleftrightarrow> x \<in> set ys"
  shows "mset (List.map_filter f xs) = mset (List.map_filter f ys)"
proof -
  have "mset (filter (\<lambda>x. f x \<noteq> None) xs) = mset (filter (\<lambda>x. f x \<noteq> None) ys)"
    using assms by (subst set_eq_iff_mset_eq_distinct [symmetric]) auto
  then have "image_mset (the \<circ> f) (mset (filter (\<lambda>x. f x \<noteq> None) xs)) = image_mset (the \<circ> f) (mset (filter (\<lambda>x. f x \<noteq> None) ys))"
    by (rule arg_cong)
  then show ?thesis by (simp only: List.map_filter_def mset_map)
qed

lemma sort_best_keys: "mset xs = mset ys \<Longrightarrow> map f (sort_best f xs) = map f (sort_best f ys)"
proof -
  have "sort (map f zs) = map f (sort_key f (rev zs))" for zs by (rule properties_for_sort) simp_all
  then have "map f (sort_best f zs) = rev (sort (map f zs))" for zs by (simp add: sort_best_def rev_map)
  moreover assume "mset xs = mset ys"
  then have "sort (map f xs) = sort (map f ys)" by (intro properties_for_sort) simp_all
  ultimately show ?thesis by simp
qed

lemma score_memory_row_mentions:
  assumes "score_memory_row sc terms exclude (i, m) \<noteq> None" "sc_vector sc (mr_data m) = None"
    "\<And>n. sc_ratio sc (0, n) \<le> sc_zero sc"
  shows "mentions (sc_lower sc) terms m"
proof (rule ccontr)
  assume no: "\<not> mentions (sc_lower sc) terms m"
  obtain title content where t: "Option.bind (jget (mr_data m) ''title'') as_str = Some title"
    "Option.bind (jget (mr_data m) ''content'') as_str = Some content"
    using assms(1) by (auto simp: score_memory_row_def split: option.splits if_splits)
  then have tb: "title_of m = title" "body_of m = content" by (simp_all add: title_of_def body_of_def text_at_def)
  have "filter (\<lambda>t. str_contains (sc_lower sc title) t \<or> str_contains (sc_lower sc content) t) terms = []"
    using no by (simp add: mentions_def tb filter_empty_conv)
  then have "sc_ratio sc (score_parts (sc_lower sc) terms title content) \<le> sc_zero sc"
    using assms(3) by (simp add: score_parts_def found_def)
  then show False using assms(1,2) t by (simp add: score_memory_row_def Let_def split: if_splits)
qed

text \<open>
  C13 (equivalence). Asking the index first changes nothing for a query without a vector: when the index
  returns each row that contains a term of the query once, which is what a trigram index does for terms
  of three characters, and at most two thousand rows are stored, the recall scores the same rows to
  the same values, with the same sequence of scores and times; rows that tie in both may change places.
\<close>

theorem index_narrows_exactly:
  assumes "distinct (map fst (ms_rows s))" "length (ms_rows s) \<le> 2000" "distinct (index q)"
    "set (index q) = {i. \<exists>m. row s i = Some m \<and> mentions (sc_lower sc) terms m}"
    "\<And>d. sc_vector sc d = None" "\<And>n. sc_ratio sc (0, n) \<le> sc_zero sc"
  shows "mset (score_rows sc index terms exclude (Some q) s) = mset (score_rows sc index terms exclude None s) \<and>
    map (\<lambda>(h, updated). (rh_score h, updated)) (score_rows sc index terms exclude (Some q) s) =
    map (\<lambda>(h, updated). (rh_score h, updated)) (score_rows sc index terms exclude None s)"
proof -
  let ?f = "score_memory_row sc terms exclude"
  let ?found = "List.map_filter (found_row s exclude) (index q)"
  let ?rows = "filter (\<lambda>(i, m). retrievable_predicate m) (ms_rows s)"
  have ids: "subseq (map fst ?found) (map (\<lambda>x. x) (index q))"
    by (rule map_filter_subseq) (simp add: found_row_id)
  have df: "distinct ?found"
    using subseq_distinct [OF ids] assms(3) by (simp add: distinct_map)
  have dr: "distinct (ms_rows s)" using assms(1) by (simp add: distinct_map)
  have sub: "set ?found \<subseteq> set (ms_rows s)"
    by (auto simp: set_map_filter row_def dest!: found_row_id map_of_SomeD)
  have "length ?found \<le> 2000"
    using card_mono [OF _ sub] distinct_card [OF df] distinct_card [OF dr] assms(2) by simp
  then have all: "take 2000 ?found = ?found" by simp
  have same: "mset (List.map_filter ?f ?found) = mset (List.map_filter ?f ?rows)"
  proof (rule map_filter_mset [OF df])
    show "distinct ?rows" using dr by simp
    fix p
    assume p: "?f p \<noteq> None"
    obtain i m where im: "p = (i, m)" by (cases p)
    have e: "exclude \<noteq> Some i" using p im by (auto dest: score_memory_row_id)
    have "mentions (sc_lower sc) terms m"
      using score_memory_row_mentions [OF p [unfolded im] assms(5,6)] .
    then have "p \<in> set ?found \<longleftrightarrow> row s i = Some m \<and> retrievable_predicate m"
      unfolding set_map_filter assms(4) im using e by (auto simp: found_row_def split: option.splits if_splits)
    also have "\<dots> \<longleftrightarrow> p \<in> set ?rows" using assms(1) by (auto simp: im row_def)
    finally show "p \<in> set ?found \<longleftrightarrow> p \<in> set ?rows" .
  qed
  show ?thesis
    unfolding score_rows_def Let_def option.case all sort_best_simps
    using same sort_best_keys [OF same] by (auto simp: sort_best_simps)
qed

section \<open>Knowledge\<close>

record 'f scored_chunk = knowledge_hit +
  kc_id :: ustr
  kc_score :: 'f

definition score_knowledge_row :: "'f::linorder scoring \<Rightarrow> ustr list \<Rightarrow> ustr \<times> json \<Rightarrow> 'f scored_chunk option" where
  "score_knowledge_row sc terms entry =
     (case entry of (i, data) \<Rightarrow>
       case Option.bind (jget data ''text'') as_str of
         None \<Rightarrow> None
       | Some body \<Rightarrow>
           let value = sc_ratio sc (score (sc_lower sc) terms body)
           in if value \<le> sc_zero sc then None
              else Some \<lparr>kh_filename = text_at data ''filename'' (lit ''document''), kh_doc_id = text_at data ''docId'' [],
                kh_text = body, kc_id = i, kc_score = value\<rparr>)"

text \<open>The hits in order, each document at most twice; the loop stops after the push that fills the result.\<close>

fun cap_chunks :: "nat \<Rightarrow> 'f scored_chunk list \<Rightarrow> (ustr \<times> nat) list \<Rightarrow> 'f scored_chunk list \<Rightarrow> 'f scored_chunk list" where
  "cap_chunks limit [] per_doc out = out"
| "cap_chunks limit (h # hs) per_doc out =
     (let count = (case map_of per_doc (kh_doc_id h) of Some n \<Rightarrow> n | None \<Rightarrow> 0)
      in if count \<ge> MAX_CHUNKS_PER_DOC then cap_chunks limit hs per_doc out
         else if length out + 1 \<ge> limit then out @ [h]
         else cap_chunks limit hs (AList.update (kh_doc_id h) (count + 1) per_doc) (out @ [h]))"

definition retrieve_knowledge_with ::
  "'f::linorder scoring \<Rightarrow> (ustr \<Rightarrow> ustr list) \<Rightarrow> ustr list \<Rightarrow> ustr option \<Rightarrow> nat \<Rightarrow> (ustr \<times> json) list \<Rightarrow> 'f scored_chunk list" where
  "retrieve_knowledge_with sc index terms fts limit rows =
     (let narrowed = (case fts of
            Some q \<Rightarrow> List.map_filter (score_knowledge_row sc terms)
              (take 500 (List.map_filter (\<lambda>i. map_option (Pair i) (map_of rows i)) (index q)))
          | None \<Rightarrow> []);
          scored = (if narrowed = [] then List.map_filter (score_knowledge_row sc terms) rows else narrowed)
      in cap_chunks limit (sort_best kc_score scored) [] [])"

text \<open>The block a run puts before its messages: no vector, and no memory is activated.\<close>

definition retrieve_all ::
  "'f::linorder scoring \<Rightarrow> (ustr \<Rightarrow> ustr list) \<Rightarrow> (ustr \<Rightarrow> ustr list) \<Rightarrow> (nat \<Rightarrow> ustr) \<Rightarrow> ustr \<Rightarrow> (ustr \<times> json) list \<Rightarrow>
     memory_store \<Rightarrow> retrieved_block option \<times> memory_store" where
  "retrieve_all sc index knowledge_index uuid query rows s =
     (let terms = tokenize (sc_lower sc) query;
          fts = ranking_fts_match_query (sc_lower sc) query
      in case retrieve_with (sc\<lparr>sc_vector := \<lambda>_. None\<rparr>) index uuid 0 [] terms fts DEFAULT_MEMORY_LIMIT False s of
           (None, s') \<Rightarrow> (None, s')
         | (Some r, s') \<Rightarrow> (Some \<lparr>rb_memories = map memory_hit.truncate (rt_hits r),
             rb_knowledge = map knowledge_hit.truncate
               (retrieve_knowledge_with sc knowledge_index terms fts DEFAULT_KNOWLEDGE_LIMIT rows)\<rparr>, s'))"

definition chunks_of :: "ustr \<Rightarrow> 'f scored_chunk list \<Rightarrow> nat" where
  "chunks_of doc hs = length (filter (\<lambda>h. kh_doc_id h = doc) hs)"

lemma cap_chunks_capped:
  assumes "\<And>d. (case map_of per_doc d of Some n \<Rightarrow> n | None \<Rightarrow> 0) = chunks_of d out" "\<And>d. chunks_of d out \<le> MAX_CHUNKS_PER_DOC"
    "length out < limit \<or> out = []"
  shows "chunks_of d (cap_chunks limit hs per_doc out) \<le> MAX_CHUNKS_PER_DOC \<and>
    length (cap_chunks limit hs per_doc out) \<le> max 1 limit"
  using assms
proof (induction limit hs per_doc out rule: cap_chunks.induct)
  case (2 limit h hs per_doc out)
  let ?n = "case map_of per_doc (kh_doc_id h) of Some n \<Rightarrow> n | None \<Rightarrow> 0"
  have n: "?n = chunks_of (kh_doc_id h) out" using 2(3) .
  have more: "chunks_of d (out @ [h]) = (if d = kh_doc_id h then Suc (chunks_of d out) else chunks_of d out)" for d
    by (simp add: chunks_of_def)
  consider (full) "?n \<ge> MAX_CHUNKS_PER_DOC" | (last) "?n < MAX_CHUNKS_PER_DOC" "length out + 1 \<ge> limit"
    | (more) "?n < MAX_CHUNKS_PER_DOC" "length out + 1 < limit" by linarith
  then show ?case
  proof cases
    case full
    then show ?thesis using 2(1) [OF refl full 2(3-5)] by (simp add: Let_def)
  next
    case last
    then have "chunks_of d (out @ [h]) \<le> MAX_CHUNKS_PER_DOC" using 2(4) [of d] n more by simp
    then show ?thesis using last 2(5) by (auto simp: Let_def)
  next
    case more'': more
    let ?pd = "AList.update (kh_doc_id h) (?n + 1) per_doc"
    have "(case map_of ?pd d of Some n \<Rightarrow> n | None \<Rightarrow> 0) = chunks_of d (out @ [h])" for d
      using n more 2(3) [of d] by (simp add: update_conv)
    moreover have "chunks_of d (out @ [h]) \<le> MAX_CHUNKS_PER_DOC" for d
      using more''(1) n more 2(4) [of d] by simp
    ultimately show ?thesis using more'' 2(2) [OF refl] by (simp add: Let_def not_le)
  qed
qed (auto simp: Suc_le_eq)

lemma cap_chunks_start:
  "chunks_of d (cap_chunks limit hs [] []) \<le> MAX_CHUNKS_PER_DOC" "length (cap_chunks limit hs [] []) \<le> max 1 limit"
proof -
  have "chunks_of d (cap_chunks limit hs [] []) \<le> MAX_CHUNKS_PER_DOC \<and> length (cap_chunks limit hs [] []) \<le> max 1 limit"
    by (rule cap_chunks_capped) (simp_all add: chunks_of_def)
  then show "chunks_of d (cap_chunks limit hs [] []) \<le> MAX_CHUNKS_PER_DOC" "length (cap_chunks limit hs [] []) \<le> max 1 limit"
    by blast+
qed

lemma retrieve_knowledge_capped:
  "chunks_of d (retrieve_knowledge_with sc index terms fts limit rows) \<le> MAX_CHUNKS_PER_DOC"
  "length (retrieve_knowledge_with sc index terms fts limit rows) \<le> max 1 limit"
  unfolding retrieve_knowledge_with_def Let_def by (rule cap_chunks_start)+

lemma retrieve_all_keeps: "snd (retrieve_all sc index kindex uuid query rows s) = s"
  by (simp add: retrieve_all_def Let_def retrieve_with_def)

section \<open>Instances\<close>

definition demo_scoring :: "nat scoring" where
  "demo_scoring = \<lparr>sc_lower = ascii_lower, sc_ratio = fst, sc_vector = (\<lambda>d. if jget d ''embedding'' = None then None else Some 1),
     sc_rank = (\<lambda>l u v. l + (case v of Some x \<Rightarrow> x | None \<Rightarrow> 0)), sc_zero = 0, sc_min = 1, sc_weight = (\<lambda>l. 1),
     sc_scale = (\<lambda>x w. x)\<rparr>"

definition linked_rows :: memory_store where
  "linked_rows = snd (link_memories demo_uuid 1 (lit ''aaa'') (lit ''a'') (lit ''relates_to'') two_rows)"

lemma linked_reachable: "reachable_store demo_uuid linked_rows"
  unfolding linked_rows_def by (rule reachable_store.Step [OF demo_reachable(1) store_step.Link])

definition demo_recall :: "bool \<Rightarrow> nat retrieved option \<times> memory_store" where
  "demo_recall activate = retrieve_with demo_scoring (\<lambda>_. []) demo_uuid 2 [] [lit ''old''] None 8 activate linked_rows"

lemma demo_recalled:
  "map_option (\<lambda>r. (map rh_id (rt_hits r), rt_seeds r, rt_cutoff r)) (fst (demo_recall True)) =
    Some ([lit ''a'', lit ''aaa''], [lit ''a''], None)"
  by code_simp

lemma demo_recall_result:
  obtains r s' where "demo_recall True = (Some r, s')" "map rh_id (rt_hits r) = [lit ''a'', lit ''aaa'']"
    "rt_seeds r = [lit ''a'']" "rt_cutoff r = None"
  using demo_recalled by (cases "demo_recall True") auto

theorem recall_hits_witness:
  "case demo_recall True of (Some r, s') \<Rightarrow>
     map rh_id (rt_hits r) = [lit ''a'', lit ''aaa''] \<and> map fst (rt_edges r) = [lit ''aaa''] \<and> reachable_store demo_uuid s'
   | _ \<Rightarrow> False"
proof -
  obtain r s' where r: "demo_recall True = (Some r, s')" "map rh_id (rt_hits r) = [lit ''a'', lit ''aaa'']"
    "rt_seeds r = [lit ''a'']" by (rule demo_recall_result)
  have "map fst (rt_edges r) = drop 1 (map rh_id (rt_hits r)) \<and> reachable_store demo_uuid s'"
    using recall_hits [OF linked_reachable demo_uuid_inj _ r(1) [unfolded demo_recall_def]] r(3)
    by (simp add: drop_map)
  then show ?thesis using r by simp
qed

theorem recall_complete_witness:
  "case demo_recall True of (Some r, s') \<Rightarrow> recallable s' (lit ''aaa'') \<and> fst ` set (rt_edges r) = {lit ''aaa''}
   | _ \<Rightarrow> False"
proof -
  obtain r s' where r: "demo_recall True = (Some r, s')" "map rh_id (rt_hits r) = [lit ''a'', lit ''aaa'']"
    "rt_seeds r = [lit ''a'']" "rt_cutoff r = None" by (rule demo_recall_result)
  have "map_option (\<lambda>r. map fst (rt_edges r)) (fst (demo_recall True)) = Some [lit ''aaa'']" by code_simp
  then have e: "fst ` set (rt_edges r) = {lit ''aaa''}" using r(1) by (auto simp flip: set_map)
  have "lit ''aaa'' \<in> {other. recallable s' other \<and> (\<exists>seed l. neighbour (rt_seeds r) s' seed other l)}"
    unfolding recall_complete [OF linked_reachable r(1) [unfolded demo_recall_def] r(4), symmetric] e by simp
  then show ?thesis by (simp add: r(1) e)
qed

theorem index_narrows_exactly_witness:
  "map (rh_id \<circ> fst) (score_rows (demo_scoring\<lparr>sc_vector := \<lambda>_. None\<rparr>) (\<lambda>_. [lit ''aaa'']) [lit ''new''] None (Some []) two_rows) =
     [lit ''aaa''] \<and>
   mset (score_rows (demo_scoring\<lparr>sc_vector := \<lambda>_. None\<rparr>) (\<lambda>_. [lit ''aaa'']) [lit ''new''] None None two_rows) =
     mset (score_rows (demo_scoring\<lparr>sc_vector := \<lambda>_. None\<rparr>) (\<lambda>_. [lit ''aaa'']) [lit ''new''] None (Some []) two_rows)"
proof -
  let ?sc = "demo_scoring\<lparr>sc_vector := \<lambda>_. None\<rparr>"
  have rows: "distinct (map fst (ms_rows two_rows)) \<and> length (ms_rows two_rows) = 2"
    "map fst (filter (\<lambda>(i, m). mentions ascii_lower [lit ''new''] m) (ms_rows two_rows)) = [lit ''aaa'']"
    by code_simp+
  have "{i. \<exists>m. row two_rows i = Some m \<and> mentions ascii_lower [lit ''new''] m} =
      set (map fst (filter (\<lambda>(i, m). mentions ascii_lower [lit ''new''] m) (ms_rows two_rows)))"
    using rows(1) by (force simp: row_def)
  then have "{i. \<exists>m. row two_rows i = Some m \<and> mentions ascii_lower [lit ''new''] m} = {lit ''aaa''}"
    unfolding rows(2) by simp
  then have "mset (score_rows ?sc (\<lambda>_. [lit ''aaa'']) [lit ''new''] None (Some []) two_rows) =
      mset (score_rows ?sc (\<lambda>_. [lit ''aaa'']) [lit ''new''] None None two_rows)"
    using index_narrows_exactly [of two_rows "\<lambda>_. [lit ''aaa'']" "[]" ?sc "[lit ''new'']" None] rows(1)
    by (simp add: demo_scoring_def)
  moreover have "map (rh_id \<circ> fst) (score_rows ?sc (\<lambda>_. [lit ''aaa'']) [lit ''new''] None (Some []) two_rows) = [lit ''aaa'']"
    by code_simp
  ultimately show ?thesis by simp
qed

section \<open>Where a vector loses a match\<close>

text \<open>
  The hybrid recall is meant never to return fewer memories than the lexical one. The vector takes
  weight from the terms, so a match on the terms can fall below the threshold.
\<close>

lemma vector_drops_a_match:
  "MIN_SCORE \<le> rank_score (13 / 100) 0 None" "rank_score (13 / 100) 0 (Some 0) < MIN_SCORE"
  by (simp_all add: rank_score_def MIN_SCORE_def)

text \<open>
  And the index is asked first for every query: a row that matches by its vector alone is found only
  while no row matches by its terms.
\<close>

definition with_vector :: "memory_store \<Rightarrow> memory_store" where
  "with_vector s = change_row (lit ''a'') (\<lambda>m. m\<lparr>mr_data := jput (mr_data m) ''embedding'' (JArr [JInt 1])\<rparr>) s"

lemma index_hides_a_vector_match:
  "map (rh_id \<circ> fst) (score_rows demo_scoring (\<lambda>_. [lit ''aaa'']) [lit ''new''] None None (with_vector two_rows)) =
    [lit ''a'', lit ''aaa'']"
  "map (rh_id \<circ> fst) (score_rows demo_scoring (\<lambda>_. [lit ''aaa'']) [lit ''new''] None (Some []) (with_vector two_rows)) =
    [lit ''aaa'']"
  by code_simp+

text \<open>
  \<open>coactivate\<close> promises one row for a pair, however the two came back; \<open>suggest\_links\<close> adds the edge
  that is already there in the other direction.
\<close>

lemma suggestions_double_a_pair:
  "map (\<lambda>l. (ml_source l, ml_target l))
     (ms_links (snd (suggest_links demo_scoring demo_uuid 2 [lit ''aaa'', lit ''a'']
       (with_row ''new tea'' (with_row ''old tea'' empty_store))))) =
    [(lit ''aaa'', lit ''a''), (lit ''a'', lit ''aaa'')]"
  by code_simp

end
