(* ===== verification/Spec2Isabelle.thy ===== *)
theory Spec2Isabelle
  imports Run_Transcript Event_Log Diff Edit Network Path_Grants Reliability Cron Dsml Openai Anthropic Gemini Ollama
    Discovery Run_Undo Run_Control Memory_Store Memory_Recall
begin

text \<open>
  A model of the agent of MIX-agent, the desktop application under \<open>src/apps/desktop\<close>, in Rust.

  \<^bold>\<open>The program.\<close> A run (\<open>core/src/runs/engine/execute.rs\<close>) talks to a language model in turns. Each
  turn sends the transcript to a provider (\<open>providers/\<close>), reads a stream of text and tool calls
  (\<open>execute\_turn.rs\<close>), lets the permission rules and the user decide on each call (\<open>tools/src/execute.rs\<close>,
  \<open>approval.rs\<close>, \<open>permission.rs\<close>), runs the tools (\<open>tools/\<close>), posts the results to the transcript and
  decides whether to go on: a budget (\<open>budget.rs\<close>), a detector of stagnation (\<open>stagnation.rs\<close>) and a
  ledger of unverified effects (\<open>verification.rs\<close>) can stop it or send it back. Everything that
  happens is an event in a log with sequence numbers (\<open>event\_bus.rs\<close>), and long transcripts are
  compressed (\<open>context.rs\<close>). Around the run are the file and network tools, the diff shown to the
  user, path grants, retries of provider requests and schedules.

  \<^bold>\<open>Data.\<close> A Rust string is a list of Unicode scalar values (\<open>ustr\<close>); \<open>u32\<close> and \<open>u64\<close> are words with the
  saturating operations the code uses; \<open>usize\<close> counts of lists are \<open>nat\<close>; an instant is a number of
  nanoseconds; a \<open>HashMap\<close> or \<open>BTreeMap\<close> is an association list with distinct keys; errors are the left
  side of a sum or \<open>None\<close>. What is outside the repository is an argument: the clock, the file system
  (\<open>fs\_view\<close>, \<open>write\_io\<close>), SQLite (a table that may be unavailable), name resolution and servers, the
  provider's stream, the user's answers, and the tools that a run calls (\<open>world\<close>).

  \<^bold>\<open>Theories.\<close>
  \<^item> \<open>Prelude\<close>, \<open>Json\<close>: strings, machine arithmetic, JSON values and argument readers (\<open>tools/src/args.rs\<close>);
    the locale \<open>bounded\_history\<close> for buffers that drop their oldest entries, interpreted by the
    stagnation window and the summary archive.
  \<^item> \<open>Run\_Mode\<close>, \<open>Run\_Budget\<close>, \<open>Stagnation\<close>: modes, status, usage (\<open>mode.rs\<close>, \<open>state.rs\<close>), the budget with its
    grants, and the detector.
  \<^item> \<open>Shell\_Audit\<close>, \<open>Verification\<close>: what a shell command may destroy, and the ledger of effects that a
    later call has to read back or check. The locale \<open>effect\_gate\<close> is the contract of both gates.
  \<^item> \<open>History\<close>, \<open>Context\_Summary\<close>: the transcript, the filter that drops unpaired tool messages, and
    compression that keeps pairs together.
  \<^item> \<open>Permission\<close>, \<open>Tool\_Gate\<close>: rules, prompts, approvals, and the dispatch of one call.
  \<^item> \<open>Tool\_Batch\<close>, \<open>Tool\_Results\<close>: the schedule of the calls of one turn and the posting of their results.
  \<^item> \<open>Run\_Turn\<close>: one provider turn, from stream events to text and complete calls.
  \<^item> \<open>Todo\_List\<close>, \<open>Retrieval\<close>: the checklist tool and the retrieved block of memories.
  \<^item> \<open>Run\_Loop\<close>, \<open>Run\_Safety\<close>, \<open>Run\_Transcript\<close>: the whole run; it ends (locale \<open>metered\_loop\<close>), it
    concludes only with its effects verified, and no request it sends holds a tool result that answers
    nothing unless the start did. \<open>Orphans\<close> counts such results in lists that may hold some.
  \<^item> \<open>Run\_Undo\<close>, \<open>Run\_Control\<close>: what surrounds a run (\<open>query.rs\<close>, \<open>execute\_budget.rs\<close>, \<open>checkpoint\_store.rs\<close>):
    the contents kept for undo, the guard against stale writes, steering, the budget prompt, checkpoints.
  \<^item> \<open>Memory\_Store\<close>: the memories with their lifecycle, revisions and links (\<open>core/src/memory.rs\<close>,
    \<open>memory\_lifecycle.rs\<close>, \<open>memory\_links.rs\<close>); the steps of the store are an inductive relation.
    \<open>Memory\_Recall\<close>: the recall over it (\<open>retrieval.rs\<close>), the links it makes and the one hop it follows.
  \<^item> \<open>Event\_Log\<close>: buffering, batching, sequence numbers, coalescing and replay of events; the bus is an
    inductive relation with crashes and times at which the database is away. The locale
    \<open>delta\_reducer\<close> is what a reader of the log may rely on.
  \<^item> \<open>Workspace\_Paths\<close>, \<open>File\_Read\<close>, \<open>File\_Write\<close>, \<open>Edit\<close>: path confinement, paged reads, atomic
    writes and the edit tool (\<open>tools/src/files.rs\<close>, \<open>edit.rs\<close>). \<open>Diff\<close>: the diff shown to the user.
  \<^item> \<open>Egress\<close>, \<open>Network\<close>: address classes, the egress policy and the HTTP tool with its redirects.
  \<^item> \<open>Path\_Grants\<close>: time-limited folder grants, as a refinement (locale \<open>simulation\<close>) of a history of grants.
  \<^item> \<open>Reliability\<close>: classification of provider errors, backoff and retries. \<open>Cron\<close>: schedules.
  \<^item> \<open>Utf8\<close>, \<open>Sse\<close>, \<open>Serde\<close>: bytes to text, server-sent events and their independence of chunk borders
    (\<open>providers/src/transport/mod.rs\<close>), and the readers that serde derives. \<open>Provider\_Request\<close>: the request of
    the engine and the grouping of its messages into turns; the locale \<open>wire\_spelling\<close> is what an API has
    to say for that, interpreted by \<open>Anthropic\<close> and by \<open>Gemini\<close>.
  \<^item> \<open>Turn\_Feed\<close>, \<open>Openai\<close>, \<open>Anthropic\<close>, \<open>Gemini\<close>, \<open>Ollama\<close>: the wire formats, each with its request and its
    streaming decoder, composed with \<open>Run\_Turn\<close>: a complete response becomes the turn it describes.
  \<^item> \<open>Dsml\<close>: tool calls that a model wrote as text, their healing and the filter of the live stream.
  \<^item> \<open>Endpoint\<close>, \<open>Presets\<close>, \<open>Discovery\<close>: base URLs and local hosts, the provider catalogue, the model lists
    of local runtimes, and the sweep that finds them (\<open>providers/src/discovery.rs\<close>, \<open>preset/mod.rs\<close>).

  \<^bold>\<open>What is shown.\<close> Every property stands after a text block with its id \<open>C1\<close>, \<open>C2\<close>, and so on. The lemmas
  before it are the laws of its component; the shared ones are in \<open>Prelude\<close>. Each theory ends with
  small closed instances of its properties.

  \<^bold>\<open>Bounds and fuel.\<close> No definition needs fuel: loops end by structural recursion or by a measure of the
  code's own limits (redirect and attempt caps, step limit times remaining grants, length of the
  text left to scan).

  \<^bold>\<open>Not modelled.\<close> Floating-point ranking and cost, SQL and its migrations, encryption and key stores,
  child processes and language servers, the web view, the ChatGPT adapter with its sign-in, and the
  Python and TypeScript parts of the repository.
\<close>

end
